(* ===== verification/TdePrelude.thy ===== *)
theory TdePrelude
  imports Main "HOL-Library.Word"
begin

text \<open>
  Shared vocabulary of the development: the machine types of the C code, the way an
  \<^verbatim>\<open>ereport\<close> and an undefined C operation are represented as values, byte buffers with
  bounds-checked stores, C strings, decimal printing, little-endian words, and the generic
  lemmas about lists and words that the component theories use.
\<close>

section \<open>Machine types and outcomes\<close>

type_synonym byte = "8 word"
type_synonym uint8 = "8 word"
type_synonym uint16 = "16 word"
type_synonym uint32 = "32 word"
type_synonym uint64 = "64 word"
type_synonym int32 = "32 word"
type_synonym oid = "32 word"
type_synonym block_number = "32 word"
type_synonym path = string

text \<open>
  \<^verbatim>\<open>ereport\<close>/\<^verbatim>\<open>elog\<close> at level ERROR or above does not return to its caller: the operation
  ends with that error, and what it had already written to shared state stays written.
  Operations whose behaviour C leaves undefined (a store outside an array, signed
  overflow) end with the outcome \<open>Undefined\<close>, so that their absence can be proved.
\<close>

datatype elevel = ERROR | FATAL | PANIC

datatype pgerror = Ereport elevel string | Undefined string

type_synonym 'a result = "pgerror + 'a"

text \<open>A command threads a state and keeps it when it fails.\<close>

type_synonym ('s, 'a) cmd = "'s \<Rightarrow> 'a result \<times> 's"

named_theorems cmd_simps \<open>unfolding of the command combinators\<close>

definition returnC :: "'a \<Rightarrow> ('s, 'a) cmd" where
  [cmd_simps]: "returnC a s = (Inr a, s)"

definition throwC :: "pgerror \<Rightarrow> ('s, 'a) cmd" where
  [cmd_simps]: "throwC e s = (Inl e, s)"

definition bindC :: "('s, 'a) cmd \<Rightarrow> ('a \<Rightarrow> ('s, 'b) cmd) \<Rightarrow> ('s, 'b) cmd" where
  [cmd_simps]: "bindC m f s = (case m s of (Inl e, t) \<Rightarrow> (Inl e, t) | (Inr a, t) \<Rightarrow> f a t)"

lemma bindC_returnC [simp]: "bindC (returnC a) f = f a"
  by (rule ext) (simp add: cmd_simps)

lemma bindC_throwC [simp]: "bindC (throwC e) f = throwC e"
  by (rule ext) (simp add: cmd_simps)

lemma bindC_assoc: "bindC (bindC m f) g = bindC m (\<lambda>a. bindC (f a) g)"
  by (rule ext) (simp add: cmd_simps split: prod.split sum.split)

lemma bindC_Inr: "m s = (Inr a, t) \<Longrightarrow> bindC m f s = f a t"
  by (simp add: cmd_simps)

lemma bindC_Inl: "m s = (Inl e, t) \<Longrightarrow> bindC m f s = (Inl e, t)"
  by (simp add: cmd_simps)

section \<open>Byte buffers\<close>

text \<open>
  A store of one byte and a copy of a run of bytes into an array. Both are undefined
  outside the array.
\<close>

definition store_byte :: "byte list \<Rightarrow> nat \<Rightarrow> byte \<Rightarrow> byte list result" where
  "store_byte buf i b =
     (if i < length buf then Inr (buf[i := b]) else Inl (Undefined ''store outside the array''))"

definition load_byte :: "byte list \<Rightarrow> nat \<Rightarrow> byte result" where
  "load_byte buf i =
     (if i < length buf then Inr (buf ! i) else Inl (Undefined ''load outside the array''))"

definition copy_bytes :: "byte list \<Rightarrow> nat \<Rightarrow> byte list \<Rightarrow> byte list result" where
  "copy_bytes buf i bs =
     (if i + length bs \<le> length buf then Inr (take i buf @ bs @ drop (i + length bs) buf)
      else Inl (Undefined ''copy outside the array''))"

lemma store_byte_Inr [simp]: "i < length buf \<Longrightarrow> store_byte buf i b = Inr (buf[i := b])"
  by (simp add: store_byte_def)

lemma load_byte_Inr [simp]: "i < length buf \<Longrightarrow> load_byte buf i = Inr (buf ! i)"
  by (simp add: load_byte_def)

lemma copy_bytes_Inr:
  "i + length bs \<le> length buf \<Longrightarrow>
     copy_bytes buf i bs = Inr (take i buf @ bs @ drop (i + length bs) buf)"
  by (simp add: copy_bytes_def)

section \<open>Lists\<close>

lemma upd_in_middle:
  "length xs \<le> i \<Longrightarrow> i < length xs + length ys \<Longrightarrow>
     (xs @ ys @ zs)[i := v] = xs @ ys[i - length xs := v] @ zs"
  by (auto simp: list_update_append)

lemma take_drop_split3:
  "i \<le> j \<Longrightarrow> take i xs @ take (j - i) (drop i xs) @ drop j xs = xs"
  by (metis append_take_drop_id le_add_diff_inverse drop_drop add.commute)

lemma drop_update_at: "n < length xs \<Longrightarrow> drop n (xs[n := v]) = v # drop (Suc n) xs"
  by (subst Cons_nth_drop_Suc [symmetric]) simp_all

lemma take_replicate_zeroD:
  assumes "\<And>i. a \<le> i \<Longrightarrow> i < a + n \<Longrightarrow> xs ! i = (c::'a)" and "a + n \<le> length xs"
  shows "take n (drop a xs) = replicate n c"
  using assms by (intro nth_equalityI) auto

lemma take_drop_chunk:
  "d + m \<le> n \<Longrightarrow> take (n - d) (drop d xs) = take m (drop d xs) @ take (n - (d + m)) (drop (d + m) xs)"
  using take_add [of m "n - (d + m)" "drop d xs"] by (simp add: add.commute)

section \<open>Words\<close>

lemma unat_of_nat_lt:
  "n < 2 ^ LENGTH('a::len) \<Longrightarrow> unat (of_nat n :: 'a word) = n"
  by (simp add: unat_of_nat)

lemma sint_of_nat_lt:
  assumes "n < 2 ^ (LENGTH('a::len) - 1)"
  shows "sint (of_nat n :: 'a word) = int n"
proof -
  have "int n < 2 ^ (LENGTH('a) - 1)"
    using assms by (metis of_nat_less_iff of_nat_numeral of_nat_power)
  then have "signed_take_bit (LENGTH('a) - 1) (int n) = int n"
    by (intro signed_take_bit_int_eq_self) (auto intro: order_trans [of _ 0])
  then show ?thesis
    by (simp add: signed_of_nat)
qed

lemma word_eq_of_nat: "w = of_nat (unat w)"
  by simp

lemma unat_ucast_lt:
  fixes w :: "'a::len word"
  assumes "unat w < 2 ^ LENGTH('b::len)"
  shows "unat (ucast w :: 'b word) = unat w"
proof -
  have "(ucast w :: 'b word) = of_nat (unat w)"
    by simp
  with assms show ?thesis
    by (metis unat_of_nat_lt)
qed

lemma unat_bound: "unat (w :: 'a::len word) < 2 ^ LENGTH('a)"
  by (fact unsigned_less)

lemma unat_plus_1_less:
  fixes i n :: "'a::len word"
  assumes "i < n"
  shows "unat (i + 1) = unat i + 1"
proof -
  have "unat i + 1 < 2 ^ LENGTH('a)"
    using assms unat_bound [of n] unfolding word_less_nat_alt by linarith
  then show ?thesis
    by (simp add: unat_word_ariths)
qed

lemma unat_add_lt:
  fixes a b :: "'a::len word"
  assumes "unat a + unat b < 2 ^ LENGTH('a)"
  shows "unat (a + b) = unat a + unat b"
  using assms by (simp add: unat_word_ariths)

lemma sint_Suc_int32:
  fixes j :: int32
  assumes "j \<noteq> 0x7FFFFFFF"
  shows "sint (j + 1) = sint j + 1"
proof -
  have "sint j \<noteq> sint (0x7FFFFFFF :: int32)"
    using assms signed_word_eqI by blast
  then have "sint j < 2 ^ 31 - 1"
    using sint_lt [of j] by simp
  moreover have "- (2 ^ 31) \<le> sint j"
    using sint_ge [of j] by simp
  ultimately have "signed_take_bit 31 (sint j + 1) = sint j + 1"
    by (intro signed_take_bit_int_eq_self) auto
  then show ?thesis
    by (simp add: sint_word_ariths)
qed

section \<open>Decimal printing\<close>

text \<open>The \<^verbatim>\<open>%u\<close> conversion.\<close>

fun dec :: "nat \<Rightarrow> string" where
  "dec n = (if n < 10 then [char_of (48 + n)] else dec (n div 10) @ [char_of (48 + n mod 10)])"

declare dec.simps [simp del]

definition undec :: "string \<Rightarrow> nat" where
  "undec s = foldl (\<lambda>a c. 10 * a + (of_char c - 48)) 0 s"

lemma undec_dec [simp]: "undec (dec n) = n"
proof (induction n rule: dec.induct)
  case (1 n)
  have d: "of_char (char_of (48 + m) :: char) = 48 + m" if "m < 10" for m :: nat
    using that by (simp add: of_char_of)
  show ?case
  proof (cases "n < 10")
    case True
    then show ?thesis
      by (subst dec.simps) (simp add: undec_def d)
  next
    case False
    then have "undec (dec n) = 10 * undec (dec (n div 10)) + n mod 10"
      by (subst dec.simps) (simp add: undec_def d)
    with 1 False show ?thesis by simp
  qed
qed

lemma dec_inject [simp]: "dec m = dec n \<longleftrightarrow> m = n"
  by (metis undec_dec)

lemma length_dec: "n < 10 ^ Suc k \<Longrightarrow> length (dec n) \<le> Suc k"
proof (induction k arbitrary: n)
  case 0
  then show ?case by (simp add: dec.simps [of n])
next
  case (Suc k)
  then have "length (dec (n div 10)) \<le> Suc k"
    by (intro Suc.IH) (simp add: less_mult_imp_div_less)
  then show ?case by (subst dec.simps) simp
qed

end
