(* ===== verification/KeyringConfig.thy ===== *)
theory KeyringConfig
  imports TdePrelude
begin

text \<open>
  The keyring's configuration: \<^verbatim>\<open>src/keyring/keyring_config.c\<close> and the configuration parts
  of \<^verbatim>\<open>src/keyring/keyring_file.c\<close> and \<^verbatim>\<open>src/keyring/keyring_vault.c\<close>. The JSON library
  is a parameter. The state holds the global variables the three files share.
\<close>

section \<open>JSON values\<close>

datatype json =
    JNull
  | JBool bool
  | JInt int
  | JDouble string
  | JString string
  | JArray "json list"
  | JObject "(string \<times> json) list"

text \<open>
  json-c represents the JSON null by a NULL pointer. \<^verbatim>\<open>json_object_get_string\<close> gives NULL for
  it, the characters for a string and the serialised text for every other value.
\<close>

record json_c =
  json_object_from_file :: "path \<Rightarrow> json option"
  json_tokener_parse :: "string \<Rightarrow> json option"
  json_object_to_json_string :: "json \<Rightarrow> string"

fun json_object_object_get_ex :: "json \<Rightarrow> string \<Rightarrow> json option" where
  "json_object_object_get_ex (JObject fs) name = map_of fs name"
| "json_object_object_get_ex _ name = None"

fun json_object_get_string :: "json_c \<Rightarrow> json \<Rightarrow> string option" where
  "json_object_get_string jc JNull = None"
| "json_object_get_string jc (JString s) = Some s"
| "json_object_get_string jc v = Some (json_object_to_json_string jc v)"

section \<open>Global variables\<close>

datatype KeyringProvider = PROVIDER_UNKNOWN | PROVIDER_FILE | PROVIDER_VAULT_V2

record keyring_config =
  keyringKeyPrefix :: "string option"
  keyringProvider :: KeyringProvider
  keyringFileDataFileName :: string
  keyringVaultToken :: string
  keyringVaultUrl :: string
  keyringVaultCaPath :: string
  keyringVaultMountPath :: string

definition keyring_config_start :: keyring_config where
  "keyring_config_start =
     \<lparr>keyringKeyPrefix = Some '''', keyringProvider = PROVIDER_UNKNOWN,
      keyringFileDataFileName = '''', keyringVaultToken = '''', keyringVaultUrl = '''',
      keyringVaultCaPath = '''', keyringVaultMountPath = ''''\<rparr>"

section \<open>Check hooks\<close>

definition keyringCheckKeyPrefix :: "string option \<Rightarrow> bool result" where
  "keyringCheckKeyPrefix newval =
     (case newval of
        None \<Rightarrow> Inr True
      | Some v \<Rightarrow>
          if length v = 0 then Inr True
          else if length v > 32
          then Inl (Ereport ERROR ''The maximum length of pg_tde.keyringKeyPrefix is 32 characters.'')
          else Inr True)"

text \<open>\<open>access_r\<close> says which files \<^verbatim>\<open>access(path, R_OK)\<close> accepts.\<close>

definition keyringCheckConfigFile :: "(path \<Rightarrow> bool) \<Rightarrow> string option \<Rightarrow> bool result" where
  "keyringCheckConfigFile access_r newval =
     (case newval of
        None \<Rightarrow> Inr True
      | Some v \<Rightarrow>
          if length v = 0 then Inr True
          else if \<not> access_r v
          then Inl (Ereport ERROR ''The file referenced by pg_tde.keyringConfigFile is not readable'')
          else Inr True)"

section \<open>Reading parameters\<close>

text \<open>An object value only causes a warning; its text is used.\<close>

definition keyringParseStringParam :: "json_c \<Rightarrow> json \<Rightarrow> string option" where
  "keyringParseStringParam jc object = json_object_get_string jc object"

text \<open>
  \<^verbatim>\<open>strcpy\<close> into the 512-byte array \<^verbatim>\<open>keyringFileDataFileName\<close> has no length check: a longer text
  is copied past the end of the array. The outcome is then \<open>Undefined\<close>; the variable holds the whole
  text, and what lies behind it is lost.
\<close>

definition keyringFileParseConfiguration ::
  "json_c \<Rightarrow> json \<Rightarrow> (keyring_config, bool) cmd" where
  "keyringFileParseConfiguration jc configRoot cfg =
     (case json_object_object_get_ex configRoot ''datafile'' of
        None \<Rightarrow> (Inl (Ereport ERROR ''Missing datafile attribute.''), cfg)
      | Some dataO \<Rightarrow>
          (case keyringParseStringParam jc dataO of
             None \<Rightarrow> (Inl (Ereport ERROR ''Could not parse datafile attribute.''), cfg)
           | Some datafile \<Rightarrow>
               if length datafile < 512
               then (Inr True, cfg\<lparr>keyringFileDataFileName := datafile\<rparr>)
               else (Inl (Undefined ''strcpy past keyringFileDataFileName''), cfg\<lparr>keyringFileDataFileName := datafile\<rparr>)))"

text \<open>
  The extracted value, \<open>None\<close> when the function returns 0. \<^verbatim>\<open>strncpy(out, s, outMaxLen-1)\<close>
  leaves the last byte of the zero-initialised array, so the array holds the first
  \<open>outMaxLen - 1\<close> characters as a string.
\<close>

definition keyringConfigExtractParameter ::
  "json_c \<Rightarrow> json \<Rightarrow> string \<Rightarrow> nat \<Rightarrow> bool \<Rightarrow> string option result" where
  "keyringConfigExtractParameter jc configRoot name outMaxLen optional =
     (case json_object_object_get_ex configRoot name of
        None \<Rightarrow> if \<not> optional then Inl (Ereport ERROR (''Missing attribute '' @ name)) else Inr None
      | Some dataO \<Rightarrow>
          (case keyringParseStringParam jc dataO of
             None \<Rightarrow> if \<not> optional then Inl (Ereport ERROR (''Could not parse attribute '' @ name)) else Inr None
           | Some stringData \<Rightarrow> Inr (Some (take (outMaxLen - 1) stringData))))"

definition keyringVaultParseConfiguration ::
  "json_c \<Rightarrow> json \<Rightarrow> (keyring_config, bool) cmd" where
  "keyringVaultParseConfiguration jc configRoot cfg =
     (case keyringConfigExtractParameter jc configRoot ''token'' 128 False of
        Inl e \<Rightarrow> (Inl e, cfg)
      | Inr None \<Rightarrow> (Inr False, cfg)
      | Inr (Some token) \<Rightarrow>
     (let cfg = cfg\<lparr>keyringVaultToken := token\<rparr> in
      case keyringConfigExtractParameter jc configRoot ''url'' 128 False of
        Inl e \<Rightarrow> (Inl e, cfg)
      | Inr None \<Rightarrow> (Inr False, cfg)
      | Inr (Some url) \<Rightarrow>
     (let cfg = cfg\<lparr>keyringVaultUrl := url\<rparr> in
      case keyringConfigExtractParameter jc configRoot ''mountPath'' 128 False of
        Inl e \<Rightarrow> (Inl e, cfg)
      | Inr None \<Rightarrow> (Inr False, cfg)
      | Inr (Some mount) \<Rightarrow>
     (let cfg = cfg\<lparr>keyringVaultMountPath := mount\<rparr> in
      case keyringConfigExtractParameter jc configRoot ''caPath'' 256 True of
        Inl e \<Rightarrow> (Inl e, cfg)
      | Inr None \<Rightarrow> (Inr True, cfg)
      | Inr (Some ca) \<Rightarrow> (Inr True, cfg\<lparr>keyringVaultCaPath := ca\<rparr>)))))"

section \<open>Loading the configuration\<close>

text \<open>
  The two provider tests follow each other; \<^verbatim>\<open>strncmp\<close> over the terminating NUL compares
  whole strings.
\<close>

definition load_provider ::
  "bool \<Rightarrow> (keyring_config, bool) cmd \<Rightarrow> KeyringProvider \<Rightarrow> bool \<Rightarrow> (keyring_config, bool) cmd" where
  "load_provider matches parse prov ret =
     (if matches
      then bindC parse (\<lambda>r cfg. (Inr r, if r then cfg\<lparr>keyringProvider := prov\<rparr> else cfg))
      else returnC ret)"

definition keyringLoadConfiguration ::
  "json_c \<Rightarrow> path \<Rightarrow> (keyring_config, bool) cmd" where
  "keyringLoadConfiguration jc configFileName =
     (case json_object_from_file jc configFileName of
        None \<Rightarrow> throwC (Ereport ERROR ''pg_tde.keyringConfigFile is not a valid JSON file.'')
      | Some root \<Rightarrow>
          (case json_object_object_get_ex root ''provider'' of
             None \<Rightarrow> throwC (Ereport ERROR ''Invalid pg_tde.keyringConfigFile: Missing provider.'')
           | Some providerO \<Rightarrow>
               (case json_object_get_string jc providerO of
                  None \<Rightarrow> throwC (Ereport ERROR ''Invalid pg_tde.keyringConfigFile: Empty provider.'')
                | Some provider \<Rightarrow>
                    if length provider = 0
                    then throwC (Ereport ERROR ''Invalid pg_tde.keyringConfigFile: Empty provider.'')
                    else
                      bindC (load_provider (provider = ''file'')
                               (keyringFileParseConfiguration jc root) PROVIDER_FILE False)
                      (\<lambda>ret. bindC (load_provider (provider = ''vault-v2'')
                               (keyringVaultParseConfiguration jc root) PROVIDER_VAULT_V2 ret)
                      (\<lambda>ret cfg.
                         if keyringProvider cfg = PROVIDER_UNKNOWN
                         then (Inl (Ereport ERROR ''Invalid pg_tde.keyringConfigFile: Unknown provider''), cfg)
                         else if \<not> ret
                         then (Inl (Ereport ERROR ''Failed to initialize keyring provider.''), cfg)
                         else (Inr ret, cfg))))))"

definition keyringAssignConfigFile ::
  "json_c \<Rightarrow> string option \<Rightarrow> (keyring_config, unit) cmd" where
  "keyringAssignConfigFile jc newval =
     (case newval of
        None \<Rightarrow> returnC ()
      | Some v \<Rightarrow>
          if length v = 0 then returnC ()
          else bindC (keyringLoadConfiguration jc v) (\<lambda>_. returnC ()))"

section \<open>The strings stay within their arrays\<close>

text \<open>
  The sizes of the arrays behind the configuration strings, with the terminating NUL:
  \<^verbatim>\<open>keyringFileDataFileName[512]\<close>, \<^verbatim>\<open>keyringVaultToken[128]\<close>, \<^verbatim>\<open>keyringVaultUrl[128]\<close>,
  \<^verbatim>\<open>keyringVaultCaPath[256]\<close>, \<^verbatim>\<open>keyringVaultMountPath[128]\<close>.
\<close>

definition config_wf :: "keyring_config \<Rightarrow> bool" where
  "config_wf cfg \<longleftrightarrow>
     length (keyringFileDataFileName cfg) < 512 \<and> length (keyringVaultToken cfg) < 128 \<and>
     length (keyringVaultUrl cfg) < 128 \<and> length (keyringVaultCaPath cfg) < 256 \<and>
     length (keyringVaultMountPath cfg) < 128"

lemma keyring_config_start_wf [simp]: "config_wf keyring_config_start"
  by (simp add: config_wf_def keyring_config_start_def)

lemma keyringConfigExtractParameter_bound:
  "keyringConfigExtractParameter jc root nm n opt = Inr (Some v) \<Longrightarrow> 0 < n \<Longrightarrow> length v < n"
  by (auto simp: keyringConfigExtractParameter_def split: option.splits if_splits)

text \<open>The text of an attribute of the configuration file, and the outcome of the one unchecked copy.\<close>

definition attribute :: "json_c \<Rightarrow> json \<Rightarrow> string \<Rightarrow> string option" where
  "attribute jc root nm = Option.bind (json_object_object_get_ex root nm) (json_object_get_string jc)"

abbreviation strcpy_overflow :: "pgerror + 'a" where
  "strcpy_overflow \<equiv> Inl (Undefined ''strcpy past keyringFileDataFileName'')"

definition overlong_datafile :: "json_c \<Rightarrow> json \<Rightarrow> bool" where
  "overlong_datafile jc root \<longleftrightarrow> (\<exists>d. attribute jc root ''datafile'' = Some d \<and> 512 \<le> length d)"

lemma keyringFileParseConfiguration_wf:
  assumes "keyringFileParseConfiguration jc root cfg = (r, cfg')" "config_wf cfg"
  shows "r = strcpy_overflow \<longleftrightarrow> overlong_datafile jc root" "r \<noteq> strcpy_overflow \<Longrightarrow> config_wf cfg'"
    "keyringProvider cfg' = keyringProvider cfg"
  using assms
  by (auto simp: keyringFileParseConfiguration_def config_wf_def overlong_datafile_def attribute_def
      keyringParseStringParam_def split: option.splits if_splits)

lemma keyringVaultParseConfiguration_wf:
  assumes "keyringVaultParseConfiguration jc root cfg = (r, cfg')" "config_wf cfg"
  shows "r \<noteq> strcpy_overflow" "config_wf cfg'" "keyringProvider cfg' = keyringProvider cfg"
  using assms
  by (auto simp: keyringVaultParseConfiguration_def config_wf_def Let_def keyringConfigExtractParameter_def
      split: option.splits sum.splits if_splits)

lemma load_provider_wf:
  assumes "load_provider m parse prov ret cfg = (r, cfg')" "config_wf cfg"
    and "\<And>q c. parse cfg = (q, c) \<Longrightarrow> (q = strcpy_overflow \<longleftrightarrow> bad) \<and> (q \<noteq> strcpy_overflow \<longrightarrow> config_wf c)"
  shows "r = strcpy_overflow \<longleftrightarrow> m \<and> bad" "r \<noteq> strcpy_overflow \<Longrightarrow> config_wf cfg'"
proof -
  obtain q c where c: "parse cfg = (q, c)" by fastforce
  show "r = strcpy_overflow \<longleftrightarrow> m \<and> bad" "r \<noteq> strcpy_overflow \<Longrightarrow> config_wf cfg'"
    using assms(3) [OF c] assms(1,2) c
    by (auto simp: load_provider_def cmd_simps config_wf_def split: if_splits sum.splits)
qed

lemma keyringLoadConfiguration_wf:
  assumes "keyringLoadConfiguration jc f cfg = (r, cfg')" "config_wf cfg"
  shows "(r = strcpy_overflow \<longleftrightarrow>
      (\<exists>root. json_object_from_file jc f = Some root \<and> attribute jc root ''provider'' = Some ''file'' \<and> overlong_datafile jc root)) \<and>
    (r \<noteq> strcpy_overflow \<longrightarrow> config_wf cfg')"
proof (cases "\<exists>root provider. json_object_from_file jc f = Some root \<and> attribute jc root ''provider'' = Some provider \<and> provider \<noteq> ''''")
  case True
  then obtain root provider where root: "json_object_from_file jc f = Some root" "attribute jc root ''provider'' = Some provider"
    "provider \<noteq> ''''" by blast
  let ?test = "\<lambda>ret cfg. if keyringProvider cfg = PROVIDER_UNKNOWN
           then (Inl (Ereport ERROR ''Invalid pg_tde.keyringConfigFile: Unknown provider''), cfg)
           else if \<not> ret then (Inl (Ereport ERROR ''Failed to initialize keyring provider.''), cfg)
           else (Inr ret, cfg)"
  have step: "bindC (load_provider (provider = ''file'') (keyringFileParseConfiguration jc root) PROVIDER_FILE False)
      (\<lambda>ret. bindC (load_provider (provider = ''vault-v2'') (keyringVaultParseConfiguration jc root) PROVIDER_VAULT_V2 ret) ?test) cfg
      = (r, cfg')"
    using assms(1) root
    by (auto simp: keyringLoadConfiguration_def throwC_def attribute_def split: option.splits if_splits bind_splits)
  obtain q c where c: "load_provider (provider = ''file'') (keyringFileParseConfiguration jc root) PROVIDER_FILE False cfg = (q, c)"
    by fastforce
  have q: "q = strcpy_overflow \<longleftrightarrow> provider = ''file'' \<and> overlong_datafile jc root" "q \<noteq> strcpy_overflow \<Longrightarrow> config_wf c"
    using load_provider_wf [OF c assms(2), of "overlong_datafile jc root"] keyringFileParseConfiguration_wf [OF _ assms(2)] by blast+
  show ?thesis
  proof (cases q)
    case (Inl e)
    with step c q root show ?thesis by (auto simp: bindC_def)
  next
    case (Inr ret)
    then have wf: "config_wf c" "\<not> (provider = ''file'' \<and> overlong_datafile jc root)"
      using q by auto
    obtain q' c' where c': "load_provider (provider = ''vault-v2'') (keyringVaultParseConfiguration jc root) PROVIDER_VAULT_V2 ret c = (q', c')"
      by fastforce
    then have "q' \<noteq> strcpy_overflow" "config_wf c'"
      using load_provider_wf [OF c' wf(1), of False] keyringVaultParseConfiguration_wf [OF _ wf(1)] by blast+
    moreover have "(r, cfg') = (case q' of Inl e \<Rightarrow> (Inl e, c') | Inr ret \<Rightarrow> ?test ret c')"
      using step c Inr c' by (simp add: bindC_def)
    ultimately show ?thesis
      using wf(2) root(1,2) by (auto split: sum.splits if_splits)
  qed
next
  case False
  then have "cfg' = cfg \<and> r \<noteq> strcpy_overflow"
    using assms(1)
    by (auto simp: keyringLoadConfiguration_def throwC_def attribute_def split: option.splits if_splits bind_splits)
  with False assms(2) show ?thesis
    by auto
qed

text \<open>
  (C38) The bounds of the configuration strings, for every configuration file, also one whose
  loading fails half way: an assignment of \<^verbatim>\<open>pg_tde.keyringConfigFile\<close> writes past an array exactly
  when the file names the file provider and a \<^verbatim>\<open>datafile\<close> of 512 characters or more (the unchecked
  \<^verbatim>\<open>strcpy\<close>); after every other assignment each string lies in its array, with its NUL.
\<close>

theorem config_strings_in_bounds:
  assumes "config_wf cfg" "keyringAssignConfigFile jc newval cfg = (r, cfg')"
  shows "(r = strcpy_overflow \<longleftrightarrow>
      (\<exists>f root d. newval = Some f \<and> f \<noteq> '''' \<and> json_object_from_file jc f = Some root \<and>
         attribute jc root ''provider'' = Some ''file'' \<and> attribute jc root ''datafile'' = Some d \<and> 512 \<le> length d)) \<and>
    (r \<noteq> strcpy_overflow \<longrightarrow> config_wf cfg')"
proof (cases "\<exists>f. newval = Some f \<and> f \<noteq> ''''")
  case True
  then obtain f where f: "newval = Some f" "f \<noteq> ''''" by blast
  obtain q c where q: "keyringLoadConfiguration jc f cfg = (q, c)" by fastforce
  then have "cfg' = c" "r = strcpy_overflow \<longleftrightarrow> q = strcpy_overflow"
    using assms(2) f by (auto simp: keyringAssignConfigFile_def cmd_simps split: sum.splits)
  with keyringLoadConfiguration_wf [OF q assms(1)] f show ?thesis
    by (auto simp: overlong_datafile_def)
next
  case False
  then show ?thesis
    using assms by (auto simp: keyringAssignConfigFile_def cmd_simps split: option.splits)
qed

text \<open>A JSON library for the concrete instances: one configuration file of the file provider.\<close>

definition demo_json :: json_c where
  "demo_json = \<lparr>json_object_from_file = [''/conf'' \<mapsto> JObject [(''provider'', JString ''file''), (''datafile'', JString ''/keyring'')]],
     json_tokener_parse = (\<lambda>_. None), json_object_to_json_string = (\<lambda>_. ''{}'')\<rparr>"

lemma demo_json_load:
  "keyringLoadConfiguration demo_json ''/conf'' keyring_config_start =
     (Inr True, keyring_config_start\<lparr>keyringFileDataFileName := ''/keyring'', keyringProvider := PROVIDER_FILE\<rparr>)"
  by (simp add: keyringLoadConfiguration_def demo_json_def load_provider_def keyringFileParseConfiguration_def
      keyringParseStringParam_def bindC_def returnC_def keyring_config_start_def)

text \<open>A configuration file that loads, and one whose data file has a name of 512 characters.\<close>

definition demo_long_name :: string where
  "demo_long_name = replicate 512 CHR ''x''"

definition demo_long_json :: json_c where
  "demo_long_json = demo_json\<lparr>json_object_from_file :=
     [''/conf'' \<mapsto> JObject [(''provider'', JString ''file''), (''datafile'', JString demo_long_name)]]\<rparr>"

theorem config_strings_in_bounds_witness:
  "(\<exists>cfg'. keyringAssignConfigFile demo_json (Some ''/conf'') keyring_config_start = (Inr (), cfg') \<and> config_wf cfg') \<and>
   fst (keyringAssignConfigFile demo_long_json (Some ''/conf'') keyring_config_start) = strcpy_overflow"
proof
  obtain cfg' where *: "keyringAssignConfigFile demo_json (Some ''/conf'') keyring_config_start = (Inr (), cfg')"
    by (simp add: keyringAssignConfigFile_def bindC_def returnC_def demo_json_load)
  from config_strings_in_bounds [OF keyring_config_start_wf this] *
  show "\<exists>cfg'. keyringAssignConfigFile demo_json (Some ''/conf'') keyring_config_start = (Inr (), cfg') \<and> config_wf cfg'"
    by simp
  obtain r c where c: "keyringAssignConfigFile demo_long_json (Some ''/conf'') keyring_config_start = (r, c)"
    by fastforce
  have "512 \<le> length demo_long_name"
    by (simp add: demo_long_name_def)
  then show "fst (keyringAssignConfigFile demo_long_json (Some ''/conf'') keyring_config_start) = strcpy_overflow"
    using config_strings_in_bounds [OF keyring_config_start_wf c] c
    by (simp add: demo_long_json_def demo_json_def attribute_def)
qed

section \<open>What a loaded configuration says\<close>

lemma extracted_attribute:
  "keyringConfigExtractParameter jc root nm n opt = Inr (Some v) \<longleftrightarrow>
     (\<exists>a. attribute jc root nm = Some a \<and> v = take (n - 1) a)"
  by (auto simp: keyringConfigExtractParameter_def attribute_def keyringParseStringParam_def split: option.splits if_splits)

lemma keyringVaultParseConfiguration_true:
  assumes "keyringVaultParseConfiguration jc root cfg = (Inr True, cfg')"
  shows "map_option (take 127) (attribute jc root ''token'') = Some (keyringVaultToken cfg') \<and>
    map_option (take 127) (attribute jc root ''url'') = Some (keyringVaultUrl cfg') \<and>
    map_option (take 127) (attribute jc root ''mountPath'') = Some (keyringVaultMountPath cfg')"
  using assms
  by (auto simp: keyringVaultParseConfiguration_def Let_def extracted_attribute split: sum.splits option.splits)

lemma keyringFileParseConfiguration_true:
  assumes "keyringFileParseConfiguration jc root cfg = (Inr r, cfg')"
  shows "r \<and> attribute jc root ''datafile'' = Some (keyringFileDataFileName cfg')"
  using assms
  by (auto simp: keyringFileParseConfiguration_def attribute_def keyringParseStringParam_def split: option.splits if_splits)

text \<open>
  A configuration file that loads without an error selects the provider it names, and the
  provider's mandatory parameters are those of the file (Vault's cut to 127 characters); a file
  that names any other provider never loads.
\<close>

lemma loaded_configuration_is_in_force:
  assumes "keyringLoadConfiguration jc f cfg = (Inr r, cfg')"
  shows "r \<and> (\<exists>root. json_object_from_file jc f = Some root \<and>
     (attribute jc root ''provider'' = Some ''file'' \<and> keyringProvider cfg' = PROVIDER_FILE \<and>
        attribute jc root ''datafile'' = Some (keyringFileDataFileName cfg') \<or>
      attribute jc root ''provider'' = Some ''vault-v2'' \<and> keyringProvider cfg' = PROVIDER_VAULT_V2 \<and>
        map_option (take 127) (attribute jc root ''token'') = Some (keyringVaultToken cfg') \<and>
        map_option (take 127) (attribute jc root ''url'') = Some (keyringVaultUrl cfg') \<and>
        map_option (take 127) (attribute jc root ''mountPath'') = Some (keyringVaultMountPath cfg')))"
proof -
  obtain root provider where root: "json_object_from_file jc f = Some root" "attribute jc root ''provider'' = Some provider"
    and step: "bindC (load_provider (provider = ''file'') (keyringFileParseConfiguration jc root) PROVIDER_FILE False)
      (\<lambda>ret. bindC (load_provider (provider = ''vault-v2'') (keyringVaultParseConfiguration jc root) PROVIDER_VAULT_V2 ret)
        (\<lambda>ret cfg. if keyringProvider cfg = PROVIDER_UNKNOWN
           then (Inl (Ereport ERROR ''Invalid pg_tde.keyringConfigFile: Unknown provider''), cfg)
           else if \<not> ret then (Inl (Ereport ERROR ''Failed to initialize keyring provider.''), cfg)
           else (Inr ret, cfg))) cfg = (Inr r, cfg')"
    using assms by (auto simp: keyringLoadConfiguration_def throwC_def attribute_def split: option.splits if_splits)
  consider "provider = ''file''" | "provider = ''vault-v2''" | "provider \<noteq> ''file''" "provider \<noteq> ''vault-v2''"
    by blast
  then show ?thesis
  proof cases
    case 1
    obtain q c where c: "keyringFileParseConfiguration jc root cfg = (q, c)" by fastforce
    with 1 step obtain r' where "q = Inr r'" by (cases q) (auto simp: load_provider_def bindC_def)
    with keyringFileParseConfiguration_true [of jc root cfg r' c] c 1 step root show ?thesis
      by (auto simp: load_provider_def bindC_def returnC_def)
  next
    case 2
    obtain q c where c: "keyringVaultParseConfiguration jc root cfg = (q, c)" by fastforce
    with 2 step have "q = Inr True"
      by (cases q) (auto simp: load_provider_def bindC_def returnC_def split: if_splits)
    with keyringVaultParseConfiguration_true [of jc root cfg c] c 2 step root show ?thesis
      by (auto simp: load_provider_def bindC_def returnC_def)
  next
    case 3
    with step show ?thesis by (simp add: load_provider_def bindC_def returnC_def split: if_splits)
  qed
qed

lemma loaded_configuration_is_in_force_witness:
  "\<exists>root. json_object_from_file demo_json ''/conf'' = Some root \<and> attribute demo_json root ''provider'' = Some ''file''"
  using loaded_configuration_is_in_force [OF demo_json_load] by auto

end
