(* ===== verification/Keyring.thy ===== *)
theory Keyring
  imports KeyringConfig "HOL-Library.Word"
begin

text \<open>
  The keyring: the shared cache of master keys of \<^verbatim>\<open>src/keyring/keyring_api.c\<close>, the file
  provider of \<^verbatim>\<open>src/keyring/keyring_file.c\<close> and the Vault provider of
  \<^verbatim>\<open>src/keyring/keyring_vault.c\<close>. Pointers into the cache are indices of its array. The
  operating system's file calls, curl, the JSON and base64 libraries and the Vault server
  are parameters.
\<close>

section \<open>Data\<close>

type_synonym keyName = string

record keyData =
  kd_data :: "byte list"
  kd_len :: uint32

record keyInfo =
  ki_name :: keyName
  ki_data :: keyData

abbreviation (input) MAX_CACHE_ENTRIES :: "'a::numeral" where "MAX_CACHE_ENTRIES \<equiv> 1024"

record keyringCache =
  kc_keys :: "keyInfo list"
  keyCount :: uint32

definition zero_key :: keyInfo where
  "zero_key = \<lparr>ki_name = '''', ki_data = \<lparr>kd_data = replicate 32 0, kd_len = 0\<rparr>\<rparr>"

definition zero_cache :: keyringCache where
  "zero_cache = \<lparr>kc_keys = replicate MAX_CACHE_ENTRIES zero_key, keyCount = 0\<rparr>"

section \<open>External services\<close>

datatype curl_opt =
    is_CURLOPT_HTTPHEADER: CURLOPT_HTTPHEADER "string list"
  | is_CURLOPT_SSL_VERIFYPEER: CURLOPT_SSL_VERIFYPEER int
  | is_CURLOPT_SSL_VERIFYHOST: CURLOPT_SSL_VERIFYHOST int
  | is_CURLOPT_USE_SSL_ALL: CURLOPT_USE_SSL_ALL
  | is_CURLOPT_CAINFO: CURLOPT_CAINFO string
  | is_CURLOPT_FOLLOWLOCATION: CURLOPT_FOLLOWLOCATION int
  | is_CURLOPT_CONNECTTIMEOUT: CURLOPT_CONNECTTIMEOUT int
  | is_CURLOPT_TIMEOUT: CURLOPT_TIMEOUT int
  | is_CURLOPT_HTTP_VERSION_1_1: CURLOPT_HTTP_VERSION_1_1
  | is_CURLOPT_WRITEFUNCTION: CURLOPT_WRITEFUNCTION
  | is_CURLOPT_WRITEDATA: CURLOPT_WRITEDATA
  | is_CURLOPT_URL: CURLOPT_URL string
  | is_CURLOPT_POSTFIELDS: CURLOPT_POSTFIELDS "string option"
  | is_CURLOPT_POST: CURLOPT_POST int

text \<open>
  \<open>curl_easy_perform\<close> takes the options set on the handle, latest first, and the outside
  world; it gives the status code and the pieces of the body that it passes to the write
  function, or \<open>None\<close> when the transfer fails. \<open>fwrite_ok\<close> says whether the image of the
  cache reaches the file, \<open>fwrite_cut\<close> how many of its bytes do when it does not. \<open>pg_b64_encode\<close> and \<open>pg_b64_decode\<close> give the bytes written, or
  \<open>None\<close> for the return value -1.
\<close>

record 'w keyring_ext =
  fopen_w :: "path \<Rightarrow> bool"
  fwrite_ok :: "path \<Rightarrow> bool"
  fwrite_cut :: "path \<Rightarrow> nat"
  curl_easy_init :: bool
  curl_slist_append :: "string list \<Rightarrow> string \<Rightarrow> string list option"
  curl_easy_setopt :: "curl_opt \<Rightarrow> bool"
  curl_easy_perform :: "'w \<Rightarrow> curl_opt list \<Rightarrow> (int \<times> string list) option \<times> 'w"
  curl_easy_getinfo :: bool
  pg_b64_encode :: "byte list \<Rightarrow> nat \<Rightarrow> string option"
  pg_b64_decode :: "string \<Rightarrow> nat \<Rightarrow> byte list option"
  json_lib :: json_c
  uninit_key :: "byte list"

text \<open>A data file holds an image of the cache, or only the first bytes of one.\<close>

datatype cache_file = Whole keyringCache | Cut nat keyringCache

record 'w keyring_state =
  kr_cache :: keyringCache
  kr_files :: "path \<Rightarrow> cache_file option"
  kr_curl :: "curl_opt list option"
  kr_curlList :: "string list option"
  kr_world :: 'w

section \<open>The Vault provider's HTTP client\<close>

text \<open>\<open>writefunc\<close> appends a piece of the body to the string collected so far.\<close>

definition writefunc :: "string \<Rightarrow> string \<Rightarrow> string" where
  "writefunc s piece = s @ piece"

text \<open>\<open>setopts\<close>: a sequence of \<^verbatim>\<open>curl_easy_setopt\<close> calls, left at the first failure.\<close>

fun setopts :: "'w keyring_ext \<Rightarrow> curl_opt list \<Rightarrow> curl_opt list \<Rightarrow> bool \<times> curl_opt list" where
  "setopts ext [] opts = (True, opts)"
| "setopts ext (opt # rest) opts =
     (if curl_easy_setopt ext opt then setopts ext rest (opt # opts) else (False, opts))"

definition session_options :: "keyring_config \<Rightarrow> string list \<Rightarrow> string \<Rightarrow> curl_opt list" where
  "session_options cfg headers url =
     [CURLOPT_HTTPHEADER headers, CURLOPT_SSL_VERIFYPEER 1, CURLOPT_SSL_VERIFYHOST 1, CURLOPT_USE_SSL_ALL] @
     (if length (keyringVaultCaPath cfg) > 0 then [CURLOPT_CAINFO (keyringVaultCaPath cfg)] else []) @
     [CURLOPT_FOLLOWLOCATION 1, CURLOPT_CONNECTTIMEOUT 3, CURLOPT_TIMEOUT 10, CURLOPT_HTTP_VERSION_1_1,
      CURLOPT_WRITEFUNCTION, CURLOPT_WRITEDATA, CURLOPT_URL url]"

text \<open>
  The header list is built once and kept; the \<^verbatim>\<open>strcpy\<close>/\<^verbatim>\<open>strcat\<close> into \<^verbatim>\<open>tokenHeader[256]\<close>
  is undefined when the token does not fit. A failed append leaves \<^verbatim>\<open>curlList\<close> NULL.
\<close>

definition curl_headers ::
  "'w keyring_ext \<Rightarrow> keyring_config \<Rightarrow> ('w keyring_state, bool) cmd" where
  "curl_headers ext cfg s =
     (case kr_curlList s of
        Some hs \<Rightarrow> (Inr True, s)
      | None \<Rightarrow>
          if length (''X-Vault-Token:'' @ keyringVaultToken cfg) \<ge> 256
          then (Inl (Undefined ''strcat past tokenHeader''), s)
          else
            (case curl_slist_append ext [] (''X-Vault-Token:'' @ keyringVaultToken cfg) of
               None \<Rightarrow> (Inr False, s)
             | Some hs \<Rightarrow>
                 (case curl_slist_append ext hs ''Content-Type: application/json'' of
                    None \<Rightarrow> (Inr False, s)
                  | Some hs' \<Rightarrow> (Inr True, s\<lparr>kr_curlList := Some hs'\<rparr>))))"

definition curlSetupSession ::
  "'w keyring_ext \<Rightarrow> keyring_config \<Rightarrow> string \<Rightarrow> ('w keyring_state, bool) cmd" where
  "curlSetupSession ext cfg url s =
     (let s = (if kr_curl s = None \<and> curl_easy_init ext then s\<lparr>kr_curl := Some []\<rparr> else s)
      in case kr_curl s of
           None \<Rightarrow> (Inr False, s)
         | Some opts \<Rightarrow>
             bindC (curl_headers ext cfg)
               (\<lambda>ok s. if \<not> ok then (Inr False, s)
                  else (case setopts ext (session_options cfg (the (kr_curlList s)) url) opts of
                          (r, opts') \<Rightarrow> (Inr r, s\<lparr>kr_curl := Some opts'\<rparr>))) s)"

text \<open>The result is \<open>None\<close> when the function returns 0, else status code and body.\<close>

definition curlPerform ::
  "'w keyring_ext \<Rightarrow> keyring_config \<Rightarrow> string \<Rightarrow> string option
     \<Rightarrow> ('w keyring_state, (int \<times> string) option) cmd" where
  "curlPerform ext cfg url postData =
     bindC (curlSetupSession ext cfg url)
       (\<lambda>ok s.
          if \<not> ok then (Inr None, s)
          else
            (case setopts ext
                    (case postData of
                       Some d \<Rightarrow> [CURLOPT_POSTFIELDS (Some d)]
                     | None \<Rightarrow> [CURLOPT_POSTFIELDS None, CURLOPT_POST 0])
                    (the (kr_curl s)) of
               (ok', opts) \<Rightarrow>
                 (let s = s\<lparr>kr_curl := Some opts\<rparr>
                  in if \<not> ok' then (Inr None, s)
                     else (case curl_easy_perform ext (kr_world s) opts of
                             (None, w) \<Rightarrow> (Inr None, s\<lparr>kr_world := w\<rparr>)
                           | (Some (code, pieces), w) \<Rightarrow>
                               if \<not> curl_easy_getinfo ext then (Inr None, s\<lparr>kr_world := w\<rparr>)
                               else (Inr (Some (code, foldl writefunc '''' pieces)), s\<lparr>kr_world := w\<rparr>)))))"

section \<open>The Vault provider\<close>

text \<open>\<^verbatim>\<open>strcpy\<close> and \<^verbatim>\<open>strcat\<close> into \<^verbatim>\<open>char url[512]\<close> of the callers.\<close>

definition keyringVaultKeyUrl :: "keyring_config \<Rightarrow> keyName \<Rightarrow> string result" where
  "keyringVaultKeyUrl cfg nm =
     (let url = keyringVaultUrl cfg @ ''/v1/'' @ keyringVaultMountPath cfg @ ''/data/'' @ nm
      in if length url < 512 then Inr url else Inl (Undefined ''strcat past url''))"

definition keyringVaultPreloadCache :: "('w keyring_state, bool) cmd" where
  "keyringVaultPreloadCache s = (Inr True, s)"

definition keyringVaultStoreKey ::
  "'w keyring_ext \<Rightarrow> keyring_config \<Rightarrow> keyInfo \<Rightarrow> ('w keyring_state, bool) cmd" where
  "keyringVaultStoreKey ext cfg ki s =
     (case pg_b64_encode ext (take (unat (kd_len (ki_data ki))) (kd_data (ki_data ki))) 64 of
        None \<Rightarrow> (Inl (Undefined ''keyData[-1]''), s)
      | Some b64 \<Rightarrow>
          if length b64 \<ge> 64 then (Inl (Undefined ''store past keyData''), s)
          else
            (case keyringVaultKeyUrl cfg (ki_name ki) of
               Inl e \<Rightarrow> (Inl e, s)
             | Inr url \<Rightarrow>
                 bindC (curlPerform ext cfg url
                          (Some (json_object_to_json_string (json_lib ext)
                             (JObject [(''data'', JObject [(''key'', JString b64)])]))))
                   (\<lambda>r s. case r of
                      None \<Rightarrow> (Inl (Ereport ERROR ''HTTP(S) request to vault failed.''), s)
                    | Some (httpCode, body) \<Rightarrow> (Inr (httpCode div 100 = 2), s)) s))"

text \<open>
  \<open>keyringVaultGetKey\<close> fills \<^verbatim>\<open>*outData\<close>. The state of \<^verbatim>\<open>*outData\<close> beside the return value
  is part of the result: \<^verbatim>\<open>pg_b64_decode\<close> returns -1 on malformed input, which becomes the
  \<^verbatim>\<open>unsigned\<close> length 4294967295, and the check for 32 bytes comes after the assignment.
\<close>

definition vault_key_text :: "json_c \<Rightarrow> string \<Rightarrow> string result" where
  "vault_key_text jc body =
     (case json_tokener_parse jc body of
        None \<Rightarrow> Inl (Ereport ERROR ''Vault response is not a json object.'')
      | Some response \<Rightarrow>
          (case json_object_object_get_ex response ''data'' of
             None \<Rightarrow> Inl (Ereport ERROR ''No data attribute in Vault response.'')
           | Some d1 \<Rightarrow>
               (case json_object_object_get_ex d1 ''data'' of
                  None \<Rightarrow> Inl (Ereport ERROR ''No data.data attribute in Vault response.'')
                | Some d2 \<Rightarrow>
                    (case json_object_object_get_ex d2 ''key'' of
                       None \<Rightarrow> Inl (Ereport ERROR ''No data.data.key attribute in Vault response.'')
                     | Some keyO \<Rightarrow>
                         (case json_object_get_string jc keyO of
                            None \<Rightarrow> Inl (Ereport ERROR ''Key does not exist or empty'')
                          | Some key \<Rightarrow>
                              if length key = 0 then Inl (Ereport ERROR ''Key does not exist or empty'')
                              else Inr key)))))"

definition decode_key :: "'w keyring_ext \<Rightarrow> string \<Rightarrow> keyData \<Rightarrow> keyData" where
  "decode_key ext key outData =
     (case pg_b64_decode ext key 32 of
        None \<Rightarrow> outData\<lparr>kd_len := - 1\<rparr>
      | Some bs \<Rightarrow> \<lparr>kd_data = bs @ drop (length bs) (kd_data outData), kd_len = of_nat (length bs)\<rparr>)"

definition keyringVaultGetKey ::
  "'w keyring_ext \<Rightarrow> keyring_config \<Rightarrow> keyName \<Rightarrow> keyData \<Rightarrow> ('w keyring_state, bool \<times> keyData) cmd" where
  "keyringVaultGetKey ext cfg nm outData s =
     (case keyringVaultKeyUrl cfg nm of
        Inl e \<Rightarrow> (Inl e, s)
      | Inr url \<Rightarrow>
          bindC (curlPerform ext cfg url None)
            (\<lambda>r s. case r of
               None \<Rightarrow> (Inl (Ereport ERROR ''HTTP(S) request to vault failed.''), s)
             | Some (httpCode, body) \<Rightarrow>
                 if httpCode div 100 \<noteq> 2
                 then (if httpCode \<noteq> 404 then (Inl (Ereport ERROR ''Unexpected HTTP code''), s)
                       else (Inr (False, outData), s))
                 else (case vault_key_text (json_lib ext) body of
                         Inl e \<Rightarrow> (Inl e, s)
                       | Inr key \<Rightarrow>
                           (let outData' = decode_key ext key outData
                            in (Inr (kd_len outData' = 32, outData'), s)))) s)"

section \<open>The file provider\<close>

text \<open>
  A short \<^verbatim>\<open>fread\<close> leaves the bytes it got in the cache: the image of the cache consists of 1024
  entries of 292 bytes (256 of the name, 32 of the key, 4 of its length, the low byte first) and
  the count. \<open>read_over\<close> is the cache after the first \<open>n\<close> bytes of an image were read over it; what
  lies behind the NUL of a name in the cache is taken for zeros, as a new segment has them.
  Neither \<^verbatim>\<open>fread\<close> nor \<^verbatim>\<open>fwrite\<close> is checked.
\<close>

definition read_low_bytes :: "nat \<Rightarrow> uint32 \<Rightarrow> uint32 \<Rightarrow> uint32" where
  "read_low_bytes m new old =
     (if m \<ge> 4 then new else of_nat (unat new mod 256 ^ m + unat old div 256 ^ m * 256 ^ m))"

definition read_over_key :: "nat \<Rightarrow> keyInfo \<Rightarrow> keyInfo \<Rightarrow> keyInfo" where
  "read_over_key n new old =
     \<lparr>ki_name = (if length (ki_name new) < n then ki_name new else take n (ki_name new) @ drop n (ki_name old)),
      ki_data = \<lparr>kd_data = take (n - 256) (kd_data (ki_data new)) @ drop (n - 256) (kd_data (ki_data old)),
                 kd_len = read_low_bytes (n - 288) (kd_len (ki_data new)) (kd_len (ki_data old))\<rparr>\<rparr>"

definition read_over :: "nat \<Rightarrow> keyringCache \<Rightarrow> keyringCache \<Rightarrow> keyringCache" where
  "read_over n img c =
     \<lparr>kc_keys = map (\<lambda>(i, new, old). read_over_key (n - 292 * i) new old)
        (zip [0..<MAX_CACHE_ENTRIES] (zip (kc_keys img) (kc_keys c))),
      keyCount = read_low_bytes (n - 292 * MAX_CACHE_ENTRIES) (keyCount img) (keyCount c)\<rparr>"

definition keyringFilePreloadCache :: "keyring_config \<Rightarrow> ('w keyring_state, bool) cmd" where
  "keyringFilePreloadCache cfg s =
     (case kr_files s (keyringFileDataFileName cfg) of
        None \<Rightarrow> (Inr True, s)
      | Some (Cut n img) \<Rightarrow> (Inr True, s\<lparr>kr_cache := read_over n img (kr_cache s)\<rparr>)
      | Some (Whole img) \<Rightarrow> (Inr True, s\<lparr>kr_cache := img\<rparr>))"

definition keyringFileStoreKey ::
  "'w keyring_ext \<Rightarrow> keyring_config \<Rightarrow> ('w keyring_state, bool) cmd" where
  "keyringFileStoreKey ext cfg s =
     (let f = keyringFileDataFileName cfg
      in if length f = 0 then (Inl (Ereport ERROR ''Keyring datafile is not set''), s)
         else if \<not> fopen_w ext f then (Inl (Ereport ERROR ''Could not write keyring data''), s)
         else (Inr True, s\<lparr>kr_files := (kr_files s)(f \<mapsto>
                 (if fwrite_ok ext f then Whole (kr_cache s) else Cut (fwrite_cut ext f) (kr_cache s)))\<rparr>))"

section \<open>The cache\<close>

text \<open>\<open>found\<close> is what \<^verbatim>\<open>ShmemInitStruct\<close> reports: whether the segment existed already.\<close>

definition keyringInitCache :: "keyring_config \<Rightarrow> bool \<Rightarrow> ('w keyring_state, unit) cmd" where
  "keyringInitCache cfg found s =
     (let s = (if \<not> found then s\<lparr>kr_cache := zero_cache\<rparr> else s)
      in bindC (case keyringProvider cfg of
                  PROVIDER_FILE \<Rightarrow> keyringFilePreloadCache cfg
                | PROVIDER_VAULT_V2 \<Rightarrow> keyringVaultPreloadCache
                | PROVIDER_UNKNOWN \<Rightarrow> returnC True) (\<lambda>_. returnC ()) s)"

text \<open>
  There is no check that the array has room for another entry. With 1024 entries in it the new one
  is written behind the array, over the count itself and what follows the cache in shared memory,
  and the count is advanced all the same. The outcome is then \<open>Undefined\<close>; of the state it leaves
  the model shows the count as the code advances it, and nothing of what was overwritten.
\<close>

abbreviation cache_overflow :: "pgerror + 'a" where
  "cache_overflow \<equiv> Inl (Undefined ''store past cache->keys'')"

definition keyringCacheStoreKey :: "keyName \<Rightarrow> keyData \<Rightarrow> ('w keyring_state, nat) cmd" where
  "keyringCacheStoreKey nm d s =
     (let c = kr_cache s; n = unat (keyCount c)
      in (if n < MAX_CACHE_ENTRIES then Inr n else cache_overflow,
          s\<lparr>kr_cache := \<lparr>kc_keys = (kc_keys c)[n := \<lparr>ki_name = nm, ki_data = d\<rparr>], keyCount = keyCount c + 1\<rparr>\<rparr>))"

fun find_key :: "keyInfo list \<Rightarrow> keyName \<Rightarrow> nat \<Rightarrow> nat option" where
  "find_key [] nm i = None"
| "find_key (k # ks) nm i = (if ki_name k = nm then Some i else find_key ks nm (Suc i))"

definition keyringGetKey ::
  "'w keyring_ext \<Rightarrow> keyring_config \<Rightarrow> keyName \<Rightarrow> ('w keyring_state, nat option) cmd" where
  "keyringGetKey ext cfg nm s =
     (let c = kr_cache s; n = unat (keyCount c)
      in case find_key (take n (kc_keys c)) nm 0 of
           Some i \<Rightarrow> (Inr (Some i), s)
         | None \<Rightarrow>
             if n > MAX_CACHE_ENTRIES then (Inl (Undefined ''load past cache->keys''), s)
             else
               (case keyringProvider cfg of
                  PROVIDER_FILE \<Rightarrow> (Inr None, s)
                | PROVIDER_VAULT_V2 \<Rightarrow>
                    bindC (keyringVaultGetKey ext cfg nm \<lparr>kd_data = uninit_key ext, kd_len = 0\<rparr>)
                      (\<lambda>(ret, d). if kd_len d > 0
                         then bindC (keyringCacheStoreKey nm d) (\<lambda>p. returnC (Some p))
                         else returnC None) s
                | PROVIDER_UNKNOWN \<Rightarrow> (Inr None, s)))"

text \<open>
  \<open>keyringStoreKey\<close>: the entry enters the cache first. It is taken out again only when the
  provider \<^emph>\<open>returns\<close> false; an \<^verbatim>\<open>elog(ERROR)\<close> inside the provider leaves the function
  without reaching the removal.
\<close>

definition drop_last_entry :: "'w keyring_state \<Rightarrow> 'w keyring_state" where
  "drop_last_entry s = s\<lparr>kr_cache := (kr_cache s)\<lparr>keyCount := keyCount (kr_cache s) - 1\<rparr>\<rparr>"

definition keyringStoreKey ::
  "'w keyring_ext \<Rightarrow> keyring_config \<Rightarrow> keyName \<Rightarrow> keyData \<Rightarrow> ('w keyring_state, nat option) cmd" where
  "keyringStoreKey ext cfg nm d =
     bindC (keyringCacheStoreKey nm d)
       (\<lambda>ki. bindC (case keyringProvider cfg of
                       PROVIDER_FILE \<Rightarrow> keyringFileStoreKey ext cfg
                     | PROVIDER_VAULT_V2 \<Rightarrow> keyringVaultStoreKey ext cfg \<lparr>ki_name = nm, ki_data = d\<rparr>
                     | PROVIDER_UNKNOWN \<Rightarrow> returnC False)
               (\<lambda>ok s. if ok then (Inr (Some ki), s) else (Inr None, drop_last_entry s)))"

section \<open>Versions\<close>

text \<open>\<^verbatim>\<open>snprintf\<close> into \<^verbatim>\<open>char name[256]\<close> keeps at most 255 characters.\<close>

definition keyringConstructKeyName :: "keyring_config \<Rightarrow> string \<Rightarrow> uint32 \<Rightarrow> keyName" where
  "keyringConstructKeyName cfg internalName version =
     take 255
       (case keyringKeyPrefix cfg of
          Some pre \<Rightarrow>
            if length pre > 0 then pre @ ''-'' @ internalName @ ''-'' @ dec (unat version)
            else internalName @ ''-'' @ dec (unat version)
        | None \<Rightarrow> internalName @ ''-'' @ dec (unat version))"

text \<open>
  The loop over versions that \<open>keyringGetLatestKey\<close> and \<open>keyringGenerateKey\<close> share: it
  gives the last key found and the first version that has none. \<^verbatim>\<open>++i\<close> on the largest
  \<^verbatim>\<open>int\<close> is undefined.
\<close>

function version_loop ::
  "'w keyring_ext \<Rightarrow> keyring_config \<Rightarrow> string \<Rightarrow> int32 \<Rightarrow> nat option
     \<Rightarrow> ('w keyring_state, nat option \<times> int32) cmd" where
  "version_loop ext cfg internalName i prev s =
     (case keyringGetKey ext cfg (keyringConstructKeyName cfg internalName i) s of
        (Inl e, s') \<Rightarrow> (Inl e, s')
      | (Inr None, s') \<Rightarrow> (Inr (prev, i), s')
      | (Inr (Some curr_key), s') \<Rightarrow>
          if i = 0x7FFFFFFF then (Inl (Undefined ''signed overflow''), s')
          else version_loop ext cfg internalName (i + 1) (Some curr_key) s')"
  by pat_completeness auto
termination
proof (relation "measure (\<lambda>(ext, cfg, nm, i, prev, s). nat (2 ^ 31 - sint i))", goal_cases)
  case (2 ext cfg nm i)
  then show ?case
    using sint_lt [of i] by (simp add: sint_Suc_int32)
qed simp

declare version_loop.simps [simp del]

definition keyringGetLatestKey ::
  "'w keyring_ext \<Rightarrow> keyring_config \<Rightarrow> string \<Rightarrow> ('w keyring_state, nat option) cmd" where
  "keyringGetLatestKey ext cfg internalName =
     bindC (version_loop ext cfg internalName 1 None) (\<lambda>(prev, i). returnC prev)"

definition random_key :: "'w keyring_ext \<Rightarrow> byte list \<Rightarrow> uint32 \<Rightarrow> keyData" where
  "random_key ext bs keyLen =
     \<lparr>kd_data = take (unat keyLen) bs @ drop (unat keyLen) (uninit_key ext), kd_len = keyLen\<rparr>"

text \<open>
  \<open>rnd\<close> is what \<^verbatim>\<open>RAND_bytes(kd.data, keyLen)\<close> produces, \<open>None\<close> when it fails. The rest
  of \<^verbatim>\<open>kd.data\<close> stays uninitialised.
\<close>

definition keyringGenerateKey ::
  "'w keyring_ext \<Rightarrow> keyring_config \<Rightarrow> byte list option \<Rightarrow> string \<Rightarrow> uint32
     \<Rightarrow> ('w keyring_state, nat option) cmd" where
  "keyringGenerateKey ext cfg rnd internalName keyLen =
     bindC (version_loop ext cfg internalName 1 None)
       (\<lambda>(prev, i).
          if keyLen > 32 then throwC (Undefined ''assertion failed: keyLen <= 32'')
          else (case rnd of
                  None \<Rightarrow> returnC None
                | Some bs \<Rightarrow>
                    keyringStoreKey ext cfg (keyringConstructKeyName cfg internalName i)
                      (random_key ext bs keyLen)))"

section \<open>The cache as a finite map\<close>

definition entries :: "keyringCache \<Rightarrow> keyInfo list" where
  "entries c = take (unat (keyCount c)) (kc_keys c)"

definition cache_wf :: "keyringCache \<Rightarrow> bool" where
  "cache_wf c \<longleftrightarrow> length (kc_keys c) = MAX_CACHE_ENTRIES \<and> unat (keyCount c) \<le> MAX_CACHE_ENTRIES"

definition cache_view :: "keyringCache \<Rightarrow> keyName \<rightharpoonup> keyData" where
  "cache_view c = map_of (map (\<lambda>k. (ki_name k, ki_data k)) (entries c))"

definition keyring_wf :: "'w keyring_state \<Rightarrow> bool" where
  "keyring_wf s \<longleftrightarrow> cache_wf (kr_cache s)"

definition keyring_view :: "'w keyring_state \<Rightarrow> keyName \<rightharpoonup> keyData" where
  "keyring_view s = cache_view (kr_cache s)"

definition keyring_room :: "'w keyring_state \<Rightarrow> nat" where
  "keyring_room s = MAX_CACHE_ENTRIES - unat (keyCount (kr_cache s))"

text \<open>What a pointer into the cache points to.\<close>

definition key_at :: "'w keyring_state \<Rightarrow> nat \<Rightarrow> keyInfo" where
  "key_at s p = kc_keys (kr_cache s) ! p"

lemma zero_cache_wf [simp]: "cache_wf zero_cache"
  by (simp add: cache_wf_def zero_cache_def)

lemma zero_cache_view [simp]: "cache_view zero_cache = Map.empty"
  by (simp add: cache_view_def entries_def zero_cache_def)

lemma length_entries [simp]: "cache_wf c \<Longrightarrow> length (entries c) = unat (keyCount c)"
  by (simp add: entries_def cache_wf_def)

lemma nth_entries: "i < length (entries c) \<Longrightarrow> entries c ! i = kc_keys c ! i"
  by (simp add: entries_def)

lemma find_key_Some:
  "find_key ks nm i = Some j \<Longrightarrow>
     i \<le> j \<and> j - i < length ks \<and> ki_name (ks ! (j - i)) = nm \<and>
     map_of (map (\<lambda>k. (ki_name k, ki_data k)) ks) nm = Some (ki_data (ks ! (j - i)))"
proof (induction ks nm i rule: find_key.induct)
  case (2 k ks nm i)
  show ?case
  proof (cases "ki_name k = nm")
    case False
    with 2 have "Suc i \<le> j \<and> j - Suc i < length ks \<and> ki_name (ks ! (j - Suc i)) = nm \<and>
        map_of (map (\<lambda>k. (ki_name k, ki_data k)) ks) nm = Some (ki_data (ks ! (j - Suc i)))"
      by simp
    moreover from this have "j - i = Suc (j - Suc i)" by linarith
    ultimately show ?thesis using False by auto
  qed (use 2 in auto)
qed simp

lemma find_key_None:
  "find_key ks nm i = None \<longleftrightarrow> map_of (map (\<lambda>k. (ki_name k, ki_data k)) ks) nm = None"
  by (induction ks nm i rule: find_key.induct) auto

lemma find_key_view:
  assumes "cache_wf c" "find_key (take (unat (keyCount c)) (kc_keys c)) nm 0 = Some j"
  shows "j < unat (keyCount c)" "ki_name (kc_keys c ! j) = nm" "cache_view c nm = Some (ki_data (kc_keys c ! j))"
  using find_key_Some [OF assms(2)] assms(1)
  by (auto simp: cache_view_def entries_def cache_wf_def)

lemma cache_view_found:
  assumes "cache_wf c" "cache_view c nm = Some d"
  obtains j where "find_key (take (unat (keyCount c)) (kc_keys c)) nm 0 = Some j"
    "j < unat (keyCount c)" "ki_name (kc_keys c ! j) = nm" "ki_data (kc_keys c ! j) = d"
proof -
  obtain j where j: "find_key (take (unat (keyCount c)) (kc_keys c)) nm 0 = Some j"
    using assms(2) find_key_None [of "entries c" nm 0] by (fastforce simp: cache_view_def entries_def)
  with find_key_view [OF assms(1) j] assms(2) that show thesis by auto
qed

lemma map_of_snoc: "map_of (xs @ [(k, v)]) = [k \<mapsto> v] ++ map_of xs"
  by (simp add: map_of_append)

section \<open>Storing\<close>

definition added :: "keyringCache \<Rightarrow> keyName \<Rightarrow> keyData \<Rightarrow> keyringCache" where
  "added c nm d = \<lparr>kc_keys = (kc_keys c)[unat (keyCount c) := \<lparr>ki_name = nm, ki_data = d\<rparr>],
                    keyCount = keyCount c + 1\<rparr>"

lemma keyringCacheStoreKey_added:
  "unat (keyCount (kr_cache s)) < 1024 \<Longrightarrow>
     keyringCacheStoreKey nm d s = (Inr (unat (keyCount (kr_cache s))), s\<lparr>kr_cache := added (kr_cache s) nm d\<rparr>)"
  by (simp add: keyringCacheStoreKey_def Let_def added_def)

lemma added_wf:
  assumes "cache_wf c" "unat (keyCount c) < 1024"
  shows "cache_wf (added c nm d)" "cache_view (added c nm d) = [nm \<mapsto> d] ++ cache_view c"
    "unat (keyCount (added c nm d)) = unat (keyCount c) + 1"
    "kc_keys (added c nm d) ! unat (keyCount c) = \<lparr>ki_name = nm, ki_data = d\<rparr>"
proof -
  show n: "unat (keyCount (added c nm d)) = unat (keyCount c) + 1"
    using assms(2) by (simp add: added_def unat_add_lt)
  then show "cache_wf (added c nm d)"
    using assms by (simp add: added_def cache_wf_def)
  have "entries (added c nm d) = entries c @ [\<lparr>ki_name = nm, ki_data = d\<rparr>]"
    using assms n by (simp add: added_def entries_def cache_wf_def take_Suc_conv_app_nth)
  then show "cache_view (added c nm d) = [nm \<mapsto> d] ++ cache_view c"
    by (simp add: cache_view_def map_of_snoc)
  show "kc_keys (added c nm d) ! unat (keyCount c) = \<lparr>ki_name = nm, ki_data = d\<rparr>"
    using assms by (simp add: added_def cache_wf_def)
qed

lemma drop_added:
  assumes "cache_wf c" "unat (keyCount c) < 1024"
  shows "entries ((added c nm d)\<lparr>keyCount := keyCount (added c nm d) - 1\<rparr>) = entries c"
  using assms by (simp add: added_def entries_def)

lemma keyringStoreKey_file:
  assumes "keyringProvider cfg = PROVIDER_FILE" "keyringFileDataFileName cfg \<noteq> ''''"
    and "fopen_w ext (keyringFileDataFileName cfg)" "unat (keyCount (kr_cache s)) < 1024"
  shows "keyringStoreKey ext cfg nm d s =
     (Inr (Some (unat (keyCount (kr_cache s)))),
      s\<lparr>kr_cache := added (kr_cache s) nm d,
        kr_files := (kr_files s)(keyringFileDataFileName cfg \<mapsto>
          (if fwrite_ok ext (keyringFileDataFileName cfg) then Whole (added (kr_cache s) nm d)
           else Cut (fwrite_cut ext (keyringFileDataFileName cfg)) (added (kr_cache s) nm d)))\<rparr>)"
  using assms by (simp add: keyringStoreKey_def cmd_simps keyringCacheStoreKey_added keyringFileStoreKey_def Let_def)

section \<open>The contract of a key store\<close>

text \<open>
  What the rest of the keyring relies on of the cache: as long as there is room an entry is
  added, entries already there keep their value and win over later ones of the same name; an
  entry too many is undefined.
\<close>

locale key_store =
  fixes invar :: "'s \<Rightarrow> bool"
    and view :: "'s \<Rightarrow> keyName \<rightharpoonup> keyData"
    and room :: "'s \<Rightarrow> nat"
    and put :: "keyName \<Rightarrow> keyData \<Rightarrow> ('s, nat) cmd"
  assumes put_room: "invar s \<Longrightarrow> 0 < room s \<Longrightarrow>
      \<exists>p t. put nm d s = (Inr p, t) \<and> invar t \<and> view t = [nm \<mapsto> d] ++ view s \<and> room t = room s - 1"
    and put_full: "invar s \<Longrightarrow> room s = 0 \<Longrightarrow> \<exists>e t. put nm d s = (Inl (Undefined e), t)"
begin

primrec put_all :: "(keyName \<times> keyData) list \<Rightarrow> ('s, unit) cmd" where
  "put_all [] s = (Inr (), s)"
| "put_all (kv # kvs) s = bindC (put (fst kv) (snd kv)) (\<lambda>_. put_all kvs) s"

lemma put_all_room:
  "invar s \<Longrightarrow> length kvs \<le> room s \<Longrightarrow>
     \<exists>t. put_all kvs s = (Inr (), t) \<and> invar t \<and> view t = map_of kvs ++ view s \<and> room t = room s - length kvs"
proof (induction kvs arbitrary: s)
  case Nil
  then show ?case by simp
next
  case (Cons kv kvs)
  then obtain p t where t: "put (fst kv) (snd kv) s = (Inr p, t)" "invar t"
      "view t = [fst kv \<mapsto> snd kv] ++ view s" "room t = room s - 1"
    using put_room [of s "fst kv" "snd kv"] by auto
  moreover from this Cons obtain u where "put_all kvs t = (Inr (), u)" "invar u"
      "view u = map_of kvs ++ view t" "room u = room t - length kvs"
    by fastforce
  ultimately show ?case
    by (auto simp: bindC_Inr map_add_def fun_eq_iff split: option.splits)
qed

lemma put_all_overflow:
  assumes "invar s" "room s = length kvs"
  shows "\<exists>e t. put_all (kvs @ [kv]) s = (Inl (Undefined e), t)"
  using assms
proof (induction kvs arbitrary: s)
  case Nil
  then obtain e t where "put (fst kv) (snd kv) s = (Inl (Undefined e), t)"
    using put_full by force
  then show ?case by (auto simp: bindC_Inl)
next
  case (Cons kv' kvs)
  then obtain p t where t: "put (fst kv') (snd kv') s = (Inr p, t)" "invar t"
      "room t = room s - 1"
    using put_room [of s "fst kv'" "snd kv'"] by auto
  moreover from this Cons obtain e u where "put_all (kvs @ [kv]) t = (Inl (Undefined e), u)"
    by fastforce
  ultimately show ?case
    by (auto simp: bindC_Inr)
qed

end

interpretation kcache: key_store keyring_wf keyring_view keyring_room keyringCacheStoreKey
proof (unfold_locales, goal_cases)
  case (1 s nm d)
  then have "cache_wf (kr_cache s)" "unat (keyCount (kr_cache s)) < 1024"
    by (simp_all add: keyring_wf_def keyring_room_def)
  from added_wf [OF this, of nm d] keyringCacheStoreKey_added [OF this(2), of nm d] show ?case
    by (simp add: keyring_wf_def keyring_view_def keyring_room_def)
next
  case (2 s nm d)
  then show ?case
    by (simp add: keyring_wf_def keyring_room_def keyringCacheStoreKey_def cache_wf_def Let_def)
qed

section \<open>Names and versions\<close>

text \<open>The part of a key name before its version.\<close>

definition name_stem :: "keyring_config \<Rightarrow> string \<Rightarrow> string" where
  "name_stem cfg internalName =
     (case keyringKeyPrefix cfg of
        Some pre \<Rightarrow> if length pre > 0 then pre @ ''-'' @ internalName @ ''-'' else internalName @ ''-''
      | None \<Rightarrow> internalName @ ''-'')"

lemma keyringConstructKeyName_stem:
  "keyringConstructKeyName cfg nm v = take 255 (name_stem cfg nm @ dec (unat v))"
  by (cases "keyringKeyPrefix cfg") (auto simp: keyringConstructKeyName_def name_stem_def simp del: take_append)

lemma length_keyringConstructKeyName: "length (keyringConstructKeyName cfg nm v) \<le> 255"
  by (simp add: keyringConstructKeyName_stem)

lemma length_dec_uint32: "length (dec (unat (v :: uint32))) \<le> 10"
proof -
  have "unat v < 10 ^ Suc 9"
    using unat_bound [of v] by simp
  then have "length (dec (unat v)) \<le> Suc 9" by (rule length_dec)
  then show ?thesis by simp
qed

lemma keyringConstructKeyName_inj:
  assumes "length (name_stem cfg nm) \<le> 245" "keyringConstructKeyName cfg nm v = keyringConstructKeyName cfg nm w"
  shows "v = w"
proof -
  have "take 255 (name_stem cfg nm @ dec (unat x)) = name_stem cfg nm @ dec (unat x)" for x :: uint32
    using assms(1) length_dec_uint32 [of x] by simp
  then have "dec (unat v) = dec (unat w)"
    using assms(2) by (simp add: keyringConstructKeyName_stem)
  then show ?thesis by (simp add: word_eq_iff_unsigned [where ?'a = nat])
qed

definition version_name :: "keyring_config \<Rightarrow> string \<Rightarrow> nat \<Rightarrow> keyName" where
  "version_name cfg nm v = keyringConstructKeyName cfg nm (of_nat v)"

lemma version_name_inj:
  assumes "length (name_stem cfg nm) \<le> 245" "version_name cfg nm v = version_name cfg nm w" "v < 2 ^ 32" "w < 2 ^ 32"
  shows "v = w"
proof -
  have "(of_nat v :: uint32) = of_nat w"
    using assms(1,2) by (auto simp: version_name_def intro: keyringConstructKeyName_inj)
  then have "unat (of_nat v :: uint32) = unat (of_nat w :: uint32)" by simp
  with assms(3,4) show ?thesis by (simp add: unat_of_nat_lt)
qed

text \<open>
  \<open>latest_version n\<close>: versions 1 to \<open>n\<close> are in the cache and version \<open>n + 1\<close> is not.
\<close>

definition latest_version :: "keyring_config \<Rightarrow> string \<Rightarrow> 'w keyring_state \<Rightarrow> nat \<Rightarrow> bool" where
  "latest_version cfg nm s n \<longleftrightarrow>
     (\<forall>v. 1 \<le> v \<longrightarrow> v \<le> n \<longrightarrow> keyring_view s (version_name cfg nm v) \<noteq> None) \<and>
     keyring_view s (version_name cfg nm (n + 1)) = None"

lemma finite_run_length:
  assumes "inj_on f {1..n}" "\<And>v. 1 \<le> v \<Longrightarrow> v \<le> n \<Longrightarrow> f v \<in> set xs"
  shows "n \<le> length xs"
proof -
  have "card (f ` {1..n}) \<le> card (set xs)"
    using assms(2) by (intro card_mono) auto
  also have "\<dots> \<le> length xs" by (rule card_length)
  finally show ?thesis using assms(1) by (simp add: card_image)
qed

lemma latest_version_exists:
  assumes "keyring_wf s" "length (name_stem cfg nm) \<le> 245"
  obtains n where "latest_version cfg nm s n" "n \<le> unat (keyCount (kr_cache s))" "n \<le> 1024"
proof -
  let ?in = "\<lambda>v. keyring_view s (version_name cfg nm v) \<noteq> None"
  let ?ks = "entries (kr_cache s)"
  have c: "length ?ks = unat (keyCount (kr_cache s))" "length ?ks \<le> 1024"
    using assms(1) by (auto simp: keyring_wf_def cache_wf_def)
  have run: "n \<le> length ?ks" if "n < 2 ^ 32" "\<And>v. 1 \<le> v \<Longrightarrow> v \<le> n \<Longrightarrow> ?in v" for n
  proof -
    have "inj_on (version_name cfg nm) {1..n}"
      using version_name_inj [OF assms(2)] that(1) by (intro inj_onI) auto
    moreover have "version_name cfg nm v \<in> set (map ki_name ?ks)" if "?in v" for v
      using that by (force simp: keyring_view_def cache_view_def dest: map_of_SomeD)
    ultimately have "n \<le> length (map ki_name ?ks)"
      using that(2) by (intro finite_run_length) auto
    then show ?thesis by simp
  qed
  define n where "n = (LEAST n. \<not> ?in (n + 1))"
  have ex: "\<exists>n. \<not> ?in (n + 1)"
  proof (rule ccontr)
    assume "\<nexists>n. \<not> ?in (n + 1)"
    then have "?in v" if "1 \<le> v" for v using that by (metis le_add_diff_inverse2)
    then have "1025 \<le> length ?ks" by (intro run) auto
    with c(2) show False by simp
  qed
  have absent: "\<not> ?in (n + 1)" unfolding n_def using ex by (rule LeastI_ex)
  have present: "?in v" if "1 \<le> v" "v \<le> n" for v
    using not_less_Least [of "v - 1" "\<lambda>n. \<not> ?in (n + 1)"] that by (auto simp: n_def)
  have "latest_version cfg nm s n"
    using absent present by (auto simp: latest_version_def)
  moreover have "n \<le> 1025 \<or> 1025 \<le> n" by linarith
  ultimately show thesis
    using that run [of n] run [of 1025] present c by fastforce
qed

section \<open>Lookups without a remote provider\<close>

lemma keyringGetKey_local:
  assumes "keyring_wf s" "keyringProvider cfg \<noteq> PROVIDER_VAULT_V2"
  shows "keyringGetKey ext cfg nm s =
           (Inr (find_key (take (unat (keyCount (kr_cache s))) (kc_keys (kr_cache s))) nm 0), s)"
  using assms
  by (auto simp: keyringGetKey_def Let_def keyring_wf_def cache_wf_def split: option.splits KeyringProvider.splits)

lemma keyringGetKey_hit:
  assumes "keyring_wf s" "keyring_view s nm = Some d"
  obtains p where "keyringGetKey ext cfg nm s = (Inr (Some p), s)" "p < unat (keyCount (kr_cache s))"
    "ki_name (key_at s p) = nm" "ki_data (key_at s p) = d"
proof -
  obtain j where "find_key (take (unat (keyCount (kr_cache s))) (kc_keys (kr_cache s))) nm 0 = Some j"
    "j < unat (keyCount (kr_cache s))" "ki_name (kc_keys (kr_cache s) ! j) = nm" "ki_data (kc_keys (kr_cache s) ! j) = d"
    using assms by (auto simp: keyring_wf_def keyring_view_def elim: cache_view_found)
  then show thesis
    using that by (simp add: keyringGetKey_def Let_def key_at_def)
qed

lemma keyringGetKey_miss:
  assumes "keyring_wf s" "keyringProvider cfg \<noteq> PROVIDER_VAULT_V2" "keyring_view s nm = None"
  shows "keyringGetKey ext cfg nm s = (Inr None, s)"
  using assms(3) unfolding keyringGetKey_local [OF assms(1,2)]
  by (simp add: find_key_None keyring_view_def cache_view_def entries_def)

lemma version_loop_result:
  assumes "keyring_wf s" "keyringProvider cfg \<noteq> PROVIDER_VAULT_V2" "latest_version cfg nm s n"
    and "n < 2 ^ 31 - 1" "1 \<le> k" "k \<le> n + 1"
  shows "\<exists>p. version_loop ext cfg nm (of_nat k) prev s = (Inr (if k \<le> n then Some p else prev, of_nat (n + 1)), s) \<and>
     (k \<le> n \<longrightarrow> p < unat (keyCount (kr_cache s)) \<and> ki_name (key_at s p) = version_name cfg nm n \<and>
        keyring_view s (version_name cfg nm n) = Some (ki_data (key_at s p)))"
  using assms(5,6)
proof (induction "n + 1 - k" arbitrary: k prev)
  case 0
  then have "k = n + 1" by simp
  moreover have "keyringGetKey ext cfg (version_name cfg nm (n + 1)) s = (Inr None, s)"
    using assms(1-3) by (intro keyringGetKey_miss) (auto simp: latest_version_def)
  ultimately show ?case
    by (subst version_loop.simps) (simp add: version_name_def)
next
  case (Suc m)
  then have k: "k \<le> n" by simp
  then obtain d where "keyring_view s (version_name cfg nm k) = Some d"
    using assms(3) Suc.prems(1) by (auto simp: latest_version_def)
  then obtain p where p: "keyringGetKey ext cfg (version_name cfg nm k) s = (Inr (Some p), s)"
      "p < unat (keyCount (kr_cache s))" "ki_name (key_at s p) = version_name cfg nm k" "ki_data (key_at s p) = d"
    by (rule keyringGetKey_hit [OF assms(1)])
  have "unat (of_nat k :: int32) \<noteq> unat (0x7FFFFFFF :: int32)"
    using k assms(4) by (simp add: unat_of_nat_lt)
  then have "(of_nat k :: int32) \<noteq> 0x7FFFFFFF" by metis
  then have step: "version_loop ext cfg nm (of_nat k) prev s = version_loop ext cfg nm (of_nat (Suc k)) (Some p) s"
    using p(1) by (subst version_loop.simps) (simp add: version_name_def add.commute)
  have "m = n + 1 - Suc k" "1 \<le> Suc k" "Suc k \<le> n + 1"
    using Suc.hyps(2) k by simp_all
  from Suc.hyps(1) [OF this, of "Some p"] obtain q where
    q: "version_loop ext cfg nm (of_nat (Suc k)) (Some p) s =
          (Inr (if Suc k \<le> n then Some q else Some p, of_nat (n + 1)), s)"
       "Suc k \<le> n \<longrightarrow> q < unat (keyCount (kr_cache s)) \<and> ki_name (key_at s q) = version_name cfg nm n \<and>
          keyring_view s (version_name cfg nm n) = Some (ki_data (key_at s q))"
    by blast
  show ?case
  proof (cases "Suc k \<le> n")
    case True
    with q step k show ?thesis by (intro exI [of _ q]) simp
  next
    case False
    with k have "k = n" by simp
    with False q(1) step p \<open>keyring_view s (version_name cfg nm k) = Some d\<close> show ?thesis
      by (intro exI [of _ p]) simp
  qed
qed

lemma added_lookup_fresh:
  assumes "cache_view c nm = None"
  shows "[nm \<mapsto> d] ++ cache_view c = (cache_view c)(nm \<mapsto> d)"
  using assms by (auto simp: map_add_def fun_eq_iff split: option.splits)

lemma latest_key_found:
  assumes "keyring_wf s" "keyringProvider cfg \<noteq> PROVIDER_VAULT_V2" "length (name_stem cfg nm) \<le> 245"
  obtains n p where "latest_version cfg nm s n" "n \<le> unat (keyCount (kr_cache s))" "n \<le> 1024"
    "version_loop ext cfg nm 1 None s = (Inr (if n = 0 then None else Some p, of_nat (n + 1)), s)"
    "keyringGetLatestKey ext cfg nm s = (Inr (if n = 0 then None else Some p), s)"
    "n \<noteq> 0 \<Longrightarrow> p < unat (keyCount (kr_cache s)) \<and> ki_name (key_at s p) = version_name cfg nm n \<and>
        keyring_view s (version_name cfg nm n) = Some (ki_data (key_at s p))"
proof -
  obtain n where n: "latest_version cfg nm s n" "n \<le> unat (keyCount (kr_cache s))" "n \<le> 1024"
    by (rule latest_version_exists [OF assms(1,3)])
  obtain p where "version_loop ext cfg nm (of_nat 1) None s = (Inr (if 1 \<le> n then Some p else None, of_nat (n + 1)), s)"
    "1 \<le> n \<longrightarrow> p < unat (keyCount (kr_cache s)) \<and> ki_name (key_at s p) = version_name cfg nm n \<and>
       keyring_view s (version_name cfg nm n) = Some (ki_data (key_at s p))"
    using version_loop_result [OF assms(1,2) n(1), of 1 ext None] n(3) by auto
  moreover from this have "version_loop ext cfg nm 1 None s = (Inr (if n = 0 then None else Some p, of_nat (n + 1)), s)"
    by (cases n) simp_all
  moreover from this have "keyringGetLatestKey ext cfg nm s = (Inr (if n = 0 then None else Some p), s)"
    by (simp add: keyringGetLatestKey_def cmd_simps)
  ultimately show thesis
    by (intro that [OF n, of p]) auto
qed

lemma keyringStoreKey_file_success:
  assumes "keyringProvider cfg = PROVIDER_FILE" "keyringStoreKey ext cfg nm d s = (Inr (Some p), t)"
  shows "unat (keyCount (kr_cache s)) < 1024" "p = unat (keyCount (kr_cache s))" "kr_cache t = added (kr_cache s) nm d"
    "kr_files t (keyringFileDataFileName cfg) =
       Some (if fwrite_ok ext (keyringFileDataFileName cfg) then Whole (kr_cache t)
         else Cut (fwrite_cut ext (keyringFileDataFileName cfg)) (kr_cache t))"
proof -
  have r: "unat (keyCount (kr_cache s)) < 1024" "keyringFileDataFileName cfg \<noteq> ''''"
    "fopen_w ext (keyringFileDataFileName cfg)"
    using assms
    by (auto simp: keyringStoreKey_def keyringCacheStoreKey_def keyringFileStoreKey_def cmd_simps Let_def
        split: if_splits)
  then show "unat (keyCount (kr_cache s)) < 1024" "p = unat (keyCount (kr_cache s))" "kr_cache t = added (kr_cache s) nm d"
    "kr_files t (keyringFileDataFileName cfg) =
       Some (if fwrite_ok ext (keyringFileDataFileName cfg) then Whole (kr_cache t)
         else Cut (fwrite_cut ext (keyringFileDataFileName cfg)) (kr_cache t))"
    using assms(2) keyringStoreKey_file [OF assms(1) r(2,3,1), of nm d] by auto
qed

lemma generated_key_found:
  assumes "keyring_wf s" "keyringProvider cfg = PROVIDER_FILE" "length (name_stem cfg nm) \<le> 245"
    and "latest_version cfg nm s n" "n \<le> 1024" "keyringGenerateKey ext cfg rnd nm keyLen s = (Inr (Some p), t)"
  shows "keyring_wf t" "ki_name (key_at t p) = version_name cfg nm (n + 1)"
    "keyring_view t (version_name cfg nm (n + 1)) = Some (ki_data (key_at t p))"
    "\<exists>bs. rnd = Some bs \<and> ki_data (key_at t p) = random_key ext bs keyLen"
proof -
  have nv: "keyringProvider cfg \<noteq> PROVIDER_VAULT_V2" using assms(2) by simp
  have wf: "cache_wf (kr_cache s)" using assms(1) by (simp add: keyring_wf_def)
  obtain q where "version_loop ext cfg nm (of_nat 1) None s = (Inr (if 1 \<le> n then Some q else None, of_nat (n + 1)), s)"
    using version_loop_result [OF assms(1) nv assms(4), of 1 ext None] assms(5) by auto
  with assms(6) obtain bs where bs: "rnd = Some bs"
      "keyringStoreKey ext cfg (version_name cfg nm (n + 1)) (random_key ext bs keyLen) s = (Inr (Some p), t)"
    by (auto simp: keyringGenerateKey_def bindC_def returnC_def throwC_def version_name_def split: if_splits option.splits)
  note st = keyringStoreKey_file_success [OF assms(2) bs(2)]
  show "keyring_wf t"
    using added_wf(1) [OF wf st(1)] st(3) by (simp add: keyring_wf_def)
  have at: "key_at t p = \<lparr>ki_name = version_name cfg nm (n + 1), ki_data = random_key ext bs keyLen\<rparr>"
    using added_wf(4) [OF wf st(1)] st(2,3) by (simp add: key_at_def)
  then show "ki_name (key_at t p) = version_name cfg nm (n + 1)" by simp
  have "cache_view (kr_cache s) (version_name cfg nm (n + 1)) = None"
    using assms(4) by (simp add: latest_version_def keyring_view_def)
  then show "keyring_view t (version_name cfg nm (n + 1)) = Some (ki_data (key_at t p))"
    using added_wf(2) [OF wf st(1)] st(3) at by (simp add: keyring_view_def added_lookup_fresh)
  show "\<exists>bs. rnd = Some bs \<and> ki_data (key_at t p) = random_key ext bs keyLen"
    using bs(1) at by simp
qed

section \<open>Properties of the keyring\<close>

text \<open>A keyring with a data file, for the concrete instances.\<close>

definition demo_ext :: "unit keyring_ext" where
  "demo_ext = \<lparr>fopen_w = (\<lambda>f. f \<noteq> ''/readonly''), fwrite_ok = (\<lambda>_. True), fwrite_cut = (\<lambda>_. 0), curl_easy_init = True,
     curl_slist_append = (\<lambda>hs h. Some (hs @ [h])), curl_easy_setopt = (\<lambda>_. True),
     curl_easy_perform = (\<lambda>w opts. (Some (200, [''{}'']), w)), curl_easy_getinfo = True,
     pg_b64_encode = (\<lambda>bs n. Some []), pg_b64_decode = (\<lambda>t n. None),
     json_lib = \<lparr>json_object_from_file = (\<lambda>_. None),
       json_tokener_parse = (\<lambda>_. Some (JObject [(''data'', JObject [(''data'', JObject [(''key'', JString ''!'')])])])),
       json_object_to_json_string = (\<lambda>_. ''{}'')\<rparr>,
     uninit_key = replicate 32 85\<rparr>"

definition demo_cfg :: keyring_config where
  "demo_cfg = keyring_config_start\<lparr>keyringProvider := PROVIDER_FILE, keyringFileDataFileName := ''/keyring''\<rparr>"

definition demo_keyring :: "unit keyring_state" where
  "demo_keyring = \<lparr>kr_cache = zero_cache, kr_files = Map.empty, kr_curl = None, kr_curlList = None, kr_world = ()\<rparr>"

lemma demo_keyring_wf [simp]: "keyring_wf demo_keyring"
  by (simp add: keyring_wf_def demo_keyring_def)

lemma demo_keyring_view [simp]: "keyring_view demo_keyring = Map.empty"
  by (simp add: keyring_view_def demo_keyring_def)

text \<open>
  (C31) Finding the newest key, with the file provider or none (a search with Vault also fetches
  keys into the cache) and a name that leaves room for the version: the search is over at the
  version behind the highest one reachable from version 1 without a gap, and there are at most as
  many versions as the cache has entries; \<open>keyringGetLatestKey\<close> then changes nothing and gives a
  pointer to the entry of that highest version, or NULL when there is no version 1.
\<close>

theorem keyringGetLatestKey_finds_newest:
  assumes "keyring_wf s" "keyringProvider cfg \<noteq> PROVIDER_VAULT_V2" "length (name_stem cfg nm) \<le> 245"
  shows "\<exists>n p. latest_version cfg nm s n \<and> n \<le> unat (keyCount (kr_cache s)) \<and>
     version_loop ext cfg nm 1 None s = (Inr (if n = 0 then None else Some p, of_nat (n + 1)), s) \<and>
     keyringGetLatestKey ext cfg nm s = (Inr (if n = 0 then None else Some p), s) \<and>
     (n \<noteq> 0 \<longrightarrow> p < unat (keyCount (kr_cache s)) \<and> ki_name (key_at s p) = version_name cfg nm n \<and>
        keyring_view s (version_name cfg nm n) = Some (ki_data (key_at s p)))"
proof -
  obtain n p where "latest_version cfg nm s n" "n \<le> unat (keyCount (kr_cache s))"
    "version_loop ext cfg nm 1 None s = (Inr (if n = 0 then None else Some p, of_nat (n + 1)), s)"
    "keyringGetLatestKey ext cfg nm s = (Inr (if n = 0 then None else Some p), s)"
    "n \<noteq> 0 \<Longrightarrow> p < unat (keyCount (kr_cache s)) \<and> ki_name (key_at s p) = version_name cfg nm n \<and>
        keyring_view s (version_name cfg nm n) = Some (ki_data (key_at s p))"
    by (rule latest_key_found [OF assms, of ext]) blast
  then show ?thesis by blast
qed

lemma latest_version_added:
  assumes "latest_version cfg nm s n" "length (name_stem cfg nm) \<le> 245" "n < 2 ^ 31 - 2"
    and "keyring_view s (version_name cfg nm (n + 2)) = None"
    and "keyring_view t = (keyring_view s)(version_name cfg nm (n + 1) \<mapsto> d)"
  shows "latest_version cfg nm t (n + 1)"
proof -
  have "version_name cfg nm (n + 2) \<noteq> version_name cfg nm (n + 1)"
    using version_name_inj [OF assms(2), of "n + 2" "n + 1"] assms(3) by auto
  then show ?thesis
    using assms(1,4,5) by (auto simp: latest_version_def le_Suc_eq)
qed

lemma latest_version_le:
  assumes "latest_version cfg nm s n" "latest_version cfg nm s m"
  shows "n \<le> m"
proof (rule ccontr)
  assume "\<not> n \<le> m"
  then have "keyring_view s (version_name cfg nm (m + 1)) \<noteq> None"
    using assms(1) unfolding latest_version_def by simp
  with assms(2) show False by (simp add: latest_version_def)
qed

text \<open>A cache with two versions of a key, the newer one stored first.\<close>

definition demo_key_data :: "byte \<Rightarrow> keyData" where
  "demo_key_data b = \<lparr>kd_data = replicate 32 b, kd_len = 16\<rparr>"

definition demo_versions :: "unit keyring_state" where
  "demo_versions = demo_keyring\<lparr>kr_cache := added (added zero_cache (version_name demo_cfg ''k'' 2) (demo_key_data 2))
     (version_name demo_cfg ''k'' 1) (demo_key_data 1)\<rparr>"

lemma demo_versions:
  "keyring_wf demo_versions" "latest_version demo_cfg ''k'' demo_versions 2"
  "keyring_view demo_versions (version_name demo_cfg ''k'' 2) = Some (demo_key_data 2)"
proof -
  let ?c = "added zero_cache (version_name demo_cfg ''k'' 2) (demo_key_data 2)"
  let ?v = "version_name demo_cfg ''k''"
  have z: "unat (keyCount zero_cache) < 1024" "unat (keyCount ?c) < 1024"
    by (simp_all add: zero_cache_def added_def)
  note c = added_wf(1,2) [OF zero_cache_wf z(1), of "?v 2" "demo_key_data 2"]
  note c' = added_wf(1,2) [OF c(1) z(2), of "?v 1" "demo_key_data 1"]
  show "keyring_wf demo_versions"
    using c'(1) by (simp add: keyring_wf_def demo_versions_def)
  have stem: "length (name_stem demo_cfg ''k'') \<le> 245"
    by (simp add: name_stem_def demo_cfg_def keyring_config_start_def)
  then have ne: "?v i = ?v j \<longleftrightarrow> i = j" if "i < 4" "j < 4" for i j
    using version_name_inj [OF stem, of i j] that by auto
  have view: "keyring_view demo_versions = [?v 1 \<mapsto> demo_key_data 1, ?v 2 \<mapsto> demo_key_data 2]"
    using c'(2) c(2) ne by (auto simp: keyring_view_def demo_versions_def map_add_def fun_eq_iff)
  show "keyring_view demo_versions (?v 2) = Some (demo_key_data 2)"
    by (simp add: view)
  show "latest_version demo_cfg ''k'' demo_versions 2"
    using ne by (auto simp: latest_version_def view le_Suc_eq numeral_2_eq_2 numeral_3_eq_3)
qed

theorem keyringGetLatestKey_finds_newest_witness:
  "\<exists>p. version_loop demo_ext demo_cfg ''k'' 1 None demo_versions = (Inr (Some p, 3), demo_versions) \<and>
     keyringGetLatestKey demo_ext demo_cfg ''k'' demo_versions = (Inr (Some p), demo_versions) \<and>
     ki_data (key_at demo_versions p) = demo_key_data 2"
proof -
  have "keyringProvider demo_cfg \<noteq> PROVIDER_VAULT_V2" "length (name_stem demo_cfg ''k'') \<le> 245"
    by (simp_all add: demo_cfg_def name_stem_def keyring_config_start_def)
  from keyringGetLatestKey_finds_newest [OF demo_versions(1) this, of demo_ext] obtain n p where
    n: "latest_version demo_cfg ''k'' demo_versions n"
      "version_loop demo_ext demo_cfg ''k'' 1 None demo_versions = (Inr (if n = 0 then None else Some p, of_nat (n + 1)), demo_versions)"
      "keyringGetLatestKey demo_ext demo_cfg ''k'' demo_versions = (Inr (if n = 0 then None else Some p), demo_versions)"
      "n \<noteq> 0 \<longrightarrow> keyring_view demo_versions (version_name demo_cfg ''k'' n) = Some (ki_data (key_at demo_versions p))"
    by blast
  have "n = 2"
    using latest_version_le [OF n(1) demo_versions(2)] latest_version_le [OF demo_versions(2) n(1)] by simp
  with n demo_versions(3) show ?thesis
    by (intro exI [of _ p]) simp
qed

text \<open>
  (C32) Generating a key: with the file provider, room in the cache and a writable data file,
  \<open>keyringGenerateKey\<close> stores the random bytes under the first free version, leaves every
  other key alone and writes the new cache to the data file; \<open>keyringGetLatestKey\<close> then
  returns exactly that key.
\<close>

theorem keyringGenerateKey_is_latest:
  assumes "keyring_wf s" "keyringProvider cfg = PROVIDER_FILE" "length (name_stem cfg nm) \<le> 245"
    and "latest_version cfg nm s n" "keyring_view s (version_name cfg nm (n + 2)) = None"
    and "unat (keyCount (kr_cache s)) < 1024" "unat keyLen \<le> 32"
    and "keyringFileDataFileName cfg \<noteq> ''''" "fopen_w ext (keyringFileDataFileName cfg)"
    and "fwrite_ok ext (keyringFileDataFileName cfg)"
  shows "\<exists>p q t. keyringGenerateKey ext cfg (Some bs) nm keyLen s = (Inr (Some p), t) \<and> keyring_wf t \<and>
     keyring_view t = (keyring_view s)(version_name cfg nm (n + 1) \<mapsto> random_key ext bs keyLen) \<and>
     kr_files t (keyringFileDataFileName cfg) = Some (Whole (kr_cache t)) \<and>
     keyringGetLatestKey ext cfg nm t = (Inr (Some q), t) \<and>
     ki_name (key_at t q) = version_name cfg nm (n + 1) \<and> ki_data (key_at t q) = random_key ext bs keyLen"
proof -
  let ?d = "random_key ext bs keyLen"
  let ?nm = "version_name cfg nm (n + 1)" and ?c = "kr_cache s" and ?f = "keyringFileDataFileName cfg"
  have nv: "keyringProvider cfg \<noteq> PROVIDER_VAULT_V2" using assms(2) by simp
  have wf: "cache_wf ?c" using assms(1) by (simp add: keyring_wf_def)
  obtain n' where n': "latest_version cfg nm s n'" "n' \<le> 1024"
    by (rule latest_version_exists [OF assms(1,3)])
  then have n: "n \<le> 1024"
    using latest_version_le [OF assms(4) n'(1)] by simp
  define t where "t = s\<lparr>kr_cache := added ?c ?nm ?d, kr_files := (kr_files s)(?f \<mapsto> Whole (added ?c ?nm ?d))\<rparr>"
  obtain p where "version_loop ext cfg nm (of_nat 1) None s = (Inr (if 1 \<le> n then Some p else None, of_nat (n + 1)), s)"
    using version_loop_result [OF assms(1) nv assms(4), of 1 ext None] n by auto
  moreover have "\<not> 32 < keyLen"
    using assms(7) by (simp add: word_less_nat_alt)
  ultimately have gen: "keyringGenerateKey ext cfg (Some bs) nm keyLen s = (Inr (Some (unat (keyCount ?c))), t)"
    using assms keyringStoreKey_file [OF assms(2,8,9,6), of ?nm ?d]
    by (simp add: keyringGenerateKey_def cmd_simps t_def version_name_def)
  have wft: "keyring_wf t"
    using added_wf(1) [OF wf assms(6)] by (simp add: t_def keyring_wf_def)
  have view: "keyring_view t = (keyring_view s)(?nm \<mapsto> ?d)"
    using added_wf(2) [OF wf assms(6)] assms(4)
    by (simp add: t_def keyring_view_def added_lookup_fresh latest_version_def)
  have "latest_version cfg nm t (n + 1)"
    using assms(4) assms(3) _ assms(5) view by (rule latest_version_added) (use n in simp)
  then obtain q where "version_loop ext cfg nm (of_nat 1) None t = (Inr (Some q, of_nat (n + 1 + 1)), t)"
      "ki_name (key_at t q) = ?nm" "keyring_view t ?nm = Some (ki_data (key_at t q))"
    using version_loop_result [OF wft nv, of nm "n + 1" 1 ext None] n by auto
  moreover from this(1) have "keyringGetLatestKey ext cfg nm t = (Inr (Some q), t)"
    by (simp add: keyringGetLatestKey_def cmd_simps)
  ultimately show ?thesis
    using gen wft view by (fastforce simp: t_def)
qed

theorem keyringGenerateKey_is_latest_witness:
  "\<exists>p q t. keyringGenerateKey demo_ext demo_cfg (Some (replicate 16 3)) ''master-key'' 16 demo_keyring = (Inr (Some p), t) \<and>
     keyring_wf t \<and>
     keyring_view t = (keyring_view demo_keyring)(version_name demo_cfg ''master-key'' (0 + 1) \<mapsto>
       random_key demo_ext (replicate 16 3) 16) \<and>
     kr_files t (keyringFileDataFileName demo_cfg) = Some (Whole (kr_cache t)) \<and>
     keyringGetLatestKey demo_ext demo_cfg ''master-key'' t = (Inr (Some q), t) \<and>
     ki_name (key_at t q) = version_name demo_cfg ''master-key'' (0 + 1) \<and>
     ki_data (key_at t q) = random_key demo_ext (replicate 16 3) 16"
proof (rule keyringGenerateKey_is_latest)
  show "unat (keyCount (kr_cache demo_keyring)) < 1024"
    by (simp add: demo_keyring_def zero_cache_def)
qed (simp_all add: demo_cfg_def name_stem_def keyring_config_start_def latest_version_def demo_ext_def)

text \<open>
  (C29) Keys survive a restart: after a successful store with the file provider whose write
  reached the disk, initialising the cache of a new server from the same data file gives
  exactly the keys the old server had, the new one included.
\<close>

theorem stored_keys_survive_restart:
  assumes "keyring_wf s" "keyringProvider cfg = PROVIDER_FILE" "fwrite_ok ext (keyringFileDataFileName cfg)"
    and "keyringStoreKey ext cfg nm d s = (Inr (Some p), t)"
    and "kr_files u = kr_files t"
  shows "\<exists>u'. keyringInitCache cfg False u = (Inr (), u') \<and> keyring_view u' = keyring_view t \<and>
     keyring_view t = [nm \<mapsto> d] ++ keyring_view s \<and> key_at u' p = \<lparr>ki_name = nm, ki_data = d\<rparr>"
proof -
  have wf: "cache_wf (kr_cache s)" using assms(1) by (simp add: keyring_wf_def)
  note st = keyringStoreKey_file_success [OF assms(2,4)]
  then show ?thesis
    using assms(2,3,5) added_wf(2,4) [OF wf st(1), of nm d]
    by (auto simp: keyringInitCache_def keyringFilePreloadCache_def cmd_simps keyring_view_def key_at_def)
qed

theorem stored_keys_survive_restart_witness:
  "\<exists>p t u'. keyringStoreKey demo_ext demo_cfg ''k-1'' (random_key demo_ext (replicate 16 3) 16) demo_keyring = (Inr (Some p), t) \<and>
     keyringInitCache demo_cfg False (demo_keyring\<lparr>kr_files := kr_files t\<rparr>) = (Inr (), u') \<and>
     key_at u' p = \<lparr>ki_name = ''k-1'', ki_data = random_key demo_ext (replicate 16 3) 16\<rparr>"
proof -
  obtain p t where t: "keyringStoreKey demo_ext demo_cfg ''k-1'' (random_key demo_ext (replicate 16 3) 16) demo_keyring = (Inr (Some p), t)"
    using keyringStoreKey_file [of demo_cfg demo_ext demo_keyring]
    by (simp add: demo_cfg_def demo_ext_def keyring_config_start_def demo_keyring_def zero_cache_def)
  have "fwrite_ok demo_ext (keyringFileDataFileName demo_cfg)" "keyringProvider demo_cfg = PROVIDER_FILE"
    by (simp_all add: demo_ext_def demo_cfg_def)
  from stored_keys_survive_restart [OF demo_keyring_wf this(2,1) t, of "demo_keyring\<lparr>kr_files := kr_files t\<rparr>"] t
  show ?thesis by auto
qed

section \<open>Frames\<close>

lemma curl_headers_frame:
  "curl_headers ext cfg s = (r, t) \<Longrightarrow> kr_cache t = kr_cache s \<and> kr_files t = kr_files s \<and> kr_world t = kr_world s \<and>
     kr_curl t = kr_curl s"
  by (auto simp: curl_headers_def split: option.splits if_splits)

lemma curlSetupSession_frame:
  "curlSetupSession ext cfg url s = (r, t) \<Longrightarrow>
     kr_cache t = kr_cache s \<and> kr_files t = kr_files s \<and> kr_world t = kr_world s"
  by (auto simp: curlSetupSession_def Let_def bindC_def split: option.splits if_splits prod.splits sum.splits
      dest!: curl_headers_frame)

lemma curlPerform_frame:
  "curlPerform ext cfg url pd s = (r, t) \<Longrightarrow> kr_cache t = kr_cache s \<and> kr_files t = kr_files s"
  by (auto simp: curlPerform_def Let_def bindC_def split: option.splits if_splits prod.splits sum.splits
      dest!: curlSetupSession_frame)

lemma keyringVaultGetKey_frame:
  "keyringVaultGetKey ext cfg nm d s = (r, t) \<Longrightarrow> kr_cache t = kr_cache s \<and> kr_files t = kr_files s"
  by (auto simp: keyringVaultGetKey_def Let_def bindC_def split: option.splits if_splits prod.splits sum.splits
      dest!: curlPerform_frame)

lemma keyringVaultStoreKey_frame:
  "keyringVaultStoreKey ext cfg ki s = (r, t) \<Longrightarrow> kr_cache t = kr_cache s \<and> kr_files t = kr_files s"
  by (auto simp: keyringVaultStoreKey_def Let_def bindC_def split: option.splits if_splits prod.splits sum.splits
      dest!: curlPerform_frame)

section \<open>The invariant of the keyring\<close>

fun file_image :: "cache_file \<Rightarrow> keyringCache" where
  "file_image (Whole img) = img"
| "file_image (Cut n img) = img"

definition keyring_inv :: "'w keyring_state \<Rightarrow> bool" where
  "keyring_inv s \<longleftrightarrow> keyring_wf s \<and> (\<forall>f x. kr_files s f = Some x \<longrightarrow> cache_wf (file_image x))"

lemma keyring_inv_frame:
  "keyring_inv s \<Longrightarrow> kr_cache t = kr_cache s \<Longrightarrow> kr_files t = kr_files s \<Longrightarrow> keyring_inv t"
  by (simp add: keyring_inv_def keyring_wf_def)

lemma read_low_bytes_zero: "read_low_bytes m new 0 \<le> new"
  by (simp add: read_low_bytes_def word_le_nat_alt unat_of_nat)
    (metis mod_less_eq_dividend order_trans)

lemma read_over_zero_wf: "cache_wf img \<Longrightarrow> cache_wf (read_over n img zero_cache)"
  using read_low_bytes_zero [of "n - 299008" "keyCount img"]
  by (simp add: cache_wf_def read_over_def zero_cache_def word_le_nat_alt)

text \<open>
  How an operation may end: in the store past the array, with the count advanced out of it, or in a
  state with the invariant.
\<close>

fun raised :: "pgerror + 'a \<Rightarrow> pgerror option" where
  "raised (Inl e) = Some e"
| "raised (Inr a) = None"

definition overflowed :: "pgerror option \<Rightarrow> bool" where
  "overflowed e \<longleftrightarrow> e = Some (Undefined ''store past cache->keys'')"

definition ends_well :: "pgerror option \<Rightarrow> 'w keyring_state \<Rightarrow> bool" where
  "ends_well e t \<longleftrightarrow> (if overflowed e then keyCount (kr_cache t) = 1025 else keyring_inv t)"

lemma overflowed_simps [simp]:
  "overflowed None = False" "overflowed (Some (Undefined ''store past cache->keys''))"
  "overflowed (Some (Ereport l m)) = False"
  by (simp_all add: overflowed_def)

lemma ends_well_inv: "keyring_inv t \<Longrightarrow> \<not> overflowed e \<Longrightarrow> ends_well e t"
  by (simp add: ends_well_def)

lemma keyringCacheStoreKey_ends:
  assumes "keyring_inv s" "keyringCacheStoreKey nm d s = (r, t)"
  shows "ends_well (raised r) t" "overflowed (raised r) \<longleftrightarrow> keyCount (kr_cache s) = 1024"
proof -
  have wf: "cache_wf (kr_cache s)"
    using assms(1) by (simp add: keyring_inv_def keyring_wf_def)
  have "ends_well (raised r) t \<and> (overflowed (raised r) \<longleftrightarrow> keyCount (kr_cache s) = 1024)"
  proof (cases "unat (keyCount (kr_cache s)) < 1024")
    case True
    then have "keyCount (kr_cache s) \<noteq> 1024" by auto
    with True show ?thesis
      using assms added_wf(1) [OF wf True]
      by (auto simp: keyringCacheStoreKey_added ends_well_def keyring_inv_def keyring_wf_def)
  next
    case False
    then have "unat (keyCount (kr_cache s)) = unat (1024 :: uint32)"
      using wf by (simp add: cache_wf_def)
    then have "keyCount (kr_cache s) = 1024"
      by (simp only: word_unat_eq_iff)
    with False show ?thesis
      using assms(2) by (auto simp: keyringCacheStoreKey_def Let_def ends_well_def)
  qed
  then show "ends_well (raised r) t" "overflowed (raised r) \<longleftrightarrow> keyCount (kr_cache s) = 1024"
    by blast+
qed

text \<open>The errors of the providers are others.\<close>

lemma keyringVaultKeyUrl_other: "keyringVaultKeyUrl cfg nm = Inl e \<Longrightarrow> \<not> overflowed (Some e)"
  by (auto simp: keyringVaultKeyUrl_def overflowed_def Let_def split: if_splits)

lemma curlPerform_other: "curlPerform ext cfg url pd s = (Inl e, t) \<Longrightarrow> \<not> overflowed (Some e)"
  by (auto simp: curlPerform_def curlSetupSession_def curl_headers_def overflowed_def Let_def bindC_def
      split: option.splits if_splits prod.splits sum.splits)

lemma vault_key_text_other: "vault_key_text jc body = Inl e \<Longrightarrow> \<not> overflowed (Some e)"
  by (auto simp: vault_key_text_def overflowed_def split: option.splits if_splits)

lemma keyringVaultGetKey_other: "keyringVaultGetKey ext cfg nm d s = (Inl e, t) \<Longrightarrow> \<not> overflowed (Some e)"
  by (auto simp: keyringVaultGetKey_def bindC_def Let_def overflowed_def split: option.splits if_splits prod.splits sum.splits
      dest: keyringVaultKeyUrl_other curlPerform_other vault_key_text_other [unfolded overflowed_def])

lemma keyringVaultStoreKey_other: "keyringVaultStoreKey ext cfg ki s = (Inl e, t) \<Longrightarrow> \<not> overflowed (Some e)"
  by (auto simp: keyringVaultStoreKey_def bindC_def Let_def overflowed_def split: option.splits if_splits prod.splits sum.splits
      dest: keyringVaultKeyUrl_other curlPerform_other)

lemma keyringGetKey_ends:
  assumes "keyring_inv s" "keyringGetKey ext cfg nm s = (r, t)"
  shows "ends_well (raised r) t"
proof -
  have wf: "\<not> 1024 < unat (keyCount (kr_cache s))"
    using assms(1) by (simp add: keyring_inv_def keyring_wf_def cache_wf_def)
  let ?d = "\<lparr>kd_data = uninit_key ext, kd_len = 0\<rparr>"
  obtain q u where u: "keyringVaultGetKey ext cfg nm ?d s = (q, u)"
    by fastforce
  have inv: "keyring_inv u"
    using assms(1) keyringVaultGetKey_frame [OF u] keyring_inv_frame by blast
  consider "t = s" "\<exists>p. r = Inr p" | "(r, t) = bindC (keyringVaultGetKey ext cfg nm ?d)
      (\<lambda>(ret, d). if kd_len d > 0 then bindC (keyringCacheStoreKey nm d) (\<lambda>p. returnC (Some p)) else returnC None) s"
    using assms(2) wf by (auto simp: keyringGetKey_def Let_def split: option.splits if_splits KeyringProvider.splits)
  then show ?thesis
  proof cases
    case 1
    with assms(1) show ?thesis by (auto intro: ends_well_inv)
  next
    case 2
    show ?thesis
    proof (cases q)
      case (Inl e)
      then have "r = Inl e" "t = u" "\<not> overflowed (Some e)"
        using 2 u keyringVaultGetKey_other [of ext cfg nm ?d s e u] by (simp_all add: bindC_def)
      with inv show ?thesis by (simp add: ends_well_inv)
    next
      case (Inr v)
      obtain ret d where v: "v = (ret, d)" by fastforce
      obtain q' u' where u': "keyringCacheStoreKey nm d u = (q', u')" by fastforce
      then have "ends_well (raised q') u'"
        by (rule keyringCacheStoreKey_ends [OF inv])
      with 2 u Inr v u' inv show ?thesis
        by (cases q') (auto simp: bindC_def returnC_def intro: ends_well_inv split: if_splits)
    qed
  qed
qed

lemma version_loop_ends:
  "version_loop ext cfg nm i prev s = (r, t) \<Longrightarrow> keyring_inv s \<Longrightarrow> ends_well (raised r) t"
proof (induction ext cfg nm i prev s arbitrary: r t rule: version_loop.induct)
  case (1 ext cfg nm i prev s)
  obtain q u where u: "keyringGetKey ext cfg (keyringConstructKeyName cfg nm i) s = (q, u)"
    by fastforce
  have ends: "ends_well (raised q) u"
    by (rule keyringGetKey_ends [OF 1(3) u])
  show ?case
  proof (cases "(\<exists>p. q = Inr (Some p)) \<and> i \<noteq> 0x7FFFFFFF")
    case True
    then obtain p where p: "q = Inr (Some p)" "i \<noteq> 0x7FFFFFFF" by blast
    then have "version_loop ext cfg nm (i + 1) (Some p) u = (r, t)" "keyring_inv u"
      using 1(2) u ends by (simp_all add: version_loop.simps [of ext cfg nm i] ends_well_def)
    from 1(1) [OF u [symmetric] p(1) refl p(2) this] show ?thesis .
  next
    case False
    then have "t = u" "(\<exists>e. q = Inl e \<and> r = Inl e) \<or> (\<exists>a. q = Inr a) \<and> \<not> overflowed (raised r)"
      using 1(2) u
      by (cases q; auto simp: version_loop.simps [of ext cfg nm i] overflowed_def split: option.splits if_splits)+
    with ends show ?thesis
      by (auto simp: ends_well_def)
  qed
qed

lemma drop_added_inv:
  assumes "keyring_inv s" "unat (keyCount (kr_cache s)) < 1024" "kr_cache t = added (kr_cache s) nm d"
    and "kr_files t = kr_files s"
  shows "keyring_inv (drop_last_entry t)" "keyring_view (drop_last_entry t) = keyring_view s"
  using assms drop_added [of "kr_cache s" nm d]
  by (auto simp: keyring_inv_def keyring_wf_def keyring_view_def cache_view_def cache_wf_def drop_last_entry_def added_def)

text \<open>A store in the three cases of its provider's answer.\<close>

lemma keyringStoreKey_cases:
  assumes "keyring_inv s" "unat (keyCount (kr_cache s)) < 1024" "keyringStoreKey ext cfg nm d s = (r, t)"
  obtains (stored) "r = Inr (Some (unat (keyCount (kr_cache s))))" "keyring_inv t" "kr_cache t = added (kr_cache s) nm d"
  | (refused) u where "r = Inr None" "t = drop_last_entry u" "kr_cache u = added (kr_cache s) nm d" "kr_files u = kr_files s"
  | (failed) e where "r = Inl e" "\<not> overflowed (Some e)" "kr_cache t = added (kr_cache s) nm d" "kr_files t = kr_files s"
proof -
  let ?s = "s\<lparr>kr_cache := added (kr_cache s) nm d\<rparr>"
  let ?finish = "\<lambda>ok s'. if ok then (Inr (Some (unat (keyCount (kr_cache s)))), s') else (Inr None, drop_last_entry s')"
  have wf: "keyring_inv ?s"
    using assms(1) added_wf(1) [OF _ assms(2)] by (simp add: keyring_inv_def keyring_wf_def)
  have step: "(r, t) = bindC (case keyringProvider cfg of
                       PROVIDER_FILE \<Rightarrow> keyringFileStoreKey ext cfg
                     | PROVIDER_VAULT_V2 \<Rightarrow> keyringVaultStoreKey ext cfg \<lparr>ki_name = nm, ki_data = d\<rparr>
                     | PROVIDER_UNKNOWN \<Rightarrow> returnC False) ?finish ?s"
    using assms(2,3) by (simp add: keyringStoreKey_def bindC_def keyringCacheStoreKey_added)
  show thesis
  proof (cases "keyringProvider cfg")
    case PROVIDER_FILE
    obtain q u where q: "keyringFileStoreKey ext cfg ?s = (q, u)" by fastforce
    then have "kr_cache u = added (kr_cache s) nm d" "q \<noteq> Inr False"
      "q = Inr True \<Longrightarrow> keyring_inv u" "\<And>e. q = Inl e \<Longrightarrow> \<not> overflowed (Some e) \<and> kr_files u = kr_files s"
      using wf by (auto simp: keyringFileStoreKey_def Let_def keyring_inv_def keyring_wf_def overflowed_def split: if_splits)
    moreover have "(r, t) = (case q of Inl e \<Rightarrow> (Inl e, u) | Inr ok \<Rightarrow> ?finish ok u)"
      using step q PROVIDER_FILE by (simp add: bindC_def)
    ultimately show thesis
      using stored failed by (cases q) (auto split: if_splits)
  next
    case PROVIDER_UNKNOWN
    with step show thesis
      by (intro refused [of ?s]) (simp_all add: cmd_simps)
  next
    case PROVIDER_VAULT_V2
    obtain q u where q: "keyringVaultStoreKey ext cfg \<lparr>ki_name = nm, ki_data = d\<rparr> ?s = (q, u)" by fastforce
    then have u: "kr_cache u = added (kr_cache s) nm d" "kr_files u = kr_files s" "keyring_inv u"
      "\<And>e. q = Inl e \<Longrightarrow> \<not> overflowed (Some e)"
      using keyringVaultStoreKey_frame [OF q] keyring_inv_frame [OF wf, of u] keyringVaultStoreKey_other [of ext cfg _ ?s _ u] by auto
    have "(r, t) = (case q of Inl e \<Rightarrow> (Inl e, u) | Inr ok \<Rightarrow> ?finish ok u)"
      using step q PROVIDER_VAULT_V2 by (simp add: bindC_def)
    with u show thesis
      using stored refused failed by (cases q) (auto split: if_splits)
  qed
qed

lemma keyringStoreKey_ends:
  assumes "keyring_inv s" "keyringStoreKey ext cfg nm d s = (r, t)"
  shows "ends_well (raised r) t" "overflowed (raised r) \<longleftrightarrow> keyCount (kr_cache s) = 1024"
proof -
  have "ends_well (raised r) t \<and> (overflowed (raised r) \<longleftrightarrow> keyCount (kr_cache s) = 1024)"
  proof (cases "unat (keyCount (kr_cache s)) < 1024")
    case False
    obtain q u where q: "keyringCacheStoreKey nm d s = (q, u)" by fastforce
    with False have "q = cache_overflow" by (auto simp: keyringCacheStoreKey_def Let_def)
    with q have "r = cache_overflow" "t = u"
      using assms(2) by (simp_all add: keyringStoreKey_def bindC_def)
    with keyringCacheStoreKey_ends [OF assms(1) q] \<open>q = cache_overflow\<close> show ?thesis
      by simp
  next
    case True
    then have "keyCount (kr_cache s) \<noteq> 1024" by auto
    have files: "keyring_inv u" if "kr_cache u = added (kr_cache s) nm d" "kr_files u = kr_files s" for u
      using that assms(1) added_wf(1) [OF _ True] by (simp add: keyring_inv_def keyring_wf_def)
    from assms(1) True assms(2) show ?thesis
    proof (cases rule: keyringStoreKey_cases)
      case (refused u)
      then show ?thesis
        using drop_added_inv(1) [OF assms(1) True, of u nm d] \<open>keyCount (kr_cache s) \<noteq> 1024\<close> by (simp add: ends_well_inv)
    qed (use files [of t] \<open>keyCount (kr_cache s) \<noteq> 1024\<close> in \<open>auto simp: ends_well_def\<close>)
  qed
  then show "ends_well (raised r) t" "overflowed (raised r) \<longleftrightarrow> keyCount (kr_cache s) = 1024"
    by blast+
qed

lemma keyringInitCache_ends:
  assumes "keyring_inv s" "keyringInitCache cfg found s = (r, t)"
    and "\<And>n img. found \<Longrightarrow> kr_files s (keyringFileDataFileName cfg) \<noteq> Some (Cut n img)"
  shows "ends_well (raised r) t"
proof -
  have "\<And>n img. kr_files s (keyringFileDataFileName cfg) = Some (Cut n img) \<Longrightarrow> cache_wf (read_over n img zero_cache)"
    "\<And>img. kr_files s (keyringFileDataFileName cfg) = Some (Whole img) \<Longrightarrow> cache_wf img"
    using assms(1) by (fastforce simp: keyring_inv_def intro!: read_over_zero_wf)+
  moreover have "\<exists>u. r = Inr u"
    using assms(2) by (auto simp: keyringInitCache_def keyringFilePreloadCache_def keyringVaultPreloadCache_def Let_def cmd_simps
        split: KeyringProvider.splits option.splits cache_file.splits if_splits)
  ultimately show ?thesis
    using assms
    by (auto simp: keyringInitCache_def keyringFilePreloadCache_def keyringVaultPreloadCache_def Let_def cmd_simps ends_well_def
      keyring_inv_def keyring_wf_def split: KeyringProvider.splits option.splits cache_file.splits if_splits)
qed

text \<open>
  The operations other components and the server start call, as steps with the error they raise. A
  start that finds the segment there reads a whole data file. A run goes on after an error, as a
  server does, but not after the store past the array.
\<close>

inductive keyring_step :: "'w keyring_ext \<Rightarrow> keyring_config \<Rightarrow> 'w keyring_state \<Rightarrow> pgerror option \<Rightarrow> 'w keyring_state \<Rightarrow> bool"
  for ext cfg where
  step_get: "keyringGetKey ext cfg nm s = (r, t) \<Longrightarrow> keyring_step ext cfg s (raised r) t"
| step_store: "keyringStoreKey ext cfg nm d s = (r', t) \<Longrightarrow> keyring_step ext cfg s (raised r') t"
| step_latest: "keyringGetLatestKey ext cfg nm s = (r, t) \<Longrightarrow> keyring_step ext cfg s (raised r) t"
| step_generate: "keyringGenerateKey ext cfg rnd nm keyLen s = (r, t) \<Longrightarrow> keyring_step ext cfg s (raised r) t"
| step_init: "keyringInitCache cfg found s = (u, t) \<Longrightarrow>
    (\<And>n img. found \<Longrightarrow> kr_files s (keyringFileDataFileName cfg) \<noteq> Some (Cut n img)) \<Longrightarrow> keyring_step ext cfg s (raised u) t"

inductive keyring_run :: "'w keyring_ext \<Rightarrow> keyring_config \<Rightarrow> 'w keyring_state \<Rightarrow> 'w keyring_state \<Rightarrow> bool"
  for ext cfg s where
  run_start: "keyring_run ext cfg s s"
| run_step: "keyring_run ext cfg s t \<Longrightarrow> keyring_step ext cfg t e u \<Longrightarrow> \<not> overflowed e \<Longrightarrow> keyring_run ext cfg s u"

lemma keyring_step_ends: "keyring_step ext cfg s e t \<Longrightarrow> keyring_inv s \<Longrightarrow> ends_well e t"
proof (induction rule: keyring_step.induct)
  case (step_latest nm s r t)
  obtain q u where q: "version_loop ext cfg nm 1 None s = (q, u)" by fastforce
  with step_latest have "t = u" "raised r = raised q"
    by (auto simp: keyringGetLatestKey_def cmd_simps split: prod.splits sum.splits)
  with version_loop_ends [OF q] step_latest show ?case by simp
next
  case (step_generate rnd nm keyLen s r t)
  obtain q u where q: "version_loop ext cfg nm 1 None s = (q, u)" by fastforce
  note ends = version_loop_ends [OF q step_generate(2)]
  show ?case
  proof (cases q)
    case (Inl e)
    with q step_generate(1) ends show ?thesis by (auto simp: keyringGenerateKey_def bindC_def)
  next
    case (Inr v)
    obtain prev i where v: "v = (prev, i)" by fastforce
    have inv: "keyring_inv u" using ends Inr by (simp add: ends_well_def)
    show ?thesis
    proof (cases "\<not> 32 < keyLen \<and> rnd \<noteq> None")
      case True
      then obtain bs where "keyringStoreKey ext cfg (keyringConstructKeyName cfg nm i) (random_key ext bs keyLen) u = (r, t)"
        using step_generate(1) q Inr v by (auto simp: keyringGenerateKey_def bindC_def)
      with keyringStoreKey_ends(1) [OF inv] show ?thesis by blast
    next
      case False
      then have "t = u" "\<not> overflowed (raised r)"
        using step_generate(1) q Inr v
        by (auto simp: keyringGenerateKey_def cmd_simps overflowed_def split: if_splits)
      with inv show ?thesis by (simp add: ends_well_inv)
    qed
  qed
qed (auto intro: keyringGetKey_ends keyringStoreKey_ends(1) keyringInitCache_ends)

lemma keyring_run_inv: "keyring_run ext cfg s t \<Longrightarrow> keyring_inv s \<Longrightarrow> keyring_inv t"
  by (induction rule: keyring_run.induct) (auto dest!: keyring_step_ends simp: ends_well_def)

text \<open>
  (C30) The bounds of the cache, and where the code leaves them: starting from a good keyring with
  any provider, after any sequence of lookups, stores, version searches, key generations and server
  starts, also failing ones, in which nothing was stored into a full cache, the array has its 1024
  entries and the count lies within it, as in every cache image on disk. The next operation keeps this
  or stores past the array, with the count advanced to 1025; \<open>keyringStoreKey\<close> does the latter
  exactly when the cache is full, since no routine checks for room.
\<close>

theorem keyring_invariant:
  assumes "keyring_run ext cfg s t" "keyring_inv s"
  shows "keyring_inv t \<and>
    (\<forall>e u. keyring_step ext cfg t e u \<longrightarrow> (if overflowed e then keyCount (kr_cache u) = 1025 else keyring_inv u)) \<and>
    (\<forall>nm d. overflowed (raised (fst (keyringStoreKey ext cfg nm d t))) \<longleftrightarrow> keyCount (kr_cache t) = 1024)"
proof -
  have inv: "keyring_inv t"
    by (rule keyring_run_inv [OF assms])
  have "overflowed (raised (fst (keyringStoreKey ext cfg nm d t))) \<longleftrightarrow> keyCount (kr_cache t) = 1024" for nm d
    by (rule keyringStoreKey_ends(2) [OF inv, of ext cfg nm d _ "snd (keyringStoreKey ext cfg nm d t)"]) simp
  with inv keyring_step_ends [OF _ inv] show ?thesis
    by (simp add: ends_well_def)
qed

lemma demo_keyring_inv: "keyring_inv demo_keyring"
  by (simp add: keyring_inv_def demo_keyring_def keyring_wf_def)

text \<open>A cache whose entries are all taken.\<close>

definition demo_full :: "unit keyring_state" where
  "demo_full = demo_keyring\<lparr>kr_cache := zero_cache\<lparr>keyCount := 1024\<rparr>\<rparr>"

theorem keyring_invariant_witness:
  "(\<exists>t. keyring_run demo_ext demo_cfg demo_keyring t \<and> keyring_inv t \<and> keyCount (kr_cache t) = 1) \<and>
   overflowed (raised (fst (keyringStoreKey demo_ext demo_cfg ''k-1'' (random_key demo_ext (replicate 16 3) 16) demo_full)))"
proof
  let ?d = "random_key demo_ext (replicate 16 3) 16"
  obtain t where t: "keyringStoreKey demo_ext demo_cfg ''k-1'' ?d demo_keyring = (Inr (Some 0), t)" "keyCount (kr_cache t) = 1"
    using keyringStoreKey_file [of demo_cfg demo_ext demo_keyring]
    by (simp add: demo_cfg_def demo_ext_def keyring_config_start_def demo_keyring_def zero_cache_def added_def)
  then have "keyring_step demo_ext demo_cfg demo_keyring None t"
    using step_store [of demo_ext demo_cfg "''k-1''" ?d demo_keyring "Inr (Some 0)" t] by simp
  then have "keyring_run demo_ext demo_cfg demo_keyring t"
    by (rule run_step [OF run_start]) (simp add: overflowed_def)
  with keyring_invariant [OF this demo_keyring_inv] t(2)
  show "\<exists>t. keyring_run demo_ext demo_cfg demo_keyring t \<and> keyring_inv t \<and> keyCount (kr_cache t) = 1" by blast
  have "keyring_inv demo_full"
    by (simp add: keyring_inv_def keyring_wf_def cache_wf_def demo_full_def demo_keyring_def zero_cache_def)
  from keyring_invariant [OF run_start this, of demo_ext demo_cfg]
  show "overflowed (raised (fst (keyringStoreKey demo_ext demo_cfg ''k-1'' ?d demo_full)))"
    by (simp add: demo_full_def)
qed

text \<open>
  (C36) What a store leaves when it does not return the key, with room in the cache: if
  \<open>keyringStoreKey\<close> returns NULL (Vault answered with a status other than 2xx, or there is no
  provider) the store is undone, the cache holds the keys it held before. If the provider raises an
  error instead (no data file, a failed request), the removal at the end of the routine is not
  reached and the key stays in the cache. No data file changes in either case.
\<close>

theorem refused_store_is_undone:
  assumes "keyring_inv s" "unat (keyCount (kr_cache s)) < 1024" "keyringStoreKey ext cfg nm d s = (r, t)"
  shows "(r = Inr None \<longrightarrow> keyring_view t = keyring_view s \<and> keyCount (kr_cache t) = keyCount (kr_cache s) \<and> kr_files t = kr_files s) \<and>
    (\<forall>e. r = Inl e \<longrightarrow> keyring_view t = [nm \<mapsto> d] ++ keyring_view s \<and> keyCount (kr_cache t) = keyCount (kr_cache s) + 1 \<and>
       kr_files t = kr_files s)"
  using assms
proof (cases rule: keyringStoreKey_cases)
  case (refused u)
  then show ?thesis
    using drop_added_inv(2) [OF assms(1,2), of u nm d] by (simp add: drop_last_entry_def added_def)
next
  case (failed e)
  moreover have "cache_wf (kr_cache s)"
    using assms(1) by (simp add: keyring_inv_def keyring_wf_def)
  ultimately show ?thesis
    using added_wf(2) [OF _ assms(2), of nm d] by (simp add: keyring_view_def added_def)
qed simp

text \<open>A Vault server that refuses every request, and a data file that cannot be written.\<close>

definition demo_refusing :: "unit keyring_ext" where
  "demo_refusing = demo_ext\<lparr>curl_easy_perform := (\<lambda>w opts. (Some (403, [''{}'']), w))\<rparr>"

theorem refused_store_is_undone_witness:
  "(\<exists>t. keyringStoreKey demo_refusing (demo_cfg\<lparr>keyringProvider := PROVIDER_VAULT_V2\<rparr>) ''k-1'' (random_key demo_ext (replicate 16 3) 16)
       demo_keyring = (Inr None, t) \<and> keyring_view t = Map.empty) \<and>
   (\<exists>e t. keyringStoreKey demo_ext (demo_cfg\<lparr>keyringFileDataFileName := ''/readonly''\<rparr>) ''k-1'' (random_key demo_ext (replicate 16 3) 16)
       demo_keyring = (Inl e, t) \<and> keyring_view t = [''k-1'' \<mapsto> random_key demo_ext (replicate 16 3) 16])"
proof
  let ?d = "random_key demo_ext (replicate 16 3) 16"
  have room: "unat (keyCount (kr_cache demo_keyring)) < 1024"
    by (simp add: demo_keyring_def zero_cache_def)
  obtain t where t: "keyringStoreKey demo_refusing (demo_cfg\<lparr>keyringProvider := PROVIDER_VAULT_V2\<rparr>) ''k-1'' ?d demo_keyring = (Inr None, t)"
    using room
    by (simp add: keyringStoreKey_def bindC_def keyringCacheStoreKey_added keyringVaultStoreKey_def keyringVaultKeyUrl_def
        curlPerform_def curlSetupSession_def curl_headers_def demo_refusing_def demo_ext_def demo_keyring_def demo_cfg_def
        keyring_config_start_def session_options_def Let_def)
  with refused_store_is_undone [OF demo_keyring_inv room t]
  show "\<exists>t. keyringStoreKey demo_refusing (demo_cfg\<lparr>keyringProvider := PROVIDER_VAULT_V2\<rparr>) ''k-1'' ?d demo_keyring = (Inr None, t) \<and>
      keyring_view t = Map.empty" by simp
  obtain e u where u: "keyringStoreKey demo_ext (demo_cfg\<lparr>keyringFileDataFileName := ''/readonly''\<rparr>) ''k-1'' ?d demo_keyring = (Inl e, u)"
    using room
    by (simp add: keyringStoreKey_def bindC_def keyringCacheStoreKey_added keyringFileStoreKey_def demo_cfg_def demo_ext_def Let_def)
  with refused_store_is_undone [OF demo_keyring_inv room u]
  show "\<exists>e t. keyringStoreKey demo_ext (demo_cfg\<lparr>keyringFileDataFileName := ''/readonly''\<rparr>) ''k-1'' ?d demo_keyring = (Inl e, t) \<and>
      keyring_view t = [''k-1'' \<mapsto> ?d]" by auto
qed

text \<open>
  A store whose data file cannot be opened is \<^emph>\<open>not\<close> undone: the error leaves the
  key in the shared cache although it is in no file, and every later lookup, also of another
  backend, gets it. A restart loses it, with the data encrypted under it.
\<close>

lemma failed_file_store_keeps_key:
  assumes "keyring_wf s" "keyringProvider cfg = PROVIDER_FILE" "unat (keyCount (kr_cache s)) < 1024"
    and "\<not> fopen_w ext (keyringFileDataFileName cfg)" "keyring_view s nm = None"
  shows "\<exists>e t p. keyringStoreKey ext cfg nm d s = (Inl (Ereport ERROR e), t) \<and> kr_files t = kr_files s \<and>
     keyringGetKey ext cfg nm t = (Inr (Some p), t) \<and> key_at t p = \<lparr>ki_name = nm, ki_data = d\<rparr>"
proof -
  define t where "t = s\<lparr>kr_cache := added (kr_cache s) nm d\<rparr>"
  have wf: "cache_wf (kr_cache s)" using assms(1) by (simp add: keyring_wf_def)
  obtain e where e: "keyringStoreKey ext cfg nm d s = (Inl (Ereport ERROR e), t)"
    using assms(2-4) by (cases "keyringFileDataFileName cfg = []")
      (auto simp: keyringStoreKey_def bindC_def keyringCacheStoreKey_added keyringFileStoreKey_def t_def Let_def)
  have "keyring_wf t" "keyring_view t nm = Some d"
    using added_wf [OF wf assms(3), of nm d] assms(5)
    by (simp_all add: t_def keyring_wf_def keyring_view_def added_lookup_fresh)
  then obtain p where p: "keyringGetKey ext cfg nm t = (Inr (Some p), t)" "ki_name (key_at t p) = nm" "ki_data (key_at t p) = d"
    by (rule keyringGetKey_hit)
  then have "key_at t p = \<lparr>ki_name = nm, ki_data = d\<rparr>"
    by (cases "key_at t p") simp
  with e p(1) show ?thesis by (auto simp: t_def)
qed

lemma failed_file_store_keeps_key_witness:
  "\<exists>e t p. keyringStoreKey demo_ext (demo_cfg\<lparr>keyringFileDataFileName := ''/readonly''\<rparr>) ''k-1''
       (random_key demo_ext (replicate 16 3) 16) demo_keyring = (Inl (Ereport ERROR e), t) \<and> kr_files t = kr_files demo_keyring \<and>
     keyringGetKey demo_ext (demo_cfg\<lparr>keyringFileDataFileName := ''/readonly''\<rparr>) ''k-1'' t = (Inr (Some p), t) \<and>
     key_at t p = \<lparr>ki_name = ''k-1'', ki_data = random_key demo_ext (replicate 16 3) 16\<rparr>"
proof (rule failed_file_store_keeps_key)
  show "unat (keyCount (kr_cache demo_keyring)) < 1024"
    by (simp add: demo_keyring_def zero_cache_def)
qed (simp_all add: demo_cfg_def demo_ext_def)

section \<open>Requests to Vault\<close>

text \<open>The options in effect: the latest setting of each kind.\<close>

definition opt_in_effect :: "(curl_opt \<Rightarrow> bool) \<Rightarrow> curl_opt list \<Rightarrow> curl_opt option" where
  "opt_in_effect kind opts = List.find kind opts"

lemma setopts_all:
  "setopts ext new opts = (True, opts') \<Longrightarrow> opts' = rev new @ opts"
  by (induction ext new opts rule: setopts.induct) (auto split: if_splits)

lemma session_options_in_effect:
  fixes postData :: "string option"
  defines "new \<equiv> case postData of Some d \<Rightarrow> [CURLOPT_POSTFIELDS (Some d)] | None \<Rightarrow> [CURLOPT_POSTFIELDS None, CURLOPT_POST 0]"
  shows "opt_in_effect is_CURLOPT_SSL_VERIFYPEER (rev new @ rev (session_options cfg hs url) @ opts) = Some (CURLOPT_SSL_VERIFYPEER 1)"
    "opt_in_effect is_CURLOPT_SSL_VERIFYHOST (rev new @ rev (session_options cfg hs url) @ opts) = Some (CURLOPT_SSL_VERIFYHOST 1)"
    "opt_in_effect is_CURLOPT_CONNECTTIMEOUT (rev new @ rev (session_options cfg hs url) @ opts) = Some (CURLOPT_CONNECTTIMEOUT 3)"
    "opt_in_effect is_CURLOPT_HTTPHEADER (rev new @ rev (session_options cfg hs url) @ opts) = Some (CURLOPT_HTTPHEADER hs)"
    "opt_in_effect is_CURLOPT_TIMEOUT (rev new @ rev (session_options cfg hs url) @ opts) = Some (CURLOPT_TIMEOUT 10)"
    "opt_in_effect is_CURLOPT_URL (rev new @ rev (session_options cfg hs url) @ opts) = Some (CURLOPT_URL url)"
    "opt_in_effect is_CURLOPT_POSTFIELDS (rev new @ rev (session_options cfg hs url) @ opts) = Some (CURLOPT_POSTFIELDS postData)"
  by (cases postData; simp add: opt_in_effect_def session_options_def new_def)+

text \<open>The header list of a request: the one there, or the one its session builds.\<close>

definition first_headers :: "'w keyring_ext \<Rightarrow> keyring_config \<Rightarrow> string list option \<Rightarrow> string list \<Rightarrow> bool" where
  "first_headers ext cfg old headers \<longleftrightarrow>
     (case old of
        Some hs \<Rightarrow> headers = hs
      | None \<Rightarrow> \<exists>hs. curl_slist_append ext [] (''X-Vault-Token:'' @ keyringVaultToken cfg) = Some hs \<and>
          curl_slist_append ext hs ''Content-Type: application/json'' = Some headers)"

lemma curl_headers_ok:
  "curl_headers ext cfg s = (Inr True, t) \<Longrightarrow> \<exists>hs. kr_curlList t = Some hs \<and> first_headers ext cfg (kr_curlList s) hs"
  by (auto simp: curl_headers_def first_headers_def split: option.splits if_splits)

lemma curlSetupSession_ok:
  assumes "curlSetupSession ext cfg url s = (Inr True, t)"
  obtains opts headers where "kr_curl t = Some (rev (session_options cfg headers url) @ opts)"
    "kr_world t = kr_world s" "kr_curlList t = Some headers" "first_headers ext cfg (kr_curlList s) headers"
proof -
  define u where "u = (if kr_curl s = None \<and> curl_easy_init ext then s\<lparr>kr_curl := Some []\<rparr> else s)"
  have same: "kr_curlList u = kr_curlList s" "kr_world u = kr_world s"
    by (simp_all add: u_def)
  from assms obtain opts where o: "kr_curl u = Some opts"
    by (auto simp: curlSetupSession_def Let_def u_def split: option.splits)
  obtain q v where v: "curl_headers ext cfg u = (q, v)" by fastforce
  from assms o v have q: "q = Inr True"
    by (auto simp: curlSetupSession_def Let_def u_def [symmetric] bindC_def split: sum.splits if_splits)
  with v same obtain hs where hs: "kr_curlList v = Some hs" "first_headers ext cfg (kr_curlList s) hs"
    using curl_headers_ok [of ext cfg u v] by auto
  obtain r opts' where s: "setopts ext (session_options cfg (the (kr_curlList v)) url) opts = (r, opts')" by fastforce
  from assms o v q s have "r" "t = v\<lparr>kr_curl := Some opts'\<rparr>"
    by (auto simp: curlSetupSession_def Let_def u_def [symmetric] bindC_def)
  with s hs same setopts_all [of ext _ opts opts'] curl_headers_frame [OF v] that show thesis
    by auto
qed

text \<open>
  (C37) What an answered request was sent with, whatever options earlier requests left on the shared
  handle: its own URL and its own body (a lookup goes without the body of an earlier store), the
  checks of the certificate and of the host name asked for, the time limits, and the header list
  that the first request of the process built from the token of the configuration. Whether the
  checks apply is up to the scheme of the URL, which nothing constrains: over \<^verbatim>\<open>http\<close> neither
  they nor \<^verbatim>\<open>CURLOPT_USE_SSL\<close> do anything.
\<close>

theorem vault_request_options:
  assumes "curlPerform ext cfg url postData s = (Inr (Some (code, body)), t)"
  shows "\<exists>opts pieces headers. kr_curl t = Some opts \<and>
     curl_easy_perform ext (kr_world s) opts = (Some (code, pieces), kr_world t) \<and> body = concat pieces \<and>
     opt_in_effect is_CURLOPT_URL opts = Some (CURLOPT_URL url) \<and>
     opt_in_effect is_CURLOPT_POSTFIELDS opts = Some (CURLOPT_POSTFIELDS postData) \<and>
     opt_in_effect is_CURLOPT_SSL_VERIFYPEER opts = Some (CURLOPT_SSL_VERIFYPEER 1) \<and>
     opt_in_effect is_CURLOPT_SSL_VERIFYHOST opts = Some (CURLOPT_SSL_VERIFYHOST 1) \<and>
     opt_in_effect is_CURLOPT_CONNECTTIMEOUT opts = Some (CURLOPT_CONNECTTIMEOUT 3) \<and>
     opt_in_effect is_CURLOPT_TIMEOUT opts = Some (CURLOPT_TIMEOUT 10) \<and>
     opt_in_effect is_CURLOPT_HTTPHEADER opts = Some (CURLOPT_HTTPHEADER headers) \<and> kr_curlList t = Some headers \<and>
     (case kr_curlList s of
        Some old \<Rightarrow> headers = old
      | None \<Rightarrow> \<exists>hs. curl_slist_append ext [] (''X-Vault-Token:'' @ keyringVaultToken cfg) = Some hs \<and>
          curl_slist_append ext hs ''Content-Type: application/json'' = Some headers)"
proof -
  obtain q u where u: "curlSetupSession ext cfg url s = (q, u)" by fastforce
  have "q = Inr True"
  proof (cases q)
    case (Inr ok)
    with assms u show ?thesis by (cases ok) (simp_all add: curlPerform_def bindC_def)
  qed (use assms u in \<open>simp add: curlPerform_def bindC_def\<close>)
  with u obtain opts headers where opts: "kr_curl u = Some (rev (session_options cfg headers url) @ opts)"
    "kr_world u = kr_world s" "kr_curlList u = Some headers" "first_headers ext cfg (kr_curlList s) headers"
    using curlSetupSession_ok [of ext cfg url s u] by blast
  let ?new = "case postData of Some d \<Rightarrow> [CURLOPT_POSTFIELDS (Some d)] | None \<Rightarrow> [CURLOPT_POSTFIELDS None, CURLOPT_POST 0]"
  obtain r opts' where r: "setopts ext ?new (the (kr_curl u)) = (r, opts')" by fastforce
  obtain w p where w: "curl_easy_perform ext (kr_world u) opts' = (p, w)" by fastforce
  have "curlPerform ext cfg url postData s =
      (if \<not> r then (Inr None, u\<lparr>kr_curl := Some opts'\<rparr>)
       else case p of None \<Rightarrow> (Inr None, u\<lparr>kr_curl := Some opts', kr_world := w\<rparr>)
         | Some (code, pieces) \<Rightarrow>
             if \<not> curl_easy_getinfo ext then (Inr None, u\<lparr>kr_curl := Some opts', kr_world := w\<rparr>)
             else (Inr (Some (code, foldl writefunc '''' pieces)), u\<lparr>kr_curl := Some opts', kr_world := w\<rparr>))"
    using u \<open>q = Inr True\<close> r w by (simp add: curlPerform_def bindC_def Let_def split: option.split)
  with assms have r': "r" "kr_curl t = Some opts'" "kr_world t = w" "kr_curlList t = kr_curlList u"
      "\<exists>pieces. p = Some (code, pieces) \<and> body = foldl writefunc '''' pieces"
    by (auto split: if_splits option.splits)
  then have o: "opts' = rev ?new @ rev (session_options cfg headers url) @ opts"
    using r opts(1) setopts_all [of ext ?new _ opts'] by simp
  have fold: "foldl writefunc a pieces = a @ concat pieces" for a pieces
    by (induction pieces arbitrary: a) (simp_all add: writefunc_def)
  note in_effect = session_options_in_effect [of postData cfg headers url opts, folded o]
  obtain pieces where "p = Some (code, pieces)" "body = concat pieces"
    using r'(5) fold by auto
  with in_effect show ?thesis
    using r'(2-4) w opts(2-4)
    by (intro exI [of _ opts'] exI [of _ pieces] exI [of _ headers]) (simp add: first_headers_def)
qed

theorem vault_request_options_witness:
  "\<exists>t opts. curlPerform demo_ext demo_cfg ''u'' None demo_keyring = (Inr (Some (200, ''{}'')), t) \<and> kr_curl t = Some opts \<and>
     opt_in_effect is_CURLOPT_SSL_VERIFYPEER opts = Some (CURLOPT_SSL_VERIFYPEER 1) \<and>
     opt_in_effect is_CURLOPT_URL opts = Some (CURLOPT_URL ''u'') \<and>
     opt_in_effect is_CURLOPT_HTTPHEADER opts = Some (CURLOPT_HTTPHEADER [''X-Vault-Token:'', ''Content-Type: application/json''])"
proof -
  obtain t where t: "curlPerform demo_ext demo_cfg ''u'' None demo_keyring = (Inr (Some (200, ''{}'')), t)"
    by (simp add: curlPerform_def curlSetupSession_def curl_headers_def bindC_def demo_ext_def demo_keyring_def demo_cfg_def
        keyring_config_start_def session_options_def Let_def writefunc_def)
  have "kr_curlList demo_keyring = None" "curl_slist_append demo_ext hs h = Some (hs @ [h])" "keyringVaultToken demo_cfg = ''''" for hs h
    by (simp_all add: demo_keyring_def demo_ext_def demo_cfg_def keyring_config_start_def)
  with vault_request_options [OF t] t show ?thesis by auto
qed

text \<open>
  A malformed key in Vault's answer is cached: when the base64 text does not decode,
  \<open>keyringVaultGetKey\<close> reports failure, but the length it leaves behind is the unsigned
  -1, so \<open>keyringGetKey\<close> puts the uninitialised buffer into the cache with length
  4294967295 and returns it as the key.
\<close>

lemma malformed_vault_key_is_cached:
  assumes "keyring_wf s" "keyringProvider cfg = PROVIDER_VAULT_V2" "unat (keyCount (kr_cache s)) < 1024"
    and "keyring_view s nm = None" "keyringVaultKeyUrl cfg nm = Inr url"
    and "curlPerform ext cfg url None s = (Inr (Some (200, body)), u)"
    and "vault_key_text (json_lib ext) body = Inr txt" "pg_b64_decode ext txt 32 = None"
  shows "\<exists>p t. keyringGetKey ext cfg nm s = (Inr (Some p), t) \<and>
     key_at t p = \<lparr>ki_name = nm, ki_data = \<lparr>kd_data = uninit_key ext, kd_len = 4294967295\<rparr>\<rparr>"
proof -
  let ?d = "\<lparr>kd_data = uninit_key ext, kd_len = 4294967295\<rparr>"
  have wf: "cache_wf (kr_cache s)" using assms(1) by (simp add: keyring_wf_def)
  have c: "kr_cache u = kr_cache s" using curlPerform_frame [OF assms(6)] by simp
  have "keyringVaultGetKey ext cfg nm \<lparr>kd_data = uninit_key ext, kd_len = 0\<rparr> s = (Inr (False, ?d), u)"
    using assms(5-8) by (simp add: keyringVaultGetKey_def bindC_def decode_key_def Let_def)
  moreover have "keyringCacheStoreKey nm ?d u = (Inr (unat (keyCount (kr_cache s))), u\<lparr>kr_cache := added (kr_cache s) nm ?d\<rparr>)"
    using keyringCacheStoreKey_added [of u nm ?d] assms(3) c by simp
  moreover have "find_key (take (unat (keyCount (kr_cache s))) (kc_keys (kr_cache s))) nm 0 = None"
    using assms(4) by (simp add: find_key_None keyring_view_def cache_view_def entries_def)
  ultimately have "keyringGetKey ext cfg nm s = (Inr (Some (unat (keyCount (kr_cache s)))), u\<lparr>kr_cache := added (kr_cache s) nm ?d\<rparr>)"
    using assms(2,3) by (simp add: keyringGetKey_def Let_def bindC_def returnC_def)
  then show ?thesis
    using added_wf(4) [OF wf assms(3), of nm ?d] by (auto simp: key_at_def)
qed

lemma demo_vault_answer:
  "\<exists>u. curlPerform demo_ext (demo_cfg\<lparr>keyringProvider := PROVIDER_VAULT_V2\<rparr>) ''/v1//data/k-1'' None demo_keyring =
     (Inr (Some (200, ''{}'')), u)"
  by (simp add: curlPerform_def curlSetupSession_def curl_headers_def bindC_def demo_ext_def demo_keyring_def demo_cfg_def
      keyring_config_start_def session_options_def Let_def writefunc_def)

lemma malformed_vault_key_is_cached_witness:
  "\<exists>p t. keyringGetKey demo_ext (demo_cfg\<lparr>keyringProvider := PROVIDER_VAULT_V2\<rparr>) ''k-1'' demo_keyring = (Inr (Some p), t) \<and>
     key_at t p = \<lparr>ki_name = ''k-1'', ki_data = \<lparr>kd_data = uninit_key demo_ext, kd_len = 4294967295\<rparr>\<rparr>"
proof -
  obtain u where "curlPerform demo_ext (demo_cfg\<lparr>keyringProvider := PROVIDER_VAULT_V2\<rparr>) ''/v1//data/k-1'' None demo_keyring =
     (Inr (Some (200, ''{}'')), u)"
    using demo_vault_answer by blast
  moreover have "vault_key_text (json_lib demo_ext) ''{}'' = Inr ''!''" "pg_b64_decode demo_ext ''!'' 32 = None"
    by (simp_all add: vault_key_text_def demo_ext_def)
  moreover have "keyringVaultKeyUrl (demo_cfg\<lparr>keyringProvider := PROVIDER_VAULT_V2\<rparr>) ''k-1'' = Inr ''/v1//data/k-1''"
    by (simp add: keyringVaultKeyUrl_def demo_cfg_def keyring_config_start_def)
  moreover have "unat (keyCount (kr_cache demo_keyring)) < 1024"
    by (simp add: demo_keyring_def zero_cache_def)
  ultimately show ?thesis
    using malformed_vault_key_is_cached [of demo_keyring "demo_cfg\<lparr>keyringProvider := PROVIDER_VAULT_V2\<rparr>" "''k-1''"] by simp
qed

text \<open>
  The buffers of the Vault client suffice: with a configuration within its arrays, the
  token header fits its 256 bytes, and the URL of every key name of up to 123 characters fits
  its 512 bytes; the names that \<open>keyringConstructKeyName\<close> builds are within this bound for
  an internal name of up to 78 characters and a prefix of at most 32.
\<close>

lemma vault_buffers_suffice:
  assumes "config_wf cfg" "length internalName \<le> 78"
    and "keyringCheckKeyPrefix (keyringKeyPrefix cfg) = Inr True"
  shows "length (''X-Vault-Token:'' @ keyringVaultToken cfg) < 256 \<and>
     (\<exists>url. keyringVaultKeyUrl cfg (keyringConstructKeyName cfg internalName v) = Inr url) \<and>
     keyringConstructKeyName cfg internalName v = version_name cfg internalName (unat v)"
proof -
  have "length (name_stem cfg internalName) \<le> 112"
    using assms(2,3) by (auto simp: name_stem_def keyringCheckKeyPrefix_def split: option.splits if_splits)
  then have "length (keyringConstructKeyName cfg internalName v) \<le> 122"
    using length_dec_uint32 [of v] by (simp add: keyringConstructKeyName_stem)
  then show ?thesis
    using assms(1) by (auto simp: keyringVaultKeyUrl_def config_wf_def Let_def version_name_def)
qed

lemma vault_buffers_suffice_witness:
  "length (''X-Vault-Token:'' @ keyringVaultToken demo_cfg) < 256 \<and>
     (\<exists>url. keyringVaultKeyUrl demo_cfg (keyringConstructKeyName demo_cfg ''k'' 1) = Inr url) \<and>
     keyringConstructKeyName demo_cfg ''k'' 1 = version_name demo_cfg ''k'' (unat (1 :: uint32))"
  by (rule vault_buffers_suffice) (simp_all add: demo_cfg_def keyring_config_start_def config_wf_def keyringCheckKeyPrefix_def)

end
