(* ===== verification/XactHandler.thy ===== *)
theory XactHandler
  imports TdePrelude
begin

text \<open>
  Deleting key files at the end of a transaction, \<^verbatim>\<open>src/transam/pg_tde_xact_handler.c\<close>. The
  linked list of requests is a list with its head first. What PostgreSQL keeps, the nesting
  level of the current transaction and the files, is part of the state; the record is
  extensible, so that the fork manager works on the same state. An abstract transaction with
  one list of requests per open savepoint is the specification.
\<close>

section \<open>State\<close>

record PendingFileDelete =
  pd_path :: path
  pd_atCommit :: bool
  pd_nestLevel :: nat

record xact_state =
  pendingDeletes :: "PendingFileDelete list"
  xs_nestLevel :: nat
  xs_files :: "path \<rightharpoonup> byte list"

datatype XactEvent =
    XACT_EVENT_COMMIT
  | XACT_EVENT_PARALLEL_COMMIT
  | XACT_EVENT_ABORT
  | XACT_EVENT_PARALLEL_ABORT
  | XACT_EVENT_PREPARE
  | XACT_EVENT_PRE_COMMIT
  | XACT_EVENT_PARALLEL_PRE_COMMIT
  | XACT_EVENT_PRE_PREPARE

datatype SubXactEvent =
    SUBXACT_EVENT_START_SUB
  | SUBXACT_EVENT_COMMIT_SUB
  | SUBXACT_EVENT_ABORT_SUB
  | SUBXACT_EVENT_PRE_COMMIT_SUB

text \<open>
  \<^verbatim>\<open>durable_unlink(path, WARNING)\<close>: \<open>unlink_ok\<close> says whether the operating system removes the
  file; a failure is a warning.
\<close>

definition durable_unlink :: "(path \<Rightarrow> bool) \<Rightarrow> path \<Rightarrow> 'z xact_state_scheme \<Rightarrow> 'z xact_state_scheme" where
  "durable_unlink unlink_ok p s =
     (if unlink_ok p then s\<lparr>xs_files := (xs_files s)(p := None)\<rparr> else s)"

section \<open>Operations\<close>

definition RegisterFileForDeletion :: "path \<Rightarrow> bool \<Rightarrow> 'z xact_state_scheme \<Rightarrow> 'z xact_state_scheme" where
  "RegisterFileForDeletion filePath atCommit s =
     s\<lparr>pendingDeletes :=
         \<lparr>pd_path = filePath, pd_atCommit = atCommit, pd_nestLevel = xs_nestLevel s\<rparr> # pendingDeletes s\<rparr>"

text \<open>
  The loops carry the entries already passed and kept, \<open>prevs\<close>; removing the current entry
  makes \<open>prevs\<close> continue with \<open>next\<close>.
\<close>

fun cleanup_pending_loop ::
  "bool \<Rightarrow> PendingFileDelete list \<Rightarrow> PendingFileDelete list \<Rightarrow> 'z xact_state_scheme \<Rightarrow> 'z xact_state_scheme" where
  "cleanup_pending_loop atCommit prevs [] s = s"
| "cleanup_pending_loop atCommit prevs (pending # next) s =
     (if pd_atCommit pending = atCommit
      then cleanup_pending_loop atCommit prevs next (s\<lparr>pendingDeletes := prevs @ next\<rparr>)
      else cleanup_pending_loop atCommit (prevs @ [pending]) next s)"

definition cleanup_pending_deletes :: "bool \<Rightarrow> 'z xact_state_scheme \<Rightarrow> 'z xact_state_scheme" where
  "cleanup_pending_deletes atCommit s = cleanup_pending_loop atCommit [] (pendingDeletes s) s"

fun do_pending_loop ::
  "(path \<Rightarrow> bool) \<Rightarrow> nat \<Rightarrow> bool \<Rightarrow> PendingFileDelete list \<Rightarrow> PendingFileDelete list
     \<Rightarrow> 'z xact_state_scheme \<Rightarrow> 'z xact_state_scheme" where
  "do_pending_loop unlink_ok nestLevel isCommit prevs [] s = s"
| "do_pending_loop unlink_ok nestLevel isCommit prevs (pending # next) s =
     (if pd_nestLevel pending < nestLevel
      then do_pending_loop unlink_ok nestLevel isCommit (prevs @ [pending]) next s
      else
        (let s = s\<lparr>pendingDeletes := prevs @ next\<rparr>;
             s = (if pd_atCommit pending = isCommit then durable_unlink unlink_ok (pd_path pending) s else s)
         in do_pending_loop unlink_ok nestLevel isCommit prevs next s))"

definition do_pending_deletes :: "(path \<Rightarrow> bool) \<Rightarrow> bool \<Rightarrow> 'z xact_state_scheme \<Rightarrow> 'z xact_state_scheme" where
  "do_pending_deletes unlink_ok isCommit s =
     do_pending_loop unlink_ok (xs_nestLevel s) isCommit [] (pendingDeletes s) s"

fun pending_cleanup_loop :: "PendingFileDelete list \<Rightarrow> 'z xact_state_scheme \<Rightarrow> 'z xact_state_scheme" where
  "pending_cleanup_loop [] s = s"
| "pending_cleanup_loop (pending # next) s = pending_cleanup_loop next (s\<lparr>pendingDeletes := next\<rparr>)"

definition pending_delete_cleanup :: "'z xact_state_scheme \<Rightarrow> 'z xact_state_scheme" where
  "pending_delete_cleanup s = pending_cleanup_loop (pendingDeletes s) s"

definition pg_tde_xact_callback ::
  "(path \<Rightarrow> bool) \<Rightarrow> XactEvent \<Rightarrow> 'z xact_state_scheme \<Rightarrow> 'z xact_state_scheme" where
  "pg_tde_xact_callback unlink_ok event s =
     (if event = XACT_EVENT_PARALLEL_ABORT \<or> event = XACT_EVENT_ABORT
      then do_pending_deletes unlink_ok False s
      else if event = XACT_EVENT_COMMIT
      then pending_delete_cleanup (do_pending_deletes unlink_ok True s)
      else if event = XACT_EVENT_PREPARE then pending_delete_cleanup s
      else s)"

definition pg_tde_subxact_callback ::
  "(path \<Rightarrow> bool) \<Rightarrow> SubXactEvent \<Rightarrow> 'z xact_state_scheme \<Rightarrow> 'z xact_state_scheme" where
  "pg_tde_subxact_callback unlink_ok event s =
     (if event = SUBXACT_EVENT_ABORT_SUB then do_pending_deletes unlink_ok False s else s)"

section \<open>What the loops compute\<close>

definition remove_files :: "(path \<Rightarrow> bool) \<Rightarrow> path set \<Rightarrow> (path \<rightharpoonup> byte list) \<Rightarrow> (path \<rightharpoonup> byte list)" where
  "remove_files unlink_ok ps files = (\<lambda>p. if p \<in> ps \<and> unlink_ok p then None else files p)"

lemma remove_files_empty [simp]: "remove_files ul {} f = f"
  by (simp add: remove_files_def)

lemma do_pending_loop_result:
  "pendingDeletes s = prevs @ pend \<Longrightarrow>
   do_pending_loop ul lvl c prevs pend s =
     s\<lparr>pendingDeletes := prevs @ filter (\<lambda>p. pd_nestLevel p < lvl) pend,
       xs_files := remove_files ul (set (map pd_path (filter (\<lambda>p. lvl \<le> pd_nestLevel p \<and> pd_atCommit p = c) pend))) (xs_files s)\<rparr>"
proof (induction ul lvl c prevs pend s rule: do_pending_loop.induct)
  case (1 ul lvl c prevs s)
  then show ?case by simp
next
  case (2 ul lvl c prevs p pend s)
  show ?case
  proof (cases "pd_nestLevel p < lvl")
    case True
    with 2 show ?thesis by simp
  next
    case False
    let ?s = "s\<lparr>pendingDeletes := prevs @ pend\<rparr>"
    let ?t = "if pd_atCommit p = c then durable_unlink ul (pd_path p) ?s else ?s"
    have "pendingDeletes ?t = prevs @ pend" by (simp add: durable_unlink_def)
    with 2(2) False have "do_pending_loop ul lvl c prevs pend ?t =
        ?t\<lparr>pendingDeletes := prevs @ filter (\<lambda>p. pd_nestLevel p < lvl) pend,
          xs_files := remove_files ul (set (map pd_path (filter (\<lambda>p. lvl \<le> pd_nestLevel p \<and> pd_atCommit p = c) pend))) (xs_files ?t)\<rparr>"
      by blast
    moreover have "remove_files ul (set (map pd_path (filter (\<lambda>p. lvl \<le> pd_nestLevel p \<and> pd_atCommit p = c) pend))) (xs_files ?t) =
        remove_files ul (set (map pd_path (filter (\<lambda>q. lvl \<le> pd_nestLevel q \<and> pd_atCommit q = c) (p # pend)))) (xs_files s)"
      using False by (auto simp: remove_files_def durable_unlink_def fun_eq_iff)
    ultimately show ?thesis
      using False by (simp add: Let_def durable_unlink_def)
  qed
qed

lemma do_pending_deletes_result:
  "do_pending_deletes ul c s =
     s\<lparr>pendingDeletes := filter (\<lambda>p. pd_nestLevel p < xs_nestLevel s) (pendingDeletes s),
       xs_files := remove_files ul
         (set (map pd_path (filter (\<lambda>p. xs_nestLevel s \<le> pd_nestLevel p \<and> pd_atCommit p = c) (pendingDeletes s)))) (xs_files s)\<rparr>"
  unfolding do_pending_deletes_def by (subst do_pending_loop_result) simp_all

lemma cleanup_pending_loop_result:
  "pendingDeletes s = prevs @ pend \<Longrightarrow>
   cleanup_pending_loop c prevs pend s = s\<lparr>pendingDeletes := prevs @ filter (\<lambda>p. pd_atCommit p \<noteq> c) pend\<rparr>"
  by (induction c prevs pend s rule: cleanup_pending_loop.induct) auto

lemma cleanup_pending_deletes_result:
  "cleanup_pending_deletes c s = s\<lparr>pendingDeletes := filter (\<lambda>p. pd_atCommit p \<noteq> c) (pendingDeletes s)\<rparr>"
  unfolding cleanup_pending_deletes_def by (subst cleanup_pending_loop_result) simp_all

lemma pending_delete_cleanup_result: "pending_delete_cleanup s = s\<lparr>pendingDeletes := []\<rparr>"
proof -
  have "pendingDeletes s = pend \<Longrightarrow> pending_cleanup_loop pend s = s\<lparr>pendingDeletes := []\<rparr>" for pend and s :: "'a xact_state_scheme"
    by (induction pend s rule: pending_cleanup_loop.induct) auto
  then show ?thesis by (simp add: pending_delete_cleanup_def)
qed

lemmas xact_results = do_pending_deletes_result pending_delete_cleanup_result

section \<open>The specification: one list of requests per savepoint\<close>

text \<open>
  \<open>frames\<close> has the innermost subtransaction first; its length is the nesting level. A
  request is a path and whether it is for the commit. Releasing a savepoint hands its requests
  to the enclosing transaction; rolling back to one carries out its abort requests.
\<close>

record xact_spec =
  frames :: "(path \<times> bool) list list"
  sp_files :: "path \<rightharpoonup> byte list"

datatype xact_action = Register path bool | Savepoint | Release | Rollback_to | Commit | Abort

definition requested :: "bool \<Rightarrow> (path \<times> bool) list \<Rightarrow> path set" where
  "requested c reqs = set (map fst (filter (\<lambda>r. snd r = c) reqs))"

fun spec_step :: "(path \<Rightarrow> bool) \<Rightarrow> xact_action \<Rightarrow> xact_spec \<Rightarrow> xact_spec option" where
  "spec_step ul (Register p c) s =
     (case frames s of [] \<Rightarrow> None | f # fs \<Rightarrow> Some (s\<lparr>frames := ((p, c) # f) # fs\<rparr>))"
| "spec_step ul Savepoint s = (if frames s = [] then None else Some (s\<lparr>frames := [] # frames s\<rparr>))"
| "spec_step ul Release s =
     (case frames s of f # g # fs \<Rightarrow> Some (s\<lparr>frames := (f @ g) # fs\<rparr>) | _ \<Rightarrow> None)"
| "spec_step ul Rollback_to s =
     (case frames s of
        f # g # fs \<Rightarrow> Some (s\<lparr>frames := g # fs, sp_files := remove_files ul (requested False f) (sp_files s)\<rparr>)
      | _ \<Rightarrow> None)"
| "spec_step ul Commit s =
     (case frames s of
        [f] \<Rightarrow> Some (s\<lparr>frames := [[]], sp_files := remove_files ul (requested True f) (sp_files s)\<rparr>)
      | _ \<Rightarrow> None)"
| "spec_step ul Abort s =
     (case frames s of
        [f] \<Rightarrow> Some (s\<lparr>frames := [[]], sp_files := remove_files ul (requested False f) (sp_files s)\<rparr>)
      | _ \<Rightarrow> None)"

fun spec_run :: "(path \<Rightarrow> bool) \<Rightarrow> xact_action list \<Rightarrow> xact_spec \<Rightarrow> xact_spec option" where
  "spec_run ul [] s = Some s"
| "spec_run ul (a # as) s = (case spec_step ul a s of None \<Rightarrow> None | Some s' \<Rightarrow> spec_run ul as s')"

text \<open>
  PostgreSQL driving the code: the callbacks run while the ending (sub)transaction is still
  the current one, then the nesting level drops.
\<close>

fun xact_step :: "(path \<Rightarrow> bool) \<Rightarrow> xact_action \<Rightarrow> 'z xact_state_scheme \<Rightarrow> 'z xact_state_scheme" where
  "xact_step ul (Register p c) s = RegisterFileForDeletion p c s"
| "xact_step ul Savepoint s =
     pg_tde_subxact_callback ul SUBXACT_EVENT_START_SUB (s\<lparr>xs_nestLevel := xs_nestLevel s + 1\<rparr>)"
| "xact_step ul Release s =
     (let s = pg_tde_subxact_callback ul SUBXACT_EVENT_COMMIT_SUB
                (pg_tde_subxact_callback ul SUBXACT_EVENT_PRE_COMMIT_SUB s)
      in s\<lparr>xs_nestLevel := xs_nestLevel s - 1\<rparr>)"
| "xact_step ul Rollback_to s =
     (let s = pg_tde_subxact_callback ul SUBXACT_EVENT_ABORT_SUB s in s\<lparr>xs_nestLevel := xs_nestLevel s - 1\<rparr>)"
| "xact_step ul Commit s =
     pg_tde_xact_callback ul XACT_EVENT_COMMIT (pg_tde_xact_callback ul XACT_EVENT_PRE_COMMIT s)"
| "xact_step ul Abort s = pg_tde_xact_callback ul XACT_EVENT_ABORT s"

definition xact_run :: "(path \<Rightarrow> bool) \<Rightarrow> xact_action list \<Rightarrow> 'z xact_state_scheme \<Rightarrow> 'z xact_state_scheme" where
  "xact_run ul as s = foldl (\<lambda>s a. xact_step ul a s) s as"

text \<open>The requests of the frames as entries of the list, innermost first.\<close>

fun pending_of :: "(path \<times> bool) list list \<Rightarrow> PendingFileDelete list" where
  "pending_of [] = []"
| "pending_of (f # fs) =
     map (\<lambda>(p, c). \<lparr>pd_path = p, pd_atCommit = c, pd_nestLevel = Suc (length fs)\<rparr>) f @ pending_of fs"

definition implements :: "'z xact_state_scheme \<Rightarrow> xact_spec \<Rightarrow> bool" where
  "implements s sp \<longleftrightarrow>
     pendingDeletes s = pending_of (frames sp) \<and> xs_nestLevel s = length (frames sp) \<and> xs_files s = sp_files sp"

text \<open>No savepoint is released while it has requests of its own.\<close>

fun releases_idle :: "(path \<Rightarrow> bool) \<Rightarrow> xact_action list \<Rightarrow> xact_spec \<Rightarrow> bool" where
  "releases_idle ul [] s = True"
| "releases_idle ul (a # as) s =
     ((a = Release \<longrightarrow> (case frames s of f # fs \<Rightarrow> f = [] | [] \<Rightarrow> True)) \<and>
      (case spec_step ul a s of None \<Rightarrow> True | Some s' \<Rightarrow> releases_idle ul as s'))"

lemma pending_of_levels: "p \<in> set (pending_of fs) \<Longrightarrow> 1 \<le> pd_nestLevel p \<and> pd_nestLevel p \<le> length fs"
  by (induction fs) auto

lemma filter_outer:
  "filter (\<lambda>p. pd_nestLevel p < Suc (length fs)) (pending_of (f # fs)) = pending_of fs"
proof -
  have "filter (\<lambda>p. pd_nestLevel p < Suc (length fs)) (pending_of fs) = pending_of fs"
    using pending_of_levels [of _ fs] by (auto simp: filter_id_conv less_Suc_eq_le)
  moreover have "filter (\<lambda>p. pd_nestLevel p < Suc (length fs))
      (map (\<lambda>(p, c). \<lparr>pd_path = p, pd_atCommit = c, pd_nestLevel = Suc (length fs)\<rparr>) f) = []"
    by (auto simp: filter_empty_conv)
  ultimately show ?thesis by simp
qed

lemma requested_inner:
  "set (map pd_path (filter (\<lambda>p. Suc (length fs) \<le> pd_nestLevel p \<and> pd_atCommit p = c) (pending_of (f # fs)))) = requested c f"
proof -
  have "filter (\<lambda>p. Suc (length fs) \<le> pd_nestLevel p \<and> pd_atCommit p = c) (pending_of fs) = []"
    using pending_of_levels [of _ fs] by (fastforce simp: filter_empty_conv)
  moreover have "map pd_path (filter (\<lambda>p. Suc (length fs) \<le> pd_nestLevel p \<and> pd_atCommit p = c)
      (map (\<lambda>(p, c). \<lparr>pd_path = p, pd_atCommit = c, pd_nestLevel = Suc (length fs)\<rparr>) f)) =
      map fst (filter (\<lambda>r. snd r = c) f)"
    by (induction f) auto
  ultimately show ?thesis
    by (simp add: requested_def)
qed

lemma do_pending_deletes_inner:
  assumes "implements s sp" "frames sp = f # fs"
  shows "do_pending_deletes ul c s =
     s\<lparr>pendingDeletes := pending_of fs, xs_files := remove_files ul (requested c f) (sp_files sp)\<rparr>"
proof -
  have s: "pendingDeletes s = pending_of (f # fs)" "xs_nestLevel s = Suc (length fs)" "xs_files s = sp_files sp"
    using assms by (auto simp: implements_def)
  show ?thesis
    unfolding do_pending_deletes_result s filter_outer requested_inner ..
qed

lemma xact_step_refines:
  assumes "implements s sp" "spec_step ul a sp = Some sp'"
    and "a = Release \<longrightarrow> (case frames sp of f # fs \<Rightarrow> f = [] | [] \<Rightarrow> True)"
  shows "implements (xact_step ul a s) sp'"
proof (cases a)
  case (Register p c)
  with assms show ?thesis
    by (auto simp: implements_def RegisterFileForDeletion_def split: list.splits)
next
  case Savepoint
  with assms show ?thesis
    by (auto simp: implements_def pg_tde_subxact_callback_def split: if_splits)
next
  case Release
  with assms show ?thesis
    by (auto simp: implements_def pg_tde_subxact_callback_def split: list.splits)
next
  case Rollback_to
  with assms(2) obtain f g fs where f: "frames sp = f # g # fs"
      "sp' = sp\<lparr>frames := g # fs, sp_files := remove_files ul (requested False f) (sp_files sp)\<rparr>"
    by (auto split: list.splits)
  from do_pending_deletes_inner [OF assms(1) f(1), of ul False] f assms(1) Rollback_to show ?thesis
    by (simp add: implements_def pg_tde_subxact_callback_def)
next
  case Commit
  with assms(2) obtain f where f: "frames sp = [f]"
      "sp' = sp\<lparr>frames := [[]], sp_files := remove_files ul (requested True f) (sp_files sp)\<rparr>"
    by (auto split: list.splits)
  from do_pending_deletes_inner [OF assms(1) f(1), of ul True] f assms(1) Commit show ?thesis
    by (simp add: implements_def pg_tde_xact_callback_def pending_delete_cleanup_result)
next
  case Abort
  with assms(2) obtain f where f: "frames sp = [f]"
      "sp' = sp\<lparr>frames := [[]], sp_files := remove_files ul (requested False f) (sp_files sp)\<rparr>"
    by (auto split: list.splits)
  from do_pending_deletes_inner [OF assms(1) f(1), of ul False] f assms(1) Abort show ?thesis
    by (simp add: implements_def pg_tde_xact_callback_def)
qed

section \<open>Properties of the handler\<close>

text \<open>
  (C5) Nested transactions: through any sequence of requests, savepoints, releases, rollbacks to a
  savepoint, commits and aborts that PostgreSQL allows, in which no savepoint is released
  while it has requests of its own, the callbacks delete exactly the files the specification
  deletes, at the same moments, and keep exactly its pending requests.
\<close>

theorem xact_handler_refines_spec:
  assumes "implements s sp" "spec_run ul as sp = Some sp'" "releases_idle ul as sp"
  shows "implements (xact_run ul as s) sp'"
  using assms
proof (induction as arbitrary: s sp)
  case Nil
  then show ?case by (simp add: xact_run_def)
next
  case (Cons a as)
  then obtain sp1 where sp1: "spec_step ul a sp = Some sp1" "spec_run ul as sp1 = Some sp'" "releases_idle ul as sp1"
    by (simp split: option.splits)
  moreover have "implements (xact_step ul a s) sp1"
    using xact_step_refines [OF Cons.prems(1) sp1(1)] Cons.prems(3) by simp
  ultimately show ?case
    using Cons.IH by (simp add: xact_run_def)
qed

definition xact_start :: "(path \<rightharpoonup> byte list) \<Rightarrow> xact_state" where
  "xact_start files = \<lparr>pendingDeletes = [], xs_nestLevel = 1, xs_files = files\<rparr>"

definition spec_start :: "(path \<rightharpoonup> byte list) \<Rightarrow> xact_spec" where
  "spec_start files = \<lparr>frames = [[]], sp_files = files\<rparr>"

lemma start_implements: "implements (xact_start files) (spec_start files)"
  by (simp add: implements_def xact_start_def spec_start_def)

definition demo_actions :: "xact_action list" where
  "demo_actions = [Register ''1.tde'' False, Register ''0.tde'' True, Savepoint, Register ''2.tde'' False, Rollback_to, Commit]"

theorem xact_handler_refines_spec_witness:
  "\<exists>sp'. spec_run (\<lambda>_. True) demo_actions (spec_start (\<lambda>_. Some [])) = Some sp' \<and>
     implements (xact_run (\<lambda>_. True) demo_actions (xact_start (\<lambda>_. Some []))) sp' \<and>
     sp_files sp' ''0.tde'' = None \<and> sp_files sp' ''1.tde'' = Some [] \<and> sp_files sp' ''2.tde'' = None"
proof -
  obtain sp' where sp': "spec_run (\<lambda>_. True) demo_actions (spec_start (\<lambda>_. Some [])) = Some sp'"
    "sp_files sp' ''0.tde'' = None" "sp_files sp' ''1.tde'' = Some []" "sp_files sp' ''2.tde'' = None"
    by (simp add: demo_actions_def spec_start_def requested_def remove_files_def)
  moreover have "releases_idle (\<lambda>_. True) demo_actions (spec_start (\<lambda>_. Some []))"
    by (simp add: demo_actions_def spec_start_def)
  ultimately show ?thesis
    using xact_handler_refines_spec [OF start_implements sp'(1)] by blast
qed

text \<open>
  The end of a top-level transaction: commit deletes exactly the files requested for the
  commit, abort exactly those requested for the abort, as far as the operating system lets
  them be deleted; no other file is touched and no request is left for the next transaction.
\<close>

lemma transaction_end_deletes_exactly:
  assumes "\<And>p. p \<in> set (pendingDeletes s) \<Longrightarrow> xs_nestLevel s \<le> pd_nestLevel p"
    and "event \<in> {XACT_EVENT_COMMIT, XACT_EVENT_ABORT, XACT_EVENT_PARALLEL_ABORT}"
  shows "pg_tde_xact_callback ul event s =
     s\<lparr>pendingDeletes := [],
       xs_files := (\<lambda>f. if (\<exists>p\<in>set (pendingDeletes s). pd_path p = f \<and> pd_atCommit p = (event = XACT_EVENT_COMMIT)) \<and> ul f
                        then None else xs_files s f)\<rparr>"
proof -
  have "filter (\<lambda>p. pd_nestLevel p < xs_nestLevel s) (pendingDeletes s) = []"
    using assms(1) by (fastforce simp: filter_empty_conv)
  moreover have "filter (\<lambda>p. xs_nestLevel s \<le> pd_nestLevel p \<and> pd_atCommit p = c) (pendingDeletes s) =
      filter (\<lambda>p. pd_atCommit p = c) (pendingDeletes s)" for c
    using assms(1) by (intro filter_cong) auto
  moreover have "remove_files ul (set (map pd_path (filter (\<lambda>p. pd_atCommit p = c) (pendingDeletes s)))) (xs_files s) =
      (\<lambda>f. if (\<exists>p\<in>set (pendingDeletes s). pd_path p = f \<and> pd_atCommit p = c) \<and> ul f then None else xs_files s f)" for c
    by (force simp: remove_files_def fun_eq_iff)
  ultimately have "do_pending_deletes ul c s = s\<lparr>pendingDeletes := [], xs_files :=
      (\<lambda>f. if (\<exists>p\<in>set (pendingDeletes s). pd_path p = f \<and> pd_atCommit p = c) \<and> ul f then None else xs_files s f)\<rparr>" for c
    by (simp only: do_pending_deletes_result)
  then show ?thesis
    using assms(2) by (elim insertE emptyE) (simp_all add: pg_tde_xact_callback_def pending_delete_cleanup_result)
qed

lemma transaction_end_deletes_exactly_witness:
  "pg_tde_xact_callback (\<lambda>_. True) XACT_EVENT_COMMIT (RegisterFileForDeletion ''1.tde'' True (xact_start (\<lambda>_. Some []))) =
     (xact_start (\<lambda>_. Some []))\<lparr>xs_files := (\<lambda>f. if f = ''1.tde'' then None else Some [])\<rparr>"
proof -
  let ?s = "RegisterFileForDeletion ''1.tde'' True (xact_start (\<lambda>_. Some []))"
  have "xs_nestLevel ?s \<le> pd_nestLevel p" if "p \<in> set (pendingDeletes ?s)" for p
    using that by (simp add: RegisterFileForDeletion_def xact_start_def)
  from transaction_end_deletes_exactly [OF this, of XACT_EVENT_COMMIT "\<lambda>_. True"] show ?thesis
    by (simp add: RegisterFileForDeletion_def xact_start_def eq_commute [of "''1.tde''"] cong: if_cong)
qed

text \<open>
  A released savepoint keeps its nesting level in the list: when a table is created under
  a savepoint, the savepoint is released, and a later sibling savepoint is rolled back, the
  rollback deletes the key file of the released savepoint, although the transaction then
  commits and the specification keeps the file.
\<close>

lemma released_savepoint_loses_key_file:
  "xs_files (xact_run (\<lambda>_. True)
       [Savepoint, Register f False, Release, Savepoint, Rollback_to, Commit] (xact_start files)) f = None \<and>
   map_option (\<lambda>sp. sp_files sp f) (spec_run (\<lambda>_. True)
       [Savepoint, Register f False, Release, Savepoint, Rollback_to, Commit] (spec_start files)) = Some (files f)"
  by (simp add: xact_run_def xact_start_def spec_start_def RegisterFileForDeletion_def pg_tde_subxact_callback_def
      pg_tde_xact_callback_def xact_results requested_def remove_files_def)

text \<open>
  Preparing a transaction for two-phase commit forgets its requests without carrying them
  out and without recording them: whatever was to be deleted at the later commit or abort of
  the prepared transaction stays.
\<close>

lemma prepare_forgets_requests:
  "pg_tde_xact_callback ul XACT_EVENT_PREPARE s = s\<lparr>pendingDeletes := []\<rparr>"
  by (simp add: pg_tde_xact_callback_def xact_results)

end
