(* ===== verification/EncAes.thy ===== *)
theory EncAes
  imports TdePrelude
begin

text \<open>
  The AES layer, \<^verbatim>\<open>src/encryption/enc_aes.c\<close>. OpenSSL is a parameter: a record of the EVP
  calls the code makes. The theory models the global cipher handles, the one-shot CBC run
  (\<open>AesRun\<close>, behind \<open>AesEncrypt\<close> and \<open>AesDecrypt\<close>), the ECB run over a cached context
  (\<open>AesRun2\<close>) and \<open>Aes128EncryptedZeroBlocks\<close>, which lays out the counter blocks of a
  batch and encrypts them. The lemmas show that a batch is exactly the concatenation of the
  encrypted counter blocks, that its buffer accesses stay in bounds, and that counter
  blocks of different positions differ.
\<close>

unbundle bit_operations_syntax

section \<open>OpenSSL as a parameter\<close>

datatype evp_cipher = EVP_aes_128_cbc | EVP_aes_128_ecb

text \<open>
  Each EVP call returns its status (\<open>True\<close> for 1) beside the new context and the bytes it
  writes to the output buffer. \<open>EVP_CIPHER_CTX_new\<close> is the context after \<^verbatim>\<open>EVP_CIPHER_CTX_new\<close>,
  \<^verbatim>\<open>EVP_CIPHER_CTX_init\<close> and \<^verbatim>\<open>EVP_CIPHER_CTX_set_padding(ctx, 0)\<close>.
\<close>

record 'ctx openssl =
  EVP_CIPHER_CTX_new :: 'ctx
  EVP_CipherInit_ex :: "'ctx \<Rightarrow> evp_cipher option \<Rightarrow> byte list \<Rightarrow> byte list \<Rightarrow> bool \<Rightarrow> bool \<times> 'ctx"
  EVP_CipherUpdate :: "'ctx \<Rightarrow> byte list \<Rightarrow> bool \<times> 'ctx \<times> byte list"
  EVP_CipherFinal_ex :: "'ctx \<Rightarrow> bool \<times> 'ctx \<times> byte list"
  EVP_CIPHER_block_size :: "evp_cipher \<Rightarrow> int"

section \<open>Global cipher handles\<close>

record aes_globals =
  initialized :: bool
  cipher :: "evp_cipher option"
  cipher2 :: "evp_cipher option"
  cipher_block_size :: int

definition aes_globals_start :: aes_globals where
  "aes_globals_start =
     \<lparr>initialized = False, cipher = None, cipher2 = None, cipher_block_size = 0\<rparr>"

definition AesInit :: "'ctx openssl \<Rightarrow> aes_globals \<Rightarrow> aes_globals" where
  "AesInit ssl g =
     (if \<not> initialized g
      then g\<lparr>cipher := Some EVP_aes_128_cbc,
             cipher_block_size := EVP_CIPHER_block_size ssl EVP_aes_128_cbc,
             cipher2 := Some EVP_aes_128_ecb,
             initialized := True\<rparr>
      else g)"

text \<open>
  The environment of every encryption routine: OpenSSL, the handles, and what the compiled
  code computes for an \<^verbatim>\<open>int\<close> shifted right by 32 bits or more. C leaves that shift
  undefined and \<open>Aes128EncryptedZeroBlocks\<close> performs it; every theorem below holds
  whatever value it yields. \<open>uninit\<close> gives the bytes a stack array holds before the code
  writes to it.
\<close>

record 'ctx crypto_env =
  ssl :: "'ctx openssl"
  aes :: aes_globals
  oversized_shift :: "int32 \<Rightarrow> nat \<Rightarrow> int32"
  uninit :: "string \<Rightarrow> nat \<Rightarrow> byte"

definition stack_array :: "'ctx crypto_env \<Rightarrow> string \<Rightarrow> nat \<Rightarrow> byte list" where
  "stack_array env name n = map (uninit env name) [0..<n]"

lemma length_stack_array [simp]: "length (stack_array env name n) = n"
  by (simp add: stack_array_def)

section \<open>Running a cipher\<close>

definition openssl_error :: "string \<Rightarrow> pgerror" where
  "openssl_error call = Ereport ERROR (call @ '' failed'')"

text \<open>
  \<open>AesRun2\<close>: the context is created on first use and kept by the caller, also when
  \<^verbatim>\<open>EVP_CipherInit_ex\<close> then fails. The result is the number of bytes written.
\<close>

definition AesRun2 ::
  "'ctx crypto_env \<Rightarrow> 'ctx option \<Rightarrow> bool \<Rightarrow> byte list \<Rightarrow> byte list \<Rightarrow> byte list \<Rightarrow> byte list
     \<Rightarrow> nat result \<times> 'ctx option \<times> byte list" where
  "AesRun2 env ctxPtr enc key iv inp out =
     (let (ready, ctx) =
            (case ctxPtr of
               None \<Rightarrow> EVP_CipherInit_ex (ssl env) (EVP_CIPHER_CTX_new (ssl env)) (cipher2 (aes env)) key iv enc
             | Some c \<Rightarrow> (True, c))
      in if \<not> ready then (Inl (openssl_error ''EVP_CipherInit_ex''), Some ctx, out)
         else (case EVP_CipherUpdate (ssl env) ctx inp of
                 (ok, ctx', bs) \<Rightarrow>
                   if \<not> ok then (Inl (openssl_error ''EVP_CipherUpdate''), Some ctx', out)
                   else (case copy_bytes out 0 bs of
                           Inl e \<Rightarrow> (Inl e, Some ctx', out)
                         | Inr out' \<Rightarrow> (Inr (length bs), Some ctx', out'))))"

text \<open>
  \<open>AesRun\<close>: one CBC run on a fresh context. \<^verbatim>\<open>EVP_CipherFinal_ex\<close> writes to the start
  of the output buffer again and overwrites \<open>out_len\<close>.
\<close>

definition AesRun ::
  "'ctx crypto_env \<Rightarrow> bool \<Rightarrow> byte list \<Rightarrow> byte list \<Rightarrow> byte list \<Rightarrow> byte list
     \<Rightarrow> (nat \<times> byte list) result" where
  "AesRun env enc key iv inp out =
     (case EVP_CipherInit_ex (ssl env) (EVP_CIPHER_CTX_new (ssl env)) (cipher (aes env)) key iv enc of
        (ready, ctx) \<Rightarrow>
          if \<not> ready then Inl (openssl_error ''EVP_CipherInit_ex'')
          else (case EVP_CipherUpdate (ssl env) ctx inp of
                  (ok, ctx', bs) \<Rightarrow>
                    if \<not> ok then Inl (openssl_error ''EVP_CipherUpdate'')
                    else (case copy_bytes out 0 bs of
                            Inl e \<Rightarrow> Inl e
                          | Inr out' \<Rightarrow>
                              (case EVP_CipherFinal_ex (ssl env) ctx' of
                                 (done, ctx'', fs) \<Rightarrow>
                                   if \<not> done then Inl (openssl_error ''EVP_CipherFinal_ex'')
                                   else (case copy_bytes out' 0 fs of
                                           Inl e \<Rightarrow> Inl e
                                         | Inr out'' \<Rightarrow> Inr (length fs, out''))))))"

definition AesEncrypt ::
  "'ctx crypto_env \<Rightarrow> byte list \<Rightarrow> byte list \<Rightarrow> byte list \<Rightarrow> byte list \<Rightarrow> (nat \<times> byte list) result" where
  "AesEncrypt env key iv inp out = AesRun env True key iv inp out"

definition AesDecrypt ::
  "'ctx crypto_env \<Rightarrow> byte list \<Rightarrow> byte list \<Rightarrow> byte list \<Rightarrow> byte list \<Rightarrow> (nat \<times> byte list) result" where
  "AesDecrypt env key iv inp out = AesRun env False key iv inp out"

section \<open>The counter blocks of a batch\<close>

abbreviation (input) AES_BLOCK_SIZE :: "'a::numeral" where "AES_BLOCK_SIZE \<equiv> 16"
abbreviation (input) NUM_AES_BLOCKS_IN_BATCH :: "'a::numeral" where "NUM_AES_BLOCKS_IN_BATCH \<equiv> 100"
abbreviation (input) DATA_BYTES_PER_AES_BATCH :: "'a::numeral" where "DATA_BYTES_PER_AES_BATCH \<equiv> 1600"

definition zero_iv :: "byte list" where
  "zero_iv = replicate 16 0"

text \<open>\<^verbatim>\<open>j >> n\<close> on an \<^verbatim>\<open>int\<close>, and the byte \<^verbatim>\<open>(j >> (8*i)) & 0xFF\<close>.\<close>

definition shr_int :: "'ctx crypto_env \<Rightarrow> int32 \<Rightarrow> nat \<Rightarrow> int32" where
  "shr_int env j n = (if n < 32 then signed_drop_bit n j else oversized_shift env j n)"

definition counter_byte :: "'ctx crypto_env \<Rightarrow> int32 \<Rightarrow> nat \<Rightarrow> byte" where
  "counter_byte env j i = ucast (shr_int env j (8 * i) AND 0xFF)"

text \<open>
  The inner loop over \<open>i\<close>. The index is computed in \<^verbatim>\<open>uint64\<close>, since
  \<open>blockNumber1\<close> is one.
\<close>

definition counter_index :: "int32 \<Rightarrow> uint64 \<Rightarrow> nat \<Rightarrow> uint64" where
  "counter_index j blockNumber1 i = 16 * (scast j - blockNumber1) + 15 - of_nat i"

function counter_bytes_loop ::
  "'ctx crypto_env \<Rightarrow> int32 \<Rightarrow> uint64 \<Rightarrow> nat \<Rightarrow> byte list \<Rightarrow> byte list result" where
  "counter_bytes_loop env j blockNumber1 i data =
     (if i < 8
      then (case store_byte data (unat (counter_index j blockNumber1 i)) (counter_byte env j i) of
              Inl e \<Rightarrow> Inl e
            | Inr data' \<Rightarrow> counter_bytes_loop env j blockNumber1 (Suc i) data')
      else Inr data)"
  by pat_completeness auto
termination
  by (relation "measure (\<lambda>(env, j, b, i, data). 8 - i)") auto

declare counter_bytes_loop.simps [simp del]

text \<open>
  The outer loop over \<^verbatim>\<open>int j\<close>. The comparison converts \<open>j\<close> to \<^verbatim>\<open>uint64\<close>, and
  incrementing the largest \<^verbatim>\<open>int\<close> is undefined.
\<close>

function counter_blocks_loop ::
  "'ctx crypto_env \<Rightarrow> int32 \<Rightarrow> uint64 \<Rightarrow> uint64 \<Rightarrow> byte list \<Rightarrow> byte list result" where
  "counter_blocks_loop env j blockNumber1 blockNumber2 data =
     (if scast j < blockNumber2
      then (case counter_bytes_loop env j blockNumber1 0 data of
              Inl e \<Rightarrow> Inl e
            | Inr data' \<Rightarrow>
                if j = 0x7FFFFFFF then Inl (Undefined ''signed overflow'')
                else counter_blocks_loop env (j + 1) blockNumber1 blockNumber2 data')
      else Inr data)"
  by pat_completeness auto
termination
proof (relation "measure (\<lambda>(env, j, b1, b2, data). nat (2 ^ 31 - sint j))", goal_cases)
  case (2 env j b1 b2 data d)
  then show ?case
    using sint_lt [of j] by (simp add: sint_Suc_int32)
qed simp

declare counter_blocks_loop.simps [simp del]

text \<open>
  \<open>Aes128EncryptedZeroBlocks\<close>. The stack array \<open>data\<close> holds arbitrary bytes until
  it is cleared; \<^verbatim>\<open>dataLen\<close> is an \<^verbatim>\<open>unsigned\<close>, so the
  product is truncated to 32 bits.
\<close>

definition Aes128EncryptedZeroBlocks ::
  "'ctx crypto_env \<Rightarrow> 'ctx option \<Rightarrow> byte list \<Rightarrow> uint64 \<Rightarrow> uint64 \<Rightarrow> byte list
     \<Rightarrow> nat result \<times> 'ctx option \<times> byte list" where
  "Aes128EncryptedZeroBlocks env ctxPtr key blockNumber1 blockNumber2 out =
     (let dataLen = unat (ucast ((blockNumber2 - blockNumber1) * 16) :: uint32)
      in case copy_bytes (stack_array env ''data'' DATA_BYTES_PER_AES_BATCH) 0 (replicate dataLen 0) of
           Inl e \<Rightarrow> (Inl e, ctxPtr, out)
         | Inr data \<Rightarrow>
             (case counter_blocks_loop env (ucast blockNumber1) blockNumber1 blockNumber2 data of
                Inl e \<Rightarrow> (Inl e, ctxPtr, out)
              | Inr data' \<Rightarrow> AesRun2 env ctxPtr True key zero_iv (take dataLen data') out))"

section \<open>Counter blocks\<close>

definition ctr_block :: "'ctx crypto_env \<Rightarrow> int32 \<Rightarrow> byte list" where
  "ctr_block env j = replicate 8 0 @ map (counter_byte env j) (rev [0..<8])"

lemma length_ctr_block [simp]: "length (ctr_block env j) = 16"
  by (simp add: ctr_block_def)

lemma scast_of_nat_32_64:
  assumes "m < 2 ^ 31"
  shows "scast (of_nat m :: int32) = (of_nat m :: uint64)"
proof -
  have "sint (of_nat m :: int32) = int m"
    using assms by (simp add: sint_of_nat_lt)
  then show ?thesis
    by (metis of_int_of_nat_eq scast_eq)
qed

lemma unat_counter_index:
  assumes "m < 2 ^ 31" "unat b1 \<le> m" "i \<le> 15"
  shows "unat (counter_index (of_nat m) b1 i) = 16 * (m - unat b1) + 15 - i"
proof -
  have "counter_index (of_nat m) b1 i = of_nat (16 * (m - unat b1) + 15 - i)"
    using assms by (simp add: counter_index_def scast_of_nat_32_64 of_nat_diff)
  moreover have "16 * (m - unat b1) + 15 - i < 2 ^ 64"
    using assms(1) by simp
  ultimately show ?thesis
    by (simp add: unat_of_nat_lt)
qed

lemma counter_bytes_loop_result:
  assumes "\<And>i. i < 8 \<Longrightarrow> unat (counter_index j b1 i) = base + 15 - i"
    and "i \<le> 8" and "base + 16 \<le> length data"
  shows "counter_bytes_loop env j b1 i data =
           Inr (take (base + 8) data @ map (counter_byte env j) (rev [i..<8]) @
                drop (base + 16 - i) data)"
  using assms(2,3)
proof (induction "8 - i" arbitrary: i data)
  case 0
  then have "i = 8" by simp
  then show ?case
    by (subst counter_bytes_loop.simps) (simp add: numeral_eq_Suc del: upt_Suc append_assoc)
next
  case (Suc n)
  let ?data = "data[base + 15 - i := counter_byte env j i]"
  have i: "i < 8" using Suc.hyps(2) by simp
  have "counter_bytes_loop env j b1 i data = counter_bytes_loop env j b1 (Suc i) ?data"
    using i Suc.prems assms(1) by (subst counter_bytes_loop.simps) simp
  also have "\<dots> = Inr (take (base + 8) ?data @ map (counter_byte env j) (rev [Suc i..<8]) @
                        drop (base + 15 - i) ?data)"
    using Suc i by (simp add: add.commute)
  also have "take (base + 8) ?data = take (base + 8) data"
    using i by simp
  also have "drop (base + 15 - i) ?data = counter_byte env j i # drop (base + 16 - i) data"
    using i Suc.prems(2) drop_update_at [of "base + 15 - i" data] by (simp add: Suc_diff_le [symmetric] add.commute)
  finally show ?case
    using i by (simp add: upt_conv_Cons)
qed

lemma counter_bytes_loop_block:
  assumes "m < 2 ^ 31" "unat b1 \<le> m" "16 * (m - unat b1) + 16 \<le> length data"
    and zero: "\<And>i. 16 * (m - unat b1) \<le> i \<Longrightarrow> i < 16 * (m - unat b1) + 16 \<Longrightarrow> data ! i = 0"
  shows "counter_bytes_loop env (of_nat m) b1 0 data =
           Inr (take (16 * (m - unat b1)) data @ ctr_block env (of_nat m) @
                drop (16 * (m - unat b1) + 16) data)"
proof -
  let ?base = "16 * (m - unat b1)"
  have "take 8 (drop ?base data) = replicate 8 0"
    using assms(3) zero by (intro take_replicate_zeroD) auto
  then have "take (?base + 8) data = take ?base data @ replicate 8 0"
    by (simp add: take_add)
  moreover have "counter_bytes_loop env (of_nat m) b1 0 data =
      Inr (take (?base + 8) data @ map (counter_byte env (of_nat m)) (rev [0..<8]) @
           drop (?base + 16 - 0) data)"
    using assms by (intro counter_bytes_loop_result) (auto simp: unat_counter_index)
  ultimately show ?thesis
    by (simp add: ctr_block_def del: upt_rec_numeral)
qed

lemma counter_blocks_loop_result:
  assumes "unat b2 < 2 ^ 31" "unat b1 \<le> m" "m \<le> unat b2"
    and "16 * (unat b2 - unat b1) \<le> length data"
    and "\<And>i. 16 * (m - unat b1) \<le> i \<Longrightarrow> i < 16 * (unat b2 - unat b1) \<Longrightarrow> data ! i = 0"
  shows "counter_blocks_loop env (of_nat m) b1 b2 data =
           Inr (take (16 * (m - unat b1)) data @
                concat (map (\<lambda>j. ctr_block env (of_nat j)) [m..<unat b2]) @
                drop (16 * (unat b2 - unat b1)) data)"
  using assms(2-)
proof (induction "unat b2 - m" arbitrary: m data)
  case 0
  then have "m = unat b2" by simp
  moreover from this have "scast (of_nat m :: int32) = b2"
    using assms(1) scast_of_nat_32_64 [of m] by simp
  ultimately show ?case
    by (subst counter_blocks_loop.simps) simp
next
  case (Suc n)
  let ?base = "16 * (m - unat b1)"
  let ?data = "take ?base data @ ctr_block env (of_nat m) @ drop (?base + 16) data"
  have m: "m < unat b2" using Suc.hyps(2) by simp
  have step: "16 * (Suc m - unat b1) = ?base + 16"
    using Suc.prems(1) by simp
  have room: "?base + 16 \<le> 16 * (unat b2 - unat b1)"
    using m Suc.prems(1) by linarith
  have lt: "scast (of_nat m :: int32) < b2"
    using m assms(1) by (simp add: scast_of_nat_32_64 word_less_nat_alt unat_of_nat_lt)
  have "unat (of_nat m :: int32) \<noteq> unat (0x7FFFFFFF :: int32)"
    using m assms(1) by (simp add: unat_of_nat_lt)
  then have nomax: "(of_nat m :: int32) \<noteq> 0x7FFFFFFF"
    by metis
  have inner: "counter_bytes_loop env (of_nat m) b1 0 data = Inr ?data"
    using m assms(1) room Suc.prems by (intro counter_bytes_loop_block) auto
  have len: "length ?data = length data"
    using room Suc.prems(3) by simp
  have "counter_blocks_loop env (of_nat m) b1 b2 data =
      counter_blocks_loop env (of_nat (Suc m)) b1 b2 ?data"
    using lt nomax inner by (subst counter_blocks_loop.simps) (simp add: add.commute)
  also have "\<dots> = Inr (take (16 * (Suc m - unat b1)) ?data @
      concat (map (\<lambda>j. ctr_block env (of_nat j)) [Suc m..<unat b2]) @
      drop (16 * (unat b2 - unat b1)) ?data)"
  proof (rule Suc.hyps(1))
    show "n = unat b2 - Suc m" "unat b1 \<le> Suc m" "Suc m \<le> unat b2"
      using Suc m by auto
    show "16 * (unat b2 - unat b1) \<le> length ?data"
      using len Suc.prems(3) by simp
    show "?data ! i = 0" if "16 * (Suc m - unat b1) \<le> i" "i < 16 * (unat b2 - unat b1)" for i
      using that step Suc.prems(3,4) by (auto simp: nth_append min_absorb2)
  qed
  also have "take (16 * (Suc m - unat b1)) ?data = take ?base data @ ctr_block env (of_nat m)"
    using step room Suc.prems(3) by simp
  also have "drop (16 * (unat b2 - unat b1)) ?data = drop (16 * (unat b2 - unat b1)) data"
    using room Suc.prems(3) by (simp add: min_absorb2)
  finally show ?case
    using m by (simp add: upt_conv_Cons)
qed

section \<open>What the code relies on of OpenSSL\<close>

text \<open>
  ECB mode without padding: the input is cut into 16-byte blocks, each encrypted on its own.
\<close>

function ecb :: "(byte list \<Rightarrow> byte list) \<Rightarrow> byte list \<Rightarrow> byte list" where
  "ecb E d = (if length d < 16 then [] else E (take 16 d) @ ecb E (drop 16 d))"
  by pat_completeness auto
termination
  by (relation "measure (\<lambda>(E, d). length d)") auto

declare ecb.simps [simp del]

lemma ecb_concat:
  "(\<And>b. b \<in> set bs \<Longrightarrow> length b = 16) \<Longrightarrow> ecb E (concat bs) = concat (map E bs)"
proof (induction bs)
  case Nil
  show ?case by (simp add: ecb.simps [of E "[]"])
next
  case (Cons b bs)
  then show ?case
    by (simp add: ecb.simps [of E "b @ concat bs"])
qed

text \<open>
  The documented behaviour of the EVP interface for AES-128-ECB with padding off:
  initialising with a 16-byte key gives a context for that key, and updating such a context
  with whole blocks outputs their encryption under the key's block cipher \<open>E\<close> and leaves
  a context for the same key. \<open>ready c k\<close> says that \<open>c\<close> is an encrypting context for
  the key \<open>k\<close>.
\<close>

definition evp_ecb_contract ::
  "'ctx openssl \<Rightarrow> (byte list \<Rightarrow> byte list \<Rightarrow> byte list) \<Rightarrow> ('ctx \<Rightarrow> byte list \<Rightarrow> bool) \<Rightarrow> bool" where
  "evp_ecb_contract ossl E ready \<longleftrightarrow>
     (\<forall>key iv. \<exists>c. EVP_CipherInit_ex ossl (EVP_CIPHER_CTX_new ossl) (Some EVP_aes_128_ecb) key iv True
                     = (True, c) \<and> ready c (take 16 key)) \<and>
     (\<forall>c k d. ready c k \<longrightarrow> length d mod 16 = 0 \<longrightarrow>
        (\<exists>c'. EVP_CipherUpdate ossl c d = (True, c', ecb (E k) d) \<and> ready c' k)) \<and>
     (\<forall>k b. length b = 16 \<longrightarrow> length (E k b) = 16)"

text \<open>
  The environment of a started server: the handles are set and OpenSSL behaves as above.
\<close>

definition crypto_ready ::
  "'ctx crypto_env \<Rightarrow> (byte list \<Rightarrow> byte list \<Rightarrow> byte list) \<Rightarrow> ('ctx \<Rightarrow> byte list \<Rightarrow> bool) \<Rightarrow> bool" where
  "crypto_ready env E ready \<longleftrightarrow>
     evp_ecb_contract (ssl env) E ready \<and> cipher2 (aes env) = Some EVP_aes_128_ecb"

text \<open>A cached context is absent or one for the key it is cached with.\<close>

definition ctx_ok :: "('ctx \<Rightarrow> byte list \<Rightarrow> bool) \<Rightarrow> byte list \<Rightarrow> 'ctx option \<Rightarrow> bool" where
  "ctx_ok ready key ctxPtr \<longleftrightarrow> (\<forall>c. ctxPtr = Some c \<longrightarrow> ready c (take 16 key))"

lemma ctx_ok_None [simp]: "ctx_ok ready key None"
  by (simp add: ctx_ok_def)

lemma crypto_ready_init:
  assumes "crypto_ready env E ready"
  obtains c where "EVP_CipherInit_ex (ssl env) (EVP_CIPHER_CTX_new (ssl env)) (cipher2 (aes env)) key iv True
                     = (True, c)" "ready c (take 16 key)"
proof -
  have "cipher2 (aes env) = Some EVP_aes_128_ecb"
    and "\<exists>c. EVP_CipherInit_ex (ssl env) (EVP_CIPHER_CTX_new (ssl env)) (Some EVP_aes_128_ecb) key iv True
                = (True, c) \<and> ready c (take 16 key)"
    using assms unfolding crypto_ready_def evp_ecb_contract_def by blast+
  with that show ?thesis by auto
qed

lemma crypto_ready_update:
  assumes "crypto_ready env E ready" "ready c k" "length d mod 16 = 0"
  obtains c' where "EVP_CipherUpdate (ssl env) c d = (True, c', ecb (E k) d)" "ready c' k"
proof -
  have "\<exists>c'. EVP_CipherUpdate (ssl env) c d = (True, c', ecb (E k) d) \<and> ready c' k"
    using assms unfolding crypto_ready_def evp_ecb_contract_def by metis
  with that show ?thesis by blast
qed

lemma crypto_ready_length:
  "crypto_ready env E ready \<Longrightarrow> length b = 16 \<Longrightarrow> length (E k b) = 16"
  by (simp add: crypto_ready_def evp_ecb_contract_def)

lemma AesRun2_ecb:
  assumes "crypto_ready env E ready" "ctx_ok ready key ctxPtr"
    and "length d mod 16 = 0" "length (ecb (E (take 16 key)) d) \<le> length out"
  shows "\<exists>c'. AesRun2 env ctxPtr True key iv d out =
           (Inr (length (ecb (E (take 16 key)) d)), Some c',
            ecb (E (take 16 key)) d @ drop (length (ecb (E (take 16 key)) d)) out)
         \<and> ready c' (take 16 key)"
proof -
  obtain c where c: "ready c (take 16 key)"
    "(case ctxPtr of
        None \<Rightarrow> EVP_CipherInit_ex (ssl env) (EVP_CIPHER_CTX_new (ssl env)) (cipher2 (aes env)) key iv True
      | Some c \<Rightarrow> (True, c)) = (True, c)"
  proof (cases ctxPtr)
    case None
    then show ?thesis
      using crypto_ready_init [OF assms(1), of key iv] that by (metis option.simps(4))
  next
    case (Some c)
    then show ?thesis
      using assms(2) that by (simp add: ctx_ok_def)
  qed
  then obtain c' where "EVP_CipherUpdate (ssl env) c d = (True, c', ecb (E (take 16 key)) d)"
    "ready c' (take 16 key)"
    using crypto_ready_update [OF assms(1) _ assms(3)] by metis
  with c(2) show ?thesis
    using assms(4) by (simp add: AesRun2_def copy_bytes_Inr)
qed

text \<open>
  The keystream of a run of blocks: the encrypted counter blocks one after the other.
\<close>

definition keystream_blocks ::
  "'ctx crypto_env \<Rightarrow> (byte list \<Rightarrow> byte list) \<Rightarrow> nat \<Rightarrow> nat \<Rightarrow> byte list" where
  "keystream_blocks env E m n = concat (map (\<lambda>j. E (ctr_block env (of_nat j))) [m..<n])"

lemma length_keystream_blocks:
  assumes "\<And>b. length b = 16 \<Longrightarrow> length (E b) = 16"
  shows "length (keystream_blocks env E m n) = 16 * (n - m)"
proof -
  have "length (concat (map (\<lambda>j. E (ctr_block env (of_nat j))) js)) = 16 * length js" for js
    using assms by (induction js) auto
  then show ?thesis by (simp add: keystream_blocks_def)
qed

lemma ecb_counter_blocks:
  "ecb E (concat (map (\<lambda>j. ctr_block env (of_nat j)) [m..<n])) = keystream_blocks env E m n"
  by (subst ecb_concat) (auto simp: keystream_blocks_def comp_def)

lemma length_counter_blocks:
  "length (concat (map (\<lambda>j. ctr_block env (of_nat j)) js)) = 16 * length js"
  by (induction js) auto

lemma batch_length:
  fixes b1 b2 :: uint64
  assumes "b1 \<le> b2" "unat b2 - unat b1 \<le> 100"
  shows "unat (ucast ((b2 - b1) * 16) :: uint32) = 16 * (unat b2 - unat b1)"
proof -
  have d: "unat (b2 - b1) = unat b2 - unat b1"
    using assms(1) by (rule unat_sub)
  have "unat ((b2 - b1) * 16) = unat (b2 - b1) * unat (16 :: uint64) mod 2 ^ LENGTH(64)"
    by (rule unat_word_ariths(2))
  also have "\<dots> = 16 * (unat b2 - unat b1)"
    unfolding d using assms(2) by simp
  finally have "unat ((b2 - b1) * 16) = 16 * (unat b2 - unat b1)" .
  with assms(2) show ?thesis
    by (subst unat_ucast_lt) simp_all
qed

lemma zero_blocks_result:
  assumes ready: "crypto_ready env E ready" and "ctx_ok ready key ctxPtr"
    and b: "b1 \<le> b2" "unat b2 < 2 ^ 31" "unat b2 - unat b1 \<le> 100"
    and len: "length out = 1600"
  shows "\<exists>c'. Aes128EncryptedZeroBlocks env ctxPtr key b1 b2 out =
           (Inr (16 * (unat b2 - unat b1)), Some c',
            keystream_blocks env (E (take 16 key)) (unat b1) (unat b2) @
              drop (16 * (unat b2 - unat b1)) out)
         \<and> ready c' (take 16 key)"
proof -
  let ?n = "16 * (unat b2 - unat b1)"
  let ?ctrs = "concat (map (\<lambda>j. ctr_block env (of_nat j)) [unat b1..<unat b2])"
  let ?stack = "stack_array env ''data'' 1600"
  let ?data = "replicate ?n 0 @ drop ?n ?stack"
  have dl: "unat (ucast ((b2 - b1) * 16) :: uint32) = ?n"
    using b(1,3) by (rule batch_length)
  have clear: "copy_bytes ?stack 0 (replicate ?n 0) = Inr ?data"
    using b(3) by (simp add: copy_bytes_Inr)
  have "counter_blocks_loop env (of_nat (unat b1)) b1 b2 ?data =
      Inr (take (16 * (unat b1 - unat b1)) ?data @ ?ctrs @ drop ?n ?data)"
    using b by (intro counter_blocks_loop_result) (auto simp: word_le_nat_alt nth_append)
  then have loop: "counter_blocks_loop env (ucast b1) b1 b2 ?data = Inr (?ctrs @ drop ?n ?stack)"
    by simp
  have lc: "length ?ctrs = ?n"
    by (simp add: length_counter_blocks)
  have ks: "length (keystream_blocks env (E (take 16 key)) (unat b1) (unat b2)) = ?n"
    using crypto_ready_length [OF ready] by (intro length_keystream_blocks)
  have "Aes128EncryptedZeroBlocks env ctxPtr key b1 b2 out =
      AesRun2 env ctxPtr True key zero_iv ?ctrs out"
    unfolding Aes128EncryptedZeroBlocks_def Let_def dl clear using loop lc by simp
  then show ?thesis
    using AesRun2_ecb [OF ready assms(2), of ?ctrs out zero_iv] ks b(3) len lc
    by (simp add: ecb_counter_blocks)
qed

lemma bit_counter_byte:
  assumes "i < 4" "n < 8"
  shows "bit (counter_byte env j i) n \<longleftrightarrow> bit j (8 * i + n)"
proof -
  have m: "(0xFF :: int32) = mask 8"
    by (simp add: mask_eq_exp_minus_1)
  show ?thesis
    using assms unfolding counter_byte_def shr_int_def m
    by (auto simp: bit_simps)
qed

lemma ctr_block_byte:
  assumes "i < 4"
  shows "ctr_block env j ! (15 - i) = counter_byte env j i"
  using assms by (auto simp: ctr_block_def nth_append rev_nth less_Suc_eq numeral_eq_Suc)

lemma ctr_block_inj:
  assumes "ctr_block env j = ctr_block env k"
  shows "j = k"
proof (rule bit_word_eqI)
  fix n :: nat
  assume n: "n < LENGTH(32)"
  have d: "n div 8 < 4"
    using n by simp
  have "counter_byte env j (n div 8) = counter_byte env k (n div 8)"
    using assms ctr_block_byte [OF d] by metis
  then have "bit j (8 * (n div 8) + n mod 8) = bit k (8 * (n div 8) + n mod 8)"
    using d bit_counter_byte [of "n div 8" "n mod 8" env] by (metis mod_less_divisor zero_less_numeral)
  then show "bit j n = bit k n"
    by simp
qed

section \<open>One CBC block\<close>

definition xor_bytes :: "byte list \<Rightarrow> byte list \<Rightarrow> byte list" where
  "xor_bytes xs ys = map2 (XOR) xs ys"

lemma length_xor_bytes [simp]: "length (xor_bytes xs ys) = min (length xs) (length ys)"
  by (simp add: xor_bytes_def)

lemma xor_bytes_cancel: "length xs \<le> length ys \<Longrightarrow> xor_bytes (xor_bytes xs ys) ys = xs"
  by (intro nth_equalityI) (auto simp: xor_bytes_def xor.assoc)

text \<open>
  The documented behaviour of AES-128-CBC with padding off on one block: encryption outputs
  \<open>E k (b XOR iv)\<close>, decryption \<open>D k b XOR iv\<close>, the final call outputs nothing, and \<open>D k\<close>
  inverts \<open>E k\<close>.
\<close>

definition evp_cbc_contract ::
  "'ctx openssl \<Rightarrow> (byte list \<Rightarrow> byte list \<Rightarrow> byte list) \<Rightarrow> (byte list \<Rightarrow> byte list \<Rightarrow> byte list) \<Rightarrow> bool" where
  "evp_cbc_contract ossl E D \<longleftrightarrow>
     (\<forall>key iv b. length iv = 16 \<longrightarrow> length b = 16 \<longrightarrow>
        (\<exists>c c1 c2. EVP_CipherInit_ex ossl (EVP_CIPHER_CTX_new ossl) (Some EVP_aes_128_cbc) key iv True = (True, c) \<and>
             EVP_CipherUpdate ossl c b = (True, c1, E (take 16 key) (xor_bytes b iv)) \<and>
             EVP_CipherFinal_ex ossl c1 = (True, c2, [])) \<and>
        (\<exists>c c1 c2. EVP_CipherInit_ex ossl (EVP_CIPHER_CTX_new ossl) (Some EVP_aes_128_cbc) key iv False = (True, c) \<and>
             EVP_CipherUpdate ossl c b = (True, c1, xor_bytes (D (take 16 key) b) iv) \<and>
             EVP_CipherFinal_ex ossl c1 = (True, c2, []))) \<and>
     (\<forall>k b. length b = 16 \<longrightarrow> length (E k b) = 16 \<and> length (D k b) = 16 \<and> D k (E k b) = b)"

definition cbc_ready ::
  "'ctx crypto_env \<Rightarrow> (byte list \<Rightarrow> byte list \<Rightarrow> byte list) \<Rightarrow> (byte list \<Rightarrow> byte list \<Rightarrow> byte list) \<Rightarrow> bool" where
  "cbc_ready env E D \<longleftrightarrow> evp_cbc_contract (ssl env) E D \<and> cipher (aes env) = Some EVP_aes_128_cbc"

lemma AesEncrypt_block:
  assumes "cbc_ready env E D" "length iv = 16" "length b = 16" "16 \<le> length out"
  shows "AesEncrypt env key iv b out = Inr (0, E (take 16 key) (xor_bytes b iv) @ drop 16 out)"
proof -
  obtain c c1 c2 where "EVP_CipherInit_ex (ssl env) (EVP_CIPHER_CTX_new (ssl env)) (cipher (aes env)) key iv True = (True, c)"
      "EVP_CipherUpdate (ssl env) c b = (True, c1, E (take 16 key) (xor_bytes b iv))"
      "EVP_CipherFinal_ex (ssl env) c1 = (True, c2, [])"
    using assms(1-3) unfolding cbc_ready_def evp_cbc_contract_def by metis
  moreover have "length (E (take 16 key) (xor_bytes b iv)) = 16"
    using assms(1-3) by (simp add: cbc_ready_def evp_cbc_contract_def)
  ultimately show ?thesis
    using assms(4) by (simp add: AesEncrypt_def AesRun_def copy_bytes_Inr)
qed

lemma AesDecrypt_block:
  assumes "cbc_ready env E D" "length iv = 16" "length b = 16" "16 \<le> length out"
  shows "AesDecrypt env key iv b out = Inr (0, xor_bytes (D (take 16 key) b) iv @ drop 16 out)"
proof -
  obtain c c1 c2 where "EVP_CipherInit_ex (ssl env) (EVP_CIPHER_CTX_new (ssl env)) (cipher (aes env)) key iv False = (True, c)"
      "EVP_CipherUpdate (ssl env) c b = (True, c1, xor_bytes (D (take 16 key) b) iv)"
      "EVP_CipherFinal_ex (ssl env) c1 = (True, c2, [])"
    using assms(1-3) unfolding cbc_ready_def evp_cbc_contract_def by metis
  moreover have "length (xor_bytes (D (take 16 key) b) iv) = 16"
    using assms(1-3) by (simp add: cbc_ready_def evp_cbc_contract_def)
  ultimately show ?thesis
    using assms(4) by (simp add: AesDecrypt_def AesRun_def copy_bytes_Inr)
qed

lemma cbc_inverse:
  assumes "cbc_ready env E D" "length iv = 16" "length b = 16"
  shows "length (E k (xor_bytes b iv)) = 16" "xor_bytes (D k (E k (xor_bytes b iv))) iv = b"
  using assms by (auto simp: cbc_ready_def evp_cbc_contract_def xor_bytes_cancel)

section \<open>A concrete environment\<close>

text \<open>
  An instance of the OpenSSL parameter that satisfies both contracts, used where a theorem is
  applied to concrete data: the block cipher XORs a block with the key.
\<close>

definition demo_E :: "byte list \<Rightarrow> byte list \<Rightarrow> byte list" where
  "demo_E k b = map (\<lambda>i. b ! i XOR (if i < length k then k ! i else 0)) [0..<16]"

definition demo_openssl :: "(byte list \<times> byte list) openssl" where
  "demo_openssl =
     \<lparr>EVP_CIPHER_CTX_new = ([], []),
      EVP_CipherInit_ex = (\<lambda>c ciph key iv enc. (ciph \<noteq> None,
        take 16 key, if ciph = Some EVP_aes_128_ecb then zero_iv else iv)),
      EVP_CipherUpdate = (\<lambda>c d. (True, c, ecb (\<lambda>b. demo_E (fst c) (xor_bytes b (snd c))) d)),
      EVP_CipherFinal_ex = (\<lambda>c. (True, c, [])),
      EVP_CIPHER_block_size = (\<lambda>_. 16)\<rparr>"

definition demo_env :: "(byte list \<times> byte list) crypto_env" where
  "demo_env = \<lparr>ssl = demo_openssl, aes = AesInit demo_openssl aes_globals_start,
     oversized_shift = (\<lambda>j n. signed_drop_bit (n mod 32) j), uninit = (\<lambda>_ _. 0)\<rparr>"

definition demo_ready :: "byte list \<times> byte list \<Rightarrow> byte list \<Rightarrow> bool" where
  "demo_ready c k \<longleftrightarrow> c = (k, zero_iv)"

lemma length_demo_E [simp]: "length (demo_E k b) = 16"
  by (simp add: demo_E_def)

lemma xor_bytes_zero_iv: "length b = 16 \<Longrightarrow> xor_bytes b zero_iv = b"
  by (intro nth_equalityI) (simp_all add: xor_bytes_def zero_iv_def)

lemma ecb_cong:
  "(\<And>b. length b = 16 \<Longrightarrow> E b = E' b) \<Longrightarrow> ecb E d = ecb E' d"
  by (induction E d rule: ecb.induct) (simp add: ecb.simps [of _ d for d])

lemma demo_crypto_ready: "crypto_ready demo_env demo_E demo_ready"
  by (auto simp: crypto_ready_def evp_ecb_contract_def demo_env_def demo_openssl_def AesInit_def
      aes_globals_start_def demo_ready_def xor_bytes_zero_iv intro!: ecb_cong)

lemma ecb_block: "length b = 16 \<Longrightarrow> length (E b) = 16 \<Longrightarrow> ecb E b = E b"
  using ecb_concat [of "[b]" E] by simp

lemma demo_E_xor: "length b = 16 \<Longrightarrow> length iv = 16 \<Longrightarrow> demo_E k (xor_bytes b iv) = xor_bytes (demo_E k b) iv"
  by (intro nth_equalityI) (auto simp: demo_E_def xor_bytes_def xor.assoc xor.commute xor.left_commute)

lemma demo_E_inverse: "length b = 16 \<Longrightarrow> demo_E k (demo_E k b) = b"
  by (intro nth_equalityI) (auto simp: demo_E_def xor.assoc)

lemma demo_cbc_ready: "cbc_ready demo_env demo_E demo_E"
  by (auto simp: cbc_ready_def evp_cbc_contract_def demo_env_def demo_openssl_def AesInit_def
      aes_globals_start_def ecb_block demo_E_xor demo_E_inverse)

end
