(* ===== verification/TdeTypes.thy ===== *)
theory TdeTypes
  imports EncAes
begin

text \<open>
  The structures the components exchange: the internal key of a relation and the key data of
  its fork file (\<^verbatim>\<open>src/include/access/pg_tde_tdemap.h\<close>), relation file locators, and heap
  tuples as the encryption routines see them, a run of bytes at an offset of a page.
\<close>

abbreviation (input) INTERNAL_KEY_LEN :: "'a::numeral" where "INTERNAL_KEY_LEN \<equiv> 16"
abbreviation (input) MASTER_KEY_NAME_LEN :: "'a::numeral" where "MASTER_KEY_NAME_LEN \<equiv> 256"
abbreviation (input) BLCKSZ :: "'a::numeral" where "BLCKSZ \<equiv> 8192"

record 'ctx InternalKey =
  key :: "byte list"
  start_loc :: uint64
  end_loc :: uint64
  ctx :: "'ctx option"

record 'ctx RelKeysData =
  master_key_name :: string
  internal_keys_len :: uint64
  internal_key :: "'ctx InternalKey list"

record RelFileLocator =
  spcOid :: oid
  dbOid :: oid
  relNumber :: oid

text \<open>
  \<open>t_off\<close> is the distance of \<^verbatim>\<open>t_data\<close> from the start of its page, \<open>t_bytes\<close> the bytes at
  \<^verbatim>\<open>t_data\<close>. The header length \<^verbatim>\<open>t_hoff\<close> is byte 22 of the header.
\<close>

record HeapTuple =
  t_len :: uint32
  t_off :: uint64
  t_bytes :: "byte list"

definition t_hoff :: "byte list \<Rightarrow> nat" where
  "t_hoff bytes = unat (bytes ! 22)"

text \<open>The first internal key of a relation, the only one the encryption code uses.\<close>

definition key0 :: "'ctx RelKeysData \<Rightarrow> 'ctx InternalKey" where
  "key0 keys = hd (internal_key keys)"

definition set_ctx0 :: "'ctx option \<Rightarrow> 'ctx RelKeysData \<Rightarrow> 'ctx RelKeysData" where
  "set_ctx0 c keys = keys\<lparr>internal_key := (internal_key keys)[0 := (key0 keys)\<lparr>ctx := c\<rparr>]\<rparr>"

lemma key0_set_ctx0 [simp]:
  "internal_key keys \<noteq> [] \<Longrightarrow> key0 (set_ctx0 c keys) = (key0 keys)\<lparr>ctx := c\<rparr>"
  by (cases "internal_key keys") (simp_all add: key0_def set_ctx0_def)

lemma set_ctx0_set_ctx0 [simp]: "set_ctx0 c (set_ctx0 d keys) = set_ctx0 c keys"
  by (cases "internal_key keys") (simp_all add: key0_def set_ctx0_def)

lemma set_ctx0_nonempty [simp]: "internal_key (set_ctx0 c keys) = [] \<longleftrightarrow> internal_key keys = []"
  by (simp add: set_ctx0_def)

lemma set_ctx0_self [simp]: "internal_key keys \<noteq> [] \<Longrightarrow> set_ctx0 (ctx (key0 keys)) keys = keys"
  by (cases "internal_key keys") (simp_all add: key0_def set_ctx0_def)

end
