(* ===== verification/TdeMap.thy ===== *)
theory TdeMap
  imports Keyring XactHandler TdeTypes
begin

text \<open>
  The key fork of a relation, \<^verbatim>\<open>src/access/pg_tde_tdemap.c\<close>: the layout of the file, writing
  and reading it under the master key, the backend's cache of relation keys, WAL logging and
  redo. The state extends the transaction handler's by the keyring, the linked list of cached
  keys and the \<^verbatim>\<open>RelKeysData\<close> objects it points to (pointers are indices). File system
  calls, path construction and the machine representation of pointers are parameters.
\<close>

section \<open>State and environment\<close>

record ('c, 'w) tde_state = xact_state +
  td_keyring :: "'w keyring_state"
  tde_rel_keys_map :: "(oid \<times> nat) list"
  td_heap :: "'c RelKeysData list"
  td_wal :: "(uint8 \<times> byte list) list"

text \<open>
  \<open>FileRead\<close> gives the number of bytes read of those asked for, or -1; \<open>FileWrite\<close> the
  number of bytes written. \<open>ptr_bytes\<close> are the eight bytes of a pointer to a cipher context
  and \<open>ptr_at\<close> the context that a pointer with given bytes points to.
\<close>

record ('c, 'w) tde_env =
  te_crypto :: "'c crypto_env"
  te_keyring :: "'w keyring_ext"
  te_cfg :: keyring_config
  relpathperm :: "RelFileLocator \<Rightarrow> path option"
  open_creat :: "path \<Rightarrow> bool"
  open_rdonly :: "path \<Rightarrow> bool"
  FileWrite :: "path \<Rightarrow> nat \<Rightarrow> nat"
  FileRead :: "path \<Rightarrow> nat \<Rightarrow> int"
  ptr_bytes :: "'c \<Rightarrow> byte list"
  ptr_at :: "byte list \<Rightarrow> 'c"

definition on_keyring :: "('w keyring_state, 'a) cmd \<Rightarrow> (('c, 'w) tde_state, 'a) cmd" where
  "on_keyring m s = (case m (td_keyring s) of (r, k) \<Rightarrow> (r, s\<lparr>td_keyring := k\<rparr>))"

section \<open>Layout\<close>

text \<open>Little-endian bytes of a word.\<close>

definition le_bytes :: "nat \<Rightarrow> 'a::len word \<Rightarrow> byte list" where
  "le_bytes n w = map (\<lambda>i. ucast (drop_bit (8 * i) w)) [0..<n]"

definition un_le :: "byte list \<Rightarrow> 'a::len word" where
  "un_le bs = foldr (\<lambda>b w. ucast b OR push_bit 8 w) bs 0"

text \<open>\<^verbatim>\<open>strncpy\<close> of a C string into an array of \<open>n\<close> bytes, and the string in an array.\<close>

definition strncpy_bytes :: "nat \<Rightarrow> string \<Rightarrow> byte list" where
  "strncpy_bytes n s = take n (map of_char s @ replicate n 0)"

definition c_string :: "byte list \<Rightarrow> string" where
  "c_string bs = map (\<lambda>b. char_of (unat b)) (takeWhile (\<lambda>b. b \<noteq> 0) bs)"

abbreviation (input) SizeOfInternalKey :: "'a::numeral" where "SizeOfInternalKey \<equiv> 40"
abbreviation (input) SizeOfRelFileLocator :: "'a::numeral" where "SizeOfRelFileLocator \<equiv> 12"
abbreviation (input) SizeOfRelKeysDataHeader :: "'a::numeral" where "SizeOfRelKeysDataHeader \<equiv> 264"

definition SizeOfRelKeysData :: "nat \<Rightarrow> nat" where
  "SizeOfRelKeysData keys_num = SizeOfRelKeysDataHeader + SizeOfInternalKey * keys_num"

definition ctx_bytes :: "('c, 'w) tde_env \<Rightarrow> 'c option \<Rightarrow> byte list" where
  "ctx_bytes env c = (case c of None \<Rightarrow> replicate 8 0 | Some p \<Rightarrow> ptr_bytes env p)"

definition ctx_at :: "('c, 'w) tde_env \<Rightarrow> byte list \<Rightarrow> 'c option" where
  "ctx_at env bs = (if bs = replicate 8 0 then None else Some (ptr_at env bs))"

definition key_bytes :: "('c, 'w) tde_env \<Rightarrow> 'c InternalKey \<Rightarrow> byte list" where
  "key_bytes env k = key k @ le_bytes 8 (start_loc k) @ le_bytes 8 (end_loc k) @ ctx_bytes env (ctx k)"

definition key_of_bytes :: "('c, 'w) tde_env \<Rightarrow> byte list \<Rightarrow> 'c InternalKey" where
  "key_of_bytes env bs =
     \<lparr>key = take 16 bs, start_loc = un_le (take 8 (drop 16 bs)), end_loc = un_le (take 8 (drop 24 bs)),
      ctx = ctx_at env (take 8 (drop 32 bs))\<rparr>"

definition rel_keys_bytes :: "('c, 'w) tde_env \<Rightarrow> 'c RelKeysData \<Rightarrow> byte list" where
  "rel_keys_bytes env d =
     strncpy_bytes MASTER_KEY_NAME_LEN (master_key_name d) @ le_bytes 8 (internal_keys_len d) @
     concat (map (key_bytes env) (internal_key d))"

fun key_array :: "('c, 'w) tde_env \<Rightarrow> nat \<Rightarrow> byte list \<Rightarrow> 'c InternalKey list" where
  "key_array env 0 bs = []"
| "key_array env (Suc n) bs = key_of_bytes env (take SizeOfInternalKey bs) # key_array env n (drop SizeOfInternalKey bs)"

definition rel_keys_of_bytes :: "('c, 'w) tde_env \<Rightarrow> byte list \<Rightarrow> 'c RelKeysData" where
  "rel_keys_of_bytes env bs =
     \<lparr>master_key_name = c_string (take MASTER_KEY_NAME_LEN bs),
      internal_keys_len = un_le (take 8 (drop MASTER_KEY_NAME_LEN bs)),
      internal_key = key_array env ((length bs - SizeOfRelKeysDataHeader) div SizeOfInternalKey)
        (drop SizeOfRelKeysDataHeader bs)\<rparr>"

section \<open>The cache of relation keys\<close>

text \<open>
  \<open>put_keys_into_map\<close>: \<^verbatim>\<open>prev\<close> is set to NULL and never changed, so the new entry always
  becomes the whole list.
\<close>

definition put_keys_into_map :: "oid \<Rightarrow> nat \<Rightarrow> ('c, 'w) tde_state \<Rightarrow> ('c, 'w) tde_state" where
  "put_keys_into_map rel_id keys s =
     (let prev = (None :: nat option)
      in case prev of
           None \<Rightarrow> s\<lparr>tde_rel_keys_map := [(rel_id, keys)]\<rparr>
         | Some i \<Rightarrow> s\<lparr>tde_rel_keys_map := take (Suc i) (tde_rel_keys_map s) @ [(rel_id, keys)]\<rparr>)"

definition alloc_keys :: "'c RelKeysData \<Rightarrow> ('c, 'w) tde_state \<Rightarrow> nat \<times> ('c, 'w) tde_state" where
  "alloc_keys d s = (length (td_heap s), s\<lparr>td_heap := td_heap s @ [d]\<rparr>)"

section \<open>Writing and reading the fork\<close>

definition TDE_FORK_EXT :: string where
  "TDE_FORK_EXT = ''tde''"

definition MasterKeyName :: string where
  "MasterKeyName = ''master-key''"

definition pg_tde_get_key_file_path :: "('c, 'w) tde_env \<Rightarrow> RelFileLocator \<Rightarrow> path option" where
  "pg_tde_get_key_file_path env loc =
     (case relpathperm env loc of None \<Rightarrow> None | Some p \<Rightarrow> Some (p @ ''.'' @ TDE_FORK_EXT))"

text \<open>
  The master key: the newest one, else a new one; \<open>rnd\<close> is what \<^verbatim>\<open>RAND_bytes\<close> yields if it
  is called.
\<close>

definition write_master_key ::
  "('c, 'w) tde_env \<Rightarrow> byte list option \<Rightarrow> (('c, 'w) tde_state, keyInfo) cmd" where
  "write_master_key env rnd =
     bindC (on_keyring (keyringGetLatestKey (te_keyring env) (te_cfg env) MasterKeyName))
       (\<lambda>k. bindC (case k of
                    Some p \<Rightarrow> returnC (Some p)
                  | None \<Rightarrow> on_keyring (keyringGenerateKey (te_keyring env) (te_cfg env) rnd MasterKeyName INTERNAL_KEY_LEN))
       (\<lambda>k s. case k of
                 None \<Rightarrow> (Inl (Ereport ERROR ''failed to retrieve master key''), s)
               | Some p \<Rightarrow> (Inr (key_at (td_keyring s) p), s)))"

text \<open>
  The image that is written: \<open>dataEnc\<close> is a copy of the structure in a 1024-byte array, with
  the first 16 bytes after the header replaced by their encryption.
\<close>

definition encrypted_image ::
  "('c, 'w) tde_env \<Rightarrow> keyInfo \<Rightarrow> 'c RelKeysData \<Rightarrow> byte list result" where
  "encrypted_image env mk data =
     (case copy_bytes (stack_array (te_crypto env) ''dataEnc'' 1024) 0 (rel_keys_bytes env data) of
        Inl e \<Rightarrow> Inl e
      | Inr dataEnc \<Rightarrow>
          (case AesEncrypt (te_crypto env) (kd_data (ki_data mk)) zero_iv
                  (take INTERNAL_KEY_LEN (drop SizeOfRelKeysDataHeader (rel_keys_bytes env data)))
                  (drop SizeOfRelKeysDataHeader dataEnc) of
             Inl e \<Rightarrow> Inl e
           | Inr (encsz, out) \<Rightarrow>
               Inr (take (SizeOfRelKeysData (unat (internal_keys_len data)))
                      (take SizeOfRelKeysDataHeader dataEnc @ out))))"

text \<open>Writing \<open>bs\<close> at the start of a file does not shorten the file.\<close>

definition write_at_0 :: "path \<Rightarrow> byte list \<Rightarrow> 'z xact_state_scheme \<Rightarrow> 'z xact_state_scheme" where
  "write_at_0 f bs s =
     s\<lparr>xs_files := (xs_files s)(f \<mapsto> bs @ drop (length bs) (case xs_files s f of None \<Rightarrow> [] | Some old \<Rightarrow> old))\<rparr>"

definition pg_tde_write_key_fork ::
  "('c, 'w) tde_env \<Rightarrow> byte list option \<Rightarrow> RelFileLocator \<Rightarrow> 'c InternalKey \<Rightarrow> (('c, 'w) tde_state, unit) cmd" where
  "pg_tde_write_key_fork env rnd rlocator int_key =
     bindC (write_master_key env rnd)
       (\<lambda>mk s.
          (case pg_tde_get_key_file_path env rlocator of
             None \<Rightarrow> (Inl (Ereport ERROR ''failed to get key file path''), s)
           | Some f \<Rightarrow>
               if \<not> open_creat env f then (Inl (Ereport FATAL ''could not open tde key file''), s)
               else
                 (let s = write_at_0 f [] s;
                      d = \<lparr>master_key_name = ki_name mk, internal_keys_len = 1, internal_key = [int_key]\<rparr>;
                      (data, s) = alloc_keys d s
                  in case encrypted_image env mk d of
                       Inl e \<Rightarrow> (Inl e, s)
                     | Inr img \<Rightarrow>
                         (let n = FileWrite env f (length img); s = write_at_0 f (take n img) s
                          in if n \<noteq> length img then (Inl (Ereport FATAL ''could not write key data to file''), s)
                             else (Inr (), put_keys_into_map (relNumber rlocator) data
                                             (RegisterFileForDeletion f False s))))))"

definition pg_tde_get_keys_from_fork ::
  "('c, 'w) tde_env \<Rightarrow> RelFileLocator \<Rightarrow> (('c, 'w) tde_state, nat) cmd" where
  "pg_tde_get_keys_from_fork env rlocator s =
     (case pg_tde_get_key_file_path env rlocator of
        None \<Rightarrow> (Inl (Ereport ERROR ''failed to get key file path''), s)
      | Some f \<Rightarrow>
          (case (if open_rdonly env f then xs_files s f else None) of
             None \<Rightarrow> (Inl (Ereport FATAL ''could not open tde key file''), s)
           | Some content \<Rightarrow>
               (let sz = length content; nbytes = FileRead env f sz
                in if nbytes < 0 then (Inl (Ereport FATAL ''could not read key data file''), s)
                   else if nat nbytes < SizeOfRelKeysData 1 \<or>
                           (nat nbytes - SizeOfRelKeysDataHeader) mod SizeOfInternalKey \<noteq> 0
                   then (Inl (Ereport FATAL ''corrupted key data in file''), s)
                   else
                     (let keys = rel_keys_of_bytes env (take (nat nbytes) content)
                      in bindC (on_keyring (keyringGetKey (te_keyring env) (te_cfg env) (master_key_name keys)))
                        (\<lambda>k s. case k of
                           None \<Rightarrow> (Inl (Ereport ERROR ''failed to retrieve master key''), s)
                         | Some p \<Rightarrow>
                             (case AesDecrypt (te_crypto env) (kd_data (ki_data (key_at (td_keyring s) p))) zero_iv
                                     (key (key0 keys)) (stack_array (te_crypto env) ''dataDec'' 1024) of
                                Inl e \<Rightarrow> (Inl e, s)
                              | Inr (encsz, dataDec) \<Rightarrow>
                                  (let keys' = keys\<lparr>internal_key := (internal_key keys)
                                                 [0 := (key0 keys)\<lparr>key := take INTERNAL_KEY_LEN dataDec\<rparr>]\<rparr>;
                                       (p', s') = alloc_keys keys' s
                                   in (Inr p', s')))) s))))"

definition GetRelationKeys :: "('c, 'w) tde_env \<Rightarrow> RelFileLocator \<Rightarrow> (('c, 'w) tde_state, nat) cmd" where
  "GetRelationKeys env rel s =
     (case map_of (tde_rel_keys_map s) (relNumber rel) of
        Some p \<Rightarrow> (Inr p, s)
      | None \<Rightarrow>
          bindC (pg_tde_get_keys_from_fork env rel)
            (\<lambda>p s. (Inr p, put_keys_into_map (relNumber rel) p s)) s)"

section \<open>Creating and deleting a fork, WAL\<close>

abbreviation (input) XLOG_TDE_CREATE_FORK :: uint8 where "XLOG_TDE_CREATE_FORK \<equiv> 0x00"
abbreviation (input) XLR_INFO_MASK :: uint8 where "XLR_INFO_MASK \<equiv> 0x0F"

definition locator_bytes :: "RelFileLocator \<Rightarrow> byte list" where
  "locator_bytes loc = le_bytes 4 (spcOid loc) @ le_bytes 4 (dbOid loc) @ le_bytes 4 (relNumber loc)"

definition locator_of_bytes :: "byte list \<Rightarrow> RelFileLocator" where
  "locator_of_bytes bs =
     \<lparr>spcOid = un_le (take 4 bs), dbOid = un_le (take 4 (drop 4 bs)), relNumber = un_le (take 4 (drop 8 bs))\<rparr>"

definition pg_tde_delete_key_fork :: "('c, 'w) tde_env \<Rightarrow> RelFileLocator \<Rightarrow> (('c, 'w) tde_state, unit) cmd" where
  "pg_tde_delete_key_fork env loc s =
     (case pg_tde_get_key_file_path env loc of
        None \<Rightarrow> (Inl (Ereport ERROR ''failed to get key file path''), s)
      | Some f \<Rightarrow> (Inr (), RegisterFileForDeletion f True s))"

text \<open>\<open>krnd\<close> and \<open>mrnd\<close> are the random bytes for the internal and for a new master key.\<close>

definition pg_tde_create_key_fork ::
  "('c, 'w) tde_env \<Rightarrow> byte list option \<Rightarrow> byte list option \<Rightarrow> RelFileLocator \<Rightarrow> (('c, 'w) tde_state, unit) cmd" where
  "pg_tde_create_key_fork env krnd mrnd newrlocator s =
     (case krnd of
        None \<Rightarrow> (Inl (Ereport FATAL ''could not generate internal key''), s)
      | Some bs \<Rightarrow>
          (let int_key = \<lparr>key = take INTERNAL_KEY_LEN bs, start_loc = 0, end_loc = 0, ctx = None\<rparr>;
               s = s\<lparr>td_wal := td_wal s @ [(XLOG_TDE_CREATE_FORK, locator_bytes newrlocator @ key_bytes env int_key)]\<rparr>
           in pg_tde_write_key_fork env mrnd newrlocator int_key s))"

definition pg_tde_xlog_create_fork ::
  "('c, 'w) tde_env \<Rightarrow> byte list option \<Rightarrow> byte list \<Rightarrow> (('c, 'w) tde_state, unit) cmd" where
  "pg_tde_xlog_create_fork env mrnd rec =
     (if length rec < SizeOfInternalKey + SizeOfRelFileLocator
      then throwC (Ereport FATAL ''corrupted XLOG_TDE_CREATE_FORK data'')
      else pg_tde_write_key_fork env mrnd (locator_of_bytes (take SizeOfRelFileLocator rec))
             (key_of_bytes env (take SizeOfInternalKey (drop SizeOfRelFileLocator rec))))"

definition pg_tde_rmgr_redo ::
  "('c, 'w) tde_env \<Rightarrow> byte list option \<Rightarrow> uint8 \<times> byte list \<Rightarrow> (('c, 'w) tde_state, unit) cmd" where
  "pg_tde_rmgr_redo env mrnd record =
     (if fst record AND NOT XLR_INFO_MASK = XLOG_TDE_CREATE_FORK
      then pg_tde_xlog_create_fork env mrnd (snd record)
      else throwC (Ereport PANIC ''pg_tde_redo: unknown op code''))"

definition pg_tde_rmgr_desc :: "string \<Rightarrow> uint8 \<times> byte list \<Rightarrow> string" where
  "pg_tde_rmgr_desc buf record =
     (if fst record AND NOT XLR_INFO_MASK = XLOG_TDE_CREATE_FORK
      then (let loc = locator_of_bytes (take SizeOfRelFileLocator (snd record))
            in buf @ ''create tde fork for relation '' @ dec (unat (dbOid loc)) @ ''/'' @ dec (unat (relNumber loc)))
      else buf)"

definition pg_tde_rmgr_identify :: "uint8 \<Rightarrow> string option" where
  "pg_tde_rmgr_identify info =
     (if info AND NOT XLR_INFO_MASK = XLOG_TDE_CREATE_FORK then Some ''TDE_CREATE_FORK'' else None)"

section \<open>Debugging text\<close>

definition hex_digit :: "nat \<Rightarrow> char" where
  "hex_digit n = (if n < 10 then char_of (48 + n) else char_of (55 + n))"

definition hex02 :: "byte \<Rightarrow> string" where
  "hex02 b = [hex_digit (unat b div 16), hex_digit (unat b mod 16)]"

text \<open>\<^verbatim>\<open>sprintf(buf + i, ...)\<close>: what is in the static buffer up to the NUL.\<close>

fun sprint_loop :: "nat \<Rightarrow> byte list \<Rightarrow> string \<Rightarrow> string" where
  "sprint_loop i [] buf = buf"
| "sprint_loop i (b # bs) buf = sprint_loop (Suc i) bs (take i buf @ hex02 b)"

definition tde_sprint_key :: "'c InternalKey \<Rightarrow> string" where
  "tde_sprint_key k =
     (let buf = sprint_loop 0 (key k) ''''
      in take (length (key k)) buf @ ''['' @ dec (unat (start_loc k)) @ '', '' @ dec (unat (end_loc k)) @ '']'')"

definition tde_sprint_masterkey :: "keyData \<Rightarrow> string" where
  "tde_sprint_masterkey k = sprint_loop 0 (take (unat (kd_len k)) (kd_data k)) ''''"

section \<open>The layout is readable\<close>

lemma length_le_bytes [simp]: "length (le_bytes n w) = n"
  by (simp add: le_bytes_def)

lemma bit_un_le:
  "bit (un_le bs :: 'a::len word) i \<longleftrightarrow> i < LENGTH('a) \<and> i div 8 < length bs \<and> bit (bs ! (i div 8)) (i mod 8)"
proof (induction bs arbitrary: i)
  case Nil
  then show ?case by (simp add: un_le_def)
next
  case (Cons b bs)
  have "bit (un_le (b # bs) :: 'a word) i \<longleftrightarrow>
      i < LENGTH('a) \<and> (if i < 8 then bit b i else bit (un_le bs :: 'a word) (i - 8))"
    by (auto simp: un_le_def bit_simps dest: bit_imp_le_length)
  then show ?case
    by (cases "i < 8") (auto simp: Cons.IH le_div_geq le_mod_geq)
qed

lemma un_le_bytes [simp]: "LENGTH('a) \<le> 8 * n \<Longrightarrow> un_le (le_bytes n w) = (w :: 'a::len word)"
proof (rule bit_word_eqI)
  fix i :: nat
  assume n: "LENGTH('a) \<le> 8 * n" and i: "i < LENGTH('a)"
  then have "i div 8 < n" by (simp add: less_mult_imp_div_less mult.commute)
  with i show "bit (un_le (le_bytes n w) :: 'a word) i = bit w i"
    by (simp add: bit_un_le le_bytes_def bit_simps)
qed

lemma length_strncpy_bytes [simp]: "length (strncpy_bytes n s) = n"
  by (simp add: strncpy_bytes_def)

lemma unat_of_char: "unat (of_char c :: byte) = of_char c"
proof -
  have "of_char c < (256 :: nat)"
    by (metis of_char_mod_256 mod_less_divisor zero_less_numeral)
  then have "unat (of_nat (of_char c) :: byte) = of_char c"
    by (simp add: unat_of_nat_lt)
  then show ?thesis by (simp only: of_nat_of_char)
qed

lemma char_of_0: "char_of (0 :: nat) = CHR 0x00"
  by (simp add: char_of_def)

lemma c_string_strncpy:
  assumes "length s < n" "CHR 0x00 \<notin> set s"
  shows "c_string (strncpy_bytes n s) = s"
proof -
  have nz: "(of_char c :: byte) \<noteq> 0" if "c \<in> set s" for c
    using that assms(2) unat_of_char [of c] by (metis char_of_char unat_0 char_of_0)
  have "strncpy_bytes n s = map of_char s @ 0 # replicate (n - Suc (length s)) 0"
    using assms(1) by (simp add: strncpy_bytes_def flip: replicate_Suc)
  moreover have "takeWhile (\<lambda>b. b \<noteq> 0) (map of_char s @ (0 :: byte) # bs) = map of_char s" for bs
    using nz by (subst takeWhile_append2) auto
  ultimately have "takeWhile (\<lambda>b. b \<noteq> 0) (strncpy_bytes n s) = map of_char s" by simp
  then show ?thesis by (simp add: c_string_def unat_of_char comp_def)
qed

lemma length_key_bytes:
  "length (key k) = 16 \<Longrightarrow> ctx k = None \<Longrightarrow> length (key_bytes env k) = 40"
  by (simp add: key_bytes_def ctx_bytes_def)

lemma key_of_key_bytes:
  assumes "length (key k) = 16" "ctx k = None"
  shows "key_of_bytes env (key_bytes env k) = k"
  using assms by (cases k) (simp add: key_of_bytes_def key_bytes_def ctx_bytes_def ctx_at_def)

definition single_key :: "string \<Rightarrow> 'c InternalKey \<Rightarrow> 'c RelKeysData" where
  "single_key nm k = \<lparr>master_key_name = nm, internal_keys_len = 1, internal_key = [k]\<rparr>"

definition header_bytes :: "string \<Rightarrow> byte list" where
  "header_bytes nm = strncpy_bytes MASTER_KEY_NAME_LEN nm @ le_bytes 8 (1 :: uint64)"

lemma length_header_bytes [simp]: "length (header_bytes nm) = 264"
  by (simp add: header_bytes_def)

lemma rel_keys_bytes_single: "rel_keys_bytes env (single_key nm k) = header_bytes nm @ key_bytes env k"
  by (simp add: rel_keys_bytes_def single_key_def header_bytes_def)

lemma rel_keys_of_image:
  assumes "length nm < 256" "CHR 0x00 \<notin> set nm" "length (key k) = 16" "ctx k = None"
  shows "rel_keys_of_bytes env (header_bytes nm @ key_bytes env k) = single_key nm k"
  using assms by (simp add: rel_keys_of_bytes_def single_key_def header_bytes_def length_key_bytes
      c_string_strncpy key_of_key_bytes numeral_eq_Suc [of num.One])

text \<open>The image on disk: the header in clear, the key encrypted in place.\<close>

definition sealed_key :: "(byte list \<Rightarrow> byte list \<Rightarrow> byte list) \<Rightarrow> keyInfo \<Rightarrow> 'c InternalKey \<Rightarrow> 'c InternalKey" where
  "sealed_key E mk k = k\<lparr>key := E (take 16 (kd_data (ki_data mk))) (xor_bytes (key k) zero_iv)\<rparr>"

lemma length_zero_iv [simp]: "length zero_iv = 16"
  by (simp add: zero_iv_def)

lemma encrypted_image_single:
  assumes "cbc_ready (te_crypto env) E D" "length (key k) = 16" "ctx k = None"
  shows "encrypted_image env mk (single_key (ki_name mk) k) =
    Inr (header_bytes (ki_name mk) @ key_bytes env (sealed_key E mk k))"
proof -
  let ?h = "header_bytes (ki_name mk)" and ?k = "key_bytes env k"
  let ?rest = "drop 16 ?k @ drop 304 (stack_array (te_crypto env) ''dataEnc'' 1024)"
  have kb: "?k = key k @ drop 16 ?k" "take 16 ?k = key k"
    using assms(2) by (simp_all add: key_bytes_def)
  have lk: "length ?k = 40" using assms(2,3) by (rule length_key_bytes)
  have "AesEncrypt (te_crypto env) (kd_data (ki_data mk)) zero_iv (key k) (key k @ ?rest) =
      Inr (0, key (sealed_key E mk k) @ ?rest)"
    using AesEncrypt_block [OF assms(1), of zero_iv "key k" "key k @ ?rest"] assms(2)
    by (simp add: sealed_key_def)
  moreover have "copy_bytes (stack_array (te_crypto env) ''dataEnc'' 1024) 0 (?h @ ?k) = Inr (?h @ ?k @ drop 304 (stack_array (te_crypto env) ''dataEnc'' 1024))"
    using lk by (simp add: copy_bytes_Inr)
  moreover have "key k @ ?rest = ?k @ drop 304 (stack_array (te_crypto env) ''dataEnc'' 1024)"
    using kb(1) by (metis append.assoc)
  moreover have "key_bytes env (sealed_key E mk k) = key (sealed_key E mk k) @ drop 16 ?k"
    using assms(2) by (simp add: key_bytes_def sealed_key_def)
  moreover have "length (key (sealed_key E mk k)) = 16"
    using assms(2) cbc_inverse(1) [OF assms(1)] by (simp add: sealed_key_def)
  ultimately show ?thesis
    using assms(2) lk kb(2)
    by (simp add: encrypted_image_def rel_keys_bytes_single SizeOfRelKeysData_def) (simp add: single_key_def)
qed

lemma sealed_key_wf:
  assumes "cbc_ready (te_crypto env) E D" "length (key k) = 16"
  shows "length (key (sealed_key E mk k)) = 16" "ctx (sealed_key E mk k) = ctx k"
  using assms cbc_inverse(1) [OF assms(1)] by (simp_all add: sealed_key_def)

section \<open>The master key a fork is written under\<close>

lemma write_master_key_local:
  assumes "keyring_wf (td_keyring s)" "keyringProvider (te_cfg env) = PROVIDER_FILE"
    and "length (name_stem (te_cfg env) MasterKeyName) \<le> 245"
    and "write_master_key env rnd s = (Inr mk, t)"
  shows "keyring_view (td_keyring t) (ki_name mk) = Some (ki_data mk)" "keyring_wf (td_keyring t)"
    "\<exists>v. ki_name mk = version_name (te_cfg env) MasterKeyName v"
    "t = s\<lparr>td_keyring := td_keyring t\<rparr>"
proof -
  let ?k = "td_keyring s" and ?cfg = "te_cfg env" and ?ext = "te_keyring env"
  have nv: "keyringProvider ?cfg \<noteq> PROVIDER_VAULT_V2" using assms(2) by simp
  obtain n p where n: "latest_version ?cfg MasterKeyName ?k n" "n \<le> 1024"
    and latest: "keyringGetLatestKey ?ext ?cfg MasterKeyName ?k = (Inr (if n = 0 then None else Some p), ?k)"
    and found: "n \<noteq> 0 \<Longrightarrow> ki_name (key_at ?k p) = version_name ?cfg MasterKeyName n \<and>
        keyring_view ?k (version_name ?cfg MasterKeyName n) = Some (ki_data (key_at ?k p))"
    by (rule latest_key_found [OF assms(1) nv assms(3), of ?ext]) blast
  have goal: "keyring_view (td_keyring t) (ki_name mk) = Some (ki_data mk) \<and> keyring_wf (td_keyring t) \<and>
      (\<exists>v. ki_name mk = version_name ?cfg MasterKeyName v) \<and> t = s\<lparr>td_keyring := td_keyring t\<rparr>"
  proof (cases "n = 0")
    case False
    with latest have "write_master_key env rnd s = (Inr (key_at ?k p), s)"
      by (simp add: write_master_key_def on_keyring_def cmd_simps)
    with assms(1,4) found [OF False] show ?thesis by auto
  next
    case True
    obtain g u where g: "keyringGenerateKey ?ext ?cfg rnd MasterKeyName 16 ?k = (g, u)" by fastforce
    with latest True assms(4) obtain q where q: "g = Inr (Some q)" "mk = key_at u q" "t = s\<lparr>td_keyring := u\<rparr>"
      by (auto simp: write_master_key_def on_keyring_def cmd_simps split: sum.splits option.splits)
    from generated_key_found [OF assms(1,2,3) n(1) _ g [unfolded q(1)]] True
    have "ki_name (key_at u q) = version_name ?cfg MasterKeyName 1" "keyring_wf u"
      "keyring_view u (version_name ?cfg MasterKeyName 1) = Some (ki_data (key_at u q))"
      by simp_all
    with q show ?thesis by auto
  qed
  then show "keyring_view (td_keyring t) (ki_name mk) = Some (ki_data mk)" "keyring_wf (td_keyring t)"
    "\<exists>v. ki_name mk = version_name ?cfg MasterKeyName v" "t = s\<lparr>td_keyring := td_keyring t\<rparr>"
    by blast+
qed

section \<open>Names without NUL\<close>

definition c_str :: "string \<Rightarrow> bool" where
  "c_str s \<longleftrightarrow> CHR 0x00 \<notin> set s"

lemma c_str_dec: "c_str (dec n)"
proof (induction n rule: dec.induct)
  case (1 n)
  have d: "CHR 0x00 \<noteq> char_of (48 + m)" if "m < 10" for m :: nat
  proof
    assume "CHR 0x00 = char_of (48 + m)"
    then have "of_char (char_of (48 + m) :: char) = (0 :: nat)" by (metis of_char_Char of_char_eq_iff char_of_0 of_char_of mod_0)
    with that show False by (simp add: of_char_of)
  qed
  show ?case
  proof (cases "n < 10")
    case False
    with 1 have "CHR 0x00 \<notin> set (dec (n div 10))" by (simp add: c_str_def)
    with False d [of "n mod 10"] show ?thesis
      by (subst dec.simps) (simp add: c_str_def)
  qed (use d [of n] in \<open>subst dec.simps, simp add: c_str_def\<close>)
qed

lemma c_str_version_name:
  assumes "c_str nm" "case keyringKeyPrefix cfg of None \<Rightarrow> True | Some pre \<Rightarrow> c_str pre"
  shows "c_str (version_name cfg nm v)"
proof -
  have "c_str (name_stem cfg nm)"
    using assms by (auto simp: name_stem_def c_str_def split: option.splits)
  then show ?thesis
    using c_str_dec [of "unat (of_nat v :: uint32)"] set_take_subset
    unfolding version_name_def keyringConstructKeyName_stem c_str_def by fastforce
qed

lemma length_version_name: "length (version_name cfg nm v) < 256"
  using length_keyringConstructKeyName [of cfg nm "of_nat v"] by (simp add: version_name_def)

section \<open>Writing and reading succeed together\<close>

lemma write_key_fork_success:
  assumes "keyring_wf (td_keyring s)" "keyringProvider (te_cfg env) = PROVIDER_FILE"
    and "length (name_stem (te_cfg env) MasterKeyName) \<le> 245"
    and "cbc_ready (te_crypto env) E D" "length (key k) = 16" "ctx k = None"
    and "pg_tde_write_key_fork env rnd loc k s = (Inr (), t)"
  obtains mk f v where "pg_tde_get_key_file_path env loc = Some f"
    "keyring_view (td_keyring t) (ki_name mk) = Some (ki_data mk)" "keyring_wf (td_keyring t)"
    "ki_name mk = version_name (te_cfg env) MasterKeyName v"
    "t = s\<lparr>td_keyring := td_keyring t,
      xs_files := (xs_files s)(f \<mapsto> header_bytes (ki_name mk) @ key_bytes env (sealed_key E mk k) @
        drop 304 (case xs_files s f of None \<Rightarrow> [] | Some old \<Rightarrow> old)),
      pendingDeletes := \<lparr>pd_path = f, pd_atCommit = False, pd_nestLevel = xs_nestLevel s\<rparr> # pendingDeletes s,
      td_heap := td_heap s @ [single_key (ki_name mk) k],
      tde_rel_keys_map := [(relNumber loc, length (td_heap s))]\<rparr>"
proof -
  obtain r s1 where m: "write_master_key env rnd s = (r, s1)" by fastforce
  with assms(7) obtain mk where mk: "r = Inr mk"
    by (cases r) (auto simp: pg_tde_write_key_fork_def bindC_def)
  note w = write_master_key_local [OF assms(1-3) m [unfolded mk]]
  let ?img = "header_bytes (ki_name mk) @ key_bytes env (sealed_key E mk k)"
  have li: "length ?img = 304"
    using sealed_key_wf [OF assms(4,5), of mk] assms(6) by (simp add: length_key_bytes)
  have lk: "length (key_bytes env (sealed_key E mk k)) = 40"
    using sealed_key_wf [OF assms(4,5), of mk] assms(6) by (simp add: length_key_bytes)
  from assms(7) m mk obtain f where f: "pg_tde_get_key_file_path env loc = Some f"
    by (auto simp: pg_tde_write_key_fork_def bindC_def split: option.splits)
  let ?s2 = "write_at_0 f [] s1"
  have img: "encrypted_image env mk \<lparr>master_key_name = ki_name mk, internal_keys_len = 1, internal_key = [k]\<rparr> = Inr ?img"
    using encrypted_image_single [OF assms(4-6)] by (simp add: single_key_def)
  from assms(7) m mk f img li have t: "t = put_keys_into_map (relNumber loc) (length (td_heap ?s2))
      (RegisterFileForDeletion f False (write_at_0 f ?img (?s2\<lparr>td_heap := td_heap ?s2 @ [single_key (ki_name mk) k]\<rparr>)))"
    by (auto simp: pg_tde_write_key_fork_def bindC_def Let_def alloc_keys_def single_key_def split: if_splits)
  obtain kk where s1: "s1 = s\<lparr>td_keyring := kk\<rparr>" using w(4) by blast
  have t': "td_keyring t = td_keyring s1"
    by (simp add: t put_keys_into_map_def RegisterFileForDeletion_def write_at_0_def)
  obtain v where v: "ki_name mk = version_name (te_cfg env) MasterKeyName v" using w(3) by blast
  show thesis
  proof (rule that [OF f])
    show "t = s\<lparr>td_keyring := td_keyring t,
      xs_files := (xs_files s)(f \<mapsto> header_bytes (ki_name mk) @ key_bytes env (sealed_key E mk k) @
        drop 304 (case xs_files s f of None \<Rightarrow> [] | Some old \<Rightarrow> old)),
      pendingDeletes := \<lparr>pd_path = f, pd_atCommit = False, pd_nestLevel = xs_nestLevel s\<rparr> # pendingDeletes s,
      td_heap := td_heap s @ [single_key (ki_name mk) k],
      tde_rel_keys_map := [(relNumber loc, length (td_heap s))]\<rparr>"
      unfolding t' unfolding t
      by (simp add: lk s1 put_keys_into_map_def RegisterFileForDeletion_def write_at_0_def split: option.split)
  qed (use w(1,2) t' v in simp_all)
qed

lemma get_keys_from_fork_result:
  assumes "cbc_ready (te_crypto env) E D" "length (key k) = 16" "ctx k = None"
    and "pg_tde_get_key_file_path env loc = Some f" "open_rdonly env f" "FileRead env f 304 = 304"
    and "xs_files u f = Some (header_bytes (ki_name mk) @ key_bytes env (sealed_key E mk k))"
    and "length (ki_name mk) < 256" "c_str (ki_name mk)"
    and "keyring_wf (td_keyring u)" "keyring_view (td_keyring u) (ki_name mk) = Some (ki_data mk)"
  shows "pg_tde_get_keys_from_fork env loc u =
    (Inr (length (td_heap u)), u\<lparr>td_heap := td_heap u @ [single_key (ki_name mk) k]\<rparr>)"
proof -
  let ?img = "header_bytes (ki_name mk) @ key_bytes env (sealed_key E mk k)"
  let ?sealed = "sealed_key E mk k"
  note sk = sealed_key_wf [OF assms(1,2), of mk]
  have li: "length ?img = 304"
    using sk assms(3) by (simp add: length_key_bytes)
  have parse: "rel_keys_of_bytes env ?img = single_key (ki_name mk) ?sealed"
    using sk assms(3,8,9) by (intro rel_keys_of_image) (simp_all add: c_str_def)
  obtain p where p: "keyringGetKey (te_keyring env) (te_cfg env) (ki_name mk) (td_keyring u) = (Inr (Some p), td_keyring u)"
      "ki_data (key_at (td_keyring u) p) = ki_data mk"
    by (rule keyringGetKey_hit [OF assms(10,11)])
  let ?x = "xor_bytes (D (take 16 (kd_data (ki_data mk))) (key ?sealed)) zero_iv"
  have "AesDecrypt (te_crypto env) (kd_data (ki_data mk)) zero_iv (key ?sealed) (stack_array (te_crypto env) ''dataDec'' 1024) =
      Inr (0, ?x @ drop 16 (stack_array (te_crypto env) ''dataDec'' 1024))"
    using sk(1) by (intro AesDecrypt_block [OF assms(1)]) simp_all
  moreover have "?x = key k"
    using cbc_inverse(2) [OF assms(1), of zero_iv "key k"] assms(2) by (simp add: sealed_key_def)
  moreover have "key0 (single_key (ki_name mk) ?sealed) = ?sealed"
    by (simp add: key0_def single_key_def)
  moreover have "?sealed\<lparr>key := key k\<rparr> = k"
    by (simp add: sealed_key_def)
  ultimately show ?thesis
    using assms(2,4-7) li parse p
    by (simp add: pg_tde_get_keys_from_fork_def Let_def SizeOfRelKeysData_def bindC_def on_keyring_def alloc_keys_def)
      (simp add: single_key_def alloc_keys_def)
qed

text \<open>
  A working installation: OpenSSL behaves as documented for CBC, keys are kept in a data file,
  and the key prefix leaves room for the name of the master key.
\<close>

definition tde_ready ::
  "('c, 'w) tde_env \<Rightarrow> (byte list \<Rightarrow> byte list \<Rightarrow> byte list) \<Rightarrow> (byte list \<Rightarrow> byte list \<Rightarrow> byte list) \<Rightarrow> bool" where
  "tde_ready env E D \<longleftrightarrow>
     cbc_ready (te_crypto env) E D \<and> keyringProvider (te_cfg env) = PROVIDER_FILE \<and>
     length (name_stem (te_cfg env) MasterKeyName) \<le> 245 \<and>
     (case keyringKeyPrefix (te_cfg env) of None \<Rightarrow> True | Some pre \<Rightarrow> c_str pre)"

lemma c_str_master_name: "tde_ready env E D \<Longrightarrow> c_str (version_name (te_cfg env) MasterKeyName v)"
  by (rule c_str_version_name) (simp_all add: tde_ready_def MasterKeyName_def c_str_def)

lemma write_master_key_succeeds:
  assumes "tde_ready env E D" "keyring_wf (td_keyring s)" "unat (keyCount (kr_cache (td_keyring s))) < 1024"
    and "keyringFileDataFileName (te_cfg env) \<noteq> ''''" "fopen_w (te_keyring env) (keyringFileDataFileName (te_cfg env))"
    and "rnd = Some bs"
  obtains mk t where "write_master_key env rnd s = (Inr mk, t)"
proof -
  let ?k = "td_keyring s" and ?cfg = "te_cfg env" and ?ext = "te_keyring env"
  have r: "keyringProvider ?cfg = PROVIDER_FILE" "length (name_stem ?cfg MasterKeyName) \<le> 245"
    using assms(1) by (simp_all add: tde_ready_def)
  then have nv: "keyringProvider ?cfg \<noteq> PROVIDER_VAULT_V2" by simp
  obtain n p where loop: "version_loop ?ext ?cfg MasterKeyName 1 None ?k = (Inr (if n = 0 then None else Some p, of_nat (n + 1)), ?k)"
    and latest: "keyringGetLatestKey ?ext ?cfg MasterKeyName ?k = (Inr (if n = 0 then None else Some p), ?k)"
    by (rule latest_key_found [OF assms(2) nv r(2), of ?ext])
  show thesis
  proof (cases "n = 0")
    case False
    with latest show thesis
      by (intro that) (simp add: write_master_key_def on_keyring_def cmd_simps)
  next
    case True
    then show thesis
      using latest loop assms(6) keyringStoreKey_file [OF r(1) assms(4,5,3)]
      by (intro that) (simp add: write_master_key_def on_keyring_def cmd_simps keyringGenerateKey_def)
  qed
qed

lemma write_key_fork_succeeds:
  assumes "tde_ready env E D" "keyring_wf (td_keyring s)" "unat (keyCount (kr_cache (td_keyring s))) < 1024"
    and "keyringFileDataFileName (te_cfg env) \<noteq> ''''" "fopen_w (te_keyring env) (keyringFileDataFileName (te_cfg env))"
    and "length (key k) = 16" "ctx k = None"
    and "pg_tde_get_key_file_path env loc = Some f" "open_creat env f" "FileWrite env f 304 = 304"
  obtains t where "pg_tde_write_key_fork env (Some bs) loc k s = (Inr (), t)"
proof -
  obtain mk s1 where m: "write_master_key env (Some bs) s = (Inr mk, s1)"
    by (rule write_master_key_succeeds [OF assms(1-5) refl])
  have c: "cbc_ready (te_crypto env) E D" using assms(1) by (simp add: tde_ready_def)
  let ?img = "header_bytes (ki_name mk) @ key_bytes env (sealed_key E mk k)"
  have "length ?img = 304"
    using sealed_key_wf [OF c assms(6), of mk] assms(7) by (simp add: length_key_bytes)
  moreover have "encrypted_image env mk \<lparr>master_key_name = ki_name mk, internal_keys_len = 1, internal_key = [k]\<rparr> = Inr ?img"
    using encrypted_image_single [OF c assms(6,7)] by (simp add: single_key_def)
  ultimately show thesis
    using m assms(8-10) by (intro that) (simp add: pg_tde_write_key_fork_def bindC_def Let_def alloc_keys_def)
qed

section \<open>Properties of the fork\<close>

definition demo_tde_env :: "(byte list \<times> byte list, unit) tde_env" where
  "demo_tde_env = \<lparr>te_crypto = demo_env, te_keyring = demo_ext, te_cfg = demo_cfg,
     relpathperm = (\<lambda>loc. Some (''base/'' @ dec (unat (dbOid loc)) @ ''/'' @ dec (unat (relNumber loc)))),
     open_creat = (\<lambda>_. True), open_rdonly = (\<lambda>_. True), FileWrite = (\<lambda>f n. n), FileRead = (\<lambda>f n. int n),
     ptr_bytes = (\<lambda>_. replicate 8 1), ptr_at = (\<lambda>_. ([], []))\<rparr>"

definition demo_tde_state :: "(byte list \<times> byte list, unit) tde_state" where
  "demo_tde_state = \<lparr>pendingDeletes = [], xs_nestLevel = 1, xs_files = Map.empty, td_keyring = demo_keyring,
     tde_rel_keys_map = [], td_heap = [], td_wal = []\<rparr>"

definition demo_loc :: RelFileLocator where
  "demo_loc = \<lparr>spcOid = 1663, dbOid = 5, relNumber = 16384\<rparr>"

definition demo_key :: "(byte list \<times> byte list) InternalKey" where
  "demo_key = \<lparr>key = replicate 16 7, start_loc = 0, end_loc = 0, ctx = None\<rparr>"

definition demo_path :: path where
  "demo_path = the (pg_tde_get_key_file_path demo_tde_env demo_loc)"

lemma demo_tde_ready: "tde_ready demo_tde_env demo_E demo_E"
  using demo_cbc_ready
  by (simp add: tde_ready_def demo_tde_env_def demo_cfg_def keyring_config_start_def c_str_def name_stem_def MasterKeyName_def)

lemma demo_path: "pg_tde_get_key_file_path demo_tde_env demo_loc = Some demo_path"
  by (simp add: demo_path_def pg_tde_get_key_file_path_def demo_tde_env_def)

lemma demo_key_simps [simp]: "length (key demo_key) = 16" "ctx demo_key = None"
  by (simp_all add: demo_key_def)

lemma demo_write:
  obtains t where "pg_tde_write_key_fork demo_tde_env (Some (replicate 16 3)) demo_loc demo_key demo_tde_state = (Inr (), t)"
proof (rule write_key_fork_succeeds [OF demo_tde_ready _ _ _ _ demo_key_simps demo_path])
  show "unat (keyCount (kr_cache (td_keyring demo_tde_state))) < 1024"
    by (simp add: demo_tde_state_def demo_keyring_def zero_cache_def)
qed (simp_all add: demo_tde_state_def demo_tde_env_def demo_cfg_def demo_ext_def)

text \<open>
  (C4) The key fork round trip: when \<open>pg_tde_write_key_fork\<close> returns, any backend that sees
  the file and a keyring with the same keys, for instance after a restart, reads back exactly
  the internal key that was written, under the name of a master key that is in the keyring,
  although only the header is on disk in clear.
\<close>

theorem fork_written_then_read:
  assumes "tde_ready env E D" "keyring_wf (td_keyring s)" "length (key k) = 16" "ctx k = None"
    and "pg_tde_get_key_file_path env loc = Some f" "\<forall>old. xs_files s f = Some old \<longrightarrow> length old \<le> 304"
    and "pg_tde_write_key_fork env rnd loc k s = (Inr (), t)"
    and "open_rdonly env f" "FileRead env f 304 = 304"
    and "xs_files u f = xs_files t f" "keyring_wf (td_keyring u)" "keyring_view (td_keyring u) = keyring_view (td_keyring t)"
  shows "\<exists>mk p u'. pg_tde_get_keys_from_fork env loc u = (Inr p, u') \<and>
     td_heap u' ! p = \<lparr>master_key_name = ki_name mk, internal_keys_len = 1, internal_key = [k]\<rparr> \<and>
     keyring_view (td_keyring t) (ki_name mk) = Some (ki_data mk) \<and>
     xs_files t f = Some (header_bytes (ki_name mk) @ key_bytes env (sealed_key E mk k))"
proof -
  have r: "keyringProvider (te_cfg env) = PROVIDER_FILE" "length (name_stem (te_cfg env) MasterKeyName) \<le> 245"
    "cbc_ready (te_crypto env) E D"
    using assms(1) by (simp_all add: tde_ready_def)
  obtain mk f' v where w: "pg_tde_get_key_file_path env loc = Some f'"
      "keyring_view (td_keyring t) (ki_name mk) = Some (ki_data mk)" "ki_name mk = version_name (te_cfg env) MasterKeyName v"
    and t: "t = s\<lparr>td_keyring := td_keyring t,
      xs_files := (xs_files s)(f' \<mapsto> header_bytes (ki_name mk) @ key_bytes env (sealed_key E mk k) @
        drop 304 (case xs_files s f' of None \<Rightarrow> [] | Some old \<Rightarrow> old)),
      pendingDeletes := \<lparr>pd_path = f', pd_atCommit = False, pd_nestLevel = xs_nestLevel s\<rparr> # pendingDeletes s,
      td_heap := td_heap s @ [single_key (ki_name mk) k],
      tde_rel_keys_map := [(relNumber loc, length (td_heap s))]\<rparr>"
    by (rule write_key_fork_success [OF assms(2) r assms(3,4,7)])
  have "f' = f" using w(1) assms(5) by simp
  moreover have "drop 304 (case xs_files s f of None \<Rightarrow> [] | Some old \<Rightarrow> old) = []"
    using assms(6) by (simp split: option.split)
  ultimately have img: "xs_files t f = Some (header_bytes (ki_name mk) @ key_bytes env (sealed_key E mk k))"
    using arg_cong [OF t, of xs_files] by simp
  have "pg_tde_get_keys_from_fork env loc u =
      (Inr (length (td_heap u)), u\<lparr>td_heap := td_heap u @ [single_key (ki_name mk) k]\<rparr>)"
  proof (rule get_keys_from_fork_result [OF r(3) assms(3,4,5,8,9)])
    show "xs_files u f = Some (header_bytes (ki_name mk) @ key_bytes env (sealed_key E mk k))"
      using img assms(10) by simp
    show "length (ki_name mk) < 256" "c_str (ki_name mk)"
      unfolding w(3) by (rule length_version_name, rule c_str_master_name [OF assms(1)])
  qed (use assms(11,12) w(2) in simp_all)
  with w(2) img show ?thesis
    by (intro exI [of _ mk] exI [of _ "length (td_heap u)"] exI [of _ "u\<lparr>td_heap := td_heap u @ [single_key (ki_name mk) k]\<rparr>"])
      (simp add: single_key_def)
qed

theorem fork_written_then_read_witness:
  "\<exists>t nm p u'. pg_tde_write_key_fork demo_tde_env (Some (replicate 16 3)) demo_loc demo_key demo_tde_state = (Inr (), t) \<and>
     pg_tde_get_keys_from_fork demo_tde_env demo_loc (demo_tde_state\<lparr>xs_files := xs_files t, td_keyring := td_keyring t\<rparr>) = (Inr p, u') \<and>
     td_heap u' ! p = \<lparr>master_key_name = nm, internal_keys_len = 1, internal_key = [demo_key]\<rparr>"
proof -
  obtain t where t: "pg_tde_write_key_fork demo_tde_env (Some (replicate 16 3)) demo_loc demo_key demo_tde_state = (Inr (), t)"
    by (rule demo_write)
  have wf: "keyring_wf (td_keyring demo_tde_state)" by (simp add: demo_tde_state_def)
  have wft: "keyring_wf (td_keyring t)"
  proof (rule write_key_fork_success [OF wf _ _ _ demo_key_simps t])
    show "cbc_ready (te_crypto demo_tde_env) demo_E demo_E" "keyringProvider (te_cfg demo_tde_env) = PROVIDER_FILE"
      "length (name_stem (te_cfg demo_tde_env) MasterKeyName) \<le> 245"
      using demo_tde_ready by (simp_all add: tde_ready_def)
  qed
  have "open_rdonly demo_tde_env demo_path" "FileRead demo_tde_env demo_path 304 = 304"
    "\<forall>old. xs_files demo_tde_state demo_path = Some old \<longrightarrow> length old \<le> 304"
    by (simp_all add: demo_tde_env_def demo_tde_state_def)
  let ?u = "demo_tde_state\<lparr>xs_files := xs_files t, td_keyring := td_keyring t\<rparr>"
  have "xs_files ?u demo_path = xs_files t demo_path" "keyring_wf (td_keyring ?u)"
    "keyring_view (td_keyring ?u) = keyring_view (td_keyring t)"
    using wft by simp_all
  from fork_written_then_read [OF demo_tde_ready wf demo_key_simps demo_path \<open>\<forall>old. _ old\<close> t \<open>open_rdonly _ _\<close> \<open>FileRead _ _ _ = _\<close> this]
  obtain nm p u' where "pg_tde_get_keys_from_fork demo_tde_env demo_loc ?u = (Inr p, u')"
     "td_heap u' ! p = \<lparr>master_key_name = nm, internal_keys_len = 1, internal_key = [demo_key]\<rparr>"
    by blast
  with t show ?thesis by blast
qed

section \<open>Properties of creation, redo and the cache\<close>

lemma locator_round [simp]: "locator_of_bytes (locator_bytes loc) = loc"
  by (cases loc) (simp add: locator_of_bytes_def locator_bytes_def)

lemma length_locator_bytes [simp]: "length (locator_bytes loc) = 12"
  by (simp add: locator_bytes_def)

text \<open>What is logged for a creation with the random bytes \<open>bs\<close>.\<close>

definition fresh_key :: "byte list \<Rightarrow> 'c InternalKey" where
  "fresh_key bs = \<lparr>key = take INTERNAL_KEY_LEN bs, start_loc = 0, end_loc = 0, ctx = None\<rparr>"

lemma create_steps:
  assumes "pg_tde_create_key_fork env krnd mrnd loc s = (r, t)" "krnd = Some bs"
  shows "pg_tde_write_key_fork env mrnd loc (fresh_key bs)
      (s\<lparr>td_wal := td_wal s @ [(0, locator_bytes loc @ key_bytes env (fresh_key bs))]\<rparr>) = (r, t)"
  using assms by (simp add: pg_tde_create_key_fork_def Let_def fresh_key_def)

lemma redo_of_logged:
  assumes "length bs = 16"
  shows "pg_tde_rmgr_redo env mrnd (0, locator_bytes loc @ key_bytes env (fresh_key bs)) =
     pg_tde_write_key_fork env mrnd loc (fresh_key bs)"
proof -
  have k: "length (key (fresh_key bs)) = 16" "ctx (fresh_key bs) = None"
    using assms by (simp_all add: fresh_key_def)
  then show ?thesis
    using length_key_bytes [OF k, of env] key_of_key_bytes [OF k, of env]
    by (simp add: pg_tde_rmgr_redo_def pg_tde_xlog_create_fork_def)
qed

text \<open>
  Redo repeats the creation: a successful \<open>pg_tde_create_key_fork\<close> logs one record whose
  replay is exactly the write of the same internal key into the key fork of the same relation,
  in whatever state and with whatever master key the replaying server has, and which
  \<open>pg_tde_rmgr_desc\<close> and \<open>pg_tde_rmgr_identify\<close> describe by that relation.
\<close>

lemma redo_repeats_creation:
  assumes "tde_ready env E D" "keyring_wf (td_keyring s)" "length bs = 16"
    and "pg_tde_create_key_fork env (Some bs) mrnd loc s = (Inr (), t)"
  shows "\<exists>rec. td_wal t = td_wal s @ [rec] \<and>
     (\<forall>rnd. pg_tde_rmgr_redo env rnd rec = pg_tde_write_key_fork env rnd loc (fresh_key bs)) \<and>
     pg_tde_rmgr_identify (fst rec) = Some ''TDE_CREATE_FORK'' \<and>
     pg_tde_rmgr_desc '''' rec =
       ''create tde fork for relation '' @ dec (unat (dbOid loc)) @ ''/'' @ dec (unat (relNumber loc))"
proof -
  let ?rec = "(0, locator_bytes loc @ key_bytes env (fresh_key bs))"
  let ?s = "s\<lparr>td_wal := td_wal s @ [?rec]\<rparr>"
  have w: "pg_tde_write_key_fork env mrnd loc (fresh_key bs) ?s = (Inr (), t)"
    using create_steps [OF assms(4) refl] by simp
  have k: "length (key (fresh_key bs)) = 16" "ctx (fresh_key bs) = None"
    using assms(3) by (simp_all add: fresh_key_def)
  have r: "keyringProvider (te_cfg env) = PROVIDER_FILE" "length (name_stem (te_cfg env) MasterKeyName) \<le> 245"
    "cbc_ready (te_crypto env) E D" "keyring_wf (td_keyring ?s)"
    using assms(1,2) by (simp_all add: tde_ready_def)
  obtain mk f where t: "t = ?s\<lparr>td_keyring := td_keyring t,
      xs_files := (xs_files ?s)(f \<mapsto> header_bytes (ki_name mk) @ key_bytes env (sealed_key E mk (fresh_key bs)) @
        drop 304 (case xs_files ?s f of None \<Rightarrow> [] | Some old \<Rightarrow> old)),
      pendingDeletes := \<lparr>pd_path = f, pd_atCommit = False, pd_nestLevel = xs_nestLevel ?s\<rparr> # pendingDeletes ?s,
      td_heap := td_heap ?s @ [single_key (ki_name mk) (fresh_key bs)],
      tde_rel_keys_map := [(relNumber loc, length (td_heap ?s))]\<rparr>"
    by (rule write_key_fork_success [OF r(4,1,2,3) k w])
  have "td_wal t = td_wal s @ [?rec]"
    using arg_cong [OF t, of td_wal] by simp
  then show ?thesis
    by (intro exI [of _ ?rec]) (simp add: redo_of_logged [OF assms(3)] pg_tde_rmgr_identify_def pg_tde_rmgr_desc_def)
qed

lemma demo_create:
  obtains t where "pg_tde_create_key_fork demo_tde_env (Some (replicate 16 7)) (Some (replicate 16 3)) demo_loc demo_tde_state = (Inr (), t)"
proof -
  let ?k = "\<lparr>key = replicate 16 7, start_loc = 0, end_loc = 0, ctx = None\<rparr>"
  let ?s = "demo_tde_state\<lparr>td_wal := [(0, locator_bytes demo_loc @ key_bytes demo_tde_env ?k)]\<rparr>"
  obtain t where "pg_tde_write_key_fork demo_tde_env (Some (replicate 16 3)) demo_loc ?k ?s = (Inr (), t)"
  proof (rule write_key_fork_succeeds [OF demo_tde_ready _ _ _ _ _ _ demo_path, of ?s ?k "replicate 16 3"])
    show "unat (keyCount (kr_cache (td_keyring ?s))) < 1024"
      by (simp add: demo_tde_state_def demo_keyring_def zero_cache_def)
  qed (simp_all add: demo_tde_state_def demo_tde_env_def demo_cfg_def demo_ext_def)
  then show thesis
    by (intro that) (simp add: pg_tde_create_key_fork_def Let_def demo_tde_state_def)
qed

lemma redo_repeats_creation_witness:
  "\<exists>t rec. pg_tde_create_key_fork demo_tde_env (Some (replicate 16 7)) (Some (replicate 16 3)) demo_loc demo_tde_state = (Inr (), t) \<and>
     td_wal t = [rec] \<and> pg_tde_rmgr_redo demo_tde_env None rec = pg_tde_write_key_fork demo_tde_env None demo_loc (fresh_key (replicate 16 7))"
proof -
  obtain t where t: "pg_tde_create_key_fork demo_tde_env (Some (replicate 16 7)) (Some (replicate 16 3)) demo_loc demo_tde_state = (Inr (), t)"
    by (rule demo_create)
  have "keyring_wf (td_keyring demo_tde_state)" "length (replicate 16 (7::byte)) = 16" "td_wal demo_tde_state = []"
    by (simp_all add: demo_tde_state_def)
  from redo_repeats_creation [OF demo_tde_ready this(1,2) t] t this(3) show ?thesis by auto
qed

text \<open>
  (C34) The key fork lives and dies with the transaction that creates it, at any nesting level and
  whatever other deletions are pending. When the transaction or subtransaction of the creation
  aborts next, the files are those the abort would have left without the creation, and the key file is
  gone if the system lets it be removed. When the transaction commits next, they are those of a commit
  without the creation and the key file stays as it was written, provided that no older request
  names it. The requests that remain are those without the creation. (A savepoint that is released
  in between is not covered: \<open>released_savepoint_loses_key_file\<close>.)
\<close>

theorem key_fork_follows_transaction:
  assumes "tde_ready env E D" "keyring_wf (td_keyring s)" "length bs = 16"
    and "pg_tde_create_key_fork env (Some bs) mrnd loc s = (Inr (), t)" "pg_tde_get_key_file_path env loc = Some f"
  shows "xs_files t f \<noteq> None \<and>
     xs_files (pg_tde_xact_callback unlink_ok XACT_EVENT_ABORT t) =
       (xs_files (pg_tde_xact_callback unlink_ok XACT_EVENT_ABORT s))(f := if unlink_ok f then None else xs_files t f) \<and>
     xs_files (pg_tde_subxact_callback unlink_ok SUBXACT_EVENT_ABORT_SUB t) =
       (xs_files (pg_tde_subxact_callback unlink_ok SUBXACT_EVENT_ABORT_SUB s))(f := if unlink_ok f then None else xs_files t f) \<and>
     ((\<forall>p\<in>set (pendingDeletes s). pd_path p \<noteq> f) \<longrightarrow>
       xs_files (pg_tde_xact_callback unlink_ok XACT_EVENT_COMMIT t) =
         (xs_files (pg_tde_xact_callback unlink_ok XACT_EVENT_COMMIT s))(f := xs_files t f)) \<and>
     pendingDeletes (pg_tde_xact_callback unlink_ok XACT_EVENT_ABORT t) =
       pendingDeletes (pg_tde_xact_callback unlink_ok XACT_EVENT_ABORT s) \<and>
     pendingDeletes (pg_tde_subxact_callback unlink_ok SUBXACT_EVENT_ABORT_SUB t) =
       pendingDeletes (pg_tde_subxact_callback unlink_ok SUBXACT_EVENT_ABORT_SUB s) \<and>
     pendingDeletes (pg_tde_xact_callback unlink_ok XACT_EVENT_COMMIT t) = []"
proof -
  let ?s = "s\<lparr>td_wal := td_wal s @ [(0, locator_bytes loc @ key_bytes env (fresh_key bs))]\<rparr>"
  have w: "pg_tde_write_key_fork env mrnd loc (fresh_key bs) ?s = (Inr (), t)"
    using create_steps [OF assms(4) refl] by simp
  have k: "length (key (fresh_key bs)) = 16" "ctx (fresh_key bs) = None"
    using assms(3) by (simp_all add: fresh_key_def)
  have r: "keyringProvider (te_cfg env) = PROVIDER_FILE" "length (name_stem (te_cfg env) MasterKeyName) \<le> 245"
    "cbc_ready (te_crypto env) E D" "keyring_wf (td_keyring ?s)"
    using assms(1,2) by (simp_all add: tde_ready_def)
  obtain mk f' where f': "pg_tde_get_key_file_path env loc = Some f'" and t: "t = ?s\<lparr>td_keyring := td_keyring t,
      xs_files := (xs_files ?s)(f' \<mapsto> header_bytes (ki_name mk) @ key_bytes env (sealed_key E mk (fresh_key bs)) @
        drop 304 (case xs_files ?s f' of None \<Rightarrow> [] | Some old \<Rightarrow> old)),
      pendingDeletes := \<lparr>pd_path = f', pd_atCommit = False, pd_nestLevel = xs_nestLevel ?s\<rparr> # pendingDeletes ?s,
      td_heap := td_heap ?s @ [single_key (ki_name mk) (fresh_key bs)],
      tde_rel_keys_map := [(relNumber loc, length (td_heap ?s))]\<rparr>"
    by (rule write_key_fork_success [OF r(4,1,2,3) k w])
  have ff: "f' = f" using f' assms(5) by simp
  have st: "pendingDeletes t = \<lparr>pd_path = f, pd_atCommit = False, pd_nestLevel = xs_nestLevel s\<rparr> # pendingDeletes s"
    "xs_nestLevel t = xs_nestLevel s" "xs_files t f \<noteq> None" "\<And>g. g \<noteq> f \<Longrightarrow> xs_files t g = xs_files s g"
    using arg_cong [OF t, of pendingDeletes] arg_cong [OF t, of xs_nestLevel] arg_cong [OF t, of xs_files] ff
    by simp_all
  show ?thesis
    using st by (auto simp: pg_tde_xact_callback_def pg_tde_subxact_callback_def xact_results remove_files_def fun_eq_iff)
qed

theorem key_fork_follows_transaction_witness:
  "\<exists>t. pg_tde_create_key_fork demo_tde_env (Some (replicate 16 7)) (Some (replicate 16 3)) demo_loc demo_tde_state = (Inr (), t) \<and>
     xs_files (pg_tde_xact_callback (\<lambda>_. True) XACT_EVENT_ABORT t) demo_path = None \<and>
     xs_files (pg_tde_xact_callback (\<lambda>_. True) XACT_EVENT_COMMIT t) demo_path \<noteq> None"
proof -
  obtain t where t: "pg_tde_create_key_fork demo_tde_env (Some (replicate 16 7)) (Some (replicate 16 3)) demo_loc demo_tde_state = (Inr (), t)"
    by (rule demo_create)
  have "keyring_wf (td_keyring demo_tde_state)" "length (replicate 16 (7::byte)) = 16" "pendingDeletes demo_tde_state = []"
    by (simp_all add: demo_tde_state_def)
  with key_fork_follows_transaction [OF demo_tde_ready this(1,2) t demo_path, of "\<lambda>_. True"] t show ?thesis
    by auto
qed

text \<open>
  A short write leaves garbage: when \<^verbatim>\<open>FileWrite\<close> writes less than the whole key data,
  the statement fails with the file created but no deletion requested, so that not even the
  abort of the transaction removes it.
\<close>

lemma short_write_leaves_file:
  assumes "tde_ready env E D" "keyring_wf (td_keyring s)" "length (key k) = 16" "ctx k = None"
    and "pg_tde_get_key_file_path env loc = Some f" "open_creat env f" "FileWrite env f 304 < 304"
    and "write_master_key env rnd s = (Inr mk, s1)" "pendingDeletes s = []"
  shows "\<exists>e t. pg_tde_write_key_fork env rnd loc k s = (Inl (Ereport FATAL e), t) \<and>
     xs_files (pg_tde_xact_callback unlink_ok XACT_EVENT_ABORT t) f \<noteq> None"
proof -
  have r: "keyringProvider (te_cfg env) = PROVIDER_FILE" "length (name_stem (te_cfg env) MasterKeyName) \<le> 245"
    and c: "cbc_ready (te_crypto env) E D" using assms(1) by (simp_all add: tde_ready_def)
  obtain kk where s1: "s1 = s\<lparr>td_keyring := kk\<rparr>"
    using write_master_key_local(4) [OF assms(2) r assms(8)] by blast
  let ?img = "header_bytes (ki_name mk) @ key_bytes env (sealed_key E mk k)"
  have "length ?img = 304"
    using sealed_key_wf [OF c assms(3), of mk] assms(4) by (simp add: length_key_bytes)
  moreover have "encrypted_image env mk \<lparr>master_key_name = ki_name mk, internal_keys_len = 1, internal_key = [k]\<rparr> = Inr ?img"
    using encrypted_image_single [OF c assms(3,4)] by (simp add: single_key_def)
  ultimately obtain e t where "pg_tde_write_key_fork env rnd loc k s = (Inl (Ereport FATAL e), t)"
      "xs_files t f \<noteq> None" "pendingDeletes t = []"
    using assms(5-9) s1 by (simp add: pg_tde_write_key_fork_def bindC_def Let_def alloc_keys_def write_at_0_def)
  then show ?thesis
    by (auto simp: pg_tde_xact_callback_def xact_results)
qed

lemma short_write_leaves_file_witness:
  "\<exists>e t. pg_tde_write_key_fork (demo_tde_env\<lparr>FileWrite := \<lambda>f n. 0\<rparr>) (Some (replicate 16 3)) demo_loc demo_key demo_tde_state =
      (Inl (Ereport FATAL e), t) \<and>
     xs_files (pg_tde_xact_callback (\<lambda>_. True) XACT_EVENT_ABORT t) demo_path \<noteq> None"
proof -
  let ?env = "demo_tde_env\<lparr>FileWrite := \<lambda>f n. 0\<rparr>"
  have e: "tde_ready ?env demo_E demo_E" "pg_tde_get_key_file_path ?env demo_loc = Some demo_path"
    using demo_tde_ready demo_path by (simp_all add: tde_ready_def pg_tde_get_key_file_path_def)
  have s: "keyring_wf (td_keyring demo_tde_state)" "pendingDeletes demo_tde_state = []"
    by (simp_all add: demo_tde_state_def)
  have room: "unat (keyCount (kr_cache (td_keyring demo_tde_state))) < 1024"
    by (simp add: demo_tde_state_def demo_keyring_def zero_cache_def)
  obtain mk s1 where m: "write_master_key ?env (Some (replicate 16 3)) demo_tde_state = (Inr mk, s1)"
    by (rule write_master_key_succeeds [OF e(1) s(1) room _ _ refl, of "replicate 16 3"])
      (simp_all add: demo_tde_env_def demo_cfg_def demo_ext_def)
  show ?thesis
    by (rule short_write_leaves_file [OF e(1) s(1) demo_key_simps e(2) _ _ m s(2)]) (simp_all add: demo_tde_env_def)
qed

lemma GetRelationKeys_hit:
  "map_of (tde_rel_keys_map s) (relNumber rel) = Some p \<Longrightarrow> GetRelationKeys env rel s = (Inr p, s)"
  by (simp add: GetRelationKeys_def)

lemma get_keys_from_fork_map:
  "pg_tde_get_keys_from_fork env rel s = (Inr p, t) \<Longrightarrow> tde_rel_keys_map t = tde_rel_keys_map s \<and> length (td_heap t) = Suc p \<and> p = length (td_heap s)"
  by (auto simp: pg_tde_get_keys_from_fork_def Let_def bindC_def on_keyring_def alloc_keys_def
      split: option.splits if_splits sum.splits prod.splits)

lemma GetRelationKeys_map:
  assumes "GetRelationKeys env rel s = (Inr p, t)"
  shows "map_of (tde_rel_keys_map t) (relNumber rel) = Some p"
    "map_of (tde_rel_keys_map s) (relNumber rel) = None \<Longrightarrow>
       tde_rel_keys_map t = [(relNumber rel, p)] \<and> p = length (td_heap s) \<and> length (td_heap t) = Suc (length (td_heap s))"
proof -
  have miss: "tde_rel_keys_map t = [(relNumber rel, p)] \<and> p = length (td_heap s) \<and> length (td_heap t) = Suc (length (td_heap s))"
    if n: "map_of (tde_rel_keys_map s) (relNumber rel) = None"
  proof -
    obtain r u where u: "pg_tde_get_keys_from_fork env rel s = (r, u)" by fastforce
    with assms n obtain q where q: "r = Inr q" "p = q" "t = put_keys_into_map (relNumber rel) q u"
      by (cases r) (auto simp: GetRelationKeys_def bindC_def)
    with get_keys_from_fork_map [of env rel s q u] u show ?thesis
      by (simp add: put_keys_into_map_def)
  qed
  then show "map_of (tde_rel_keys_map s) (relNumber rel) = None \<Longrightarrow>
       tde_rel_keys_map t = [(relNumber rel, p)] \<and> p = length (td_heap s) \<and> length (td_heap t) = Suc (length (td_heap s))" .
  show "map_of (tde_rel_keys_map t) (relNumber rel) = Some p"
    using assms miss by (cases "map_of (tde_rel_keys_map s) (relNumber rel)") (auto simp: GetRelationKeys_def)
qed

text \<open>
  A lookup is stable: after \<open>GetRelationKeys\<close> has returned a pointer for a relation, the
  next call for it returns the same pointer and changes nothing, without reading the file.
\<close>

lemma GetRelationKeys_cached:
  assumes "GetRelationKeys env rel s = (Inr p, t)"
  shows "GetRelationKeys env' rel t = (Inr p, t)"
  using GetRelationKeys_map(1) [OF assms] by (rule GetRelationKeys_hit)

lemma demo_lookup:
  "\<exists>t. pg_tde_create_key_fork demo_tde_env (Some (replicate 16 7)) (Some (replicate 16 3)) demo_loc demo_tde_state = (Inr (), t) \<and>
     GetRelationKeys demo_tde_env demo_loc t = (Inr 0, t)"
proof -
  obtain t where t: "pg_tde_create_key_fork demo_tde_env (Some (replicate 16 7)) (Some (replicate 16 3)) demo_loc demo_tde_state = (Inr (), t)"
    by (rule demo_create)
  let ?s = "demo_tde_state\<lparr>td_wal := td_wal demo_tde_state @ [(0, locator_bytes demo_loc @ key_bytes demo_tde_env (fresh_key (replicate 16 7)))]\<rparr>"
  have w: "pg_tde_write_key_fork demo_tde_env (Some (replicate 16 3)) demo_loc (fresh_key (replicate 16 7)) ?s = (Inr (), t)"
    using create_steps [OF t refl] by simp
  then have "tde_rel_keys_map t = [(relNumber demo_loc, 0)]"
  proof -
    have r: "cbc_ready (te_crypto demo_tde_env) demo_E demo_E" "keyringProvider (te_cfg demo_tde_env) = PROVIDER_FILE"
      "length (name_stem (te_cfg demo_tde_env) MasterKeyName) \<le> 245" "keyring_wf (td_keyring ?s)"
      using demo_tde_ready by (simp_all add: tde_ready_def demo_tde_state_def)
    have k: "length (key (fresh_key (replicate 16 7) :: (byte list \<times> byte list) InternalKey)) = 16"
      "ctx (fresh_key (replicate 16 7) :: (byte list \<times> byte list) InternalKey) = None"
      by (simp_all add: fresh_key_def)
    obtain mk f where "t = ?s\<lparr>td_keyring := td_keyring t,
      xs_files := (xs_files ?s)(f \<mapsto> header_bytes (ki_name mk) @ key_bytes demo_tde_env (sealed_key demo_E mk (fresh_key (replicate 16 7))) @
        drop 304 (case xs_files ?s f of None \<Rightarrow> [] | Some old \<Rightarrow> old)),
      pendingDeletes := \<lparr>pd_path = f, pd_atCommit = False, pd_nestLevel = xs_nestLevel ?s\<rparr> # pendingDeletes ?s,
      td_heap := td_heap ?s @ [single_key (ki_name mk) (fresh_key (replicate 16 7))],
      tde_rel_keys_map := [(relNumber demo_loc, length (td_heap ?s))]\<rparr>"
      by (rule write_key_fork_success [OF r(4,2,3,1) k w])
    from arg_cong [OF this, of tde_rel_keys_map] show ?thesis
      by (simp add: demo_tde_state_def)
  qed
  with t GetRelationKeys_hit [of t demo_loc 0 demo_tde_env] show ?thesis by simp
qed

text \<open>
  The cache holds one relation: a lookup that has to read a fork drops every other
  relation from the cache, so that alternating between two relations reads and decrypts
  a key file on every access and leaves one more unreferenced key structure in the
  backend's memory each time.
\<close>

lemma keys_cache_thrashes:
  assumes "GetRelationKeys env a s = (Inr p, s1)" "map_of (tde_rel_keys_map s) (relNumber b) = None"
    and "relNumber a \<noteq> relNumber b" "map_of (tde_rel_keys_map s) (relNumber a) = None"
    and "GetRelationKeys env b s1 = (Inr q, s2)" "GetRelationKeys env a s2 = (Inr p', s3)"
  shows "p' \<noteq> p \<and> length (td_heap s3) = length (td_heap s) + 3 \<and> tde_rel_keys_map s3 = [(relNumber a, p')]"
proof -
  have 1: "tde_rel_keys_map s1 = [(relNumber a, p)]" "p = length (td_heap s)" "length (td_heap s1) = Suc (length (td_heap s))"
    using GetRelationKeys_map(2) [OF assms(1,4)] by simp_all
  then have 2: "tde_rel_keys_map s2 = [(relNumber b, q)]" "length (td_heap s2) = Suc (length (td_heap s1))"
    using GetRelationKeys_map(2) [OF assms(5)] assms(3) by simp_all
  then show ?thesis
    using GetRelationKeys_map(2) [OF assms(6)] assms(3) 1 by simp
qed

definition demo_mk :: keyInfo where
  "demo_mk = \<lparr>ki_name = version_name demo_cfg MasterKeyName 1, ki_data = random_key demo_ext (replicate 16 3) 16\<rparr>"

definition demo_fork :: "path \<Rightarrow> byte list option" where
  "demo_fork f = Some (header_bytes (ki_name demo_mk) @ key_bytes demo_tde_env (sealed_key demo_E demo_mk demo_key))"

definition demo_two_forks :: "(byte list \<times> byte list, unit) tde_state" where
  "demo_two_forks = demo_tde_state\<lparr>xs_files := demo_fork,
     td_keyring := demo_keyring\<lparr>kr_cache := added zero_cache (ki_name demo_mk) (ki_data demo_mk)\<rparr>\<rparr>"

lemma demo_GetRelationKeys:
  assumes "td_keyring u = td_keyring demo_two_forks" "xs_files u = demo_fork"
    and "map_of (tde_rel_keys_map u) (relNumber loc) = None"
  shows "\<exists>v. GetRelationKeys demo_tde_env loc u = (Inr (length (td_heap u)), v) \<and>
     td_keyring v = td_keyring demo_two_forks \<and> xs_files v = demo_fork \<and>
     tde_rel_keys_map v = [(relNumber loc, length (td_heap u))] \<and>
     td_heap v = td_heap u @ [single_key (ki_name demo_mk) demo_key]"
proof -
  obtain f where f: "pg_tde_get_key_file_path demo_tde_env loc = Some f"
    by (simp add: pg_tde_get_key_file_path_def demo_tde_env_def)
  have c: "cbc_ready (te_crypto demo_tde_env) demo_E demo_E"
    using demo_tde_ready by (simp add: tde_ready_def)
  have z: "unat (keyCount zero_cache) < 1024" by (simp add: zero_cache_def)
  have "pg_tde_get_keys_from_fork demo_tde_env loc u =
      (Inr (length (td_heap u)), u\<lparr>td_heap := td_heap u @ [single_key (ki_name demo_mk) demo_key]\<rparr>)"
  proof (rule get_keys_from_fork_result [OF c demo_key_simps f])
    show "length (ki_name demo_mk) < 256"
      unfolding demo_mk_def keyInfo.select_convs by (rule length_version_name)
    show "c_str (ki_name demo_mk)"
      using c_str_master_name [OF demo_tde_ready, of 1] by (simp add: demo_mk_def demo_tde_env_def)
    show "xs_files u f = Some (header_bytes (ki_name demo_mk) @ key_bytes demo_tde_env (sealed_key demo_E demo_mk demo_key))"
      using assms(2) by (simp add: demo_fork_def)
    show "keyring_wf (td_keyring u)" "keyring_view (td_keyring u) (ki_name demo_mk) = Some (ki_data demo_mk)"
      using assms(1) added_wf(1,2) [OF zero_cache_wf z] by (simp_all add: demo_two_forks_def keyring_wf_def keyring_view_def)
  qed (simp_all add: demo_tde_env_def)
  with assms show ?thesis
    by (simp add: GetRelationKeys_def bindC_def put_keys_into_map_def)
qed

lemma keys_cache_thrashes_witness:
  "\<exists>p s1 q s2 p' s3. GetRelationKeys demo_tde_env demo_loc demo_two_forks = (Inr p, s1) \<and>
     GetRelationKeys demo_tde_env (demo_loc\<lparr>relNumber := 16385\<rparr>) s1 = (Inr q, s2) \<and>
     GetRelationKeys demo_tde_env demo_loc s2 = (Inr p', s3) \<and> p' \<noteq> p \<and> length (td_heap s3) = length (td_heap demo_two_forks) + 3"
proof -
  let ?b = "demo_loc\<lparr>relNumber := 16385\<rparr>"
  have e: "td_keyring demo_two_forks = td_keyring demo_two_forks" "xs_files demo_two_forks = demo_fork"
    "map_of (tde_rel_keys_map demo_two_forks) n = None" for n
    by (simp_all add: demo_two_forks_def demo_tde_state_def)
  obtain s1 where 1: "GetRelationKeys demo_tde_env demo_loc demo_two_forks = (Inr (length (td_heap demo_two_forks)), s1)"
    "td_keyring s1 = td_keyring demo_two_forks" "xs_files s1 = demo_fork"
    "tde_rel_keys_map s1 = [(relNumber demo_loc, length (td_heap demo_two_forks))]"
    using demo_GetRelationKeys [OF e] by blast
  have n: "relNumber demo_loc \<noteq> relNumber ?b" by (simp add: demo_loc_def)
  with 1(4) have "map_of (tde_rel_keys_map s1) (relNumber ?b) = None" by simp
  then obtain q s2 where 2: "GetRelationKeys demo_tde_env ?b s1 = (Inr q, s2)" "td_keyring s2 = td_keyring demo_two_forks"
      "xs_files s2 = demo_fork" "tde_rel_keys_map s2 = [(relNumber ?b, q)]"
    using demo_GetRelationKeys [OF 1(2,3)] by blast
  with n have "map_of (tde_rel_keys_map s2) (relNumber demo_loc) = None" by simp
  then obtain p' s3 where 3: "GetRelationKeys demo_tde_env demo_loc s2 = (Inr p', s3)"
    using demo_GetRelationKeys [OF 2(2,3)] by blast
  from keys_cache_thrashes [OF 1(1) e(3) n e(3) 2(1) 3] 1(1) 2(1) 3 show ?thesis by blast
qed

text \<open>
  The cache is keyed by the relation number alone: when two relations of different
  tablespaces (or databases) have the same relation number, the second one is given the keys of
  the first, whatever its own key file holds.
\<close>

lemma keys_cache_ignores_tablespace:
  assumes "GetRelationKeys env rel s = (Inr p, t)"
  shows "GetRelationKeys env (rel\<lparr>spcOid := spc, dbOid := db\<rparr>) t = (Inr p, t)"
  using GetRelationKeys_map(1) [OF assms] by (intro GetRelationKeys_hit) simp

lemma keys_cache_ignores_tablespace_witness:
  "\<exists>t. GetRelationKeys demo_tde_env demo_loc t = (Inr 0, t) \<and> GetRelationKeys demo_tde_env (demo_loc\<lparr>spcOid := 1664, dbOid := 5\<rparr>) t = (Inr 0, t)"
proof -
  obtain t where t: "GetRelationKeys demo_tde_env demo_loc t = (Inr 0, t)"
    using demo_lookup by blast
  with keys_cache_ignores_tablespace [OF t, where spc = 1664 and db = 5] show ?thesis
    by (intro exI [of _ t] conjI)
qed

section \<open>The debugging text of a key\<close>

lemma sprint_loop_result:
  "length buf = i \<or> length buf = Suc i \<Longrightarrow> bs \<noteq> [] \<Longrightarrow>
   sprint_loop i bs buf = take i buf @ map (\<lambda>b. hex_digit (unat b div 16)) bs @ [hex_digit (unat (last bs) mod 16)]"
proof (induction i bs buf rule: sprint_loop.induct)
  case (2 i b bs buf)
  then show ?case
    by (cases bs) (auto simp: hex02_def)
qed simp

text \<open>
  \<open>tde_sprint_key\<close> prints each byte over the second digit of the one before, so that the
  text has the high half of every byte of the key and not its 32 digits.
\<close>

lemma tde_sprint_key_half:
  assumes "key k \<noteq> []"
  shows "tde_sprint_key k = map (\<lambda>b. hex_digit (unat b div 16)) (key k) @
     ''['' @ dec (unat (start_loc k)) @ '', '' @ dec (unat (end_loc k)) @ '']''"
  using sprint_loop_result [of "[]" 0 "key k"] assms by (simp add: tde_sprint_key_def Let_def)

end
