(* ===== verification/EncTuple.thy ===== *)
theory EncTuple
  imports TdeTypes
begin

text \<open>
  The tuple encryption of \<^verbatim>\<open>src/encryption/enc_tuple.c\<close> and the offset macros of
  \<^verbatim>\<open>src/include/encryption/enc_tuple.h\<close>: \<open>pg_tde_crypt\<close> with its loop over batches of
  counter blocks, \<open>pg_tde_move_encrypted_data\<close> and \<open>pg_tde_crypt_tuple\<close>. The lemmas
  reduce the batched routine to a reference definition, byte \<open>i\<close> of the data XORed with
  byte \<open>start_offset + i\<close> of one keystream, from which the round trip, the independence of
  the start offset and the re-encryption law follow.
\<close>

unbundle bit_operations_syntax

section \<open>The XOR loop\<close>

text \<open>
  The innermost loop: \<open>i\<close> runs up to \<open>current_batch_bytes\<close>; \<open>shift\<close> is
  \<^verbatim>\<open>(batch_no > 0 ? 0 : aes_block_no)\<close>. The key index is computed in \<^verbatim>\<open>uint64\<close> and cut to
  \<^verbatim>\<open>uint32\<close>.
\<close>

function crypt_bytes_loop ::
  "byte list \<Rightarrow> byte list \<Rightarrow> uint64 \<Rightarrow> uint32 \<Rightarrow> uint32 \<Rightarrow> uint32 \<Rightarrow> byte list
     \<Rightarrow> (uint32 \<times> byte list) result" where
  "crypt_bytes_loop data enc_key shift current_batch_bytes i data_index out =
     (if i < current_batch_bytes
      then (let enc_key_index = ucast (ucast i + shift) :: uint32
            in case load_byte data (unat data_index) of
                 Inl e \<Rightarrow> Inl e
               | Inr d \<Rightarrow>
                   (case load_byte enc_key (unat enc_key_index) of
                      Inl e \<Rightarrow> Inl e
                    | Inr k \<Rightarrow>
                        (case store_byte out (unat data_index) (d XOR k) of
                           Inl e \<Rightarrow> Inl e
                         | Inr out' \<Rightarrow>
                             crypt_bytes_loop data enc_key shift current_batch_bytes (i + 1)
                               (data_index + 1) out')))
      else Inr (data_index, out))"
  by pat_completeness auto
termination
proof (relation "measure (\<lambda>(data, enc_key, shift, n, i, data_index, out). unat n - unat i)", goal_cases)
  case (2 data enc_key shift n i data_index out x d k out')
  then show ?case
    by (simp add: unat_plus_1_less word_less_nat_alt)
qed simp

declare crypt_bytes_loop.simps [simp del]

section \<open>The loop over batches\<close>

text \<open>
  \<open>end_offset\<close> is \<^verbatim>\<open>start_offset + data_len + (AES_BLOCK_SIZE - 1)\<close>; the loop bound
  \<^verbatim>\<open>aes_end_block\<close> is its quotient by the block size, so adding a batch to a block number
  below it does not wrap.
\<close>

definition batch_bytes :: "uint64 \<Rightarrow> uint64 \<Rightarrow> uint64 \<Rightarrow> uint32 \<Rightarrow> uint32 \<Rightarrow> uint32" where
  "batch_bytes batch_start_block batch_end_block shift data_index data_len =
     (let current_batch_bytes =
            ucast ((batch_end_block - batch_start_block) * AES_BLOCK_SIZE - shift) :: uint32
      in if data_index + current_batch_bytes > data_len then data_len - data_index
         else current_batch_bytes)"

function crypt_batches_loop ::
  "'ctx crypto_env \<Rightarrow> byte list \<Rightarrow> uint32 \<Rightarrow> uint64 \<Rightarrow> uint64 \<Rightarrow> uint64 \<Rightarrow> uint32 \<Rightarrow> uint32 \<Rightarrow> byte list
     \<Rightarrow> byte list \<Rightarrow> 'ctx RelKeysData \<Rightarrow> byte list result \<times> 'ctx RelKeysData" where
  "crypt_batches_loop env data data_len aes_block_no end_offset batch_start_block batch_no
       data_index enc_key out keys =
     (let aes_end_block = end_offset div AES_BLOCK_SIZE
      in if batch_start_block < aes_end_block
         then (let batch_end_block = min (batch_start_block + NUM_AES_BLOCKS_IN_BATCH) aes_end_block
               in case Aes128EncryptedZeroBlocks env (ctx (key0 keys)) (key (key0 keys))
                         batch_start_block batch_end_block enc_key of
                    (Inl e, c, enc_key') \<Rightarrow> (Inl e, set_ctx0 c keys)
                  | (Inr n, c, enc_key') \<Rightarrow>
                      (let shift = (if batch_no > 0 then 0 else aes_block_no)
                       in case crypt_bytes_loop data enc_key' shift
                                 (batch_bytes batch_start_block batch_end_block shift data_index data_len)
                                 0 data_index out of
                            Inl e \<Rightarrow> (Inl e, set_ctx0 c keys)
                          | Inr (data_index', out') \<Rightarrow>
                              crypt_batches_loop env data data_len aes_block_no end_offset
                                (batch_start_block + NUM_AES_BLOCKS_IN_BATCH) (batch_no + 1)
                                data_index' enc_key' out' (set_ctx0 c keys)))
         else (Inr out, keys))"
  by pat_completeness auto
termination
proof (relation "measure (\<lambda>(env, data, len, blk, end_offset, start, no, idx, ek, out, keys).
    unat (end_offset div 16) - unat start)", goal_cases)
  case (2 env data len blk end_offset start)
  then have lt: "unat start < unat (end_offset div 16)"
    by (simp add: word_less_nat_alt)
  have "unat (end_offset div 16) < 2 ^ 60"
    using unat_bound [of end_offset] by (simp add: unat_div)
  with lt have "unat (start + 100) = unat start + 100"
    by (simp add: unat_word_ariths)
  with lt show ?case
    by simp
qed simp

declare crypt_batches_loop.simps [simp del]

definition pg_tde_crypt ::
  "'ctx crypto_env \<Rightarrow> uint64 \<Rightarrow> byte list \<Rightarrow> uint32 \<Rightarrow> byte list \<Rightarrow> 'ctx RelKeysData
     \<Rightarrow> byte list result \<times> 'ctx RelKeysData" where
  "pg_tde_crypt env start_offset data data_len out keys =
     (let aes_start_block = start_offset div AES_BLOCK_SIZE;
          end_offset = start_offset + ucast data_len + (AES_BLOCK_SIZE - 1);
          aes_block_no = start_offset mod AES_BLOCK_SIZE
      in crypt_batches_loop env data data_len aes_block_no end_offset aes_start_block 0 0
           (stack_array env ''enc_key'' DATA_BYTES_PER_AES_BATCH) out keys)"

section \<open>Moving encrypted data\<close>

text \<open>
  \<open>pg_tde_move_encrypted_data\<close>: each batch is decrypted into a stack array and encrypted
  for its new place. \<open>write_data\<close> and \<open>decrypted\<close> are the buffers written to. A batch of
  length 0 would make the loop run forever; the routine is entered with
  \<open>bytes_left = data_len\<close>, for which \<open>move_loop_result\<close> below shows this never happens.
\<close>

function move_loop ::
  "'ctx crypto_env \<Rightarrow> uint64 \<Rightarrow> byte list \<Rightarrow> uint64 \<Rightarrow> uint32 \<Rightarrow> uint32 \<Rightarrow> uint32 \<Rightarrow> byte list \<Rightarrow> byte list
     \<Rightarrow> 'ctx RelKeysData \<Rightarrow> byte list result \<times> 'ctx RelKeysData" where
  "move_loop env read_start_offset read_data write_start_offset data_len bytes_left curr_offset
       decrypted write_data keys =
     (if bytes_left > 0
      then (let batch_len = min (min DATA_BYTES_PER_AES_BATCH data_len) bytes_left
            in if batch_len = 0 then (Inl (Undefined ''the loop makes no progress''), keys)
               else (case pg_tde_crypt env (read_start_offset + ucast curr_offset)
                            (drop (unat curr_offset) read_data) batch_len decrypted keys of
                       (Inl e, keys') \<Rightarrow> (Inl e, keys')
                     | (Inr decrypted', keys') \<Rightarrow>
                         (case pg_tde_crypt env (write_start_offset + ucast curr_offset) decrypted'
                                 batch_len (drop (unat curr_offset) write_data) keys' of
                            (Inl e, keys'') \<Rightarrow> (Inl e, keys'')
                          | (Inr w, keys'') \<Rightarrow>
                              move_loop env read_start_offset read_data write_start_offset data_len
                                (bytes_left - batch_len) (curr_offset + batch_len) decrypted'
                                (take (unat curr_offset) write_data @ w) keys'')))
      else (Inr write_data, keys))"
  by pat_completeness auto
termination
proof (relation "measure (\<lambda>(env, r, rd, w, len, left, curr, decr, wd, keys). unat left)", goal_cases)
  case (2 env r rd w len left curr decr wd keys batch_len p q decr' p' q' wd')
  then have b: "batch_len \<le> left" "0 < unat batch_len"
    by (auto simp: unat_gt_0)
  then have "unat (left - batch_len) < unat left"
    by (simp add: unat_sub word_le_nat_alt)
  then show ?case by simp
qed simp

declare move_loop.simps [simp del]

definition pg_tde_move_encrypted_data ::
  "'ctx crypto_env \<Rightarrow> uint64 \<Rightarrow> byte list \<Rightarrow> uint64 \<Rightarrow> byte list \<Rightarrow> uint32 \<Rightarrow> 'ctx RelKeysData
     \<Rightarrow> byte list result \<times> 'ctx RelKeysData" where
  "pg_tde_move_encrypted_data env read_start_offset read_data write_start_offset write_data data_len keys =
     move_loop env read_start_offset read_data write_start_offset data_len data_len 0
       (stack_array env ''decrypted'' DATA_BYTES_PER_AES_BATCH) write_data keys"

section \<open>Offsets in the file\<close>

text \<open>
  \<^verbatim>\<open>(bn * BLCKSZ) + offset_in_page\<close>: the product of a \<^verbatim>\<open>BlockNumber\<close> and an \<^verbatim>\<open>int\<close> is
  computed in 32 bits before the sum in 64 bits.
\<close>

definition offset_in_file :: "block_number \<Rightarrow> uint64 \<Rightarrow> uint64" where
  "offset_in_file bn offset_in_page = ucast (bn * BLCKSZ) + offset_in_page"

definition pg_tde_crypt_tuple ::
  "'ctx crypto_env \<Rightarrow> block_number \<Rightarrow> HeapTuple \<Rightarrow> HeapTuple \<Rightarrow> 'ctx RelKeysData
     \<Rightarrow> HeapTuple result \<times> 'ctx RelKeysData" where
  "pg_tde_crypt_tuple env bn tuple out_tuple keys =
     (let data_len = t_len tuple - of_nat (t_hoff (t_bytes tuple));
          tuple_offset_in_file = offset_in_file bn (t_off tuple);
          tup_data = drop (t_hoff (t_bytes tuple)) (t_bytes tuple);
          out_hoff = t_hoff (t_bytes out_tuple);
          out_data = drop out_hoff (t_bytes out_tuple)
      in case pg_tde_crypt env tuple_offset_in_file tup_data data_len out_data keys of
           (Inl e, keys') \<Rightarrow> (Inl e, keys')
         | (Inr out, keys') \<Rightarrow>
             (Inr (out_tuple\<lparr>t_bytes := take out_hoff (t_bytes out_tuple) @ out\<rparr>), keys'))"

definition PG_TDE_ENCRYPT_PAGE_ITEM ::
  "'ctx crypto_env \<Rightarrow> block_number \<Rightarrow> uint64 \<Rightarrow> byte list \<Rightarrow> uint32 \<Rightarrow> byte list \<Rightarrow> 'ctx RelKeysData
     \<Rightarrow> byte list result \<times> 'ctx RelKeysData" where
  "PG_TDE_ENCRYPT_PAGE_ITEM env bn offset_in_page data data_len out keys =
     pg_tde_crypt env (offset_in_file bn offset_in_page) data data_len out keys"

definition PG_TDE_RE_ENCRYPT_TUPLE_DATA ::
  "'ctx crypto_env \<Rightarrow> block_number \<Rightarrow> uint64 \<Rightarrow> byte list \<Rightarrow> block_number \<Rightarrow> uint64 \<Rightarrow> byte list \<Rightarrow> uint32
     \<Rightarrow> 'ctx RelKeysData \<Rightarrow> byte list result \<times> 'ctx RelKeysData" where
  "PG_TDE_RE_ENCRYPT_TUPLE_DATA env read_bn read_offset read_data write_bn write_offset write_data data_len keys =
     pg_tde_move_encrypted_data env (offset_in_file read_bn read_offset) read_data
       (offset_in_file write_bn write_offset) write_data data_len keys"

section \<open>The reference definition\<close>

text \<open>
  One keystream per key, indexed by the position in the file, and the data XORed with it.
\<close>

definition keystream :: "'ctx crypto_env \<Rightarrow> (byte list \<Rightarrow> byte list) \<Rightarrow> nat \<Rightarrow> byte" where
  "keystream env E pos = E (ctr_block env (of_nat (pos div 16))) ! (pos mod 16)"

fun ctr_xor :: "(nat \<Rightarrow> byte) \<Rightarrow> nat \<Rightarrow> byte list \<Rightarrow> byte list" where
  "ctr_xor ks pos [] = []"
| "ctr_xor ks pos (d # ds) = (d XOR ks pos) # ctr_xor ks (Suc pos) ds"

lemma length_ctr_xor [simp]: "length (ctr_xor ks pos ds) = length ds"
  by (induction ds arbitrary: pos) auto

lemma ctr_xor_append:
  "ctr_xor ks pos (ds @ es) = ctr_xor ks pos ds @ ctr_xor ks (pos + length ds) es"
  by (induction ds arbitrary: pos) auto

lemma nth_ctr_xor: "i < length ds \<Longrightarrow> ctr_xor ks pos ds ! i = ds ! i XOR ks (pos + i)"
  by (induction ds arbitrary: pos i) (auto simp: nth_Cons split: nat.splits)

lemma ctr_xor_cong:
  "(\<And>i. i < length ds \<Longrightarrow> ks (pos + i) = ks' (pos' + i)) \<Longrightarrow> ctr_xor ks pos ds = ctr_xor ks' pos' ds"
  by (intro nth_equalityI) (auto simp: nth_ctr_xor)

lemma ctr_xor_involution [simp]: "ctr_xor ks pos (ctr_xor ks pos ds) = ds"
  by (induction ds arbitrary: pos) (auto simp: xor.assoc)

lemma nth_keystream_blocks:
  assumes "\<And>b. length b = 16 \<Longrightarrow> length (E b) = 16" "x < 16 * (n - m)"
  shows "keystream_blocks env E m n ! x = keystream env E (16 * m + x)"
  using assms(2)
proof (induction "n - m" arbitrary: m x)
  case 0
  then show ?case by simp
next
  case (Suc l)
  let ?blk = "E (ctr_block env (of_nat m))"
  have ks: "keystream_blocks env E m n = ?blk @ keystream_blocks env E (Suc m) n"
    using Suc.hyps(2) by (simp add: keystream_blocks_def upt_conv_Cons)
  have len: "length ?blk = 16"
    using assms(1) by simp
  show ?case
  proof (cases "x < 16")
    case True
    with ks len show ?thesis
      by (simp add: nth_append keystream_def)
  next
    case False
    then have "keystream_blocks env E (Suc m) n ! (x - 16) = keystream env E (16 * Suc m + (x - 16))"
      using Suc by (intro Suc.hyps(1)) auto
    with ks len False show ?thesis
      by (simp add: nth_append)
  qed
qed

section \<open>The XOR loop computes a run of the reference\<close>

lemma crypt_bytes_loop_result:
  assumes "i \<le> n" "unat shift + unat n \<le> length ek" "length ek < 2 ^ 32"
    and "unat idx + (unat n - unat i) \<le> length data" "unat idx + (unat n - unat i) \<le> length out"
    and "unat idx + (unat n - unat i) < 2 ^ 32"
    and "\<And>x. unat i \<le> x \<Longrightarrow> x < unat n \<Longrightarrow> ek ! (unat shift + x) = ks (pos + x)"
  shows "crypt_bytes_loop data ek shift n i idx out =
    Inr (idx + (n - i),
         take (unat idx) out @
         ctr_xor ks (pos + unat i) (take (unat n - unat i) (drop (unat idx) data)) @
         drop (unat idx + (unat n - unat i)) out)"
  using assms
proof (induction data ek shift n i idx out rule: crypt_bytes_loop.induct)
  case (1 data ek shift n i idx out)
  show ?case
  proof (cases "i < n")
    case False
    with "1.prems"(1) have "i = n" by simp
    then show ?thesis
      by (subst crypt_bytes_loop.simps) simp
  next
    case True
    let ?b = "data ! unat idx XOR ek ! (unat shift + unat i)"
    let ?out = "out[unat idx := ?b]"
    have lt: "unat i < unat n" using True by (simp add: word_less_nat_alt)
    have i1: "unat (i + 1) = unat i + 1" using True by (rule unat_plus_1_less)
    have x1: "unat (idx + 1) = unat idx + 1"
      using "1.prems"(6) lt by (simp add: unat_add_lt)
    have "unat (ucast i + shift) = unat i + unat shift"
      using lt "1.prems"(2,3) by (subst unat_add_lt) (simp_all add: unat_ucast_lt)
    then have ki: "unat (ucast (ucast i + shift) :: uint32) = unat shift + unat i"
      using lt "1.prems"(2,3) by (simp add: unat_ucast_lt)
    have "crypt_bytes_loop data ek shift n i idx out =
        crypt_bytes_loop data ek shift n (i + 1) (idx + 1) ?out"
      using True lt "1.prems" ki by (subst crypt_bytes_loop.simps) (simp add: Let_def)
    also have "\<dots> = Inr (idx + 1 + (n - (i + 1)),
        take (unat (idx + 1)) ?out @
        ctr_xor ks (pos + unat (i + 1)) (take (unat n - unat (i + 1)) (drop (unat (idx + 1)) data)) @
        drop (unat (idx + 1) + (unat n - unat (i + 1))) ?out)"
      using True lt "1.prems" ki i1 x1
      by (intro "1.IH") (auto simp: word_le_nat_alt word_less_nat_alt)
    also have "take (unat (idx + 1)) ?out = take (unat idx) out @ [?b]"
      using lt "1.prems"(5) x1 by (simp add: take_Suc_conv_app_nth)
    also have "?b = data ! unat idx XOR ks (pos + unat i)"
      using lt "1.prems"(7) by simp
    finally show ?thesis
      using lt "1.prems"(4) i1 x1
      by (simp add: Cons_nth_drop_Suc [symmetric] take_Cons' Suc_diff_Suc)
  qed
qed

section \<open>The batched routine is the reference\<close>

lemma unat_batch_bytes:
  assumes "b \<le> be" "unat be - unat b \<le> 100" "unat shift \<le> 16 * (unat be - unat b)"
    and "idx \<le> len" "unat len + 1600 < 2 ^ 32"
  shows "unat (batch_bytes b be shift idx len) =
           min (16 * (unat be - unat b) - unat shift) (unat len - unat idx)"
proof -
  let ?x = "(be - b) * 16 - shift"
  have "unat ((be - b) * 16) = unat (be - b) * unat (16 :: uint64) mod 2 ^ LENGTH(64)"
    by (rule unat_word_ariths(2))
  then have m: "unat ((be - b) * 16) = 16 * (unat be - unat b)"
    using assms(2) unfolding unat_sub [OF assms(1)] by simp
  then have "unat ?x = 16 * (unat be - unat b) - unat shift"
    using assms(3) unat_sub [of shift "(be - b) * 16"] unfolding word_le_nat_alt by presburger
  then have x: "unat (ucast ?x :: uint32) = 16 * (unat be - unat b) - unat shift"
    using assms(2) by (subst unat_ucast_lt) simp_all
  have "unat (idx + ucast ?x) = unat idx + unat (ucast ?x :: uint32)"
    using x assms(2,4,5) by (intro unat_add_lt) (simp add: word_le_nat_alt)
  then show ?thesis
    using x assms(4) unfolding batch_bytes_def Let_def
    by (auto simp: word_less_nat_alt word_le_nat_alt unat_sub)
qed

lemma unat_min: "unat (min a b :: 'a::len word) = min (unat a) (unat b)"
  by (simp add: min_def word_le_nat_alt)

lemma unat_end_block:
  fixes end_offset :: uint64
  assumes "unat end_offset = s + L + 15"
  shows "unat (end_offset div 16) = (s + L + 15) div 16"
  using assms by (simp add: unat_div)

text \<open>
  The arithmetic of one batch: the bytes done and the first position covered by the batch's
  keystream agree, and the next batch starts where this one ends. \<open>D\<close> bytes are done
  before the batch, \<open>S\<close> is the shift into its first block.
\<close>

definition progress :: "nat \<Rightarrow> nat \<Rightarrow> bool \<Rightarrow> nat \<Rightarrow> nat \<Rightarrow> bool" where
  "progress s L first b D \<longleftrightarrow>
     (if first then b = s div 16 \<and> D = 0 else s \<le> 16 * b \<and> D = min (16 * b - s) L)"

lemma batch_arith:
  fixes s L b D S :: nat and first :: bool
  assumes p: "progress s L first b D" and b: "b < (s + L + 15) div 16"
    and S: "S = (if first then s mod 16 else 0)"
  defines "be \<equiv> min (b + 100) ((s + L + 15) div 16)"
  defines "N \<equiv> min (16 * (be - b) - S) (L - D)"
  shows "D \<le> L" "s + D = 16 * b + S" "b < be" "be - b \<le> 100" "S \<le> 16 * (be - b)"
    and "progress s L False (b + 100) (D + N)" "first \<or> 1 \<le> N" "D + N \<le> L"
proof -
  have lt: "16 * b < s + L" using b by linarith
  show D: "D \<le> L" and sD: "s + D = 16 * b + S"
    using p S lt by (auto simp: progress_def split: if_splits)
  show be: "b < be" "be - b \<le> 100" using b by (auto simp: be_def)
  have "S < 16" using S by simp
  then show "S \<le> 16 * (be - b)" using be by linarith
  show "D + N \<le> L" using D by (simp add: N_def)
  have reach: "16 * be - s = D + (16 * (be - b) - S)" "s \<le> 16 * be"
    using sD \<open>S < 16\<close> be by auto
  have "min (16 * (b + 100) - s) L = D + N"
  proof (cases "be = b + 100")
    case True
    with reach have "16 * (b + 100) - s = D + (16 * (be - b) - S)" by simp
    with D show ?thesis unfolding N_def by linarith
  next
    case False
    then have "L \<le> 16 * be - s" "be \<le> b + 100" by (auto simp: be_def min_def)
    moreover from this(2) have "16 * be - s \<le> 16 * (b + 100) - s" by (intro diff_le_mono) simp
    moreover from \<open>L \<le> 16 * be - s\<close> reach(1) have "N = L - D"
      unfolding N_def by (intro min_absorb2) linarith
    ultimately show ?thesis using D by simp
  qed
  moreover have "s \<le> 16 * (b + 100)" using sD \<open>S < 16\<close> by presburger
  ultimately show "progress s L False (b + 100) (D + N)"
    by (simp add: progress_def)
  show "first \<or> 1 \<le> N"
    using p lt be S unfolding progress_def N_def by (auto split: if_splits)
qed

lemma progress_end:
  assumes "progress s L first b D" "\<not> b < (s + L + 15) div 16"
  shows "D = L"
proof -
  have "s + L \<le> 16 * b" using assms(2) by linarith
  with assms(1) show ?thesis
    by (auto simp: progress_def split: if_splits)
qed

text \<open>
  The conditions on a call: no position reaches the counter limit of \<^verbatim>\<open>int\<close>, and the
  \<^verbatim>\<open>uint32\<close> sum of the bytes done and a batch does not wrap.
\<close>

definition crypt_call ::
  "nat \<Rightarrow> nat \<Rightarrow> byte list \<Rightarrow> uint32 \<Rightarrow> uint64 \<Rightarrow> uint64 \<Rightarrow> bool" where
  "crypt_call s L data data_len aes_block_no end_offset \<longleftrightarrow>
     (s + L + 15) div 16 < 2 ^ 31 \<and> L + 1600 < 2 ^ 32 \<and> L \<le> length data \<and>
     unat data_len = L \<and> unat end_offset = s + L + 15 \<and> unat aes_block_no = s mod 16"

text \<open>One turn of the loop.\<close>

lemma crypt_one_batch:
  assumes ready: "crypto_ready env E ready" and call: "crypt_call s L data data_len aes_block_no end_offset"
    and ek: "length enc_key = 1600" and out: "L \<le> length out"
    and cx: "ctx_ok ready (key (key0 keys)) (ctx (key0 keys))"
    and prog: "progress s L (batch_no = 0) (unat b) (unat idx)" and no: "unat batch_no \<le> unat idx + 1"
    and lt: "b < end_offset div 16"
  obtains c n ek' where
    "crypt_batches_loop env data data_len aes_block_no end_offset b batch_no idx enc_key out keys =
       crypt_batches_loop env data data_len aes_block_no end_offset (b + 100) (batch_no + 1) (idx + n) ek'
         (take (unat idx) out @
          ctr_xor (keystream env (E (take 16 (key (key0 keys))))) (s + unat idx) (take (unat n) (drop (unat idx) data)) @
          drop (unat idx + unat n) out) (set_ctx0 (Some c) keys)"
    "ready c (take 16 (key (key0 keys)))" "length ek' = 1600"
    "unat (idx + n) = unat idx + unat n" "unat idx + unat n \<le> L"
    "progress s L (batch_no + 1 = 0) (unat (b + 100)) (unat (idx + n))"
    "unat (batch_no + 1) \<le> unat (idx + n) + 1" "unat (b + 100) = unat b + 100"
proof -
  let ?k = "take 16 (key (key0 keys))"
  let ?ks = "keystream env (E ?k)"
  let ?eb = "end_offset div 16"
  let ?be = "min (b + 100) ?eb"
  let ?shift = "if batch_no > 0 then 0 else aes_block_no"
  let ?n = "batch_bytes b ?be ?shift idx data_len"
  let ?kb = "keystream_blocks env (E ?k) (unat b) (unat ?be)"
  let ?ek = "?kb @ drop (16 * (unat ?be - unat b)) enc_key"
  have call': "(s + L + 15) div 16 < 2 ^ 31" "L + 1600 < 2 ^ 32" "L \<le> length data"
    "unat data_len = L" "unat end_offset = s + L + 15" "unat aes_block_no = s mod 16"
    using call by (simp_all add: crypt_call_def)
  have eb: "unat ?eb = (s + L + 15) div 16"
    using call'(5) by (rule unat_end_block)
  have blt: "unat b < (s + L + 15) div 16"
    using lt eb by (simp add: word_less_nat_alt)
  have b100: "unat (b + 100) = unat b + 100"
    using blt call'(1) by (subst unat_add_lt) auto
  have be: "unat ?be = min (unat b + 100) ((s + L + 15) div 16)"
    by (simp add: unat_min b100 eb)
  have sh: "unat ?shift = (if batch_no = 0 then s mod 16 else 0)"
    using call'(6) by (simp add: word_neq_0_conv [symmetric])
  note ar = batch_arith [OF prog blt sh, folded be]
  have le: "b \<le> ?be" "unat ?be < 2 ^ 31"
    using ar(3) be call'(1) by (simp_all add: word_le_nat_alt)
  have n: "unat ?n = min (16 * (unat ?be - unat b) - unat ?shift) (L - unat idx)"
    using unat_batch_bytes [OF le(1) ar(4,5), of idx data_len] ar(1) call'(2,4)
    by (simp add: word_le_nat_alt)
  note ar = ar [folded n]
  obtain c where z: "Aes128EncryptedZeroBlocks env (ctx (key0 keys)) (key (key0 keys)) b ?be enc_key =
      (Inr (16 * (unat ?be - unat b)), Some c, ?ek)" and c: "ready c ?k"
    using zero_blocks_result [OF ready cx le ar(4) ek] by blast
  have lks: "length ?kb = 16 * (unat ?be - unat b)"
    using crypto_ready_length [OF ready] by (rule length_keystream_blocks)
  then have lek: "length ?ek = 1600"
    using ar(4) ek by simp
  have key: "?ek ! (unat ?shift + x) = ?ks (s + unat idx + x)" if "x < unat ?n" for x
  proof -
    have "unat ?shift + x < 16 * (unat ?be - unat b)"
      using that n ar(5) by linarith
    moreover from this have "?kb ! (unat ?shift + x) = ?ks (16 * unat b + (unat ?shift + x))"
      by (intro nth_keystream_blocks crypto_ready_length [OF ready])
    ultimately show ?thesis
      using lks ar(2) by (simp only: nth_append add.assoc if_True)
  qed
  have inner: "crypt_bytes_loop data ?ek ?shift ?n 0 idx out = Inr (idx + (?n - 0),
       take (unat idx) out @
       ctr_xor ?ks (s + unat idx + unat (0 :: uint32)) (take (unat ?n - unat (0 :: uint32)) (drop (unat idx) data)) @
       drop (unat idx + (unat ?n - unat (0 :: uint32))) out)"
  proof (rule crypt_bytes_loop_result)
    show "unat ?shift + unat ?n \<le> length ?ek"
      using lek n ar(4,5) by linarith
  qed (use ar(8) call'(2,3) out lek key in auto)
  have step: "crypt_batches_loop env data data_len aes_block_no end_offset b batch_no idx enc_key out keys =
      crypt_batches_loop env data data_len aes_block_no end_offset (b + 100) (batch_no + 1) (idx + ?n) ?ek
        (take (unat idx) out @ ctr_xor ?ks (s + unat idx) (take (unat ?n) (drop (unat idx) data)) @
         drop (unat idx + unat ?n) out) (set_ctx0 (Some c) keys)"
    using lt z inner by (subst crypt_batches_loop.simps) (simp add: Let_def)
  have idx': "unat (idx + ?n) = unat idx + unat ?n"
    using ar(8) call'(2) by (intro unat_add_lt) simp
  have no': "unat (batch_no + 1) = unat batch_no + 1"
    using no ar(1) call'(2) by (subst unat_add_lt) auto
  then have "batch_no + 1 \<noteq> 0"
    by (metis add_is_0 one_neq_zero unat_0)
  then have "progress s L (batch_no + 1 = 0) (unat (b + 100)) (unat (idx + ?n))"
    using ar(6) b100 idx' by simp
  moreover have "unat (batch_no + 1) \<le> unat (idx + ?n) + 1"
    using ar(7) no' idx' no by auto
  ultimately show thesis
    using that [OF step c lek idx' ar(8) _ _ b100] by blast
qed

text \<open>The result of the batched loop from any intermediate point.\<close>

lemma crypt_batches_loop_result:
  assumes ready: "crypto_ready env E ready" and call: "crypt_call s L data data_len aes_block_no end_offset"
    and "length enc_key = 1600" "L \<le> length out" "internal_key keys \<noteq> []"
    and "ctx_ok ready (key (key0 keys)) (ctx (key0 keys))"
    and "progress s L (batch_no = 0) (unat b) (unat idx)" "unat batch_no \<le> unat idx + 1"
  shows "\<exists>c. crypt_batches_loop env data data_len aes_block_no end_offset b batch_no idx enc_key out keys =
      (Inr (take (unat idx) out @
            ctr_xor (keystream env (E (take 16 (key (key0 keys))))) (s + unat idx)
              (take (L - unat idx) (drop (unat idx) data)) @ drop L out),
       set_ctx0 c keys) \<and> ctx_ok ready (key (key0 keys)) c"
  using assms(3-)
proof (induction "(s + L + 15) div 16 - unat b" arbitrary: b batch_no idx enc_key out keys rule: less_induct)
  case less
  note prems = less.prems
  let ?ks = "keystream env (E (take 16 (key (key0 keys))))"
  have eb: "unat (end_offset div 16) = (s + L + 15) div 16"
    using call by (intro unat_end_block) (simp add: crypt_call_def)
  have dl: "L \<le> length data"
    using call by (simp add: crypt_call_def)
  show ?case
  proof (cases "b < end_offset div 16")
    case False
    then have "unat idx = L"
      using prems(5) eb by (intro progress_end) (auto simp: word_less_nat_alt)
    moreover have "crypt_batches_loop env data data_len aes_block_no end_offset b batch_no idx enc_key out keys
        = (Inr out, keys)"
      using False by (subst crypt_batches_loop.simps) simp
    ultimately show ?thesis
      using prems(3,4) by (intro exI [of _ "ctx (key0 keys)"]) simp
  next
    case True
    obtain c n ek' where step:
      "crypt_batches_loop env data data_len aes_block_no end_offset b batch_no idx enc_key out keys =
       crypt_batches_loop env data data_len aes_block_no end_offset (b + 100) (batch_no + 1) (idx + n) ek'
         (take (unat idx) out @ ctr_xor ?ks (s + unat idx) (take (unat n) (drop (unat idx) data)) @
          drop (unat idx + unat n) out) (set_ctx0 (Some c) keys)"
      and c: "ready c (take 16 (key (key0 keys)))" and ek: "length ek' = 1600"
      and idx: "unat (idx + n) = unat idx + unat n" and L: "unat idx + unat n \<le> L"
      and prog: "progress s L (batch_no + 1 = 0) (unat (b + 100)) (unat (idx + n))"
      and no: "unat (batch_no + 1) \<le> unat (idx + n) + 1" and b: "unat (b + 100) = unat b + 100"
      by (rule crypt_one_batch [OF ready call prems(1,2,4,5,6) True])
    let ?out = "take (unat idx) out @ ctr_xor ?ks (s + unat idx) (take (unat n) (drop (unat idx) data)) @
          drop (unat idx + unat n) out"
    let ?keys = "set_ctx0 (Some c) keys"
    have "L \<le> length ?out"
      using L dl prems(2) by simp
    moreover have "ctx_ok ready (key (key0 ?keys)) (ctx (key0 ?keys))"
      using c prems(3) by (simp add: ctx_ok_def)
    moreover have "(s + L + 15) div 16 - unat (b + 100) < (s + L + 15) div 16 - unat b"
      using True eb b by (simp add: word_less_nat_alt)
    moreover have "internal_key ?keys \<noteq> []"
      using prems(3) by simp
    ultimately obtain c' where
      "crypt_batches_loop env data data_len aes_block_no end_offset (b + 100) (batch_no + 1) (idx + n) ek' ?out ?keys =
       (Inr (take (unat (idx + n)) ?out @
            ctr_xor (keystream env (E (take 16 (key (key0 ?keys))))) (s + unat (idx + n))
              (take (L - unat (idx + n)) (drop (unat (idx + n)) data)) @ drop L ?out),
       set_ctx0 c' ?keys) \<and> ctx_ok ready (key (key0 ?keys)) c'"
      using less.hyps ek prog no by blast
    then show ?thesis
      using prems(2,3) L dl unfolding step take_drop_chunk [OF L] idx
      by (auto simp: ctr_xor_append min_absorb2 add.assoc)
  qed
qed

definition crypt_fits :: "uint64 \<Rightarrow> uint32 \<Rightarrow> bool" where
  "crypt_fits start_offset data_len \<longleftrightarrow>
     (unat start_offset + unat data_len + 15) div 16 < 2 ^ 31 \<and> unat data_len + 1600 < 2 ^ 32"

lemma pg_tde_crypt_result:
  assumes "crypto_ready env E ready" "crypt_fits start_offset data_len"
    and "unat data_len \<le> length data" "unat data_len \<le> length out" "internal_key keys \<noteq> []"
    and "ctx_ok ready (key (key0 keys)) (ctx (key0 keys))"
  shows "\<exists>c. pg_tde_crypt env start_offset data data_len out keys =
      (Inr (ctr_xor (keystream env (E (take 16 (key (key0 keys))))) (unat start_offset)
              (take (unat data_len) data) @ drop (unat data_len) out), set_ctx0 c keys)
    \<and> ctx_ok ready (key (key0 keys)) c"
proof -
  let ?s = "unat start_offset" and ?L = "unat data_len"
  let ?eo = "start_offset + ucast data_len + 15"
  have fits: "(?s + ?L + 15) div 16 < 2 ^ 31" "?L + 1600 < 2 ^ 32"
    using assms(2) by (simp_all add: crypt_fits_def)
  have ul: "unat (ucast data_len :: uint64) = ?L"
    using fits(2) by (intro unat_ucast_lt) simp
  have "unat ?eo = ?s + ?L + 15"
    using fits ul by (simp add: unat_add_lt)
  then have call: "crypt_call ?s ?L data data_len (start_offset mod 16) ?eo"
    using fits assms(3) by (simp add: crypt_call_def unat_mod)
  have "progress ?s ?L ((0 :: uint32) = 0) (unat (start_offset div 16)) (unat (0 :: uint32))"
    by (simp add: progress_def unat_div)
  from crypt_batches_loop_result [OF assms(1) call _ assms(4-6) this,
      of "stack_array env ''enc_key'' 1600"]
  show ?thesis
    by (simp add: pg_tde_crypt_def Let_def)
qed

section \<open>The contract of a position-keyed cipher\<close>

text \<open>
  What the callers of \<open>pg_tde_crypt\<close> rely on: a run over a buffer XORs it with a stream
  that depends only on the position in the file, leaves the rest of the output buffer
  alone, and keeps the stream. \<open>'c\<close> is the state a run may change.
\<close>

locale position_cipher =
  fixes invar :: "'c \<Rightarrow> bool"
    and stream :: "'c \<Rightarrow> nat \<Rightarrow> byte"
    and run :: "'c \<Rightarrow> uint64 \<Rightarrow> byte list \<Rightarrow> uint32 \<Rightarrow> byte list \<Rightarrow> byte list result \<times> 'c"
  assumes run_result:
    "invar c \<Longrightarrow> crypt_fits pos len \<Longrightarrow> unat len \<le> length data \<Longrightarrow> unat len \<le> length out \<Longrightarrow>
       \<exists>c'. run c pos data len out =
              (Inr (ctr_xor (stream c) (unat pos) (take (unat len) data) @ drop (unat len) out), c')
            \<and> invar c' \<and> stream c' = stream c"
begin

lemma run_step:
  assumes "invar c" "crypt_fits pos len" "unat len \<le> length data" "unat len \<le> length out"
  obtains c' where "run c pos data len out =
      (Inr (ctr_xor (stream c) (unat pos) (take (unat len) data) @ drop (unat len) out), c')"
    "invar c'" "stream c' = stream c"
  using run_result [OF assms] by blast

lemma run_run:
  assumes "invar c" "crypt_fits r len" "crypt_fits w len"
    and "unat len \<le> length data" "unat len \<le> length mid" "unat len \<le> length out"
  obtains c1 c2 where
    "run c r data len mid =
       (Inr (ctr_xor (stream c) (unat r) (take (unat len) data) @ drop (unat len) mid), c1)"
    "run c1 w (ctr_xor (stream c) (unat r) (take (unat len) data) @ drop (unat len) mid) len out =
       (Inr (ctr_xor (stream c) (unat w) (ctr_xor (stream c) (unat r) (take (unat len) data)) @
             drop (unat len) out), c2)"
    "invar c2" "stream c2 = stream c"
proof -
  let ?mid = "ctr_xor (stream c) (unat r) (take (unat len) data) @ drop (unat len) mid"
  obtain c1 where 1: "run c r data len mid = (Inr ?mid, c1)" "invar c1" "stream c1 = stream c"
    using run_step [OF assms(1,2,4,5)] .
  obtain c2 where "run c1 w ?mid len out =
      (Inr (ctr_xor (stream c1) (unat w) (take (unat len) ?mid) @ drop (unat len) out), c2)"
    "invar c2" "stream c2 = stream c1"
    by (rule run_step [OF 1(2) assms(3) _ assms(6), of ?mid]) (use assms(4,5) in auto)
  with 1 assms(4) show thesis
    using that [of c1 c2] by (auto simp: min_absorb2)
qed

lemma run_inverse:
  assumes "invar c" "crypt_fits pos len"
    and "unat len \<le> length data" "unat len \<le> length mid" "unat len \<le> length out"
  obtains e c1 c2 where "run c pos data len mid = (Inr e, c1)"
    "run c1 pos e len out = (Inr (take (unat len) data @ drop (unat len) out), c2)"
    "invar c2" "stream c2 = stream c"
  using run_run [OF assms(1,2,2,3-5)] by (metis ctr_xor_involution)

end

text \<open>
  The interpretation on the model: the state is the environment together with the key data
  of the relation.
\<close>

type_synonym 'ctx session =
  "'ctx crypto_env \<times> (byte list \<Rightarrow> byte list \<Rightarrow> byte list) \<times> ('ctx \<Rightarrow> byte list \<Rightarrow> bool) \<times> 'ctx RelKeysData"

fun session_ok :: "'ctx session \<Rightarrow> bool" where
  "session_ok (env, E, ready, keys) \<longleftrightarrow>
     crypto_ready env E ready \<and> internal_key keys \<noteq> [] \<and>
     ctx_ok ready (key (key0 keys)) (ctx (key0 keys))"

fun session_stream :: "'ctx session \<Rightarrow> nat \<Rightarrow> byte" where
  "session_stream (env, E, ready, keys) = keystream env (E (take 16 (key (key0 keys))))"

fun session_crypt ::
  "'ctx session \<Rightarrow> uint64 \<Rightarrow> byte list \<Rightarrow> uint32 \<Rightarrow> byte list \<Rightarrow> byte list result \<times> 'ctx session" where
  "session_crypt (env, E, ready, keys) pos data len out =
     (case pg_tde_crypt env pos data len out keys of (r, keys') \<Rightarrow> (r, env, E, ready, keys'))"

interpretation tde: position_cipher session_ok session_stream session_crypt
proof (unfold_locales, goal_cases)
  case (1 c pos len data out)
  obtain env E ready keys where c: "c = (env, E, ready, keys)"
    by (cases c)
  obtain x where "pg_tde_crypt env pos data len out keys =
      (Inr (ctr_xor (session_stream c) (unat pos) (take (unat len) data) @ drop (unat len) out), set_ctx0 x keys)"
    "ctx_ok ready (key (key0 keys)) x"
    using 1 pg_tde_crypt_result [of env E ready pos len data out keys] c by auto
  then show ?case
    using 1 c by auto
qed

lemma pg_tde_crypt_run:
  assumes "session_ok (env, E, ready, keys)" "crypt_fits pos len"
    and "unat len \<le> length data" "unat len \<le> length out"
  obtains k where "pg_tde_crypt env pos data len out keys =
      (Inr (ctr_xor (session_stream (env, E, ready, keys)) (unat pos) (take (unat len) data) @ drop (unat len) out), k)"
    "session_ok (env, E, ready, k)"
    "session_stream (env, E, ready, k) = session_stream (env, E, ready, keys)"
proof -
  obtain c where "session_crypt (env, E, ready, keys) pos data len out =
      (Inr (ctr_xor (session_stream (env, E, ready, keys)) (unat pos) (take (unat len) data) @ drop (unat len) out), c)"
    "session_ok c" "session_stream c = session_stream (env, E, ready, keys)"
    by (rule tde.run_step [OF assms])
  then show thesis
    using that by (auto split: prod.splits)
qed

lemma pg_tde_crypt_exact:
  assumes "session_ok (env, E, ready, keys)" "crypt_fits pos len"
    and "length data = unat len" "length out = unat len"
  obtains k where "pg_tde_crypt env pos data len out keys =
      (Inr (ctr_xor (session_stream (env, E, ready, keys)) (unat pos) data), k)"
    "session_ok (env, E, ready, k)"
    "session_stream (env, E, ready, k) = session_stream (env, E, ready, keys)"
  by (rule pg_tde_crypt_run [OF assms(1,2), of data out]) (use assms(3,4) that in auto)

section \<open>Moving encrypted data\<close>

lemma crypt_fits_part:
  assumes "crypt_fits pos len" "unat cur + unat n \<le> unat len"
  shows "crypt_fits (pos + ucast cur) n" "unat (pos + ucast cur) = unat pos + unat cur"
proof -
  have fits: "(unat pos + unat len + 15) div 16 < 2 ^ 31" "unat len + 1600 < 2 ^ 32"
    using assms(1) by (simp_all add: crypt_fits_def)
  have "unat (ucast cur :: uint64) = unat cur"
    using fits(2) assms(2) by (intro unat_ucast_lt) simp
  then show p: "unat (pos + ucast cur) = unat pos + unat cur"
    using fits assms(2) by (simp add: unat_add_lt)
  have "unat pos + unat cur + unat n + 15 \<le> unat pos + unat len + 15"
    using assms(2) by simp
  then have "(unat pos + unat cur + unat n + 15) div 16 < 2 ^ 31"
    using fits(1) div_le_mono le_less_trans by blast
  then show "crypt_fits (pos + ucast cur) n"
    using fits(2) assms(2) p by (simp add: crypt_fits_def)
qed

lemma move_one_batch:
  assumes "session_ok (env, E, ready, keys)" "crypt_fits r len" "crypt_fits w len"
    and len: "unat left + unat cur = unat len" and "length decrypted = 1600"
    and "unat len \<le> length rd" "unat len \<le> length wd" and pos: "left > 0"
  obtains n d k where
    "move_loop env r rd w len left cur decrypted wd keys =
       move_loop env r rd w len (left - n) (cur + n) d
         (take (unat cur) wd @
          ctr_xor (session_stream (env, E, ready, keys)) (unat w + unat cur)
            (ctr_xor (session_stream (env, E, ready, keys)) (unat r + unat cur) (take (unat n) (drop (unat cur) rd))) @
          drop (unat cur + unat n) wd) k"
    "0 < unat n" "unat n \<le> unat left" "unat (left - n) = unat left - unat n"
    "unat (cur + n) = unat cur + unat n" "length d = 1600"
    "session_ok (env, E, ready, k)"
    "session_stream (env, E, ready, k) = session_stream (env, E, ready, keys)"
proof -
  let ?st = "session_stream (env, E, ready, keys)"
  let ?n = "min (min 1600 len) left"
  have l0: "0 < unat left" using pos by (simp add: word_less_nat_alt)
  have n: "unat ?n = min 1600 (unat left)"
    using len by (simp add: unat_min min.assoc min_absorb2)
  then have n0: "0 < unat ?n" "unat ?n \<le> unat left" "unat ?n \<le> 1600" using l0 by simp_all
  then have n1: "?n \<noteq> 0" by auto
  have part: "unat cur + unat ?n \<le> unat len"
    using n0(2) len by linarith
  note fr = crypt_fits_part [OF assms(2) part] and fw = crypt_fits_part [OF assms(3) part]
  let ?d = "ctr_xor ?st (unat (r + ucast cur)) (take (unat ?n) (drop (unat cur) rd)) @ drop (unat ?n) decrypted"
  let ?w = "ctr_xor ?st (unat (w + ucast cur)) (ctr_xor ?st (unat (r + ucast cur)) (take (unat ?n) (drop (unat cur) rd)))
              @ drop (unat ?n) (drop (unat cur) wd)"
  obtain c1 c2 where
    "session_crypt (env, E, ready, keys) (r + ucast cur) (drop (unat cur) rd) ?n decrypted = (Inr ?d, c1)"
    "session_crypt c1 (w + ucast cur) ?d ?n (drop (unat cur) wd) = (Inr ?w, c2)"
    "session_ok c2" "session_stream c2 = ?st"
    by (rule tde.run_run [OF assms(1) fr(1) fw(1), of "drop (unat cur) rd" decrypted "drop (unat cur) wd"])
      (use assms n0(3) part in auto)
  then obtain k1 k2 where
    1: "pg_tde_crypt env (r + ucast cur) (drop (unat cur) rd) ?n decrypted keys = (Inr ?d, k1)" and
    2: "pg_tde_crypt env (w + ucast cur) ?d ?n (drop (unat cur) wd) k1 = (Inr ?w, k2)" and
    ok: "session_ok (env, E, ready, k2)" "session_stream (env, E, ready, k2) = ?st"
    by (auto split: prod.splits)
  have step: "move_loop env r rd w len left cur decrypted wd keys =
      move_loop env r rd w len (left - ?n) (cur + ?n) ?d (take (unat cur) wd @ ?w) k2"
    using pos n1 1 2 by (subst move_loop.simps) (simp add: Let_def)
  have w: "?w = ctr_xor ?st (unat w + unat cur) (ctr_xor ?st (unat r + unat cur) (take (unat ?n) (drop (unat cur) rd)))
       @ drop (unat cur + unat ?n) wd"
    unfolding fr(2) fw(2) drop_drop by (simp only: add.commute)
  have left': "unat (left - ?n) = unat left - unat ?n"
    by (rule unat_sub) simp
  have cur': "unat (cur + ?n) = unat cur + unat ?n"
    using part unat_bound [of len] by (intro unat_add_lt) linarith
  have "length ?d = 1600"
    using part assms(5,6) n0(3) by simp
  from that [OF step [unfolded w] n0(1,2) left' cur' this ok] show thesis .
qed

lemma move_loop_result:
  assumes "session_ok (env, E, ready, keys)" "crypt_fits r len" "crypt_fits w len"
    and "unat left + unat cur = unat len" "length decrypted = 1600"
    and "unat len \<le> length rd" "unat len \<le> length wd"
  shows "\<exists>keys'. move_loop env r rd w len left cur decrypted wd keys =
      (Inr (take (unat cur) wd @
            ctr_xor (session_stream (env, E, ready, keys)) (unat w + unat cur)
              (ctr_xor (session_stream (env, E, ready, keys)) (unat r + unat cur)
                (take (unat left) (drop (unat cur) rd))) @
            drop (unat len) wd), keys')
    \<and> session_ok (env, E, ready, keys') \<and>
      session_stream (env, E, ready, keys') = session_stream (env, E, ready, keys)"
  using assms(1,4-)
proof (induction "unat left" arbitrary: left cur decrypted wd keys rule: less_induct)
  case less
  note prems = less.prems
  let ?st = "session_stream (env, E, ready, keys)"
  show ?case
  proof (cases "left > 0")
    case False
    then have "left = 0" by (simp add: word_neq_0_conv [symmetric])
    then show ?thesis
      using prems by (subst move_loop.simps) (auto simp: take_drop_split3)
  next
    case True
    let ?wd = "\<lambda>n. take (unat cur) wd @ ctr_xor ?st (unat w + unat cur)
        (ctr_xor ?st (unat r + unat cur) (take n (drop (unat cur) rd))) @ drop (unat cur + n) wd"
    obtain n d k where
      step: "move_loop env r rd w len left cur decrypted wd keys =
        move_loop env r rd w len (left - n) (cur + n) d (?wd (unat n)) k"
      and n: "0 < unat n" "unat n \<le> unat left" "unat (left - n) = unat left - unat n"
        "unat (cur + n) = unat cur + unat n" "length d = 1600"
      and k: "session_ok (env, E, ready, k)" "session_stream (env, E, ready, k) = ?st"
      by (rule move_one_batch [OF prems(1) assms(2,3) prems(2-5) True])
    have IH: "\<exists>keys'. move_loop env r rd w len (left - n) (cur + n) d (?wd (unat n)) k =
      (Inr (take (unat (cur + n)) (?wd (unat n)) @
            ctr_xor (session_stream (env, E, ready, k)) (unat w + unat (cur + n))
              (ctr_xor (session_stream (env, E, ready, k)) (unat r + unat (cur + n))
                (take (unat (left - n)) (drop (unat (cur + n)) rd))) @
            drop (unat len) (?wd (unat n))), keys')
      \<and> session_ok (env, E, ready, keys') \<and>
        session_stream (env, E, ready, keys') = session_stream (env, E, ready, k)"
    proof (rule less.hyps)
      show "unat (left - n) < unat left" "unat (left - n) + unat (cur + n) = unat len"
        using n prems(2) by linarith+
      show "unat len \<le> length (?wd (unat n))"
        using n(2) prems(2,4,5) by simp
    qed (fact k(1) n(5) prems(4))+
    have "unat len - unat cur = unat left" "unat len - (unat cur + unat n) = unat left - unat n"
      using prems(2) by linarith+
    then have "take (unat left) (drop (unat cur) rd) =
        take (unat n) (drop (unat cur) rd) @ take (unat left - unat n) (drop (unat cur + unat n) rd)"
      using take_drop_chunk [of "unat cur" "unat n" "unat len" rd] prems(2) n(2) by simp
    moreover have "take (unat cur + unat n) (?wd (unat n)) = take (unat cur) wd @ ctr_xor ?st (unat w + unat cur)
        (ctr_xor ?st (unat r + unat cur) (take (unat n) (drop (unat cur) rd)))"
      and "drop (unat len) (?wd (unat n)) = drop (unat len) wd"
      using n(2) prems(2,4,5) by (simp_all add: min_absorb2)
    moreover have "length (take (unat n) (drop (unat cur) rd)) = unat n"
      using n(2) prems(2,4) by simp
    ultimately show ?thesis
      using IH unfolding step k(2) n(3,4) by (simp only: ctr_xor_append length_ctr_xor add.assoc append_assoc)
  qed
qed

section \<open>Tuples\<close>

lemma unat_offset_in_file:
  assumes "unat off \<le> 8192"
  shows "unat (offset_in_file bn off) = (unat bn * 8192) mod 2 ^ 32 + unat off"
proof -
  have b: "unat (bn * 8192) = (unat bn * 8192) mod 2 ^ 32"
    by (simp add: unat_word_ariths)
  then have "unat (ucast (bn * 8192) :: uint64) = (unat bn * 8192) mod 2 ^ 32"
    by (subst unat_ucast_lt) (simp_all add: order_less_trans [OF mod_less_divisor])
  moreover have "(unat bn * 8192) mod 2 ^ 32 < 2 ^ 32"
    by simp
  ultimately show ?thesis
    unfolding offset_in_file_def using assms by (subst unat_add_lt) simp_all
qed

lemma offset_in_file_fits:
  assumes "unat off \<le> 8192" "unat len \<le> 8192"
  shows "crypt_fits (offset_in_file bn off) len"
proof -
  have "(unat bn * 8192) mod 2 ^ 32 < 2 ^ 32"
    by simp
  then have "unat (offset_in_file bn off) + unat len + 15 < 2 ^ 33"
    using assms unfolding unat_offset_in_file [OF assms(1)] by simp
  then show ?thesis
    using assms(2) by (simp add: crypt_fits_def)
qed

lemma t_hoff_less: "t_hoff bytes < 256"
  using unat_bound [of "bytes ! 22"] by (simp add: t_hoff_def)

lemma unat_tuple_data_len:
  assumes "t_hoff bytes \<le> unat len"
  shows "unat (len - of_nat (t_hoff bytes) :: uint32) = unat len - t_hoff bytes"
proof -
  have "unat (of_nat (t_hoff bytes) :: uint32) = t_hoff bytes"
    using t_hoff_less [of bytes] by (intro unat_of_nat_lt) simp
  with assms show ?thesis
    by (simp add: unat_sub word_le_nat_alt)
qed

text \<open>A tuple that lies in a page, with its header inside it.\<close>

definition tuple_in_page :: "HeapTuple \<Rightarrow> bool" where
  "tuple_in_page tup \<longleftrightarrow>
     t_hoff (t_bytes tup) \<le> unat (t_len tup) \<and> unat (t_len tup) \<le> length (t_bytes tup) \<and>
     unat (t_off tup) + unat (t_len tup) \<le> BLCKSZ"

definition tuple_data_len :: "HeapTuple \<Rightarrow> nat" where
  "tuple_data_len tup = unat (t_len tup) - t_hoff (t_bytes tup)"

definition tuple_data :: "HeapTuple \<Rightarrow> byte list" where
  "tuple_data tup = take (tuple_data_len tup) (drop (t_hoff (t_bytes tup)) (t_bytes tup))"

lemma pg_tde_crypt_tuple_result:
  assumes "session_ok (env, E, ready, keys)" "tuple_in_page tup"
    and "t_hoff (t_bytes out_tup) + tuple_data_len tup \<le> length (t_bytes out_tup)"
  shows "\<exists>keys'. pg_tde_crypt_tuple env bn tup out_tup keys =
     (Inr (out_tup\<lparr>t_bytes := take (t_hoff (t_bytes out_tup)) (t_bytes out_tup) @
        ctr_xor (session_stream (env, E, ready, keys)) (unat (offset_in_file bn (t_off tup))) (tuple_data tup) @
        drop (t_hoff (t_bytes out_tup) + tuple_data_len tup) (t_bytes out_tup)\<rparr>), keys')
    \<and> session_ok (env, E, ready, keys') \<and>
      session_stream (env, E, ready, keys') = session_stream (env, E, ready, keys)"
proof -
  let ?h = "t_hoff (t_bytes tup)" and ?oh = "t_hoff (t_bytes out_tup)"
  let ?len = "t_len tup - of_nat ?h :: uint32"
  have t: "?h \<le> unat (t_len tup)" "unat (t_len tup) \<le> length (t_bytes tup)"
    "unat (t_off tup) \<le> 8192" "unat (t_len tup) \<le> 8192"
    using assms(2) by (simp_all add: tuple_in_page_def)
  have l: "unat ?len = tuple_data_len tup"
    using t(1) by (simp add: tuple_data_len_def unat_tuple_data_len)
  have "crypt_fits (offset_in_file bn (t_off tup)) ?len"
    using t l by (intro offset_in_file_fits) (simp_all add: tuple_data_len_def)
  moreover have "unat ?len \<le> length (drop ?h (t_bytes tup))" "unat ?len \<le> length (drop ?oh (t_bytes out_tup))"
    using t l assms(3) by (simp_all add: tuple_data_len_def)
  ultimately obtain c where
    "session_crypt (env, E, ready, keys) (offset_in_file bn (t_off tup)) (drop ?h (t_bytes tup)) ?len (drop ?oh (t_bytes out_tup)) =
     (Inr (ctr_xor (session_stream (env, E, ready, keys)) (unat (offset_in_file bn (t_off tup))) (tuple_data tup) @
       drop (tuple_data_len tup) (drop ?oh (t_bytes out_tup))), c)"
    "session_ok c" "session_stream c = session_stream (env, E, ready, keys)"
    using tde.run_step [OF assms(1)] l unfolding tuple_data_def by metis
  then show ?thesis
    by (auto simp: pg_tde_crypt_tuple_def Let_def add.commute split: prod.splits)
qed

section \<open>Properties of the encryption routines\<close>

text \<open>Key data for the concrete instances.\<close>

definition demo_keys :: "(byte list \<times> byte list) RelKeysData" where
  "demo_keys = \<lparr>master_key_name = ''master-key-1'', internal_keys_len = 1,
     internal_key = [\<lparr>key = replicate 16 7, start_loc = 0, end_loc = 0, ctx = None\<rparr>]\<rparr>"

lemma demo_session_ok: "session_ok (demo_env, demo_E, demo_ready, demo_keys)"
  by (simp add: demo_crypto_ready demo_keys_def key0_def)

lemma crypt_fits_small: "unat pos \<le> 2 ^ 33 \<Longrightarrow> unat len \<le> 8192 \<Longrightarrow> crypt_fits pos len"
  by (simp add: crypt_fits_def)

text \<open>
  (C3) The batched routine computes counter mode: \<open>pg_tde_crypt\<close> succeeds, byte \<open>i\<close> of
  its output is byte \<open>i\<close> of the data XORed with byte \<open>start_offset + i\<close> of the relation's
  keystream, and the rest of the output buffer is unchanged. The result does not depend on
  the uninitialised stack arrays or on the oversized shift, no access leaves its array, and
  the key data changes only in its cached context, which stays one for the same key.
\<close>

theorem pg_tde_crypt_is_ctr:
  assumes "session_ok (env, E, ready, keys)" "crypt_fits start_offset data_len"
    and "unat data_len \<le> length data" "unat data_len \<le> length out"
  shows "\<exists>c. pg_tde_crypt env start_offset data data_len out keys =
      (Inr (map (\<lambda>i. data ! i XOR keystream env (E (take 16 (key (key0 keys)))) (unat start_offset + i))
              [0..<unat data_len] @ drop (unat data_len) out), set_ctx0 c keys)
    \<and> ctx_ok ready (key (key0 keys)) c"
proof -
  have "ctr_xor ks (unat start_offset) (take (unat data_len) data) =
      map (\<lambda>i. data ! i XOR ks (unat start_offset + i)) [0..<unat data_len]" for ks
    using assms(3) by (intro nth_equalityI) (simp_all add: nth_ctr_xor)
  then show ?thesis
    using pg_tde_crypt_result [of env E ready start_offset data_len data out keys] assms by simp
qed

theorem pg_tde_crypt_is_ctr_witness:
  "\<exists>c. pg_tde_crypt demo_env 10 [1, 2, 3] 3 [0, 0, 0, 9] demo_keys =
      (Inr (map (\<lambda>i. [1, 2, 3] ! i XOR keystream demo_env (demo_E (take 16 (key (key0 demo_keys)))) (10 + i))
              [0..<3] @ [9]), set_ctx0 c demo_keys)
    \<and> ctx_ok demo_ready (key (key0 demo_keys)) c"
  using pg_tde_crypt_is_ctr [OF demo_session_ok crypt_fits_small, of 10 3 "[1, 2, 3]" "[0, 0, 0, 9]"]
  by simp

text \<open>
  Decryption inverts encryption: running \<open>pg_tde_crypt\<close> on its own output at the same
  position gives back the data, with the cached context of the first run.
\<close>

lemma pg_tde_crypt_roundtrip:
  assumes "session_ok (env, E, ready, keys)" "crypt_fits pos len"
    and "unat len \<le> length data" "unat len \<le> length mid" "unat len \<le> length out"
  shows "\<exists>e keys1 keys2. pg_tde_crypt env pos data len mid keys = (Inr e, keys1) \<and>
     pg_tde_crypt env pos e len out keys1 = (Inr (take (unat len) data @ drop (unat len) out), keys2)"
  by (rule tde.run_inverse [OF assms]) (auto split: prod.splits)

lemma pg_tde_crypt_roundtrip_witness:
  "\<exists>e keys1 keys2. pg_tde_crypt demo_env 4294967290 [1, 2, 3] 3 [0, 0, 0] demo_keys = (Inr e, keys1) \<and>
     pg_tde_crypt demo_env 4294967290 e 3 [0, 0, 0, 5] keys1 = (Inr [1, 2, 3, 5], keys2)"
  using pg_tde_crypt_roundtrip [OF demo_session_ok crypt_fits_small, of 4294967290 3 "[1, 2, 3]" "[0, 0, 0]" "[0, 0, 0, 5]"]
  by simp

text \<open>
  A byte is encrypted the same way whatever offset the routine was called with:
  encrypting a buffer at once gives the same bytes as encrypting its two parts in separate
  calls, each at its own position, also when a part is decrypted on its own later.
\<close>

lemma pg_tde_crypt_split:
  assumes "session_ok (env, E, ready, keys)" "crypt_fits pos (len1 + len2)"
    and "unat len1 + unat len2 < 2 ^ 32" "length d1 = unat len1" "length d2 = unat len2"
    and "length out1 = unat len1" "length out2 = unat len2"
  shows "\<exists>e1 e2 k k1 k2. pg_tde_crypt env pos d1 len1 out1 keys = (Inr e1, k1) \<and>
     pg_tde_crypt env (pos + ucast len1) d2 len2 out2 k1 = (Inr e2, k2) \<and>
     pg_tde_crypt env pos (d1 @ d2) (len1 + len2) (out1 @ out2) keys = (Inr (e1 @ e2), k)"
proof -
  let ?st = "session_stream (env, E, ready, keys)"
  have l: "unat (len1 + len2) = unat len1 + unat len2"
    using assms(3) by (intro unat_add_lt) simp
  have f1: "crypt_fits pos len1"
    using crypt_fits_part(1) [OF assms(2), of 0 len1] l by simp
  have f2: "crypt_fits (pos + ucast len1) len2" "unat (pos + ucast len1) = unat pos + unat len1"
    using crypt_fits_part [OF assms(2), of len1 len2] l by simp_all
  obtain k1 where 1: "pg_tde_crypt env pos d1 len1 out1 keys = (Inr (ctr_xor ?st (unat pos) d1), k1)"
    "session_ok (env, E, ready, k1)" "session_stream (env, E, ready, k1) = ?st"
    by (rule pg_tde_crypt_exact [OF assms(1) f1 assms(4,6)])
  obtain k2 where 2: "pg_tde_crypt env (pos + ucast len1) d2 len2 out2 k1 =
      (Inr (ctr_xor (session_stream (env, E, ready, k1)) (unat (pos + ucast len1)) d2), k2)"
    by (rule pg_tde_crypt_exact [OF 1(2) f2(1) assms(5,7)])
  obtain k where "pg_tde_crypt env pos (d1 @ d2) (len1 + len2) (out1 @ out2) keys =
      (Inr (ctr_xor ?st (unat pos) (d1 @ d2)), k)"
    by (rule pg_tde_crypt_exact [OF assms(1,2), of "d1 @ d2" "out1 @ out2"]) (use assms(4-7) l in auto)
  with 1(1) 2 show ?thesis
    using assms(4) unfolding 1(3) f2(2) by (auto simp: ctr_xor_append)
qed

lemma pg_tde_crypt_split_witness:
  "\<exists>e1 e2 k k1 k2. pg_tde_crypt demo_env 14 [1, 2, 3] 3 [0, 0, 0] demo_keys = (Inr e1, k1) \<and>
     pg_tde_crypt demo_env 17 [4, 5] 2 [0, 0] k1 = (Inr e2, k2) \<and>
     pg_tde_crypt demo_env 14 [1, 2, 3, 4, 5] 5 [0, 0, 0, 0, 0] demo_keys = (Inr (e1 @ e2), k)"
  using pg_tde_crypt_split [OF demo_session_ok crypt_fits_small, of 14 3 2 "[1, 2, 3]" "[4, 5]" "[0, 0, 0]" "[0, 0]"]
  by simp

text \<open>
  (C33) Moving encrypted data: \<open>pg_tde_move_encrypted_data\<close> turns the encryption of a
  plaintext at the read position into the encryption of the same plaintext at the write
  position, for any length, batch by batch, and writes nothing beyond it.
\<close>

theorem pg_tde_move_reencrypts:
  assumes "session_ok (env, E, ready, keys)" "crypt_fits r len" "crypt_fits w len"
    and "length plain = unat len" "length buf = unat len" "unat len \<le> length wd"
  shows "\<exists>ct ct' k k1 k2. pg_tde_crypt env r plain len buf keys = (Inr ct, k) \<and>
     pg_tde_crypt env w plain len buf keys = (Inr ct', k1) \<and>
     pg_tde_move_encrypted_data env r ct w wd len k = (Inr (ct' @ drop (unat len) wd), k2)"
proof -
  let ?st = "session_stream (env, E, ready, keys)"
  obtain k where k: "pg_tde_crypt env r plain len buf keys = (Inr (ctr_xor ?st (unat r) plain), k)"
    "session_ok (env, E, ready, k)" "session_stream (env, E, ready, k) = ?st"
    by (rule pg_tde_crypt_exact [OF assms(1,2,4,5)])
  obtain k1 where k1: "pg_tde_crypt env w plain len buf keys = (Inr (ctr_xor ?st (unat w) plain), k1)"
    by (rule pg_tde_crypt_exact [OF assms(1,3,4,5)])
  have "\<exists>k2. move_loop env r (ctr_xor ?st (unat r) plain) w len len 0 (stack_array env ''decrypted'' 1600) wd k =
      (Inr (ctr_xor ?st (unat w) plain @ drop (unat len) wd), k2)"
    using move_loop_result [OF k(2) assms(2,3), of len 0 "stack_array env ''decrypted'' 1600"
        "ctr_xor ?st (unat r) plain" wd] assms(4,6) unfolding k(3) by auto
  with k(1) k1 show ?thesis
    unfolding pg_tde_move_encrypted_data_def by blast
qed

theorem pg_tde_move_reencrypts_witness:
  "\<exists>ct ct' k k1 k2. pg_tde_crypt demo_env 100 [1, 2, 3] 3 [0, 0, 0] demo_keys = (Inr ct, k) \<and>
     pg_tde_crypt demo_env 8000 [1, 2, 3] 3 [0, 0, 0] demo_keys = (Inr ct', k1) \<and>
     pg_tde_move_encrypted_data demo_env 100 ct 8000 [0, 0, 0, 7] 3 k = (Inr (ct' @ [7]), k2)"
  using pg_tde_move_reencrypts [OF demo_session_ok crypt_fits_small crypt_fits_small,
      of 100 3 8000 "[1, 2, 3]" "[0, 0, 0]" "[0, 0, 0, 7]"]
  by simp

text \<open>
  (C27) No tuple of a page makes the routine misbehave: for every block number and every tuple
  that lies in its page, decryption succeeds. The 32-bit product in the file offset keeps
  every position below the limit of the \<^verbatim>\<open>int\<close> block counter, so the counter loop neither
  overflows nor leaves its array.
\<close>

theorem pg_tde_crypt_tuple_succeeds:
  assumes "session_ok (env, E, ready, keys)" "tuple_in_page tup"
  shows "\<exists>out keys'. pg_tde_crypt_tuple env bn tup tup keys = (Inr out, keys') \<and>
     t_len out = t_len tup \<and> t_off out = t_off tup \<and> length (t_bytes out) = length (t_bytes tup) \<and>
     take (t_hoff (t_bytes tup)) (t_bytes out) = take (t_hoff (t_bytes tup)) (t_bytes tup) \<and>
     drop (unat (t_len tup)) (t_bytes out) = drop (unat (t_len tup)) (t_bytes tup)"
proof -
  have t: "t_hoff (t_bytes tup) \<le> unat (t_len tup)" "unat (t_len tup) \<le> length (t_bytes tup)"
    "t_hoff (t_bytes tup) + tuple_data_len tup = unat (t_len tup)"
    using assms(2) by (auto simp: tuple_in_page_def tuple_data_len_def)
  then have room: "t_hoff (t_bytes tup) + tuple_data_len tup \<le> length (t_bytes tup)"
    by simp
  have "length (tuple_data tup) = tuple_data_len tup"
    using room by (simp add: tuple_data_def)
  with pg_tde_crypt_tuple_result [OF assms room, of bn] t show ?thesis
    by (fastforce simp: min_absorb2)
qed

definition demo_tuple :: HeapTuple where
  "demo_tuple = \<lparr>t_len = 27, t_off = 8160, t_bytes = replicate 22 0 @ [24, 0, 11, 12, 13]\<rparr>"

lemma demo_tuple_in_page: "tuple_in_page demo_tuple"
  by (simp add: demo_tuple_def tuple_in_page_def t_hoff_def nth_append)

theorem pg_tde_crypt_tuple_succeeds_witness:
  "\<exists>out keys'. pg_tde_crypt_tuple demo_env 4294967295 demo_tuple demo_tuple demo_keys = (Inr out, keys') \<and>
     t_len out = t_len demo_tuple \<and> t_off out = t_off demo_tuple \<and>
     length (t_bytes out) = length (t_bytes demo_tuple) \<and>
     take (t_hoff (t_bytes demo_tuple)) (t_bytes out) = take (t_hoff (t_bytes demo_tuple)) (t_bytes demo_tuple) \<and>
     drop (unat (t_len demo_tuple)) (t_bytes out) = drop (unat (t_len demo_tuple)) (t_bytes demo_tuple)"
  by (rule pg_tde_crypt_tuple_succeeds [OF demo_session_ok demo_tuple_in_page])

lemma block_position_inj:
  fixes x y a b :: nat
  assumes "x * 8192 + a = y * 8192 + b" "a < 8192" "b < 8192"
  shows "x = y" "a = b"
proof -
  have "(x * 8192 + a) div 8192 = x" "(y * 8192 + b) div 8192 = y"
    using assms(2,3) by simp_all
  with assms(1) show "x = y" by metis
  with assms(1) show "a = b" by simp
qed

text \<open>
  (C28) Within the first 4 GiB of a relation no keystream byte is used twice: two tuples in
  different blocks, or at non-overlapping places of one block, never take a byte from the
  same counter block and position, whatever the oversized shift yields.
\<close>

theorem tuple_keystreams_disjoint:
  assumes "unat bn1 < 2 ^ 19" "unat bn2 < 2 ^ 19" "unat off1 + len1 \<le> 8192" "unat off2 + len2 \<le> 8192"
    and "bn1 \<noteq> bn2 \<or> unat off1 + len1 \<le> unat off2 \<or> unat off2 + len2 \<le> unat off1"
    and "i < len1" "j < len2"
  defines "p1 \<equiv> unat (offset_in_file bn1 off1) + i" and "p2 \<equiv> unat (offset_in_file bn2 off2) + j"
  shows "(ctr_block env (of_nat (p1 div 16)), p1 mod 16) \<noteq> (ctr_block env (of_nat (p2 div 16)), p2 mod 16)"
proof
  assume same: "(ctr_block env (of_nat (p1 div 16)), p1 mod 16) = (ctr_block env (of_nat (p2 div 16)), p2 mod 16)"
  have p: "p1 = unat bn1 * 8192 + (unat off1 + i)" "p2 = unat bn2 * 8192 + (unat off2 + j)"
    unfolding p1_def p2_def using assms(1-7) by (simp_all add: unat_offset_in_file)
  then have "unat (of_nat (p1 div 16) :: int32) = p1 div 16" "unat (of_nat (p2 div 16) :: int32) = p2 div 16"
    using assms(1-7) by (simp_all add: unat_of_nat_lt)
  moreover have "(of_nat (p1 div 16) :: int32) = of_nat (p2 div 16)"
    using same ctr_block_inj by blast
  ultimately have "p1 div 16 = p2 div 16"
    by metis
  moreover have "p1 mod 16 = p2 mod 16"
    using same by simp
  ultimately have "p1 = p2"
    by (metis div_mult_mod_eq)
  then have "unat bn1 * 8192 + (unat off1 + i) = unat bn2 * 8192 + (unat off2 + j)"
    unfolding p .
  moreover have "unat off1 + i < 8192" "unat off2 + j < 8192"
    using assms(3,4,6,7) by linarith+
  ultimately have "unat bn1 = unat bn2" "unat off1 + i = unat off2 + j"
    by (rule block_position_inj)+
  then show False
    using assms(5-7) by (simp add: word_eq_iff_unsigned [where ?'a = nat])
qed

theorem tuple_keystreams_disjoint_witness:
  "(ctr_block demo_env (of_nat ((unat (offset_in_file 5 8000) + 3) div 16)), (unat (offset_in_file 5 8000) + 3) mod 16) \<noteq>
   (ctr_block demo_env (of_nat ((unat (offset_in_file 6 100) + 7) div 16)), (unat (offset_in_file 6 100) + 7) mod 16)"
  using tuple_keystreams_disjoint [of 5 6 8000 100 100 200 3 7 demo_env] by simp

text \<open>
  (C39) Beyond 4 GiB the keystream repeats: the product of the block number and the block size
  wraps at 32 bits, so a tuple in block \<open>bn + 524288\<close> is encrypted exactly as one at the same
  place of block \<open>bn\<close>.
\<close>

theorem keystream_repeats_after_4GiB:
  "pg_tde_crypt_tuple env (bn + 524288) tup out_tup keys = pg_tde_crypt_tuple env bn tup out_tup keys"
proof -
  have "(bn + 524288) * 8192 = bn * 8192"
    by (simp add: distrib_right)
  then have "offset_in_file (bn + 524288) off = offset_in_file bn off" for off
    unfolding offset_in_file_def by (rule arg_cong)
  then show ?thesis
    by (simp add: pg_tde_crypt_tuple_def)
qed

end
