(* ===== verification/TupleStore.thy ===== *)
theory TupleStore
  imports TdeMap EncTuple
begin

text \<open>
  Storing and fetching tuples, the wrappers of \<^verbatim>\<open>src/encryption/enc_tuple.c\<close> around
  PostgreSQL's page and slot routines, which are parameters. A page is its bytes; the wrappers
  use its \<^verbatim>\<open>pd_upper\<close> field at byte 14.
\<close>

section \<open>Pages\<close>

type_synonym page = "byte list"

definition pd_upper :: "page \<Rightarrow> uint16" where
  "pd_upper pg = un_le (take 2 (drop 14 pg))"

text \<open>
  \<open>PageAddItemExtended page item item_size offsetNumber flags\<close> gives the offset number, 0 when the
  item does not fit, and the new page.
\<close>

type_synonym page_add = "page \<Rightarrow> byte list \<Rightarrow> nat \<Rightarrow> uint16 \<Rightarrow> int \<Rightarrow> uint16 \<times> page"

section \<open>Operations\<close>

definition set_keys :: "nat \<Rightarrow> 'c RelKeysData \<Rightarrow> ('c, 'w) tde_state \<Rightarrow> ('c, 'w) tde_state" where
  "set_keys p k s = s\<lparr>td_heap := (td_heap s)[p := k]\<rparr>"

text \<open>
  The item is added in clear, then its data part is encrypted over the copy in the page; the
  result of \<^verbatim>\<open>PageAddItemExtended\<close> is only returned, not looked at.
\<close>

definition PGTdePageAddItemExtended ::
  "('c, 'w) tde_env \<Rightarrow> page_add \<Rightarrow> RelFileLocator \<Rightarrow> block_number \<Rightarrow> byte list \<Rightarrow> nat \<Rightarrow> uint16 \<Rightarrow> int
     \<Rightarrow> (('c, 'w) tde_state \<times> page, uint16) cmd" where
  "PGTdePageAddItemExtended env PageAddItemExtended rel bn item item_size offsetNumber flags sp =
     (case sp of (s, pg) \<Rightarrow>
      (case PageAddItemExtended pg item item_size offsetNumber flags of (off, pg') \<Rightarrow>
       (let header_size = t_hoff item;
            toAddr = unat (pd_upper pg') + header_size;
            offset_in_page = ucast (pd_upper pg');
            data_len = of_nat item_size - of_nat header_size :: uint32
        in case GetRelationKeys env rel s of
             (Inl e, s') \<Rightarrow> (Inl e, (s', pg'))
           | (Inr p, s') \<Rightarrow>
               (case PG_TDE_ENCRYPT_PAGE_ITEM (te_crypto env) bn offset_in_page (drop header_size item) data_len
                       (drop toAddr pg') (td_heap s' ! p) of
                  (Inl e, k) \<Rightarrow> (Inl e, (set_keys p k s', pg'))
                | (Inr out, k) \<Rightarrow> (Inr off, (set_keys p k s', take toAddr pg' @ out))))))"

abbreviation (input) RELKIND_TOASTVALUE :: char where "RELKIND_TOASTVALUE \<equiv> CHR ''t''"

text \<open>
  Reading: a copy of the tuple is decrypted and handed to the slot; the tuples of a TOAST table
  are handed on as they are. The result is the length and the bytes the slot gets.
\<close>

definition store_decrypted ::
  "('c, 'w) tde_env \<Rightarrow> char \<Rightarrow> RelFileLocator \<Rightarrow> block_number \<Rightarrow> HeapTuple
     \<Rightarrow> (('c, 'w) tde_state, uint32 \<times> byte list) cmd" where
  "store_decrypted env relkind rel bn tuple s =
     (if relkind \<noteq> RELKIND_TOASTVALUE
      then (case GetRelationKeys env rel s of
              (Inl e, s') \<Rightarrow> (Inl e, s')
            | (Inr p, s') \<Rightarrow>
                (let copy = tuple\<lparr>t_bytes := take (unat (t_len tuple)) (t_bytes tuple)\<rparr>
                 in case pg_tde_crypt_tuple (te_crypto env) bn tuple copy (td_heap s' ! p) of
                      (Inl e, k) \<Rightarrow> (Inl e, set_keys p k s')
                    | (Inr decrypted, k) \<Rightarrow> (Inr (t_len tuple, t_bytes decrypted), set_keys p k s')))
      else (Inr (t_len tuple, t_bytes tuple), s))"

definition PGTdeExecStoreBufferHeapTuple ::
  "('c, 'w) tde_env \<Rightarrow> char \<Rightarrow> RelFileLocator \<Rightarrow> block_number \<Rightarrow> HeapTuple
     \<Rightarrow> (('c, 'w) tde_state, uint32 \<times> byte list) cmd" where
  "PGTdeExecStoreBufferHeapTuple env relkind rel bn tuple = store_decrypted env relkind rel bn tuple"

definition PGTdeExecStorePinnedBufferHeapTuple ::
  "('c, 'w) tde_env \<Rightarrow> char \<Rightarrow> RelFileLocator \<Rightarrow> block_number \<Rightarrow> HeapTuple
     \<Rightarrow> (('c, 'w) tde_state, uint32 \<times> byte list) cmd" where
  "PGTdeExecStorePinnedBufferHeapTuple env relkind rel bn tuple = store_decrypted env relkind rel bn tuple"

section \<open>Storing, then reading\<close>

text \<open>The documented result of adding an item that fits.\<close>

definition item_added :: "page \<Rightarrow> byte list \<Rightarrow> nat \<Rightarrow> bool" where
  "item_added pg item item_size \<longleftrightarrow>
     length pg = BLCKSZ \<and> unat (pd_upper pg) + item_size \<le> BLCKSZ \<and> take item_size (drop (unat (pd_upper pg)) pg) = take item_size item"

text \<open>A heap tuple of the given size: the header is within it.\<close>

definition item_wf :: "byte list \<Rightarrow> nat \<Rightarrow> bool" where
  "item_wf item item_size \<longleftrightarrow> 23 \<le> t_hoff item \<and> t_hoff item \<le> item_size \<and> item_size \<le> length item"

text \<open>The tuple that an item pointer to \<open>off\<close> with length \<open>item_size\<close> gives.\<close>

definition tuple_at :: "page \<Rightarrow> uint16 \<Rightarrow> nat \<Rightarrow> HeapTuple" where
  "tuple_at pg off item_size = \<lparr>t_len = of_nat item_size, t_off = ucast off, t_bytes = drop (unat off) pg\<rparr>"

lemma add_item_result:
  assumes "session_ok (te_crypto env, E, ready, td_heap s1 ! p)" "p < length (td_heap s1)"
    and "GetRelationKeys env rel s = (Inr p, s1)" "item_wf item item_size"
    and "add pg item item_size offnum flags = (off, pg1)" "length pg1 = 8192" "unat (pd_upper pg1) + item_size \<le> 8192"
  obtains k where "PGTdePageAddItemExtended env add rel bn item item_size offnum flags (s, pg) =
      (Inr off, (set_keys p k s1, take (unat (pd_upper pg1) + t_hoff item) pg1 @
         ctr_xor (session_stream (te_crypto env, E, ready, td_heap s1 ! p))
           (unat (offset_in_file bn (ucast (pd_upper pg1)))) (take (item_size - t_hoff item) (drop (t_hoff item) item)) @
         drop (unat (pd_upper pg1) + item_size) pg1))"
    "session_ok (te_crypto env, E, ready, k)"
    "session_stream (te_crypto env, E, ready, k) = session_stream (te_crypto env, E, ready, td_heap s1 ! p)"
proof -
  let ?up = "unat (pd_upper pg1)" and ?h = "t_hoff item"
  let ?len = "of_nat item_size - of_nat ?h :: uint32"
  have w: "?h \<le> item_size" "item_size \<le> length item" "23 \<le> ?h" using assms(4) by (simp_all add: item_wf_def)
  have lsz: "unat (of_nat item_size :: uint32) = item_size" using assms(7) by (intro unat_of_nat_lt) simp
  have l: "unat ?len = item_size - ?h"
    using unat_tuple_data_len [of item "of_nat item_size"] w lsz by simp
  have up: "unat (ucast (pd_upper pg1) :: uint64) = ?up"
    using unat_bound [of "pd_upper pg1"] by (intro unat_ucast_lt) simp
  have fits: "crypt_fits (offset_in_file bn (ucast (pd_upper pg1))) ?len"
    using assms(7) up l by (intro offset_in_file_fits) simp_all
  obtain k where k: "pg_tde_crypt (te_crypto env) (offset_in_file bn (ucast (pd_upper pg1))) (drop ?h item) ?len (drop (?up + ?h) pg1) (td_heap s1 ! p) =
      (Inr (ctr_xor (session_stream (te_crypto env, E, ready, td_heap s1 ! p)) (unat (offset_in_file bn (ucast (pd_upper pg1))))
        (take (unat ?len) (drop ?h item)) @ drop (unat ?len) (drop (?up + ?h) pg1)), k)"
    "session_ok (te_crypto env, E, ready, k)"
    "session_stream (te_crypto env, E, ready, k) = session_stream (te_crypto env, E, ready, td_heap s1 ! p)"
    by (rule pg_tde_crypt_run [OF assms(1) fits, of "drop ?h item" "drop (?up + ?h) pg1"]) (use w l assms(6,7) in auto)
  have "drop (unat ?len) (drop (?up + ?h) pg1) = drop (?up + item_size) pg1"
    using l w by (simp add: add.commute add.left_commute)
  with k that show thesis
    using assms(3,5) l by (simp add: PGTdePageAddItemExtended_def PG_TDE_ENCRYPT_PAGE_ITEM_def Let_def)
qed

lemma store_decrypted_result:
  assumes "session_ok (te_crypto env, E, ready, td_heap u1 ! q)" "GetRelationKeys env rel u = (Inr q, u1)"
    and "relkind \<noteq> RELKIND_TOASTVALUE" "tuple_in_page tup" "23 \<le> t_hoff (t_bytes tup)"
  shows "\<exists>u2. store_decrypted env relkind rel bn tup u =
     (Inr (t_len tup, take (t_hoff (t_bytes tup)) (t_bytes tup) @
        ctr_xor (session_stream (te_crypto env, E, ready, td_heap u1 ! q)) (unat (offset_in_file bn (t_off tup))) (tuple_data tup)), u2)"
proof -
  let ?h = "t_hoff (t_bytes tup)" and ?n = "unat (t_len tup)"
  let ?copy = "tup\<lparr>t_bytes := take ?n (t_bytes tup)\<rparr>"
  have t: "?h \<le> ?n" "?n \<le> length (t_bytes tup)" "?h + tuple_data_len tup = ?n"
    using assms(4) by (auto simp: tuple_in_page_def tuple_data_len_def)
  have h: "t_hoff (t_bytes ?copy) = ?h"
    using assms(5) t(1) by (simp add: t_hoff_def)
  have room: "t_hoff (t_bytes ?copy) + tuple_data_len tup \<le> length (t_bytes ?copy)"
    unfolding h using t by simp
  obtain k where "pg_tde_crypt_tuple (te_crypto env) bn tup ?copy (td_heap u1 ! q) =
     (Inr (?copy\<lparr>t_bytes := take ?h (t_bytes ?copy) @
        ctr_xor (session_stream (te_crypto env, E, ready, td_heap u1 ! q)) (unat (offset_in_file bn (t_off tup))) (tuple_data tup) @
        drop (?h + tuple_data_len tup) (t_bytes ?copy)\<rparr>), k)"
    using pg_tde_crypt_tuple_result [OF assms(1,4) room, of bn] unfolding h by blast
  moreover have "take ?h (t_bytes ?copy) = take ?h (t_bytes tup)" "drop (?h + tuple_data_len tup) (t_bytes ?copy) = []"
    using t by (simp_all add: min_absorb1)
  ultimately show ?thesis
    using assms(2,3) by (simp add: store_decrypted_def Let_def)
qed

section \<open>Properties\<close>

lemma inserted_tuple_sound:
  assumes "GetRelationKeys env rel s = (Inr p, s1)" "p < length (td_heap s1)"
    and "session_ok (te_crypto env, E, ready, td_heap s1 ! p)"
    and "add pg item n offnum flags = (off, pg1)" "item_added pg1 item n" "item_wf item n"
    and "GetRelationKeys env rel u = (Inr q, u1)" "session_ok (te_crypto env, E, ready, td_heap u1 ! q)"
    and "key (key0 (td_heap u1 ! q)) = key (key0 (td_heap s1 ! p))" "relkind \<noteq> RELKIND_TOASTVALUE"
  shows "\<exists>pg2 s2 u2. PGTdePageAddItemExtended env add rel bn item n offnum flags (s, pg) = (Inr off, (s2, pg2)) \<and>
     pg2 = take (unat (pd_upper pg1) + t_hoff item) pg1 @
       ctr_xor (session_stream (te_crypto env, E, ready, td_heap s1 ! p)) (unat (offset_in_file bn (ucast (pd_upper pg1))))
         (take (n - t_hoff item) (drop (t_hoff item) item)) @
       drop (unat (pd_upper pg1) + n) pg1 \<and> length pg2 = length pg1 \<and>
       (\<exists>k. s2 = set_keys p k s1) \<and>
     PGTdeExecStoreBufferHeapTuple env relkind rel bn (tuple_at pg2 (pd_upper pg1) n) u = (Inr (of_nat n, take n item), u2)"
proof -
  let ?up = "unat (pd_upper pg1)" and ?h = "t_hoff item"
  let ?st = "session_stream (te_crypto env, E, ready, td_heap s1 ! p)"
  let ?pos = "unat (offset_in_file bn (ucast (pd_upper pg1)))"
  let ?data = "take (n - ?h) (drop ?h item)"
  let ?pg2 = "take (?up + ?h) pg1 @ ctr_xor ?st ?pos ?data @ drop (?up + n) pg1"
  let ?tup = "tuple_at ?pg2 (pd_upper pg1) n"
  have a: "length pg1 = 8192" "?up + n \<le> 8192" "take n (drop ?up pg1) = take n item"
    using assms(5) by (simp_all add: item_added_def)
  have w: "?h \<le> n" "n \<le> length item" "23 \<le> ?h" using assms(6) by (simp_all add: item_wf_def)
  obtain k where ins: "PGTdePageAddItemExtended env add rel bn item n offnum flags (s, pg) = (Inr off, (set_keys p k s1, ?pg2))"
    using add_item_result [of env E ready s1 p rel s item n add pg offnum flags off pg1 bn] assms(1-4,6) a(1,2) by blast
  have ld: "length ?data = n - ?h" using w by simp
  have len: "length ?pg2 = length pg1" using a w by simp
  have "take ?h (drop ?up pg1) = take ?h (take n item)"
    using a(3) w by (metis min.absorb1 take_take)
  then have hd: "take ?h (drop ?up pg1) = take ?h item"
    using w by (simp add: min_absorb1)
  then have bytes: "t_bytes ?tup = take ?h item @ ctr_xor ?st ?pos ?data @ drop (?up + n) pg1"
    using a w by (simp add: tuple_at_def drop_take add.commute)
  have th: "t_hoff (t_bytes ?tup) = ?h"
    unfolding bytes using w by (simp add: t_hoff_def nth_append)
  have ln: "unat (t_len ?tup) = n" using a(2) by (simp add: tuple_at_def unat_of_nat_lt)
  have up: "unat (t_off ?tup) = ?up"
    using unat_bound [of "pd_upper pg1"] by (simp add: tuple_at_def unat_ucast_lt)
  have inp: "tuple_in_page ?tup"
    unfolding tuple_in_page_def th ln up using w a len by (simp add: tuple_at_def)
  have td: "tuple_data ?tup = ctr_xor ?st ?pos ?data"
    unfolding tuple_data_def tuple_data_len_def ln bytes th [unfolded bytes] using w ld by (simp del: session_stream.simps)
  have "session_stream (te_crypto env, E, ready, td_heap u1 ! q) = ?st"
    using assms(9) by simp
  moreover have "23 \<le> t_hoff (t_bytes ?tup)" using th w by simp
  ultimately obtain u2 where "store_decrypted env relkind rel bn ?tup u =
     (Inr (t_len ?tup, take ?h (t_bytes ?tup) @ ctr_xor ?st (unat (offset_in_file bn (t_off ?tup))) (tuple_data ?tup)), u2)"
    using store_decrypted_result [OF assms(8,7,10) inp, of bn] unfolding th by metis
  moreover have h1: "take ?h (t_bytes ?tup) = take ?h item"
    unfolding bytes using w by simp
  have h2: "take ?h item @ ?data = take n item"
    using w take_add [of ?h "n - ?h" item] by simp
  have h3: "t_len ?tup = of_nat n" "t_off ?tup = ucast (pd_upper pg1)"
    by (simp_all add: tuple_at_def)
  ultimately have "PGTdeExecStoreBufferHeapTuple env relkind rel bn ?tup u = (Inr (of_nat n, take n item), u2)"
    unfolding PGTdeExecStoreBufferHeapTuple_def h1 h3 td ctr_xor_involution h2 by blast
  with ins len show ?thesis
    by (intro exI conjI) (assumption | rule refl)+
qed

text \<open>
  (C2) What is inserted is what is read: \<open>PGTdePageAddItemExtended\<close> leaves the page that
  \<^verbatim>\<open>PageAddItemExtended\<close> made, except that the tuple's data, behind its header, is XORed with the
  relation's keystream at the tuple's place in the file: the header is in clear and every other byte
  of the page, before and behind the tuple, is as that routine left it. Any backend that has the
  relation's key, the one that wrote the tuple or another one later, gets the original bytes in its
  slot.
\<close>

theorem inserted_tuple_is_read_back:
  assumes "GetRelationKeys env rel s = (Inr p, s1)" "p < length (td_heap s1)"
    and "session_ok (te_crypto env, E, ready, td_heap s1 ! p)"
    and "add pg item n offnum flags = (off, pg1)" "item_added pg1 item n" "item_wf item n"
    and "GetRelationKeys env rel u = (Inr q, u1)" "session_ok (te_crypto env, E, ready, td_heap u1 ! q)"
    and "key (key0 (td_heap u1 ! q)) = key (key0 (td_heap s1 ! p))" "relkind \<noteq> RELKIND_TOASTVALUE"
  shows "\<exists>pg2 s2 u2. PGTdePageAddItemExtended env add rel bn item n offnum flags (s, pg) = (Inr off, (s2, pg2)) \<and>
     length pg2 = length pg1 \<and>
     take (unat (pd_upper pg1) + t_hoff item) pg2 = take (unat (pd_upper pg1) + t_hoff item) pg1 \<and>
     take (n - t_hoff item) (drop (unat (pd_upper pg1) + t_hoff item) pg2) =
       ctr_xor (session_stream (te_crypto env, E, ready, td_heap s1 ! p)) (unat (offset_in_file bn (ucast (pd_upper pg1))))
         (take (n - t_hoff item) (drop (t_hoff item) item)) \<and>
     drop (unat (pd_upper pg1) + n) pg2 = drop (unat (pd_upper pg1) + n) pg1 \<and>
     PGTdeExecStoreBufferHeapTuple env relkind rel bn (tuple_at pg2 (pd_upper pg1) n) u = (Inr (of_nat n, take n item), u2)"
proof -
  have w: "t_hoff item \<le> n" "n \<le> length item" "length pg1 = 8192" "unat (pd_upper pg1) + n \<le> 8192"
    using assms(5,6) by (simp_all add: item_added_def item_wf_def)
  from inserted_tuple_sound [where add = add and pg = pg and item = item and n = n and offnum = offnum and flags = flags, OF assms] obtain pg2 s2 u2 where
    *: "PGTdePageAddItemExtended env add rel bn item n offnum flags (s, pg) = (Inr off, (s2, pg2))" "length pg2 = length pg1"
      "PGTdeExecStoreBufferHeapTuple env relkind rel bn (tuple_at pg2 (pd_upper pg1) n) u = (Inr (of_nat n, take n item), u2)"
    and pg2: "pg2 = take (unat (pd_upper pg1) + t_hoff item) pg1 @
       ctr_xor (session_stream (te_crypto env, E, ready, td_heap s1 ! p)) (unat (offset_in_file bn (ucast (pd_upper pg1))))
         (take (n - t_hoff item) (drop (t_hoff item) item)) @ drop (unat (pd_upper pg1) + n) pg1"
    by blast
  show ?thesis
    using * w by (intro exI [of _ pg2] exI [of _ s2] exI [of _ u2]) (simp add: pg2 min_absorb2 del: session_stream.simps)
qed

text \<open>A page routine for the concrete instances: the item goes to the end of the page.\<close>

definition demo_add :: page_add where
  "demo_add pg item n offnum flags =
     (if n \<le> 4096
      then (1, take 14 pg @ le_bytes 2 (of_nat (8192 - n) :: uint16) @ take (8192 - n - 16) (drop 16 pg) @ take n item)
      else (0, pg))"

definition demo_page :: page where
  "demo_page = replicate 8192 0"

lemma demo_add_item:
  assumes "item_wf item n" "n \<le> 4096" "length pg = 8192"
  shows "item_added (snd (demo_add pg item n offnum flags)) item n" "fst (demo_add pg item n offnum flags) = 1"
proof -
  have "unat (of_nat (8192 - n) :: uint16) = 8192 - n"
    by (intro unat_of_nat_lt) simp
  moreover have "un_le (le_bytes 2 (of_nat (8192 - n) :: uint16)) = (of_nat (8192 - n) :: uint16)"
    by (rule un_le_bytes) simp
  ultimately show "item_added (snd (demo_add pg item n offnum flags)) item n"
    using assms by (simp add: item_added_def demo_add_def item_wf_def pd_upper_def min_absorb2)
  show "fst (demo_add pg item n offnum flags) = 1"
    using assms(2) by (simp add: demo_add_def)
qed

definition demo_item :: "byte list" where
  "demo_item = replicate 22 0 @ [24, 0, 11, 12, 13]"

lemma demo_item_wf: "item_wf demo_item 27"
  by (simp add: item_wf_def demo_item_def t_hoff_def nth_append)

lemma demo_keys_ready:
  obtains v where "GetRelationKeys demo_tde_env demo_loc demo_two_forks = (Inr 0, v)"
    "td_heap v = [single_key (ki_name demo_mk) demo_key]"
    "session_ok (te_crypto demo_tde_env, demo_E, demo_ready, td_heap v ! 0)"
proof -
  have e: "td_keyring demo_two_forks = td_keyring demo_two_forks" "xs_files demo_two_forks = demo_fork"
    "map_of (tde_rel_keys_map demo_two_forks) (relNumber demo_loc) = None" "td_heap demo_two_forks = []"
    by (simp_all add: demo_two_forks_def demo_tde_state_def)
  obtain v where v: "GetRelationKeys demo_tde_env demo_loc demo_two_forks = (Inr 0, v)"
    "td_heap v = [single_key (ki_name demo_mk) demo_key]"
    using demo_GetRelationKeys [OF e(1-3)] e(4) by auto
  moreover have "session_ok (te_crypto demo_tde_env, demo_E, demo_ready, td_heap v ! 0)"
    using v(2) demo_crypto_ready by (simp add: demo_tde_env_def single_key_def key0_def)
  ultimately show thesis by (rule that)
qed

theorem inserted_tuple_is_read_back_witness:
  "\<exists>pg1 pg2 s2 u2. PGTdePageAddItemExtended demo_tde_env demo_add demo_loc 7 demo_item 27 0 0 (demo_two_forks, demo_page) = (Inr 1, (s2, pg2)) \<and>
     length pg2 = length pg1 \<and>
     PGTdeExecStoreBufferHeapTuple demo_tde_env CHR ''r'' demo_loc 7 (tuple_at pg2 (pd_upper pg1) 27) demo_two_forks =
       (Inr (of_nat 27, take 27 demo_item), u2)"
proof -
  obtain v where v: "GetRelationKeys demo_tde_env demo_loc demo_two_forks = (Inr 0, v)"
    "td_heap v = [single_key (ki_name demo_mk) demo_key]" "session_ok (te_crypto demo_tde_env, demo_E, demo_ready, td_heap v ! 0)"
    by (rule demo_keys_ready)
  define pg1 where "pg1 = snd (demo_add demo_page demo_item 27 0 0)"
  have a: "demo_add demo_page demo_item 27 0 0 = (1, pg1)" "item_added pg1 demo_item 27"
    using demo_add_item [OF demo_item_wf, of demo_page 0 0]
    by (simp_all add: pg1_def demo_page_def prod_eq_iff)
  have p: "0 < length (td_heap v)" "CHR ''r'' \<noteq> RELKIND_TOASTVALUE" using v(2) by simp_all
  from inserted_tuple_is_read_back [where add = demo_add and pg = demo_page and item = demo_item and n = 27 and offnum = 0 and flags = 0 and bn = 7,
      OF v(1) p(1) v(3) a demo_item_wf v(1,3) refl p(2)]
  show ?thesis by blast
qed

text \<open>
  (C40) A failed insertion still writes: when the item does not fit and \<^verbatim>\<open>PageAddItemExtended\<close>
  reports so and leaves the page as it is, the wrapper writes the encrypted data over the
  bytes behind the page's \<^verbatim>\<open>pd_upper\<close>, where the last tuple added lies.
\<close>

theorem failed_insert_overwrites_page:
  assumes "GetRelationKeys env rel s = (Inr p, s1)" "p < length (td_heap s1)"
    and "session_ok (te_crypto env, E, ready, td_heap s1 ! p)"
    and "add pg item n offnum flags = (0, pg)" "length pg = BLCKSZ" "unat (pd_upper pg) + n \<le> BLCKSZ" "item_wf item n"
  shows "\<exists>s2 pg2. PGTdePageAddItemExtended env add rel bn item n offnum flags (s, pg) = (Inr 0, (s2, pg2)) \<and>
     take (n - t_hoff item) (drop (unat (pd_upper pg) + t_hoff item) pg2) =
       ctr_xor (session_stream (te_crypto env, E, ready, td_heap s1 ! p))
         (unat (offset_in_file bn (ucast (pd_upper pg)))) (take (n - t_hoff item) (drop (t_hoff item) item))"
proof -
  let ?d = "ctr_xor (session_stream (te_crypto env, E, ready, td_heap s1 ! p))
      (unat (offset_in_file bn (ucast (pd_upper pg)))) (take (n - t_hoff item) (drop (t_hoff item) item))"
  let ?pg2 = "take (unat (pd_upper pg) + t_hoff item) pg @ ?d @ drop (unat (pd_upper pg) + n) pg"
  obtain k where "PGTdePageAddItemExtended env add rel bn item n offnum flags (s, pg) = (Inr 0, (set_keys p k s1, ?pg2))"
    using add_item_result [of env E ready s1 p rel s item n add pg offnum flags 0 pg bn] assms by blast
  moreover have "length (take (unat (pd_upper pg) + t_hoff item) pg) = unat (pd_upper pg) + t_hoff item" "length ?d = n - t_hoff item"
    using assms(5-7) by (simp_all add: item_wf_def min_absorb2 diff_le_mono)
  ultimately show ?thesis by auto
qed

theorem failed_insert_overwrites_page_witness:
  "\<exists>s2 pg2. PGTdePageAddItemExtended demo_tde_env (\<lambda>pg _ _ _ _. (0, pg)) demo_loc 7 demo_item 27 0 0 (demo_two_forks, demo_page) = (Inr 0, (s2, pg2)) \<and>
     take 3 (drop 24 pg2) = ctr_xor (session_stream (te_crypto demo_tde_env, demo_E, demo_ready, single_key (ki_name demo_mk) demo_key))
         (unat (offset_in_file 7 0)) [11, 12, 13]"
proof -
  obtain v where v: "GetRelationKeys demo_tde_env demo_loc demo_two_forks = (Inr 0, v)"
    "td_heap v = [single_key (ki_name demo_mk) demo_key]" "session_ok (te_crypto demo_tde_env, demo_E, demo_ready, td_heap v ! 0)"
    by (rule demo_keys_ready)
  have l: "0 < length (td_heap v)" using v(2) by simp
  have up: "pd_upper demo_page = 0" by (simp add: pd_upper_def demo_page_def un_le_def min_absorb2 numeral_eq_Suc)
  have h: "t_hoff demo_item = 24" "take (27 - 24) (drop 24 demo_item) = [11, 12, 13]"
    by (simp_all add: demo_item_def t_hoff_def nth_append)
  from failed_insert_overwrites_page [OF v(1) l v(3), of "\<lambda>pg _ _ _ _. (0, pg)" demo_page demo_item 27 0 0 7] demo_item_wf up h v(2)
  show ?thesis by (simp add: demo_page_def)
qed

end
