(* ===== verification/TdeDdl.thy ===== *)
theory TdeDdl
  imports TdeMap
begin

text \<open>
  Tables: the DDL hook of \<^verbatim>\<open>src/access/pg_tde_ddl.c\<close>, the DDL callbacks of
  \<^verbatim>\<open>src/access/pg_tdeam_handler.c\<close> that create and move the storage of a table, and the
  start-up of the module, \<^verbatim>\<open>src/pg_tde.c\<close>. PostgreSQL's storage manager is modelled by the
  sequence of calls it receives.
\<close>

section \<open>Relations\<close>

datatype table_am = Pg_tdeam_methods | Other_am nat

record relation =
  rd_locator :: RelFileLocator
  rd_relkind :: char
  rd_relpersistence :: char
  rd_tableam :: table_am

definition is_pg_tde_rel :: "relation \<Rightarrow> bool" where
  "is_pg_tde_rel rel \<longleftrightarrow> rd_tableam rel = Pg_tdeam_methods"

abbreviation (input) RELKIND_RELATION :: char where "RELKIND_RELATION \<equiv> CHR ''r''"
abbreviation (input) RELKIND_MATVIEW :: char where "RELKIND_MATVIEW \<equiv> CHR ''m''"
abbreviation (input) RELKIND_TOAST :: char where "RELKIND_TOAST \<equiv> CHR ''t''"
abbreviation (input) RELPERSISTENCE_UNLOGGED :: char where "RELPERSISTENCE_UNLOGGED \<equiv> CHR ''u''"
abbreviation (input) RELPERSISTENCE_PERMANENT :: char where "RELPERSISTENCE_PERMANENT \<equiv> CHR ''p''"

text \<open>The kinds of relation that have a key fork.\<close>

definition has_key_fork :: "relation \<Rightarrow> bool" where
  "has_key_fork rel \<longleftrightarrow>
     rd_relkind rel = RELKIND_RELATION \<or> rd_relkind rel = RELKIND_MATVIEW \<or> rd_relkind rel = RELKIND_TOAST"

section \<open>The object access hook\<close>

datatype ObjectAccessType =
    OAT_POST_CREATE | OAT_DROP | OAT_POST_ALTER | OAT_NAMESPACE_SEARCH | OAT_FUNCTION_EXECUTE | OAT_TRUNCATE

abbreviation (input) RelationRelationId :: oid where "RelationRelationId \<equiv> 1259"

definition pg_tde_object_access_hook ::
  "('c, 'w) tde_env \<Rightarrow> (oid \<Rightarrow> relation option) \<Rightarrow> ObjectAccessType \<Rightarrow> oid \<Rightarrow> oid \<Rightarrow> int
     \<Rightarrow> (('c, 'w) tde_state, unit) cmd" where
  "pg_tde_object_access_hook env relation_open access classId objectId subId s =
     (if access = OAT_DROP \<and> classId = RelationRelationId
      then (case relation_open objectId of
              None \<Rightarrow> (Inl (Ereport ERROR ''could not open relation''), s)
            | Some rel \<Rightarrow>
                if has_key_fork rel \<and> subId = 0 \<and> is_pg_tde_rel rel
                then pg_tde_delete_key_fork env (rd_locator rel) s
                else (Inr (), s))
      else (Inr (), s))"

section \<open>Storage callbacks of the access method\<close>

datatype ForkNumber = MAIN_FORKNUM | FSM_FORKNUM | VISIBILITYMAP_FORKNUM | INIT_FORKNUM

datatype storage_call =
    RelationCreateStorage RelFileLocator char
  | Smgrcreate RelFileLocator ForkNumber
  | Log_smgrcreate RelFileLocator ForkNumber
  | Smgrimmedsync RelFileLocator ForkNumber
  | Smgrclose RelFileLocator
  | FlushRelationBuffers RelFileLocator
  | RelationCopyStorage RelFileLocator RelFileLocator ForkNumber char
  | RelationDropStorage RelFileLocator
  | RelationTruncate RelFileLocator nat

text \<open>The result has \<^verbatim>\<open>*freezeXid\<close>, \<^verbatim>\<open>*minmulti\<close> and the calls made.\<close>

definition new_storage_calls :: "relation \<Rightarrow> RelFileLocator \<Rightarrow> char \<Rightarrow> storage_call list" where
  "new_storage_calls rel newrlocator persistence =
     [RelationCreateStorage newrlocator persistence] @
     (if persistence = RELPERSISTENCE_UNLOGGED
      then [Smgrcreate newrlocator INIT_FORKNUM, Log_smgrcreate newrlocator INIT_FORKNUM, Smgrimmedsync newrlocator INIT_FORKNUM]
      else []) @
     [Smgrclose newrlocator]"

definition pg_tdeam_relation_set_new_filelocator ::
  "('c, 'w) tde_env \<Rightarrow> uint32 \<Rightarrow> uint32 \<Rightarrow> byte list option \<Rightarrow> byte list option \<Rightarrow> relation \<Rightarrow> RelFileLocator \<Rightarrow> char
     \<Rightarrow> (('c, 'w) tde_state, uint32 \<times> uint32 \<times> storage_call list) cmd" where
  "pg_tdeam_relation_set_new_filelocator env recentXmin oldestMulti krnd mrnd rel newrlocator persistence =
     (if persistence = RELPERSISTENCE_UNLOGGED \<and> \<not> has_key_fork rel
      then throwC (Undefined ''assertion failed: relkind'')
      else bindC (if has_key_fork rel then pg_tde_create_key_fork env krnd mrnd newrlocator else returnC ())
             (\<lambda>_. returnC (recentXmin, oldestMulti, new_storage_calls rel newrlocator persistence)))"

definition pg_tdeam_relation_nontransactional_truncate :: "relation \<Rightarrow> storage_call list" where
  "pg_tdeam_relation_nontransactional_truncate rel = [RelationTruncate (rd_locator rel) 0]"

definition copy_fork_calls :: "(ForkNumber \<Rightarrow> bool) \<Rightarrow> relation \<Rightarrow> RelFileLocator \<Rightarrow> ForkNumber \<Rightarrow> storage_call list" where
  "copy_fork_calls smgrexists rel newrlocator forkNum =
     (if smgrexists forkNum
      then [Smgrcreate newrlocator forkNum] @
           (if rd_relpersistence rel = RELPERSISTENCE_PERMANENT \<or>
               (rd_relpersistence rel = RELPERSISTENCE_UNLOGGED \<and> forkNum = INIT_FORKNUM)
            then [Log_smgrcreate newrlocator forkNum] else []) @
           [RelationCopyStorage (rd_locator rel) newrlocator forkNum (rd_relpersistence rel)]
      else [])"

definition pg_tdeam_relation_copy_data ::
  "(ForkNumber \<Rightarrow> bool) \<Rightarrow> relation \<Rightarrow> RelFileLocator \<Rightarrow> (('c, 'w) tde_state, storage_call list) cmd" where
  "pg_tdeam_relation_copy_data smgrexists rel newrlocator =
     returnC ([FlushRelationBuffers (rd_locator rel),
               RelationCreateStorage newrlocator (rd_relpersistence rel),
               RelationCopyStorage (rd_locator rel) newrlocator MAIN_FORKNUM (rd_relpersistence rel)] @
              concat (map (copy_fork_calls smgrexists rel newrlocator) [FSM_FORKNUM, VISIBILITYMAP_FORKNUM, INIT_FORKNUM]) @
              [RelationDropStorage (rd_locator rel), Smgrclose newrlocator])"

section \<open>Start-up\<close>

text \<open>Hooks of the server are named by what they point to.\<close>

datatype hook = Null | Pg_tde_object_access_hook | Pgsm_shmem_request | Pgsm_shmem_startup | Foreign_hook nat

datatype callback = Pg_tde_xact_callback | Pg_tde_subxact_callback | Foreign_callback nat

record server =
  object_access_hook :: hook
  old_objectaccess_hook :: hook
  shmem_request_hook :: hook
  prev_shmem_request_hook :: hook
  shmem_startup_hook :: hook
  prev_shmem_startup_hook :: hook
  guc_variables :: "string list"
  xact_callbacks :: "callback list"
  subxact_callbacks :: "callback list"
  custom_rmgrs :: "(uint8 \<times> string) list"

definition SetupTdeDDLHooks :: "server \<Rightarrow> server" where
  "SetupTdeDDLHooks sv =
     sv\<lparr>old_objectaccess_hook := object_access_hook sv, object_access_hook := Pg_tde_object_access_hook\<rparr>"

abbreviation (input) RM_TDERMGR_ID :: uint8 where "RM_TDERMGR_ID \<equiv> 128"

definition keyringRegisterVariables :: "server \<Rightarrow> server" where
  "keyringRegisterVariables sv =
     sv\<lparr>guc_variables := guc_variables sv @ [''pg_tde.keyringConfigFile'', ''pg_tde.keyringKeyPrefix'']\<rparr>"

text \<open>Outside of preloading, only a warning is given.\<close>

definition PG_init :: "server \<Rightarrow> server" where
  "PG_init sv =
     (let sv = keyringRegisterVariables sv;
          sv = sv\<lparr>prev_shmem_request_hook := shmem_request_hook sv, shmem_request_hook := Pgsm_shmem_request\<rparr>;
          sv = sv\<lparr>prev_shmem_startup_hook := shmem_startup_hook sv, shmem_startup_hook := Pgsm_shmem_startup\<rparr>;
          sv = sv\<lparr>xact_callbacks := Pg_tde_xact_callback # xact_callbacks sv\<rparr>;
          sv = sv\<lparr>subxact_callbacks := Pg_tde_subxact_callback # subxact_callbacks sv\<rparr>;
          sv = SetupTdeDDLHooks sv
      in sv\<lparr>custom_rmgrs := custom_rmgrs sv @ [(RM_TDERMGR_ID, ''test_pg_tde_custom_rmgr'')]\<rparr>)"

text \<open>
  The shared memory hooks: the calls of the previous hooks are the parameter; the cache is
  asked for its size and then set up, and the cipher handles are initialised. The size counts
  the 1024 entries of a 256-byte name, 32 bytes and a length, and the count.
\<close>

definition keyringCacheMemorySize :: nat where
  "keyringCacheMemorySize = 1024 * (256 + (32 + 4)) + 4"

definition pgsm_shmem_request :: "(hook \<Rightarrow> nat \<Rightarrow> nat) \<Rightarrow> server \<Rightarrow> nat \<Rightarrow> nat" where
  "pgsm_shmem_request call_hook sv amount =
     (let amount = (if prev_shmem_request_hook sv \<noteq> Null then call_hook (prev_shmem_request_hook sv) amount else amount)
      in amount + keyringCacheMemorySize)"

definition pgsm_shmem_startup ::
  "keyring_config \<Rightarrow> bool \<Rightarrow> 'c openssl \<Rightarrow> ('w keyring_state \<times> aes_globals, unit) cmd" where
  "pgsm_shmem_startup cfg found ossl s =
     (case keyringInitCache cfg found (fst s) of
        (Inl e, k) \<Rightarrow> (Inl e, (k, snd s))
      | (Inr _, k) \<Rightarrow> (Inr (), (k, AesInit ossl (snd s))))"

section \<open>Properties\<close>

text \<open>
  (C35) Dropping a table: at any nesting level and whatever other deletions are pending, dropping
  an encrypted table only asks for the deletion of its key file. When the transaction commits
  next, the files are those of a commit without the drop and the key file is gone, if the system lets
  it be removed; after every other event of a transaction or subtransaction, an abort or a PREPARE
  among them, they are those without the drop. For a relation of another access method, an index or a
  dropped column nothing is asked for.
\<close>

theorem drop_deletes_key_file_at_commit:
  assumes "relation_open objectId = Some rel" "pg_tde_get_key_file_path env (rd_locator rel) = Some f"
  shows "\<exists>t. pg_tde_object_access_hook env relation_open OAT_DROP RelationRelationId objectId subId s = (Inr (), t) \<and>
     (if has_key_fork rel \<and> subId = 0 \<and> is_pg_tde_rel rel
      then xs_files t = xs_files s \<and>
        (\<forall>ev. xs_files (pg_tde_xact_callback unlink_ok ev t) =
           (if ev = XACT_EVENT_COMMIT then remove_files unlink_ok {f} else id) (xs_files (pg_tde_xact_callback unlink_ok ev s))) \<and>
        (\<forall>ev. xs_files (pg_tde_subxact_callback unlink_ok ev t) = xs_files (pg_tde_subxact_callback unlink_ok ev s))
      else t = s)"
proof (cases "has_key_fork rel \<and> subId = 0 \<and> is_pg_tde_rel rel")
  case True
  let ?t = "RegisterFileForDeletion f True s"
  have "pg_tde_object_access_hook env relation_open OAT_DROP RelationRelationId objectId subId s = (Inr (), ?t)"
    using True assms by (simp add: pg_tde_object_access_hook_def pg_tde_delete_key_fork_def)
  moreover have "xs_files (pg_tde_xact_callback unlink_ok ev ?t) =
      (if ev = XACT_EVENT_COMMIT then remove_files unlink_ok {f} else id) (xs_files (pg_tde_xact_callback unlink_ok ev s))"
    "xs_files (pg_tde_subxact_callback unlink_ok ev' ?t) = xs_files (pg_tde_subxact_callback unlink_ok ev' s)" for ev ev'
    by (auto simp: pg_tde_xact_callback_def pg_tde_subxact_callback_def xact_results RegisterFileForDeletion_def
        remove_files_def fun_eq_iff)
  ultimately show ?thesis
    using True by (intro exI [of _ ?t]) (simp add: RegisterFileForDeletion_def)
next
  case False
  then have "pg_tde_object_access_hook env relation_open OAT_DROP RelationRelationId objectId subId s = (Inr (), s)"
    using assms(1) by (auto simp: pg_tde_object_access_hook_def)
  then show ?thesis using False by auto
qed

definition demo_rel :: relation where
  "demo_rel = \<lparr>rd_locator = demo_loc, rd_relkind = RELKIND_RELATION, rd_relpersistence = RELPERSISTENCE_PERMANENT,
     rd_tableam = Pg_tdeam_methods\<rparr>"

theorem drop_deletes_key_file_at_commit_witness:
  "\<exists>t. pg_tde_object_access_hook demo_tde_env (\<lambda>_. Some demo_rel) OAT_DROP RelationRelationId 16384 0 demo_tde_state = (Inr (), t) \<and>
     xs_files (pg_tde_xact_callback (\<lambda>_. True) XACT_EVENT_COMMIT t) demo_path = None"
proof -
  have "pg_tde_get_key_file_path demo_tde_env (rd_locator demo_rel) = Some demo_path"
    using demo_path by (simp add: demo_rel_def)
  moreover have "has_key_fork demo_rel" "is_pg_tde_rel demo_rel"
    by (simp_all add: demo_rel_def has_key_fork_def is_pg_tde_rel_def)
  ultimately show ?thesis
    using drop_deletes_key_file_at_commit [of "\<lambda>_. Some demo_rel" 16384 demo_rel demo_tde_env demo_path 0 demo_tde_state "\<lambda>_. True"]
    by (auto simp: remove_files_def)
qed

text \<open>
  Moving a table leaves its key behind: \<open>pg_tdeam_relation_copy_data\<close> copies the forks
  of PostgreSQL's storage manager to the new locator and drops the old storage, but neither
  copies the key file nor writes one for the new locator; a backend that then looks for the
  keys of the new locator ends with a FATAL error.
\<close>

lemma moved_table_has_no_key:
  assumes "pg_tde_get_key_file_path env newloc = Some f" "xs_files s f = None"
    and "map_of (tde_rel_keys_map s) (relNumber newloc) = None"
  shows "\<exists>calls t. pg_tdeam_relation_copy_data smgrexists rel newloc s = (Inr calls, t) \<and>
     RelationDropStorage (rd_locator rel) \<in> set calls \<and>
     (\<exists>e u. GetRelationKeys env newloc t = (Inl (Ereport FATAL e), u))"
  using assms
  by (auto simp: pg_tdeam_relation_copy_data_def returnC_def GetRelationKeys_def bindC_def pg_tde_get_keys_from_fork_def)

lemma moved_table_has_no_key_witness:
  "\<exists>calls t. pg_tdeam_relation_copy_data (\<lambda>_. True) (demo_rel\<lparr>rd_locator := demo_loc\<lparr>relNumber := 99\<rparr>\<rparr>) demo_loc demo_tde_state = (Inr calls, t) \<and>
     (\<exists>e u. GetRelationKeys demo_tde_env demo_loc t = (Inl (Ereport FATAL e), u))"
proof -
  have "xs_files demo_tde_state demo_path = None" "map_of (tde_rel_keys_map demo_tde_state) (relNumber demo_loc) = None"
    by (simp_all add: demo_tde_state_def)
  from moved_table_has_no_key [OF demo_path this, of "\<lambda>_. True" "demo_rel\<lparr>rd_locator := demo_loc\<lparr>relNumber := 99\<rparr>\<rparr>"]
  show ?thesis by blast
qed

end
