(* ===== verification/VisibilityMap.thy ===== *)
theory VisibilityMap
  imports TdePrelude
begin

text \<open>
  The visibility map, \<^verbatim>\<open>src/access/pg_tde_visibilitymap.c\<close>: two bits per heap block in the
  pages of a fork of the relation. The state is that fork as one backend sees it through the
  buffer manager; a buffer is the number of the map block it holds. Locks and pins are left
  out. The specification is a function from heap blocks to their two bits.
\<close>

unbundle bit_operations_syntax

section \<open>State\<close>

abbreviation (input) MAPSIZE :: "'a::numeral" where "MAPSIZE \<equiv> 8168"
abbreviation (input) HEAPBLOCKS_PER_BYTE :: "'a::numeral" where "HEAPBLOCKS_PER_BYTE \<equiv> 4"
abbreviation (input) HEAPBLOCKS_PER_PAGE :: "'a::numeral" where "HEAPBLOCKS_PER_PAGE \<equiv> 32672"
abbreviation (input) BITS_PER_HEAPBLOCK :: "'a::numeral" where "BITS_PER_HEAPBLOCK \<equiv> 2"
abbreviation (input) VISIBILITYMAP_ALL_VISIBLE :: uint8 where "VISIBILITYMAP_ALL_VISIBLE \<equiv> 0x01"
abbreviation (input) VISIBILITYMAP_ALL_FROZEN :: uint8 where "VISIBILITYMAP_ALL_FROZEN \<equiv> 0x02"
abbreviation (input) VISIBILITYMAP_VALID_BITS :: uint8 where "VISIBILITYMAP_VALID_BITS \<equiv> 0x03"
abbreviation (input) VISIBILITYMAP_XLOG_CATALOG_REL :: uint8 where "VISIBILITYMAP_XLOG_CATALOG_REL \<equiv> 0x04"
abbreviation (input) InvalidBlockNumber :: block_number where "InvalidBlockNumber \<equiv> 0xFFFFFFFF"

record vm_page =
  vp_new :: bool
  vp_map :: "byte list"
  vp_lsn :: uint64
  vp_dirty :: bool

datatype vm_log = Log_visible block_number block_number uint32 uint8 bool | Log_newpage block_number

text \<open>
  \<open>Log_visible\<close> has the heap block, the map block, the conflict horizon, the flags and whether
  the image of the heap page is left out.
\<close>

record vm_fork =
  vm_exists :: bool
  vm_pages :: "vm_page list"
  smgr_cached_nblocks :: block_number
  vm_wal :: "vm_log list"

text \<open>
  What the map calls outside the repository: \<open>vm_insert_lsn\<close> is the position that
  \<^verbatim>\<open>XLogInsert\<close> gives the next record; \<open>ExtendBufferedRelTo\<close> gives the pages of the fork
  after an extension, \<open>PageInit\<close> the page after its initialisation.
\<close>

record vm_env =
  InRecovery :: bool
  RelationNeedsWAL :: bool
  XLogHintBitIsNeeded :: bool
  RelationIsAccessibleInLogicalDecoding :: bool
  vm_insert_lsn :: "vm_log list \<Rightarrow> uint64"
  ExtendBufferedRelTo :: "block_number \<Rightarrow> vm_page list \<Rightarrow> vm_page list"
  PageInit :: "vm_page \<Rightarrow> vm_page"
  pg_popcount64 :: "uint64 \<Rightarrow> int32"

type_synonym vm_buffer = "block_number option"

text \<open>
  Their documented behaviour: extending keeps the pages there are and adds zeroed pages up to
  the length asked for, initialising empties the page, and the population count counts bits.
\<close>

definition vm_env_ok :: "vm_env \<Rightarrow> bool" where
  "vm_env_ok env \<longleftrightarrow>
     (\<forall>n ps. length (ExtendBufferedRelTo env n ps) = max (unat n) (length ps) \<and>
        take (length ps) (ExtendBufferedRelTo env n ps) = ps \<and>
        (\<forall>pg\<in>set (drop (length ps) (ExtendBufferedRelTo env n ps)). vp_new pg \<and> vp_map pg = replicate MAPSIZE 0)) \<and>
     (\<forall>pg. \<not> vp_new (PageInit env pg) \<and> vp_map (PageInit env pg) = replicate MAPSIZE 0) \<and>
     (\<forall>x. pg_popcount64 env x = of_nat (card {n. bit x n}))"

section \<open>From heap blocks to bits\<close>

definition HEAPBLK_TO_MAPBLOCK :: "block_number \<Rightarrow> block_number" where
  "HEAPBLK_TO_MAPBLOCK x = x div HEAPBLOCKS_PER_PAGE"

definition HEAPBLK_TO_MAPBYTE :: "block_number \<Rightarrow> uint32" where
  "HEAPBLK_TO_MAPBYTE x = (x mod HEAPBLOCKS_PER_PAGE) div HEAPBLOCKS_PER_BYTE"

definition HEAPBLK_TO_OFFSET :: "block_number \<Rightarrow> uint32" where
  "HEAPBLK_TO_OFFSET x = (x mod HEAPBLOCKS_PER_BYTE) * BITS_PER_HEAPBLOCK"

section \<open>Reading map pages\<close>

definition smgrnblocks :: "vm_fork \<Rightarrow> block_number \<times> vm_fork" where
  "smgrnblocks s = (of_nat (length (vm_pages s)), s\<lparr>smgr_cached_nblocks := of_nat (length (vm_pages s))\<rparr>)"

definition vm_extend :: "vm_env \<Rightarrow> block_number \<Rightarrow> vm_fork \<Rightarrow> vm_buffer \<times> vm_fork" where
  "vm_extend env vm_nblocks s =
     (let pages = ExtendBufferedRelTo env vm_nblocks (vm_pages s)
      in (Some (vm_nblocks - 1),
          s\<lparr>vm_exists := True, vm_pages := pages, smgr_cached_nblocks := of_nat (length pages)\<rparr>))"

definition upd_page :: "nat \<Rightarrow> (vm_page \<Rightarrow> vm_page) \<Rightarrow> vm_fork \<Rightarrow> vm_fork" where
  "upd_page i f s = s\<lparr>vm_pages := (vm_pages s)[i := f (vm_pages s ! i)]\<rparr>"

definition vm_check_size :: "vm_fork \<Rightarrow> vm_fork" where
  "vm_check_size s =
     (if smgr_cached_nblocks s = InvalidBlockNumber
      then (if vm_exists s then snd (smgrnblocks s) else s\<lparr>smgr_cached_nblocks := 0\<rparr>)
      else s)"

definition vm_readbuf :: "vm_env \<Rightarrow> block_number \<Rightarrow> bool \<Rightarrow> (vm_fork, vm_buffer) cmd" where
  "vm_readbuf env blkno extending s =
     (let s = vm_check_size s
      in if blkno \<ge> smgr_cached_nblocks s \<and> \<not> extending then (Inr None, s)
         else
           (let (buf, s) = (if blkno \<ge> smgr_cached_nblocks s then vm_extend env (blkno + 1) s else (Some blkno, s))
            in if length (vm_pages s) \<le> unat blkno
               then (Inl (Ereport ERROR ''could not read block''), s)
               else (Inr buf,
                     if vp_new (vm_pages s ! unat blkno) then upd_page (unat blkno) (PageInit env) s else s)))"

section \<open>Operations\<close>

text \<open>A full-page record gives the page its position.\<close>

definition log_newpage_buffer :: "vm_env \<Rightarrow> block_number \<Rightarrow> vm_fork \<Rightarrow> vm_fork" where
  "log_newpage_buffer env b s =
     upd_page (unat b) (\<lambda>pg. pg\<lparr>vp_lsn := vm_insert_lsn env (vm_wal s)\<rparr>) (s\<lparr>vm_wal := vm_wal s @ [Log_newpage b]\<rparr>)"

definition pg_tde_visibilitymap_clear :: "block_number \<Rightarrow> vm_buffer \<Rightarrow> uint8 \<Rightarrow> (vm_fork, bool) cmd" where
  "pg_tde_visibilitymap_clear heapBlk vmbuf flags s =
     (let mapBlock = HEAPBLK_TO_MAPBLOCK heapBlk;
          mapByte = unat (HEAPBLK_TO_MAPBYTE heapBlk);
          mapOffset = unat (HEAPBLK_TO_OFFSET heapBlk);
          mask = push_bit mapOffset flags
      in if flags AND VISIBILITYMAP_VALID_BITS = 0 \<or> flags = VISIBILITYMAP_ALL_VISIBLE
         then (Inl (Undefined ''assertion failed: flags''), s)
         else if vmbuf \<noteq> Some mapBlock
         then (Inl (Ereport ERROR ''wrong buffer passed to pg_tde_visibilitymap_clear''), s)
         else if length (vm_pages s) \<le> unat mapBlock then (Inl (Undefined ''no such buffer''), s)
         else
           (let map = vp_map (vm_pages s ! unat mapBlock)
            in if map ! mapByte AND mask \<noteq> 0
               then (Inr True, upd_page (unat mapBlock)
                       (\<lambda>pg. pg\<lparr>vp_map := map[mapByte := map ! mapByte AND NOT mask], vp_dirty := True\<rparr>) s)
               else (Inr False, s)))"

definition pg_tde_visibilitymap_pin :: "vm_env \<Rightarrow> block_number \<Rightarrow> vm_buffer \<Rightarrow> (vm_fork, vm_buffer) cmd" where
  "pg_tde_visibilitymap_pin env heapBlk vmbuf =
     (let mapBlock = HEAPBLK_TO_MAPBLOCK heapBlk
      in if vmbuf = Some mapBlock then returnC vmbuf else vm_readbuf env mapBlock True)"

definition pg_tde_visibilitymap_pin_ok :: "block_number \<Rightarrow> vm_buffer \<Rightarrow> bool" where
  "pg_tde_visibilitymap_pin_ok heapBlk vmbuf = (vmbuf = Some (HEAPBLK_TO_MAPBLOCK heapBlk))"

definition log_pg_tde_visible :: "vm_env \<Rightarrow> block_number \<Rightarrow> block_number \<Rightarrow> uint32 \<Rightarrow> uint8 \<Rightarrow> vm_fork \<Rightarrow> uint64 \<times> vm_fork" where
  "log_pg_tde_visible env heapBlk vmBlk cutoff_xid vmflags s =
     (let flags = (if RelationIsAccessibleInLogicalDecoding env then vmflags OR VISIBILITYMAP_XLOG_CATALOG_REL else vmflags)
      in (vm_insert_lsn env (vm_wal s),
          s\<lparr>vm_wal := vm_wal s @ [Log_visible heapBlk vmBlk cutoff_xid flags (\<not> XLogHintBitIsNeeded env)]\<rparr>))"

text \<open>
  \<open>heapBuf\<close> is the block number of the heap buffer and its PD_ALL_VISIBLE bit. The result is
  the position that the heap page's LSN is set to, if it is.
\<close>

definition pg_tde_visibilitymap_set ::
  "vm_env \<Rightarrow> block_number \<Rightarrow> (block_number \<times> bool) option \<Rightarrow> uint64 \<Rightarrow> vm_buffer \<Rightarrow> uint32 \<Rightarrow> uint8
     \<Rightarrow> (vm_fork, uint64 option) cmd" where
  "pg_tde_visibilitymap_set env heapBlk heapBuf recptr vmBuf cutoff_xid flags s =
     (let mapBlock = HEAPBLK_TO_MAPBLOCK heapBlk;
          mapByte = unat (HEAPBLK_TO_MAPBYTE heapBlk);
          mapOffset = unat (HEAPBLK_TO_OFFSET heapBlk)
      in if \<not> (InRecovery env \<or> recptr = 0) \<or>
            \<not> (InRecovery env \<or> (case heapBuf of Some (b, v) \<Rightarrow> v | None \<Rightarrow> False)) \<or>
            flags AND VISIBILITYMAP_VALID_BITS \<noteq> flags \<or> flags = VISIBILITYMAP_ALL_FROZEN
         then (Inl (Undefined ''assertion failed''), s)
         else if (case heapBuf of Some (b, v) \<Rightarrow> b \<noteq> heapBlk | None \<Rightarrow> False)
         then (Inl (Ereport ERROR ''wrong heap buffer passed to pg_tde_visibilitymap_set''), s)
         else if vmBuf \<noteq> Some mapBlock
         then (Inl (Ereport ERROR ''wrong VM buffer passed to pg_tde_visibilitymap_set''), s)
         else if length (vm_pages s) \<le> unat mapBlock then (Inl (Undefined ''no such buffer''), s)
         else
           (let map = vp_map (vm_pages s ! unat mapBlock)
            in if flags \<noteq> drop_bit mapOffset (map ! mapByte) AND VISIBILITYMAP_VALID_BITS
               then
                 (let s = upd_page (unat mapBlock)
                            (\<lambda>pg. pg\<lparr>vp_map := map[mapByte := map ! mapByte OR push_bit mapOffset flags], vp_dirty := True\<rparr>) s
                  in if \<not> RelationNeedsWAL env then (Inr None, s)
                     else if recptr = 0 \<and> InRecovery env then (Inl (Undefined ''assertion failed''), s)
                     else
                       (let (lsn, s) = (if recptr = 0 then log_pg_tde_visible env heapBlk mapBlock cutoff_xid flags s else (recptr, s));
                            heap = (if recptr = 0 \<and> XLogHintBitIsNeeded env then Some lsn else None)
                        in (Inr heap, upd_page (unat mapBlock) (\<lambda>pg. pg\<lparr>vp_lsn := lsn\<rparr>) s)))
               else (Inr None, s)))"

text \<open>
  The map is read through a \<^verbatim>\<open>char\<close> pointer, so the byte is extended with its sign before it
  is shifted. The second result is the buffer handed back.
\<close>

definition pg_tde_visibilitymap_get_status ::
  "vm_env \<Rightarrow> block_number \<Rightarrow> vm_buffer \<Rightarrow> (vm_fork, uint8 \<times> vm_buffer) cmd" where
  "pg_tde_visibilitymap_get_status env heapBlk vmbuf =
     (let mapBlock = HEAPBLK_TO_MAPBLOCK heapBlk;
          mapByte = unat (HEAPBLK_TO_MAPBYTE heapBlk);
          mapOffset = unat (HEAPBLK_TO_OFFSET heapBlk)
      in bindC (if vmbuf = Some mapBlock then returnC vmbuf else vm_readbuf env mapBlock False)
           (\<lambda>buf s. case buf of
              None \<Rightarrow> (Inr (0, None), s)
            | Some b \<Rightarrow>
                if length (vm_pages s) \<le> unat b then (Inl (Undefined ''no such buffer''), s)
                else (let c = scast (vp_map (vm_pages s ! unat b) ! mapByte) :: int32
                      in (Inr (ucast (signed_drop_bit mapOffset c AND 0x03), Some b), s))))"

definition VM_ALL_VISIBLE :: "vm_env \<Rightarrow> block_number \<Rightarrow> vm_buffer \<Rightarrow> (vm_fork, bool \<times> vm_buffer) cmd" where
  "VM_ALL_VISIBLE env b v = bindC (pg_tde_visibilitymap_get_status env b v)
     (\<lambda>(st, buf). returnC (st AND VISIBILITYMAP_ALL_VISIBLE \<noteq> 0, buf))"

definition VM_ALL_FROZEN :: "vm_env \<Rightarrow> block_number \<Rightarrow> vm_buffer \<Rightarrow> (vm_fork, bool \<times> vm_buffer) cmd" where
  "VM_ALL_FROZEN env b v = bindC (pg_tde_visibilitymap_get_status env b v)
     (\<lambda>(st, buf). returnC (st AND VISIBILITYMAP_ALL_FROZEN \<noteq> 0, buf))"

text \<open>
  The map is counted eight bytes at a time; \<open>map_word\<close> is the little-endian word that
  \<^verbatim>\<open>map[i]\<close> reads. \<open>frozen\<close> tells whether the second counter was asked for.
\<close>

abbreviation (input) VISIBLE_MASK64 :: uint64 where "VISIBLE_MASK64 \<equiv> 0x5555555555555555"
abbreviation (input) FROZEN_MASK64 :: uint64 where "FROZEN_MASK64 \<equiv> 0xaaaaaaaaaaaaaaaa"

definition map_word :: "byte list \<Rightarrow> nat \<Rightarrow> uint64" where
  "map_word mp i = word_rcat (rev (take 8 (drop (8 * i) mp)))"

definition count_page :: "vm_env \<Rightarrow> bool \<Rightarrow> byte list \<Rightarrow> uint32 \<times> uint32 \<Rightarrow> uint32 \<times> uint32" where
  "count_page env frozen mp n =
     fold (\<lambda>i (nvisible, nfrozen).
        (nvisible + pg_popcount64 env (map_word mp i AND VISIBLE_MASK64),
         if frozen then nfrozen + pg_popcount64 env (map_word mp i AND FROZEN_MASK64) else nfrozen))
       [0..<MAPSIZE div 8] n"

function visibilitymap_count_loop ::
  "vm_env \<Rightarrow> bool \<Rightarrow> block_number \<Rightarrow> uint32 \<times> uint32 \<Rightarrow> (vm_fork, uint32 \<times> uint32) cmd" where
  "visibilitymap_count_loop env frozen mapBlock n s =
     (case vm_readbuf env mapBlock False s of
        (Inl e, s) \<Rightarrow> (Inl e, s)
      | (Inr None, s) \<Rightarrow> (Inr n, s)
      | (Inr (Some b), s) \<Rightarrow>
          visibilitymap_count_loop env frozen (mapBlock + 1)
            (count_page env frozen (vp_map (vm_pages s ! unat b)) n) s)"
  by pat_completeness auto

lemma vm_readbuf_last:
  "vm_readbuf env blkno False s = (Inr (Some b), t) \<Longrightarrow> unat blkno < unat (0xFFFFFFFF :: block_number)"
proof (rule ccontr)
  assume t: "vm_readbuf env blkno False s = (Inr (Some b), t)" and "\<not> unat blkno < unat (0xFFFFFFFF :: block_number)"
  then have "unat (0xFFFFFFFF :: block_number) \<le> unat blkno" by simp
  then have "smgr \<le> blkno" for smgr :: block_number
    using unat_bound [of smgr] unfolding word_le_nat_alt by simp
  with t show False
    by (simp add: vm_readbuf_def Let_def)
qed

lemma vm_readbuf_next:
  assumes "vm_readbuf env blkno False s = (Inr (Some b), t)"
  shows "unat (0xFFFFFFFF :: block_number) - unat (blkno + 1) < unat (0xFFFFFFFF :: block_number) - unat blkno"
proof -
  from vm_readbuf_last [OF assms] have lt: "unat blkno < unat (0xFFFFFFFF :: block_number)" .
  then have "unat (blkno + 1) = unat blkno + 1"
    by (intro unat_plus_1_less [of _ "0xFFFFFFFF"]) (simp add: word_less_nat_alt)
  with lt show ?thesis by simp
qed

termination visibilitymap_count_loop
  apply (relation "measure (\<lambda>(env, frozen, mapBlock, n, s). unat (0xFFFFFFFF :: block_number) - unat mapBlock)")
   apply simp
  apply (simp only: in_measure prod.case)
  apply (rule vm_readbuf_next)
  apply (erule sym)
  done

definition pg_tde_visibilitymap_count ::
  "vm_env \<Rightarrow> bool \<Rightarrow> (vm_fork, uint32 \<times> uint32 option) cmd" where
  "pg_tde_visibilitymap_count env frozen =
     bindC (visibilitymap_count_loop env frozen 0 (0, 0))
       (\<lambda>(nvisible, nfrozen). returnC (nvisible, if frozen then Some nfrozen else None))"

text \<open>The tail of the page that holds the first truncated heap block.\<close>

definition clear_tail :: "nat \<Rightarrow> nat \<Rightarrow> byte list \<Rightarrow> byte list" where
  "clear_tail truncByte truncOffset mp =
     (let mp = take (truncByte + 1) mp @ replicate (MAPSIZE - (truncByte + 1)) 0
      in mp[truncByte := mp ! truncByte AND (push_bit truncOffset 1 - 1)])"

definition pg_tde_visibilitymap_prepare_truncate ::
  "vm_env \<Rightarrow> block_number \<Rightarrow> (vm_fork, block_number) cmd" where
  "pg_tde_visibilitymap_prepare_truncate env nheapblocks s =
     (let truncBlock = HEAPBLK_TO_MAPBLOCK nheapblocks;
          truncByte = HEAPBLK_TO_MAPBYTE nheapblocks;
          truncOffset = HEAPBLK_TO_OFFSET nheapblocks;
          finish = (\<lambda>newnblocks s. case smgrnblocks s of
                      (n, s) \<Rightarrow> (Inr (if n \<le> newnblocks then InvalidBlockNumber else newnblocks), s))
      in if \<not> vm_exists s then (Inr InvalidBlockNumber, s)
         else if truncByte \<noteq> 0 \<or> truncOffset \<noteq> 0 then
           (case vm_readbuf env truncBlock False s of
              (Inl e, s) \<Rightarrow> (Inl e, s)
            | (Inr None, s) \<Rightarrow> (Inr InvalidBlockNumber, s)
            | (Inr (Some b), s) \<Rightarrow>
                (let s = upd_page (unat b)
                       (\<lambda>pg. pg\<lparr>vp_map := clear_tail (unat truncByte) (unat truncOffset) (vp_map pg), vp_dirty := True\<rparr>) s;
                     s = (if \<not> InRecovery env \<and> RelationNeedsWAL env \<and> XLogHintBitIsNeeded env
                          then log_newpage_buffer env b s else s)
                 in finish (truncBlock + 1) s))
         else finish truncBlock s)"

declare visibilitymap_count_loop.simps [simp del]

section \<open>The map as two bits per heap block\<close>

definition pages_status :: "vm_page list \<Rightarrow> nat \<Rightarrow> uint8" where
  "pages_status ps n =
     (if n div HEAPBLOCKS_PER_PAGE < length ps
      then drop_bit (n mod 4 * 2) (vp_map (ps ! (n div HEAPBLOCKS_PER_PAGE)) ! (n mod HEAPBLOCKS_PER_PAGE div 4)) AND 3
      else 0)"

definition vm_status :: "vm_fork \<Rightarrow> block_number \<Rightarrow> uint8" where
  "vm_status s b = pages_status (vm_pages s) (unat b)"

text \<open>
  The pages have their size, pages not yet initialised are empty, and the cached length of the
  fork is right or absent. A fork never has more pages than cover all block numbers.
\<close>

definition vm_inv :: "vm_fork \<Rightarrow> bool" where
  "vm_inv s \<longleftrightarrow>
     (\<forall>pg\<in>set (vm_pages s). length (vp_map pg) = MAPSIZE \<and> (vp_new pg \<longrightarrow> vp_map pg = replicate MAPSIZE 0)) \<and>
     length (vm_pages s) \<le> 131458 \<and> (\<not> vm_exists s \<longrightarrow> vm_pages s = []) \<and>
     (smgr_cached_nblocks s = InvalidBlockNumber \<or> smgr_cached_nblocks s = of_nat (length (vm_pages s)))"

lemma MAPBLOCK_nat: "unat (HEAPBLK_TO_MAPBLOCK b) = unat b div HEAPBLOCKS_PER_PAGE"
  by (simp add: HEAPBLK_TO_MAPBLOCK_def unat_div)

lemma MAPBYTE_nat: "unat (HEAPBLK_TO_MAPBYTE b) = unat b mod HEAPBLOCKS_PER_PAGE div 4"
  by (simp add: HEAPBLK_TO_MAPBYTE_def unat_div unat_mod)

lemma OFFSET_nat: "unat (HEAPBLK_TO_OFFSET b) = unat b mod 4 * 2"
proof -
  have "unat (b mod 4) * unat (2 :: uint32) < 2 ^ 32"
    by (simp add: unat_mod less_trans [OF mult_strict_right_mono [of "unat b mod 4" 4 2]])
  then show ?thesis
    by (simp add: HEAPBLK_TO_OFFSET_def unat_word_ariths unat_mod)
qed

lemmas heapblk_nat = MAPBLOCK_nat MAPBYTE_nat OFFSET_nat

lemma MAPBLOCK_bound: "unat (HEAPBLK_TO_MAPBLOCK b) < 131458"
  using unat_bound [of b] unfolding MAPBLOCK_nat by (intro less_mult_imp_div_less) simp

lemma heap_slot_inj:
  fixes m n :: nat
  assumes "m div 32672 = n div 32672" "m mod 32672 div 4 = n mod 32672 div 4" "m mod 4 = n mod 4"
  shows "m = n"
proof -
  have "(m mod 32672) mod 4 = m mod 4" "(n mod 32672) mod 4 = n mod 4"
    by (simp_all add: mod_mod_cancel)
  with assms have "m mod 32672 = n mod 32672"
    by (metis mod_mult_div_eq mult.commute mod_div_mult_eq)
  with assms(1) show ?thesis
    by (metis div_mult_mod_eq)
qed

text \<open>One byte holds four entries that do not disturb each other.\<close>

lemma bit_3_word: "2 \<le> LENGTH('a) \<Longrightarrow> bit (3 :: 'a::len word) n \<longleftrightarrow> n < 2"
proof -
  assume len: "2 \<le> LENGTH('a)"
  have "(3 :: 'a word) = mask 2" by (simp add: mask_eq_exp_minus_1)
  with len show ?thesis by (simp only: bit_mask_iff possible_bit_word) auto
qed

lemma bit_3_iff: "bit (3 :: nat) n \<longleftrightarrow> n < 2" "bit (3 :: int) n \<longleftrightarrow> n < 2"
proof -
  have "(3 :: nat) = mask 2" "(3 :: int) = mask 2" by (simp_all add: mask_eq_exp_minus_1)
  then show "bit (3 :: nat) n \<longleftrightarrow> n < 2" "bit (3 :: int) n \<longleftrightarrow> n < 2"
    by (simp_all only: bit_mask_iff) (simp_all add: possible_bit_def)
qed

lemma flags_bit:
  fixes f :: uint8
  assumes "f AND 3 = f" and "bit f n"
  shows "n < 2"
proof -
  have "bit (f AND 3) n" using assms by simp
  then show ?thesis by (simp add: bit_simps bit_3_iff)
qed

lemma entry_or:
  fixes x f :: uint8
  assumes "i < 4" "j < 4" "f AND 3 = f"
  shows "drop_bit (j * 2) (x OR push_bit (i * 2) f) AND 3 =
     (if i = j then (drop_bit (j * 2) x AND 3) OR f else drop_bit (j * 2) x AND 3)"
proof (rule bit_word_eqI)
  fix n assume "n < LENGTH(8)"
  have "bit f (j * 2 + n - i * 2) \<and> i * 2 \<le> j * 2 + n \<and> n < 2 \<longleftrightarrow> i = j \<and> bit f n"
    using flags_bit [OF assms(3), of "j * 2 + n - i * 2"] flags_bit [OF assms(3), of n] by (cases "i = j") auto
  moreover have "n < 2 \<Longrightarrow> j * 2 + n < 8" using assms by simp
  ultimately show "bit (drop_bit (j * 2) (x OR push_bit (i * 2) f) AND 3) n =
     bit (if i = j then (drop_bit (j * 2) x AND 3) OR f else drop_bit (j * 2) x AND 3) n"
    by (auto simp: bit_simps bit_3_iff)
qed

lemma entry_and_not:
  fixes x f :: uint8
  assumes "i < 4" "j < 4" "f AND 3 = f"
  shows "drop_bit (j * 2) (x AND NOT (push_bit (i * 2) f)) AND 3 =
     (if i = j then (drop_bit (j * 2) x AND 3) AND NOT f else drop_bit (j * 2) x AND 3)"
proof (rule bit_word_eqI)
  fix n assume n: "n < LENGTH(8)"
  have "bit f (j * 2 + n - i * 2) \<and> i * 2 \<le> j * 2 + n \<and> n < 2 \<longleftrightarrow> i = j \<and> bit f n"
    using flags_bit [OF assms(3), of "j * 2 + n - i * 2"] flags_bit [OF assms(3), of n] by (cases "i = j") auto
  moreover have "n < 2 \<Longrightarrow> j * 2 + n < 8" using assms by simp
  ultimately show "bit (drop_bit (j * 2) (x AND NOT (push_bit (i * 2) f)) AND 3) n =
     bit (if i = j then (drop_bit (j * 2) x AND 3) AND NOT f else drop_bit (j * 2) x AND 3) n"
    using n by (auto simp: bit_simps bit_3_iff)
qed

lemma entry_mask_zero:
  fixes x f :: uint8
  assumes "i < 4" "f AND 3 = f" "x AND push_bit (i * 2) f = 0"
  shows "(drop_bit (i * 2) x AND 3) AND NOT f = drop_bit (i * 2) x AND 3"
proof (rule bit_word_eqI)
  fix n assume n: "n < LENGTH(8)"
  have "bit f n \<Longrightarrow> \<not> bit x (i * 2 + n)"
  proof
    assume f: "bit f n" and x: "bit x (i * 2 + n)"
    have "n < 2" using flags_bit [OF assms(2) f] .
    with assms(1) have "i * 2 + n < 8" by simp
    with f x have "bit (x AND push_bit (i * 2) f) (i * 2 + n)" by (simp add: bit_simps)
    with assms(3) show False by simp
  qed
  with n show "bit ((drop_bit (i * 2) x AND 3) AND NOT f) n = bit (drop_bit (i * 2) x AND 3) n"
    by (auto simp: bit_simps)
qed

text \<open>The sign of the byte does not reach the two bits that are kept.\<close>

lemma signed_entry:
  fixes x :: uint8
  assumes "i < 4"
  shows "(ucast (signed_drop_bit (i * 2) (scast x :: int32) AND 0x03) :: uint8) = drop_bit (i * 2) x AND 3"
proof (rule bit_word_eqI)
  fix n assume n: "n < LENGTH(8)"
  have "n < 2 \<Longrightarrow> i * 2 + n \<le> 7" using assms by simp
  then show "bit (ucast (signed_drop_bit (i * 2) (scast x :: int32) AND 0x03) :: uint8) n
      = bit (drop_bit (i * 2) x AND 3) n"
    using n by (auto simp: bit_simps bit_3_iff min_def)
qed

section \<open>Reading a page keeps the entries\<close>

lemma vm_inv_nblocks: "vm_inv s \<Longrightarrow> unat (of_nat (length (vm_pages s)) :: block_number) = length (vm_pages s)"
  unfolding vm_inv_def by (intro unat_of_nat_lt) simp

lemma vm_check_size_inv:
  assumes "vm_inv s"
  shows "vm_inv (vm_check_size s)" "vm_pages (vm_check_size s) = vm_pages s"
    "smgr_cached_nblocks (vm_check_size s) = of_nat (length (vm_pages s))"
  using assms by (auto simp: vm_check_size_def smgrnblocks_def vm_inv_def)

lemma upd_page_sel [simp]:
  "vm_exists (upd_page i f s) = vm_exists s" "smgr_cached_nblocks (upd_page i f s) = smgr_cached_nblocks s"
  "vm_wal (upd_page i f s) = vm_wal s" "vm_pages (upd_page i f s) = (vm_pages s)[i := f (vm_pages s ! i)]"
  by (simp_all add: upd_page_def)

lemma vm_inv_upd:
  assumes "vm_inv s" "i < length (vm_pages s)" "length (vp_map (f (vm_pages s ! i))) = MAPSIZE"
    "vp_new (f (vm_pages s ! i)) \<Longrightarrow> vp_map (f (vm_pages s ! i)) = replicate MAPSIZE 0"
  shows "vm_inv (upd_page i f s)"
  using assms by (auto simp: vm_inv_def dest!: set_update_subset_insert [THEN subsetD])

lemma vm_page_len: "vm_inv s \<Longrightarrow> i < length (vm_pages s) \<Longrightarrow> length (vp_map (vm_pages s ! i)) = MAPSIZE"
  by (auto simp: vm_inv_def)

lemma pages_status_upd_same:
  assumes "vp_map pg = vp_map (ps ! i)"
  shows "pages_status (ps[i := pg]) n = pages_status ps n"
  using assms by (cases "i = n div 32672") (simp_all add: pages_status_def)

lemma vm_readbuf_absent:
  assumes "vm_inv s" "length (vm_pages s) \<le> unat blkno"
  shows "vm_readbuf env blkno False s = (Inr None, vm_check_size s)"
  using assms vm_check_size_inv [OF assms(1)] vm_inv_nblocks [OF assms(1)]
  by (simp add: vm_readbuf_def Let_def word_le_nat_alt)

definition vm_init_new :: "vm_env \<Rightarrow> nat \<Rightarrow> vm_fork \<Rightarrow> vm_fork" where
  "vm_init_new env i s = (if vp_new (vm_pages s ! i) then upd_page i (PageInit env) s else s)"

lemma vm_init_new_keeps:
  assumes "vm_env_ok env" "vm_inv s" "i < length (vm_pages s)"
  shows "vm_inv (vm_init_new env i s)" "vm_status (vm_init_new env i s) = vm_status s"
    "length (vm_pages (vm_init_new env i s)) = length (vm_pages s)"
    "\<not> vp_new (vm_pages (vm_init_new env i s) ! i)"
proof -
  have init: "\<not> vp_new (PageInit env pg)" "vp_map (PageInit env pg) = replicate MAPSIZE 0" for pg
    using assms(1) by (auto simp: vm_env_ok_def)
  show "vm_inv (vm_init_new env i s)"
    using assms(2,3) by (auto simp: vm_init_new_def init intro!: vm_inv_upd)
  have "vp_map (vm_pages s ! i) = replicate MAPSIZE 0" if "vp_new (vm_pages s ! i)"
    using that assms(2,3) by (auto simp: vm_inv_def)
  then show "vm_status (vm_init_new env i s) = vm_status s"
    by (auto simp: vm_init_new_def vm_status_def fun_eq_iff init intro!: pages_status_upd_same)
qed (use assms in \<open>auto simp: vm_init_new_def vm_env_ok_def\<close>)

lemma vm_readbuf_present:
  assumes "vm_inv s" "unat blkno < length (vm_pages s)"
  shows "vm_readbuf env blkno e s = (Inr (Some blkno), vm_init_new env (unat blkno) (vm_check_size s))"
  using assms vm_check_size_inv [OF assms(1)] vm_inv_nblocks [OF assms(1)]
  by (auto simp: vm_readbuf_def Let_def word_le_nat_alt vm_init_new_def)

lemma nth_append_zeros:
  assumes "take (length ps) qs = ps" "i < length qs"
  shows "i < length ps \<Longrightarrow> qs ! i = ps ! i" "length ps \<le> i \<Longrightarrow> qs ! i \<in> set (drop (length ps) qs)"
proof -
  show "qs ! i = ps ! i" if "i < length ps" using assms that by (metis nth_take)
  show "qs ! i \<in> set (drop (length ps) qs)" if "length ps \<le> i"
    using assms(2) that nth_mem [of "i - length ps" "drop (length ps) qs"] by simp
qed

lemma vm_extend_keeps:
  assumes env: "vm_env_ok env" and inv: "vm_inv s" and n: "unat vm_nblocks \<le> 131458"
    and ext: "vm_extend env vm_nblocks s = (buf, t)"
  shows "vm_inv t" "vm_status t = vm_status s" "length (vm_pages t) = max (unat vm_nblocks) (length (vm_pages s))"
    "buf = Some (vm_nblocks - 1)"
proof -
  let ?qs = "ExtendBufferedRelTo env vm_nblocks (vm_pages s)"
  have qs: "length ?qs = max (unat vm_nblocks) (length (vm_pages s))" "take (length (vm_pages s)) ?qs = vm_pages s"
      "\<And>pg. pg \<in> set (drop (length (vm_pages s)) ?qs) \<Longrightarrow> vp_new pg \<and> vp_map pg = replicate MAPSIZE 0"
    using env by (auto simp: vm_env_ok_def)
  have t: "t = s\<lparr>vm_exists := True, vm_pages := ?qs, smgr_cached_nblocks := of_nat (length ?qs)\<rparr>"
    and b: "buf = Some (vm_nblocks - 1)"
    using ext by (simp_all add: vm_extend_def Let_def)
  have split: "?qs = vm_pages s @ drop (length (vm_pages s)) ?qs"
    using qs(2) by (metis append_take_drop_id)
  have "\<forall>pg\<in>set ?qs. length (vp_map pg) = MAPSIZE \<and> (vp_new pg \<longrightarrow> vp_map pg = replicate MAPSIZE 0)"
    using inv qs(3) by (subst split) (auto simp: vm_inv_def)
  then show "vm_inv t"
    using inv n qs(1) by (simp add: t vm_inv_def)
  have "pages_status ?qs k = pages_status (vm_pages s) k" for k
    using nth_append_zeros [OF qs(2), of "k div 32672"] qs(1,3)
    by (auto simp: pages_status_def not_less max_def split: if_splits)
  then show "vm_status t = vm_status s"
    by (simp add: t vm_status_def fun_eq_iff)
qed (use ext env in \<open>auto simp: vm_extend_def Let_def vm_env_ok_def\<close>)

section \<open>The operations on the entries\<close>

text \<open>A buffer is one that an earlier call on this map returned.\<close>

definition vm_buf_ok :: "vm_fork \<Rightarrow> vm_buffer \<Rightarrow> bool" where
  "vm_buf_ok s buf = (case buf of None \<Rightarrow> True | Some b \<Rightarrow> unat b < length (vm_pages s) \<and> \<not> vp_new (vm_pages s ! unat b))"

lemma vm_readbuf_extending:
  assumes env: "vm_env_ok env" and inv: "vm_inv s" and b: "unat blkno < 131458"
  shows "\<exists>t. vm_readbuf env blkno True s = (Inr (Some blkno), t) \<and> vm_inv t \<and> vm_status t = vm_status s \<and>
     vm_buf_ok t (Some blkno)"
proof (cases "unat blkno < length (vm_pages s)")
  case True
  note s' = vm_check_size_inv [OF inv]
  have s: "vm_status (vm_check_size s) = vm_status s"
    using s' by (simp add: vm_status_def fun_eq_iff)
  show ?thesis
    unfolding vm_readbuf_present [OF inv True]
    using vm_init_new_keeps [OF env s'(1), of "unat blkno"] True by (simp add: s'(2) s vm_buf_ok_def)
next
  case False
  define u where "u = vm_check_size s"
  note s' = vm_check_size_inv [OF inv, folded u_def]
  have n: "unat (blkno + 1) = unat blkno + 1"
    using b unat_add_lt [of blkno 1] by simp
  obtain buf t where ext: "vm_extend env (blkno + 1) u = (buf, t)" by fastforce
  have "unat (blkno + 1) \<le> 131458" using b n by simp
  note t = vm_extend_keeps [OF env s'(1) this ext]
  have len: "unat blkno < length (vm_pages t)" using t(3) n by simp
  have cached: "smgr_cached_nblocks u \<le> blkno"
    using False vm_inv_nblocks [OF inv] by (simp add: s'(3) word_le_nat_alt)
  have buf: "buf = Some blkno" using t(4) by simp
  have "vm_readbuf env blkno True s = (Inr (Some blkno), vm_init_new env (unat blkno) t)"
    using cached ext len buf by (simp add: vm_readbuf_def Let_def u_def [symmetric] vm_init_new_def)
  moreover have "vm_status u = vm_status s" using s'(2) by (simp add: vm_status_def fun_eq_iff)
  ultimately show ?thesis
    using vm_init_new_keeps [OF env t(1) len] t(2) len by (simp add: vm_buf_ok_def)
qed

lemma pin_keeps:
  assumes "vm_env_ok env" "vm_inv s" "vm_buf_ok s buf"
  shows "\<exists>t. pg_tde_visibilitymap_pin env b buf s = (Inr (Some (HEAPBLK_TO_MAPBLOCK b)), t) \<and> vm_inv t \<and>
     vm_status t = vm_status s \<and> vm_buf_ok t (Some (HEAPBLK_TO_MAPBLOCK b))"
  using assms vm_readbuf_extending [OF assms(1,2) MAPBLOCK_bound, of b]
  by (auto simp: pg_tde_visibilitymap_pin_def vm_buf_ok_def returnC_def Let_def)

lemma pages_status_write:
  assumes "vp_map pg = (vp_map (ps ! i))[j := x]" "i < length ps" "length (vp_map (ps ! i)) = MAPSIZE"
    and "i = n div 32672" "j = n mod 32672 div 4"
    and "\<And>k. k < 4 \<Longrightarrow> drop_bit (k * 2) x AND 3 =
           (if k = n mod 4 then v else drop_bit (k * 2) (vp_map (ps ! i) ! j) AND 3)"
  shows "pages_status (ps[i := pg]) m = (if m = n then v else pages_status ps m)"
proof (cases "m div 32672 = i \<and> m mod 32672 div 4 = j")
  case True
  then have "m = n \<longleftrightarrow> m mod 4 = n mod 4"
    using heap_slot_inj [of m n] assms(4,5) by auto
  moreover have "j < MAPSIZE"
    using assms(5) by (simp add: less_mult_imp_div_less)
  ultimately show ?thesis
    using True assms(1-3,6) by (simp add: pages_status_def)
next
  case False
  then show ?thesis
    using assms(1-5) by (auto simp: pages_status_def nth_list_update)
qed

lemma entry_mask_iff:
  fixes x f :: uint8
  assumes "k < 4" "f AND 3 = f"
  shows "x AND push_bit (k * 2) f = 0 \<longleftrightarrow> (drop_bit (k * 2) x AND 3) AND f = 0" (is "?l = 0 \<longleftrightarrow> ?r = 0")
proof -
  have r: "bit ?r n \<longleftrightarrow> bit ?l (n + k * 2)" for n
    using flags_bit [OF assms(2), of n] assms(1)
    by (auto simp: bit_simps bit_3_iff add.commute dest: bit_imp_le_length)
  have l: "bit ?l n \<Longrightarrow> bit ?r (n - k * 2)" for n
    unfolding r by (auto simp: bit_simps)
  show ?thesis
    using r l by (metis bit_0_eq bot_apply bit_word_eqI bot_bool_def)
qed

lemma clear_status:
  assumes inv: "vm_inv s" and b: "vm_buf_ok s (Some (HEAPBLK_TO_MAPBLOCK b))" and f: "flags \<in> {2, 3}"
  shows "\<exists>t. pg_tde_visibilitymap_clear b (Some (HEAPBLK_TO_MAPBLOCK b)) flags s = (Inr (vm_status s b AND flags \<noteq> 0), t) \<and>
     vm_inv t \<and> vm_status t = (vm_status s)(b := vm_status s b AND NOT flags)"
proof -
  define i where "i = unat b div 32672"
  define j where "j = unat b mod 32672 div 4"
  define k where "k = unat b mod 4"
  define mp where "mp = vp_map (vm_pages s ! i)"
  have ijk: "i < length (vm_pages s)" "k < 4" "length mp = 8168" "j < 8168"
    using b vm_page_len [OF inv] by (auto simp: vm_buf_ok_def heapblk_nat i_def j_def k_def mp_def less_mult_imp_div_less)
  have f3: "flags AND 3 = flags" "flags AND 3 \<noteq> 0" "flags \<noteq> 1" using f by auto
  have st: "vm_status s b = drop_bit (k * 2) (mp ! j) AND 3"
    using ijk by (simp add: vm_status_def pages_status_def i_def j_def k_def mp_def)
  have z: "mp ! j AND push_bit (k * 2) flags = 0 \<longleftrightarrow> vm_status s b AND flags = 0"
    unfolding st by (rule entry_mask_iff [OF ijk(2) f3(1)])
  have eq: "pg_tde_visibilitymap_clear b (Some (HEAPBLK_TO_MAPBLOCK b)) flags s =
      (if mp ! j AND push_bit (k * 2) flags \<noteq> 0
       then (Inr True, upd_page i (\<lambda>pg. pg\<lparr>vp_map := mp[j := mp ! j AND NOT (push_bit (k * 2) flags)], vp_dirty := True\<rparr>) s)
       else (Inr False, s))"
    using f3 ijk by (simp add: pg_tde_visibilitymap_clear_def Let_def heapblk_nat i_def j_def k_def mp_def)
  show ?thesis
  proof (cases "mp ! j AND push_bit (k * 2) flags = 0")
    case True
    then have "vm_status s b AND NOT flags = vm_status s b"
      unfolding st by (rule entry_mask_zero [OF ijk(2) f3(1)])
    with True z inv show ?thesis by (simp add: eq fun_upd_idem)
  next
    case False
    define pg where "pg = (vm_pages s ! i)\<lparr>vp_map := mp[j := mp ! j AND NOT (push_bit (k * 2) flags)], vp_dirty := True\<rparr>"
    define t where "t = upd_page i (\<lambda>pg. pg\<lparr>vp_map := mp[j := mp ! j AND NOT (push_bit (k * 2) flags)], vp_dirty := True\<rparr>) s"
    have "\<not> vp_new (vm_pages s ! i)"
      using b by (simp add: vm_buf_ok_def heapblk_nat i_def)
    then have "vm_inv t"
      unfolding t_def using inv ijk by (intro vm_inv_upd) simp_all
    moreover have "vm_status t = (vm_status s)(b := vm_status s b AND NOT flags)"
    proof
      fix c :: block_number
      have e: "drop_bit (k' * 2) (mp ! j AND NOT (push_bit (k * 2) flags)) AND 3 =
      (if k' = unat b mod 4 then vm_status s b AND NOT flags else drop_bit (k' * 2) (vp_map (vm_pages s ! i) ! j) AND 3)"
      if "k' < 4" for k'
      by (simp only: entry_and_not [OF ijk(2) that f3(1)] st) (auto simp: k_def mp_def)
      have "pages_status ((vm_pages s)[i := pg]) (unat c) =
          (if unat c = unat b then vm_status s b AND NOT flags else pages_status (vm_pages s) (unat c))"
        by (rule pages_status_write [where i = i and j = j and n = "unat b" and x = "mp ! j AND NOT (push_bit (k * 2) flags)", OF _ _ _ _ _ e])
          (use ijk i_def j_def mp_def st in \<open>simp_all add: pg_def\<close>)
      then show "vm_status t c = ((vm_status s)(b := vm_status s b AND NOT flags)) c"
        by (simp add: vm_status_def t_def pg_def unsigned_word_eqI)
    qed
    ultimately show ?thesis using False z by (auto simp: eq t_def [symmetric])
  qed
qed

lemma set_lsn_keeps:
  assumes "vm_inv v" "i < length (vm_pages v)"
  shows "vm_inv (upd_page i (\<lambda>pg. pg\<lparr>vp_lsn := l\<rparr>) v)" "vm_status (upd_page i (\<lambda>pg. pg\<lparr>vp_lsn := l\<rparr>) v) = vm_status v"
proof -
  have "vm_pages v ! i \<in> set (vm_pages v)" using assms(2) by simp
  then have "length (vp_map (vm_pages v ! i)) = MAPSIZE \<and> (vp_new (vm_pages v ! i) \<longrightarrow> vp_map (vm_pages v ! i) = replicate MAPSIZE 0)"
    using assms(1) unfolding vm_inv_def by blast
  with assms show "vm_inv (upd_page i (\<lambda>pg. pg\<lparr>vp_lsn := l\<rparr>) v)"
    by (intro vm_inv_upd) simp_all
  show "vm_status (upd_page i (\<lambda>pg. pg\<lparr>vp_lsn := l\<rparr>) v) = vm_status v"
    by (rule ext) (simp add: vm_status_def pages_status_upd_same)
qed

lemma set_status:
  assumes inv: "vm_inv s" and b: "vm_buf_ok s (Some (HEAPBLK_TO_MAPBLOCK b))" and f: "flags \<in> {0, 1, 3}"
    and heap: "heapBuf = (if InRecovery env then None else Some (b, True))" and rec: "InRecovery env \<longleftrightarrow> recptr \<noteq> 0"
  shows "\<exists>r t. pg_tde_visibilitymap_set env b heapBuf recptr (Some (HEAPBLK_TO_MAPBLOCK b)) xid flags s = (Inr r, t) \<and>
     vm_inv t \<and> vm_status t = (vm_status s)(b := vm_status s b OR flags)"
proof -
  define i where "i = unat b div 32672"
  define j where "j = unat b mod 32672 div 4"
  define k where "k = unat b mod 4"
  define mp where "mp = vp_map (vm_pages s ! i)"
  have ijk: "i < length (vm_pages s)" "k < 4" "length mp = 8168" "j < 8168"
    using b vm_page_len [OF inv] by (auto simp: vm_buf_ok_def heapblk_nat i_def j_def k_def mp_def less_mult_imp_div_less)
  have f3: "flags AND 3 = flags" "flags \<noteq> 2" using f by auto
  have st: "vm_status s b = drop_bit (k * 2) (mp ! j) AND 3"
    using ijk by (simp add: vm_status_def pages_status_def i_def j_def k_def mp_def)
  define u where "u = upd_page i (\<lambda>pg. pg\<lparr>vp_map := mp[j := mp ! j OR push_bit (k * 2) flags], vp_dirty := True\<rparr>) s"
  have u_pages: "vm_pages u = (vm_pages s)[i := (vm_pages s ! i)\<lparr>vp_map := mp[j := mp ! j OR push_bit (k * 2) flags], vp_dirty := True\<rparr>]"
    by (simp add: u_def)
  have "\<not> vp_new (vm_pages s ! i)"
    using b by (simp add: vm_buf_ok_def heapblk_nat i_def)
  then have u_inv: "vm_inv u"
    unfolding u_def using inv ijk by (intro vm_inv_upd) simp_all
  have e: "drop_bit (k' * 2) (mp ! j OR push_bit (k * 2) flags) AND 3 =
      (if k' = unat b mod 4 then vm_status s b OR flags else drop_bit (k' * 2) (vp_map (vm_pages s ! i) ! j) AND 3)"
      if "k' < 4" for k'
      by (simp only: entry_or [OF ijk(2) that f3(1)] st) (auto simp: k_def mp_def)
  have u_st: "vm_status u c = ((vm_status s)(b := vm_status s b OR flags)) c" for c
  proof -
    have "pages_status (vm_pages u) (unat c) =
        (if unat c = unat b then vm_status s b OR flags else pages_status (vm_pages s) (unat c))"
      unfolding u_pages
      by (rule pages_status_write [where i = i and j = j and n = "unat b" and x = "mp ! j OR push_bit (k * 2) flags", OF _ _ _ _ _ e])
        (use ijk i_def j_def mp_def st in \<open>simp_all\<close>)
    then show ?thesis by (simp add: vm_status_def unsigned_word_eqI)
  qed
  have eq: "pg_tde_visibilitymap_set env b heapBuf recptr (Some (HEAPBLK_TO_MAPBLOCK b)) xid flags s =
      (if flags = vm_status s b then (Inr None, s)
       else if \<not> RelationNeedsWAL env then (Inr None, u)
       else (let (lsn, v) = (if recptr = 0 then log_pg_tde_visible env b (HEAPBLK_TO_MAPBLOCK b) xid flags u else (recptr, u))
             in (Inr (if recptr = 0 \<and> XLogHintBitIsNeeded env then Some lsn else None),
                 upd_page i (\<lambda>pg. pg\<lparr>vp_lsn := lsn\<rparr>) v)))"
    using f3 ijk rec heap
    by (simp add: pg_tde_visibilitymap_set_def Let_def heapblk_nat st i_def j_def k_def mp_def u_def)
  have u_all: "vm_status u = (vm_status s)(b := vm_status s b OR flags)" using u_st by blast
  consider "flags = vm_status s b" | "flags \<noteq> vm_status s b" "\<not> RelationNeedsWAL env"
    | "flags \<noteq> vm_status s b" "RelationNeedsWAL env" by blast
  then show ?thesis
  proof cases
    case 1
    then have "vm_status s = (vm_status s)(b := vm_status s b OR flags)" by simp
    with 1 inv show ?thesis unfolding eq by simp
  next
    case 2
    with u_inv u_all show ?thesis unfolding eq by simp
  next
    case 3
    obtain l v where lv: "(if recptr = 0 then log_pg_tde_visible env b (HEAPBLK_TO_MAPBLOCK b) xid flags u else (recptr, u)) = (l, v)"
      by fastforce
    have v: "vm_pages v = vm_pages u" "vm_inv v"
      using lv u_inv by (auto simp: log_pg_tde_visible_def vm_inv_def split: if_splits)
    then have "i < length (vm_pages v)" "vm_status v = vm_status u"
      using ijk by (simp_all add: u_pages vm_status_def fun_eq_iff)
    with set_lsn_keeps [OF v(2), of i l] 3 u_all show ?thesis unfolding eq lv by simp
  qed
qed

lemma get_status:
  assumes env: "vm_env_ok env" and inv: "vm_inv s" and buf: "vm_buf_ok s buf"
  shows "\<exists>buf' t. pg_tde_visibilitymap_get_status env b buf s = (Inr (vm_status s b, buf'), t) \<and>
     vm_inv t \<and> vm_status t = vm_status s \<and> vm_buf_ok t buf'"
proof -
  have byte: "vm_status u b = ucast (signed_drop_bit (unat (HEAPBLK_TO_OFFSET b))
        (scast (vp_map (vm_pages u ! unat (HEAPBLK_TO_MAPBLOCK b)) ! unat (HEAPBLK_TO_MAPBYTE b)) :: int32) AND 0x03)"
    if "unat (HEAPBLK_TO_MAPBLOCK b) < length (vm_pages u)" for u
    using that signed_entry [of "unat b mod 4"] by (simp add: vm_status_def pages_status_def heapblk_nat)
  note chk = vm_check_size_inv [OF inv]
  have chk_st: "vm_status (vm_check_size s) = vm_status s"
    using chk by (simp add: vm_status_def fun_eq_iff)
  consider "buf = Some (HEAPBLK_TO_MAPBLOCK b)"
    | "buf \<noteq> Some (HEAPBLK_TO_MAPBLOCK b)" "length (vm_pages s) \<le> unat (HEAPBLK_TO_MAPBLOCK b)"
    | "buf \<noteq> Some (HEAPBLK_TO_MAPBLOCK b)" "unat (HEAPBLK_TO_MAPBLOCK b) < length (vm_pages s)"
    by linarith
  then show ?thesis
  proof cases
    case 1
    with buf inv byte [of s] show ?thesis
      by (simp add: pg_tde_visibilitymap_get_status_def Let_def vm_buf_ok_def)
  next
    case 2
    then have "vm_status s b = 0" by (simp add: vm_status_def pages_status_def heapblk_nat)
    with 2 chk chk_st show ?thesis
      by (simp add: pg_tde_visibilitymap_get_status_def Let_def vm_readbuf_absent [OF inv] bindC_def vm_buf_ok_def)
  next
    case 3
    define t where "t = vm_init_new env (unat (HEAPBLK_TO_MAPBLOCK b)) (vm_check_size s)"
    have t: "vm_inv t" "vm_status t = vm_status s" "unat (HEAPBLK_TO_MAPBLOCK b) < length (vm_pages t)"
        "vm_buf_ok t (Some (HEAPBLK_TO_MAPBLOCK b))"
      using vm_init_new_keeps [OF env chk(1)] 3(2) chk(2) chk_st by (simp_all add: t_def vm_buf_ok_def)
    have "pg_tde_visibilitymap_get_status env b buf s = (Inr (vm_status t b, Some (HEAPBLK_TO_MAPBLOCK b)), t)"
      using 3(1) t(3) byte [OF t(3)]
      by (simp add: pg_tde_visibilitymap_get_status_def Let_def vm_readbuf_present [OF inv 3(2)] bindC_def t_def [symmetric])
    with t show ?thesis by simp
  qed
qed

section \<open>The interface of the map\<close>

text \<open>
  What the heap code relies on: setting adds bits to one entry and clearing removes them. The
  client side is proved once for every sequence of calls.
\<close>

datatype vm_op = VmSet block_number uint8 | VmClear block_number uint8

fun vm_legal :: "vm_op \<Rightarrow> bool" where
  "vm_legal (VmSet b f) = (f \<in> {0, 1, 3})"
| "vm_legal (VmClear b f) = (f \<in> {2, 3})"

fun vm_spec :: "vm_op \<Rightarrow> (block_number \<Rightarrow> uint8) \<Rightarrow> block_number \<Rightarrow> uint8" where
  "vm_spec (VmSet b f) m = m(b := m b OR f)"
| "vm_spec (VmClear b f) m = m(b := m b AND NOT f)"

fun vm_run :: "(block_number \<Rightarrow> uint8 \<Rightarrow> ('s, 'a) cmd) \<Rightarrow> (block_number \<Rightarrow> uint8 \<Rightarrow> ('s, 'b) cmd) \<Rightarrow>
    vm_op list \<Rightarrow> ('s, unit) cmd" where
  "vm_run S C [] = returnC ()"
| "vm_run S C (VmSet b f # ops) = bindC (S b f) (\<lambda>_. vm_run S C ops)"
| "vm_run S C (VmClear b f # ops) = bindC (C b f) (\<lambda>_. vm_run S C ops)"

lemma vm_spec_no_frozen_only:
  assumes "vm_legal op" "\<forall>b. m b \<in> {0, 1, 3}"
  shows "\<forall>b. vm_spec op m b \<in> {0, 1, 3}"
proof -
  have closed: "\<forall>x\<in>{0, 1, 3}. \<forall>f\<in>{0, 1, 3 :: uint8}. x OR f \<in> {0, 1, 3 :: uint8}"
    "\<forall>x\<in>{0, 1, 3}. \<forall>f\<in>{2, 3 :: uint8}. x AND NOT f \<in> {0, 1, 3 :: uint8}"
    by simp_all
  have m: "m c \<in> {0, 1, 3}" for c using assms(2) by blast
  show ?thesis
  proof (cases op)
    case (VmSet b f)
    with assms(1) closed(1) m [of b] have "m b OR f \<in> {0, 1, 3}" by (metis vm_legal.simps(1))
    with VmSet m show ?thesis by (metis fun_upd_apply vm_spec.simps(1))
  next
    case (VmClear b f)
    with assms(1) closed(2) m [of b] have "m b AND NOT f \<in> {0, 1, 3}" by (metis vm_legal.simps(2))
    with VmClear m show ?thesis by (metis fun_upd_apply vm_spec.simps(2))
  qed
qed

locale two_bit_map =
  fixes status :: "'s \<Rightarrow> block_number \<Rightarrow> uint8"
    and inv :: "'s \<Rightarrow> bool"
    and set_bits :: "block_number \<Rightarrow> uint8 \<Rightarrow> ('s, 'a) cmd"
    and clear_bits :: "block_number \<Rightarrow> uint8 \<Rightarrow> ('s, 'b) cmd"
  assumes set_law: "inv s \<Longrightarrow> f \<in> {0, 1, 3} \<Longrightarrow>
      \<exists>r t. set_bits b f s = (Inr r, t) \<and> inv t \<and> status t = (status s)(b := status s b OR f)"
    and clear_law: "inv s \<Longrightarrow> f \<in> {2, 3} \<Longrightarrow>
      \<exists>r t. clear_bits b f s = (Inr r, t) \<and> inv t \<and> status t = (status s)(b := status s b AND NOT f)"
begin

lemma run_refines:
  "inv s \<Longrightarrow> list_all vm_legal ops \<Longrightarrow>
     \<exists>t. vm_run set_bits clear_bits ops s = (Inr (), t) \<and> inv t \<and> status t = fold vm_spec ops (status s)"
proof (induction ops arbitrary: s)
  case Nil
  then show ?case by (simp add: returnC_def)
next
  case (Cons op ops)
  show ?case
  proof (cases op)
    case (VmSet b f)
    with Cons.prems set_law [of s f b] obtain r t where
      t: "set_bits b f s = (Inr r, t)" "inv t" "status t = (status s)(b := status s b OR f)" by auto
    then have "vm_spec op (status s) = status t" by (simp add: VmSet)
    with VmSet t(1,2) Cons.prems(2) Cons.IH [of t] show ?thesis by (simp add: bindC_Inr)
  next
    case (VmClear b f)
    with Cons.prems clear_law [of s f b] obtain r t where
      t: "clear_bits b f s = (Inr r, t)" "inv t" "status t = (status s)(b := status s b AND NOT f)" by auto
    then have "vm_spec op (status s) = status t" by (simp add: VmClear)
    with VmClear t(1,2) Cons.prems(2) Cons.IH [of t] show ?thesis by (simp add: bindC_Inr)
  qed
qed

lemma run_no_frozen_only:
  assumes "inv s" "list_all vm_legal ops" "\<forall>b. status s b \<in> {0, 1, 3}"
  shows "\<exists>t. vm_run set_bits clear_bits ops s = (Inr (), t) \<and> (\<forall>b. status t b \<noteq> 2)"
proof -
  have "\<forall>b. fold vm_spec ops m b \<in> {0, 1, 3}" if "list_all vm_legal ops" "\<forall>b. m b \<in> {0, 1, 3}" for m
    using that
  proof (induction ops arbitrary: m)
    case (Cons op ops)
    then have "\<forall>b. vm_spec op m b \<in> {0, 1, 3}"
      by (intro vm_spec_no_frozen_only) simp_all
    with Cons show ?case by simp
  qed simp
  from this [OF assms(2,3)] have "fold vm_spec ops (status s) b \<noteq> 2" for b
    by (auto dest: spec [of _ b])
  with run_refines [OF assms(1,2)] show ?thesis by auto
qed

end

text \<open>
  The two-phase use of the map by the heap code: pin the page of the block, then change it. A replay
  passes the position of its record and no heap buffer.
\<close>

definition vm_pin_set :: "vm_env \<Rightarrow> uint64 \<Rightarrow> block_number \<Rightarrow> uint8 \<Rightarrow> (vm_fork, uint64 option) cmd" where
  "vm_pin_set env lsn b f =
     bindC (pg_tde_visibilitymap_pin env b None)
       (\<lambda>buf. if InRecovery env then pg_tde_visibilitymap_set env b None lsn buf 0 f
              else pg_tde_visibilitymap_set env b (Some (b, True)) 0 buf 0 f)"

definition vm_pin_clear :: "vm_env \<Rightarrow> block_number \<Rightarrow> uint8 \<Rightarrow> (vm_fork, bool) cmd" where
  "vm_pin_clear env b f =
     bindC (pg_tde_visibilitymap_pin env b None) (\<lambda>buf. pg_tde_visibilitymap_clear b buf f)"

definition zero_vm_page :: vm_page where
  "zero_vm_page = \<lparr>vp_new = True, vp_map = replicate MAPSIZE 0, vp_lsn = 0, vp_dirty = False\<rparr>"

text \<open>An instance of the environment, for the concrete runs.\<close>

definition demo_vm_env :: vm_env where
  "demo_vm_env = \<lparr>InRecovery = False, RelationNeedsWAL = True, XLogHintBitIsNeeded = True, RelationIsAccessibleInLogicalDecoding = False,
     vm_insert_lsn = (\<lambda>w. of_nat (length w) + 1),
     ExtendBufferedRelTo = (\<lambda>n ps. ps @ replicate (unat n - length ps) zero_vm_page),
     PageInit = (\<lambda>pg. pg\<lparr>vp_new := False, vp_map := replicate MAPSIZE 0\<rparr>),
     pg_popcount64 = (\<lambda>x. of_nat (length (filter (bit x) [0..<64])))\<rparr>"

definition empty_vm :: vm_fork where
  "empty_vm = \<lparr>vm_exists = False, vm_pages = [], smgr_cached_nblocks = InvalidBlockNumber, vm_wal = []\<rparr>"

lemma card_bits: "card {n. bit (x :: uint64) n} = length (filter (bit x) [0..<64])"
proof -
  have "{n. bit x n} = set (filter (bit x) [0..<64])"
    by (auto dest: bit_imp_le_length)
  then show ?thesis by (simp only: distinct_card [OF distinct_filter [OF distinct_upt]])
qed

lemma demo_vm_env_ok: "vm_env_ok demo_vm_env"
  by (auto simp: vm_env_ok_def demo_vm_env_def zero_vm_page_def card_bits)

lemma empty_vm_inv: "vm_inv empty_vm"
  by (simp add: vm_inv_def empty_vm_def)

lemma vm_pin_laws:
  assumes env: "vm_env_ok env" and inv: "vm_inv s"
  shows "f \<in> {0, 1, 3} \<Longrightarrow> lsn \<noteq> 0 \<Longrightarrow>
      \<exists>r t. vm_pin_set env lsn b f s = (Inr r, t) \<and> vm_inv t \<and> vm_status t = (vm_status s)(b := vm_status s b OR f)"
    and "f \<in> {2, 3} \<Longrightarrow>
      \<exists>t. vm_pin_clear env b f s = (Inr (vm_status s b AND f \<noteq> 0), t) \<and> vm_inv t \<and>
        vm_status t = (vm_status s)(b := vm_status s b AND NOT f)"
proof -
  obtain u where u: "pg_tde_visibilitymap_pin env b None s = (Inr (Some (HEAPBLK_TO_MAPBLOCK b)), u)" "vm_inv u"
      "vm_status u = vm_status s" "vm_buf_ok u (Some (HEAPBLK_TO_MAPBLOCK b))"
    using pin_keeps [OF env inv, of None b] by (auto simp: vm_buf_ok_def)
  show "f \<in> {0, 1, 3} \<Longrightarrow> lsn \<noteq> 0 \<Longrightarrow>
      \<exists>r t. vm_pin_set env lsn b f s = (Inr r, t) \<and> vm_inv t \<and> vm_status t = (vm_status s)(b := vm_status s b OR f)"
    using set_status [OF u(2,4), of f "Some (b, True)" env 0 0] set_status [OF u(2,4), of f None env lsn 0] u(1,3)
    by (cases "InRecovery env") (auto simp: vm_pin_set_def bindC_Inr)
  show "f \<in> {2, 3} \<Longrightarrow>
      \<exists>t. vm_pin_clear env b f s = (Inr (vm_status s b AND f \<noteq> 0), t) \<and> vm_inv t \<and>
        vm_status t = (vm_status s)(b := vm_status s b AND NOT f)"
    using clear_status [OF u(2,4), of f] u(1,3) by (auto simp: vm_pin_clear_def bindC_Inr)
qed

interpretation vm: two_bit_map vm_status "\<lambda>s. (vm_env_ok env \<and> lsn \<noteq> 0) \<and> vm_inv s" "vm_pin_set env lsn" "vm_pin_clear env"
  for env lsn
proof unfold_locales
  fix s b and f :: uint8
  assume ok: "(vm_env_ok env \<and> lsn \<noteq> 0) \<and> vm_inv s"
  show "f \<in> {0, 1, 3} \<Longrightarrow> \<exists>r t. vm_pin_set env lsn b f s = (Inr r, t) \<and> ((vm_env_ok env \<and> lsn \<noteq> 0) \<and> vm_inv t) \<and>
      vm_status t = (vm_status s)(b := vm_status s b OR f)"
    using vm_pin_laws(1) [of env s f lsn b] ok by blast
  show "f \<in> {2, 3} \<Longrightarrow> \<exists>r t. vm_pin_clear env b f s = (Inr r, t) \<and> ((vm_env_ok env \<and> lsn \<noteq> 0) \<and> vm_inv t) \<and>
      vm_status t = (vm_status s)(b := vm_status s b AND NOT f)"
    using vm_pin_laws(2) [of env s f b] ok by blast
qed

section \<open>Counting\<close>

text \<open>The reference: how many blocks of the map have the bit.\<close>

definition count_blocks :: "nat \<Rightarrow> vm_page list \<Rightarrow> nat" where
  "count_blocks k ps = card {n. n < 32672 * length ps \<and> bit (pages_status ps n) k}"

definition page_blocks :: "nat \<Rightarrow> byte list \<Rightarrow> nat" where
  "page_blocks k mp = card {n. n < 32672 \<and> bit (mp ! (n div 4)) (n mod 4 * 2 + k)}"

lemma card_chunks:
  "card {b::nat. b < k * n \<and> Q b} = (\<Sum>i<n. card {b. b < k \<and> Q (k * i + b)})"
proof (induction n)
  case (Suc n)
  have "{b. b < k * Suc n \<and> Q b} = {b. b < k * n \<and> Q b} \<union> (\<lambda>b. k * n + b) ` {b. b < k \<and> Q (k * n + b)}"
  proof (intro set_eqI iffI)
    fix b assume b: "b \<in> {b. b < k * Suc n \<and> Q b}"
    show "b \<in> {b. b < k * n \<and> Q b} \<union> (\<lambda>b. k * n + b) ` {b. b < k \<and> Q (k * n + b)}"
    proof (cases "b < k * n")
      case False
      with b have "b = k * n + (b - k * n)" "b - k * n < k" by auto
      with b show ?thesis by (intro UnI2 image_eqI [of _ _ "b - k * n"]) auto
    qed (use b in auto)
  qed auto
  moreover have "card ((\<lambda>b. k * n + b) ` {b. b < k \<and> Q (k * n + b)}) = card {b. b < k \<and> Q (k * n + b)}"
    by (intro card_image) (auto simp: inj_on_def)
  moreover have "{b. b < k * n \<and> Q b} \<inter> (\<lambda>b. k * n + b) ` {b. b < k \<and> Q (k * n + b)} = {}" by auto
  ultimately show ?case
    using Suc by (simp add: card_Un_disjoint)
qed simp

lemma bit_map_word:
  assumes "8 * i + 8 \<le> length mp" and "n < 64"
  shows "bit (map_word mp i) n \<longleftrightarrow> bit (mp ! (8 * i + n div 8)) (n mod 8)"
proof -
  have "n div 8 < 8" using assms(2) by simp
  moreover have "length (take 8 (drop (8 * i) mp)) = 8" using assms(1) by simp
  ultimately show ?thesis
    using assms by (simp add: map_word_def word_rcat_def bit_simps bit_horner_sum_uint_exp_iff [where 'a = 8, simplified])
qed

lemma bit_VISIBLE_MASK64: "bit (VISIBLE_MASK64) n \<longleftrightarrow> n < 64 \<and> even n"
proof (cases "n < 64")
  case True
  have "\<forall>n\<in>{..<64}. bit VISIBLE_MASK64 n \<longleftrightarrow> even n" by code_simp
  with True show ?thesis by auto
qed (auto dest: bit_imp_le_length)

lemma bit_FROZEN_MASK64: "bit (FROZEN_MASK64) n \<longleftrightarrow> n < 64 \<and> odd n"
proof (cases "n < 64")
  case True
  have "\<forall>n\<in>{..<64}. bit FROZEN_MASK64 n \<longleftrightarrow> odd n" by code_simp
  with True show ?thesis by auto
qed (auto dest: bit_imp_le_length)

lemma card_even_odd:
  "card {n. n < 64 \<and> even n \<and> R n} = card {b::nat. b < 32 \<and> R (2 * b)}"
  "card {n. n < 64 \<and> odd n \<and> R n} = card {b::nat. b < 32 \<and> R (2 * b + 1)}"
proof -
  have "{n. n < 64 \<and> even n \<and> R n} = (\<lambda>b. 2 * b) ` {b::nat. b < 32 \<and> R (2 * b)}"
    by (auto elim!: evenE)
  then show "card {n. n < 64 \<and> even n \<and> R n} = card {b::nat. b < 32 \<and> R (2 * b)}"
    by (simp add: card_image inj_on_def)
  have "{n. n < 64 \<and> odd n \<and> R n} = (\<lambda>b. 2 * b + 1) ` {b::nat. b < 32 \<and> R (2 * b + 1)}"
    by (auto elim!: oddE)
  then show "card {n. n < 64 \<and> odd n \<and> R n} = card {b::nat. b < 32 \<and> R (2 * b + 1)}"
    by (simp add: card_image inj_on_def)
qed

lemma byte_positions:
  fixes i b :: nat
  shows "(32 * i + b) div 4 = 8 * i + 2 * b div 8" "(32 * i + b) mod 4 * 2 = 2 * b mod 8"
    "(2 * b + 1) div 8 = 2 * b div 8" "(2 * b + 1) mod 8 = 2 * b mod 8 + 1"
proof -
  have e: "32 * i + b = b + 4 * (8 * i)" by simp
  have h: "2 * b div 8 = b div 4" "2 * b mod 8 = b mod 4 * 2"
    using div_mult_mult1 [of 2 b 4] mult_mod_right [of 2 b 4] by simp_all
  show "(32 * i + b) div 4 = 8 * i + 2 * b div 8" "(32 * i + b) mod 4 * 2 = 2 * b mod 8"
    unfolding e h by (simp_all only: div_mult_self2 mod_mult_self2)
  show "(2 * b + 1) div 8 = 2 * b div 8" "(2 * b + 1) mod 8 = 2 * b mod 8 + 1"
    by presburger+
qed

lemma word_blocks:
  assumes "8 * i + 8 \<le> length mp"
  shows "card {n. bit (map_word mp i AND VISIBLE_MASK64) n} = card {b. b < 32 \<and> bit (mp ! ((32 * i + b) div 4)) ((32 * i + b) mod 4 * 2)}"
    and "card {n. bit (map_word mp i AND FROZEN_MASK64) n} = card {b. b < 32 \<and> bit (mp ! ((32 * i + b) div 4)) ((32 * i + b) mod 4 * 2 + 1)}"
proof -
  have bits: "{n. bit (map_word mp i AND VISIBLE_MASK64) n} = {n. n < 64 \<and> even n \<and> bit (mp ! (8 * i + n div 8)) (n mod 8)}"
    "{n. bit (map_word mp i AND FROZEN_MASK64) n} = {n. n < 64 \<and> odd n \<and> bit (mp ! (8 * i + n div 8)) (n mod 8)}"
    unfolding bit_and_iff bit_VISIBLE_MASK64 bit_FROZEN_MASK64 using bit_map_word [OF assms] by blast+
  show "card {n. bit (map_word mp i AND VISIBLE_MASK64) n} = card {b. b < 32 \<and> bit (mp ! ((32 * i + b) div 4)) ((32 * i + b) mod 4 * 2)}"
    and "card {n. bit (map_word mp i AND FROZEN_MASK64) n} = card {b. b < 32 \<and> bit (mp ! ((32 * i + b) div 4)) ((32 * i + b) mod 4 * 2 + 1)}"
    unfolding bits card_even_odd byte_positions by (rule refl)+
qed

lemma count_page_blocks:
  assumes "vm_env_ok env" "length mp = MAPSIZE"
  shows "count_page env frozen mp (v, f) =
    (v + of_nat (page_blocks 0 mp), if frozen then f + of_nat (page_blocks 1 mp) else f)"
proof -
  have pc: "pg_popcount64 env x = of_nat (card {n. bit x n})" for x
    using assms(1) by (auto simp: vm_env_ok_def)
  define g where "g k i = card {b. b < 32 \<and> bit (mp ! ((32 * i + b) div 4)) ((32 * i + b) mod 4 * 2 + k)}" for k i
  have fold: "fold (\<lambda>i (nvisible, nfrozen).
        (nvisible + pg_popcount64 env (map_word mp i AND VISIBLE_MASK64),
         if frozen then nfrozen + pg_popcount64 env (map_word mp i AND FROZEN_MASK64) else nfrozen)) [0..<n] (v, f) =
      (v + of_nat (\<Sum>i<n. g 0 i), if frozen then f + of_nat (\<Sum>i<n. g 1 i) else f)" if "n \<le> 1021" for n
    using that
  proof (induction n)
    case (Suc n)
    then have "8 * n + 8 \<le> length mp" using assms(2) by simp
    from word_blocks [OF this] Suc show ?case by (simp add: pc g_def)
  qed simp
  have "(\<Sum>i<1021. g k i) = page_blocks k mp" for k
    using card_chunks [of 32 1021 "\<lambda>n. bit (mp ! (n div 4)) (n mod 4 * 2 + k)"]
    by (simp add: g_def page_blocks_def)
  with fold [of 1021] show ?thesis by (simp add: count_page_def)
qed

lemma pages_status_bit:
  assumes "k < 2" "i < length ps" "b < 32672"
  shows "bit (pages_status ps (32672 * i + b)) k \<longleftrightarrow> bit (vp_map (ps ! i) ! (b div 4)) (b mod 4 * 2 + k)"
proof -
  have "32672 * i + b = b + 4 * (8168 * i)" by simp
  then have m: "(32672 * i + b) mod 4 = b mod 4" by (simp only: mod_mult_self2)
  have d: "(32672 * i + b) div 32672 = i" "(32672 * i + b) mod 32672 = b" using assms(3) by simp_all
  have "pages_status ps (32672 * i + b) = drop_bit (b mod 4 * 2) (vp_map (ps ! i) ! (b div 4)) AND 3"
    using assms(2) by (simp only: pages_status_def m d if_True)
  moreover have "bit (3 :: uint8) k" using assms(1) by (subst bit_3_word) simp_all
  ultimately show ?thesis
    by (simp only: bit_and_iff bit_drop_bit_eq comp_def simp_thms)
qed

lemma count_blocks_pages:
  assumes "k < 2"
  shows "count_blocks k ps = (\<Sum>i<length ps. page_blocks k (vp_map (ps ! i)))"
  unfolding count_blocks_def card_chunks page_blocks_def
proof (rule sum.cong [OF refl])
  fix i assume "i \<in> {..<length ps}"
  with pages_status_bit [OF assms] show "card {b. b < 32672 \<and> bit (pages_status ps (32672 * i + b)) k} =
      card {n. n < 32672 \<and> bit (vp_map (ps ! i) ! (n div 4)) (n mod 4 * 2 + k)}"
    by (simp only: lessThan_iff cong: conj_cong)
qed

lemma vm_init_new_count:
  assumes "vm_env_ok env" "vm_inv s" "i < length (vm_pages s)"
  shows "map vp_map (vm_pages (vm_init_new env i s)) = map vp_map (vm_pages s)"
proof -
  have "vp_map (vm_pages s ! i) = replicate MAPSIZE 0" if "vp_new (vm_pages s ! i)"
    using that assms(2,3) by (auto simp: vm_inv_def)
  moreover have "vp_map (PageInit env pg) = replicate MAPSIZE 0" for pg
    using assms(1) by (auto simp: vm_env_ok_def)
  ultimately show ?thesis
    using assms(3) by (simp add: vm_init_new_def map_update list_update_same_conv)
qed

lemma count_loop_result:
  assumes env: "vm_env_ok env"
  shows "vm_inv s \<Longrightarrow> unat mapBlock \<le> length (vm_pages s) \<Longrightarrow> length (vm_pages s) - unat mapBlock = d \<Longrightarrow>
    \<exists>t. visibilitymap_count_loop env frozen mapBlock (v, f) s =
       (Inr (v + of_nat (\<Sum>i=unat mapBlock..<length (vm_pages s). page_blocks 0 (vp_map (vm_pages s ! i))),
             if frozen then f + of_nat (\<Sum>i=unat mapBlock..<length (vm_pages s). page_blocks 1 (vp_map (vm_pages s ! i))) else f), t) \<and>
      vm_inv t \<and> vm_status t = vm_status s"
proof (induction d arbitrary: mapBlock v f s)
  case 0
  then have "length (vm_pages s) \<le> unat mapBlock" by simp
  with 0 vm_check_size_inv [OF 0(1)] show ?case
    by (subst visibilitymap_count_loop.simps) (simp add: vm_readbuf_absent vm_status_def fun_eq_iff)
next
  case (Suc d)
  then have lt: "unat mapBlock < length (vm_pages s)" by simp
  define t where "t = vm_init_new env (unat mapBlock) (vm_check_size s)"
  note chk = vm_check_size_inv [OF Suc.prems(1)]
  have t: "vm_inv t" "vm_status t = vm_status s" "length (vm_pages t) = length (vm_pages s)"
    using vm_init_new_keeps [OF env chk(1), of "unat mapBlock"] lt chk(2) by (simp_all add: t_def vm_status_def fun_eq_iff)
  have maps: "map vp_map (vm_pages t) = map vp_map (vm_pages s)"
    using vm_init_new_count [OF env chk(1), of "unat mapBlock"] lt chk(2) by (simp add: t_def)
  then have nth: "vp_map (vm_pages t ! i) = vp_map (vm_pages s ! i)" if "i < length (vm_pages s)" for i
    using that t(3) by (metis nth_map)
  have nxt: "unat (mapBlock + 1) = unat mapBlock + 1"
    using lt Suc.prems(1) unat_add_lt [of mapBlock 1] by (simp add: vm_inv_def)
  note page = count_page_blocks [OF env vm_page_len [OF Suc.prems(1) lt]]
  have sum: "(\<Sum>i=unat mapBlock..<length (vm_pages s). page_blocks k (vp_map (vm_pages s ! i))) =
      page_blocks k (vp_map (vm_pages s ! unat mapBlock)) +
      (\<Sum>i=unat mapBlock + 1..<length (vm_pages s). page_blocks k (vp_map (vm_pages t ! i)))" for k
    using lt by (simp add: sum.atLeast_Suc_lessThan nth)
  have step: "visibilitymap_count_loop env frozen mapBlock (v, f) s =
      visibilitymap_count_loop env frozen (mapBlock + 1)
        (v + of_nat (page_blocks 0 (vp_map (vm_pages s ! unat mapBlock))),
         if frozen then f + of_nat (page_blocks 1 (vp_map (vm_pages s ! unat mapBlock))) else f) t"
    using lt by (subst visibilitymap_count_loop.simps)
      (simp add: vm_readbuf_present [OF Suc.prems(1) lt] t_def [symmetric] page nth)
  have "length (vm_pages t) - unat (mapBlock + 1) = d" "unat (mapBlock + 1) \<le> length (vm_pages t)"
    using Suc.prems lt t(3) nxt by simp_all
  note IH = Suc.IH [OF t(1) this(2,1)]
  show ?case
  proof (cases frozen)
    case True
    with IH [of "v + of_nat (page_blocks 0 (vp_map (vm_pages s ! unat mapBlock)))"
        "f + of_nat (page_blocks 1 (vp_map (vm_pages s ! unat mapBlock)))"]
    show ?thesis unfolding step sum of_nat_add by (simp add: t nxt add.assoc)
  next
    case False
    with IH [of "v + of_nat (page_blocks 0 (vp_map (vm_pages s ! unat mapBlock)))" f]
    show ?thesis unfolding step sum of_nat_add by (simp add: t nxt add.assoc)
  qed
qed

text \<open>
  (C19) Counting: the word-wise population count over the pages of the map returns the number of
  heap blocks whose entry has the all-visible bit and, when asked for, the all-frozen bit (as
  32-bit counters).
\<close>

theorem visibilitymap_count_correct:
  assumes "vm_env_ok env" and "vm_inv s"
  shows "\<exists>t. pg_tde_visibilitymap_count env frozen s =
      (Inr (of_nat (count_blocks 0 (vm_pages s)), if frozen then Some (of_nat (count_blocks 1 (vm_pages s))) else None), t) \<and>
    vm_inv t \<and> vm_status t = vm_status s"
  using count_loop_result [OF assms, of 0 _ frozen 0 0]
  by (auto simp: pg_tde_visibilitymap_count_def bindC_def returnC_def count_blocks_pages lessThan_atLeast0)

section \<open>Truncation\<close>

lemma masked_entry:
  fixes x :: uint8
  assumes "r < 4" "k < 4"
  shows "drop_bit (r * 2) (x AND (push_bit (k * 2) 1 - 1)) AND 3 = (if r < k then drop_bit (r * 2) x AND 3 else 0)"
proof (rule bit_word_eqI)
  fix n assume n: "n < LENGTH(8)"
  have m: "(push_bit (k * 2) 1 - 1 :: uint8) = mask (k * 2)"
    by (simp only: mask_eq_exp_minus_1 push_bit_of_1)
  have "r < k \<Longrightarrow> n < 2 \<Longrightarrow> r * 2 + n < k * 2" "\<not> r < k \<Longrightarrow> \<not> r * 2 + n < k * 2"
    using assms by linarith+
  moreover have "bit (x AND mask (k * 2)) (r * 2 + n) \<longleftrightarrow> bit x (r * 2 + n) \<and> r * 2 + n < k * 2"
    by (auto simp: bit_simps dest: bit_imp_le_length)
  moreover have "bit (3 :: uint8) n \<longleftrightarrow> n < 2" by (subst bit_3_word) simp_all
  ultimately show "bit (drop_bit (r * 2) (x AND (push_bit (k * 2) 1 - 1)) AND 3) n =
     bit (if r < k then drop_bit (r * 2) x AND 3 else 0) n"
    unfolding m by (simp only: bit_and_iff bit_drop_bit_eq comp_def bit_0_eq bot_apply split: if_split) auto
qed

lemma clear_tail_length: "length mp = MAPSIZE \<Longrightarrow> tb < MAPSIZE \<Longrightarrow> length (clear_tail tb k mp) = MAPSIZE"
  by (simp add: clear_tail_def Let_def)

lemma clear_tail_entry:
  assumes "length mp = MAPSIZE" "q < MAPSIZE" "r < 4" "tb < MAPSIZE" "k < 4"
  shows "drop_bit (r * 2) (clear_tail tb (k * 2) mp ! q) AND 3 =
     (if q < tb \<or> (q = tb \<and> r < k) then drop_bit (r * 2) (mp ! q) AND 3 else 0)"
proof -
  let ?mp = "take (tb + 1) mp @ replicate (MAPSIZE - (tb + 1)) (0 :: byte)"
  have tb: "?mp ! tb = mp ! tb" using assms by (simp add: nth_append)
  consider "q < tb" | "q = tb" | "tb < q" by linarith
  then show ?thesis
  proof cases
    case 1
    then have "clear_tail tb (k * 2) mp ! q = mp ! q"
      using assms by (simp add: clear_tail_def Let_def nth_append)
    with 1 show ?thesis by simp
  next
    case 2
    then have "clear_tail tb (k * 2) mp ! q = mp ! tb AND (push_bit (k * 2) 1 - 1)"
      using assms tb by (simp add: clear_tail_def Let_def)
    with 2 masked_entry [OF assms(3,5), of "mp ! tb"] show ?thesis by simp
  next
    case 3
    then have "clear_tail tb (k * 2) mp ! q = 0"
      using assms by (simp add: clear_tail_def Let_def nth_append)
    with 3 show ?thesis by simp
  qed
qed

text \<open>The order of blocks is the order of their map page, byte and place in the byte.\<close>

lemma less_div_mod:
  fixes a b c :: nat
  shows "a < b \<longleftrightarrow> a div c < b div c \<or> (a div c = b div c \<and> a mod c < b mod c)"
proof (cases "a div c = b div c")
  case True
  then have "a < b \<longleftrightarrow> a mod c < b mod c"
    using div_mult_mod_eq [of a c] div_mult_mod_eq [of b c] by (metis add_less_cancel_left)
  with True show ?thesis by simp
next
  case False
  then have "a < b \<longleftrightarrow> a div c < b div c"
    by (metis div_le_mono linorder_not_less nat_less_le)
  with False show ?thesis by simp
qed

lemma slot_less:
  fixes m n :: nat
  assumes "m div 32672 = n div 32672"
  shows "m < n \<longleftrightarrow> m mod 32672 div 4 < n mod 32672 div 4 \<or>
     (m mod 32672 div 4 = n mod 32672 div 4 \<and> m mod 4 < n mod 4)"
proof -
  have "m < n \<longleftrightarrow> m mod 32672 < n mod 32672"
    using assms less_div_mod [of m n 32672] by simp
  moreover have "m mod 32672 mod 4 = m mod 4" "n mod 32672 mod 4 = n mod 4"
    by (simp_all add: mod_mod_cancel)
  ultimately show ?thesis
    using less_div_mod [of "m mod 32672" "n mod 32672" 4] by simp
qed

definition vm_truncated :: "block_number \<Rightarrow> vm_page list \<Rightarrow> vm_page list" where
  "vm_truncated n ps = (if n = InvalidBlockNumber then ps else take (unat n) ps)"

lemma pages_status_clear_tail:
  fixes n :: nat
  assumes len: "\<And>i. i < length ps \<Longrightarrow> length (vp_map (ps ! i)) = MAPSIZE" and i: "n div 32672 < length ps"
    and pg: "vp_map pg = clear_tail (n mod 32672 div 4) (n mod 4 * 2) (vp_map (ps ! (n div 32672)))"
    and m: "m div 32672 \<le> n div 32672"
  shows "pages_status (ps[n div 32672 := pg]) m = (if m < n then pages_status ps m else 0)"
proof (cases "m div 32672 = n div 32672")
  case True
  have b: "m mod 32672 div 4 < MAPSIZE" "n mod 32672 div 4 < MAPSIZE" "m mod 4 < 4" "n mod 4 < 4"
    by (simp_all add: less_mult_imp_div_less)
  have "pages_status (ps[n div 32672 := pg]) m =
      drop_bit (m mod 4 * 2) (clear_tail (n mod 32672 div 4) (n mod 4 * 2) (vp_map (ps ! (n div 32672))) ! (m mod 32672 div 4)) AND 3"
    using True i by (simp add: pages_status_def pg)
  also have "\<dots> = (if m < n then drop_bit (m mod 4 * 2) (vp_map (ps ! (n div 32672)) ! (m mod 32672 div 4)) AND 3 else 0)"
    unfolding clear_tail_entry [OF len [OF i] b(1,3,2,4)] slot_less [OF True] by simp
  also have "\<dots> = (if m < n then pages_status ps m else 0)"
    using True i by (simp add: pages_status_def)
  finally show ?thesis .
next
  case False
  with m have "m div 32672 < n div 32672" by simp
  then have "m < n" by (metis div_le_mono not_less)
  with False show ?thesis by (simp add: pages_status_def)
qed

lemma pages_status_take:
  "pages_status (take k ps) m = (if m div 32672 < k then pages_status ps m else 0)"
  by (simp add: pages_status_def)

lemma vm_truncated_status:
  assumes inv: "vm_inv t" and nb: "unat nb \<le> 131458"
    and r: "r = (if of_nat (length (vm_pages t)) \<le> nb then InvalidBlockNumber else nb)"
  shows "pages_status (vm_truncated r (vm_pages t)) m = (if m div 32672 < unat nb then pages_status (vm_pages t) m else 0)"
proof (cases "length (vm_pages t) \<le> unat nb")
  case True
  then have "r = InvalidBlockNumber"
    using r vm_inv_nblocks [OF inv] by (simp add: word_le_nat_alt)
  with True show ?thesis by (simp add: vm_truncated_def pages_status_def)
next
  case False
  then have "r = nb" using r vm_inv_nblocks [OF inv] by (simp add: word_le_nat_alt)
  moreover have "nb \<noteq> InvalidBlockNumber" using nb by auto
  ultimately show ?thesis by (simp add: vm_truncated_def pages_status_take)
qed

lemma smgrnblocks_inv: "vm_inv s \<Longrightarrow> vm_inv (s\<lparr>smgr_cached_nblocks := of_nat (length (vm_pages s))\<rparr>)"
  by (simp add: vm_inv_def)

lemma truncate_on_boundary:
  assumes inv: "vm_inv s" and ex: "vm_exists s"
    and z: "HEAPBLK_TO_MAPBYTE n = 0" "HEAPBLK_TO_OFFSET n = 0"
  shows "\<exists>r t. pg_tde_visibilitymap_prepare_truncate env n s = (Inr r, t) \<and> vm_inv t \<and>
     pages_status (vm_truncated r (vm_pages t)) m = (if m < unat n then pages_status (vm_pages s) m else 0)"
proof -
  define t where "t = s\<lparr>smgr_cached_nblocks := of_nat (length (vm_pages s))\<rparr>"
  have "unat n mod 32672 div 4 = 0" "unat n mod 4 = 0"
    using arg_cong [OF z(1), of unat] arg_cong [OF z(2), of unat] by (simp_all add: heapblk_nat)
  moreover have "unat n mod 32672 mod 4 = unat n mod 4" by (simp add: mod_mod_cancel)
  ultimately have "unat n mod 32672 = 0"
    using div_mult_mod_eq [of "unat n mod 32672" 4] by linarith
  then have lt: "m < unat n \<longleftrightarrow> m div 32672 < unat (HEAPBLK_TO_MAPBLOCK n)"
    using less_div_mod [of m "unat n" 32672] by (simp add: MAPBLOCK_nat)
  have t: "vm_inv t" "vm_pages t = vm_pages s" using smgrnblocks_inv [OF inv] by (simp_all add: t_def)
  have "unat (HEAPBLK_TO_MAPBLOCK n) \<le> 131458" using MAPBLOCK_bound [of n] by simp
  note st = vm_truncated_status [OF t(1) this refl, of m]
  have "pg_tde_visibilitymap_prepare_truncate env n s =
      (Inr (if of_nat (length (vm_pages t)) \<le> HEAPBLK_TO_MAPBLOCK n then InvalidBlockNumber else HEAPBLK_TO_MAPBLOCK n), t)"
    using z ex t(2) by (simp add: pg_tde_visibilitymap_prepare_truncate_def smgrnblocks_def t_def)
  with t st lt show ?thesis by auto
qed

lemma vm_inv_wal: "vm_inv (s\<lparr>vm_wal := l\<rparr>) \<longleftrightarrow> vm_inv s"
  by (simp add: vm_inv_def)

lemma truncate_in_page:
  assumes env: "vm_env_ok env" and inv: "vm_inv s" and ex: "vm_exists s"
    and z: "HEAPBLK_TO_MAPBYTE n \<noteq> 0 \<or> HEAPBLK_TO_OFFSET n \<noteq> 0"
    and lt: "unat (HEAPBLK_TO_MAPBLOCK n) < length (vm_pages s)"
  shows "\<exists>r t. pg_tde_visibilitymap_prepare_truncate env n s = (Inr r, t) \<and> vm_inv t \<and>
     pages_status (vm_truncated r (vm_pages t)) m = (if m < unat n then pages_status (vm_pages s) m else 0)"
proof -
  define i where "i = unat n div 32672"
  define c where "c = (\<lambda>pg :: vm_page. pg\<lparr>vp_map := clear_tail (unat n mod 32672 div 4) (unat n mod 4 * 2) (vp_map pg), vp_dirty := True\<rparr>)"
  define u where "u = vm_init_new env i (vm_check_size s)"
  define v where "v = upd_page i c u"
  define w where "w = (if \<not> InRecovery env \<and> RelationNeedsWAL env \<and> XLogHintBitIsNeeded env
      then log_newpage_buffer env (HEAPBLK_TO_MAPBLOCK n) v else v)"
  define t where "t = w\<lparr>smgr_cached_nblocks := of_nat (length (vm_pages w))\<rparr>"
  note chk = vm_check_size_inv [OF inv]
  have i: "i < length (vm_pages s)" using lt by (simp add: heapblk_nat i_def)
  have u: "vm_inv u" "vm_status u = vm_status s" "length (vm_pages u) = length (vm_pages s)" "\<not> vp_new (vm_pages u ! i)"
    using vm_init_new_keeps [OF env chk(1), of i] i chk(2) by (simp_all add: u_def vm_status_def fun_eq_iff)
  have maps: "map vp_map (vm_pages u) = map vp_map (vm_pages s)"
    using vm_init_new_count [OF env chk(1), of i] i chk(2) by (simp add: u_def)
  have u_st: "pages_status (vm_pages u) k = pages_status (vm_pages s) k" for k
  proof -
    have "vp_map (vm_pages u ! j) = vp_map (vm_pages s ! j)" if "j < length (vm_pages s)" for j
      using arg_cong [OF maps, of "\<lambda>xs. xs ! j"] that u(3) by simp
    then show ?thesis by (simp add: pages_status_def u(3))
  qed
  have len: "unat n mod 32672 div 4 < MAPSIZE" by (simp add: less_mult_imp_div_less)
  have iu: "i < length (vm_pages u)" using i u(3) by simp
  have v: "vm_inv v" "vm_pages v = (vm_pages u)[i := c (vm_pages u ! i)]"
  proof -
    have "length (vp_map (c (vm_pages u ! i))) = MAPSIZE"
      using vm_page_len [OF u(1) iu] len by (simp add: c_def clear_tail_length)
    moreover have "\<not> vp_new (c (vm_pages u ! i))" using u(4) by (simp add: c_def)
    ultimately show "vm_inv v" unfolding v_def using u(1) iu by (intro vm_inv_upd) blast+
    show "vm_pages v = (vm_pages u)[i := c (vm_pages u ! i)]" by (simp add: v_def)
  qed
  have w: "vm_inv w \<and> length (vm_pages w) = length (vm_pages v) \<and> (\<forall>k. pages_status (vm_pages w) k = pages_status (vm_pages v) k)"
  proof -
    have "vm_inv (log_newpage_buffer env (HEAPBLK_TO_MAPBLOCK n) v)"
      unfolding log_newpage_buffer_def MAPBLOCK_nat i_def [symmetric]
      by (rule set_lsn_keeps(1)) (use v iu in \<open>simp_all add: vm_inv_wal\<close>)
    moreover have "pages_status (vm_pages (log_newpage_buffer env (HEAPBLK_TO_MAPBLOCK n) v)) k = pages_status (vm_pages v) k" for k
      by (simp add: log_newpage_buffer_def MAPBLOCK_nat i_def [symmetric] pages_status_upd_same)
    ultimately show ?thesis using v(1) by (simp add: w_def log_newpage_buffer_def)
  qed
  have t: "vm_inv t" "vm_pages t = vm_pages w" unfolding t_def using smgrnblocks_inv [of w] w by simp_all
  have nb: "unat (HEAPBLK_TO_MAPBLOCK n + 1) = i + 1" "i + 1 \<le> 131458"
    using MAPBLOCK_bound [of n] unat_add_lt [of "HEAPBLK_TO_MAPBLOCK n" 1] by (simp_all add: MAPBLOCK_nat i_def)
  have st: "pages_status (vm_pages v) m = (if m < unat n then pages_status (vm_pages s) m else 0)" if "m div 32672 \<le> i"
    using pages_status_clear_tail [of "vm_pages u" "unat n" "c (vm_pages u ! i)" m] vm_page_len [OF u(1)] iu that u_st
    by (simp add: v(2) i_def c_def)
  have "\<not> m div 32672 \<le> i \<Longrightarrow> \<not> m < unat n"
    unfolding i_def by (metis div_le_mono less_imp_le)
  with st have "pages_status (vm_truncated (if of_nat (length (vm_pages t)) \<le> HEAPBLK_TO_MAPBLOCK n + 1 then InvalidBlockNumber
      else HEAPBLK_TO_MAPBLOCK n + 1) (vm_pages t)) m = (if m < unat n then pages_status (vm_pages s) m else 0)"
    using vm_truncated_status [OF t(1), of "HEAPBLK_TO_MAPBLOCK n + 1" _ m] nb w t(2) by (simp add: less_Suc_eq_le)
  moreover have "pg_tde_visibilitymap_prepare_truncate env n s = (Inr (if of_nat (length (vm_pages t)) \<le> HEAPBLK_TO_MAPBLOCK n + 1
      then InvalidBlockNumber else HEAPBLK_TO_MAPBLOCK n + 1), t)"
    using ex z vm_readbuf_present [OF inv lt, of env False]
    by (simp add: pg_tde_visibilitymap_prepare_truncate_def Let_def smgrnblocks_def t_def w_def v_def u_def c_def
        heapblk_nat i_def)
  ultimately show ?thesis using t(1) by blast
qed

text \<open>
  (C18) Truncation: after the call, the map cut at the length it returns has the old entries for
  the blocks that remain and empty entries for every block that goes, whether or not the cut
  falls on a page boundary.
\<close>

theorem prepare_truncate_correct:
  assumes env: "vm_env_ok env" and inv: "vm_inv s"
  shows "\<exists>n t. pg_tde_visibilitymap_prepare_truncate env nheapblocks s = (Inr n, t) \<and> vm_inv t \<and>
     pages_status (vm_truncated n (vm_pages t)) m =
       (if m < unat nheapblocks then pages_status (vm_pages s) m else 0)"
proof -
  have beyond: "pages_status (vm_pages s) m = 0 \<and> pages_status (vm_truncated InvalidBlockNumber (vm_pages s)) m = 0"
    if "\<not> m < unat nheapblocks" "length (vm_pages s) \<le> unat (HEAPBLK_TO_MAPBLOCK nheapblocks)"
    using that div_le_mono [of "unat nheapblocks" m 32672] by (simp add: vm_truncated_def pages_status_def MAPBLOCK_nat)
  consider "\<not> vm_exists s" | "vm_exists s" "HEAPBLK_TO_MAPBYTE nheapblocks = 0" "HEAPBLK_TO_OFFSET nheapblocks = 0"
    | "vm_exists s" "HEAPBLK_TO_MAPBYTE nheapblocks \<noteq> 0 \<or> HEAPBLK_TO_OFFSET nheapblocks \<noteq> 0"
      "unat (HEAPBLK_TO_MAPBLOCK nheapblocks) < length (vm_pages s)"
    | "vm_exists s" "HEAPBLK_TO_MAPBYTE nheapblocks \<noteq> 0 \<or> HEAPBLK_TO_OFFSET nheapblocks \<noteq> 0"
      "length (vm_pages s) \<le> unat (HEAPBLK_TO_MAPBLOCK nheapblocks)"
    by linarith
  then show ?thesis
  proof cases
    case 1
    with inv have "vm_pages s = []" by (simp add: vm_inv_def)
    with 1 inv show ?thesis
      by (simp add: pg_tde_visibilitymap_prepare_truncate_def vm_truncated_def pages_status_def)
  next
    case 2
    with truncate_on_boundary [OF inv] show ?thesis by blast
  next
    case 3
    with truncate_in_page [OF env inv] show ?thesis by blast
  next
    case 4
    with beyond vm_check_size_inv [OF inv] show ?thesis
      by (auto simp: pg_tde_visibilitymap_prepare_truncate_def vm_readbuf_absent [OF inv] vm_truncated_def)
  qed
qed

section \<open>Properties of the map\<close>

text \<open>
  (C17) Every sequence of set and clear calls, each pinning the page it needs and extending the
  map when the page is missing, succeeds and changes the entries exactly as the specification
  says: the bits of the one block are added or removed, all other blocks keep theirs. This holds
  outside of recovery, where the call logs the change, and in recovery, where it is given the
  position of the record replayed.
\<close>

theorem vm_run_refines:
  assumes "vm_env_ok env" and "vm_inv s" and "list_all vm_legal ops" and "lsn \<noteq> 0"
  shows "\<exists>t. vm_run (vm_pin_set env lsn) (vm_pin_clear env) ops s = (Inr (), t) \<and> vm_inv t \<and>
     vm_status t = fold vm_spec ops (vm_status s)"
  using vm.run_refines [of env lsn s ops] assms by blast

text \<open>
  No sequence of calls on a new map leaves a block that is marked all-frozen and not
  all-visible.
\<close>

lemma vm_never_frozen_only:
  assumes "vm_env_ok env" and "list_all vm_legal ops" and "lsn \<noteq> 0"
  shows "\<exists>t. vm_run (vm_pin_set env lsn) (vm_pin_clear env) ops empty_vm = (Inr (), t) \<and> (\<forall>b. vm_status t b \<noteq> 2)"
proof -
  have "vm_status empty_vm b \<in> {0, 1, 3}" for b
    by (simp add: vm_status_def pages_status_def empty_vm_def)
  with vm.run_no_frozen_only [of env lsn empty_vm ops] assms empty_vm_inv show ?thesis by blast
qed

text \<open>
  Reading the map: the status call returns the entry of the block, whatever valid buffer it
  is given, 0 for a block whose page does not exist, and leaves all entries as they are.
\<close>

lemma vm_get_status_correct:
  assumes "vm_env_ok env" and "vm_inv s" and "vm_buf_ok s buf"
  shows "\<exists>buf' t. pg_tde_visibilitymap_get_status env b buf s = (Inr (vm_status s b, buf'), t) \<and>
     vm_inv t \<and> vm_status t = vm_status s \<and> vm_buf_ok t buf'"
  using assms by (rule get_status)

section \<open>Concrete runs\<close>

definition demo_vm_ops :: "vm_op list" where
  "demo_vm_ops = [VmSet 5 1, VmSet 32677 3, VmSet 5 3, VmClear 32677 2]"

lemma demo_vm_legal: "list_all vm_legal demo_vm_ops"
  by (simp add: demo_vm_ops_def)

lemma empty_vm_status: "vm_status empty_vm b = 0"
  by (simp add: vm_status_def pages_status_def empty_vm_def)

theorem vm_run_refines_witness:
  "\<exists>t. vm_run (vm_pin_set demo_vm_env 1) (vm_pin_clear demo_vm_env) demo_vm_ops empty_vm = (Inr (), t) \<and>
     vm_status t 5 = 3 \<and> vm_status t 32677 = 1 \<and> vm_status t 6 = 0"
proof -
  obtain t where t: "vm_run (vm_pin_set demo_vm_env 1) (vm_pin_clear demo_vm_env) demo_vm_ops empty_vm = (Inr (), t)"
      "vm_status t = fold vm_spec demo_vm_ops (vm_status empty_vm)"
    using vm_run_refines [OF demo_vm_env_ok empty_vm_inv demo_vm_legal, of 1] by auto
  then show ?thesis
    by (intro exI [of _ t]) (simp add: demo_vm_ops_def empty_vm_status)
qed

lemma vm_never_frozen_only_witness:
  "\<exists>t. vm_run (vm_pin_set demo_vm_env 1) (vm_pin_clear demo_vm_env) demo_vm_ops empty_vm = (Inr (), t) \<and>
     vm_status t 32677 \<noteq> 2"
  using vm_never_frozen_only [OF demo_vm_env_ok demo_vm_legal, of 1] by auto

lemma vm_get_status_correct_witness:
  "\<exists>buf' t. pg_tde_visibilitymap_get_status demo_vm_env 7 None empty_vm = (Inr (0, buf'), t)"
proof -
  have "vm_buf_ok empty_vm None" by (simp add: vm_buf_ok_def)
  from vm_get_status_correct [OF demo_vm_env_ok empty_vm_inv this, of 7] show ?thesis
    unfolding empty_vm_status by blast
qed

text \<open>One page whose first byte marks blocks 0 and 2 all-visible and block 2 all-frozen.\<close>

definition demo_vm :: vm_fork where
  "demo_vm = \<lparr>vm_exists = True, vm_pages = [\<lparr>vp_new = False, vp_map = 0x31 # replicate 8167 0, vp_lsn = 0, vp_dirty = False\<rparr>],
     smgr_cached_nblocks = InvalidBlockNumber, vm_wal = []\<rparr>"

lemma demo_vm_inv: "vm_inv demo_vm"
  by (simp add: vm_inv_def demo_vm_def)

theorem visibilitymap_count_correct_witness:
  "\<exists>t. pg_tde_visibilitymap_count demo_vm_env True demo_vm =
     (Inr (of_nat (count_blocks 0 (vm_pages demo_vm)), Some (of_nat (count_blocks 1 (vm_pages demo_vm)))), t)"
  using visibilitymap_count_correct [OF demo_vm_env_ok demo_vm_inv, of True] by auto

theorem prepare_truncate_correct_witness:
  "\<exists>n t. pg_tde_visibilitymap_prepare_truncate demo_vm_env 2 demo_vm = (Inr n, t) \<and>
     pages_status (vm_truncated n (vm_pages t)) 2 = 0 \<and> pages_status (vm_pages demo_vm) 2 = 3"
proof -
  have "pages_status (vm_pages demo_vm) 2 = 3"
    by (simp add: pages_status_def demo_vm_def)
  with prepare_truncate_correct [OF demo_vm_env_ok demo_vm_inv, of 2 2] show ?thesis
    by (simp only: unat_numeral) auto
qed

end
