(* ===== verification/HeapHeader.thy ===== *)
theory HeapHeader
  imports TdePrelude
begin

text \<open>
  The transaction part of a heap tuple's header and the information bits, as the code of
  \<^verbatim>\<open>src/access/pg_tdeam.c\<close> and \<^verbatim>\<open>src/access/pg_tdeam_visibility.c\<close> reads them. The values of
  the bits and the macros over them are those of the on-disk format of PostgreSQL 16
  (\<^verbatim>\<open>access/htup_details.h\<close>). The transaction status the server keeps elsewhere is the
  environment \<open>xact_env\<close>.
\<close>

unbundle bit_operations_syntax

section \<open>Information bits\<close>

abbreviation (input) HEAP_XMAX_KEYSHR_LOCK :: uint16 where "HEAP_XMAX_KEYSHR_LOCK \<equiv> 0x0010"
abbreviation (input) HEAP_XMAX_EXCL_LOCK :: uint16 where "HEAP_XMAX_EXCL_LOCK \<equiv> 0x0040"
abbreviation (input) HEAP_XMAX_LOCK_ONLY :: uint16 where "HEAP_XMAX_LOCK_ONLY \<equiv> 0x0080"
abbreviation (input) HEAP_XMAX_SHR_LOCK :: uint16 where "HEAP_XMAX_SHR_LOCK \<equiv> 0x0050"
abbreviation (input) HEAP_LOCK_MASK :: uint16 where "HEAP_LOCK_MASK \<equiv> 0x0050"
abbreviation (input) HEAP_XMIN_COMMITTED :: uint16 where "HEAP_XMIN_COMMITTED \<equiv> 0x0100"
abbreviation (input) HEAP_XMIN_INVALID :: uint16 where "HEAP_XMIN_INVALID \<equiv> 0x0200"
abbreviation (input) HEAP_XMIN_FROZEN :: uint16 where "HEAP_XMIN_FROZEN \<equiv> 0x0300"
abbreviation (input) HEAP_XMAX_COMMITTED :: uint16 where "HEAP_XMAX_COMMITTED \<equiv> 0x0400"
abbreviation (input) HEAP_XMAX_INVALID :: uint16 where "HEAP_XMAX_INVALID \<equiv> 0x0800"
abbreviation (input) HEAP_XMAX_IS_MULTI :: uint16 where "HEAP_XMAX_IS_MULTI \<equiv> 0x1000"
abbreviation (input) HEAP_MOVED_OFF :: uint16 where "HEAP_MOVED_OFF \<equiv> 0x4000"
abbreviation (input) HEAP_MOVED_IN :: uint16 where "HEAP_MOVED_IN \<equiv> 0x8000"
abbreviation (input) HEAP_MOVED :: uint16 where "HEAP_MOVED \<equiv> 0xC000"
abbreviation (input) HEAP_KEYS_UPDATED :: uint16 where "HEAP_KEYS_UPDATED \<equiv> 0x2000"
abbreviation (input) InvalidTransactionId :: uint32 where "InvalidTransactionId \<equiv> 0"
abbreviation (input) FrozenTransactionId :: uint32 where "FrozenTransactionId \<equiv> 2"
abbreviation (input) InvalidCommandId :: uint32 where "InvalidCommandId \<equiv> 0xFFFFFFFF"

text \<open>
  \<open>t_field3\<close> is the union of the command id and the transaction id of an old VACUUM FULL;
  \<open>t_ctid\<close> is a block and an offset number.
\<close>

record HeapTupleHeader =
  t_xmin :: uint32
  t_xmax :: uint32
  t_field3 :: uint32
  t_ctid :: "uint32 \<times> uint16"
  t_infomask2 :: uint16
  t_infomask :: uint16

definition has :: "uint16 \<Rightarrow> HeapTupleHeader \<Rightarrow> bool" where
  "has b t = (t_infomask t AND b \<noteq> 0)"

definition HEAP_XMAX_IS_LOCKED_ONLY :: "uint16 \<Rightarrow> bool" where
  "HEAP_XMAX_IS_LOCKED_ONLY infomask =
     (infomask AND HEAP_XMAX_LOCK_ONLY \<noteq> 0 \<or>
      infomask AND (HEAP_XMAX_IS_MULTI OR HEAP_LOCK_MASK) = HEAP_XMAX_EXCL_LOCK)"

definition HEAP_LOCKED_UPGRADED :: "uint16 \<Rightarrow> bool" where
  "HEAP_LOCKED_UPGRADED infomask =
     (infomask AND HEAP_XMAX_IS_MULTI \<noteq> 0 \<and> infomask AND HEAP_XMAX_LOCK_ONLY \<noteq> 0 \<and>
      infomask AND (HEAP_XMAX_EXCL_LOCK OR HEAP_XMAX_KEYSHR_LOCK) = 0)"

definition HeapTupleHeaderXminCommitted :: "HeapTupleHeader \<Rightarrow> bool" where
  "HeapTupleHeaderXminCommitted t = has HEAP_XMIN_COMMITTED t"

definition HeapTupleHeaderXminInvalid :: "HeapTupleHeader \<Rightarrow> bool" where
  "HeapTupleHeaderXminInvalid t =
     (t_infomask t AND (HEAP_XMIN_COMMITTED OR HEAP_XMIN_INVALID) = HEAP_XMIN_INVALID)"

definition HeapTupleHeaderXminFrozen :: "HeapTupleHeader \<Rightarrow> bool" where
  "HeapTupleHeaderXminFrozen t = (t_infomask t AND HEAP_XMIN_FROZEN = HEAP_XMIN_FROZEN)"

definition HeapTupleHeaderGetXmin :: "HeapTupleHeader \<Rightarrow> uint32" where
  "HeapTupleHeaderGetXmin t = (if HeapTupleHeaderXminFrozen t then FrozenTransactionId else t_xmin t)"

definition HeapTupleHeaderGetXvac :: "HeapTupleHeader \<Rightarrow> uint32" where
  "HeapTupleHeaderGetXvac t = (if has HEAP_MOVED t then t_field3 t else InvalidTransactionId)"

text \<open>A speculative insertion puts its token in \<open>t_ctid\<close>, marked by offset number 0xfffe.\<close>

definition HeapTupleHeaderIsSpeculative :: "HeapTupleHeader \<Rightarrow> bool" where
  "HeapTupleHeaderIsSpeculative t = (snd (t_ctid t) = 0xfffe)"

definition HeapTupleHeaderGetSpeculativeToken :: "HeapTupleHeader \<Rightarrow> uint32" where
  "HeapTupleHeaderGetSpeculativeToken t = fst (t_ctid t)"

section \<open>MultiXacts and lock modes\<close>

datatype MultiXactStatus =
  MultiXactStatusForKeyShare | MultiXactStatusForShare | MultiXactStatusForNoKeyUpdate
  | MultiXactStatusForUpdate | MultiXactStatusNoKeyUpdate | MultiXactStatusUpdate

datatype LockTupleMode = LockTupleKeyShare | LockTupleShare | LockTupleNoKeyExclusive | LockTupleExclusive

record MultiXactMember =
  mxid :: uint32
  mxstatus :: MultiXactStatus

text \<open>A status beyond \<open>ForUpdate\<close> is an update.\<close>

fun ISUPDATE_from_mxstatus :: "MultiXactStatus \<Rightarrow> bool" where
  "ISUPDATE_from_mxstatus MultiXactStatusNoKeyUpdate = True"
| "ISUPDATE_from_mxstatus MultiXactStatusUpdate = True"
| "ISUPDATE_from_mxstatus _ = False"

section \<open>The transactions around a tuple\<close>

text \<open>
  What the server answers while a tuple is examined: the state of transactions and
  multixacts, the command ids of the tuple (\<^verbatim>\<open>combocid.c\<close>), the position of commit records
  and of the buffer, the removal horizon, and the order of transaction ids.
  \<open>GetMultiXactIdMembers\<close> gives the members of a multixact.
\<close>

record xact_env =
  TransactionIdIsCurrentTransactionId :: "uint32 \<Rightarrow> bool"
  TransactionIdIsInProgress :: "uint32 \<Rightarrow> bool"
  TransactionIdDidCommit :: "uint32 \<Rightarrow> bool"
  TransactionIdDidAbort :: "uint32 \<Rightarrow> bool"
  TransactionIdPrecedes :: "uint32 \<Rightarrow> uint32 \<Rightarrow> bool"
  TransactionIdFollowsOrEquals :: "uint32 \<Rightarrow> uint32 \<Rightarrow> bool"
  TransactionIdGetCommitLSN :: "uint32 \<Rightarrow> uint64"
  XLogNeedsFlush :: "uint64 \<Rightarrow> bool"
  BufferIsPermanent :: bool
  BufferGetLSNAtomic :: uint64
  GetMultiXactIdMembers :: "uint32 \<Rightarrow> MultiXactMember list"
  MultiXactIdIsRunning :: "uint32 \<Rightarrow> bool \<Rightarrow> bool"
  HeapTupleHeaderGetCmin :: "HeapTupleHeader \<Rightarrow> uint32"
  HeapTupleHeaderGetCmax :: "HeapTupleHeader \<Rightarrow> uint32"

text \<open>The updating transaction of a multixact: its first member that is an updater.\<close>

definition MultiXactIdGetUpdateXid :: "xact_env \<Rightarrow> uint32 \<Rightarrow> uint16 \<Rightarrow> uint32" where
  "MultiXactIdGetUpdateXid env xmax infomask =
     (case filter (\<lambda>m. ISUPDATE_from_mxstatus (mxstatus m)) (GetMultiXactIdMembers env xmax) of
        [] \<Rightarrow> InvalidTransactionId
      | m # _ \<Rightarrow> mxid m)"

definition HeapTupleGetUpdateXid :: "xact_env \<Rightarrow> HeapTupleHeader \<Rightarrow> uint32" where
  "HeapTupleGetUpdateXid env t = MultiXactIdGetUpdateXid env (t_xmax t) (t_infomask t)"

definition HeapTupleHeaderGetUpdateXid :: "xact_env \<Rightarrow> HeapTupleHeader \<Rightarrow> uint32" where
  "HeapTupleHeaderGetUpdateXid env t =
     (if \<not> has HEAP_XMAX_INVALID t \<and> has HEAP_XMAX_IS_MULTI t \<and> \<not> has HEAP_XMAX_LOCK_ONLY t
      then HeapTupleGetUpdateXid env t else t_xmax t)"

section \<open>Setting bits\<close>

lemma and_or_bit:
  fixes m b c :: uint16
  shows "(m OR b) AND c = (m AND c) OR (b AND c)"
  by (simp add: bit.conj_disj_distrib2)

definition set_bits :: "uint16 \<Rightarrow> HeapTupleHeader \<Rightarrow> HeapTupleHeader" where
  "set_bits b t = t\<lparr>t_infomask := t_infomask t OR b\<rparr>"

lemma set_bits_sel [simp]:
  "t_xmin (set_bits b t) = t_xmin t" "t_xmax (set_bits b t) = t_xmax t" "t_field3 (set_bits b t) = t_field3 t"
  "t_ctid (set_bits b t) = t_ctid t" "t_infomask2 (set_bits b t) = t_infomask2 t"
  "t_infomask (set_bits b t) = t_infomask t OR b"
  by (simp_all add: set_bits_def)

lemma has_set_bits: "has c (set_bits b t) \<longleftrightarrow> has c t \<or> b AND c \<noteq> 0"
  by (simp add: has_def and_or_bit or_eq_0_iff)

section \<open>The bits of a header\<close>

lemma has_bit:
  "has HEAP_XMAX_LOCK_ONLY t \<longleftrightarrow> bit (t_infomask t) 7"
  "has HEAP_XMIN_COMMITTED t \<longleftrightarrow> bit (t_infomask t) 8"
  "has HEAP_XMIN_INVALID t \<longleftrightarrow> bit (t_infomask t) 9"
  "has HEAP_XMAX_COMMITTED t \<longleftrightarrow> bit (t_infomask t) 10"
  "has HEAP_XMAX_INVALID t \<longleftrightarrow> bit (t_infomask t) 11"
  "has HEAP_XMAX_IS_MULTI t \<longleftrightarrow> bit (t_infomask t) 12"
  "has HEAP_MOVED_OFF t \<longleftrightarrow> bit (t_infomask t) 14"
  "has HEAP_MOVED_IN t \<longleftrightarrow> bit (t_infomask t) 15"
  using and_exp_eq_0_iff_not_bit [of "t_infomask t" 7] and_exp_eq_0_iff_not_bit [of "t_infomask t" 8]
    and_exp_eq_0_iff_not_bit [of "t_infomask t" 9] and_exp_eq_0_iff_not_bit [of "t_infomask t" 10]
    and_exp_eq_0_iff_not_bit [of "t_infomask t" 11] and_exp_eq_0_iff_not_bit [of "t_infomask t" 12]
    and_exp_eq_0_iff_not_bit [of "t_infomask t" 14] and_exp_eq_0_iff_not_bit [of "t_infomask t" 15]
  by (simp_all add: has_def)

lemma word16_eq_iff: "(x :: uint16) = y \<longleftrightarrow> (\<forall>n\<in>{0,1,2,3,4,5,6,7,8,9,10,11,12,13,14,15}. bit x n = bit y n)"
proof
  assume *: "\<forall>n\<in>{0,1,2,3,4,5,6,7,8,9,10,11,12,13,14,15}. bit x n = bit y n"
  show "x = y"
  proof (rule bit_word_eqI)
    fix n assume "n < LENGTH(16)"
    then have "n \<in> {0,1,2,3,4,5,6,7,8,9,10,11,12,13,14,15}" by (simp add: numeral_eq_Suc less_Suc_eq)
    with * show "bit x n = bit y n" by blast
  qed
qed simp

lemma xmin_bits:
  "HeapTupleHeaderXminCommitted t \<longleftrightarrow> bit (t_infomask t) 8"
  "HeapTupleHeaderXminInvalid t \<longleftrightarrow> bit (t_infomask t) 9 \<and> \<not> bit (t_infomask t) 8"
  "HeapTupleHeaderXminFrozen t \<longleftrightarrow> bit (t_infomask t) 8 \<and> bit (t_infomask t) 9"
  unfolding HeapTupleHeaderXminCommitted_def has_bit HeapTupleHeaderXminInvalid_def HeapTupleHeaderXminFrozen_def
  by (auto simp: word16_eq_iff bit_simps)

lemma locked_only_bits:
  "HEAP_XMAX_IS_LOCKED_ONLY m \<longleftrightarrow> bit m 7 \<or> (bit m 6 \<and> \<not> bit m 4 \<and> \<not> bit m 12)"
  using and_exp_eq_0_iff_not_bit [of m 7]
  unfolding HEAP_XMAX_IS_LOCKED_ONLY_def by (auto simp: word16_eq_iff bit_simps)

text \<open>The four hint bits leave every other bit alone.\<close>

definition hint_masks :: "uint16 set" where
  "hint_masks = {HEAP_XMIN_COMMITTED, HEAP_XMIN_INVALID, HEAP_XMAX_COMMITTED, HEAP_XMAX_INVALID}"

lemma hint_bit:
  "bit (m OR HEAP_XMIN_COMMITTED) n \<longleftrightarrow> bit m n \<or> n = 8"
  "bit (m OR HEAP_XMIN_INVALID) n \<longleftrightarrow> bit m n \<or> n = 9"
  "bit (m OR HEAP_XMAX_COMMITTED) n \<longleftrightarrow> bit m n \<or> n = 10"
  "bit (m OR HEAP_XMAX_INVALID) n \<longleftrightarrow> bit m n \<or> n = 11"
  for m :: uint16
proof -
  have p: "(0x100 :: uint16) = 2 ^ 8" "(0x200 :: uint16) = 2 ^ 9"
    "(0x400 :: uint16) = 2 ^ 10" "(0x800 :: uint16) = 2 ^ 11" by simp_all
  show "bit (m OR HEAP_XMIN_COMMITTED) n \<longleftrightarrow> bit m n \<or> n = 8" "bit (m OR HEAP_XMIN_INVALID) n \<longleftrightarrow> bit m n \<or> n = 9"
    "bit (m OR HEAP_XMAX_COMMITTED) n \<longleftrightarrow> bit m n \<or> n = 10" "bit (m OR HEAP_XMAX_INVALID) n \<longleftrightarrow> bit m n \<or> n = 11"
    unfolding p by (simp_all only: bit_or_iff bit_exp_iff possible_bit_word) auto
qed

lemmas header_bits = has_bit xmin_bits locked_only_bits

end
