(* ===== verification/Visibility.thy ===== *)
theory Visibility
  imports HeapHeader
begin

text \<open>
  Tuple visibility, \<^verbatim>\<open>src/access/pg_tdeam_visibility.c\<close>: one definition per routine, with the
  part that decides about the inserting transaction separated from the part that decides
  about the deleting one. The state is the tuple's header, whose hint bits the routines set,
  and whether the buffer was marked dirty for them. The routines are those of a build without
  assertions. The specification of each routine is stated over the states of the two
  transactions alone, without hint bits.
\<close>

section \<open>State and results\<close>

record vis_state =
  vt :: HeapTupleHeader
  hint_dirty :: bool

datatype SnapshotType =
  SNAPSHOT_MVCC | SNAPSHOT_SELF | SNAPSHOT_ANY | SNAPSHOT_TOAST | SNAPSHOT_DIRTY
  | SNAPSHOT_HISTORIC_MVCC | SNAPSHOT_NON_VACUUMABLE

datatype TM_Result = TM_Ok | TM_Invisible | TM_SelfModified | TM_Updated | TM_Deleted | TM_BeingModified

datatype HTSV_Result =
  HEAPTUPLE_DEAD | HEAPTUPLE_LIVE | HEAPTUPLE_RECENTLY_DEAD
  | HEAPTUPLE_INSERT_IN_PROGRESS | HEAPTUPLE_DELETE_IN_PROGRESS

text \<open>
  \<open>XidInMVCCSnapshot\<close> is the server's test on the snapshot, \<open>vistest\<close> the removal horizon as
  the set of transaction ids it lets be removed, \<open>ResolveCminCmax\<close> the lookup of a tuple's
  command ids during decoding.
\<close>

record Snapshot =
  snapshot_type :: SnapshotType
  snap_xmin :: uint32
  snap_xmax :: uint32
  xip :: "uint32 list"
  xcnt :: nat
  subxip :: "uint32 list"
  subxcnt :: nat
  curcid :: uint32
  speculativeToken :: uint32
  vistest :: "uint32 \<Rightarrow> bool"
  XidInMVCCSnapshot :: "uint32 \<Rightarrow> bool"
  ResolveCminCmax :: "HeapTupleHeader \<Rightarrow> (uint32 \<times> uint32) option"

text \<open>A part of a routine either returns a result or lets the routine go on.\<close>

definition vis_then :: "'r option \<times> vis_state \<Rightarrow> (vis_state \<Rightarrow> 'r \<times> vis_state) \<Rightarrow> 'r \<times> vis_state" where
  "vis_then p f = (case p of (Some r, s) \<Rightarrow> (r, s) | (None, s) \<Rightarrow> f s)"

definition vis_return :: "'r \<times> vis_state \<Rightarrow> 'r option \<times> vis_state" where
  "vis_return p = (case p of (r, s) \<Rightarrow> (Some r, s))"

section \<open>Hint bits\<close>

definition SetHintBits :: "xact_env \<Rightarrow> uint16 \<Rightarrow> uint32 \<Rightarrow> vis_state \<Rightarrow> vis_state" where
  "SetHintBits env infomask xid s =
     (if xid \<noteq> InvalidTransactionId \<and> BufferIsPermanent env \<and>
         XLogNeedsFlush env (TransactionIdGetCommitLSN env xid) \<and>
         BufferGetLSNAtomic env < TransactionIdGetCommitLSN env xid
      then s
      else s\<lparr>vt := set_bits infomask (vt s), hint_dirty := True\<rparr>)"

definition HeapTupleSetHintBits :: "xact_env \<Rightarrow> uint16 \<Rightarrow> uint32 \<Rightarrow> vis_state \<Rightarrow> vis_state" where
  "HeapTupleSetHintBits env infomask xid s = SetHintBits env infomask xid s"

text \<open>
  The steps the routines have in common: the two kinds of tuples that an old VACUUM FULL moved,
  and an inserter that is another transaction. \<open>running\<close> is the routine's test for a
  transaction still running, \<open>r\<close> what it returns for an invisible tuple.
\<close>

definition moved_off :: "xact_env \<Rightarrow> (uint32 \<Rightarrow> bool) \<Rightarrow> 'r \<Rightarrow> vis_state \<Rightarrow> 'r option \<times> vis_state" where
  "moved_off env running r s =
     (let xvac = HeapTupleHeaderGetXvac (vt s)
      in if TransactionIdIsCurrentTransactionId env xvac then (Some r, s)
         else if \<not> running xvac
         then (if TransactionIdDidCommit env xvac
               then (Some r, SetHintBits env HEAP_XMIN_INVALID InvalidTransactionId s)
               else (None, SetHintBits env HEAP_XMIN_COMMITTED InvalidTransactionId s))
         else (None, s))"

definition moved_in :: "xact_env \<Rightarrow> (uint32 \<Rightarrow> bool) \<Rightarrow> 'r \<Rightarrow> vis_state \<Rightarrow> 'r option \<times> vis_state" where
  "moved_in env running r s =
     (let xvac = HeapTupleHeaderGetXvac (vt s)
      in if \<not> TransactionIdIsCurrentTransactionId env xvac
         then (if running xvac then (Some r, s)
               else if TransactionIdDidCommit env xvac
               then (None, SetHintBits env HEAP_XMIN_COMMITTED InvalidTransactionId s)
               else (Some r, SetHintBits env HEAP_XMIN_INVALID InvalidTransactionId s))
         else (None, s))"

definition other_inserter :: "xact_env \<Rightarrow> 'r \<Rightarrow> vis_state \<Rightarrow> 'r option \<times> vis_state" where
  "other_inserter env r s =
     (let xmin = t_xmin (vt s)
      in if TransactionIdDidCommit env xmin then (None, SetHintBits env HEAP_XMIN_COMMITTED xmin s)
         else (Some r, SetHintBits env HEAP_XMIN_INVALID InvalidTransactionId s))"

section \<open>HeapTupleSatisfiesSelf\<close>

definition Self_own :: "xact_env \<Rightarrow> vis_state \<Rightarrow> bool \<times> vis_state" where
  "Self_own env s =
     (let t = vt s
      in if has HEAP_XMAX_INVALID t then (True, s)
         else if HEAP_XMAX_IS_LOCKED_ONLY (t_infomask t) then (True, s)
         else if has HEAP_XMAX_IS_MULTI t
         then (\<not> TransactionIdIsCurrentTransactionId env (HeapTupleGetUpdateXid env t), s)
         else if \<not> TransactionIdIsCurrentTransactionId env (t_xmax t)
         then (True, SetHintBits env HEAP_XMAX_INVALID InvalidTransactionId s)
         else (False, s))"

definition Self_xmin :: "xact_env \<Rightarrow> vis_state \<Rightarrow> bool option \<times> vis_state" where
  "Self_xmin env s =
     (let t = vt s
      in if HeapTupleHeaderXminCommitted t then (None, s)
         else if HeapTupleHeaderXminInvalid t then (Some False, s)
         else if has HEAP_MOVED_OFF t then moved_off env (TransactionIdIsInProgress env) False s
         else if has HEAP_MOVED_IN t then moved_in env (TransactionIdIsInProgress env) False s
         else if TransactionIdIsCurrentTransactionId env (t_xmin t) then vis_return (Self_own env s)
         else if TransactionIdIsInProgress env (t_xmin t) then (Some False, s)
         else other_inserter env False s)"

definition Self_xmax :: "xact_env \<Rightarrow> vis_state \<Rightarrow> bool \<times> vis_state" where
  "Self_xmax env s =
     (let t = vt s
      in if has HEAP_XMAX_INVALID t then (True, s)
         else if has HEAP_XMAX_COMMITTED t then (HEAP_XMAX_IS_LOCKED_ONLY (t_infomask t), s)
         else if has HEAP_XMAX_IS_MULTI t
         then (if HEAP_XMAX_IS_LOCKED_ONLY (t_infomask t) then (True, s)
               else
                 (let xmax = HeapTupleGetUpdateXid env t
                  in if TransactionIdIsCurrentTransactionId env xmax then (False, s)
                     else if TransactionIdIsInProgress env xmax then (True, s)
                     else (\<not> TransactionIdDidCommit env xmax, s)))
         else if TransactionIdIsCurrentTransactionId env (t_xmax t)
         then (HEAP_XMAX_IS_LOCKED_ONLY (t_infomask t), s)
         else if TransactionIdIsInProgress env (t_xmax t) then (True, s)
         else if \<not> TransactionIdDidCommit env (t_xmax t)
         then (True, SetHintBits env HEAP_XMAX_INVALID InvalidTransactionId s)
         else if HEAP_XMAX_IS_LOCKED_ONLY (t_infomask t)
         then (True, SetHintBits env HEAP_XMAX_INVALID InvalidTransactionId s)
         else (False, SetHintBits env HEAP_XMAX_COMMITTED (t_xmax t) s))"

definition HeapTupleSatisfiesSelf :: "xact_env \<Rightarrow> vis_state \<Rightarrow> bool \<times> vis_state" where
  "HeapTupleSatisfiesSelf env s = vis_then (Self_xmin env s) (Self_xmax env)"

definition HeapTupleSatisfiesAny :: "vis_state \<Rightarrow> bool \<times> vis_state" where
  "HeapTupleSatisfiesAny s = (True, s)"

section \<open>HeapTupleSatisfiesToast\<close>

definition HeapTupleSatisfiesToast :: "xact_env \<Rightarrow> vis_state \<Rightarrow> bool \<times> vis_state" where
  "HeapTupleSatisfiesToast env s =
     vis_then
       (let t = vt s
        in if HeapTupleHeaderXminCommitted t then (None, s)
           else if HeapTupleHeaderXminInvalid t then (Some False, s)
           else if has HEAP_MOVED_OFF t then moved_off env (TransactionIdIsInProgress env) False s
           else if has HEAP_MOVED_IN t then moved_in env (TransactionIdIsInProgress env) False s
           else if HeapTupleHeaderGetXmin t = InvalidTransactionId then (Some False, s)
           else (None, s))
       (\<lambda>s. (True, s))"

section \<open>HeapTupleSatisfiesUpdate\<close>

text \<open>\<open>t_self\<close> is the tuple's own position; a tuple that points elsewhere was updated.\<close>

definition updated_or_deleted :: "uint32 \<times> uint16 \<Rightarrow> HeapTupleHeader \<Rightarrow> TM_Result" where
  "updated_or_deleted t_self t = (if t_self \<noteq> t_ctid t then TM_Updated else TM_Deleted)"

definition self_modified :: "xact_env \<Rightarrow> uint32 \<Rightarrow> HeapTupleHeader \<Rightarrow> TM_Result" where
  "self_modified env cid t = (if HeapTupleHeaderGetCmax env t \<ge> cid then TM_SelfModified else TM_Invisible)"

definition Update_own :: "xact_env \<Rightarrow> uint32 \<Rightarrow> vis_state \<Rightarrow> TM_Result \<times> vis_state" where
  "Update_own env cid s =
     (let t = vt s
      in if HeapTupleHeaderGetCmin env t \<ge> cid then (TM_Invisible, s)
         else if has HEAP_XMAX_INVALID t then (TM_Ok, s)
         else if HEAP_XMAX_IS_LOCKED_ONLY (t_infomask t)
         then (if has HEAP_XMAX_IS_MULTI t
               then (if MultiXactIdIsRunning env (t_xmax t) True then (TM_BeingModified, s) else (TM_Ok, s))
               else if \<not> TransactionIdIsInProgress env (t_xmax t) then (TM_Ok, s)
               else (TM_BeingModified, s))
         else if has HEAP_XMAX_IS_MULTI t
         then (if \<not> TransactionIdIsCurrentTransactionId env (HeapTupleGetUpdateXid env t)
               then (if MultiXactIdIsRunning env (t_xmax t) False then (TM_BeingModified, s) else (TM_Ok, s))
               else (self_modified env cid t, s))
         else if \<not> TransactionIdIsCurrentTransactionId env (t_xmax t)
         then (TM_Ok, SetHintBits env HEAP_XMAX_INVALID InvalidTransactionId s)
         else (self_modified env cid t, s))"

definition Update_xmin :: "xact_env \<Rightarrow> uint32 \<Rightarrow> vis_state \<Rightarrow> TM_Result option \<times> vis_state" where
  "Update_xmin env cid s =
     (let t = vt s
      in if HeapTupleHeaderXminCommitted t then (None, s)
         else if HeapTupleHeaderXminInvalid t then (Some TM_Invisible, s)
         else if has HEAP_MOVED_OFF t then moved_off env (TransactionIdIsInProgress env) TM_Invisible s
         else if has HEAP_MOVED_IN t then moved_in env (TransactionIdIsInProgress env) TM_Invisible s
         else if TransactionIdIsCurrentTransactionId env (t_xmin t) then vis_return (Update_own env cid s)
         else if TransactionIdIsInProgress env (t_xmin t) then (Some TM_Invisible, s)
         else other_inserter env TM_Invisible s)"

definition Update_multi :: "xact_env \<Rightarrow> uint32 \<times> uint16 \<Rightarrow> uint32 \<Rightarrow> vis_state \<Rightarrow> TM_Result \<times> vis_state" where
  "Update_multi env t_self cid s =
     (let t = vt s;
          xmax = HeapTupleGetUpdateXid env t
      in if HEAP_LOCKED_UPGRADED (t_infomask t) then (TM_Ok, s)
         else if HEAP_XMAX_IS_LOCKED_ONLY (t_infomask t)
         then (if MultiXactIdIsRunning env (t_xmax t) True then (TM_BeingModified, s)
               else (TM_Ok, SetHintBits env HEAP_XMAX_INVALID InvalidTransactionId s))
         else if xmax = InvalidTransactionId \<and> MultiXactIdIsRunning env (t_xmax t) False then (TM_BeingModified, s)
         else if TransactionIdIsCurrentTransactionId env xmax then (self_modified env cid t, s)
         else if MultiXactIdIsRunning env (t_xmax t) False then (TM_BeingModified, s)
         else if TransactionIdDidCommit env xmax then (updated_or_deleted t_self t, s)
         else if \<not> MultiXactIdIsRunning env (t_xmax t) False
         then (TM_Ok, SetHintBits env HEAP_XMAX_INVALID InvalidTransactionId s)
         else (TM_BeingModified, s))"

definition Update_xmax :: "xact_env \<Rightarrow> uint32 \<times> uint16 \<Rightarrow> uint32 \<Rightarrow> vis_state \<Rightarrow> TM_Result \<times> vis_state" where
  "Update_xmax env t_self cid s =
     (let t = vt s
      in if has HEAP_XMAX_INVALID t then (TM_Ok, s)
         else if has HEAP_XMAX_COMMITTED t
         then (if HEAP_XMAX_IS_LOCKED_ONLY (t_infomask t) then (TM_Ok, s) else (updated_or_deleted t_self t, s))
         else if has HEAP_XMAX_IS_MULTI t then Update_multi env t_self cid s
         else if TransactionIdIsCurrentTransactionId env (t_xmax t)
         then (if HEAP_XMAX_IS_LOCKED_ONLY (t_infomask t) then (TM_BeingModified, s)
               else (self_modified env cid t, s))
         else if TransactionIdIsInProgress env (t_xmax t) then (TM_BeingModified, s)
         else if \<not> TransactionIdDidCommit env (t_xmax t)
         then (TM_Ok, SetHintBits env HEAP_XMAX_INVALID InvalidTransactionId s)
         else if HEAP_XMAX_IS_LOCKED_ONLY (t_infomask t)
         then (TM_Ok, SetHintBits env HEAP_XMAX_INVALID InvalidTransactionId s)
         else (updated_or_deleted t_self t, SetHintBits env HEAP_XMAX_COMMITTED (t_xmax t) s))"

definition HeapTupleSatisfiesUpdate :: "xact_env \<Rightarrow> uint32 \<times> uint16 \<Rightarrow> uint32 \<Rightarrow> vis_state \<Rightarrow> TM_Result \<times> vis_state" where
  "HeapTupleSatisfiesUpdate env t_self cid s = vis_then (Update_xmin env cid s) (Update_xmax env t_self cid)"

section \<open>HeapTupleSatisfiesDirty\<close>

text \<open>
  The snapshot is also the output: the transactions in progress that inserted or deleted the
  tuple, and the token of a speculative insertion. A result is paired with the three fields.
\<close>

type_synonym dirty_out = "uint32 \<times> uint32 \<times> uint32"

definition no_out :: dirty_out where
  "no_out = (InvalidTransactionId, InvalidTransactionId, 0)"

definition Dirty_xmin :: "xact_env \<Rightarrow> vis_state \<Rightarrow> (bool \<times> dirty_out) option \<times> vis_state" where
  "Dirty_xmin env s =
     (let t = vt s
      in if HeapTupleHeaderXminCommitted t then (None, s)
         else if HeapTupleHeaderXminInvalid t then (Some (False, no_out), s)
         else if has HEAP_MOVED_OFF t then moved_off env (TransactionIdIsInProgress env) (False, no_out) s
         else if has HEAP_MOVED_IN t then moved_in env (TransactionIdIsInProgress env) (False, no_out) s
         else if TransactionIdIsCurrentTransactionId env (t_xmin t)
         then (case Self_own env s of (r, s) \<Rightarrow> (Some (r, no_out), s))
         else if TransactionIdIsInProgress env (t_xmin t)
         then (Some (True, t_xmin t, InvalidTransactionId,
                     if HeapTupleHeaderIsSpeculative t then HeapTupleHeaderGetSpeculativeToken t else 0), s)
         else other_inserter env (False, no_out) s)"

definition Dirty_xmax :: "xact_env \<Rightarrow> vis_state \<Rightarrow> (bool \<times> dirty_out) \<times> vis_state" where
  "Dirty_xmax env s =
     (let t = vt s
      in if has HEAP_XMAX_INVALID t then ((True, no_out), s)
         else if has HEAP_XMAX_COMMITTED t then ((HEAP_XMAX_IS_LOCKED_ONLY (t_infomask t), no_out), s)
         else if has HEAP_XMAX_IS_MULTI t
         then (if HEAP_XMAX_IS_LOCKED_ONLY (t_infomask t) then ((True, no_out), s)
               else
                 (let xmax = HeapTupleGetUpdateXid env t
                  in if TransactionIdIsCurrentTransactionId env xmax then ((False, no_out), s)
                     else if TransactionIdIsInProgress env xmax then ((True, InvalidTransactionId, xmax, 0), s)
                     else ((\<not> TransactionIdDidCommit env xmax, no_out), s)))
         else if TransactionIdIsCurrentTransactionId env (t_xmax t)
         then ((HEAP_XMAX_IS_LOCKED_ONLY (t_infomask t), no_out), s)
         else if TransactionIdIsInProgress env (t_xmax t)
         then ((True, if \<not> HEAP_XMAX_IS_LOCKED_ONLY (t_infomask t) then (InvalidTransactionId, t_xmax t, 0) else no_out), s)
         else if \<not> TransactionIdDidCommit env (t_xmax t)
         then ((True, no_out), SetHintBits env HEAP_XMAX_INVALID InvalidTransactionId s)
         else if HEAP_XMAX_IS_LOCKED_ONLY (t_infomask t)
         then ((True, no_out), SetHintBits env HEAP_XMAX_INVALID InvalidTransactionId s)
         else ((False, no_out), SetHintBits env HEAP_XMAX_COMMITTED (t_xmax t) s))"

definition HeapTupleSatisfiesDirty :: "xact_env \<Rightarrow> vis_state \<Rightarrow> (bool \<times> dirty_out) \<times> vis_state" where
  "HeapTupleSatisfiesDirty env s = vis_then (Dirty_xmin env s) (Dirty_xmax env)"

section \<open>HeapTupleSatisfiesMVCC\<close>

definition MVCC_own :: "xact_env \<Rightarrow> Snapshot \<Rightarrow> vis_state \<Rightarrow> bool \<times> vis_state" where
  "MVCC_own env snapshot s =
     (let t = vt s
      in if HeapTupleHeaderGetCmin env t \<ge> curcid snapshot then (False, s)
         else if has HEAP_XMAX_INVALID t then (True, s)
         else if HEAP_XMAX_IS_LOCKED_ONLY (t_infomask t) then (True, s)
         else if has HEAP_XMAX_IS_MULTI t
         then (if \<not> TransactionIdIsCurrentTransactionId env (HeapTupleGetUpdateXid env t) then (True, s)
               else (HeapTupleHeaderGetCmax env t \<ge> curcid snapshot, s))
         else if \<not> TransactionIdIsCurrentTransactionId env (t_xmax t)
         then (True, SetHintBits env HEAP_XMAX_INVALID InvalidTransactionId s)
         else (HeapTupleHeaderGetCmax env t \<ge> curcid snapshot, s))"

definition MVCC_xmin :: "xact_env \<Rightarrow> Snapshot \<Rightarrow> vis_state \<Rightarrow> bool option \<times> vis_state" where
  "MVCC_xmin env snapshot s =
     (let t = vt s
      in if \<not> HeapTupleHeaderXminCommitted t
         then (if HeapTupleHeaderXminInvalid t then (Some False, s)
               else if has HEAP_MOVED_OFF t then moved_off env (XidInMVCCSnapshot snapshot) False s
               else if has HEAP_MOVED_IN t then moved_in env (XidInMVCCSnapshot snapshot) False s
               else if TransactionIdIsCurrentTransactionId env (t_xmin t) then vis_return (MVCC_own env snapshot s)
               else if XidInMVCCSnapshot snapshot (t_xmin t) then (Some False, s)
               else other_inserter env False s)
         else if \<not> HeapTupleHeaderXminFrozen t \<and> XidInMVCCSnapshot snapshot (t_xmin t) then (Some False, s)
         else (None, s))"

definition MVCC_xmax :: "xact_env \<Rightarrow> Snapshot \<Rightarrow> vis_state \<Rightarrow> bool \<times> vis_state" where
  "MVCC_xmax env snapshot s =
     (let t = vt s
      in if has HEAP_XMAX_INVALID t then (True, s)
         else if HEAP_XMAX_IS_LOCKED_ONLY (t_infomask t) then (True, s)
         else if has HEAP_XMAX_IS_MULTI t
         then (let xmax = HeapTupleGetUpdateXid env t
               in if TransactionIdIsCurrentTransactionId env xmax
                  then (HeapTupleHeaderGetCmax env t \<ge> curcid snapshot, s)
                  else if XidInMVCCSnapshot snapshot xmax then (True, s)
                  else (\<not> TransactionIdDidCommit env xmax, s))
         else if \<not> has HEAP_XMAX_COMMITTED t
         then (if TransactionIdIsCurrentTransactionId env (t_xmax t)
               then (HeapTupleHeaderGetCmax env t \<ge> curcid snapshot, s)
               else if XidInMVCCSnapshot snapshot (t_xmax t) then (True, s)
               else if \<not> TransactionIdDidCommit env (t_xmax t)
               then (True, SetHintBits env HEAP_XMAX_INVALID InvalidTransactionId s)
               else (False, SetHintBits env HEAP_XMAX_COMMITTED (t_xmax t) s))
         else (XidInMVCCSnapshot snapshot (t_xmax t), s))"

definition HeapTupleSatisfiesMVCC :: "xact_env \<Rightarrow> Snapshot \<Rightarrow> vis_state \<Rightarrow> bool \<times> vis_state" where
  "HeapTupleSatisfiesMVCC env snapshot s = vis_then (MVCC_xmin env snapshot s) (MVCC_xmax env snapshot)"

section \<open>Only locked\<close>

definition HeapTupleHeaderIsOnlyLocked :: "xact_env \<Rightarrow> HeapTupleHeader \<Rightarrow> bool" where
  "HeapTupleHeaderIsOnlyLocked env t =
     (if has HEAP_XMAX_INVALID t then True
      else if has HEAP_XMAX_LOCK_ONLY t then True
      else if t_xmax t = InvalidTransactionId then True
      else if \<not> has HEAP_XMAX_IS_MULTI t then False
      else
        (let xmax = HeapTupleGetUpdateXid env t
         in if TransactionIdIsCurrentTransactionId env xmax then False
            else if TransactionIdIsInProgress env xmax then False
            else if TransactionIdDidCommit env xmax then False
            else True))"

section \<open>HeapTupleSatisfiesVacuum\<close>

text \<open>The second result is \<^verbatim>\<open>*dead_after\<close>.\<close>

definition Vacuum_xmin :: "xact_env \<Rightarrow> vis_state \<Rightarrow> (HTSV_Result \<times> uint32) option \<times> vis_state" where
  "Vacuum_xmin env s =
     (let t = vt s;
          xvac = HeapTupleHeaderGetXvac t;
          ret = (\<lambda>r. Some (r, InvalidTransactionId))
      in if HeapTupleHeaderXminCommitted t then (None, s)
         else if HeapTupleHeaderXminInvalid t then (ret HEAPTUPLE_DEAD, s)
         else if has HEAP_MOVED_OFF t
         then (if TransactionIdIsCurrentTransactionId env xvac then (ret HEAPTUPLE_DELETE_IN_PROGRESS, s)
               else if TransactionIdIsInProgress env xvac then (ret HEAPTUPLE_DELETE_IN_PROGRESS, s)
               else if TransactionIdDidCommit env xvac
               then (ret HEAPTUPLE_DEAD, SetHintBits env HEAP_XMIN_INVALID InvalidTransactionId s)
               else (None, SetHintBits env HEAP_XMIN_COMMITTED InvalidTransactionId s))
         else if has HEAP_MOVED_IN t
         then (if TransactionIdIsCurrentTransactionId env xvac then (ret HEAPTUPLE_INSERT_IN_PROGRESS, s)
               else if TransactionIdIsInProgress env xvac then (ret HEAPTUPLE_INSERT_IN_PROGRESS, s)
               else if TransactionIdDidCommit env xvac
               then (None, SetHintBits env HEAP_XMIN_COMMITTED InvalidTransactionId s)
               else (ret HEAPTUPLE_DEAD, SetHintBits env HEAP_XMIN_INVALID InvalidTransactionId s))
         else if TransactionIdIsCurrentTransactionId env (t_xmin t)
         then (if has HEAP_XMAX_INVALID t then (ret HEAPTUPLE_INSERT_IN_PROGRESS, s)
               else if HEAP_XMAX_IS_LOCKED_ONLY (t_infomask t) \<or> HeapTupleHeaderIsOnlyLocked env t
               then (ret HEAPTUPLE_INSERT_IN_PROGRESS, s)
               else if TransactionIdIsCurrentTransactionId env (HeapTupleHeaderGetUpdateXid env t)
               then (ret HEAPTUPLE_DELETE_IN_PROGRESS, s)
               else (ret HEAPTUPLE_INSERT_IN_PROGRESS, s))
         else if TransactionIdIsInProgress env (t_xmin t) then (ret HEAPTUPLE_INSERT_IN_PROGRESS, s)
         else other_inserter env (HEAPTUPLE_DEAD, InvalidTransactionId) s)"

definition Vacuum_locked :: "xact_env \<Rightarrow> vis_state \<Rightarrow> vis_state" where
  "Vacuum_locked env s =
     (let t = vt s
      in if \<not> has HEAP_XMAX_COMMITTED t
         then (if has HEAP_XMAX_IS_MULTI t
               then (if \<not> HEAP_LOCKED_UPGRADED (t_infomask t) \<and> MultiXactIdIsRunning env (t_xmax t) True then s
                     else SetHintBits env HEAP_XMAX_INVALID InvalidTransactionId s)
               else (if TransactionIdIsInProgress env (t_xmax t) then s
                     else SetHintBits env HEAP_XMAX_INVALID InvalidTransactionId s))
         else s)"

definition Vacuum_xmax :: "xact_env \<Rightarrow> vis_state \<Rightarrow> (HTSV_Result \<times> uint32) \<times> vis_state" where
  "Vacuum_xmax env s =
     (let t = vt s;
          ret = (\<lambda>r. (r, InvalidTransactionId))
      in if has HEAP_XMAX_INVALID t then (ret HEAPTUPLE_LIVE, s)
         else if HEAP_XMAX_IS_LOCKED_ONLY (t_infomask t) then (ret HEAPTUPLE_LIVE, Vacuum_locked env s)
         else if has HEAP_XMAX_IS_MULTI t
         then (let xmax = HeapTupleGetUpdateXid env t
               in if TransactionIdIsInProgress env xmax then (ret HEAPTUPLE_DELETE_IN_PROGRESS, s)
                  else if TransactionIdDidCommit env xmax then ((HEAPTUPLE_RECENTLY_DEAD, xmax), s)
                  else if \<not> MultiXactIdIsRunning env (t_xmax t) False
                  then (ret HEAPTUPLE_LIVE, SetHintBits env HEAP_XMAX_INVALID InvalidTransactionId s)
                  else (ret HEAPTUPLE_LIVE, s))
         else if \<not> has HEAP_XMAX_COMMITTED t
         then (if TransactionIdIsInProgress env (t_xmax t) then (ret HEAPTUPLE_DELETE_IN_PROGRESS, s)
               else if TransactionIdDidCommit env (t_xmax t)
               then ((HEAPTUPLE_RECENTLY_DEAD, t_xmax t), SetHintBits env HEAP_XMAX_COMMITTED (t_xmax t) s)
               else (ret HEAPTUPLE_LIVE, SetHintBits env HEAP_XMAX_INVALID InvalidTransactionId s))
         else ((HEAPTUPLE_RECENTLY_DEAD, t_xmax t), s))"

definition HeapTupleSatisfiesVacuumHorizon :: "xact_env \<Rightarrow> vis_state \<Rightarrow> (HTSV_Result \<times> uint32) \<times> vis_state" where
  "HeapTupleSatisfiesVacuumHorizon env s = vis_then (Vacuum_xmin env s) (Vacuum_xmax env)"

definition HeapTupleSatisfiesVacuum :: "xact_env \<Rightarrow> uint32 \<Rightarrow> vis_state \<Rightarrow> HTSV_Result \<times> vis_state" where
  "HeapTupleSatisfiesVacuum env OldestXmin s =
     (case HeapTupleSatisfiesVacuumHorizon env s of
        ((res, dead_after), s) \<Rightarrow>
          (if res = HEAPTUPLE_RECENTLY_DEAD \<and> TransactionIdPrecedes env dead_after OldestXmin
           then HEAPTUPLE_DEAD else res, s))"

definition HeapTupleSatisfiesNonVacuumable :: "xact_env \<Rightarrow> Snapshot \<Rightarrow> vis_state \<Rightarrow> bool \<times> vis_state" where
  "HeapTupleSatisfiesNonVacuumable env snapshot s =
     (case HeapTupleSatisfiesVacuumHorizon env s of
        ((res, dead_after), s) \<Rightarrow>
          ((if res = HEAPTUPLE_RECENTLY_DEAD \<and> vistest snapshot dead_after then HEAPTUPLE_DEAD else res)
             \<noteq> HEAPTUPLE_DEAD, s))"

definition HeapTupleIsSurelyDead :: "HeapTupleHeader \<Rightarrow> (uint32 \<Rightarrow> bool) \<Rightarrow> bool" where
  "HeapTupleIsSurelyDead t horizon =
     (if \<not> HeapTupleHeaderXminCommitted t then HeapTupleHeaderXminInvalid t
      else if has HEAP_XMAX_INVALID t then False
      else if HEAP_XMAX_IS_LOCKED_ONLY (t_infomask t) then False
      else if has HEAP_XMAX_IS_MULTI t then False
      else if \<not> has HEAP_XMAX_COMMITTED t then False
      else horizon (t_xmax t))"

section \<open>HeapTupleSatisfiesHistoricMVCC\<close>

text \<open>\<^verbatim>\<open>bsearch\<close> on an array sorted by transaction id finds a member when there is one.\<close>

definition TransactionIdInArray :: "uint32 \<Rightarrow> uint32 list \<Rightarrow> nat \<Rightarrow> bool" where
  "TransactionIdInArray xid xs num = (num > 0 \<and> xid \<in> set (take num xs))"

definition Historic_xmin :: "xact_env \<Rightarrow> Snapshot \<Rightarrow> HeapTupleHeader \<Rightarrow> bool" where
  "Historic_xmin env snapshot t =
     (let xmin = HeapTupleHeaderGetXmin t
      in if HeapTupleHeaderXminInvalid t then False
         else if TransactionIdInArray xmin (subxip snapshot) (subxcnt snapshot)
         then (case ResolveCminCmax snapshot t of
                 None \<Rightarrow> False
               | Some (cmin, cmax) \<Rightarrow> \<not> cmin \<ge> curcid snapshot)
         else if TransactionIdPrecedes env xmin (snap_xmin snapshot)
         then \<not> (\<not> HeapTupleHeaderXminCommitted t \<and> \<not> TransactionIdDidCommit env xmin)
         else if TransactionIdFollowsOrEquals env xmin (snap_xmax snapshot) then False
         else TransactionIdInArray xmin (xip snapshot) (xcnt snapshot))"

definition Historic_xmax :: "xact_env \<Rightarrow> Snapshot \<Rightarrow> HeapTupleHeader \<Rightarrow> bool" where
  "Historic_xmax env snapshot t =
     (let xmax = (if has HEAP_XMAX_IS_MULTI t then HeapTupleGetUpdateXid env t else t_xmax t)
      in if has HEAP_XMAX_INVALID t then True
         else if HEAP_XMAX_IS_LOCKED_ONLY (t_infomask t) then True
         else if TransactionIdInArray xmax (subxip snapshot) (subxcnt snapshot)
         then (case ResolveCminCmax snapshot t of
                 None \<Rightarrow> True
               | Some (cmin, cmax) \<Rightarrow> if cmax = InvalidCommandId then True else cmax \<ge> curcid snapshot)
         else if TransactionIdPrecedes env xmax (snap_xmin snapshot)
         then (if has HEAP_XMAX_COMMITTED t then False else \<not> TransactionIdDidCommit env xmax)
         else if TransactionIdFollowsOrEquals env xmax (snap_xmax snapshot) then True
         else if TransactionIdInArray xmax (xip snapshot) (xcnt snapshot) then False
         else True)"

definition HeapTupleSatisfiesHistoricMVCC :: "xact_env \<Rightarrow> Snapshot \<Rightarrow> HeapTupleHeader \<Rightarrow> bool" where
  "HeapTupleSatisfiesHistoricMVCC env snapshot t = (Historic_xmin env snapshot t \<and> Historic_xmax env snapshot t)"

section \<open>HeapTupleSatisfiesVisibility\<close>

definition HeapTupleSatisfiesVisibility :: "xact_env \<Rightarrow> Snapshot \<Rightarrow> vis_state \<Rightarrow> (bool \<times> Snapshot) \<times> vis_state" where
  "HeapTupleSatisfiesVisibility env snapshot s =
     (let keep = (\<lambda>p. case p of (r, s) \<Rightarrow> ((r, snapshot), s))
      in case snapshot_type snapshot of
           SNAPSHOT_MVCC \<Rightarrow> keep (HeapTupleSatisfiesMVCC env snapshot s)
         | SNAPSHOT_SELF \<Rightarrow> keep (HeapTupleSatisfiesSelf env s)
         | SNAPSHOT_ANY \<Rightarrow> keep (HeapTupleSatisfiesAny s)
         | SNAPSHOT_TOAST \<Rightarrow> keep (HeapTupleSatisfiesToast env s)
         | SNAPSHOT_DIRTY \<Rightarrow>
             (case HeapTupleSatisfiesDirty env s of
                ((r, x, y, tok), s) \<Rightarrow>
                  ((r, snapshot\<lparr>snap_xmin := x, snap_xmax := y, speculativeToken := tok\<rparr>), s))
         | SNAPSHOT_HISTORIC_MVCC \<Rightarrow> ((HeapTupleSatisfiesHistoricMVCC env snapshot (vt s), snapshot), s)
         | SNAPSHOT_NON_VACUUMABLE \<Rightarrow> keep (HeapTupleSatisfiesNonVacuumable env snapshot s))"

section \<open>The specification: transactions instead of hint bits\<close>

text \<open>The transaction that updated or deleted the tuple, 0 when there is none.\<close>

definition updater :: "xact_env \<Rightarrow> HeapTupleHeader \<Rightarrow> uint32" where
  "updater env t =
     (if HEAP_XMAX_IS_LOCKED_ONLY (t_infomask t) then InvalidTransactionId
      else if has HEAP_XMAX_IS_MULTI t then HeapTupleGetUpdateXid env t else t_xmax t)"

definition gone :: "xact_env \<Rightarrow> uint32 \<Rightarrow> bool" where
  "gone env x \<longleftrightarrow> \<not> TransactionIdIsCurrentTransactionId env x \<and> \<not> TransactionIdIsInProgress env x \<and>
     \<not> TransactionIdDidCommit env x"

definition ended_committed :: "xact_env \<Rightarrow> uint32 \<Rightarrow> bool" where
  "ended_committed env x \<longleftrightarrow> \<not> TransactionIdIsCurrentTransactionId env x \<and> \<not> TransactionIdIsInProgress env x \<and>
     TransactionIdDidCommit env x"

text \<open>The same tuple up to its four hint bits.\<close>

definition same_but_hints :: "HeapTupleHeader \<Rightarrow> HeapTupleHeader \<Rightarrow> bool" where
  "same_but_hints t u \<longleftrightarrow> set_bits 0x0F00 t = set_bits 0x0F00 u"

text \<open>
  What the server guarantees: the invalid transaction id is no transaction, the current
  transaction is in progress, and the command ids do not depend on hint bits.
\<close>

definition xact_ok :: "xact_env \<Rightarrow> bool" where
  "xact_ok env \<longleftrightarrow> gone env InvalidTransactionId \<and>
     (\<forall>x. TransactionIdIsCurrentTransactionId env x \<longrightarrow> TransactionIdIsInProgress env x) \<and>
     (\<forall>t u. same_but_hints t u \<longrightarrow> HeapTupleHeaderGetCmin env t = HeapTupleHeaderGetCmin env u \<and>
        HeapTupleHeaderGetCmax env t = HeapTupleHeaderGetCmax env u)"

text \<open>
  A tuple as this version of the server writes it: its hint bits say what the transactions did,
  and a tuple of the current transaction has no deleter but that transaction.
\<close>

definition tuple_ok :: "xact_env \<Rightarrow> HeapTupleHeader \<Rightarrow> bool" where
  "tuple_ok env t \<longleftrightarrow>
     \<not> has HEAP_MOVED_OFF t \<and> \<not> has HEAP_MOVED_IN t \<and>
     (HeapTupleHeaderXminCommitted t \<and> \<not> HeapTupleHeaderXminFrozen t \<longrightarrow> ended_committed env (t_xmin t)) \<and>
     (HeapTupleHeaderXminInvalid t \<longrightarrow> gone env (t_xmin t)) \<and>
     (has HEAP_XMAX_INVALID t \<longrightarrow> gone env (updater env t)) \<and>
     (has HEAP_XMAX_COMMITTED t \<longrightarrow> \<not> has HEAP_XMAX_IS_MULTI t \<and>
        \<not> HEAP_XMAX_IS_LOCKED_ONLY (t_infomask t) \<and> ended_committed env (t_xmax t)) \<and>
     (TransactionIdIsCurrentTransactionId env (t_xmin t) \<and> \<not> HeapTupleHeaderXminFrozen t \<and>
      \<not> TransactionIdIsCurrentTransactionId env (updater env t) \<longrightarrow> gone env (updater env t))"

text \<open>
  Visible to a snapshot: the inserter's effects are in the snapshot and those of the updater
  are not. The effects of the own transaction count up to the snapshot's command, those of
  another one when the snapshot regards it as finished and it committed.
\<close>

definition in_effect :: "xact_env \<Rightarrow> Snapshot \<Rightarrow> uint32 \<Rightarrow> uint32 \<Rightarrow> bool" where
  "in_effect env snapshot xid cid \<longleftrightarrow>
     (if TransactionIdIsCurrentTransactionId env xid then cid < curcid snapshot
      else \<not> XidInMVCCSnapshot snapshot xid \<and> TransactionIdDidCommit env xid)"

definition mvcc_visible :: "xact_env \<Rightarrow> Snapshot \<Rightarrow> HeapTupleHeader \<Rightarrow> bool" where
  "mvcc_visible env snapshot t \<longleftrightarrow>
     (HeapTupleHeaderXminFrozen t \<or> in_effect env snapshot (t_xmin t) (HeapTupleHeaderGetCmin env t)) \<and>
     \<not> in_effect env snapshot (updater env t) (HeapTupleHeaderGetCmax env t)"

definition snapshot_ok :: "xact_env \<Rightarrow> Snapshot \<Rightarrow> bool" where
  "snapshot_ok env snapshot \<longleftrightarrow>
     (\<forall>x. TransactionIdIsInProgress env x \<longrightarrow> TransactionIdIsCurrentTransactionId env x \<or> XidInMVCCSnapshot snapshot x)"

section \<open>Setting a hint bit\<close>

lemma SetHintBits_invalid:
  "SetHintBits env m InvalidTransactionId s = s\<lparr>vt := set_bits m (vt s), hint_dirty := True\<rparr>"
  by (simp add: SetHintBits_def)

lemma set_bits_same:
  assumes "m \<in> hint_masks"
  shows "same_but_hints t (set_bits m t)"
proof -
  have "t_infomask t OR 0x0F00 = (t_infomask t OR m) OR 0x0F00"
    using assms by (auto simp: hint_masks_def or.assoc)
  then show ?thesis by (simp add: same_but_hints_def set_bits_def)
qed

lemma same_but_hints_refl [simp]: "same_but_hints t t"
  by (simp add: same_but_hints_def)

lemma same_but_hints_trans: "same_but_hints t u \<Longrightarrow> same_but_hints u v \<Longrightarrow> same_but_hints t v"
  by (simp add: same_but_hints_def)

lemma same_but_hintsD:
  assumes "same_but_hints t u"
  shows "t_xmin u = t_xmin t" "t_xmax u = t_xmax t" "t_field3 u = t_field3 t" "t_ctid u = t_ctid t"
    "HEAP_XMAX_IS_LOCKED_ONLY (t_infomask u) = HEAP_XMAX_IS_LOCKED_ONLY (t_infomask t)"
    "has HEAP_XMAX_IS_MULTI u = has HEAP_XMAX_IS_MULTI t" "updater env u = updater env t"
proof -
  have e: "set_bits 0x0F00 u = set_bits 0x0F00 t" using assms by (simp add: same_but_hints_def)
  show sel: "t_xmin u = t_xmin t" "t_xmax u = t_xmax t" "t_field3 u = t_field3 t" "t_ctid u = t_ctid t"
    using arg_cong [OF e, of t_xmin] arg_cong [OF e, of t_xmax] arg_cong [OF e, of t_field3]
      arg_cong [OF e, of t_ctid] by simp_all
  have "t_infomask u OR 0x0F00 = t_infomask t OR 0x0F00" using arg_cong [OF e, of t_infomask] by simp
  then have b: "bit (t_infomask u OR 0x0F00) n = bit (t_infomask t OR 0x0F00) n" for n by simp
  have bits: "bit (t_infomask u) 4 = bit (t_infomask t) 4" "bit (t_infomask u) 6 = bit (t_infomask t) 6"
    "bit (t_infomask u) 7 = bit (t_infomask t) 7" "bit (t_infomask u) 12 = bit (t_infomask t) 12"
    using b [of 4] b [of 6] b [of 7] b [of 12] by (simp_all add: bit_simps)
  show lo: "HEAP_XMAX_IS_LOCKED_ONLY (t_infomask u) = HEAP_XMAX_IS_LOCKED_ONLY (t_infomask t)"
    and mu: "has HEAP_XMAX_IS_MULTI u = has HEAP_XMAX_IS_MULTI t"
    unfolding header_bits bits by (rule refl)+
  show "updater env u = updater env t"
    by (simp add: updater_def lo mu sel HeapTupleGetUpdateXid_def MultiXactIdGetUpdateXid_def)
qed

lemma hint_steps:
  assumes "tuple_ok env t"
  shows "\<not> HeapTupleHeaderXminCommitted t \<Longrightarrow> \<not> HeapTupleHeaderXminInvalid t \<Longrightarrow> ended_committed env (t_xmin t) \<Longrightarrow>
      tuple_ok env (set_bits HEAP_XMIN_COMMITTED t) \<and> \<not> HeapTupleHeaderXminFrozen (set_bits HEAP_XMIN_COMMITTED t)"
    and "\<not> HeapTupleHeaderXminCommitted t \<Longrightarrow> gone env (t_xmin t) \<Longrightarrow> tuple_ok env (set_bits HEAP_XMIN_INVALID t)"
    and "gone env (updater env t) \<Longrightarrow> tuple_ok env (set_bits HEAP_XMAX_INVALID t)"
    and "\<not> has HEAP_XMAX_IS_MULTI t \<Longrightarrow> \<not> HEAP_XMAX_IS_LOCKED_ONLY (t_infomask t) \<Longrightarrow> ended_committed env (t_xmax t) \<Longrightarrow>
      tuple_ok env (set_bits HEAP_XMAX_COMMITTED t)"
proof -
  have u: "m \<in> hint_masks \<Longrightarrow> updater env (set_bits m t) = updater env t" for m
    using same_but_hintsD(7) [OF set_bits_same] .
  note simps = tuple_ok_def header_bits hint_bit set_bits_sel u hint_masks_def
  show "\<not> HeapTupleHeaderXminCommitted t \<Longrightarrow> \<not> HeapTupleHeaderXminInvalid t \<Longrightarrow> ended_committed env (t_xmin t) \<Longrightarrow>
      tuple_ok env (set_bits HEAP_XMIN_COMMITTED t) \<and> \<not> HeapTupleHeaderXminFrozen (set_bits HEAP_XMIN_COMMITTED t)"
    using assms by (auto simp: simps)
  show "\<not> HeapTupleHeaderXminCommitted t \<Longrightarrow> gone env (t_xmin t) \<Longrightarrow> tuple_ok env (set_bits HEAP_XMIN_INVALID t)"
    using assms by (auto simp: simps)
  show "gone env (updater env t) \<Longrightarrow> tuple_ok env (set_bits HEAP_XMAX_INVALID t)"
    using assms by (auto simp: simps)
  show "\<not> has HEAP_XMAX_IS_MULTI t \<Longrightarrow> \<not> HEAP_XMAX_IS_LOCKED_ONLY (t_infomask t) \<Longrightarrow> ended_committed env (t_xmax t) \<Longrightarrow>
      tuple_ok env (set_bits HEAP_XMAX_COMMITTED t)"
    using assms by (auto simp: simps)
qed

text \<open>A step of a routine is good when it keeps the tuple but for hints that are right.\<close>

definition good_step :: "xact_env \<Rightarrow> vis_state \<Rightarrow> vis_state \<Rightarrow> bool" where
  "good_step env s s' \<longleftrightarrow> tuple_ok env (vt s') \<and> same_but_hints (vt s) (vt s') \<and>
     HeapTupleHeaderXminFrozen (vt s') = HeapTupleHeaderXminFrozen (vt s)"

lemma good_step_refl: "tuple_ok env (vt s) \<Longrightarrow> good_step env s s"
  by (simp add: good_step_def)

lemma good_step_trans: "good_step env s u \<Longrightarrow> good_step env u v \<Longrightarrow> good_step env s v"
  using same_but_hints_trans by (auto simp: good_step_def)

lemma good_steps:
  assumes "tuple_ok env (vt s)"
  shows "\<not> HeapTupleHeaderXminCommitted (vt s) \<Longrightarrow> \<not> HeapTupleHeaderXminInvalid (vt s) \<Longrightarrow> ended_committed env (t_xmin (vt s)) \<Longrightarrow>
      good_step env s (SetHintBits env HEAP_XMIN_COMMITTED x s)"
    and "\<not> HeapTupleHeaderXminCommitted (vt s) \<Longrightarrow> gone env (t_xmin (vt s)) \<Longrightarrow> good_step env s (SetHintBits env HEAP_XMIN_INVALID x s)"
    and "gone env (updater env (vt s)) \<Longrightarrow> good_step env s (SetHintBits env HEAP_XMAX_INVALID x s)"
    and "\<not> has HEAP_XMAX_IS_MULTI (vt s) \<Longrightarrow> \<not> HEAP_XMAX_IS_LOCKED_ONLY (t_infomask (vt s)) \<Longrightarrow>
      ended_committed env (t_xmax (vt s)) \<Longrightarrow> good_step env s (SetHintBits env HEAP_XMAX_COMMITTED x s)"
  using assms hint_steps [OF assms] set_bits_same [of _ "vt s"]
  by (auto simp: good_step_def SetHintBits_def hint_masks_def header_bits hint_bit)

section \<open>Visibility to a snapshot\<close>

lemma xact_ok_zero: "xact_ok env \<Longrightarrow> gone env InvalidTransactionId"
  by (simp add: xact_ok_def)

lemma tuple_okD:
  assumes "tuple_ok env t"
  shows "\<not> has HEAP_MOVED_OFF t" "\<not> has HEAP_MOVED_IN t"
    and "HeapTupleHeaderXminCommitted t \<Longrightarrow> \<not> HeapTupleHeaderXminFrozen t \<Longrightarrow> ended_committed env (t_xmin t)"
    and "HeapTupleHeaderXminInvalid t \<Longrightarrow> gone env (t_xmin t)"
    and "has HEAP_XMAX_INVALID t \<Longrightarrow> gone env (updater env t)"
    and "has HEAP_XMAX_COMMITTED t \<Longrightarrow> \<not> has HEAP_XMAX_IS_MULTI t"
    and "has HEAP_XMAX_COMMITTED t \<Longrightarrow> ended_committed env (t_xmax t) \<and> \<not> HEAP_XMAX_IS_LOCKED_ONLY (t_infomask t)"
    and "TransactionIdIsCurrentTransactionId env (t_xmin t) \<Longrightarrow> \<not> HeapTupleHeaderXminFrozen t \<Longrightarrow>
      \<not> TransactionIdIsCurrentTransactionId env (updater env t) \<Longrightarrow> gone env (updater env t)"
  using assms by (simp_all add: tuple_ok_def)

lemma updater_cases:
  "HEAP_XMAX_IS_LOCKED_ONLY (t_infomask t) \<Longrightarrow> updater env t = InvalidTransactionId"
  "\<not> HEAP_XMAX_IS_LOCKED_ONLY (t_infomask t) \<Longrightarrow> has HEAP_XMAX_IS_MULTI t \<Longrightarrow> updater env t = HeapTupleGetUpdateXid env t"
  "\<not> HEAP_XMAX_IS_LOCKED_ONLY (t_infomask t) \<Longrightarrow> \<not> has HEAP_XMAX_IS_MULTI t \<Longrightarrow> updater env t = t_xmax t"
  by (simp_all add: updater_def)

lemma not_frozen: "\<not> HeapTupleHeaderXminCommitted t \<Longrightarrow> \<not> HeapTupleHeaderXminFrozen t"
  by (simp add: xmin_bits)

lemma gone_not_in_effect: "gone env x \<Longrightarrow> \<not> in_effect env snapshot x cid"
  by (simp add: gone_def in_effect_def)

lemma MVCC_own_correct:
  assumes env: "xact_ok env" and t: "tuple_ok env (vt s)" and own: "TransactionIdIsCurrentTransactionId env (t_xmin (vt s))"
    and nc: "\<not> HeapTupleHeaderXminCommitted (vt s)" and r: "MVCC_own env snapshot s = (r, s')"
  shows "r = mvcc_visible env snapshot (vt s) \<and> good_step env s s'"
proof -
  define u where "u = updater env (vt s)"
  have ins: "HeapTupleHeaderXminFrozen (vt s) \<or> in_effect env snapshot (t_xmin (vt s)) (HeapTupleHeaderGetCmin env (vt s)) \<longleftrightarrow>
      \<not> HeapTupleHeaderGetCmin env (vt s) \<ge> curcid snapshot"
    using own not_frozen [OF nc] by (simp add: in_effect_def not_le)
  have del: "\<not> TransactionIdIsCurrentTransactionId env u \<Longrightarrow> gone env u"
    using tuple_okD(8) [OF t own not_frozen [OF nc]] by (simp add: u_def)
  have vis: "mvcc_visible env snapshot (vt s) \<longleftrightarrow> \<not> HeapTupleHeaderGetCmin env (vt s) \<ge> curcid snapshot \<and>
      \<not> (TransactionIdIsCurrentTransactionId env u \<and> HeapTupleHeaderGetCmax env (vt s) < curcid snapshot)"
    using ins del gone_not_in_effect [of env u snapshot "HeapTupleHeaderGetCmax env (vt s)"]
    by (auto simp: mvcc_visible_def u_def [symmetric] in_effect_def)
  note upd = updater_cases [of "vt s" env, folded u_def]
  have inv: "has HEAP_XMAX_INVALID (vt s) \<Longrightarrow> \<not> TransactionIdIsCurrentTransactionId env u"
    using tuple_okD(5) [OF t] by (simp add: u_def gone_def)
  have zero: "\<not> TransactionIdIsCurrentTransactionId env 0"
    using xact_ok_zero [OF env] by (simp add: gone_def)
  have st: "\<not> TransactionIdIsCurrentTransactionId env u \<Longrightarrow> good_step env s (SetHintBits env HEAP_XMAX_INVALID 0 s)"
    using del good_steps(3) [OF t] by (simp add: u_def)
  show ?thesis
    using r good_step_refl [OF t] inv zero upd st unfolding vis
    by (auto simp: MVCC_own_def Let_def not_le split: if_splits)
qed

lemma MVCC_xmax_correct:
  assumes env: "xact_ok env" and snap: "snapshot_ok env snapshot" and t: "tuple_ok env (vt s)"
    and r: "MVCC_xmax env snapshot s = (r, s')"
  shows "r = (\<not> in_effect env snapshot (updater env (vt s)) (HeapTupleHeaderGetCmax env (vt s))) \<and> good_step env s s'"
proof -
  define u where "u = updater env (vt s)"
  note upd = updater_cases [of "vt s" env, folded u_def]
  have zero: "\<not> in_effect env snapshot 0 cid" for cid
    using gone_not_in_effect [OF xact_ok_zero [OF env]] .
  have inv: "has HEAP_XMAX_INVALID (vt s) \<Longrightarrow> \<not> in_effect env snapshot u cid" for cid
    using tuple_okD(5) [OF t] gone_not_in_effect by (simp add: u_def)
  have com: "has HEAP_XMAX_COMMITTED (vt s) \<Longrightarrow> \<not> TransactionIdIsCurrentTransactionId env (t_xmax (vt s)) \<and>
      TransactionIdDidCommit env (t_xmax (vt s)) \<and> \<not> has HEAP_XMAX_IS_MULTI (vt s)"
    using tuple_okD(6,7) [OF t] by (simp add: ended_committed_def)
  have over: "\<not> TransactionIdIsCurrentTransactionId env x \<Longrightarrow> \<not> XidInMVCCSnapshot snapshot x \<Longrightarrow> \<not> TransactionIdIsInProgress env x" for x
    using snap by (auto simp: snapshot_ok_def)
  have st1: "\<not> TransactionIdIsCurrentTransactionId env u \<Longrightarrow> \<not> XidInMVCCSnapshot snapshot u \<Longrightarrow>
      \<not> TransactionIdDidCommit env u \<Longrightarrow> good_step env s (SetHintBits env HEAP_XMAX_INVALID 0 s)"
    using over good_steps(3) [OF t] by (simp add: u_def gone_def)
  have st2: "\<not> has HEAP_XMAX_IS_MULTI (vt s) \<Longrightarrow> \<not> HEAP_XMAX_IS_LOCKED_ONLY (t_infomask (vt s)) \<Longrightarrow> \<not> TransactionIdIsCurrentTransactionId env (t_xmax (vt s)) \<Longrightarrow>
      \<not> XidInMVCCSnapshot snapshot (t_xmax (vt s)) \<Longrightarrow> TransactionIdDidCommit env (t_xmax (vt s)) \<Longrightarrow>
      good_step env s (SetHintBits env HEAP_XMAX_COMMITTED (t_xmax (vt s)) s)"
    using over good_steps(4) [OF t] by (simp add: ended_committed_def)
  show ?thesis
    using r good_step_refl [OF t] inv zero upd st1 st2 com unfolding u_def [symmetric]
    by (auto simp: MVCC_xmax_def Let_def in_effect_def not_le split: if_splits)
qed

lemma other_inserter_step:
  assumes t: "tuple_ok env (vt s)" and nc: "\<not> HeapTupleHeaderXminCommitted (vt s)" "\<not> HeapTupleHeaderXminInvalid (vt s)"
    and nr: "\<not> TransactionIdIsCurrentTransactionId env (t_xmin (vt s))" "\<not> TransactionIdIsInProgress env (t_xmin (vt s))"
    and r: "other_inserter env r0 s = (r, s')"
  shows "good_step env s s' \<and> r = (if TransactionIdDidCommit env (t_xmin (vt s)) then None else Some r0)"
  using r good_steps(1,2) [OF t] nc nr
  by (auto simp: other_inserter_def Let_def ended_committed_def gone_def split: if_splits)

lemma MVCC_xmin_correct:
  assumes env: "xact_ok env" and snap: "snapshot_ok env snapshot" and t: "tuple_ok env (vt s)"
    and r: "MVCC_xmin env snapshot s = (r, s')"
  shows "good_step env s s' \<and>
     (case r of Some v \<Rightarrow> v = mvcc_visible env snapshot (vt s)
      | None \<Rightarrow> HeapTupleHeaderXminFrozen (vt s) \<or>
          in_effect env snapshot (t_xmin (vt s)) (HeapTupleHeaderGetCmin env (vt s)))"
proof -
  note moved = tuple_okD(1,2) [OF t]
  have "HeapTupleHeaderXminFrozen (vt s) \<Longrightarrow> HeapTupleHeaderXminCommitted (vt s)" by (simp add: xmin_bits)
  consider "HeapTupleHeaderXminCommitted (vt s)" | "\<not> HeapTupleHeaderXminCommitted (vt s)" "HeapTupleHeaderXminInvalid (vt s)"
    | (own) "\<not> HeapTupleHeaderXminCommitted (vt s)" "\<not> HeapTupleHeaderXminInvalid (vt s)"
        "TransactionIdIsCurrentTransactionId env (t_xmin (vt s))"
    | (snap) "\<not> HeapTupleHeaderXminCommitted (vt s)" "\<not> HeapTupleHeaderXminInvalid (vt s)"
        "\<not> TransactionIdIsCurrentTransactionId env (t_xmin (vt s))" "XidInMVCCSnapshot snapshot (t_xmin (vt s))"
    | (over) "\<not> HeapTupleHeaderXminCommitted (vt s)" "\<not> HeapTupleHeaderXminInvalid (vt s)"
        "\<not> TransactionIdIsCurrentTransactionId env (t_xmin (vt s))" "\<not> XidInMVCCSnapshot snapshot (t_xmin (vt s))"
    by blast
  then show ?thesis
  proof cases
    case 1
    with r good_step_refl [OF t] tuple_okD(3) [OF t 1] show ?thesis
      by (auto simp: MVCC_xmin_def Let_def mvcc_visible_def in_effect_def ended_committed_def split: if_splits)
  next
    case 2
    with r good_step_refl [OF t] tuple_okD(4) [OF t] not_frozen show ?thesis
      by (auto simp: MVCC_xmin_def Let_def mvcc_visible_def in_effect_def gone_def split: if_splits)
  next
    case own
    obtain v u where o: "MVCC_own env snapshot s = (v, u)" by fastforce
    with own r moved have "r = Some v" "s' = u"
      by (auto simp: MVCC_xmin_def Let_def vis_return_def)
    with MVCC_own_correct [OF env t own(3,1) o] show ?thesis by simp
  next
    case snap
    with r moved good_step_refl [OF t] not_frozen show ?thesis
      by (auto simp: MVCC_xmin_def Let_def mvcc_visible_def in_effect_def)
  next
    case over
    have "other_inserter env False s = (r, s')"
      using r over moved by (simp add: MVCC_xmin_def Let_def)
    moreover have "\<not> TransactionIdIsInProgress env (t_xmin (vt s))"
      using snap over(3,4) by (auto simp: snapshot_ok_def)
    ultimately have step: "good_step env s s' \<and> r = (if TransactionIdDidCommit env (t_xmin (vt s)) then None else Some False)"
      by (intro other_inserter_step [OF t over(1,2,3)])
    from step over not_frozen show ?thesis
      by (auto simp: mvcc_visible_def in_effect_def)
  qed
qed

lemma good_step_sel:
  assumes "xact_ok env" and "good_step env s s'"
  shows "mvcc_visible env snapshot (vt s') = mvcc_visible env snapshot (vt s)"
    "updater env (vt s') = updater env (vt s)" "t_xmin (vt s') = t_xmin (vt s)" "t_xmax (vt s') = t_xmax (vt s)"
    "HeapTupleHeaderGetCmin env (vt s') = HeapTupleHeaderGetCmin env (vt s)"
    "HeapTupleHeaderGetCmax env (vt s') = HeapTupleHeaderGetCmax env (vt s)" "tuple_ok env (vt s')"
proof -
  have g: "same_but_hints (vt s) (vt s')" "HeapTupleHeaderXminFrozen (vt s') = HeapTupleHeaderXminFrozen (vt s)"
    using assms(2) by (simp_all add: good_step_def)
  show "updater env (vt s') = updater env (vt s)" "t_xmin (vt s') = t_xmin (vt s)" "t_xmax (vt s') = t_xmax (vt s)"
    using same_but_hintsD [OF g(1)] by simp_all
  moreover show "HeapTupleHeaderGetCmin env (vt s') = HeapTupleHeaderGetCmin env (vt s)"
      "HeapTupleHeaderGetCmax env (vt s') = HeapTupleHeaderGetCmax env (vt s)"
    using assms(1) g(1) unfolding xact_ok_def by metis+
  ultimately show "mvcc_visible env snapshot (vt s') = mvcc_visible env snapshot (vt s)"
    by (simp add: mvcc_visible_def g(2))
  show "tuple_ok env (vt s')" using assms(2) by (simp add: good_step_def)
qed

lemma MVCC_visible:
  assumes "xact_ok env" and "snapshot_ok env snapshot" and "tuple_ok env (vt s)"
    and "HeapTupleSatisfiesMVCC env snapshot s = (r, s')"
  shows "r = mvcc_visible env snapshot (vt s) \<and> good_step env s s'"
proof -
  obtain p u where x: "MVCC_xmin env snapshot s = (p, u)" by fastforce
  note xmin = MVCC_xmin_correct [OF assms(1-3) x]
  show ?thesis
  proof (cases p)
    case (Some v)
    with assms(4) x xmin show ?thesis by (simp add: HeapTupleSatisfiesMVCC_def vis_then_def)
  next
    case None
    then have g: "good_step env s u" and go: "MVCC_xmax env snapshot u = (r, s')"
      using assms(4) x xmin by (simp_all add: HeapTupleSatisfiesMVCC_def vis_then_def)
    note sel = good_step_sel [OF assms(1) g]
    from MVCC_xmax_correct [OF assms(1,2) sel(7) go] xmin None sel good_step_trans [OF g]
    show ?thesis by (auto simp: mvcc_visible_def)
  qed
qed

text \<open>
  (C6) The MVCC check answers exactly whether the inserter's effects are in the snapshot and the
  updater's are not, whatever hint bits are already set; it sets only hint bits that are
  right, so every later check of the tuple with the same snapshot gives the same answer.
\<close>

theorem HeapTupleSatisfiesMVCC_correct:
  assumes "xact_ok env" and "snapshot_ok env snapshot" and "tuple_ok env (vt s)"
    and "HeapTupleSatisfiesMVCC env snapshot s = (r, s')"
  shows "r = mvcc_visible env snapshot (vt s) \<and> good_step env s s' \<and>
     mvcc_visible env snapshot (vt s') = mvcc_visible env snapshot (vt s)"
  using MVCC_visible [OF assms] good_step_sel(1) [OF assms(1)] by blast

section \<open>Vacuum\<close>

lemma Vacuum_xmin_dead:
  assumes env: "xact_ok env" and t: "tuple_ok env (vt s)" and r: "Vacuum_xmin env s = (Some (HEAPTUPLE_DEAD, x), s')"
  shows "gone env (t_xmin (vt s)) \<and> \<not> HeapTupleHeaderXminFrozen (vt s)"
  using r tuple_okD(1,2,4) [OF t] not_frozen [of "vt s"]
  by (auto simp: Vacuum_xmin_def Let_def other_inserter_def gone_def split: if_splits)

lemma Vacuum_xmin_recently:
  "Vacuum_xmin env s \<noteq> (Some (HEAPTUPLE_RECENTLY_DEAD, x), s')"
  by (auto simp: Vacuum_xmin_def Let_def other_inserter_def moved_off_def moved_in_def)

lemma Vacuum_xmin_step:
  assumes t: "tuple_ok env (vt s)" and r: "Vacuum_xmin env s = (r, s')"
  shows "good_step env s s'"
proof (cases "HeapTupleHeaderXminCommitted (vt s) \<or> HeapTupleHeaderXminInvalid (vt s) \<or>
    TransactionIdIsCurrentTransactionId env (t_xmin (vt s)) \<or> TransactionIdIsInProgress env (t_xmin (vt s))")
  case True
  with r tuple_okD(1,2) [OF t] good_step_refl [OF t] show ?thesis
    by (auto simp: Vacuum_xmin_def Let_def split: if_splits)
next
  case False
  with r tuple_okD(1,2) [OF t] have "other_inserter env (HEAPTUPLE_DEAD, InvalidTransactionId) s = (r, s')"
    by (simp add: Vacuum_xmin_def Let_def)
  from False other_inserter_step [OF t _ _ _ _ this] show ?thesis by simp
qed

lemma Vacuum_xmax_dead:
  assumes env: "xact_ok env" and t: "tuple_ok env (vt s)" and r: "Vacuum_xmax env s = ((HEAPTUPLE_RECENTLY_DEAD, x), s')"
  shows "x = updater env (vt s) \<and> ended_committed env x"
proof -
  have cur: "TransactionIdIsCurrentTransactionId env y \<Longrightarrow> TransactionIdIsInProgress env y" for y
    using env by (simp add: xact_ok_def)
  show ?thesis
    using r tuple_okD(7) [OF t] updater_cases [of "vt s" env] cur
    by (auto simp: Vacuum_xmax_def Let_def ended_committed_def split: if_splits)
qed

lemma Vacuum_xmax_never_dead: "Vacuum_xmax env s \<noteq> ((HEAPTUPLE_DEAD, x), s')"
  by (auto simp: Vacuum_xmax_def Let_def)

text \<open>What the horizon promises about a snapshot: committed transactions before it are finished for it.\<close>

definition horizon_ok :: "xact_env \<Rightarrow> Snapshot \<Rightarrow> (uint32 \<Rightarrow> bool) \<Rightarrow> bool" where
  "horizon_ok env snapshot removable \<longleftrightarrow>
     (\<forall>x. removable x \<longrightarrow> \<not> XidInMVCCSnapshot snapshot x)"

lemma horizon_dead_invisible:
  assumes env: "xact_ok env" and t: "tuple_ok env (vt s)" and h: "horizon_ok env snapshot removable"
    and r: "HeapTupleSatisfiesVacuumHorizon env s = ((res, x), s')"
    and dead: "res = HEAPTUPLE_DEAD \<or> (res = HEAPTUPLE_RECENTLY_DEAD \<and> removable x)"
  shows "\<not> mvcc_visible env snapshot (vt s)"
proof -
  obtain p u where x: "Vacuum_xmin env s = (p, u)" by fastforce
  show ?thesis
  proof (cases p)
    case (Some q)
    with r x have q: "q = (res, x)" by (simp add: HeapTupleSatisfiesVacuumHorizon_def vis_then_def)
    with dead x Some Vacuum_xmin_recently have "res = HEAPTUPLE_DEAD" by fastforce
    with x Some q Vacuum_xmin_dead [OF env t] gone_not_in_effect show ?thesis
      by (auto simp: mvcc_visible_def)
  next
    case None
    with r x have r': "Vacuum_xmax env u = ((res, x), s')"
      by (simp add: HeapTupleSatisfiesVacuumHorizon_def vis_then_def)
    note g = Vacuum_xmin_step [OF t x]
    note sel = good_step_sel [OF env g]
    have "res = HEAPTUPLE_RECENTLY_DEAD" "removable x"
      using dead r' Vacuum_xmax_never_dead [of env u] by auto
    with Vacuum_xmax_dead [OF env sel(7)] r' have "x = updater env (vt u)" "ended_committed env x" by auto
    with h \<open>removable x\<close> sel(2) show ?thesis
      by (simp add: horizon_ok_def ended_committed_def mvcc_visible_def in_effect_def)
  qed
qed

text \<open>
  (C7) Vacuum never removes what a snapshot can see: a tuple that an MVCC check of a snapshot
  accepts is not found dead, by the check against the oldest transaction id or by the
  snapshot-style check, when the horizon only lets transactions be removed that are finished
  for the snapshot. The vacuum may run after any number of checks that set hint bits.
\<close>

theorem vacuum_keeps_visible_tuples:
  assumes "xact_ok env" and "snapshot_ok env snapshot" and "tuple_ok env (vt s)"
    and "horizon_ok env snapshot (\<lambda>x. TransactionIdPrecedes env x OldestXmin)"
    and "horizon_ok env snapshot (vistest vsnapshot)"
    and "HeapTupleSatisfiesMVCC env snapshot s = (True, s')" and "good_step env s u"
  shows "fst (HeapTupleSatisfiesVacuum env OldestXmin u) \<noteq> HEAPTUPLE_DEAD \<and>
     fst (HeapTupleSatisfiesNonVacuumable env vsnapshot u)"
proof -
  have vis: "mvcc_visible env snapshot (vt u)"
    using MVCC_visible [OF assms(1-3,6)] good_step_sel(1) [OF assms(1,7)] by simp
  obtain res x v where h: "HeapTupleSatisfiesVacuumHorizon env u = ((res, x), v)" by (metis surj_pair)
  note inv = horizon_dead_invisible [OF assms(1) good_step_sel(7) [OF assms(1,7)] _ h]
  from inv [OF assms(4)] inv [OF assms(5)] vis show ?thesis
    by (auto simp: HeapTupleSatisfiesVacuum_def HeapTupleSatisfiesNonVacuumable_def h)
qed

text \<open>
  The cheap test agrees with the full one: a tuple that it finds surely dead is dead for
  vacuum and not worth keeping, and no hint bit is set on the way.
\<close>

lemma surely_dead_is_dead:
  assumes "HeapTupleIsSurelyDead (vt s) (vistest snapshot)"
    and "\<And>x. vistest snapshot x \<Longrightarrow> TransactionIdPrecedes env x OldestXmin"
  shows "HeapTupleSatisfiesVacuum env OldestXmin s = (HEAPTUPLE_DEAD, s) \<and>
     HeapTupleSatisfiesNonVacuumable env snapshot s = (False, s)"
  using assms
  by (auto simp: HeapTupleIsSurelyDead_def HeapTupleSatisfiesVacuum_def HeapTupleSatisfiesNonVacuumable_def
      HeapTupleSatisfiesVacuumHorizon_def vis_then_def Vacuum_xmin_def Vacuum_xmax_def Let_def split: if_splits)

section \<open>The other checks\<close>

lemma moved_with_out:
  "moved_off env running (False, no_out) s = (case moved_off env running False s of (p, u) \<Rightarrow> (map_option (\<lambda>b. (b, no_out)) p, u))"
  "moved_in env running (False, no_out) s = (case moved_in env running False s of (p, u) \<Rightarrow> (map_option (\<lambda>b. (b, no_out)) p, u))"
  "other_inserter env (False, no_out) s = (case other_inserter env False s of (p, u) \<Rightarrow> (map_option (\<lambda>b. (b, no_out)) p, u))"
  by (simp_all add: moved_off_def moved_in_def other_inserter_def Let_def)

lemma Dirty_xmin_Self:
  assumes "xact_ok env"
  shows "Dirty_xmin env s =
    (if \<not> HeapTupleHeaderXminCommitted (vt s) \<and> \<not> HeapTupleHeaderXminInvalid (vt s) \<and> \<not> has HEAP_MOVED_OFF (vt s) \<and>
        \<not> has HEAP_MOVED_IN (vt s) \<and> \<not> TransactionIdIsCurrentTransactionId env (t_xmin (vt s)) \<and>
        TransactionIdIsInProgress env (t_xmin (vt s))
     then (Some (True, t_xmin (vt s), 0, if HeapTupleHeaderIsSpeculative (vt s) then HeapTupleHeaderGetSpeculativeToken (vt s) else 0), s)
     else (case Self_xmin env s of (p, u) \<Rightarrow> (map_option (\<lambda>b. (b, no_out)) p, u)))"
  by (simp add: Dirty_xmin_def Self_xmin_def Let_def moved_with_out vis_return_def split: prod.split)

lemma Dirty_xmax_Self:
  assumes "xact_ok env"
  shows "\<exists>y. Dirty_xmax env s = ((fst (Self_xmax env s), 0, y, 0), snd (Self_xmax env s)) \<and>
     (y \<noteq> 0 \<longrightarrow> fst (Self_xmax env s) \<and> y = updater env (vt s) \<and> TransactionIdIsInProgress env y \<and>
        \<not> TransactionIdIsCurrentTransactionId env y)"
proof -
  have "\<not> TransactionIdIsInProgress env 0" using assms by (simp add: xact_ok_def gone_def)
  then show ?thesis
    by (auto simp: Dirty_xmax_def Self_xmax_def Let_def no_out_def updater_cases)
qed

text \<open>
  (C25) The dirty check is the check for the current moment plus the open transactions: where
  it reports no inserter in progress it gives the same answer and sets the same hint bits;
  where it reports one, the tuple is invisible at the moment and the inserter is another
  running transaction. A deleter it reports is the running updater of a visible tuple.
\<close>

theorem HeapTupleSatisfiesDirty_extends_Self:
  assumes "xact_ok env" and "HeapTupleSatisfiesDirty env s = ((r, x, y, tok), s')"
  shows "(x = 0 \<longrightarrow> HeapTupleSatisfiesSelf env s = (r, s')) \<and>
     (x \<noteq> 0 \<longrightarrow> HeapTupleSatisfiesSelf env s = (False, s') \<and> r \<and> s' = s \<and> x = t_xmin (vt s) \<and>
        TransactionIdIsInProgress env x \<and> \<not> TransactionIdIsCurrentTransactionId env x) \<and>
     (y \<noteq> 0 \<longrightarrow> r \<and> TransactionIdIsInProgress env y \<and> \<not> TransactionIdIsCurrentTransactionId env y)"
proof (cases "\<not> HeapTupleHeaderXminCommitted (vt s) \<and> \<not> HeapTupleHeaderXminInvalid (vt s) \<and> \<not> has HEAP_MOVED_OFF (vt s) \<and>
        \<not> has HEAP_MOVED_IN (vt s) \<and> \<not> TransactionIdIsCurrentTransactionId env (t_xmin (vt s)) \<and>
        TransactionIdIsInProgress env (t_xmin (vt s))")
  case True
  moreover have "t_xmin (vt s) \<noteq> 0"
    using True assms(1) by (auto simp: xact_ok_def gone_def)
  ultimately show ?thesis
    using assms(2) by (auto simp: HeapTupleSatisfiesDirty_def Dirty_xmin_Self [OF assms(1)] vis_then_def
        HeapTupleSatisfiesSelf_def Self_xmin_def Let_def)
next
  case False
  obtain p u where x: "Self_xmin env s = (p, u)" by fastforce
  have d: "Dirty_xmin env s = (map_option (\<lambda>b. (b, no_out)) p, u)"
    unfolding Dirty_xmin_Self [OF assms(1)] if_not_P [OF False] x by simp
  show ?thesis
  proof (cases p)
    case (Some b)
    with d x assms(2) show ?thesis
      by (auto simp: HeapTupleSatisfiesDirty_def vis_then_def HeapTupleSatisfiesSelf_def no_out_def)
  next
    case None
    with d x assms(2) have "Dirty_xmax env u = ((r, x, y, tok), s')"
      by (simp add: HeapTupleSatisfiesDirty_def vis_then_def)
    with Dirty_xmax_Self [OF assms(1), of u] have "Self_xmax env u = (r, s')" "x = 0"
        "y \<noteq> 0 \<longrightarrow> r \<and> TransactionIdIsInProgress env y \<and> \<not> TransactionIdIsCurrentTransactionId env y"
      by (auto simp: prod_eq_iff)
    with None x show ?thesis by (simp add: HeapTupleSatisfiesSelf_def vis_then_def)
  qed
qed

text \<open>The server's promise about multixacts: one that is not running has no member in progress.\<close>

definition multi_ok :: "xact_env \<Rightarrow> bool" where
  "multi_ok env \<longleftrightarrow> (\<forall>m. \<not> MultiXactIdIsRunning env m False \<longrightarrow>
     (\<forall>x\<in>mxid ` set (GetMultiXactIdMembers env m). \<not> TransactionIdIsInProgress env x))"

lemma update_xid_not_running:
  assumes "xact_ok env" "multi_ok env" "\<not> MultiXactIdIsRunning env (t_xmax t) False"
  shows "\<not> TransactionIdIsInProgress env (HeapTupleGetUpdateXid env t)"
proof (cases "filter (\<lambda>m. ISUPDATE_from_mxstatus (mxstatus m)) (GetMultiXactIdMembers env (t_xmax t))")
  case Nil
  with assms(1) show ?thesis
    by (simp add: HeapTupleGetUpdateXid_def MultiXactIdGetUpdateXid_def xact_ok_def gone_def)
next
  case (Cons m ms)
  then have "m \<in> set (GetMultiXactIdMembers env (t_xmax t))"
    by (metis filter_is_subset list.set_intros(1) subsetD)
  with assms(2,3) Cons show ?thesis
    by (auto simp: HeapTupleGetUpdateXid_def MultiXactIdGetUpdateXid_def multi_ok_def)
qed

text \<open>How the result for an update relates to the visibility of the tuple at the moment.\<close>

definition update_agrees :: "TM_Result \<Rightarrow> bool \<Rightarrow> bool" where
  "update_agrees res v \<longleftrightarrow>
     (res = TM_Ok \<longrightarrow> v) \<and> (res \<in> {TM_Updated, TM_Deleted, TM_SelfModified} \<longrightarrow> \<not> v)"

lemma Update_own_Self: "update_agrees (fst (Update_own env cid s)) (fst (Self_own env s))"
  by (simp add: Update_own_def Self_own_def Let_def update_agrees_def self_modified_def)

lemma LOCKED_UPGRADED_locked: "HEAP_LOCKED_UPGRADED m \<Longrightarrow> HEAP_XMAX_IS_LOCKED_ONLY m"
  by (simp add: HEAP_LOCKED_UPGRADED_def HEAP_XMAX_IS_LOCKED_ONLY_def)

lemma Update_xmax_Self:
  assumes "xact_ok env" and "multi_ok env"
  shows "update_agrees (fst (Update_xmax env t_self cid s)) (fst (Self_xmax env s))"
proof -
  have cur: "TransactionIdIsCurrentTransactionId env y \<Longrightarrow> TransactionIdIsInProgress env y" for y
    using assms(1) by (simp add: xact_ok_def)
  note u = update_xid_not_running [OF assms, of "vt s"]
  have m: "has HEAP_XMAX_IS_MULTI (vt s) \<Longrightarrow> \<not> has HEAP_XMAX_INVALID (vt s) \<Longrightarrow> \<not> has HEAP_XMAX_COMMITTED (vt s) \<Longrightarrow> ?thesis"
    using u LOCKED_UPGRADED_locked [of "t_infomask (vt s)"]
    by (auto simp: Update_xmax_def Self_xmax_def Update_multi_def Let_def update_agrees_def self_modified_def updated_or_deleted_def)
  have n: "\<not> has HEAP_XMAX_IS_MULTI (vt s) \<or> has HEAP_XMAX_INVALID (vt s) \<or> has HEAP_XMAX_COMMITTED (vt s) \<Longrightarrow> ?thesis"
    by (auto simp: Update_xmax_def Self_xmax_def Let_def update_agrees_def self_modified_def updated_or_deleted_def)
  show ?thesis using m n by blast
qed

lemma moved_result:
  "moved_off env running a s = (case moved_off env running b s of (p, u) \<Rightarrow> (map_option (\<lambda>_. a) p, u))"
  "moved_in env running a s = (case moved_in env running b s of (p, u) \<Rightarrow> (map_option (\<lambda>_. a) p, u))"
  "other_inserter env a s = (case other_inserter env b s of (p, u) \<Rightarrow> (map_option (\<lambda>_. a) p, u))"
  by (simp_all add: moved_off_def moved_in_def other_inserter_def Let_def)

lemma Update_xmin_Self:
  assumes "Update_xmin env cid s = (p, u)"
  shows "(case p of Some r \<Rightarrow> (\<exists>v u'. Self_xmin env s = (Some v, u') \<and> update_agrees r v) | None \<Rightarrow> Self_xmin env s = (None, u))"
proof (cases "\<not> HeapTupleHeaderXminCommitted (vt s) \<and> \<not> HeapTupleHeaderXminInvalid (vt s) \<and> \<not> has HEAP_MOVED_OFF (vt s) \<and>
        \<not> has HEAP_MOVED_IN (vt s) \<and> TransactionIdIsCurrentTransactionId env (t_xmin (vt s))")
  case True
  then show ?thesis
    using assms Update_own_Self [of env cid s]
    by (auto simp: Update_xmin_def Self_xmin_def Let_def vis_return_def split: prod.splits)
next
  case False
  have o: "update_agrees TM_Invisible v" for v by (simp add: update_agrees_def)
  have i: "moved_off env running False s = (Some b, w) \<Longrightarrow> \<not> b" "moved_in env running False s = (Some b, w) \<Longrightarrow> \<not> b"
    "other_inserter env False s = (Some b, w) \<Longrightarrow> \<not> b" for running b w
    by (auto simp: moved_off_def moved_in_def other_inserter_def Let_def split: if_splits)
  from False show ?thesis
    using assms o
    by (auto simp: Update_xmin_def Self_xmin_def Let_def moved_result [where a = TM_Invisible and b = False]
        split: if_splits prod.splits option.splits)
qed

text \<open>
  (C24) The check before an update agrees with the visibility of the tuple at the moment: an
  update may go ahead only on a tuple that is visible, and a tuple reported as updated,
  deleted or modified by the own transaction is not visible.
\<close>

theorem HeapTupleSatisfiesUpdate_agrees_with_Self:
  assumes "xact_ok env" and "multi_ok env"
  shows "update_agrees (fst (HeapTupleSatisfiesUpdate env t_self cid s)) (fst (HeapTupleSatisfiesSelf env s))"
proof -
  obtain p u where x: "Update_xmin env cid s = (p, u)" by fastforce
  from Update_xmin_Self [OF x] show ?thesis
  proof (cases p)
    case None
    with Update_xmin_Self [OF x] Update_xmax_Self [OF assms, of t_self cid u] x show ?thesis
      by (simp add: HeapTupleSatisfiesUpdate_def HeapTupleSatisfiesSelf_def vis_then_def)
  next
    case (Some r)
    with Update_xmin_Self [OF x] x show ?thesis
      by (auto simp: HeapTupleSatisfiesUpdate_def HeapTupleSatisfiesSelf_def vis_then_def)
  qed
qed

lemma Self_visible_then_Toast:
  assumes "xact_ok env" and "fst (HeapTupleSatisfiesSelf env s)"
  shows "fst (HeapTupleSatisfiesToast env s)"
proof -
  have z: "\<not> TransactionIdIsCurrentTransactionId env 0" "\<not> TransactionIdDidCommit env 0"
    using assms(1) by (simp_all add: xact_ok_def gone_def)
  have x: "\<not> HeapTupleHeaderXminCommitted (vt s) \<Longrightarrow> HeapTupleHeaderGetXmin (vt s) = t_xmin (vt s)"
    by (simp add: HeapTupleHeaderGetXmin_def not_frozen)
  show ?thesis
    using assms(2) z x
    by (auto simp: HeapTupleSatisfiesSelf_def HeapTupleSatisfiesToast_def vis_then_def Self_xmin_def Let_def
        vis_return_def other_inserter_def moved_off_def moved_in_def split: if_splits prod.splits option.splits)
qed

section \<open>Concrete transactions\<close>

text \<open>Transaction 100 is the current one, 10 and 20 committed, 30 is in progress, 40 aborted.\<close>

definition demo_xact :: xact_env where
  "demo_xact = \<lparr>TransactionIdIsCurrentTransactionId = (\<lambda>x. x = 100), TransactionIdIsInProgress = (\<lambda>x. x = 100 \<or> x = 30),
     TransactionIdDidCommit = (\<lambda>x. x = 10 \<or> x = 20), TransactionIdDidAbort = (\<lambda>x. x = 40),
     TransactionIdPrecedes = (<), TransactionIdFollowsOrEquals = (\<ge>),
     TransactionIdGetCommitLSN = of_nat \<circ> unat, XLogNeedsFlush = (\<lambda>l. False), BufferIsPermanent = True, BufferGetLSNAtomic = 0,
     GetMultiXactIdMembers = (\<lambda>m. if m = 5 then [\<lparr>mxid = 30, mxstatus = MultiXactStatusUpdate\<rparr>] else []),
     MultiXactIdIsRunning = (\<lambda>m b. m = 5), HeapTupleHeaderGetCmin = t_field3, HeapTupleHeaderGetCmax = t_field3\<rparr>"

definition demo_snapshot :: Snapshot where
  "demo_snapshot = \<lparr>snapshot_type = SNAPSHOT_MVCC, snap_xmin = 15, snap_xmax = 35, xip = [30], xcnt = 1, subxip = [], subxcnt = 0,
     curcid = 3, speculativeToken = 0, vistest = (\<lambda>x. x < 15), XidInMVCCSnapshot = (\<lambda>x. x \<ge> 15), ResolveCminCmax = (\<lambda>t. None)\<rparr>"

definition demo_header :: "uint32 \<Rightarrow> uint32 \<Rightarrow> uint16 \<Rightarrow> HeapTupleHeader" where
  "demo_header xmin xmax m = \<lparr>t_xmin = xmin, t_xmax = xmax, t_field3 = 0, t_ctid = (0, 1), t_infomask2 = 0, t_infomask = m\<rparr>"

definition demo_vis :: "uint32 \<Rightarrow> uint32 \<Rightarrow> uint16 \<Rightarrow> vis_state" where
  "demo_vis xmin xmax m = \<lparr>vt = demo_header xmin xmax m, hint_dirty = False\<rparr>"

lemma demo_xact_ok: "xact_ok demo_xact"
proof -
  have "same_but_hints t u \<Longrightarrow> t_field3 t = t_field3 u" for t u
    using same_but_hintsD(3) by auto
  then show ?thesis by (auto simp: xact_ok_def gone_def demo_xact_def)
qed

lemma demo_multi_ok: "multi_ok demo_xact"
  by (auto simp: multi_ok_def demo_xact_def)

lemma demo_snapshot_ok: "snapshot_ok demo_xact demo_snapshot"
  by (auto simp: snapshot_ok_def demo_xact_def demo_snapshot_def)

lemma demo_horizon_ok:
  "horizon_ok demo_xact demo_snapshot (\<lambda>x. TransactionIdPrecedes demo_xact x 15)"
  "horizon_ok demo_xact demo_snapshot (vistest demo_snapshot)"
  by (auto simp: horizon_ok_def demo_xact_def demo_snapshot_def)

lemma demo_tuple_ok: "tuple_ok demo_xact (vt (demo_vis 10 30 0))"
  by (simp add: tuple_ok_def demo_vis_def demo_header_def demo_xact_def updater_def has_def xmin_bits
      ended_committed_def gone_def HEAP_XMAX_IS_LOCKED_ONLY_def)

lemma demo_MVCC:
  "HeapTupleSatisfiesMVCC demo_xact demo_snapshot (demo_vis 10 30 0) =
     (True, \<lparr>vt = demo_header 10 30 0x0100, hint_dirty = True\<rparr>)"
  by (simp add: HeapTupleSatisfiesMVCC_def vis_then_def MVCC_xmin_def MVCC_xmax_def other_inserter_def Let_def demo_vis_def
      demo_header_def demo_xact_def demo_snapshot_def has_def HeapTupleHeaderXminCommitted_def HeapTupleHeaderXminInvalid_def
      HEAP_XMAX_IS_LOCKED_ONLY_def SetHintBits_def set_bits_def)

theorem HeapTupleSatisfiesMVCC_correct_witness:
  "HeapTupleSatisfiesMVCC demo_xact demo_snapshot (demo_vis 10 30 0) =
     (True, \<lparr>vt = demo_header 10 30 0x0100, hint_dirty = True\<rparr>) \<and>
   mvcc_visible demo_xact demo_snapshot (demo_header 10 30 0x0100)"
  using demo_MVCC HeapTupleSatisfiesMVCC_correct [OF demo_xact_ok demo_snapshot_ok demo_tuple_ok demo_MVCC] by simp

theorem vacuum_keeps_visible_tuples_witness:
  "fst (HeapTupleSatisfiesVacuum demo_xact 15 (demo_vis 10 30 0)) \<noteq> HEAPTUPLE_DEAD"
  using vacuum_keeps_visible_tuples [OF demo_xact_ok demo_snapshot_ok demo_tuple_ok demo_horizon_ok demo_MVCC
      good_step_refl [OF demo_tuple_ok]] by blast

lemma surely_dead_is_dead_witness:
  "HeapTupleSatisfiesVacuum demo_xact 15 (demo_vis 10 12 0x0500) = (HEAPTUPLE_DEAD, demo_vis 10 12 0x0500)"
proof -
  have d: "HeapTupleIsSurelyDead (vt (demo_vis 10 12 0x0500)) (vistest demo_snapshot)"
    by (simp add: HeapTupleIsSurelyDead_def demo_vis_def demo_header_def demo_snapshot_def has_def
        HeapTupleHeaderXminCommitted_def HEAP_XMAX_IS_LOCKED_ONLY_def)
  have p: "\<And>x. vistest demo_snapshot x \<Longrightarrow> TransactionIdPrecedes demo_xact x 15"
    by (simp add: demo_snapshot_def demo_xact_def)
  from surely_dead_is_dead [where snapshot = demo_snapshot and env = demo_xact, OF d p] show ?thesis by blast
qed

lemma demo_Dirty:
  "HeapTupleSatisfiesDirty demo_xact (demo_vis 30 0 0x0800) = ((True, 30, 0, 0), demo_vis 30 0 0x0800)"
  by (simp add: HeapTupleSatisfiesDirty_def vis_then_def Dirty_xmin_def Let_def demo_vis_def demo_header_def demo_xact_def
      has_def HeapTupleHeaderXminCommitted_def HeapTupleHeaderXminInvalid_def HeapTupleHeaderIsSpeculative_def)

theorem HeapTupleSatisfiesDirty_extends_Self_witness:
  "HeapTupleSatisfiesDirty demo_xact (demo_vis 30 0 0x0800) = ((True, 30, 0, 0), demo_vis 30 0 0x0800) \<and>
   HeapTupleSatisfiesSelf demo_xact (demo_vis 30 0 0x0800) = (False, demo_vis 30 0 0x0800)"
  using demo_Dirty HeapTupleSatisfiesDirty_extends_Self [OF demo_xact_ok demo_Dirty] by simp

theorem HeapTupleSatisfiesUpdate_agrees_with_Self_witness:
  "update_agrees (fst (HeapTupleSatisfiesUpdate demo_xact (0, 1) 3 (demo_vis 10 20 0))) (fst (HeapTupleSatisfiesSelf demo_xact (demo_vis 10 20 0))) \<and>
   fst (HeapTupleSatisfiesUpdate demo_xact (0, 1) 3 (demo_vis 10 20 0)) = TM_Deleted"
proof -
  have "fst (HeapTupleSatisfiesUpdate demo_xact (0, 1) 3 (demo_vis 10 20 0)) = TM_Deleted"
    by (simp add: HeapTupleSatisfiesUpdate_def vis_then_def Update_xmin_def Update_xmax_def other_inserter_def Let_def demo_vis_def
      demo_header_def demo_xact_def has_def HeapTupleHeaderXminCommitted_def HeapTupleHeaderXminInvalid_def
      HEAP_XMAX_IS_LOCKED_ONLY_def SetHintBits_def set_bits_def updated_or_deleted_def)
  with HeapTupleSatisfiesUpdate_agrees_with_Self [OF demo_xact_ok demo_multi_ok] show ?thesis by blast
qed

end
