(* ===== verification/TupleLock.thy ===== *)
theory TupleLock
  imports Visibility
begin

text \<open>
  The row locks kept in tuple headers, from \<^verbatim>\<open>src/access/pg_tdeam.c\<close>: the lock tables, the
  computation of the new \<^verbatim>\<open>xmax\<close> when a transaction locks or updates a tuple, the test for
  conflicts with the members of a multixact, and the lock bits in WAL records. As in
  \<open>Visibility\<close>, the routines are those of a build without assertions, and multixacts are kept
  by the server: creating one is a parameter that gives the server's new state.
\<close>

section \<open>Lock modes\<close>

datatype LOCKMODE = AccessShareLock | RowShareLock | ExclusiveLock | AccessExclusiveLock

text \<open>The strength of tuple locks is their order in the enumeration.\<close>

fun mode_rank :: "LockTupleMode \<Rightarrow> nat" where
  "mode_rank LockTupleKeyShare = 0"
| "mode_rank LockTupleShare = 1"
| "mode_rank LockTupleNoKeyExclusive = 2"
| "mode_rank LockTupleExclusive = 3"

lemma mode_rank_inject: "mode_rank a = mode_rank b \<longleftrightarrow> a = b"
  by (cases a; cases b) simp_all

instantiation LockTupleMode :: linorder
begin

definition less_eq_LockTupleMode :: "LockTupleMode \<Rightarrow> LockTupleMode \<Rightarrow> bool" where
  "less_eq_LockTupleMode a b \<longleftrightarrow> mode_rank a \<le> mode_rank b"

definition less_LockTupleMode :: "LockTupleMode \<Rightarrow> LockTupleMode \<Rightarrow> bool" where
  "less_LockTupleMode a b \<longleftrightarrow> mode_rank a < mode_rank b"

instance
  by intro_classes (auto simp: less_eq_LockTupleMode_def less_LockTupleMode_def mode_rank_inject)

end

text \<open>For each mode its heavyweight lock, and its status as a locker and as an updater.\<close>

fun tupleLockExtraInfo :: "LockTupleMode \<Rightarrow> LOCKMODE \<times> MultiXactStatus \<times> MultiXactStatus option" where
  "tupleLockExtraInfo LockTupleKeyShare = (AccessShareLock, MultiXactStatusForKeyShare, None)"
| "tupleLockExtraInfo LockTupleShare = (RowShareLock, MultiXactStatusForShare, None)"
| "tupleLockExtraInfo LockTupleNoKeyExclusive =
     (ExclusiveLock, MultiXactStatusForNoKeyUpdate, Some MultiXactStatusNoKeyUpdate)"
| "tupleLockExtraInfo LockTupleExclusive =
     (AccessExclusiveLock, MultiXactStatusForUpdate, Some MultiXactStatusUpdate)"

fun TUPLOCK_from_mxstatus :: "MultiXactStatus \<Rightarrow> LockTupleMode" where
  "TUPLOCK_from_mxstatus MultiXactStatusForKeyShare = LockTupleKeyShare"
| "TUPLOCK_from_mxstatus MultiXactStatusForShare = LockTupleShare"
| "TUPLOCK_from_mxstatus MultiXactStatusForNoKeyUpdate = LockTupleNoKeyExclusive"
| "TUPLOCK_from_mxstatus MultiXactStatusForUpdate = LockTupleExclusive"
| "TUPLOCK_from_mxstatus MultiXactStatusNoKeyUpdate = LockTupleNoKeyExclusive"
| "TUPLOCK_from_mxstatus MultiXactStatusUpdate = LockTupleExclusive"

definition LOCKMODE_from_mxstatus :: "MultiXactStatus \<Rightarrow> LOCKMODE" where
  "LOCKMODE_from_mxstatus status = fst (tupleLockExtraInfo (TUPLOCK_from_mxstatus status))"

definition get_mxact_status_for_lock :: "LockTupleMode \<Rightarrow> bool \<Rightarrow> MultiXactStatus result" where
  "get_mxact_status_for_lock mode is_update =
     (case tupleLockExtraInfo mode of
        (_, lockstatus, updstatus) \<Rightarrow>
          if is_update
          then (case updstatus of None \<Rightarrow> Inl (Ereport ERROR ''invalid lock tuple mode'') | Some s \<Rightarrow> Inr s)
          else Inr lockstatus)"

section \<open>Lock bits in WAL records\<close>

abbreviation (input) XLHL_XMAX_IS_MULTI :: uint8 where "XLHL_XMAX_IS_MULTI \<equiv> 0x01"
abbreviation (input) XLHL_XMAX_LOCK_ONLY :: uint8 where "XLHL_XMAX_LOCK_ONLY \<equiv> 0x02"
abbreviation (input) XLHL_XMAX_EXCL_LOCK :: uint8 where "XLHL_XMAX_EXCL_LOCK \<equiv> 0x04"
abbreviation (input) XLHL_XMAX_KEYSHR_LOCK :: uint8 where "XLHL_XMAX_KEYSHR_LOCK \<equiv> 0x08"
abbreviation (input) XLHL_KEYS_UPDATED :: uint8 where "XLHL_KEYS_UPDATED \<equiv> 0x10"

definition compute_infobits :: "uint16 \<Rightarrow> uint16 \<Rightarrow> uint8" where
  "compute_infobits infomask infomask2 =
     (if infomask AND HEAP_XMAX_IS_MULTI \<noteq> 0 then XLHL_XMAX_IS_MULTI else 0) OR
     (if infomask AND HEAP_XMAX_LOCK_ONLY \<noteq> 0 then XLHL_XMAX_LOCK_ONLY else 0) OR
     (if infomask AND HEAP_XMAX_EXCL_LOCK \<noteq> 0 then XLHL_XMAX_EXCL_LOCK else 0) OR
     (if infomask AND HEAP_XMAX_KEYSHR_LOCK \<noteq> 0 then XLHL_XMAX_KEYSHR_LOCK else 0) OR
     (if infomask2 AND HEAP_KEYS_UPDATED \<noteq> 0 then XLHL_KEYS_UPDATED else 0)"

definition fix_infomask_from_infobits :: "uint8 \<Rightarrow> uint16 \<Rightarrow> uint16 \<Rightarrow> uint16 \<times> uint16" where
  "fix_infomask_from_infobits infobits infomask infomask2 =
     (let infomask = infomask AND NOT (HEAP_XMAX_IS_MULTI OR HEAP_XMAX_LOCK_ONLY OR HEAP_XMAX_KEYSHR_LOCK OR HEAP_XMAX_EXCL_LOCK);
          infomask2 = infomask2 AND NOT HEAP_KEYS_UPDATED;
          infomask = (if infobits AND XLHL_XMAX_IS_MULTI \<noteq> 0 then infomask OR HEAP_XMAX_IS_MULTI else infomask);
          infomask = (if infobits AND XLHL_XMAX_LOCK_ONLY \<noteq> 0 then infomask OR HEAP_XMAX_LOCK_ONLY else infomask);
          infomask = (if infobits AND XLHL_XMAX_EXCL_LOCK \<noteq> 0 then infomask OR HEAP_XMAX_EXCL_LOCK else infomask);
          infomask = (if infobits AND XLHL_XMAX_KEYSHR_LOCK \<noteq> 0 then infomask OR HEAP_XMAX_KEYSHR_LOCK else infomask);
          infomask2 = (if infobits AND XLHL_KEYS_UPDATED \<noteq> 0 then infomask2 OR HEAP_KEYS_UPDATED else infomask2)
      in (infomask, infomask2))"

definition xmax_infomask_changed :: "uint16 \<Rightarrow> uint16 \<Rightarrow> bool" where
  "xmax_infomask_changed new_infomask old_infomask =
     (let interesting = HEAP_XMAX_IS_MULTI OR HEAP_XMAX_LOCK_ONLY OR HEAP_LOCK_MASK
      in new_infomask AND interesting \<noteq> old_infomask AND interesting)"

section \<open>Hint bits after a wait\<close>

definition UpdateXmaxHintBits :: "xact_env \<Rightarrow> uint32 \<Rightarrow> vis_state \<Rightarrow> vis_state" where
  "UpdateXmaxHintBits env xid s =
     (if t_infomask (vt s) AND (HEAP_XMAX_COMMITTED OR HEAP_XMAX_INVALID) = 0
      then (if \<not> HEAP_XMAX_IS_LOCKED_ONLY (t_infomask (vt s)) \<and> TransactionIdDidCommit env xid
            then HeapTupleSetHintBits env HEAP_XMAX_COMMITTED xid s
            else HeapTupleSetHintBits env HEAP_XMAX_INVALID InvalidTransactionId s)
      else s)"

section \<open>The new xmax\<close>

text \<open>
  The server's multixact routines: a new multixact of two members, and one with a member
  added. Each gives the multixact and the state of the server afterwards.
\<close>

record multi_ops =
  MultiXactIdCreate :: "xact_env \<Rightarrow> uint32 \<Rightarrow> MultiXactStatus \<Rightarrow> uint32 \<Rightarrow> MultiXactStatus \<Rightarrow> uint32 \<times> xact_env"
  MultiXactIdExpand :: "xact_env \<Rightarrow> uint32 \<Rightarrow> uint32 \<Rightarrow> MultiXactStatus \<Rightarrow> uint32 \<times> xact_env"

fun hint_bits_loop :: "MultiXactMember list \<Rightarrow> uint16 \<Rightarrow> bool \<Rightarrow> LockTupleMode \<Rightarrow> uint16 \<times> bool \<times> LockTupleMode" where
  "hint_bits_loop [] bits2 has_update strongest = (bits2, has_update, strongest)"
| "hint_bits_loop (m # ms) bits2 has_update strongest =
     (let mode = TUPLOCK_from_mxstatus (mxstatus m);
          strongest = (if mode > strongest then mode else strongest);
          (bits2, has_update) =
            (case mxstatus m of
               MultiXactStatusForKeyShare \<Rightarrow> (bits2, has_update)
             | MultiXactStatusForShare \<Rightarrow> (bits2, has_update)
             | MultiXactStatusForNoKeyUpdate \<Rightarrow> (bits2, has_update)
             | MultiXactStatusForUpdate \<Rightarrow> (bits2 OR HEAP_KEYS_UPDATED, has_update)
             | MultiXactStatusNoKeyUpdate \<Rightarrow> (bits2, True)
             | MultiXactStatusUpdate \<Rightarrow> (bits2 OR HEAP_KEYS_UPDATED, True))
      in hint_bits_loop ms bits2 has_update strongest)"

definition GetMultiXactIdHintBits :: "xact_env \<Rightarrow> uint32 \<Rightarrow> uint16 \<times> uint16" where
  "GetMultiXactIdHintBits env multi =
     (let (bits2, has_update, strongest) = hint_bits_loop (GetMultiXactIdMembers env multi) 0 False LockTupleKeyShare;
          bits = HEAP_XMAX_IS_MULTI OR
            (if strongest = LockTupleExclusive \<or> strongest = LockTupleNoKeyExclusive then HEAP_XMAX_EXCL_LOCK
             else if strongest = LockTupleShare then HEAP_XMAX_SHR_LOCK
             else HEAP_XMAX_KEYSHR_LOCK);
          bits = (if has_update then bits else bits OR HEAP_XMAX_LOCK_ONLY)
      in (bits, bits2))"

text \<open>The case without a previous locker.\<close>

definition sole_xmax :: "uint32 \<Rightarrow> LockTupleMode \<Rightarrow> bool \<Rightarrow> uint32 \<times> uint16 \<times> uint16" where
  "sole_xmax add_to_xmax mode is_update =
     (if is_update
      then (add_to_xmax, 0, if mode = LockTupleExclusive then HEAP_KEYS_UPDATED else 0)
      else
        (case mode of
           LockTupleKeyShare \<Rightarrow> (add_to_xmax, HEAP_XMAX_LOCK_ONLY OR HEAP_XMAX_KEYSHR_LOCK, 0)
         | LockTupleShare \<Rightarrow> (add_to_xmax, HEAP_XMAX_LOCK_ONLY OR HEAP_XMAX_SHR_LOCK, 0)
         | LockTupleNoKeyExclusive \<Rightarrow> (add_to_xmax, HEAP_XMAX_LOCK_ONLY OR HEAP_XMAX_EXCL_LOCK, 0)
         | LockTupleExclusive \<Rightarrow> (add_to_xmax, HEAP_XMAX_LOCK_ONLY OR HEAP_XMAX_EXCL_LOCK, HEAP_KEYS_UPDATED)))"

text \<open>A new multixact of the old holder of the tuple and the transaction to add.\<close>

definition pair_xmax ::
  "multi_ops \<Rightarrow> xact_env \<Rightarrow> uint32 \<Rightarrow> MultiXactStatus \<Rightarrow> uint32 \<Rightarrow> LockTupleMode \<Rightarrow> bool
     \<Rightarrow> ((uint32 \<times> uint16 \<times> uint16) \<times> xact_env) result" where
  "pair_xmax ops env xmax status add_to_xmax mode is_update =
     (case get_mxact_status_for_lock mode is_update of
        Inl e \<Rightarrow> Inl e
      | Inr new_status \<Rightarrow>
          (let (new_xmax, env) = MultiXactIdCreate ops env xmax status add_to_xmax new_status
           in Inr ((new_xmax, GetMultiXactIdHintBits env new_xmax), env)))"

definition update_status :: "uint16 \<Rightarrow> MultiXactStatus" where
  "update_status infomask2 =
     (if infomask2 AND HEAP_KEYS_UPDATED \<noteq> 0 then MultiXactStatusUpdate else MultiXactStatusNoKeyUpdate)"

text \<open>The status of a single running locker, none for a lock of an upgraded cluster.\<close>

definition locker_status :: "uint16 \<Rightarrow> uint16 \<Rightarrow> MultiXactStatus option" where
  "locker_status infomask infomask2 =
     (if infomask AND HEAP_LOCK_MASK = HEAP_XMAX_KEYSHR_LOCK then Some MultiXactStatusForKeyShare
      else if infomask AND HEAP_LOCK_MASK = HEAP_XMAX_SHR_LOCK then Some MultiXactStatusForShare
      else if infomask AND HEAP_LOCK_MASK = HEAP_XMAX_EXCL_LOCK
      then Some (if infomask2 AND HEAP_KEYS_UPDATED \<noteq> 0 then MultiXactStatusForUpdate else MultiXactStatusForNoKeyUpdate)
      else None)"

text \<open>
  Each \<^verbatim>\<open>goto l5\<close> is a recursive call with the xmax marked invalid, so there is at most one.
\<close>

function compute_new_xmax_infomask ::
  "multi_ops \<Rightarrow> xact_env \<Rightarrow> uint32 \<Rightarrow> uint16 \<Rightarrow> uint16 \<Rightarrow> uint32 \<Rightarrow> LockTupleMode \<Rightarrow> bool
     \<Rightarrow> ((uint32 \<times> uint16 \<times> uint16) \<times> xact_env) result" where
  "compute_new_xmax_infomask ops env xmax old_infomask old_infomask2 add_to_xmax mode is_update =
     (if old_infomask AND HEAP_XMAX_INVALID \<noteq> 0 then Inr (sole_xmax add_to_xmax mode is_update, env)
      else if old_infomask AND HEAP_XMAX_IS_MULTI \<noteq> 0
      then
        (if HEAP_LOCKED_UPGRADED old_infomask
         then compute_new_xmax_infomask ops env xmax ((old_infomask AND NOT HEAP_XMAX_IS_MULTI) OR HEAP_XMAX_INVALID)
                old_infomask2 add_to_xmax mode is_update
         else if \<not> MultiXactIdIsRunning env xmax (HEAP_XMAX_IS_LOCKED_ONLY old_infomask) \<and>
                 (HEAP_XMAX_IS_LOCKED_ONLY old_infomask \<or>
                  \<not> TransactionIdDidCommit env (MultiXactIdGetUpdateXid env xmax old_infomask))
         then compute_new_xmax_infomask ops env xmax ((old_infomask AND NOT HEAP_XMAX_IS_MULTI) OR HEAP_XMAX_INVALID)
                old_infomask2 add_to_xmax mode is_update
         else
           (case get_mxact_status_for_lock mode is_update of
              Inl e \<Rightarrow> Inl e
            | Inr new_status \<Rightarrow>
                (let (new_xmax, env) = MultiXactIdExpand ops env xmax add_to_xmax new_status
                 in Inr ((new_xmax, GetMultiXactIdHintBits env new_xmax), env))))
      else if old_infomask AND HEAP_XMAX_COMMITTED \<noteq> 0
      then pair_xmax ops env xmax (update_status old_infomask2) add_to_xmax mode is_update
      else if TransactionIdIsInProgress env xmax
      then
        (if HEAP_XMAX_IS_LOCKED_ONLY old_infomask
         then
           (case locker_status old_infomask old_infomask2 of
              None \<Rightarrow> compute_new_xmax_infomask ops env xmax ((old_infomask OR HEAP_XMAX_INVALID) AND NOT HEAP_XMAX_LOCK_ONLY)
                        old_infomask2 add_to_xmax mode is_update
            | Some old_status \<Rightarrow>
                if xmax = add_to_xmax
                then compute_new_xmax_infomask ops env xmax (old_infomask OR HEAP_XMAX_INVALID) old_infomask2 add_to_xmax
                       (if mode < TUPLOCK_from_mxstatus old_status then TUPLOCK_from_mxstatus old_status else mode) is_update
                else pair_xmax ops env xmax old_status add_to_xmax mode is_update)
         else if xmax = add_to_xmax
         then compute_new_xmax_infomask ops env xmax (old_infomask OR HEAP_XMAX_INVALID) old_infomask2 add_to_xmax
                (if mode < TUPLOCK_from_mxstatus (update_status old_infomask2)
                 then TUPLOCK_from_mxstatus (update_status old_infomask2) else mode) is_update
         else pair_xmax ops env xmax (update_status old_infomask2) add_to_xmax mode is_update)
      else if \<not> HEAP_XMAX_IS_LOCKED_ONLY old_infomask \<and> TransactionIdDidCommit env xmax
      then pair_xmax ops env xmax (update_status old_infomask2) add_to_xmax mode is_update
      else compute_new_xmax_infomask ops env xmax (old_infomask OR HEAP_XMAX_INVALID) old_infomask2 add_to_xmax mode is_update)"
  by pat_completeness auto

lemma marked_invalid:
  "((m AND NOT HEAP_XMAX_IS_MULTI) OR HEAP_XMAX_INVALID) AND HEAP_XMAX_INVALID \<noteq> 0"
  "((m OR HEAP_XMAX_INVALID) AND NOT HEAP_XMAX_LOCK_ONLY) AND HEAP_XMAX_INVALID \<noteq> 0"
  "(m OR HEAP_XMAX_INVALID) AND HEAP_XMAX_INVALID \<noteq> 0"
  "((m OR HEAP_XMAX_INVALID) AND - 129) AND HEAP_XMAX_INVALID \<noteq> 0" for m :: uint16
  by (auto simp: word16_eq_iff bit_simps)

termination compute_new_xmax_infomask
  by (relation "measure (\<lambda>(ops, env, xmax, m, m2, add, mode, upd). if m AND HEAP_XMAX_INVALID \<noteq> 0 then 0 else 1)")
    (simp_all add: marked_invalid)

declare compute_new_xmax_infomask.simps [simp del]

section \<open>Conflicts with a multixact\<close>

text \<open>
  \<open>conflict\<close> is the server's table of conflicting heavyweight locks; \<open>current\<close> is the variable
  that the caller may ask to be set.
\<close>

fun multi_conflict_loop ::
  "xact_env \<Rightarrow> (LOCKMODE \<Rightarrow> LOCKMODE \<Rightarrow> bool) \<Rightarrow> LOCKMODE \<Rightarrow> MultiXactMember list \<Rightarrow> bool \<Rightarrow> bool option
     \<Rightarrow> bool \<times> bool option" where
  "multi_conflict_loop env conflict wanted [] res current = (res, current)"
| "multi_conflict_loop env conflict wanted (m # ms) res current =
     (if res \<and> (case current of None \<Rightarrow> True | Some c \<Rightarrow> c) then (res, current)
      else if TransactionIdIsCurrentTransactionId env (mxid m)
      then multi_conflict_loop env conflict wanted ms res (map_option (\<lambda>_. True) current)
      else if res then multi_conflict_loop env conflict wanted ms res current
      else if \<not> conflict (LOCKMODE_from_mxstatus (mxstatus m)) wanted
      then multi_conflict_loop env conflict wanted ms res current
      else if ISUPDATE_from_mxstatus (mxstatus m)
      then (if TransactionIdDidAbort env (mxid m) then multi_conflict_loop env conflict wanted ms res current
            else multi_conflict_loop env conflict wanted ms True current)
      else (if \<not> TransactionIdIsInProgress env (mxid m) then multi_conflict_loop env conflict wanted ms res current
            else multi_conflict_loop env conflict wanted ms True current))"

definition DoesMultiXactIdConflict ::
  "xact_env \<Rightarrow> (LOCKMODE \<Rightarrow> LOCKMODE \<Rightarrow> bool) \<Rightarrow> uint32 \<Rightarrow> uint16 \<Rightarrow> LockTupleMode \<Rightarrow> bool option
     \<Rightarrow> bool \<times> bool option" where
  "DoesMultiXactIdConflict env conflict multi infomask lockmode current =
     (if HEAP_LOCKED_UPGRADED infomask then (False, current)
      else multi_conflict_loop env conflict (fst (tupleLockExtraInfo lockmode)) (GetMultiXactIdMembers env multi) False current)"

text \<open>The second result is \<^verbatim>\<open>*needwait\<close>.\<close>

definition test_lockmode_for_conflict ::
  "xact_env \<Rightarrow> (LOCKMODE \<Rightarrow> LOCKMODE \<Rightarrow> bool) \<Rightarrow> MultiXactStatus \<Rightarrow> uint32 \<Rightarrow> LockTupleMode \<Rightarrow> uint32 \<times> uint16
     \<Rightarrow> HeapTupleHeader \<Rightarrow> (TM_Result \<times> bool) result" where
  "test_lockmode_for_conflict env conflict status xid mode t_self t =
     (case get_mxact_status_for_lock mode False of
        Inl e \<Rightarrow> Inl e
      | Inr wantedstatus \<Rightarrow>
          (let conflicts = conflict (LOCKMODE_from_mxstatus status) (LOCKMODE_from_mxstatus wantedstatus)
           in Inr
             (if TransactionIdIsCurrentTransactionId env xid then (TM_SelfModified, False)
              else if TransactionIdIsInProgress env xid then (TM_Ok, conflicts)
              else if TransactionIdDidAbort env xid then (TM_Ok, False)
              else if TransactionIdDidCommit env xid
              then (if \<not> ISUPDATE_from_mxstatus status then (TM_Ok, False)
                    else if conflicts then (updated_or_deleted t_self t, False)
                    else (TM_Ok, False))
              else (TM_Ok, False))))"

section \<open>The lock tables\<close>

lemma lock_status_mode: "get_mxact_status_for_lock mode upd = Inr st \<Longrightarrow>
    TUPLOCK_from_mxstatus st = mode \<and> ISUPDATE_from_mxstatus st = upd"
  by (cases mode; cases upd) (auto simp: get_mxact_status_for_lock_def)

lemma lock_status_locker: "\<exists>st. get_mxact_status_for_lock mode False = Inr st"
  by (cases mode) (simp_all add: get_mxact_status_for_lock_def)

lemma update_status_is_update: "ISUPDATE_from_mxstatus (update_status m2)"
  by (simp add: update_status_def)

lemma locker_status_is_lock: "locker_status m m2 = Some st \<Longrightarrow> \<not> ISUPDATE_from_mxstatus st"
  by (auto simp: locker_status_def split: if_splits)

section \<open>WAL round trip of the lock bits\<close>

lemma infobits_bits:
  "compute_infobits m m2 AND XLHL_XMAX_IS_MULTI \<noteq> 0 \<longleftrightarrow> m AND HEAP_XMAX_IS_MULTI \<noteq> 0"
  "compute_infobits m m2 AND XLHL_XMAX_LOCK_ONLY \<noteq> 0 \<longleftrightarrow> m AND HEAP_XMAX_LOCK_ONLY \<noteq> 0"
  "compute_infobits m m2 AND XLHL_XMAX_EXCL_LOCK \<noteq> 0 \<longleftrightarrow> m AND HEAP_XMAX_EXCL_LOCK \<noteq> 0"
  "compute_infobits m m2 AND XLHL_XMAX_KEYSHR_LOCK \<noteq> 0 \<longleftrightarrow> m AND HEAP_XMAX_KEYSHR_LOCK \<noteq> 0"
  "compute_infobits m m2 AND XLHL_KEYS_UPDATED \<noteq> 0 \<longleftrightarrow> m2 AND HEAP_KEYS_UPDATED \<noteq> 0"
  by (simp_all add: compute_infobits_def)

lemma bit_masks:
  "bit (0x10 :: uint16) n \<longleftrightarrow> n = 4" "bit (0x40 :: uint16) n \<longleftrightarrow> n = 6" "bit (0x80 :: uint16) n \<longleftrightarrow> n = 7"
  "bit (0x1000 :: uint16) n \<longleftrightarrow> n = 12" "bit (0x2000 :: uint16) n \<longleftrightarrow> n = 13"
proof -
  have p: "(0x10 :: uint16) = 2 ^ 4" "(0x40 :: uint16) = 2 ^ 6" "(0x80 :: uint16) = 2 ^ 7"
    "(0x1000 :: uint16) = 2 ^ 12" "(0x2000 :: uint16) = 2 ^ 13" by simp_all
  show "bit (0x10 :: uint16) n \<longleftrightarrow> n = 4" "bit (0x40 :: uint16) n \<longleftrightarrow> n = 6" "bit (0x80 :: uint16) n \<longleftrightarrow> n = 7"
    "bit (0x1000 :: uint16) n \<longleftrightarrow> n = 12" "bit (0x2000 :: uint16) n \<longleftrightarrow> n = 13"
    unfolding p by (simp_all only: bit_exp_iff possible_bit_word) auto
qed

lemma masks_nonzero:
  "m AND 0x10 \<noteq> 0 \<longleftrightarrow> bit m 4" "m AND 0x40 \<noteq> 0 \<longleftrightarrow> bit m 6" "m AND 0x80 \<noteq> 0 \<longleftrightarrow> bit m 7"
  "m AND 0x1000 \<noteq> 0 \<longleftrightarrow> bit m 12" "m AND 0x2000 \<noteq> 0 \<longleftrightarrow> bit m 13" for m :: uint16
  using and_exp_eq_0_iff_not_bit [of m 4] and_exp_eq_0_iff_not_bit [of m 6] and_exp_eq_0_iff_not_bit [of m 7]
    and_exp_eq_0_iff_not_bit [of m 12] and_exp_eq_0_iff_not_bit [of m 13] by simp_all

lemma fixed_bits:
  fixes n :: uint16
  assumes "fix_infomask_from_infobits (compute_infobits m m2) n n2 = (k, k2)" and "i < 16"
  shows "bit k i \<longleftrightarrow> (if i \<in> {4, 6, 7, 12} then bit m i else bit n i)"
    and "bit k2 i \<longleftrightarrow> (if i = 13 then bit m2 i else bit n2 i)"
proof -
  have or_if: "bit (if c then a OR b else a) i \<longleftrightarrow> bit a i \<or> (c \<and> bit b i)" for a b :: uint16 and c
    by (simp add: bit_or_iff)
  have k: "k = fst (fix_infomask_from_infobits (compute_infobits m m2) n n2)"
    "k2 = snd (fix_infomask_from_infobits (compute_infobits m m2) n n2)"
    using assms(1) by simp_all
  show "bit k i \<longleftrightarrow> (if i \<in> {4, 6, 7, 12} then bit m i else bit n i)"
    unfolding k fix_infomask_from_infobits_def Let_def fst_conv or_if infobits_bits masks_nonzero
      bit_and_iff bit_not_iff_eq bit_or_iff bit_masks
    using assms(2) by auto
  show "bit k2 i \<longleftrightarrow> (if i = 13 then bit m2 i else bit n2 i)"
    unfolding k fix_infomask_from_infobits_def Let_def snd_conv or_if infobits_bits masks_nonzero
      bit_and_iff bit_not_iff_eq bit_or_iff bit_masks
    using assms(2) by auto
qed

text \<open>
  The bits that a WAL record keeps of a tuple's lock restore it at replay: whatever the
  header held before, afterwards its xmax state is that of the original header, its other
  information bits are untouched, and so is the key-update bit.
\<close>

lemma infobits_roundtrip:
  assumes "fix_infomask_from_infobits (compute_infobits m m2) n n2 = (k, k2)"
  shows "\<not> xmax_infomask_changed k m \<and> HEAP_XMAX_IS_LOCKED_ONLY k = HEAP_XMAX_IS_LOCKED_ONLY m \<and>
     k AND NOT 0x10D0 = n AND NOT 0x10D0 \<and>
     k2 AND HEAP_KEYS_UPDATED = m2 AND HEAP_KEYS_UPDATED \<and> k2 AND NOT HEAP_KEYS_UPDATED = n2 AND NOT HEAP_KEYS_UPDATED"
proof -
  note b = fixed_bits [OF assms]
  have "k AND (HEAP_XMAX_IS_MULTI OR HEAP_XMAX_LOCK_ONLY OR HEAP_LOCK_MASK) =
      m AND (HEAP_XMAX_IS_MULTI OR HEAP_XMAX_LOCK_ONLY OR HEAP_LOCK_MASK)"
    by (simp add: word16_eq_iff b bit_simps)
  moreover have "HEAP_XMAX_IS_LOCKED_ONLY k = HEAP_XMAX_IS_LOCKED_ONLY m"
    by (simp add: locked_only_bits b)
  moreover have "k AND NOT 0x10D0 = n AND NOT 0x10D0" "k2 AND HEAP_KEYS_UPDATED = m2 AND HEAP_KEYS_UPDATED"
      "k2 AND NOT HEAP_KEYS_UPDATED = n2 AND NOT HEAP_KEYS_UPDATED"
    by (simp_all add: word16_eq_iff b bit_simps)
  ultimately show ?thesis by (simp add: xmax_infomask_changed_def)
qed

section \<open>What the conflict test says\<close>

definition conflicting_member :: "xact_env \<Rightarrow> (LOCKMODE \<Rightarrow> LOCKMODE \<Rightarrow> bool) \<Rightarrow> LOCKMODE \<Rightarrow> MultiXactMember \<Rightarrow> bool" where
  "conflicting_member env conflict wanted m \<longleftrightarrow>
     \<not> TransactionIdIsCurrentTransactionId env (mxid m) \<and> conflict (LOCKMODE_from_mxstatus (mxstatus m)) wanted \<and>
     (if ISUPDATE_from_mxstatus (mxstatus m) then \<not> TransactionIdDidAbort env (mxid m)
      else TransactionIdIsInProgress env (mxid m))"

lemma conflict_loop_result:
  "multi_conflict_loop env conflict wanted ms res current =
     (res \<or> (\<exists>m\<in>set ms. conflicting_member env conflict wanted m),
      map_option (\<lambda>c. c \<or> (\<exists>m\<in>set ms. TransactionIdIsCurrentTransactionId env (mxid m))) current)"
proof (induction ms arbitrary: res current)
  case Nil
  then show ?case by (cases current) simp_all
next
  case (Cons m ms)
  show ?case
  proof (cases "res \<and> (case current of None \<Rightarrow> True | Some c \<Rightarrow> c)")
    case True
    then show ?thesis by (cases current) simp_all
  next
    case False
    then show ?thesis
      by (cases current) (auto simp: Cons.IH conflicting_member_def)
  qed
qed

text \<open>
  The conflict test, with its early exit, finds exactly whether some other transaction of
  the multixact holds a conflicting lock that still matters: an update that did not abort or
  a lock of a running transaction. The flag asked for tells whether the own transaction is a
  member, also when the loop stops early.
\<close>

lemma DoesMultiXactIdConflict_correct:
  "DoesMultiXactIdConflict env conflict multi infomask lockmode current =
     (if HEAP_LOCKED_UPGRADED infomask then (False, current)
      else (\<exists>m\<in>set (GetMultiXactIdMembers env multi).
              conflicting_member env conflict (fst (tupleLockExtraInfo lockmode)) m,
            map_option (\<lambda>c. c \<or> (\<exists>m\<in>set (GetMultiXactIdMembers env multi).
              TransactionIdIsCurrentTransactionId env (mxid m))) current))"
  by (simp add: DoesMultiXactIdConflict_def conflict_loop_result)

section \<open>What locking does to the updater\<close>

definition alive :: "xact_env \<Rightarrow> uint32 \<Rightarrow> bool" where
  "alive env x \<longleftrightarrow> TransactionIdIsInProgress env x \<or> TransactionIdDidCommit env x"

definition updaters :: "MultiXactMember list \<Rightarrow> MultiXactMember list" where
  "updaters ms = filter (\<lambda>m. ISUPDATE_from_mxstatus (mxstatus m)) ms"

text \<open>
  The documented behaviour of the multixact routines: a new one has the two members in order;
  an expanded one has the added member, every old member that is running and every old
  updater that committed, nothing that was not there, and at most one updater. The server
  refuses to expand a multixact to a second live updater.
\<close>

definition legal_expand :: "xact_env \<Rightarrow> uint32 \<Rightarrow> MultiXactStatus \<Rightarrow> bool" where
  "legal_expand env multi st \<longleftrightarrow>
     length (updaters (GetMultiXactIdMembers env multi)) \<le> 1 \<and>
     (ISUPDATE_from_mxstatus st \<longrightarrow> (\<forall>k\<in>set (updaters (GetMultiXactIdMembers env multi)). \<not> alive env (mxid k)))"

definition multi_ops_ok :: "multi_ops \<Rightarrow> bool" where
  "multi_ops_ok ops \<longleftrightarrow>
     (\<forall>env x1 s1 x2 s2 m env'. MultiXactIdCreate ops env x1 s1 x2 s2 = (m, env') \<longrightarrow>
        GetMultiXactIdMembers env' m = [\<lparr>mxid = x1, mxstatus = s1\<rparr>, \<lparr>mxid = x2, mxstatus = s2\<rparr>]) \<and>
     (\<forall>env multi x st m env'. MultiXactIdExpand ops env multi x st = (m, env') \<and> legal_expand env multi st \<longrightarrow>
        \<lparr>mxid = x, mxstatus = st\<rparr> \<in> set (GetMultiXactIdMembers env' m) \<and>
        (\<forall>k\<in>set (GetMultiXactIdMembers env multi).
           TransactionIdIsInProgress env (mxid k) \<or> (ISUPDATE_from_mxstatus (mxstatus k) \<and> TransactionIdDidCommit env (mxid k)) \<longrightarrow>
             k \<in> set (GetMultiXactIdMembers env' m)) \<and>
        set (GetMultiXactIdMembers env' m) \<subseteq> insert \<lparr>mxid = x, mxstatus = st\<rparr> (set (GetMultiXactIdMembers env multi)) \<and>
        length (updaters (GetMultiXactIdMembers env' m)) \<le> 1)"

lemma hint_loop_update:
  "fst (snd (hint_bits_loop ms bits2 has_update strongest)) \<longleftrightarrow> has_update \<or> updaters ms \<noteq> []"
proof (induction ms arbitrary: bits2 has_update strongest)
  case (Cons m ms)
  show ?case
    by (cases "mxstatus m") (simp_all add: Cons.IH Let_def updaters_def)
qed (simp add: updaters_def)

lemma hint_bits_lock_only:
  assumes "GetMultiXactIdHintBits env x = (m, m2)"
  shows "m AND HEAP_XMAX_IS_MULTI \<noteq> 0" and "HEAP_XMAX_IS_LOCKED_ONLY m \<longleftrightarrow> updaters (GetMultiXactIdMembers env x) = []"
proof -
  obtain b u st where l: "hint_bits_loop (GetMultiXactIdMembers env x) 0 False LockTupleKeyShare = (b, u, st)"
    by (metis surj_pair)
  then have u: "u \<longleftrightarrow> updaters (GetMultiXactIdMembers env x) \<noteq> []"
    using hint_loop_update [of "GetMultiXactIdMembers env x" 0 False LockTupleKeyShare] by simp
  show "m AND HEAP_XMAX_IS_MULTI \<noteq> 0" and "HEAP_XMAX_IS_LOCKED_ONLY m \<longleftrightarrow> updaters (GetMultiXactIdMembers env x) = []"
    using assms l u by (auto simp: GetMultiXactIdHintBits_def HEAP_XMAX_IS_LOCKED_ONLY_def split: if_splits)
qed

text \<open>The updater that a header shows with a given xmax and information bits.\<close>

definition updater_of :: "xact_env \<Rightarrow> uint32 \<Rightarrow> uint16 \<Rightarrow> uint32" where
  "updater_of env xmax infomask =
     (if HEAP_XMAX_IS_LOCKED_ONLY infomask then InvalidTransactionId
      else if infomask AND HEAP_XMAX_IS_MULTI \<noteq> 0 then MultiXactIdGetUpdateXid env xmax infomask else xmax)"

lemma updater_of_header: "updater env t = updater_of env (t_xmax t) (t_infomask t)"
  by (simp add: updater_def updater_of_def has_def HeapTupleGetUpdateXid_def)

lemma updater_of_multi:
  assumes "GetMultiXactIdHintBits env x = (m, m2)"
  shows "updater_of env x m = (case updaters (GetMultiXactIdMembers env x) of [] \<Rightarrow> 0 | k # _ \<Rightarrow> mxid k)"
  using hint_bits_lock_only [OF assms]
  by (simp add: updater_of_def MultiXactIdGetUpdateXid_def updaters_def split: list.split)

lemma updater_of_sole:
  assumes "sole_xmax add mode upd = (x, m, m2)"
  shows "updater_of env x m = (if upd then add else 0)"
  using assms by (cases mode; cases upd) (auto simp: sole_xmax_def updater_of_def HEAP_XMAX_IS_LOCKED_ONLY_def)

lemma compute_invalid:
  "m AND HEAP_XMAX_INVALID \<noteq> 0 \<Longrightarrow>
     compute_new_xmax_infomask ops env xmax m m2 add mode upd = Inr (sole_xmax add mode upd, env)"
  by (subst compute_new_xmax_infomask.simps) simp

text \<open>What the new header must say about the old updater \<open>u\<close> and the added transaction.\<close>

definition keeps_updater :: "xact_env \<Rightarrow> uint32 \<Rightarrow> uint32 \<Rightarrow> bool \<Rightarrow> uint32 \<Rightarrow> bool" where
  "keeps_updater env u add upd r \<longleftrightarrow>
     (alive env u \<longrightarrow> r = u) \<and> (upd \<longrightarrow> r = add) \<and> (\<not> alive env u \<and> \<not> upd \<longrightarrow> \<not> alive env r)"

lemma sole_keeps:
  assumes "xact_ok env" "\<not> alive env u" "sole_xmax add mode upd = (x, m, m2)"
  shows "keeps_updater env u add upd (updater_of env x m)"
  using assms(1,2) updater_of_sole [OF assms(3)] by (auto simp: keeps_updater_def alive_def xact_ok_def gone_def)

lemma pair_keeps:
  assumes ops: "multi_ops_ok ops" and env: "xact_ok env"
    and r: "pair_xmax ops env xmax status add mode upd = Inr ((x, m, m2), env')"
    and u: "if ISUPDATE_from_mxstatus status then u = xmax \<and> alive env u \<and> \<not> upd else \<not> alive env u"
  shows "keeps_updater env u add upd (updater_of env' x m)"
proof -
  obtain st where st: "get_mxact_status_for_lock mode upd = Inr st" "ISUPDATE_from_mxstatus st = upd"
    using r lock_status_mode [of mode upd] by (auto simp: pair_xmax_def split: sum.splits)
  with r have c: "MultiXactIdCreate ops env xmax status add st = (x, env')" and h: "GetMultiXactIdHintBits env' x = (m, m2)"
    by (auto simp: pair_xmax_def split: prod.splits)
  have "GetMultiXactIdMembers env' x = [\<lparr>mxid = xmax, mxstatus = status\<rparr>, \<lparr>mxid = add, mxstatus = st\<rparr>]"
    using ops c by (auto simp: multi_ops_ok_def)
  then have "updater_of env' x m = (if ISUPDATE_from_mxstatus status then xmax else if upd then add else 0)"
    using st(2) by (simp add: updater_of_multi [OF h] updaters_def)
  with u env show ?thesis
    by (auto simp: keeps_updater_def alive_def xact_ok_def gone_def)
qed

text \<open>A multixact in a header has at most one updater, and none when the header says locked only.\<close>

definition multi_header_ok :: "xact_env \<Rightarrow> uint32 \<Rightarrow> uint16 \<Rightarrow> bool" where
  "multi_header_ok env xmax infomask \<longleftrightarrow>
     length (updaters (GetMultiXactIdMembers env xmax)) \<le> 1 \<and>
     (HEAP_XMAX_IS_LOCKED_ONLY infomask \<longrightarrow> updaters (GetMultiXactIdMembers env xmax) = [])"

lemma expand_keeps:
  assumes ops: "multi_ops_ok ops" and env: "xact_ok env" and mh: "multi_header_ok env xmax infomask"
    and mul: "infomask AND HEAP_XMAX_IS_MULTI \<noteq> 0"
    and st: "ISUPDATE_from_mxstatus st = upd" and e: "MultiXactIdExpand ops env xmax add st = (x, env')"
    and h: "GetMultiXactIdHintBits env' x = (m, m2)"
    and u: "u = updater_of env xmax infomask" "upd \<longrightarrow> \<not> alive env u"
  shows "keeps_updater env u add upd (updater_of env' x m)"
proof -
  let ?old = "GetMultiXactIdMembers env xmax" and ?new = "GetMultiXactIdMembers env' x"
  have old: "u = (case updaters ?old of [] \<Rightarrow> 0 | k # _ \<Rightarrow> mxid k)"
    using mh mul u(1) by (auto simp: multi_header_ok_def updater_of_def MultiXactIdGetUpdateXid_def updaters_def split: list.split)
  have legal: "legal_expand env xmax st"
  proof (cases "updaters ?old")
    case Nil
    then show ?thesis by (simp add: legal_expand_def)
  next
    case (Cons k ks)
    with mh have "ks = []" by (simp add: multi_header_ok_def)
    with Cons old u(2) st show ?thesis by (simp add: legal_expand_def)
  qed
  have "\<lparr>mxid = add, mxstatus = st\<rparr> \<in> set ?new \<and>
      (\<forall>k\<in>set ?old. TransactionIdIsInProgress env (mxid k) \<or> (ISUPDATE_from_mxstatus (mxstatus k) \<and> TransactionIdDidCommit env (mxid k)) \<longrightarrow>
         k \<in> set ?new) \<and>
      set ?new \<subseteq> insert \<lparr>mxid = add, mxstatus = st\<rparr> (set ?old) \<and> length (updaters ?new) \<le> 1"
    using ops e legal unfolding multi_ops_ok_def by blast
  then have law: "\<lparr>mxid = add, mxstatus = st\<rparr> \<in> set ?new" "set ?new \<subseteq> insert \<lparr>mxid = add, mxstatus = st\<rparr> (set ?old)"
    "length (updaters ?new) \<le> 1"
    and keep: "\<And>k. k \<in> set ?old \<Longrightarrow> ISUPDATE_from_mxstatus (mxstatus k) \<Longrightarrow> alive env (mxid k) \<Longrightarrow> k \<in> set ?new"
    by (auto simp: alive_def)
  have one: "updaters ?new = [k]" if "k \<in> set ?new" "ISUPDATE_from_mxstatus (mxstatus k)" for k
  proof -
    have "k \<in> set (updaters ?new)" using that by (simp add: updaters_def)
    with law(3) show ?thesis by (cases "updaters ?new") auto
  qed
  have zero: "\<not> alive env 0" using env by (simp add: alive_def xact_ok_def gone_def)
  have r: "updater_of env' x m = (case updaters ?new of [] \<Rightarrow> 0 | k # _ \<Rightarrow> mxid k)"
    by (rule updater_of_multi [OF h])
  show ?thesis
    unfolding keeps_updater_def
  proof (intro conjI impI)
    assume a: "alive env u"
    with zero old obtain k ks where k: "updaters ?old = k # ks" "mxid k = u" by (cases "updaters ?old") auto
    then have "k \<in> set (updaters ?old)" by simp
    then have "k \<in> set ?old" "ISUPDATE_from_mxstatus (mxstatus k)" by (simp_all add: updaters_def)
    with a k keep have "updaters ?new = [k]" by (intro one) auto
    with k(2) show "updater_of env' x m = u" by (simp add: r)
  next
    assume upd
    with one [OF law(1)] st show "updater_of env' x m = add" by (simp add: r)
  next
    assume a: "\<not> alive env u \<and> \<not> upd"
    show "\<not> alive env (updater_of env' x m)"
    proof (cases "updaters ?new")
      case Nil
      with zero show ?thesis by (simp add: r)
    next
      case (Cons k ks)
      then have "k \<in> set (updaters ?new)" by simp
      then have k: "k \<in> set ?new" "ISUPDATE_from_mxstatus (mxstatus k)" by (simp_all add: updaters_def)
      with law(2) st a have "k \<in> set ?old" by auto
      with k(2) have "k \<in> set (updaters ?old)" by (simp add: updaters_def)
      with mh have "updaters ?old = [k]"
        by (cases "updaters ?old") (auto simp: multi_header_ok_def)
      with a old Cons show ?thesis by (simp add: r)
    qed
  qed
qed

text \<open>
  (C26) Locking or updating a tuple never loses its updater: when an update that is running or
  committed is in the old header, the new header, a plain xmax or a new or expanded multixact,
  shows that same updater; an update shows the updating transaction; and a lock on a tuple
  without a live updater makes none. An update is only applied to a tuple without a live
  updater, and the added transaction is not the old updater.
\<close>

theorem new_xmax_keeps_updater:
  assumes "xact_ok env" and "multi_ok env" and "multi_ops_ok ops" and "tuple_ok env t"
    and "has HEAP_XMAX_IS_MULTI t \<longrightarrow> multi_header_ok env (t_xmax t) (t_infomask t)"
    and "is_update \<longrightarrow> \<not> alive env (updater env t)" and "updater env t \<noteq> add"
    and "compute_new_xmax_infomask ops env (t_xmax t) (t_infomask t) (t_infomask2 t) add mode is_update = Inr ((x, m, m2), env')"
  shows "keeps_updater env (updater env t) add is_update (updater_of env' x m)"
proof -
  define i where "i = t_infomask t"
  define u where "u = updater env t"
  note r = assms(8) [folded i_def]
  note [simp] = i_def [symmetric]
  have zero: "\<not> alive env 0" using assms(1) by (simp add: alive_def xact_ok_def gone_def)
  have upd: "is_update \<longrightarrow> \<not> alive env u" "u \<noteq> add" using assms(6,7) by (simp_all add: u_def)
  have u: "u = updater_of env (t_xmax t) i" using updater_of_header [of env t] by (simp add: u_def)
  have locked: "HEAP_XMAX_IS_LOCKED_ONLY i \<Longrightarrow> \<not> alive env u" using zero by (simp add: u updater_of_def)
  have sole: "keeps_updater env u add is_update (updater_of env' x m)"
    if "\<not> alive env u" "Inr (sole_xmax add mode' is_update, env) = (Inr ((x, m, m2), env') :: ((uint32 \<times> uint16 \<times> uint16) \<times> xact_env) result)" for mode'
    using that sole_keeps [OF assms(1) that(1), of add mode' is_update x m m2] by auto
  note inv = compute_invalid [OF marked_invalid(1)] compute_invalid [OF marked_invalid(2)] compute_invalid [OF marked_invalid(3)]
  have com: "i AND HEAP_XMAX_COMMITTED \<noteq> 0 \<Longrightarrow> i AND HEAP_XMAX_IS_MULTI = 0 \<and> u = t_xmax t \<and> alive env u"
    using tuple_okD(6,7) [OF assms(4)] by (auto simp: has_def u updater_of_def alive_def ended_committed_def)
  note eq = compute_new_xmax_infomask.simps [of ops env "t_xmax t" i "t_infomask2 t" add mode is_update]
  consider (invalid) "i AND HEAP_XMAX_INVALID \<noteq> 0" | (multi) "i AND HEAP_XMAX_INVALID = 0" "i AND HEAP_XMAX_IS_MULTI \<noteq> 0"
    | (committed) "i AND HEAP_XMAX_INVALID = 0" "i AND HEAP_XMAX_IS_MULTI = 0" "i AND HEAP_XMAX_COMMITTED \<noteq> 0"
    | (plain) "i AND HEAP_XMAX_INVALID = 0" "i AND HEAP_XMAX_IS_MULTI = 0" "i AND HEAP_XMAX_COMMITTED = 0" by blast
  then have "keeps_updater env u add is_update (updater_of env' x m)"
  proof cases
    case invalid
    then have "\<not> alive env u"
      using tuple_okD(5) [OF assms(4)] by (auto simp: has_def u_def alive_def gone_def)
    moreover have "Inr (sole_xmax add mode is_update, env) = (Inr ((x, m, m2), env') :: ((uint32 \<times> uint16 \<times> uint16) \<times> xact_env) result)"
      using r unfolding compute_invalid [OF invalid] .
    ultimately show ?thesis by (rule sole)
  next
    case multi
    have mh: "multi_header_ok env (t_xmax t) i" using assms(5) multi(2) by (simp add: has_def)
    have not_running: "\<not> alive env u"
      if "\<not> MultiXactIdIsRunning env (t_xmax t) (HEAP_XMAX_IS_LOCKED_ONLY i)"
        "HEAP_XMAX_IS_LOCKED_ONLY i \<or> \<not> TransactionIdDidCommit env (MultiXactIdGetUpdateXid env (t_xmax t) i)"
    proof (cases "HEAP_XMAX_IS_LOCKED_ONLY i")
      case False
      with that update_xid_not_running [OF assms(1,2), of t] multi(2) show ?thesis
        by (simp add: u updater_of_def alive_def HeapTupleGetUpdateXid_def)
    qed (rule locked)
    show ?thesis
    proof (cases "HEAP_LOCKED_UPGRADED i \<or> (\<not> MultiXactIdIsRunning env (t_xmax t) (HEAP_XMAX_IS_LOCKED_ONLY i) \<and>
        (HEAP_XMAX_IS_LOCKED_ONLY i \<or> \<not> TransactionIdDidCommit env (MultiXactIdGetUpdateXid env (t_xmax t) i)))")
      case True
      then have "\<not> alive env u" using not_running locked LOCKED_UPGRADED_locked by blast
      moreover have "Inr (sole_xmax add mode is_update, env) = (Inr ((x, m, m2), env') :: ((uint32 \<times> uint16 \<times> uint16) \<times> xact_env) result)"
        using r multi True unfolding eq inv by (auto split: if_splits)
      ultimately show ?thesis by (rule sole)
    next
      case False
      then obtain st where st: "get_mxact_status_for_lock mode is_update = Inr st"
          and e: "(let (new_xmax, env) = MultiXactIdExpand ops env (t_xmax t) add st
             in Inr ((new_xmax, GetMultiXactIdHintBits env new_xmax), env)) = (Inr ((x, m, m2), env') :: ((uint32 \<times> uint16 \<times> uint16) \<times> xact_env) result)"
        using r multi unfolding eq by (auto split: if_splits sum.splits)
      have "MultiXactIdExpand ops env (t_xmax t) add st = (x, env')" "GetMultiXactIdHintBits env' x = (m, m2)"
        using e by (auto split: prod.splits)
      from expand_keeps [OF assms(3,1) mh multi(2) conjunct2 [OF lock_status_mode [OF st]] this u upd(1)] show ?thesis .
    qed
  next
    case committed
    then have p: "pair_xmax ops env (t_xmax t) (update_status (t_infomask2 t)) add mode is_update = Inr ((x, m, m2), env')"
      using r unfolding eq by simp
    show ?thesis
      by (rule pair_keeps [OF assms(3,1) p]) (use com [OF committed(3)] upd(1) in \<open>auto simp: update_status_is_update\<close>)
  next
    case plain
    have pl: "\<not> HEAP_XMAX_IS_LOCKED_ONLY i \<Longrightarrow> u = t_xmax t" using plain(2) by (simp add: u updater_of_def)
    have alone: ?thesis if "\<not> alive env u"
        "compute_new_xmax_infomask ops env (t_xmax t) (i OR HEAP_XMAX_INVALID) (t_infomask2 t) add mode' is_update = Inr ((x, m, m2), env') \<or>
         compute_new_xmax_infomask ops env (t_xmax t) ((i OR HEAP_XMAX_INVALID) AND NOT HEAP_XMAX_LOCK_ONLY) (t_infomask2 t) add mode' is_update
           = Inr ((x, m, m2), env')" for mode'
      using that(2) sole [OF that(1), of mode'] unfolding inv by blast
    show ?thesis
    proof (cases "TransactionIdIsInProgress env (t_xmax t)")
      case running: True
      show ?thesis
      proof (cases "HEAP_XMAX_IS_LOCKED_ONLY i")
        case True
        note dead = locked [OF True]
        show ?thesis
        proof (cases "locker_status i (t_infomask2 t)")
          case None
          with r plain running True have "compute_new_xmax_infomask ops env (t_xmax t)
              ((i OR HEAP_XMAX_INVALID) AND NOT HEAP_XMAX_LOCK_ONLY) (t_infomask2 t) add mode is_update = Inr ((x, m, m2), env')"
            unfolding eq by simp
          with alone [OF dead] show ?thesis by blast
        next
          case (Some st)
          show ?thesis
          proof (cases "t_xmax t = add")
            case same: True
            with r plain running True Some have "compute_new_xmax_infomask ops env (t_xmax t) (i OR HEAP_XMAX_INVALID) (t_infomask2 t) add
                (if mode < TUPLOCK_from_mxstatus st then TUPLOCK_from_mxstatus st else mode) is_update = Inr ((x, m, m2), env')"
              unfolding eq by simp
            with alone [OF dead] show ?thesis by blast
          next
            case False
            with r plain running True Some have p: "pair_xmax ops env (t_xmax t) st add mode is_update = Inr ((x, m, m2), env')"
              unfolding eq by simp
            show ?thesis
              by (rule pair_keeps [OF assms(3,1) p]) (use dead locker_status_is_lock [OF Some] in simp)
          qed
        qed
      next
        case False
        with r plain running upd(2) pl have p: "pair_xmax ops env (t_xmax t) (update_status (t_infomask2 t)) add mode is_update = Inr ((x, m, m2), env')"
          unfolding eq by auto
        show ?thesis
          by (rule pair_keeps [OF assms(3,1) p]) (use upd(1) pl [OF False] running in \<open>simp add: update_status_is_update alive_def\<close>)
      qed
    next
      case idle: False
      show ?thesis
      proof (cases "\<not> HEAP_XMAX_IS_LOCKED_ONLY i \<and> TransactionIdDidCommit env (t_xmax t)")
        case True
        with r plain idle have p: "pair_xmax ops env (t_xmax t) (update_status (t_infomask2 t)) add mode is_update = Inr ((x, m, m2), env')"
          unfolding eq by simp
        show ?thesis
          by (rule pair_keeps [OF assms(3,1) p]) (use upd(1) pl True in \<open>simp add: update_status_is_update alive_def\<close>)
      next
        case False
        then have "\<not> alive env u" using locked pl idle by (auto simp: alive_def)
        moreover have "compute_new_xmax_infomask ops env (t_xmax t) (i OR HEAP_XMAX_INVALID) (t_infomask2 t) add mode is_update = Inr ((x, m, m2), env')"
          using r plain idle False unfolding eq by (simp split: if_splits)
        ultimately show ?thesis using alone by blast
      qed
    qed
  qed
  then show ?thesis by (simp add: u_def)
qed

section \<open>Concrete locks\<close>

lemma infobits_roundtrip_witness:
  "fix_infomask_from_infobits (compute_infobits 0x1190 0x2002) 0x0940 0x0001 = (0x1990, 0x2001) \<and>
   \<not> xmax_infomask_changed 0x1990 0x1190"
proof -
  have e: "fix_infomask_from_infobits (compute_infobits 0x1190 0x2002) 0x0940 0x0001 = (0x1990, 0x2001)"
    by (simp add: fix_infomask_from_infobits_def compute_infobits_def)
  with infobits_roundtrip [OF e] show ?thesis by blast
qed

text \<open>Multixacts are numbered 7; an expanded one keeps the live members.\<close>

definition demo_multi_ops :: multi_ops where
  "demo_multi_ops = \<lparr>MultiXactIdCreate = (\<lambda>env x1 s1 x2 s2.
       (7, env\<lparr>GetMultiXactIdMembers := (GetMultiXactIdMembers env)(7 := [\<lparr>mxid = x1, mxstatus = s1\<rparr>, \<lparr>mxid = x2, mxstatus = s2\<rparr>])\<rparr>)),
     MultiXactIdExpand = (\<lambda>env m x s.
       (7, env\<lparr>GetMultiXactIdMembers := (GetMultiXactIdMembers env)(7 := \<lparr>mxid = x, mxstatus = s\<rparr> #
             filter (\<lambda>k. TransactionIdIsInProgress env (mxid k) \<or> (ISUPDATE_from_mxstatus (mxstatus k) \<and> TransactionIdDidCommit env (mxid k)))
               (GetMultiXactIdMembers env m))\<rparr>))\<rparr>"

lemma updaters_simps:
  "updaters (filter P ms) = filter P (updaters ms)"
  "updaters (k # ms) = (if ISUPDATE_from_mxstatus (mxstatus k) then k # updaters ms else updaters ms)"
  by (simp_all add: updaters_def conj_commute)

lemma demo_expanded_one:
  assumes "length (updaters ms) \<le> 1" "ISUPDATE_from_mxstatus st \<longrightarrow> (\<forall>k\<in>set (updaters ms). \<not> alive env (mxid k))"
  shows "length (updaters (\<lparr>mxid = x, mxstatus = st\<rparr> #
      filter (\<lambda>k. TransactionIdIsInProgress env (mxid k) \<or> (ISUPDATE_from_mxstatus (mxstatus k) \<and> TransactionIdDidCommit env (mxid k))) ms)) \<le> 1"
    (is "length (updaters (?k # filter ?P ms)) \<le> 1")
proof (cases "ISUPDATE_from_mxstatus st")
  case True
  with assms(2) have "filter ?P (updaters ms) = []"
    by (auto simp: filter_empty_conv alive_def)
  then show ?thesis
    by (simp only: updaters_simps) simp
next
  case False
  then have "updaters (?k # filter ?P ms) = filter ?P (updaters ms)" by (simp only: updaters_simps) simp
  then show ?thesis using assms(1) length_filter_le [of ?P "updaters ms"] by (simp only:)
qed

lemma demo_multi_ops_ok: "multi_ops_ok demo_multi_ops"
  unfolding multi_ops_ok_def legal_expand_def
proof (intro conjI allI impI)
  fix env x1 s1 x2 s2 m env' assume "MultiXactIdCreate demo_multi_ops env x1 s1 x2 s2 = (m, env')"
  then show "GetMultiXactIdMembers env' m = [\<lparr>mxid = x1, mxstatus = s1\<rparr>, \<lparr>mxid = x2, mxstatus = s2\<rparr>]"
    by (auto simp: demo_multi_ops_def)
next
  fix env multi x st m env'
  assume *: "MultiXactIdExpand demo_multi_ops env multi x st = (m, env') \<and>
      length (updaters (GetMultiXactIdMembers env multi)) \<le> 1 \<and>
      (ISUPDATE_from_mxstatus st \<longrightarrow> (\<forall>k\<in>set (updaters (GetMultiXactIdMembers env multi)). \<not> alive env (mxid k)))"
  let ?P = "\<lambda>k. TransactionIdIsInProgress env (mxid k) \<or> (ISUPDATE_from_mxstatus (mxstatus k) \<and> TransactionIdDidCommit env (mxid k))"
  have n: "GetMultiXactIdMembers env' m = \<lparr>mxid = x, mxstatus = st\<rparr> # filter ?P (GetMultiXactIdMembers env multi)"
    using * by (auto simp: demo_multi_ops_def)
  show "\<lparr>mxid = x, mxstatus = st\<rparr> \<in> set (GetMultiXactIdMembers env' m)" by (simp add: n)
  show "\<forall>k\<in>set (GetMultiXactIdMembers env multi). ?P k \<longrightarrow> k \<in> set (GetMultiXactIdMembers env' m)" by (simp add: n)
  show "set (GetMultiXactIdMembers env' m) \<subseteq> insert \<lparr>mxid = x, mxstatus = st\<rparr> (set (GetMultiXactIdMembers env multi))"
    by (auto simp: n)
  show "length (updaters (GetMultiXactIdMembers env' m)) \<le> 1"
    unfolding n using * by (intro demo_expanded_one) blast+
qed

lemma demo_new_xmax:
  "\<exists>env'. compute_new_xmax_infomask demo_multi_ops demo_xact (t_xmax (demo_header 10 30 0)) (t_infomask (demo_header 10 30 0))
     (t_infomask2 (demo_header 10 30 0)) 100 LockTupleKeyShare False = Inr ((7, 0x1040, 0), env')"
  by (subst compute_new_xmax_infomask.simps)
    (simp add: demo_header_def demo_xact_def demo_multi_ops_def HEAP_XMAX_IS_LOCKED_ONLY_def pair_xmax_def
      get_mxact_status_for_lock_def update_status_def GetMultiXactIdHintBits_def less_LockTupleMode_def)

theorem new_xmax_keeps_updater_witness:
  "\<exists>env'. compute_new_xmax_infomask demo_multi_ops demo_xact 30 0 0 100 LockTupleKeyShare False = Inr ((7, 0x1040, 0), env') \<and>
     updater_of env' 7 0x1040 = 30"
proof -
  obtain env' where e: "compute_new_xmax_infomask demo_multi_ops demo_xact (t_xmax (demo_header 10 30 0)) (t_infomask (demo_header 10 30 0))
     (t_infomask2 (demo_header 10 30 0)) 100 LockTupleKeyShare False = Inr ((7, 0x1040, 0), env')"
    using demo_new_xmax by blast
  have u: "updater demo_xact (demo_header 10 30 0) = 30"
    by (simp add: updater_def demo_header_def has_def HEAP_XMAX_IS_LOCKED_ONLY_def)
  then have u': "updater demo_xact (demo_header 10 30 0) \<noteq> 100" by simp
  have m: "has HEAP_XMAX_IS_MULTI (demo_header 10 30 0) \<longrightarrow> multi_header_ok demo_xact (t_xmax (demo_header 10 30 0)) (t_infomask (demo_header 10 30 0))"
    by (simp add: demo_header_def has_def)
  have n: "False \<longrightarrow> \<not> alive demo_xact (updater demo_xact (demo_header 10 30 0))" by simp
  have t: "tuple_ok demo_xact (demo_header 10 30 0)" using demo_tuple_ok by (simp add: demo_vis_def)
  have "keeps_updater demo_xact (updater demo_xact (demo_header 10 30 0)) 100 False (updater_of env' 7 0x1040)"
    by (rule new_xmax_keeps_updater [OF demo_xact_ok demo_multi_ok demo_multi_ops_ok t m n u' e])
  moreover have "alive demo_xact 30" by (simp add: alive_def demo_xact_def)
  ultimately have "updater_of env' 7 0x1040 = 30" by (simp add: keeps_updater_def u)
  with e show ?thesis by (auto simp: demo_header_def)
qed

lemma UpdateXmaxHintBits_good:
  assumes "xact_ok env" "tuple_ok env (vt s)" "\<not> has HEAP_XMAX_IS_MULTI (vt s)" "\<not> TransactionIdIsInProgress env (t_xmax (vt s))"
  shows "good_step env s (UpdateXmaxHintBits env (t_xmax (vt s)) s)"
proof -
  have "\<not> TransactionIdIsCurrentTransactionId env (t_xmax (vt s))"
    using assms(1,4) by (auto simp: xact_ok_def)
  with assms good_steps(3,4) [OF assms(2)] good_step_refl [OF assms(2)] updater_cases [of "vt s" env] xact_ok_zero [OF assms(1)]
  show ?thesis
    by (cases "HEAP_XMAX_IS_LOCKED_ONLY (t_infomask (vt s))")
      (auto simp: UpdateXmaxHintBits_def HeapTupleSetHintBits_def ended_committed_def gone_def)
qed

end
