(* ===== verification/PageLayout.thy ===== *)
theory PageLayout
  imports TupleStore HeapHeader
begin

text \<open>
  The layout of a heap page as the code of \<^verbatim>\<open>src/access/pg_tde_prune.c\<close> reads and writes it: the
  fields of the page header, the array of line pointers after it, and the tuples at the end. The
  offsets and the bits are those of the on-disk format of PostgreSQL 16 (\<^verbatim>\<open>storage/bufpage.h\<close>,
  \<^verbatim>\<open>storage/itemid.h\<close>) on a little-endian machine. A page is its bytes, and the lemmas about the
  accessors all come from the lemmas on byte ranges at the start.
\<close>

section \<open>Byte ranges\<close>

definition bytes_at :: "byte list \<Rightarrow> nat \<Rightarrow> nat \<Rightarrow> byte list" where
  "bytes_at buf a n = take n (drop a buf)"

definition write_at :: "byte list \<Rightarrow> nat \<Rightarrow> byte list \<Rightarrow> byte list" where
  "write_at buf a bs = take a buf @ bs @ drop (a + length bs) buf"

named_theorems range_simps \<open>byte ranges of a buffer after a write to it\<close>

lemma length_bytes_at [simp]: "a + n \<le> length buf \<Longrightarrow> length (bytes_at buf a n) = n"
  by (simp add: bytes_at_def)

lemma length_write_at [simp]: "a + length bs \<le> length buf \<Longrightarrow> length (write_at buf a bs) = length buf"
  by (simp add: write_at_def)

lemma nth_bytes_at: "i < n \<Longrightarrow> a + n \<le> length buf \<Longrightarrow> bytes_at buf a n ! i = buf ! (a + i)"
  by (simp add: bytes_at_def)

lemma nth_write_at:
  assumes "a + length bs \<le> length buf" "i < length buf"
  shows "write_at buf a bs ! i = (if a \<le> i \<and> i < a + length bs then bs ! (i - a) else buf ! i)"
  using assms by (auto simp: write_at_def nth_append)

lemma bytes_at_write_disjoint:
  assumes "a + length bs \<le> length buf" "b + n \<le> a \<or> a + length bs \<le> b"
  shows "bytes_at (write_at buf a bs) b n = bytes_at buf b n"
proof (rule nth_equalityI)
  show "length (bytes_at (write_at buf a bs) b n) = length (bytes_at buf b n)"
    using assms(1) by (simp add: bytes_at_def)
next
  fix i assume "i < length (bytes_at (write_at buf a bs) b n)"
  then have "i < n" "b + i < length buf"
    using assms(1) by (simp_all add: bytes_at_def less_diff_conv add.commute)
  moreover then have "write_at buf a bs ! (b + i) = buf ! (b + i)"
    using assms by (subst nth_write_at) auto
  ultimately show "bytes_at (write_at buf a bs) b n ! i = bytes_at buf b n ! i"
    using assms(1) by (simp add: bytes_at_def)
qed

lemma bytes_at_bytes_at: "i + m \<le> n \<Longrightarrow> bytes_at (bytes_at buf a n) i m = bytes_at buf (a + i) m"
  by (simp add: bytes_at_def drop_take min_absorb2 min_absorb1 add.commute)

lemma bytes_at_write_inside:
  assumes "a + length bs \<le> length buf" "a \<le> b" "b + n \<le> a + length bs"
  shows "bytes_at (write_at buf a bs) b n = bytes_at bs (b - a) n"
proof (rule nth_equalityI)
  show "length (bytes_at (write_at buf a bs) b n) = length (bytes_at bs (b - a) n)"
    using assms by (simp add: bytes_at_def)
next
  fix i assume "i < length (bytes_at (write_at buf a bs) b n)"
  then have "i < n"
    by (simp add: bytes_at_def)
  then have "write_at buf a bs ! (b + i) = bs ! (b + i - a)"
    using assms by (subst nth_write_at) auto
  then show "bytes_at (write_at buf a bs) b n ! i = bytes_at bs (b - a) n ! i"
    using assms \<open>i < n\<close> by (simp add: bytes_at_def)
qed

lemma bytes_at_write_same [simp]:
  "a + length bs \<le> length buf \<Longrightarrow> n = length bs \<Longrightarrow> bytes_at (write_at buf a bs) a n = bs"
  using bytes_at_write_inside [of a bs buf a n] by (simp add: bytes_at_def)

lemma bytes_at_add: "a + m \<le> length buf \<Longrightarrow> bytes_at buf a (m + n) = bytes_at buf a m @ bytes_at buf (a + m) n"
  by (simp add: bytes_at_def take_add add.commute)

section \<open>The page header\<close>

definition pd_flags :: "page \<Rightarrow> uint16" where
  "pd_flags pg = un_le (bytes_at pg 10 2)"

definition pd_lower :: "page \<Rightarrow> uint16" where
  "pd_lower pg = un_le (bytes_at pg 12 2)"

definition pd_special :: "page \<Rightarrow> uint16" where
  "pd_special pg = un_le (bytes_at pg 16 2)"

definition pd_prune_xid :: "page \<Rightarrow> uint32" where
  "pd_prune_xid pg = un_le (bytes_at pg 20 4)"

definition set_pd_flags :: "uint16 \<Rightarrow> page \<Rightarrow> page" where
  "set_pd_flags w pg = write_at pg 10 (le_bytes 2 w)"

definition set_pd_lower :: "uint16 \<Rightarrow> page \<Rightarrow> page" where
  "set_pd_lower w pg = write_at pg 12 (le_bytes 2 w)"

definition set_pd_upper :: "uint16 \<Rightarrow> page \<Rightarrow> page" where
  "set_pd_upper w pg = write_at pg 14 (le_bytes 2 w)"

definition set_pd_prune_xid :: "uint32 \<Rightarrow> page \<Rightarrow> page" where
  "set_pd_prune_xid w pg = write_at pg 20 (le_bytes 4 w)"

abbreviation (input) SizeOfPageHeaderData :: "'a::numeral" where "SizeOfPageHeaderData \<equiv> 24"
abbreviation (input) PD_HAS_FREE_LINES :: uint16 where "PD_HAS_FREE_LINES \<equiv> 1"
abbreviation (input) PD_PAGE_FULL :: uint16 where "PD_PAGE_FULL \<equiv> 2"
abbreviation (input) MaxHeapTuplesPerPage :: nat where "MaxHeapTuplesPerPage \<equiv> 291"

definition PageGetMaxOffsetNumber :: "page \<Rightarrow> nat" where
  "PageGetMaxOffsetNumber pg =
     (if unat (pd_lower pg) \<le> SizeOfPageHeaderData then 0 else (unat (pd_lower pg) - SizeOfPageHeaderData) div 4)"

definition PageSetHasFreeLinePointers :: "page \<Rightarrow> page" where
  "PageSetHasFreeLinePointers pg = set_pd_flags (pd_flags pg OR PD_HAS_FREE_LINES) pg"

definition PageClearHasFreeLinePointers :: "page \<Rightarrow> page" where
  "PageClearHasFreeLinePointers pg = set_pd_flags (pd_flags pg AND NOT PD_HAS_FREE_LINES) pg"

definition PageIsFull :: "page \<Rightarrow> bool" where
  "PageIsFull pg = (pd_flags pg AND PD_PAGE_FULL \<noteq> 0)"

definition PageClearFull :: "page \<Rightarrow> page" where
  "PageClearFull pg = set_pd_flags (pd_flags pg AND NOT PD_PAGE_FULL) pg"

section \<open>Line pointers\<close>

text \<open>
  A line pointer is a 32-bit word with three bit fields. \<^verbatim>\<open>PageGetItemId(page, i)\<close> for \<open>i \<ge> 1\<close> is
  the word at byte \<open>24 + 4 * (i - 1)\<close>; \<open>set_item_id\<close> is a store through that pointer.
\<close>

record ItemIdData =
  lp_off :: "15 word"
  lp_flags :: "2 word"
  lp_len :: "15 word"

abbreviation (input) LP_UNUSED :: "2 word" where "LP_UNUSED \<equiv> 0"
abbreviation (input) LP_NORMAL :: "2 word" where "LP_NORMAL \<equiv> 1"
abbreviation (input) LP_REDIRECT :: "2 word" where "LP_REDIRECT \<equiv> 2"
abbreviation (input) LP_DEAD :: "2 word" where "LP_DEAD \<equiv> 3"

definition item_id_of :: "uint32 \<Rightarrow> ItemIdData" where
  "item_id_of w = \<lparr>lp_off = ucast w, lp_flags = ucast (drop_bit 15 w), lp_len = ucast (drop_bit 17 w)\<rparr>"

definition item_id_word :: "ItemIdData \<Rightarrow> uint32" where
  "item_id_word lp = ucast (lp_off lp) OR push_bit 15 (ucast (lp_flags lp)) OR push_bit 17 (ucast (lp_len lp))"

definition PageGetItemId :: "page \<Rightarrow> nat \<Rightarrow> ItemIdData" where
  "PageGetItemId pg i = item_id_of (un_le (bytes_at pg (20 + 4 * i) 4))"

definition set_item_id :: "nat \<Rightarrow> ItemIdData \<Rightarrow> page \<Rightarrow> page" where
  "set_item_id i lp pg = write_at pg (20 + 4 * i) (le_bytes 4 (item_id_word lp))"

definition ItemIdIsUsed :: "ItemIdData \<Rightarrow> bool" where
  "ItemIdIsUsed lp = (lp_flags lp \<noteq> LP_UNUSED)"

definition ItemIdIsNormal :: "ItemIdData \<Rightarrow> bool" where
  "ItemIdIsNormal lp = (lp_flags lp = LP_NORMAL)"

definition ItemIdIsRedirected :: "ItemIdData \<Rightarrow> bool" where
  "ItemIdIsRedirected lp = (lp_flags lp = LP_REDIRECT)"

definition ItemIdIsDead :: "ItemIdData \<Rightarrow> bool" where
  "ItemIdIsDead lp = (lp_flags lp = LP_DEAD)"

definition ItemIdHasStorage :: "ItemIdData \<Rightarrow> bool" where
  "ItemIdHasStorage lp = (lp_len lp \<noteq> 0)"

definition unused_item :: ItemIdData where
  "unused_item = \<lparr>lp_off = 0, lp_flags = LP_UNUSED, lp_len = 0\<rparr>"

definition dead_item :: ItemIdData where
  "dead_item = \<lparr>lp_off = 0, lp_flags = LP_DEAD, lp_len = 0\<rparr>"

definition redirect_item :: "uint16 \<Rightarrow> ItemIdData" where
  "redirect_item link = \<lparr>lp_off = ucast link, lp_flags = LP_REDIRECT, lp_len = 0\<rparr>"

definition MAXALIGN :: "nat \<Rightarrow> nat" where
  "MAXALIGN n = (n + 7) div 8 * 8"

lemma item_id_roundtrip [simp]: "item_id_of (item_id_word lp) = lp"
proof -
  have f: "ucast (item_id_word lp) = lp_off lp"
    by (rule bit_word_eqI) (auto simp: item_id_word_def bit_simps dest: bit_imp_le_length)
  have g: "ucast (drop_bit 15 (item_id_word lp)) = lp_flags lp"
    by (rule bit_word_eqI) (auto simp: item_id_word_def bit_simps dest: bit_imp_le_length)
  have "ucast (drop_bit 17 (item_id_word lp)) = lp_len lp"
    by (rule bit_word_eqI) (auto simp: item_id_word_def bit_simps dest: bit_imp_le_length)
  with f g show ?thesis
    by (simp add: item_id_of_def)
qed

end
