(* ===== verification/Compact.thy ===== *)
theory Compact
  imports PageLayout
begin

text \<open>
  Defragmenting a heap page, \<^verbatim>\<open>TdePageRepairFragmentation\<close> and \<^verbatim>\<open>pgtde_compactify_tuples\<close> of
  \<^verbatim>\<open>src/access/pg_tde_prune.c\<close>. A tuple's data is encrypted with the keystream at the tuple's place
  in the file, so a tuple that is moved is decrypted for its old and encrypted for its new place.
  The model follows the code's three pointers \<open>upper\<close>, \<open>copy_head\<close> and \<open>copy_tail\<close>, the
  re-encryption of one tuple at a time in the buffer it is copied from, and the copy of a run of
  adjacent tuples at each gap, on the bytes of the page.

  The routine runs in a critical section, where an error ends the server: a failing step has no
  state. The fields of a line pointer have 15 bits, so the \<^verbatim>\<open>uint16\<close> and \<^verbatim>\<open>int16\<close> fields of
  \<^verbatim>\<open>itemIdCompactData\<close> hold them and are natural numbers here; \<open>upper\<close> can become negative.
\<close>

section \<open>The items\<close>

record itemIdCompactData =
  offsetindex :: nat
  itemoff :: nat
  item_len :: nat
  alignedlen :: nat

definition item_end :: "itemIdCompactData \<Rightarrow> nat" where
  "item_end it = itemoff it + alignedlen it"

text \<open>
  \<^verbatim>\<open>memmove\<close> and \<^verbatim>\<open>memcpy\<close> of \<open>n\<close> bytes: undefined outside the buffers, and for a negative
  length, which C takes as a huge one.
\<close>

definition memmove :: "byte list \<Rightarrow> int \<Rightarrow> byte list \<Rightarrow> int \<Rightarrow> int \<Rightarrow> byte list result" where
  "memmove dst to src start n =
     (if 0 \<le> n \<and> 0 \<le> to \<and> 0 \<le> start \<and> to + n \<le> int (length dst) \<and> start + n \<le> int (length src)
      then Inr (write_at dst (nat to) (bytes_at src (nat start) (nat n)))
      else Inl (Undefined ''copy outside the buffer''))"

section \<open>The state of a compaction\<close>

text \<open>
  \<open>cp_scratch\<close> is the stack buffer of the case that is not presorted. The four copies of the
  re-encryption block differ only in the buffer they work on: it reads and writes the data at
  \<open>copy_head\<close> and takes the length from \<open>itemidptr\<close>. The buffer is read and written at the same
  place; each batch is read before it is written.
\<close>

record 'c compaction =
  cp_page :: page
  cp_scratch :: "byte list"
  cp_keys :: "'c RelKeysData"
  cp_upper :: int
  cp_head :: nat
  cp_tail :: nat

definition recrypt_data ::
  "'c crypto_env \<Rightarrow> block_number \<Rightarrow> itemIdCompactData \<Rightarrow> 'c compaction \<Rightarrow> byte list
     \<Rightarrow> (byte list \<times> 'c RelKeysData) result" where
  "recrypt_data env bn itemidptr c buf =
     (if cp_head c < cp_tail c
      then (let header_size = 24;
                read_offset_in_page = of_nat (cp_head c);
                write_offset_in_page = of_int (cp_upper c);
                data_len = of_nat (item_len itemidptr) - of_nat header_size :: uint32;
                at = cp_head c + header_size
            in case PG_TDE_RE_ENCRYPT_TUPLE_DATA env bn read_offset_in_page (drop at buf)
                      bn write_offset_in_page (drop at buf) data_len (cp_keys c) of
                 (Inl e, k) \<Rightarrow> Inl e
               | (Inr out, k) \<Rightarrow> Inr (take at buf @ out, k))
      else Inr (buf, cp_keys c))"

definition set_lp_off :: "nat \<Rightarrow> int \<Rightarrow> page \<Rightarrow> page" where
  "set_lp_off i off pg = set_item_id i ((PageGetItemId pg i)\<lparr>lp_off := of_int off\<rparr>) pg"

text \<open>The end of an iteration: \<open>upper\<close> and \<open>copy_head\<close> move on and the line pointer is set.\<close>

definition next_item :: "itemIdCompactData \<Rightarrow> 'c compaction \<Rightarrow> 'c compaction" where
  "next_item it c =
     (let up = cp_upper c - int (alignedlen it)
      in c\<lparr>cp_upper := up, cp_head := itemoff it,
           cp_page := set_lp_off (offsetindex it + 1) up (cp_page c)\<rparr>)"

fun compact_loop ::
  "(itemIdCompactData \<Rightarrow> 'c compaction \<Rightarrow> 'c compaction result) \<Rightarrow> itemIdCompactData list
     \<Rightarrow> 'c compaction \<Rightarrow> 'c compaction result" where
  "compact_loop step [] c = Inr c"
| "compact_loop step (it # its) c =
     (case step it c of Inl e \<Rightarrow> Inl e | Inr c' \<Rightarrow> compact_loop step its c')"

text \<open>
  The loop that skips the items already in place: the new \<open>upper\<close>, the item \<open>itemidptr\<close> is left
  at, and the items still to be handled.
\<close>

fun skip_in_place ::
  "itemIdCompactData \<Rightarrow> itemIdCompactData list \<Rightarrow> int \<Rightarrow> int \<times> itemIdCompactData \<times> itemIdCompactData list" where
  "skip_in_place it rest up =
     (if up \<noteq> int (item_end it) then (up, it, it # rest)
      else (case rest of
              [] \<Rightarrow> (up - int (alignedlen it), it, [])
            | it' # rest' \<Rightarrow> skip_in_place it' rest' (up - int (alignedlen it))))"

section \<open>Presorted items\<close>

definition presorted_step ::
  "'c crypto_env \<Rightarrow> block_number \<Rightarrow> itemIdCompactData \<Rightarrow> 'c compaction \<Rightarrow> 'c compaction result" where
  "presorted_step env bn it c =
     (case recrypt_data env bn it c (cp_page c) of
        Inl e \<Rightarrow> Inl e
      | Inr (pg, k) \<Rightarrow>
          (let c = c\<lparr>cp_page := pg, cp_keys := k\<rparr>
           in if cp_head c \<noteq> item_end it \<and> cp_head c < cp_tail c
              then (case memmove pg (cp_upper c) pg (int (cp_head c)) (int (cp_tail c) - int (cp_head c)) of
                      Inl e \<Rightarrow> Inl e
                    | Inr pg' \<Rightarrow> Inr (next_item it (c\<lparr>cp_page := pg', cp_tail := item_end it\<rparr>)))
              else Inr (next_item it c)))"

definition presorted_end ::
  "'c crypto_env \<Rightarrow> block_number \<Rightarrow> itemIdCompactData \<Rightarrow> 'c compaction \<Rightarrow> 'c compaction result" where
  "presorted_end env bn itemidptr c =
     (case recrypt_data env bn itemidptr c (cp_page c) of
        Inl e \<Rightarrow> Inl e
      | Inr (pg, k) \<Rightarrow>
          (case memmove pg (cp_upper c) pg (int (cp_head c)) (int (cp_tail c) - int (cp_head c)) of
             Inl e \<Rightarrow> Inl e
           | Inr pg' \<Rightarrow> Inr (c\<lparr>cp_page := pg', cp_keys := k\<rparr>)))"

definition compact_presorted ::
  "'c crypto_env \<Rightarrow> block_number \<Rightarrow> itemIdCompactData \<Rightarrow> itemIdCompactData list \<Rightarrow> 'c compaction
     \<Rightarrow> 'c compaction result" where
  "compact_presorted env bn it rest c =
     (case skip_in_place it rest (int (unat (pd_special (cp_page c)))) of
        (up, itemidptr, todo) \<Rightarrow>
          (case compact_loop (presorted_step env bn) todo
                  (c\<lparr>cp_upper := up, cp_head := item_end itemidptr, cp_tail := item_end itemidptr\<rparr>) of
             Inl e \<Rightarrow> Inl e
           | Inr c' \<Rightarrow> presorted_end env bn (last (itemidptr # todo)) c'))"

section \<open>Items in any order\<close>

definition scratch_step ::
  "'c crypto_env \<Rightarrow> block_number \<Rightarrow> itemIdCompactData \<Rightarrow> 'c compaction \<Rightarrow> 'c compaction result" where
  "scratch_step env bn it c =
     (case recrypt_data env bn it c (cp_scratch c) of
        Inl e \<Rightarrow> Inl e
      | Inr (sc, k) \<Rightarrow>
          (let c = c\<lparr>cp_scratch := sc, cp_keys := k\<rparr>
           in if cp_head c \<noteq> item_end it
              then (case memmove (cp_page c) (cp_upper c) sc (int (cp_head c)) (int (cp_tail c) - int (cp_head c)) of
                      Inl e \<Rightarrow> Inl e
                    | Inr pg' \<Rightarrow> Inr (next_item it (c\<lparr>cp_page := pg', cp_tail := item_end it\<rparr>)))
              else Inr (next_item it c)))"

definition scratch_end ::
  "'c crypto_env \<Rightarrow> block_number \<Rightarrow> itemIdCompactData \<Rightarrow> 'c compaction \<Rightarrow> 'c compaction result" where
  "scratch_end env bn itemidptr c =
     (case recrypt_data env bn itemidptr c (cp_scratch c) of
        Inl e \<Rightarrow> Inl e
      | Inr (sc, k) \<Rightarrow>
          (case memmove (cp_page c) (cp_upper c) sc (int (cp_head c)) (int (cp_tail c) - int (cp_head c)) of
             Inl e \<Rightarrow> Inl e
           | Inr pg' \<Rightarrow> Inr (c\<lparr>cp_page := pg', cp_scratch := sc, cp_keys := k\<rparr>)))"

fun copy_items :: "page \<Rightarrow> itemIdCompactData list \<Rightarrow> byte list \<Rightarrow> byte list result" where
  "copy_items pg [] scratch = Inr scratch"
| "copy_items pg (it # its) scratch =
     (case memmove scratch (int (itemoff it)) pg (int (itemoff it)) (int (alignedlen it)) of
        Inl e \<Rightarrow> Inl e
      | Inr scratch' \<Rightarrow> copy_items pg its scratch')"

text \<open>
  With few items left on the page each is copied to the scratch buffer by itself; otherwise the
  items in place are skipped and everything else is copied at once.
\<close>

definition fill_scratch ::
  "page \<Rightarrow> itemIdCompactData \<Rightarrow> itemIdCompactData list \<Rightarrow> byte list
     \<Rightarrow> (byte list \<times> int \<times> itemIdCompactData \<times> itemIdCompactData list) result" where
  "fill_scratch pg it rest scratch =
     (let special = int (unat (pd_special pg))
      in if length (it # rest) < PageGetMaxOffsetNumber pg div 4
         then (case copy_items pg (it # rest) scratch of
                 Inl e \<Rightarrow> Inl e
               | Inr scratch' \<Rightarrow> Inr (scratch', special, it, it # rest))
         else (case skip_in_place it rest special of
                 (up, itemidptr, todo) \<Rightarrow>
                   (case memmove scratch (int (unat (pd_upper pg))) pg (int (unat (pd_upper pg)))
                           (up - int (unat (pd_upper pg))) of
                      Inl e \<Rightarrow> Inl e
                    | Inr scratch' \<Rightarrow> Inr (scratch', up, itemidptr, todo))))"

definition compact_scratch ::
  "'c crypto_env \<Rightarrow> block_number \<Rightarrow> itemIdCompactData \<Rightarrow> itemIdCompactData list \<Rightarrow> 'c compaction
     \<Rightarrow> 'c compaction result" where
  "compact_scratch env bn it rest c =
     (case fill_scratch (cp_page c) it rest (cp_scratch c) of
        Inl e \<Rightarrow> Inl e
      | Inr (scratch, up, itemidptr, todo) \<Rightarrow>
          (case compact_loop (scratch_step env bn) todo
                  (c\<lparr>cp_scratch := scratch, cp_upper := up, cp_head := item_end itemidptr,
                     cp_tail := item_end itemidptr\<rparr>) of
             Inl e \<Rightarrow> Inl e
           | Inr c' \<Rightarrow> scratch_end env bn (last (itemidptr # todo)) c'))"

section \<open>Compaction and repair\<close>

definition pgtde_compactify_tuples ::
  "('c, 'w) tde_env \<Rightarrow> RelFileLocator \<Rightarrow> block_number \<Rightarrow> itemIdCompactData list \<Rightarrow> bool
     \<Rightarrow> (('c, 'w) tde_state \<times> page, unit) cmd" where
  "pgtde_compactify_tuples env rel bn itemidbase presorted sp =
     (case sp of (s, pg) \<Rightarrow>
      (case GetRelationKeys env rel s of
         (Inl e, s') \<Rightarrow> (Inl e, (s', pg))
       | (Inr p, s') \<Rightarrow>
           (case itemidbase of
              [] \<Rightarrow> (Inl (Undefined ''no items''), (s', pg))
            | it # rest \<Rightarrow>
                (let c = \<lparr>cp_page = pg, cp_scratch = stack_array (te_crypto env) ''scratch'' BLCKSZ,
                          cp_keys = td_heap s' ! p, cp_upper = 0, cp_head = 0, cp_tail = 0\<rparr>
                 in case (if presorted then compact_presorted (te_crypto env) bn it rest c
                          else compact_scratch (te_crypto env) bn it rest c) of
                      Inl e \<Rightarrow> (Inl e, (s', pg))
                    | Inr c' \<Rightarrow>
                        (Inr (), (set_keys p (cp_keys c') s',
                                  set_pd_upper (of_int (cp_upper c')) (cp_page c')))))))"

text \<open>What the scan of the line pointers collects.\<close>

record repair =
  rp_page :: page
  rp_items :: "itemIdCompactData list"
  rp_last_offset :: nat
  rp_presorted :: bool
  rp_nunused :: nat
  rp_finalusedlp :: nat
  rp_totallen :: nat

definition compact_item :: "nat \<Rightarrow> ItemIdData \<Rightarrow> itemIdCompactData" where
  "compact_item i lp =
     \<lparr>offsetindex = i - 1, itemoff = unat (lp_off lp), item_len = unat (lp_len lp),
      alignedlen = MAXALIGN (unat (lp_len lp))\<rparr>"

definition collect_item :: "nat \<Rightarrow> nat \<Rightarrow> nat \<Rightarrow> (repair, unit) cmd" where
  "collect_item upper special i r =
     (let lp = PageGetItemId (rp_page r) i; it = compact_item i lp
      in if ItemIdIsUsed lp
         then if ItemIdHasStorage lp
              then if length (rp_items r) \<ge> MaxHeapTuplesPerPage
                   then (Inl (Undefined ''store outside itemidbase''), r)
                   else if itemoff it < upper \<or> itemoff it \<ge> special
                   then (Inl (Ereport ERROR ''corrupted line pointer''), r)
                   else (Inr (), r\<lparr>rp_items := rp_items r @ [it],
                                   rp_presorted := (rp_presorted r \<and> rp_last_offset r > itemoff it),
                                   rp_last_offset := min (rp_last_offset r) (itemoff it),
                                   rp_totallen := rp_totallen r + alignedlen it,
                                   rp_finalusedlp := i\<rparr>)
              else (Inr (), r\<lparr>rp_finalusedlp := i\<rparr>)
         else (Inr (), r\<lparr>rp_page := set_item_id i unused_item (rp_page r), rp_nunused := rp_nunused r + 1\<rparr>))"

fun collect_items :: "nat \<Rightarrow> nat \<Rightarrow> nat list \<Rightarrow> (repair, unit) cmd" where
  "collect_items upper special [] r = (Inr (), r)"
| "collect_items upper special (i # is) r =
     (case collect_item upper special i r of
        (Inl e, r') \<Rightarrow> (Inl e, r')
      | (Inr u, r') \<Rightarrow> collect_items upper special is r')"

text \<open>
  The end of the repair: unused line pointers at the end of the array are given back and the hint
  bit says whether there are others.
\<close>

definition truncate_lps :: "nat \<Rightarrow> repair \<Rightarrow> page \<Rightarrow> page" where
  "truncate_lps nline r pg =
     (let nunusedend = nline - rp_finalusedlp r;
          pg = (if rp_finalusedlp r \<noteq> nline then set_pd_lower (pd_lower pg - of_nat (4 * nunusedend)) pg else pg);
          nunused = (if rp_finalusedlp r \<noteq> nline then rp_nunused r - nunusedend else rp_nunused r)
      in if nunused > 0 then PageSetHasFreeLinePointers pg else PageClearHasFreeLinePointers pg)"

definition TdePageRepairFragmentation ::
  "('c, 'w) tde_env \<Rightarrow> RelFileLocator \<Rightarrow> block_number \<Rightarrow> (('c, 'w) tde_state \<times> page, unit) cmd" where
  "TdePageRepairFragmentation env rel bn sp =
     (case sp of (s, pg) \<Rightarrow>
      (let lower = unat (pd_lower pg); upper = unat (pd_upper pg); special = unat (pd_special pg);
           nline = PageGetMaxOffsetNumber pg
       in if lower < SizeOfPageHeaderData \<or> lower > upper \<or> upper > special \<or> special > BLCKSZ
             \<or> special \<noteq> MAXALIGN special
          then (Inl (Ereport ERROR ''corrupted page pointers''), (s, pg))
          else
            (case collect_items upper special [1..<Suc nline]
                    \<lparr>rp_page = pg, rp_items = [], rp_last_offset = special, rp_presorted = True,
                     rp_nunused = 0, rp_finalusedlp = 0, rp_totallen = 0\<rparr> of
               (Inl e, r) \<Rightarrow> (Inl e, (s, rp_page r))
             | (Inr u, r) \<Rightarrow>
                 (case (if rp_items r = []
                        then (Inr (), (s, set_pd_upper (pd_special pg) (rp_page r)))
                        else if rp_totallen r > special - lower
                        then (Inl (Ereport ERROR ''corrupted item lengths''), (s, rp_page r))
                        else pgtde_compactify_tuples env rel bn (rp_items r) (rp_presorted r) (s, rp_page r)) of
                    (Inl e, sp') \<Rightarrow> (Inl e, sp')
                  | (Inr u, (s', pg')) \<Rightarrow> (Inr (), (s', truncate_lps nline r pg'))))))"

section \<open>One tuple moved\<close>

text \<open>
  The position of an offset of the page in the file, and the bytes of a tuple of which the first
  \<open>n\<close> bytes less the header have been encrypted anew.
\<close>

definition place :: "block_number \<Rightarrow> nat \<Rightarrow> nat" where
  "place bn off = unat (offset_in_file bn (of_nat off))"

definition recrypted :: "(nat \<Rightarrow> byte) \<Rightarrow> block_number \<Rightarrow> nat \<Rightarrow> nat \<Rightarrow> byte list \<Rightarrow> byte list" where
  "recrypted st bn from_off to_off bs = ctr_xor st (place bn to_off) (ctr_xor st (place bn from_off) bs)"

definition moved_bytes :: "(nat \<Rightarrow> byte) \<Rightarrow> block_number \<Rightarrow> nat \<Rightarrow> nat \<Rightarrow> nat \<Rightarrow> byte list \<Rightarrow> byte list" where
  "moved_bytes st bn from_off to_off n bs =
     take 24 bs @ recrypted st bn from_off to_off (take (n - 24) (drop 24 bs)) @ drop n bs"

lemma length_recrypted [simp]: "length (recrypted st bn a b bs) = length bs"
  by (simp add: recrypted_def)

lemma length_moved_bytes [simp]: "24 \<le> n \<Longrightarrow> n \<le> length bs \<Longrightarrow> length (moved_bytes st bn a b n bs) = length bs"
  by (simp add: moved_bytes_def)

lemma recrypt_data_result:
  assumes ok: "session_ok (env, E, ready, cp_keys c)"
    and "cp_head c < cp_tail c" "24 \<le> item_len it" "cp_head c + item_len it \<le> length buf" "length buf = 8192"
    and "cp_upper c = int u" "u \<le> 8192"
  obtains k where "recrypt_data env bn it c buf =
      Inr (write_at buf (cp_head c + 24)
             (recrypted (session_stream (env, E, ready, cp_keys c)) bn (cp_head c) u
               (bytes_at buf (cp_head c + 24) (item_len it - 24))), k)"
    "session_ok (env, E, ready, k)"
    "session_stream (env, E, ready, k) = session_stream (env, E, ready, cp_keys c)"
proof -
  let ?n = "item_len it" and ?h = "cp_head c" and ?st = "session_stream (env, E, ready, cp_keys c)"
  let ?len = "of_nat ?n - 24 :: uint32" and ?rd = "drop (?h + 24) buf"
  let ?r = "offset_in_file bn (of_nat ?h)" and ?w = "offset_in_file bn (of_int (int u))"
  have "unat (of_nat ?n :: uint32) = ?n"
    using assms(4,5) by (intro unat_of_nat_lt) simp
  then have len: "unat ?len = ?n - 24"
    using assms(3) by (subst unat_sub) (simp_all add: word_le_nat_alt)
  have uh: "unat (of_nat ?h :: uint64) = ?h" "unat (of_nat u :: uint64) = u"
    using assms(4,5,7) by (intro unat_of_nat_lt, simp)+
  have fits: "crypt_fits ?r ?len" "crypt_fits ?w ?len"
    using assms(4,5,7) len uh by (intro offset_in_file_fits, simp_all)+
  have "\<exists>k. move_loop env ?r ?rd ?w ?len ?len 0 (stack_array env ''decrypted'' 1600) ?rd (cp_keys c) =
      (Inr (take (unat (0 :: uint32)) ?rd @ ctr_xor ?st (unat ?w + unat (0 :: uint32)) (ctr_xor ?st (unat ?r + unat (0 :: uint32)) (take (unat ?len) (drop (unat (0 :: uint32)) ?rd))) @
            drop (unat ?len) ?rd), k)
    \<and> session_ok (env, E, ready, k) \<and> session_stream (env, E, ready, k) = ?st"
    by (rule move_loop_result [OF ok fits]) (use assms(3-5) len in auto)
  then obtain k where k: "move_loop env ?r ?rd ?w ?len ?len 0 (stack_array env ''decrypted'' 1600) ?rd (cp_keys c) =
      (Inr (ctr_xor ?st (unat ?w) (ctr_xor ?st (unat ?r) (take (?n - 24) ?rd)) @ drop (?n - 24) ?rd), k)"
    "session_ok (env, E, ready, k)" "session_stream (env, E, ready, k) = ?st"
    by (auto simp: len)
  have "length (take (?n - 24) ?rd) = ?n - 24"
    using assms(3-5) by simp
  then have "recrypt_data env bn it c buf = Inr (write_at buf (?h + 24) (recrypted ?st bn ?h u (bytes_at buf (?h + 24) (?n - 24))), k)"
    using assms(2,6) k(1)
    by (simp add: recrypt_data_def PG_TDE_RE_ENCRYPT_TUPLE_DATA_def pg_tde_move_encrypted_data_def write_at_def
        recrypted_def place_def bytes_at_def Let_def add.commute add.left_commute)
  with k(2,3) show thesis
    using that by blast
qed

lemma write_recrypted:
  assumes "24 \<le> n" "n \<le> al" "h + al \<le> length buf"
  shows "bytes_at (write_at buf (h + 24) (recrypted st bn h u (bytes_at buf (h + 24) (n - 24)))) h al =
     moved_bytes st bn h u n (bytes_at buf h al)"
proof -
  let ?bs = "recrypted st bn h u (bytes_at buf (h + 24) (n - 24))"
  have l: "length (bytes_at buf (h + 24) (n - 24)) = n - 24" "length ?bs = n - 24"
    using assms by (simp_all add: bytes_at_def)
  have al: "al = 24 + ((n - 24) + (al - n))"
    using assms(1,2) by simp
  have lw: "length (write_at buf (h + 24) ?bs) = length buf"
    using assms l(2) by simp
  have "bytes_at (write_at buf (h + 24) ?bs) h al =
      bytes_at (write_at buf (h + 24) ?bs) h 24 @ bytes_at (write_at buf (h + 24) ?bs) (h + 24) (n - 24) @
      bytes_at (write_at buf (h + 24) ?bs) (h + 24 + (n - 24)) (al - n)"
    using assms lw by (subst al, subst bytes_at_add, simp, subst bytes_at_add) simp_all
  also have "\<dots> = bytes_at buf h 24 @ ?bs @ bytes_at buf (h + n) (al - n)"
    using assms l by (simp add: bytes_at_write_disjoint)
  also have "\<dots> = moved_bytes st bn h u n (bytes_at buf h al)"
    using assms by (simp add: moved_bytes_def bytes_at_def drop_take min_absorb1 min_absorb2 add.commute)
  finally show ?thesis .
qed

section \<open>The loop, for either buffer\<close>

text \<open>
  The two loops differ in the buffer the tuples are copied from: the page itself, in which only
  items below the target may still be waiting, or a separate buffer. The proof is done once, for a
  source buffer with the following laws.
\<close>

definition holds :: "byte list \<Rightarrow> (nat \<times> byte list) list \<Rightarrow> bool" where
  "holds buf xs \<longleftrightarrow> (\<forall>(a, bs)\<in>set xs. bytes_at buf a (length bs) = bs)"

text \<open>Items do not share storage; in descending order, one ends where the one before starts.\<close>

definition apart :: "bool \<Rightarrow> itemIdCompactData \<Rightarrow> itemIdCompactData \<Rightarrow> bool" where
  "apart separate p q \<longleftrightarrow> item_end q \<le> itemoff p \<or> (separate \<and> item_end p \<le> itemoff q)"

text \<open>The length used for an item is that of the item after it, the last item's its own.\<close>

fun lengths_fit :: "itemIdCompactData \<Rightarrow> itemIdCompactData list \<Rightarrow> bool" where
  "lengths_fit p [] = (24 \<le> item_len p \<and> item_len p \<le> alignedlen p)"
| "lengths_fit p (it # its) = (24 \<le> item_len it \<and> item_len it \<le> alignedlen p \<and> lengths_fit it its)"

fun expected :: "(nat \<Rightarrow> byte) \<Rightarrow> block_number \<Rightarrow> byte list \<Rightarrow> nat \<Rightarrow> itemIdCompactData \<Rightarrow> itemIdCompactData list
     \<Rightarrow> (nat \<times> byte list) list" where
  "expected st bn S u p [] =
     [(u, moved_bytes st bn (itemoff p) u (item_len p) (bytes_at S (itemoff p) (alignedlen p)))]"
| "expected st bn S u p (it # its) =
     (u, moved_bytes st bn (itemoff p) u (item_len it) (bytes_at S (itemoff p) (alignedlen p))) #
     expected st bn S (u - alignedlen it) it its"

fun new_offsets :: "nat \<Rightarrow> itemIdCompactData list \<Rightarrow> (nat \<times> nat) list" where
  "new_offsets u [] = []"
| "new_offsets u (it # its) = (offsetindex it + 1, u - alignedlen it) # new_offsets (u - alignedlen it) its"

definition total_len :: "itemIdCompactData list \<Rightarrow> nat" where
  "total_len its = sum_list (map alignedlen its)"

text \<open>What lies below \<open>low\<close> stays, apart from the offsets in the line pointers.\<close>

definition lp_updated :: "nat \<Rightarrow> (nat \<times> nat) list \<Rightarrow> page \<Rightarrow> page \<Rightarrow> bool" where
  "lp_updated low us pg pg' \<longleftrightarrow>
     length pg' = length pg \<and> bytes_at pg' 0 24 = bytes_at pg 0 24 \<and>
     (\<forall>j. 1 \<le> j \<and> 24 + 4 * j \<le> low \<longrightarrow>
        PageGetItemId pg' j = (case map_of us j of None \<Rightarrow> PageGetItemId pg j
                               | Some a \<Rightarrow> (PageGetItemId pg j)\<lparr>lp_off := of_nat a\<rparr>))"

text \<open>
  The invariant between two iterations. Item \<open>p\<close> was handled last; \<open>placed\<close> lists what lies at its
  final place, \<open>pending\<close> what is already encrypted for its final place and waits to be copied in
  one run that starts at \<open>p\<close>.
\<close>

definition waiting_ok :: "bool \<Rightarrow> nat \<Rightarrow> byte list \<Rightarrow> byte list \<Rightarrow> itemIdCompactData \<Rightarrow> itemIdCompactData list \<Rightarrow> bool" where
  "waiting_ok separate low B S p its \<longleftrightarrow>
     (\<forall>q\<in>set its. bytes_at B (itemoff q) (alignedlen q) = bytes_at S (itemoff q) (alignedlen q) \<and>
        low \<le> itemoff q \<and> item_end q \<le> 8192 \<and> 28 + 4 * offsetindex q \<le> low) \<and>
     sorted_wrt (apart separate) (p # its)"

definition run_ok :: "bool \<Rightarrow> nat \<Rightarrow> byte list \<Rightarrow> page \<Rightarrow> nat \<Rightarrow> nat \<Rightarrow> itemIdCompactData \<Rightarrow> itemIdCompactData list
     \<Rightarrow> (nat \<times> byte list) list \<Rightarrow> bool" where
  "run_ok separate low B P u tail p its placed \<longleftrightarrow>
     length B = 8192 \<and> length P = 8192 \<and> item_end p \<le> tail \<and> tail \<le> 8192 \<and>
     u + (tail - itemoff p) \<le> 8192 \<and> (separate \<or> itemoff p \<le> u) \<and>
     low \<le> itemoff p \<and> low + total_len its \<le> u \<and>
     holds P placed \<and> (\<forall>(a, bs)\<in>set placed. u + (tail - itemoff p) \<le> a)"

definition pending_ok :: "nat \<Rightarrow> byte list \<Rightarrow> nat \<Rightarrow> nat \<Rightarrow> itemIdCompactData \<Rightarrow> (nat \<times> byte list) list \<Rightarrow> bool" where
  "pending_ok skip B u tail p pending \<longleftrightarrow>
     (\<forall>(a, bs)\<in>set pending. bytes_at B (itemoff p + (a - u)) (length bs) = bs \<and> u + skip \<le> a \<and>
        a + length bs \<le> u + (tail - itemoff p))"

locale copy_source =
  fixes src :: "'c compaction \<Rightarrow> byte list"
    and put_src :: "byte list \<Rightarrow> 'c compaction \<Rightarrow> 'c compaction"
    and separate :: bool
    and step finish :: "'c crypto_env \<Rightarrow> block_number \<Rightarrow> itemIdCompactData \<Rightarrow> 'c compaction \<Rightarrow> 'c compaction result"
  assumes src_put [simp]: "src (put_src b c) = b"
    and put_same [simp]: "put_src (src c) c = c"
    and put_sel [simp]: "cp_keys (put_src b c) = cp_keys c" "cp_upper (put_src b c) = cp_upper c"
      "cp_head (put_src b c) = cp_head c" "cp_tail (put_src b c) = cp_tail c"
    and src_frame [simp]: "src (c\<lparr>cp_keys := k\<rparr>) = src c" "src (c\<lparr>cp_upper := u\<rparr>) = src c"
      "src (c\<lparr>cp_head := h\<rparr>) = src c" "src (c\<lparr>cp_tail := h\<rparr>) = src c"
    and page_put: "separate \<or> bytes_at b a n = bytes_at (src c) a n \<Longrightarrow> bytes_at (cp_page (put_src b c)) a n = bytes_at (cp_page c) a n"
    and page_put_length: "length b = length (src c) \<Longrightarrow> length (cp_page (put_src b c)) = length (cp_page c)"
    and src_page: "w + length bs \<le> length (cp_page c) \<Longrightarrow> a + n \<le> w \<or> w + length bs \<le> a \<or> separate \<Longrightarrow>
      bytes_at (src (c\<lparr>cp_page := write_at (cp_page c) w bs\<rparr>)) a n = bytes_at (src c) a n"
    and src_page_length: "length pg = length (cp_page c) \<Longrightarrow> length (src (c\<lparr>cp_page := pg\<rparr>)) = length (src c)"
    and step_eq: "step env bn it c =
      (case recrypt_data env bn it c (src c) of
         Inl e \<Rightarrow> Inl e
       | Inr (b, k) \<Rightarrow>
           (let c = put_src b (c\<lparr>cp_keys := k\<rparr>)
            in if cp_head c \<noteq> item_end it \<and> (separate \<or> cp_head c < cp_tail c)
               then (case memmove (cp_page c) (cp_upper c) b (int (cp_head c)) (int (cp_tail c) - int (cp_head c)) of
                       Inl e \<Rightarrow> Inl e
                     | Inr pg' \<Rightarrow> Inr (next_item it (c\<lparr>cp_page := pg', cp_tail := item_end it\<rparr>)))
               else Inr (next_item it c)))"
    and finish_eq: "finish env bn it c =
      (case recrypt_data env bn it c (src c) of
         Inl e \<Rightarrow> Inl e
       | Inr (b, k) \<Rightarrow>
           (let c = put_src b (c\<lparr>cp_keys := k\<rparr>)
            in case memmove (cp_page c) (cp_upper c) b (int (cp_head c)) (int (cp_tail c) - int (cp_head c)) of
                 Inl e \<Rightarrow> Inl e
               | Inr pg' \<Rightarrow> Inr (c\<lparr>cp_page := pg'\<rparr>)))"

lemma keys_swap:
  "c\<lparr>cp_keys := k, cp_page := b\<rparr> = c\<lparr>cp_page := b, cp_keys := k\<rparr>"
  "c\<lparr>cp_keys := k, cp_scratch := b\<rparr> = c\<lparr>cp_scratch := b, cp_keys := k\<rparr>"
  by (cases c, simp)+

interpretation in_page: copy_source cp_page "\<lambda>b c. c\<lparr>cp_page := b\<rparr>" False presorted_step presorted_end
  by unfold_locales
    (auto simp: presorted_step_def presorted_end_def bytes_at_write_disjoint keys_swap Let_def split: sum.split)

interpretation in_scratch: copy_source cp_scratch "\<lambda>b c. c\<lparr>cp_scratch := b\<rparr>" True scratch_step scratch_end
  by unfold_locales
    (auto simp: scratch_step_def scratch_end_def keys_swap Let_def split: sum.split)

lemma lp_updated_keep:
  assumes "length pg' = length pg" "24 \<le> low" "\<And>a n. a + n \<le> low \<Longrightarrow> bytes_at pg' a n = bytes_at pg a n"
  shows "lp_updated low [] pg pg'"
  using assms by (simp add: lp_updated_def PageGetItemId_def)

lemma PageGetItemId_write:
  assumes "a + length bs \<le> length pg" "24 + 4 * j \<le> a \<or> a + length bs \<le> 20 + 4 * j"
  shows "PageGetItemId (write_at pg a bs) j = PageGetItemId pg j"
  using assms by (simp add: PageGetItemId_def bytes_at_write_disjoint)

lemma PageGetItemId_set:
  assumes "1 \<le> i" "24 + 4 * i \<le> length pg" "1 \<le> j"
  shows "PageGetItemId (set_item_id i lp pg) j = (if j = i then lp else PageGetItemId pg j)"
proof (cases "j = i")
  case True
  then show ?thesis
    using assms by (simp add: PageGetItemId_def set_item_id_def)
next
  case False
  then have "24 + 4 * j \<le> 20 + 4 * i \<or> 20 + 4 * i + 4 \<le> 20 + 4 * j"
    by linarith
  then show ?thesis
    using assms False unfolding set_item_id_def by (subst PageGetItemId_write) auto
qed

lemma lp_updated_set:
  assumes "28 + 4 * oi \<le> low" "low \<le> length pg" "up = int a"
  shows "lp_updated low [(oi + 1, a)] pg (set_lp_off (oi + 1) up pg)"
proof -
  let ?lp = "(PageGetItemId pg (oi + 1))\<lparr>lp_off := of_int up\<rparr>"
  have "bytes_at (set_item_id (oi + 1) ?lp pg) 0 24 = bytes_at pg 0 24"
    using assms(1,2) unfolding set_item_id_def by (subst bytes_at_write_disjoint) auto
  moreover have "length (set_item_id (oi + 1) ?lp pg) = length pg"
    using assms(1,2) by (simp add: set_item_id_def)
  ultimately show ?thesis
    using assms by (auto simp: lp_updated_def set_lp_off_def PageGetItemId_set)
qed

lemma lp_updated_trans:
  assumes "lp_updated low us pg pg1" "lp_updated low vs pg1 pg2" "fst ` set us \<inter> fst ` set vs = {}"
  shows "lp_updated low (us @ vs) pg pg2"
proof -
  have "map_of us j = None \<or> map_of vs j = None" for j
    using assms(3) unfolding map_of_eq_None_iff by blast
  then show ?thesis
    using assms(1,2) unfolding lp_updated_def map_of_append map_add_def
    by (auto split: option.splits) (metis option.distinct(1))+
qed

context copy_source
begin

lemma recrypt_step:
  assumes ok: "session_ok (env, E, ready, cp_keys c)" and c: "cp_upper c = int u" "cp_head c = itemoff p"
    and run: "run_ok separate low (src c) (cp_page c) u (cp_tail c) p its placed" "24 \<le> low"
    and pend: "pending_ok (alignedlen p) (src c) u (cp_tail c) p pending"
    and wait: "waiting_ok separate low (src c) S p its"
    and p: "bytes_at (src c) (itemoff p) (alignedlen p) = bytes_at S (itemoff p) (alignedlen p)"
    and len: "24 \<le> item_len it" "item_len it \<le> alignedlen p"
  obtains b k where "recrypt_data env bn it c (src c) = Inr (b, k)"
    "session_ok (env, E, ready, k)" "session_stream (env, E, ready, k) = session_stream (env, E, ready, cp_keys c)"
    "run_ok separate low b (cp_page (put_src b (c\<lparr>cp_keys := k\<rparr>))) u (cp_tail c) p its placed"
    "pending_ok 0 b u (cp_tail c) p (pending @ [(u, moved_bytes (session_stream (env, E, ready, cp_keys c)) bn
        (itemoff p) u (item_len it) (bytes_at S (itemoff p) (alignedlen p)))])"
    "waiting_ok separate low b S p its"
    "lp_updated low [] (cp_page c) (cp_page (put_src b (c\<lparr>cp_keys := k\<rparr>)))"
proof -
  let ?st = "session_stream (env, E, ready, cp_keys c)" and ?h = "itemoff p" and ?n = "item_len it"
  let ?R = "recrypted ?st bn ?h u (bytes_at (src c) (?h + 24) (?n - 24))"
  let ?b = "write_at (src c) (?h + 24) ?R"
  have r: "length (src c) = 8192" "length (cp_page c) = 8192" "?h + alignedlen p \<le> cp_tail c" "cp_tail c \<le> 8192"
    "u + (cp_tail c - ?h) \<le> 8192" "separate \<or> ?h \<le> u" "low \<le> ?h"
    using run(1) by (simp_all only: run_ok_def item_end_def)
  obtain k where k: "recrypt_data env bn it c (src c) = Inr (?b, k)" "session_ok (env, E, ready, k)"
    "session_stream (env, E, ready, k) = ?st"
    by (rule recrypt_data_result [where it = it and buf = "src c" and u = u, OF ok]) (use r c len in auto)
  have lR: "length ?R = ?n - 24"
    using len r by simp
  have lb: "length ?b = 8192"
    using lR len r by simp
  have same: "bytes_at ?b a n = bytes_at (src c) a n" if "a + n \<le> ?h \<or> ?h + alignedlen p \<le> a" for a n
    using that lR len r by (intro bytes_at_write_disjoint) auto
  let ?c1 = "put_src ?b (c\<lparr>cp_keys := k\<rparr>)"
  have page: "bytes_at (cp_page ?c1) a n = bytes_at (cp_page c) a n"
    if "separate \<or> a + n \<le> ?h \<or> ?h + alignedlen p \<le> a" for a n
    using page_put [of ?b a n "c\<lparr>cp_keys := k\<rparr>"] same that by auto
  have low_page: "bytes_at (cp_page ?c1) a n = bytes_at (cp_page c) a n" if "a + n \<le> low" for a n
    using that r(7) by (intro page) simp
  have lp: "length (cp_page ?c1) = 8192"
    using page_put_length [of ?b "c\<lparr>cp_keys := k\<rparr>"] lb r by simp
  have placed: "holds (cp_page ?c1) placed"
    using run(1) r(3,6) page unfolding run_ok_def holds_def by fastforce
  have run': "run_ok separate low ?b (cp_page ?c1) u (cp_tail c) p its placed"
    using run(1) lb lp placed unfolding run_ok_def by blast
  have "bytes_at ?b (?h + (a - u)) (length bs) = bs" if "(a, bs) \<in> set pending" for a bs
    using pend that unfolding pending_ok_def by (subst same) auto
  moreover have "length (moved_bytes ?st bn ?h u ?n (bytes_at S ?h (alignedlen p))) = alignedlen p"
    using len r p [symmetric] by simp
  moreover have "bytes_at ?b ?h (alignedlen p) = moved_bytes ?st bn ?h u ?n (bytes_at S ?h (alignedlen p))"
    unfolding p [symmetric] using len r by (intro write_recrypted) auto
  ultimately have pend': "pending_ok 0 ?b u (cp_tail c) p (pending @ [(u, moved_bytes ?st bn ?h u ?n (bytes_at S ?h (alignedlen p)))])"
    using pend r(3) unfolding pending_ok_def by fastforce
  have "bytes_at ?b (itemoff q) (alignedlen q) = bytes_at S (itemoff q) (alignedlen q)" if "q \<in> set its" for q
    using that wait unfolding waiting_ok_def apart_def item_end_def sorted_wrt.simps by (subst same) auto
  then have "waiting_ok separate low ?b S p its"
    using wait unfolding waiting_ok_def by simp
  with that [OF k run' pend' _ lp_updated_keep [OF _ run(2)]] show thesis
    using low_page lp r(2) by simp
qed

end

text \<open>The invariant after an iteration, without and with a copy.\<close>

definition same_above :: "nat \<Rightarrow> byte list \<Rightarrow> byte list \<Rightarrow> bool" where
  "same_above low B B' \<longleftrightarrow> length B' = length B \<and> (\<forall>a n. low \<le> a \<longrightarrow> bytes_at B' a n = bytes_at B a n)"

lemma holds_above:
  assumes "holds P xs" "same_above low P P'" "\<forall>(a, bs)\<in>set xs. low \<le> a"
  shows "holds P' xs"
  using assms unfolding holds_def same_above_def by fastforce

lemma run_ok_advance:
  assumes run: "run_ok separate low B P u tail p (it # its) placed" and it: "itemoff p = item_end it" "low \<le> itemoff it"
    and B: "same_above low B B'" and P: "same_above low P P'"
  shows "run_ok separate low B' P' (u - alignedlen it) tail it its placed"
proof -
  have r: "length B = 8192" "length P = 8192" "item_end p \<le> tail" "tail \<le> 8192" "u + (tail - itemoff p) \<le> 8192"
    "separate \<or> itemoff p \<le> u" "low + (alignedlen it + total_len its) \<le> u" "holds P placed"
    "\<forall>(a, bs)\<in>set placed. u + (tail - itemoff p) \<le> a"
    using run unfolding run_ok_def total_len_def list.map sum_list.Cons by blast+
  have low: "\<forall>(a, bs)\<in>set placed. low \<le> a"
    using r(7,9) by fastforce
  have "u - alignedlen it + (tail - itemoff it) = u + (tail - itemoff p)"
    using r(3,7) it(1) by (simp add: item_end_def)
  then show ?thesis
    using r it B P holds_above [OF r(8) P low] unfolding run_ok_def same_above_def item_end_def by auto
qed

lemma run_ok_flushed:
  assumes run: "run_ok separate low B P u tail p (it # its) placed" and it: "low \<le> itemoff it" "item_end it \<le> 8192"
    and "separate \<or> item_end it \<le> itemoff p"
    and B: "same_above low B1 B'" "length B1 = 8192" and P: "same_above low P1 P'" "length P1 = 8192"
    and xs: "holds P1 xs" "\<forall>(a, bs)\<in>set xs. u \<le> a"
  shows "run_ok separate low B' P' (u - alignedlen it) (item_end it) it its xs"
proof -
  have r: "u + (tail - itemoff p) \<le> 8192" "separate \<or> itemoff p \<le> u" "low + (alignedlen it + total_len its) \<le> u"
    using run unfolding run_ok_def total_len_def list.map sum_list.Cons by blast+
  have low: "\<forall>(a, bs)\<in>set xs. low \<le> a"
    using r(3) xs(2) by fastforce
  have "u - alignedlen it + (item_end it - itemoff it) = u"
    using r(3) by (simp add: item_end_def)
  then show ?thesis
    using r it assms(4) B P xs(2) holds_above [OF xs(1) P(1) low] unfolding run_ok_def same_above_def item_end_def by auto
qed

lemma pending_ok_advance:
  assumes pend: "pending_ok 0 B u tail p xs" and it: "itemoff p = item_end it" "low \<le> itemoff it" "alignedlen it \<le> u" "item_end p \<le> tail"
    and B: "same_above low B B'"
  shows "pending_ok (alignedlen it) B' (u - alignedlen it) tail it xs"
  unfolding pending_ok_def
proof clarify
  fix a bs assume "(a, bs) \<in> set xs"
  then have a: "u \<le> a" "bytes_at B (itemoff p + (a - u)) (length bs) = bs" "a + length bs \<le> u + (tail - itemoff p)"
    using pend unfolding pending_ok_def by auto
  have "itemoff it + (a - (u - alignedlen it)) = itemoff p + (a - u)"
    using a(1) it(1,3) by (simp add: item_end_def)
  moreover have "low \<le> itemoff p + (a - u)"
    using it(1,2) by (simp add: item_end_def)
  moreover have "a + length bs \<le> u - alignedlen it + (tail - itemoff it)"
    using a(3) it by (simp add: item_end_def)
  ultimately show "bytes_at B' (itemoff it + (a - (u - alignedlen it))) (length bs) = bs \<and>
      u - alignedlen it + alignedlen it \<le> a \<and> a + length bs \<le> u - alignedlen it + (tail - itemoff it)"
    using a(1,2) it(3) B unfolding same_above_def by simp
qed

lemma waiting_ok_next:
  assumes "waiting_ok separate low B S p (it # its)" "same_above low B B'"
  shows "waiting_ok separate low B' S it its"
    and "bytes_at B' (itemoff it) (alignedlen it) = bytes_at S (itemoff it) (alignedlen it)"
  using assms unfolding waiting_ok_def same_above_def by auto

context copy_source
begin

lemma flush_step:
  assumes c: "cp_upper c = int u" "cp_head c = itemoff p" and len: "length (src c) = 8192"
    and run: "run_ok separate low (src c) (cp_page c) u (cp_tail c) p its placed" "24 \<le> low"
    and pend: "pending_ok 0 (src c) u (cp_tail c) p pending"
    and wait: "waiting_ok separate low (src c) S p its"
  obtains pg where
    "memmove (cp_page c) (cp_upper c) (src c) (int (cp_head c)) (int (cp_tail c) - int (cp_head c)) = Inr pg"
    "holds pg (placed @ pending)" "\<forall>(a, bs)\<in>set (placed @ pending). u \<le> a"
    "waiting_ok separate low (src (c\<lparr>cp_page := pg\<rparr>)) S p its"
    "length (src (c\<lparr>cp_page := pg\<rparr>)) = 8192" "lp_updated low [] (cp_page c) pg"
proof -
  let ?h = "itemoff p" and ?n = "cp_tail c - itemoff p"
  let ?run = "bytes_at (src c) ?h ?n"
  let ?pg = "write_at (cp_page c) u ?run"
  have r: "length (cp_page c) = 8192" "?h \<le> cp_tail c" "cp_tail c \<le> 8192" "u + ?n \<le> 8192"
    "separate \<or> ?h \<le> u" "low \<le> ?h" "low \<le> u" "holds (cp_page c) placed" "\<forall>(a, bs)\<in>set placed. u + ?n \<le> a"
    using run(1) unfolding run_ok_def item_end_def by auto
  have lr: "length ?run = ?n"
    using len r by simp
  have move: "memmove (cp_page c) (cp_upper c) (src c) (int (cp_head c)) (int (cp_tail c) - int (cp_head c)) = Inr ?pg"
    using r(1-4) len c by (simp add: memmove_def nat_diff_distrib)
  have "bytes_at ?pg a (length bs) = bs" if "(a, bs) \<in> set placed" for a bs
    using that r lr unfolding holds_def by (subst bytes_at_write_disjoint) auto
  moreover have "bytes_at ?pg a (length bs) = bs" if "(a, bs) \<in> set pending" for a bs
  proof -
    have a: "bytes_at (src c) (?h + (a - u)) (length bs) = bs" "u \<le> a" "a + length bs \<le> u + ?n"
      using that pend unfolding pending_ok_def by auto
    then have "bytes_at ?pg a (length bs) = bytes_at ?run (a - u) (length bs)"
      using r lr by (intro bytes_at_write_inside) simp_all
    with a show ?thesis
      by (simp add: bytes_at_bytes_at)
  qed
  ultimately have "holds ?pg (placed @ pending)"
    unfolding holds_def by auto
  moreover have "\<forall>(a, bs)\<in>set (placed @ pending). u \<le> a"
    using r(9) pend unfolding pending_ok_def by fastforce
  moreover have "bytes_at (src (c\<lparr>cp_page := ?pg\<rparr>)) (itemoff q) (alignedlen q) = bytes_at S (itemoff q) (alignedlen q)"
    if "q \<in> set its" for q
    using that wait r lr unfolding waiting_ok_def apart_def item_end_def sorted_wrt.simps by (subst src_page) auto
  then have "waiting_ok separate low (src (c\<lparr>cp_page := ?pg\<rparr>)) S p its"
    using wait unfolding waiting_ok_def by simp
  moreover have lpg: "length ?pg = length (cp_page c)"
    using r lr by simp
  then have "length (src (c\<lparr>cp_page := ?pg\<rparr>)) = 8192"
    using src_page_length len by metis
  moreover have "lp_updated low [] (cp_page c) ?pg"
    using lpg run(2) r lr by (intro lp_updated_keep) (simp_all add: bytes_at_write_disjoint)
  ultimately show thesis
    using that move by blast
qed

lemma next_item_frame:
  assumes "28 + 4 * offsetindex it \<le> low" "low \<le> length (cp_page c)" "cp_upper c = int u" "alignedlen it \<le> u"
  shows "same_above low (cp_page c) (cp_page (next_item it c))"
    and "same_above low (src c) (src (next_item it c))"
    and "lp_updated low [(offsetindex it + 1, u - alignedlen it)] (cp_page c) (cp_page (next_item it c))"
proof -
  let ?up = "int (u - alignedlen it)"
  let ?d = "c\<lparr>cp_upper := ?up, cp_head := itemoff it\<rparr>"
  let ?w = "24 + 4 * offsetindex it"
  let ?bs = "le_bytes 4 (item_id_word ((PageGetItemId (cp_page c) (offsetindex it + 1))\<lparr>lp_off := of_int ?up\<rparr>)) :: byte list"
  have pg: "set_lp_off (offsetindex it + 1) ?up (cp_page c) = write_at (cp_page c) ?w ?bs"
    by (simp add: set_lp_off_def set_item_id_def)
  have nx: "next_item it c = ?d\<lparr>cp_page := write_at (cp_page ?d) ?w ?bs\<rparr>"
    using assms(3,4) pg by (simp add: next_item_def Let_def of_nat_diff)
  have room: "?w + length ?bs \<le> low" "?w + length ?bs \<le> length (cp_page c)"
    using assms(1,2) by simp_all
  show "same_above low (cp_page c) (cp_page (next_item it c))"
    unfolding nx same_above_def using room by (simp add: bytes_at_write_disjoint)
  have "length (src (?d\<lparr>cp_page := write_at (cp_page ?d) ?w ?bs\<rparr>)) = length (src ?d)"
    using room by (intro src_page_length) simp
  moreover have "bytes_at (src (?d\<lparr>cp_page := write_at (cp_page ?d) ?w ?bs\<rparr>)) a n = bytes_at (src ?d) a n" if "low \<le> a" for a n
    using room that by (intro src_page) simp_all
  ultimately show "same_above low (src c) (src (next_item it c))"
    unfolding nx same_above_def by simp
  show "lp_updated low [(offsetindex it + 1, u - alignedlen it)] (cp_page c) (cp_page (next_item it c))"
    using lp_updated_set [OF assms(1,2) refl, of "u - alignedlen it"] unfolding nx pg by simp
qed

lemma next_item_sel [simp]:
  "cp_keys (next_item it c) = cp_keys c" "cp_head (next_item it c) = itemoff it"
  "cp_tail (next_item it c) = cp_tail c" "cp_upper (next_item it c) = cp_upper c - int (alignedlen it)"
  by (simp_all add: next_item_def Let_def)

end

context copy_source
begin

lemma step_result:
  assumes ok: "session_ok (env, E, ready, cp_keys c)" and c: "cp_upper c = int u" "cp_head c = itemoff p"
    and run: "run_ok separate low (src c) (cp_page c) u (cp_tail c) p (it # its) placed" "24 \<le> low"
    and pend: "pending_ok (alignedlen p) (src c) u (cp_tail c) p pending"
    and wait: "waiting_ok separate low (src c) S p (it # its)"
    and p: "bytes_at (src c) (itemoff p) (alignedlen p) = bytes_at S (itemoff p) (alignedlen p)"
    and len: "24 \<le> item_len it" "item_len it \<le> alignedlen p"
  obtains c' placed' pending' where "step env bn it c = Inr c'"
    "session_ok (env, E, ready, cp_keys c')"
    "session_stream (env, E, ready, cp_keys c') = session_stream (env, E, ready, cp_keys c)"
    "cp_upper c' = int (u - alignedlen it)" "cp_head c' = itemoff it"
    "run_ok separate low (src c') (cp_page c') (u - alignedlen it) (cp_tail c') it its placed'"
    "pending_ok (alignedlen it) (src c') (u - alignedlen it) (cp_tail c') it pending'"
    "waiting_ok separate low (src c') S it its"
    "bytes_at (src c') (itemoff it) (alignedlen it) = bytes_at S (itemoff it) (alignedlen it)"
    "set (placed' @ pending') = set (placed @ pending @ [(u, moved_bytes (session_stream (env, E, ready, cp_keys c)) bn
        (itemoff p) u (item_len it) (bytes_at S (itemoff p) (alignedlen p)))])"
    "lp_updated low [(offsetindex it + 1, u - alignedlen it)] (cp_page c) (cp_page c')"
proof -
  let ?new = "(u, moved_bytes (session_stream (env, E, ready, cp_keys c)) bn (itemoff p) u (item_len it) (bytes_at S (itemoff p) (alignedlen p)))"
  obtain b k where b: "recrypt_data env bn it c (src c) = Inr (b, k)"
    "session_ok (env, E, ready, k)" "session_stream (env, E, ready, k) = session_stream (env, E, ready, cp_keys c)"
    and run1: "run_ok separate low b (cp_page (put_src b (c\<lparr>cp_keys := k\<rparr>))) u (cp_tail c) p (it # its) placed"
    and pend1: "pending_ok 0 b u (cp_tail c) p (pending @ [?new])"
    and wait1: "waiting_ok separate low b S p (it # its)"
    and lp1: "lp_updated low [] (cp_page c) (cp_page (put_src b (c\<lparr>cp_keys := k\<rparr>)))"
    by (rule recrypt_step [OF ok c run pend wait p len])
  let ?c1 = "put_src b (c\<lparr>cp_keys := k\<rparr>)"
  have r: "low + (alignedlen it + total_len its) \<le> u" "length b = 8192" "length (cp_page ?c1) = 8192" "item_end p \<le> cp_tail c"
    "cp_tail c \<le> 8192" "u + (cp_tail c - itemoff p) \<le> 8192" "separate \<or> itemoff p \<le> u" "holds (cp_page ?c1) placed"
    "\<forall>(a, bs)\<in>set placed. u + (cp_tail c - itemoff p) \<le> a"
    using run1 unfolding run_ok_def total_len_def list.map sum_list.Cons by blast+
  have w: "low \<le> itemoff it" "28 + 4 * offsetindex it \<le> low" "item_end it \<le> 8192"
    "separate \<or> item_end it \<le> itemoff p"
    "\<And>q. q \<in> set its \<Longrightarrow> low \<le> itemoff q"
    using wait1 by (auto simp: waiting_ok_def apart_def)
  have al: "alignedlen it \<le> u" "low \<le> 8192"
    using r(1,2) w(1,3) by (simp_all add: item_end_def)
  have h: "cp_head c < cp_tail c"
    using c(2) len r(4) by (simp add: item_end_def)
  show thesis
  proof (cases "cp_head c = item_end it")
    case True
    let ?c' = "next_item it ?c1"
    have step: "step env bn it c = Inr ?c'"
      using b(1) True by (simp add: step_eq Let_def)
    have u1: "cp_upper ?c1 = int u" "length (src ?c1) = 8192"
      using c r(2) by simp_all
    have lo: "low \<le> length (cp_page ?c1)"
      using al r(3) by simp
    note fr = next_item_frame [OF w(2) lo u1(1) al(1)]
    have e: "itemoff p = item_end it"
      using True c(2) by simp
    have src1: "src ?c1 = b"
      by simp
    note B = fr(2) [unfolded src1]
    have "run_ok separate low (src ?c') (cp_page ?c') (u - alignedlen it) (cp_tail c) it its placed"
      by (rule run_ok_advance [OF run1 e w(1) B fr(1)])
    moreover have "pending_ok (alignedlen it) (src ?c') (u - alignedlen it) (cp_tail c) it (pending @ [?new])"
      by (rule pending_ok_advance [OF pend1 e w(1) al(1) r(4) B])
    moreover have "set (placed @ (pending @ [?new])) = set (placed @ pending @ [?new])"
      by simp
    moreover have "lp_updated low ([] @ [(offsetindex it + 1, u - alignedlen it)]) (cp_page c) (cp_page ?c')"
      using lp1 fr(3) by (rule lp_updated_trans) simp
    ultimately show thesis
      using that [of ?c' placed "pending @ [?new]"] step b waiting_ok_next [OF wait1 B] u1(1) al(1)
      by (simp add: of_nat_diff)
  next
    case False
    have c1: "cp_upper ?c1 = int u" "cp_head ?c1 = itemoff p" "length (src ?c1) = 8192"
      using c r(2) by simp_all
    obtain pg where pg:
      "memmove (cp_page ?c1) (cp_upper ?c1) (src ?c1) (int (cp_head ?c1)) (int (cp_tail ?c1) - int (cp_head ?c1)) = Inr pg"
      "holds pg (placed @ (pending @ [?new]))" "\<forall>(a, bs)\<in>set (placed @ (pending @ [?new])). u \<le> a"
      "waiting_ok separate low (src (?c1\<lparr>cp_page := pg\<rparr>)) S p (it # its)"
      "length (src (?c1\<lparr>cp_page := pg\<rparr>)) = 8192" "lp_updated low [] (cp_page ?c1) pg"
      by (rule flush_step [OF c1, of low "it # its" placed "pending @ [?new]" S]) (use run1 run(2) pend1 wait1 in simp_all)
    let ?c2 = "?c1\<lparr>cp_page := pg, cp_tail := item_end it\<rparr>"
    let ?c' = "next_item it ?c2"
    have step: "step env bn it c = Inr ?c'"
      using b(1) False h pg(1) by (simp add: step_eq Let_def)
    have lpg: "length pg = 8192"
      using pg(6) r(3) by (simp add: lp_updated_def)
    have u2: "cp_upper ?c2 = int u" "length (src ?c2) = 8192" "low \<le> length (cp_page ?c2)"
      using c1 pg(5) al lpg by simp_all
    note fr = next_item_frame [OF w(2) u2(3,1) al(1)]
    have src2: "src ?c2 = src (?c1\<lparr>cp_page := pg\<rparr>)" "cp_page ?c2 = pg"
      by simp_all
    note B = fr(2) [unfolded src2(1)] and P = fr(1) [unfolded src2(2)]
    have "run_ok separate low (src ?c') (cp_page ?c') (u - alignedlen it) (item_end it) it its (placed @ pending @ [?new])"
      by (rule run_ok_flushed [OF run1 w(1,3,4) B pg(5) P lpg pg(2,3)])
    moreover have "pending_ok (alignedlen it) (src ?c') (u - alignedlen it) (item_end it) it []"
      by (simp add: pending_ok_def)
    moreover have "lp_updated low [] (cp_page c) pg"
      using lp_updated_trans [OF lp1 pg(6)] by simp
    then have "lp_updated low ([] @ [(offsetindex it + 1, u - alignedlen it)]) (cp_page c) (cp_page ?c')"
      using fr(3) [unfolded src2(2)] by (rule lp_updated_trans) simp
    ultimately show thesis
      using that [of ?c' "placed @ pending @ [?new]" "[]"] step b waiting_ok_next [OF pg(4) B] u2(1) al(1)
      by (simp add: of_nat_diff)
  qed
qed

end

lemma holds_append [simp]: "holds buf (xs @ ys) \<longleftrightarrow> holds buf xs \<and> holds buf ys"
  unfolding holds_def by auto

lemma holds_Cons [simp]: "holds buf ((a, bs) # xs) \<longleftrightarrow> bytes_at buf a (length bs) = bs \<and> holds buf xs"
  unfolding holds_def by auto

lemma holds_Nil [simp]: "holds buf []"
  unfolding holds_def by simp

lemma holds_cong_set: "holds buf xs \<Longrightarrow> set xs = set ys \<Longrightarrow> holds buf ys"
  unfolding holds_def by blast

lemma new_offsets_index: "fst ` set (new_offsets v xs) = Suc ` offsetindex ` set xs"
  by (induction xs arbitrary: v) auto

context copy_source
begin

lemma finish_result:
  assumes ok: "session_ok (env, E, ready, cp_keys c)" and c: "cp_upper c = int u" "cp_head c = itemoff p"
    and run: "run_ok separate low (src c) (cp_page c) u (cp_tail c) p [] placed" "24 \<le> low"
    and pend: "pending_ok (alignedlen p) (src c) u (cp_tail c) p pending"
    and p: "bytes_at (src c) (itemoff p) (alignedlen p) = bytes_at S (itemoff p) (alignedlen p)"
    and len: "24 \<le> item_len p" "item_len p \<le> alignedlen p"
  obtains c' where "finish env bn p c = Inr c'"
    "session_ok (env, E, ready, cp_keys c')"
    "session_stream (env, E, ready, cp_keys c') = session_stream (env, E, ready, cp_keys c)"
    "cp_upper c' = int u"
    "holds (cp_page c') (placed @ pending @ expected (session_stream (env, E, ready, cp_keys c)) bn S u p [])"
    "lp_updated low [] (cp_page c) (cp_page c')"
proof -
  let ?new = "(u, moved_bytes (session_stream (env, E, ready, cp_keys c)) bn (itemoff p) u (item_len p) (bytes_at S (itemoff p) (alignedlen p)))"
  have wait: "waiting_ok separate low (src c) S p []"
    by (simp add: waiting_ok_def)
  obtain b k where b: "recrypt_data env bn p c (src c) = Inr (b, k)"
    "session_ok (env, E, ready, k)" "session_stream (env, E, ready, k) = session_stream (env, E, ready, cp_keys c)"
    and run1: "run_ok separate low b (cp_page (put_src b (c\<lparr>cp_keys := k\<rparr>))) u (cp_tail c) p [] placed"
    and pend1: "pending_ok 0 b u (cp_tail c) p (pending @ [?new])"
    and wait1: "waiting_ok separate low b S p []"
    and lp1: "lp_updated low [] (cp_page c) (cp_page (put_src b (c\<lparr>cp_keys := k\<rparr>)))"
    by (rule recrypt_step [OF ok c run pend wait p len])
  let ?c1 = "put_src b (c\<lparr>cp_keys := k\<rparr>)"
  have c1: "cp_upper ?c1 = int u" "cp_head ?c1 = itemoff p" "length (src ?c1) = 8192"
    using c run1 by (simp_all add: run_ok_def)
  obtain pg where pg:
    "memmove (cp_page ?c1) (cp_upper ?c1) (src ?c1) (int (cp_head ?c1)) (int (cp_tail ?c1) - int (cp_head ?c1)) = Inr pg"
    "holds pg (placed @ (pending @ [?new]))" "lp_updated low [] (cp_page ?c1) pg"
    by (rule flush_step [OF c1, of low "[]" placed "pending @ [?new]" S]) (use run1 run(2) pend1 wait1 in simp_all)
  have "finish env bn p c = Inr (?c1\<lparr>cp_page := pg\<rparr>)"
    using b(1) pg(1) by (simp add: finish_eq Let_def)
  moreover have "lp_updated low [] (cp_page c) pg"
    using lp_updated_trans [OF lp1 pg(3)] by simp
  ultimately show thesis
    using that [of "?c1\<lparr>cp_page := pg\<rparr>"] b(2,3) c1(1) pg(2) by simp
qed

lemma loop_result:
  assumes "session_ok (env, E, ready, cp_keys c)" "cp_upper c = int u" "cp_head c = itemoff p"
    and "run_ok separate low (src c) (cp_page c) u (cp_tail c) p its placed" "24 \<le> low"
    and "pending_ok (alignedlen p) (src c) u (cp_tail c) p pending"
    and "waiting_ok separate low (src c) S p its"
    and "bytes_at (src c) (itemoff p) (alignedlen p) = bytes_at S (itemoff p) (alignedlen p)"
    and "lengths_fit p its" "distinct (map offsetindex its)"
  shows "\<exists>c' c''. compact_loop (step env bn) its c = Inr c' \<and> finish env bn (last (p # its)) c' = Inr c'' \<and>
    session_ok (env, E, ready, cp_keys c'') \<and>
    session_stream (env, E, ready, cp_keys c'') = session_stream (env, E, ready, cp_keys c) \<and>
    cp_upper c'' = int (u - total_len its) \<and>
    holds (cp_page c'') (placed @ pending @ expected (session_stream (env, E, ready, cp_keys c)) bn S u p its) \<and>
    lp_updated low (new_offsets u its) (cp_page c) (cp_page c'')"
  using assms
proof (induction its arbitrary: c u p placed pending)
  case Nil
  have len: "24 \<le> item_len p" "item_len p \<le> alignedlen p"
    using Nil(9) by simp_all
  obtain c' where "finish env bn p c = Inr c'"
    "session_ok (env, E, ready, cp_keys c')"
    "session_stream (env, E, ready, cp_keys c') = session_stream (env, E, ready, cp_keys c)"
    "cp_upper c' = int u"
    "holds (cp_page c') (placed @ pending @ expected (session_stream (env, E, ready, cp_keys c)) bn S u p [])"
    "lp_updated low [] (cp_page c) (cp_page c')"
    by (rule finish_result [where bn = bn, OF Nil(1-6,8) len])
  then show ?case
    by (intro exI [of _ c] exI [of _ c']) (simp add: total_len_def del: session_ok.simps session_stream.simps)
next
  case (Cons it its)
  have len: "24 \<le> item_len it" "item_len it \<le> alignedlen p" "lengths_fit it its"
    and di: "offsetindex it \<notin> set (map offsetindex its)" "distinct (map offsetindex its)"
    using Cons.prems(9,10) by auto
  obtain c' placed' pending' where step: "step env bn it c = Inr c'"
    and k: "session_ok (env, E, ready, cp_keys c')"
    "session_stream (env, E, ready, cp_keys c') = session_stream (env, E, ready, cp_keys c)"
    and c': "cp_upper c' = int (u - alignedlen it)" "cp_head c' = itemoff it"
    and inv: "run_ok separate low (src c') (cp_page c') (u - alignedlen it) (cp_tail c') it its placed'"
    "pending_ok (alignedlen it) (src c') (u - alignedlen it) (cp_tail c') it pending'"
    "waiting_ok separate low (src c') S it its"
    "bytes_at (src c') (itemoff it) (alignedlen it) = bytes_at S (itemoff it) (alignedlen it)"
    and xs: "set (placed' @ pending') = set (placed @ pending @ [(u, moved_bytes (session_stream (env, E, ready, cp_keys c)) bn
        (itemoff p) u (item_len it) (bytes_at S (itemoff p) (alignedlen p)))])"
    and lp: "lp_updated low [(offsetindex it + 1, u - alignedlen it)] (cp_page c) (cp_page c')"
    by (rule step_result [where bn = bn, OF Cons.prems(1-8) len(1,2)])
  obtain c1 c2 where c2: "compact_loop (step env bn) its c' = Inr c1" "finish env bn (last (it # its)) c1 = Inr c2"
    "session_ok (env, E, ready, cp_keys c2)"
    "session_stream (env, E, ready, cp_keys c2) = session_stream (env, E, ready, cp_keys c)"
    "cp_upper c2 = int (u - alignedlen it - total_len its)"
    "holds (cp_page c2) (placed' @ pending' @ expected (session_stream (env, E, ready, cp_keys c)) bn S (u - alignedlen it) it its)"
    "lp_updated low (new_offsets (u - alignedlen it) its) (cp_page c') (cp_page c2)"
    using Cons.IH [OF k(1) c' inv(1) Cons.prems(5) inv(2-4) len(3) di(2)] unfolding k(2) by (elim exE conjE)
  have "lp_updated low ([(offsetindex it + 1, u - alignedlen it)] @ new_offsets (u - alignedlen it) its) (cp_page c) (cp_page c2)"
    using lp c2(7) di(1) by (intro lp_updated_trans) (auto simp: new_offsets_index)
  moreover have "holds (cp_page c2) (placed @ pending @ expected (session_stream (env, E, ready, cp_keys c)) bn S u p (it # its))"
    using c2(6) holds_cong_set [OF _ xs, of "cp_page c2"] by simp
  moreover have "compact_loop (step env bn) (it # its) c = Inr c1" "last (p # it # its) = last (it # its)"
    "u - alignedlen it - total_len its = u - total_len (it # its)"
    using step c2(1) by (simp_all add: total_len_def)
  ultimately show ?case
    using c2(2-5) by (intro exI [of _ c1] exI [of _ c2]) (simp only: new_offsets.simps append.simps simp_thms)
qed

end

section \<open>From the first item to move\<close>

context copy_source
begin

lemma recrypt_nothing: "cp_head c = cp_tail c \<Longrightarrow> recrypt_data env bn it c buf = Inr (buf, cp_keys c)"
  by (simp add: recrypt_data_def)

lemma first_step:
  assumes "cp_head c = item_end p" "cp_tail c = item_end p"
  shows "step env bn p c = Inr (next_item p c)"
  using assms by (simp add: step_eq recrypt_nothing Let_def)

lemma finish_nothing:
  assumes "cp_head c = cp_tail c" "0 \<le> cp_upper c" "cp_upper c \<le> int (length (cp_page c))" "cp_head c \<le> length (src c)"
  shows "finish env bn it c = Inr c"
  using assms by (simp add: finish_eq recrypt_nothing memmove_def write_at_def bytes_at_def Let_def)

lemma moving_result:
  assumes ok: "session_ok (env, E, ready, cp_keys c)" and c: "cp_upper c = int u" "cp_head c = item_end p" "cp_tail c = item_end p"
    and len: "length (src c) = 8192" "length (cp_page c) = 8192" and low: "24 \<le> low" "low + total_len (p # its) \<le> u" "u \<le> 8192"
    and items: "\<forall>q\<in>set (p # its). bytes_at (src c) (itemoff q) (alignedlen q) = bytes_at S (itemoff q) (alignedlen q) \<and>
        low \<le> itemoff q \<and> item_end q \<le> 8192 \<and> 28 + 4 * offsetindex q \<le> low"
    and order: "sorted_wrt (apart separate) (p # its)" "separate \<or> item_end p \<le> u" "distinct (map offsetindex (p # its))"
    and fit: "lengths_fit p its"
    and placed: "holds (cp_page c) placed" "\<forall>(a, bs)\<in>set placed. u \<le> a"
  shows "\<exists>c' c''. compact_loop (step env bn) (p # its) c = Inr c' \<and> finish env bn (last (p # its)) c' = Inr c'' \<and>
    session_ok (env, E, ready, cp_keys c'') \<and>
    session_stream (env, E, ready, cp_keys c'') = session_stream (env, E, ready, cp_keys c) \<and>
    cp_upper c'' = int (u - total_len (p # its)) \<and>
    holds (cp_page c'') (placed @ expected (session_stream (env, E, ready, cp_keys c)) bn S (u - alignedlen p) p its) \<and>
    lp_updated low (new_offsets u (p # its)) (cp_page c) (cp_page c'')"
proof -
  let ?c = "next_item p c" and ?st = "session_stream (env, E, ready, cp_keys c)" and ?u = "u - alignedlen p"
  have al: "low + (alignedlen p + total_len its) \<le> u"
    using low(2) by (simp add: total_len_def)
  have p: "28 + 4 * offsetindex p \<le> low" "low \<le> itemoff p" "item_end p \<le> 8192"
    using items by simp_all
  have lo: "low \<le> length (cp_page c)" "alignedlen p \<le> u"
    using al low(3) len(2) by simp_all
  note fr = next_item_frame [OF p(1) lo(1) c(1) lo(2)]
  have src: "bytes_at (src ?c) a n = bytes_at (src c) a n" if "low \<le> a" for a n
    using fr(2) that by (simp add: same_above_def)
  have "holds (cp_page ?c) placed"
    using placed fr(1) al by (intro holds_above [OF placed(1) fr(1)]) auto
  moreover have "\<forall>(a, bs)\<in>set placed. ?u + (item_end p - itemoff p) \<le> a"
    using placed(2) al by (simp add: item_end_def)
  ultimately have run: "run_ok separate low (src ?c) (cp_page ?c) ?u (cp_tail ?c) p its placed"
    using fr(1,2) len p al low(3) order(2) c(3) unfolding run_ok_def same_above_def item_end_def by auto
  have wait: "waiting_ok separate low (src ?c) S p its"
    using items order(1) src unfolding waiting_ok_def by auto
  have Sp: "bytes_at (src ?c) (itemoff p) (alignedlen p) = bytes_at S (itemoff p) (alignedlen p)"
    using items src [OF p(2)] by simp
  have pend: "pending_ok (alignedlen p) (src ?c) ?u (cp_tail ?c) p []"
    by (simp add: pending_ok_def)
  have ok': "session_ok (env, E, ready, cp_keys ?c)"
    using ok by (simp only: next_item_sel)
  have up: "cp_upper ?c = int ?u" "cp_head ?c = itemoff p" "distinct (map offsetindex its)"
    using c(1) lo(2) order(3) by (simp_all add: of_nat_diff)
  obtain c1 c2 where c2: "compact_loop (step env bn) its ?c = Inr c1" "finish env bn (last (p # its)) c1 = Inr c2"
    "session_ok (env, E, ready, cp_keys c2)" "session_stream (env, E, ready, cp_keys c2) = ?st"
    "cp_upper c2 = int (?u - total_len its)"
    "holds (cp_page c2) (placed @ [] @ expected ?st bn S ?u p its)"
    "lp_updated low (new_offsets ?u its) (cp_page ?c) (cp_page c2)"
    using loop_result [where bn = bn, OF ok' up(1,2) run low(1) pend wait Sp fit up(3)] unfolding next_item_sel by (elim exE conjE)
  have "lp_updated low ([(offsetindex p + 1, ?u)] @ new_offsets ?u its) (cp_page c) (cp_page c2)"
    using fr(3) c2(7) order(3) by (intro lp_updated_trans) (auto simp: new_offsets_index)
  moreover have "compact_loop (step env bn) (p # its) c = Inr c1"
    using first_step [OF c(2,3)] c2(1) by simp
  moreover have "?u - total_len its = u - total_len (p # its)"
    by (simp add: total_len_def)
  ultimately show ?thesis
    using c2(2-6) by (intro exI [of _ c1] exI [of _ c2]) (simp only: new_offsets.simps append.simps simp_thms)
qed

end

text \<open>An item that stays where it is comes out unchanged, whatever length is used for it.\<close>

lemma moved_bytes_same: "24 \<le> n \<Longrightarrow> moved_bytes st bn a a n bs = bs"
  using take_drop_split3 [of 24 n bs] by (simp add: moved_bytes_def recrypted_def)

definition in_place :: "byte list \<Rightarrow> itemIdCompactData list \<Rightarrow> (nat \<times> byte list) list" where
  "in_place S its = map (\<lambda>q. (itemoff q, bytes_at S (itemoff q) (alignedlen q))) its"

lemma skip_here: "s \<noteq> item_end it \<Longrightarrow> skip_in_place it rest (int s) = (int s, it, it # rest)"
  by simp

lemma skip_last: "skip_in_place it [] (int (item_end it)) = (int (itemoff it), it, [])"
  by (simp add: item_end_def)

lemma skip_on: "skip_in_place it (q # qs) (int (item_end it)) = skip_in_place q qs (int (itemoff it))"
  by (subst skip_in_place.simps) (simp add: item_end_def)

declare skip_in_place.simps [simp del]

lemma skip_result:
  assumes "skip_in_place it rest (int s) = (up, cur, todo)" "total_len (it # rest) \<le> s"
  shows "\<exists>skipped. it # rest = skipped @ todo \<and> up = int (s - total_len skipped) \<and>
    cur = (case todo of [] \<Rightarrow> last (it # rest) | q # qs \<Rightarrow> q) \<and>
    new_offsets s skipped = map (\<lambda>q. (offsetindex q + 1, itemoff q)) skipped"
  using assms
proof (induction rest arbitrary: it s)
  case Nil
  then show ?case
  proof (cases "s = item_end it")
    case True
    then show ?thesis
      using Nil skip_last by (intro exI [of _ "[it]"]) (auto simp: total_len_def item_end_def)
  next
    case False
    then show ?thesis
      using Nil skip_here [of s it "[]"] by (intro exI [of _ "[]"]) (auto simp: total_len_def)
  qed
next
  case (Cons q qs)
  show ?case
  proof (cases "s = item_end it")
    case True
    then have s: "s - alignedlen it = itemoff it"
      by (simp add: item_end_def)
    have "skip_in_place q qs (int (itemoff it)) = (up, cur, todo)" "total_len (q # qs) \<le> itemoff it"
      using Cons.prems(1) [unfolded True skip_on] Cons.prems(2) True by (simp_all add: total_len_def item_end_def)
    from Cons.IH [OF this] obtain skipped where "q # qs = skipped @ todo" "up = int (itemoff it - total_len skipped)"
      "cur = (case todo of [] \<Rightarrow> last (q # qs) | q # qs \<Rightarrow> q)"
      "new_offsets (itemoff it) skipped = map (\<lambda>q. (offsetindex q + 1, itemoff q)) skipped"
      by blast
    moreover have "s - total_len (it # skipped) = itemoff it - total_len skipped"
      using s by (simp add: total_len_def)
    ultimately show ?thesis
      using s by (intro exI [of _ "it # skipped"]) (auto split: list.split)
  next
    case False
    then show ?thesis
      using Cons.prems(1) skip_here [of s it "q # qs"] by (intro exI [of _ "[]"]) (auto simp: total_len_def)
  qed
qed

lemma expected_skipped:
  assumes "p # rest = skipped @ todo" "new_offsets s skipped = map (\<lambda>q. (offsetindex q + 1, itemoff q)) skipped"
    and "lengths_fit p rest" "\<forall>q\<in>set skipped. item_end q \<le> length S"
    and "holds B (in_place S skipped)"
    and "case todo of [] \<Rightarrow> True | q # qs \<Rightarrow> holds B (expected st bn S (s - total_len skipped - alignedlen q) q qs)"
  shows "holds B (expected st bn S (s - alignedlen p) p rest)"
  using assms
proof (induction skipped arbitrary: p rest s)
  case Nil
  then show ?case
    by (auto simp: total_len_def)
next
  case (Cons x skipped)
  have x: "x = p" "rest = skipped @ todo" "s - alignedlen p = itemoff p" "new_offsets (itemoff p) skipped = map (\<lambda>q. (offsetindex q + 1, itemoff q)) skipped"
    using Cons.prems(1,2) by auto
  have B: "bytes_at B (itemoff p) (alignedlen p) = bytes_at S (itemoff p) (alignedlen p)"
    and B': "holds B (in_place S skipped)" and l: "length (bytes_at S (itemoff p) (alignedlen p)) = alignedlen p"
    using Cons.prems(4,5) x(1) by (simp_all add: in_place_def item_end_def)
  show ?case
  proof (cases rest)
    case Nil
    then show ?thesis
      using Cons.prems(3) B l x(3) by (simp add: moved_bytes_same)
  next
    case (Cons q qs)
    have "s - total_len (x # skipped) = itemoff p - total_len skipped"
      using x(1,3) by (simp add: total_len_def)
    then have "holds B (expected st bn S (itemoff p - alignedlen q) q qs)"
      using Cons.IH [of q qs "itemoff p"] Cons.prems(3,4) Cons.prems(6) [unfolded \<open>s - total_len (x # skipped) = itemoff p - total_len skipped\<close>]
        B' Cons x(2,4) by simp
    then show ?thesis
      using Cons.prems(3) Cons B l x(3) by (simp add: moved_bytes_same)
  qed
qed

text \<open>
  The items of a well-formed page, and what a compaction of them gives: the tuples one below the
  other from the end of the page, their line pointers set, nothing else below \<open>low\<close> changed.
\<close>

definition items_ok :: "bool \<Rightarrow> nat \<Rightarrow> page \<Rightarrow> itemIdCompactData list \<Rightarrow> bool" where
  "items_ok separate low pg its \<longleftrightarrow>
     (\<forall>q\<in>set its. low \<le> itemoff q \<and> item_end q \<le> unat (pd_special pg) \<and> 28 + 4 * offsetindex q \<le> low \<and>
        lp_off (PageGetItemId pg (offsetindex q + 1)) = of_nat (itemoff q)) \<and>
     sorted_wrt (apart separate) its \<and> distinct (map offsetindex its) \<and> 24 \<le> low \<and>
     low + total_len its \<le> unat (pd_special pg) \<and> unat (pd_special pg) \<le> 8192 \<and> length pg = 8192"

definition compacted ::
  "'c crypto_env \<Rightarrow> (byte list \<Rightarrow> byte list \<Rightarrow> byte list) \<Rightarrow> ('c \<Rightarrow> byte list \<Rightarrow> bool) \<Rightarrow> block_number \<Rightarrow> nat
     \<Rightarrow> itemIdCompactData \<Rightarrow> itemIdCompactData list \<Rightarrow> 'c compaction \<Rightarrow> 'c compaction \<Rightarrow> bool" where
  "compacted env E ready bn low it rest c c' \<longleftrightarrow>
     session_ok (env, E, ready, cp_keys c') \<and>
     session_stream (env, E, ready, cp_keys c') = session_stream (env, E, ready, cp_keys c) \<and>
     cp_upper c' = int (unat (pd_special (cp_page c)) - total_len (it # rest)) \<and>
     holds (cp_page c') (expected (session_stream (env, E, ready, cp_keys c)) bn (cp_page c)
       (unat (pd_special (cp_page c)) - alignedlen it) it rest) \<and>
     lp_updated low (new_offsets (unat (pd_special (cp_page c))) (it # rest)) (cp_page c) (cp_page c')"

lemma new_offsets_append: "new_offsets s (xs @ ys) = new_offsets s xs @ new_offsets (s - total_len xs) ys"
  by (induction xs arbitrary: s) (simp_all add: total_len_def)

lemma total_len_append [simp]: "total_len (xs @ ys) = total_len xs + total_len ys"
  by (simp add: total_len_def)

lemma lp_updated_in_place:
  assumes "\<forall>q\<in>set its. lp_off (PageGetItemId pg (offsetindex q + 1)) = of_nat (itemoff q)" "us = map (\<lambda>q. (offsetindex q + 1, itemoff q)) its"
  shows "lp_updated low us pg pg"
proof -
  have "lp_off (PageGetItemId pg j) = of_nat a" if "map_of us j = Some a" for j a
    using map_of_SomeD [OF that] assms by auto
  then show ?thesis
    unfolding lp_updated_def by (auto split: option.split)
qed

lemma in_place_above:
  assumes "new_offsets s skipped = map (\<lambda>q. (offsetindex q + 1, itemoff q)) skipped" "total_len skipped \<le> s" "q \<in> set skipped"
  shows "s - total_len skipped \<le> itemoff q"
  using assms
proof (induction skipped arbitrary: s)
  case (Cons x xs)
  have x: "s - alignedlen x = itemoff x" "new_offsets (itemoff x) xs = map (\<lambda>q. (offsetindex q + 1, itemoff q)) xs"
    using Cons.prems(1) by auto
  have e: "s - total_len (x # xs) = itemoff x - total_len xs" "total_len xs \<le> itemoff x"
    using x(1) Cons.prems(2) by (simp_all add: total_len_def)
  show ?case
    unfolding e(1) using Cons.IH [OF x(2) e(2)] Cons.prems(3) by auto
qed simp

lemma in_place_holds: "\<forall>q\<in>set its. item_end q \<le> length pg \<Longrightarrow> holds pg (in_place pg its)"
  by (auto simp: holds_def in_place_def item_end_def)

lemma lengths_fit_append: "lengths_fit p (xs @ q # ys) \<Longrightarrow> lengths_fit q ys"
  by (induction xs arbitrary: p) auto

lemma items_ok_skipped:
  assumes ok: "items_ok separate low pg (skipped @ q # qs)"
    and skip: "new_offsets (unat (pd_special pg)) skipped = map (\<lambda>q. (offsetindex q + 1, itemoff q)) skipped"
  shows "separate \<or> item_end q \<le> unat (pd_special pg) - total_len skipped"
proof (cases skipped rule: rev_cases)
  case Nil
  then show ?thesis
    using ok by (simp add: items_ok_def total_len_def)
next
  case (snoc xs x)
  have "apart separate x q"
    using ok snoc by (auto simp: items_ok_def sorted_wrt_append)
  moreover have "unat (pd_special pg) - total_len skipped = itemoff x"
    using skip snoc by (simp add: new_offsets_append total_len_def)
  ultimately show ?thesis
    by (auto simp: apart_def)
qed

context copy_source
begin

lemma after_skip:
  assumes ok: "session_ok (env, E, ready, cp_keys c)" and items: "items_ok separate low (cp_page c) (it # rest)"
    and fit: "lengths_fit it rest"
    and skip: "it # rest = skipped @ todo" "cp_upper c = int (unat (pd_special (cp_page c)) - total_len skipped)"
      "new_offsets (unat (pd_special (cp_page c))) skipped = map (\<lambda>q. (offsetindex q + 1, itemoff q)) skipped"
    and cur: "cur = (case todo of [] \<Rightarrow> last (it # rest) | q # qs \<Rightarrow> q)" "cp_head c = item_end cur" "cp_tail c = item_end cur"
    and src: "length (src c) = 8192" "\<forall>q\<in>set todo. bytes_at (src c) (itemoff q) (alignedlen q) = bytes_at (cp_page c) (itemoff q) (alignedlen q)"
  obtains c' c'' where "compact_loop (step env bn) todo c = Inr c'" "finish env bn (last (cur # todo)) c' = Inr c''"
    "compacted env E ready bn low it rest c c''"
proof -
  let ?pg = "cp_page c" and ?s = "unat (pd_special (cp_page c))" and ?st = "session_stream (env, E, ready, cp_keys c)"
  have i: "\<forall>q\<in>set (it # rest). low \<le> itemoff q \<and> item_end q \<le> ?s \<and> 28 + 4 * offsetindex q \<le> low \<and>
        lp_off (PageGetItemId ?pg (offsetindex q + 1)) = of_nat (itemoff q)"
    and o: "sorted_wrt (apart separate) (it # rest)" "distinct (map offsetindex (it # rest))" "24 \<le> low"
    "low + total_len (it # rest) \<le> ?s" "?s \<le> 8192" "length ?pg = 8192"
    using items unfolding items_ok_def by blast+
  have tot: "total_len (it # rest) = total_len skipped + total_len todo"
    using skip(1) by simp
  have sk: "\<forall>q\<in>set skipped. item_end q \<le> length ?pg"
    using i o(5,6) skip(1) by (metis Un_iff le_trans set_append)
  note placed = in_place_holds [OF sk]
  have above: "\<forall>(a, bs)\<in>set (in_place ?pg skipped). ?s - total_len skipped \<le> a"
    using in_place_above [OF skip(3)] o(4) tot by (auto simp: in_place_def)
  have lp: "lp_updated low (new_offsets ?s skipped) ?pg ?pg"
    using i skip(1) by (intro lp_updated_in_place [OF _ skip(3)]) auto
  show thesis
  proof (cases todo)
    case Nil
    have "item_end cur \<le> ?s"
      using i cur(1) Nil by simp
    then have "finish env bn cur c = Inr c"
      using o cur(2,3) skip(2) src(1) by (intro finish_nothing) auto
    moreover have "holds ?pg (expected ?st bn ?pg (?s - alignedlen it) it rest)"
      using placed Nil by (intro expected_skipped [OF skip(1,3) fit sk]) (simp_all only: list.case)
    moreover have "cp_upper c = int (?s - total_len (it # rest))"
      using skip(1,2) Nil by simp
    ultimately show thesis
      using that [of c c] ok lp skip(1) Nil by (simp add: compacted_def)
  next
    case (Cons q qs)
    have fit': "lengths_fit q qs"
    proof (cases skipped)
      case Nil
      then show ?thesis using fit skip(1) Cons by simp
    next
      case (Cons x xs)
      then show ?thesis using fit skip(1) \<open>todo = q # qs\<close> lengths_fit_append [of it xs q qs] by simp
    qed
    have up: "separate \<or> item_end q \<le> ?s - total_len skipped"
      using items_ok_skipped [OF _ skip(3)] items skip(1) Cons by simp
    have hd: "cp_head c = item_end q" "cp_tail c = item_end q"
      using cur Cons by simp_all
    have low: "low + total_len (q # qs) \<le> ?s - total_len skipped" "?s - total_len skipped \<le> 8192"
      using o tot Cons by simp_all
    have its: "\<forall>q\<in>set (q # qs). bytes_at (src c) (itemoff q) (alignedlen q) = bytes_at ?pg (itemoff q) (alignedlen q) \<and>
        low \<le> itemoff q \<and> item_end q \<le> 8192 \<and> 28 + 4 * offsetindex q \<le> low"
    proof
      fix x assume x: "x \<in> set (q # qs)"
      then have "x \<in> set (it # rest)"
        unfolding skip(1) using Cons by auto
      then show "bytes_at (src c) (itemoff x) (alignedlen x) = bytes_at ?pg (itemoff x) (alignedlen x) \<and>
          low \<le> itemoff x \<and> item_end x \<le> 8192 \<and> 28 + 4 * offsetindex x \<le> low"
        using i o(5) src(2) x Cons by (metis le_trans)
    qed
    have order: "sorted_wrt (apart separate) (q # qs)" "distinct (map offsetindex (q # qs))"
      using o(1,2) skip(1) Cons by (auto simp: sorted_wrt_append)
    obtain c' c'' where r: "compact_loop (step env bn) (q # qs) c = Inr c'" "finish env bn (last (q # qs)) c' = Inr c''"
      "session_ok (env, E, ready, cp_keys c'')" "session_stream (env, E, ready, cp_keys c'') = ?st"
      "cp_upper c'' = int (?s - total_len skipped - total_len (q # qs))"
      "holds (cp_page c'') (in_place ?pg skipped @ expected ?st bn ?pg (?s - total_len skipped - alignedlen q) q qs)"
      "lp_updated low (new_offsets (?s - total_len skipped) (q # qs)) ?pg (cp_page c'')"
      using moving_result [where bn = bn, OF ok skip(2) hd src(1) o(6,3) low its order(1) up order(2) fit' placed above]
      by (elim exE conjE)
    have "holds (cp_page c'') (expected ?st bn ?pg (?s - alignedlen it) it rest)"
      using r(6) Cons by (intro expected_skipped [OF skip(1,3) fit sk]) (simp_all only: holds_append list.case)
    moreover have "cp_upper c'' = int (?s - total_len (it # rest))"
      using r(5) tot Cons by simp
    moreover have "fst ` set (new_offsets ?s skipped) \<inter> fst ` set (new_offsets (?s - total_len skipped) (q # qs)) = {}"
      using o(2) skip(1) Cons by (auto simp: new_offsets_index)
    then have "lp_updated low (new_offsets ?s (it # rest)) ?pg (cp_page c'')"
      using lp_updated_trans [OF lp r(7)] skip(1) Cons by (simp only: new_offsets_append)
    ultimately have "compacted env E ready bn low it rest c c''"
      using r(3,4) unfolding compacted_def by blast
    moreover have "last (cur # todo) = last (q # qs)"
      using Cons by simp
    ultimately show thesis
      using that [of c' c''] r(1,2) Cons by (simp only:)
  qed
qed

end

section \<open>Both cases of the compaction\<close>

lemma skip_cases:
  assumes "items_ok separate low pg (it # rest)" "skip_in_place it rest (int (unat (pd_special pg))) = (up, cur, todo)"
  obtains skipped where "it # rest = skipped @ todo" "up = int (unat (pd_special pg) - total_len skipped)"
    "new_offsets (unat (pd_special pg)) skipped = map (\<lambda>q. (offsetindex q + 1, itemoff q)) skipped"
    "cur = (case todo of [] \<Rightarrow> last (it # rest) | q # qs \<Rightarrow> q)"
proof -
  have "low + total_len (it # rest) \<le> unat (pd_special pg)"
    using assms(1) unfolding items_ok_def by (elim conjE)
  then have "total_len (it # rest) \<le> unat (pd_special pg)"
    by linarith
  from skip_result [OF assms(2) this] show thesis
    by (elim exE conjE) (rule that)
qed

lemma compact_presorted_result:
  assumes ok: "session_ok (env, E, ready, cp_keys c)" and items: "items_ok False low (cp_page c) (it # rest)"
    and fit: "lengths_fit it rest"
  obtains c' where "compact_presorted env bn it rest c = Inr c'" "compacted env E ready bn low it rest c c'"
proof -
  obtain up cur todo where sk: "skip_in_place it rest (int (unat (pd_special (cp_page c)))) = (up, cur, todo)"
    by (metis prod_cases3)
  then obtain skipped where s: "it # rest = skipped @ todo" "up = int (unat (pd_special (cp_page c)) - total_len skipped)"
      "new_offsets (unat (pd_special (cp_page c))) skipped = map (\<lambda>q. (offsetindex q + 1, itemoff q)) skipped"
      "cur = (case todo of [] \<Rightarrow> last (it # rest) | q # qs \<Rightarrow> q)"
    by (rule skip_cases [OF items])
  have len: "length (cp_page c) = 8192"
    using items unfolding items_ok_def by blast
  let ?c = "c\<lparr>cp_upper := up, cp_head := item_end cur, cp_tail := item_end cur\<rparr>"
  have c: "session_ok (env, E, ready, cp_keys ?c)" "items_ok False low (cp_page ?c) (it # rest)"
    "cp_upper ?c = int (unat (pd_special (cp_page ?c)) - total_len skipped)"
    "new_offsets (unat (pd_special (cp_page ?c))) skipped = map (\<lambda>q. (offsetindex q + 1, itemoff q)) skipped"
    "cp_head ?c = item_end cur" "cp_tail ?c = item_end cur" "length (cp_page ?c) = 8192"
    using ok items s(2,3) len by (simp_all del: session_ok.simps)
  obtain c' c'' where r: "compact_loop (presorted_step env bn) todo ?c = Inr c'" "presorted_end env bn (last (cur # todo)) c' = Inr c''"
    "compacted env E ready bn low it rest ?c c''"
    by (rule in_page.after_skip [where bn = bn, OF c(1,2) fit s(1) c(3,4) s(4) c(5-7)]) simp_all
  have "compact_presorted env bn it rest c = Inr c''"
    using r(1,2) sk by (simp add: compact_presorted_def)
  moreover have "compacted env E ready bn low it rest c c''"
    using r(3) by (simp add: compacted_def)
  ultimately show thesis
    using that by blast
qed

lemma write_same_keeps:
  assumes "bytes_at sc a n = bytes_at pg a n" "a + n \<le> length pg" "b + m \<le> length pg" "length sc = length pg"
  shows "bytes_at (write_at sc b (bytes_at pg b m)) a n = bytes_at pg a n"
proof (rule nth_equalityI)
  fix i assume "i < length (bytes_at (write_at sc b (bytes_at pg b m)) a n)"
  then have i: "i < n"
    using assms by (simp add: bytes_at_def)
  then have "sc ! (a + i) = pg ! (a + i)"
    using assms nth_bytes_at [of i n a sc] nth_bytes_at [of i n a pg] by simp
  then show "bytes_at (write_at sc b (bytes_at pg b m)) a n ! i = bytes_at pg a n ! i"
    using assms i by (auto simp: nth_bytes_at nth_write_at)
qed (use assms in simp)

lemma copy_items_result:
  assumes "length sc = length pg" "\<forall>q\<in>set its. item_end q \<le> length pg"
    and "\<forall>q\<in>set done. item_end q \<le> length pg \<and> bytes_at sc (itemoff q) (alignedlen q) = bytes_at pg (itemoff q) (alignedlen q)"
  shows "\<exists>sc'. copy_items pg its sc = Inr sc' \<and> length sc' = length pg \<and>
    (\<forall>q\<in>set done \<union> set its. bytes_at sc' (itemoff q) (alignedlen q) = bytes_at pg (itemoff q) (alignedlen q))"
  using assms
proof (induction its arbitrary: sc "done")
  case (Cons it its)
  let ?sc = "write_at sc (itemoff it) (bytes_at pg (itemoff it) (alignedlen it))"
  have it: "itemoff it + alignedlen it \<le> length pg"
    using Cons.prems(2) by (simp add: item_end_def)
  have step: "copy_items pg (it # its) sc = copy_items pg its ?sc"
    using it Cons.prems(1) by (simp add: memmove_def)
  have kept: "\<forall>q\<in>set (done @ [it]). item_end q \<le> length pg \<and>
      bytes_at ?sc (itemoff q) (alignedlen q) = bytes_at pg (itemoff q) (alignedlen q)"
    using Cons.prems it by (auto simp: item_end_def intro!: write_same_keeps)
  have "\<exists>sc'. copy_items pg its ?sc = Inr sc' \<and> length sc' = length pg \<and>
    (\<forall>q\<in>set (done @ [it]) \<union> set its. bytes_at sc' (itemoff q) (alignedlen q) = bytes_at pg (itemoff q) (alignedlen q))"
    using Cons.prems(1,2) it by (intro Cons.IH kept) simp_all
  then show ?case
    unfolding step by auto
qed auto

lemma lengths_fit_pos: "lengths_fit p its \<Longrightarrow> q \<in> set (p # its) \<Longrightarrow> 24 \<le> alignedlen q"
  by (induction its arbitrary: p) auto

lemma below_skipped:
  assumes "new_offsets s skipped = map (\<lambda>x. (offsetindex x + 1, itemoff x)) skipped" "total_len skipped \<le> s"
    and "\<forall>x\<in>set skipped. apart True x q" "item_end q \<le> s" "0 < alignedlen q"
  shows "item_end q \<le> s - total_len skipped"
  using assms
proof (induction skipped arbitrary: s)
  case (Cons x xs)
  have x: "s - alignedlen x = itemoff x" "new_offsets (itemoff x) xs = map (\<lambda>x. (offsetindex x + 1, itemoff x)) xs"
    "alignedlen x + total_len xs \<le> s"
    using Cons.prems(1,2) by (auto simp: total_len_def)
  then have e: "s - total_len (x # xs) = itemoff x - total_len xs" "total_len xs \<le> itemoff x" "item_end x = s"
    by (simp_all add: total_len_def item_end_def)
  have "item_end q \<le> itemoff x"
    using Cons.prems(3-5) e(3) by (auto simp: apart_def item_end_def)
  then show ?case
    unfolding e(1) using Cons.IH [OF x(2) e(2)] Cons.prems(3,5) by simp
qed (simp add: total_len_def)

lemma memmove_nat:
  "a + n \<le> length dst \<Longrightarrow> b + n \<le> length buf \<Longrightarrow>
     memmove dst (int a) buf (int b) (int n) = Inr (write_at dst a (bytes_at buf b n))"
  by (simp add: memmove_def)

lemma fill_scratch_result:
  assumes items: "items_ok True low pg (it # rest)" and fit: "lengths_fit it rest" and sc: "length sc = 8192"
    and upper: "\<forall>q\<in>set (it # rest). unat (pd_upper pg) \<le> itemoff q"
  shows "\<exists>scratch up cur todo skipped. fill_scratch pg it rest sc = Inr (scratch, up, cur, todo) \<and>
    it # rest = skipped @ todo \<and> up = int (unat (pd_special pg) - total_len skipped) \<and>
    new_offsets (unat (pd_special pg)) skipped = map (\<lambda>q. (offsetindex q + 1, itemoff q)) skipped \<and>
    cur = (case todo of [] \<Rightarrow> last (it # rest) | q # qs \<Rightarrow> q) \<and> length scratch = 8192 \<and>
    (\<forall>q\<in>set todo. bytes_at scratch (itemoff q) (alignedlen q) = bytes_at pg (itemoff q) (alignedlen q))"
proof -
  let ?s = "unat (pd_special pg)" and ?up = "unat (pd_upper pg)"
  have i: "\<forall>q\<in>set (it # rest). item_end q \<le> ?s" "sorted_wrt (apart True) (it # rest)"
    "low + total_len (it # rest) \<le> ?s" "?s \<le> 8192" "length pg = 8192"
    using items unfolding items_ok_def by blast+
  show ?thesis
  proof (cases "length (it # rest) < PageGetMaxOffsetNumber pg div 4")
    case True
    have "\<exists>sc'. copy_items pg (it # rest) sc = Inr sc' \<and> length sc' = length pg \<and>
      (\<forall>q\<in>set [] \<union> set (it # rest). bytes_at sc' (itemoff q) (alignedlen q) = bytes_at pg (itemoff q) (alignedlen q))"
      using i sc by (intro copy_items_result) (auto intro: le_trans)
    then obtain sc' where "copy_items pg (it # rest) sc = Inr sc'" "length sc' = 8192"
      "\<forall>q\<in>set (it # rest). bytes_at sc' (itemoff q) (alignedlen q) = bytes_at pg (itemoff q) (alignedlen q)"
      using i(5) by auto
    then show ?thesis
      using True by (intro exI [of _ sc'] exI [of _ "int ?s"] exI [of _ it] exI [of _ "it # rest"] exI [of _ "[]"])
        (simp add: fill_scratch_def total_len_def Let_def)
  next
    case False
    obtain up cur todo where sk: "skip_in_place it rest (int ?s) = (up, cur, todo)"
      by (metis prod_cases3)
    then obtain skipped where s: "it # rest = skipped @ todo" "up = int (?s - total_len skipped)"
        "new_offsets ?s skipped = map (\<lambda>q. (offsetindex q + 1, itemoff q)) skipped"
        "cur = (case todo of [] \<Rightarrow> last (it # rest) | q # qs \<Rightarrow> q)"
      by (rule skip_cases [OF items])
    have tot: "total_len skipped \<le> ?s"
      using i(3) s(1) by simp
    have mem: "set todo \<subseteq> set (it # rest)" "set skipped \<subseteq> set (it # rest)"
      unfolding s(1) by auto
    have "item_end q \<le> ?s - total_len skipped" if "q \<in> set todo" for q
    proof (rule below_skipped [OF s(3) tot])
      show "\<forall>x\<in>set skipped. apart True x q"
        using i(2) that unfolding s(1) by (simp add: sorted_wrt_append)
      show "item_end q \<le> ?s" "0 < alignedlen q"
        using that i(1) mem lengths_fit_pos [OF fit, of q] by fastforce+
    qed
    then have todo: "?up \<le> itemoff q" "item_end q \<le> ?s - total_len skipped" if "q \<in> set todo" for q
      using that upper mem by auto
    have up: "?up \<le> ?s - total_len skipped"
    proof (cases todo)
      case Nil
      then have l: "last (it # rest) \<in> set skipped"
        using s(1) by (metis append_Nil2 last_in_set list.distinct(1))
      have "?s - total_len skipped = itemoff (last skipped)"
      proof -
        obtain xs x where "skipped = xs @ [x]"
          using l by (metis append_butlast_last_id empty_iff list.set(1))
        with s(3) show ?thesis
          by (simp add: new_offsets_append total_len_def)
      qed
      moreover have "last skipped \<in> set (it # rest)"
        using l mem(2) by (metis empty_iff last_in_set list.set(1) subsetD)
      ultimately show ?thesis
        using upper by auto
    next
      case (Cons q qs)
      then show ?thesis
        using todo [of q] by (simp add: item_end_def)
    qed
    let ?sc = "write_at sc ?up (bytes_at pg ?up (?s - total_len skipped - ?up))"
    have "memmove sc (int ?up) pg (int ?up) (up - int ?up) = Inr ?sc"
      using up i(4,5) sc unfolding s(2) of_nat_diff [OF up, symmetric] by (intro memmove_nat) auto
    moreover have "bytes_at ?sc (itemoff q) (alignedlen q) = bytes_at pg (itemoff q) (alignedlen q)" if "q \<in> set todo" for q
      using todo [OF that] up i(4,5) sc
      by (subst bytes_at_write_inside) (simp_all add: item_end_def bytes_at_bytes_at)
    moreover have "length ?sc = 8192"
      using up i(4,5) sc by simp
    ultimately show ?thesis
      using False sk s by (intro exI [of _ ?sc] exI [of _ up] exI [of _ cur] exI [of _ todo] exI [of _ skipped])
        (simp add: fill_scratch_def Let_def)
  qed
qed

lemma compact_scratch_result:
  assumes ok: "session_ok (env, E, ready, cp_keys c)" and items: "items_ok True low (cp_page c) (it # rest)"
    and fit: "lengths_fit it rest" and sc: "length (cp_scratch c) = 8192"
    and upper: "\<forall>q\<in>set (it # rest). unat (pd_upper (cp_page c)) \<le> itemoff q"
  obtains c' where "compact_scratch env bn it rest c = Inr c'" "compacted env E ready bn low it rest c c'"
proof -
  obtain scratch up cur todo skipped where f: "fill_scratch (cp_page c) it rest (cp_scratch c) = Inr (scratch, up, cur, todo)"
    and s: "it # rest = skipped @ todo" "up = int (unat (pd_special (cp_page c)) - total_len skipped)"
      "new_offsets (unat (pd_special (cp_page c))) skipped = map (\<lambda>q. (offsetindex q + 1, itemoff q)) skipped"
      "cur = (case todo of [] \<Rightarrow> last (it # rest) | q # qs \<Rightarrow> q)"
    and b: "length scratch = 8192" "\<forall>q\<in>set todo. bytes_at scratch (itemoff q) (alignedlen q) = bytes_at (cp_page c) (itemoff q) (alignedlen q)"
    using fill_scratch_result [OF items fit sc upper] by (elim exE conjE)
  let ?c = "c\<lparr>cp_scratch := scratch, cp_upper := up, cp_head := item_end cur, cp_tail := item_end cur\<rparr>"
  have c: "session_ok (env, E, ready, cp_keys ?c)" "items_ok True low (cp_page ?c) (it # rest)"
    "cp_upper ?c = int (unat (pd_special (cp_page ?c)) - total_len skipped)"
    "new_offsets (unat (pd_special (cp_page ?c))) skipped = map (\<lambda>q. (offsetindex q + 1, itemoff q)) skipped"
    "cp_head ?c = item_end cur" "cp_tail ?c = item_end cur" "length (cp_scratch ?c) = 8192"
    "\<forall>q\<in>set todo. bytes_at (cp_scratch ?c) (itemoff q) (alignedlen q) = bytes_at (cp_page ?c) (itemoff q) (alignedlen q)"
    using ok items s(2,3) b by (simp_all del: session_ok.simps)
  obtain c' c'' where r: "compact_loop (scratch_step env bn) todo ?c = Inr c'" "scratch_end env bn (last (cur # todo)) c' = Inr c''"
    "compacted env E ready bn low it rest ?c c''"
    by (rule in_scratch.after_skip [where bn = bn, OF c(1,2) fit s(1) c(3,4) s(4) c(5-8)])
  have "compact_scratch env bn it rest c = Inr c''"
    using f r(1,2) by (simp add: compact_scratch_def)
  moreover have "compacted env E ready bn low it rest c c''"
    using r(3) by (simp add: compacted_def)
  ultimately show thesis
    using that by blast
qed

end
