(* ===== verification/Repair.thy ===== *)
theory Repair
  imports Compact
begin

text \<open>
  What \<^verbatim>\<open>TdePageRepairFragmentation\<close> does to a page: the scan of the line pointers finds the live
  tuples, the compaction of theory \<^verbatim>\<open>Compact\<close> moves them, and the line pointers of the other items
  stay. A tuple's plaintext survives when every live tuple of the page has the same length and a
  header of 24 bytes; two properties and \<open>longer_item_overwrites\<close> show what happens otherwise.
\<close>

section \<open>The scan of the line pointers\<close>

definition live :: "page \<Rightarrow> nat \<Rightarrow> bool" where
  "live pg i = (ItemIdIsUsed (PageGetItemId pg i) \<and> ItemIdHasStorage (PageGetItemId pg i))"

definition items_of :: "page \<Rightarrow> nat list \<Rightarrow> itemIdCompactData list" where
  "items_of pg is = map (\<lambda>i. compact_item i (PageGetItemId pg i)) (filter (live pg) is)"

definition live_items :: "page \<Rightarrow> itemIdCompactData list" where
  "live_items pg = items_of pg [1..<Suc (PageGetMaxOffsetNumber pg)]"

definition lp_cleared :: "nat \<Rightarrow> nat list \<Rightarrow> page \<Rightarrow> page \<Rightarrow> bool" where
  "lp_cleared low is pg pg' \<longleftrightarrow>
     same_above low pg pg' \<and> bytes_at pg' 0 24 = bytes_at pg 0 24 \<and>
     (\<forall>j. 1 \<le> j \<longrightarrow> 24 + 4 * j \<le> low \<longrightarrow> PageGetItemId pg' j =
        (if j \<in> set is \<and> \<not> ItemIdIsUsed (PageGetItemId pg j) then unused_item else PageGetItemId pg j))"

lemma unused_item_unused [simp]: "ItemIdIsUsed unused_item = False"
  by (simp add: unused_item_def ItemIdIsUsed_def)

lemma lp_cleared_refl: "lp_cleared low [] pg pg"
  by (simp add: lp_cleared_def same_above_def)

lemma lp_cleared_used:
  assumes "lp_cleared low is pg pg'" "ItemIdIsUsed (PageGetItemId pg i)"
  shows "lp_cleared low (i # is) pg pg'"
  using assms by (auto simp: lp_cleared_def)

lemma lp_cleared_set:
  assumes "lp_cleared low is (set_item_id i unused_item pg) pg'" "1 \<le> i" "24 + 4 * i \<le> low" "low \<le> length pg"
    and "\<not> ItemIdIsUsed (PageGetItemId pg i)"
  shows "lp_cleared low (i # is) pg pg'"
proof -
  let ?pg = "set_item_id i unused_item pg"
  have "same_above low pg ?pg" "bytes_at ?pg 0 24 = bytes_at pg 0 24"
    using assms(2-4) by (simp_all add: same_above_def set_item_id_def bytes_at_write_disjoint)
  moreover have "PageGetItemId ?pg j = (if j = i then unused_item else PageGetItemId pg j)" if "1 \<le> j" for j
    using assms(2-4) that by (simp add: PageGetItemId_set)
  ultimately show ?thesis
    using assms(1,5) unfolding lp_cleared_def same_above_def by auto
qed

lemma live_set_unused:
  assumes "1 \<le> i" "24 + 4 * i \<le> length pg" "i \<notin> set is" "\<forall>j\<in>set is. 1 \<le> j"
  shows "items_of (set_item_id i unused_item pg) is = items_of pg is"
proof -
  have "PageGetItemId (set_item_id i unused_item pg) j = PageGetItemId pg j" if "j \<in> set is" for j
    using assms that by (subst PageGetItemId_set) auto
  then show ?thesis
    unfolding items_of_def live_def by (intro map_cong filter_cong) auto
qed

definition in_bounds :: "nat \<Rightarrow> nat \<Rightarrow> itemIdCompactData list \<Rightarrow> bool" where
  "in_bounds upper special its \<longleftrightarrow> (\<forall>q\<in>set its. upper \<le> itemoff q \<and> itemoff q < special)"

lemma collect_items_result:
  assumes "\<forall>i\<in>set is. 1 \<le> i \<and> 24 + 4 * i \<le> low" "sorted_wrt (<) is" "low \<le> length (rp_page r)"
    and "in_bounds upper special (items_of (rp_page r) is)"
    and "length (rp_items r) + length (items_of (rp_page r) is) \<le> 291"
    and "\<forall>i\<in>set is. rp_finalusedlp r \<le> i"
  shows "\<exists>r'. collect_items upper special is r = (Inr (), r') \<and>
    rp_items r' = rp_items r @ items_of (rp_page r) is \<and>
    rp_totallen r' = rp_totallen r + total_len (items_of (rp_page r) is) \<and>
    (rp_presorted r' \<longrightarrow> rp_presorted r \<and> (\<forall>q\<in>set (items_of (rp_page r) is). itemoff q < rp_last_offset r) \<and>
       sorted_wrt (\<lambda>p q. itemoff q < itemoff p) (items_of (rp_page r) is)) \<and>
    lp_cleared low is (rp_page r) (rp_page r') \<and> rp_finalusedlp r \<le> rp_finalusedlp r' \<and>
    rp_finalusedlp r' \<in> insert (rp_finalusedlp r) (set is) \<and>
    (\<forall>i\<in>set is. ItemIdIsUsed (PageGetItemId (rp_page r) i) \<longrightarrow> i \<le> rp_finalusedlp r')"
  using assms
proof (induction "is" arbitrary: r)
  case Nil
  then show ?case
    by (simp add: items_of_def total_len_def lp_cleared_refl)
next
  case (Cons i "is")
  let ?pg = "rp_page r" and ?lp = "PageGetItemId (rp_page r) i"
  let ?it = "compact_item i ?lp"
  have i: "1 \<le> i" "24 + 4 * i \<le> low" "i \<notin> set is" "\<forall>j\<in>set is. 1 \<le> j \<and> 24 + 4 * j \<le> low" "sorted_wrt (<) is"
    "\<forall>j\<in>set is. i \<le> j" "\<forall>j\<in>set is. rp_finalusedlp r \<le> j" "rp_finalusedlp r \<le> i"
    using Cons.prems(1,2,6) by auto
  consider "ItemIdIsUsed ?lp" "ItemIdHasStorage ?lp" | "ItemIdIsUsed ?lp" "\<not> ItemIdHasStorage ?lp" | "\<not> ItemIdIsUsed ?lp"
    by blast
  then show ?case
  proof cases
    case 1
    let ?r = "r\<lparr>rp_items := rp_items r @ [?it], rp_presorted := (rp_presorted r \<and> rp_last_offset r > itemoff ?it),
        rp_last_offset := min (rp_last_offset r) (itemoff ?it), rp_totallen := rp_totallen r + alignedlen ?it,
        rp_finalusedlp := i\<rparr>"
    have its: "items_of ?pg (i # is) = ?it # items_of ?pg is"
      using 1 by (simp add: items_of_def live_def)
    then have b: "upper \<le> itemoff ?it" "itemoff ?it < special" "in_bounds upper special (items_of ?pg is)"
      using Cons.prems(4) by (simp_all add: in_bounds_def)
    have step: "collect_items upper special (i # is) r = collect_items upper special is ?r"
      using 1 b Cons.prems(5) its by (simp add: collect_item_def Let_def not_le)
    have sel: "rp_page ?r = ?pg" "rp_items ?r = rp_items r @ [?it]"
      by simp_all
    have n: "length (rp_items ?r) + length (items_of (rp_page ?r) is) \<le> 291"
      using Cons.prems(5) its by simp
    have "in_bounds upper special (items_of (rp_page ?r) is)" "low \<le> length (rp_page ?r)"
      using b(3) Cons.prems(3) by simp_all
    from Cons.IH [OF i(4,5) this(2,1) n] i(6) obtain r' where r': "collect_items upper special is ?r = (Inr (), r')"
      "rp_items r' = rp_items ?r @ items_of ?pg is" "rp_totallen r' = rp_totallen ?r + total_len (items_of ?pg is)"
      "rp_presorted r' \<longrightarrow> rp_presorted ?r \<and> (\<forall>q\<in>set (items_of ?pg is). itemoff q < rp_last_offset ?r) \<and>
         sorted_wrt (\<lambda>p q. itemoff q < itemoff p) (items_of ?pg is)"
      "lp_cleared low is ?pg (rp_page r')" "i \<le> rp_finalusedlp r'" "rp_finalusedlp r' \<in> insert i (set is)"
      "\<forall>j\<in>set is. ItemIdIsUsed (PageGetItemId ?pg j) \<longrightarrow> j \<le> rp_finalusedlp r'"
      unfolding sel(1) by auto
    then show ?thesis
      unfolding step its using lp_cleared_used [OF r'(5) 1(1)] by (intro exI [of _ r']) (auto simp: total_len_def intro: le_trans [OF i(8)])
  next
    case 2
    let ?r = "r\<lparr>rp_finalusedlp := i\<rparr>"
    have its: "items_of ?pg (i # is) = items_of ?pg is"
      using 2 by (simp add: items_of_def live_def)
    have step: "collect_items upper special (i # is) r = collect_items upper special is ?r"
      using 2 by (simp add: collect_item_def Let_def)
    from Cons.IH [OF i(4,5), of ?r] i(6) Cons.prems(3-5) its obtain r' where
      r': "collect_items upper special is ?r = (Inr (), r')"
      "rp_items r' = rp_items r @ items_of ?pg is" "rp_totallen r' = rp_totallen r + total_len (items_of ?pg is)"
      "rp_presorted r' \<longrightarrow> rp_presorted r \<and> (\<forall>q\<in>set (items_of ?pg is). itemoff q < rp_last_offset r) \<and>
         sorted_wrt (\<lambda>p q. itemoff q < itemoff p) (items_of ?pg is)"
      "lp_cleared low is ?pg (rp_page r')" "i \<le> rp_finalusedlp r'" "rp_finalusedlp r' \<in> insert i (set is)"
      "\<forall>j\<in>set is. ItemIdIsUsed (PageGetItemId ?pg j) \<longrightarrow> j \<le> rp_finalusedlp r'"
      by auto
    then show ?thesis
      unfolding step its using lp_cleared_used [OF r'(5) 2(1)] by (intro exI [of _ r']) (auto intro: le_trans [OF i(8)])
  next
    case 3
    let ?r = "r\<lparr>rp_page := set_item_id i unused_item ?pg, rp_nunused := rp_nunused r + 1\<rparr>"
    have its: "items_of ?pg (i # is) = items_of ?pg is"
      using 3 by (simp add: items_of_def live_def)
    have same: "items_of (rp_page ?r) is = items_of ?pg is"
      using i Cons.prems(3) by (simp add: live_set_unused)
    have step: "collect_items upper special (i # is) r = collect_items upper special is ?r"
      using 3 by (simp add: collect_item_def Let_def)
    have "low \<le> length (rp_page ?r)"
      using Cons.prems(3) i(1,2) by (simp add: set_item_id_def)
    from Cons.IH [OF i(4,5) this] obtain r' where r': "collect_items upper special is ?r = (Inr (), r')"
      "rp_items r' = rp_items r @ items_of ?pg is" "rp_totallen r' = rp_totallen r + total_len (items_of ?pg is)"
      "rp_presorted r' \<longrightarrow> rp_presorted r \<and> (\<forall>q\<in>set (items_of ?pg is). itemoff q < rp_last_offset r) \<and>
         sorted_wrt (\<lambda>p q. itemoff q < itemoff p) (items_of ?pg is)"
      "lp_cleared low is (set_item_id i unused_item ?pg) (rp_page r')" "rp_finalusedlp r \<le> rp_finalusedlp r'"
      "rp_finalusedlp r' \<in> insert (rp_finalusedlp r) (set is)"
      "\<forall>j\<in>set is. ItemIdIsUsed (PageGetItemId (set_item_id i unused_item ?pg) j) \<longrightarrow> j \<le> rp_finalusedlp r'"
      unfolding same using Cons.prems(4,5) its i(7) by auto
    have "PageGetItemId (set_item_id i unused_item ?pg) j = PageGetItemId ?pg j" if "j \<in> set is" for j
      using i Cons.prems(3) that by (subst PageGetItemId_set) auto
    with r'(8) have "\<forall>j\<in>set (i # is). ItemIdIsUsed (PageGetItemId ?pg j) \<longrightarrow> j \<le> rp_finalusedlp r'"
      using 3 by auto
    with r' lp_cleared_set [OF r'(5) i(1,2) Cons.prems(3) 3] show ?thesis
      unfolding step its by (intro exI [of _ r']) auto
  qed
qed

section \<open>Repairing a well-formed page\<close>

declare upt_Suc [simp del]

text \<open>
  The pages the check at the start of the routine accepts, with the tuples between \<open>pd_upper\<close> and
  \<open>pd_special\<close> and no two of them sharing storage.
\<close>

definition page_wf :: "page \<Rightarrow> bool" where
  "page_wf pg \<longleftrightarrow>
     length pg = BLCKSZ \<and> SizeOfPageHeaderData \<le> unat (pd_lower pg) \<and> unat (pd_lower pg) \<le> unat (pd_upper pg) \<and>
     unat (pd_upper pg) \<le> unat (pd_special pg) \<and> unat (pd_special pg) \<le> BLCKSZ \<and>
     unat (pd_special pg) = MAXALIGN (unat (pd_special pg)) \<and>
     (\<forall>q\<in>set (live_items pg). unat (pd_upper pg) \<le> itemoff q \<and> item_end q \<le> unat (pd_special pg)) \<and>
     sorted_wrt (apart True) (live_items pg) \<and> length (live_items pg) \<le> MaxHeapTuplesPerPage \<and>
     total_len (live_items pg) \<le> unat (pd_special pg) - unat (pd_lower pg)"

lemma line_pointers_below_lower:
  assumes "24 \<le> unat (pd_lower pg)"
  shows "24 + 4 * PageGetMaxOffsetNumber pg \<le> unat (pd_lower pg)"
  using assms by (auto simp: PageGetMaxOffsetNumber_def)

lemma items_of_cleared:
  assumes "lp_cleared low is pg pg'" "\<forall>i\<in>set is. 1 \<le> i \<and> 24 + 4 * i \<le> low"
  shows "items_of pg' is = items_of pg is"
proof -
  have e: "PageGetItemId pg' j = (if ItemIdIsUsed (PageGetItemId pg j) then PageGetItemId pg j else unused_item)"
    if "j \<in> set is" for j
    using assms that unfolding lp_cleared_def by auto
  have "filter (live pg') is = filter (live pg) is"
  proof (rule filter_cong [OF refl])
    fix j assume "j \<in> set is"
    then show "live pg' j = live pg j"
      using e [of j] by (simp add: live_def)
  qed
  moreover have "compact_item j (PageGetItemId pg' j) = compact_item j (PageGetItemId pg j)"
    if "j \<in> set (filter (live pg) is)" for j
    using that e [of j] by (simp add: live_def)
  ultimately show ?thesis
    unfolding items_of_def by (intro map_cong) simp_all
qed

lemma header_field: "bytes_at pg' 0 24 = bytes_at pg 0 24 \<Longrightarrow> a + n \<le> 24 \<Longrightarrow> bytes_at pg' a n = bytes_at pg a n"
  using bytes_at_bytes_at [of a n 24 pg 0] bytes_at_bytes_at [of a n 24 pg' 0] by simp

lemma header_fields:
  assumes "bytes_at pg' 0 24 = bytes_at pg 0 24"
  shows "pd_lower pg' = pd_lower pg" "pd_special pg' = pd_special pg" "pd_flags pg' = pd_flags pg" "pd_upper pg' = pd_upper pg"
  using header_field [OF assms, of 12 2] header_field [OF assms, of 16 2] header_field [OF assms, of 10 2]
    header_field [OF assms, of 14 2]
  by (simp_all add: pd_lower_def pd_special_def pd_flags_def TupleStore.pd_upper_def bytes_at_def)

lemma apart_presorted:
  assumes "sorted_wrt (apart True) its" "sorted_wrt (\<lambda>p q. itemoff q < itemoff p) its" "\<forall>q\<in>set its. 0 < alignedlen q"
  shows "sorted_wrt (apart False) its"
  using assms
proof (induction its)
  case (Cons p its)
  have "apart False p q" if "q \<in> set its" for q
  proof -
    have "apart True p q" "itemoff q < itemoff p"
      using Cons.prems(1,2) that by simp_all
    then show ?thesis
      by (auto simp: apart_def item_end_def)
  qed
  with Cons show ?case
    by simp
qed simp

lemma live_items_lp:
  assumes "q \<in> set (live_items pg)"
  shows "offsetindex q + 1 \<le> PageGetMaxOffsetNumber pg" "live pg (offsetindex q + 1)"
    "q = compact_item (offsetindex q + 1) (PageGetItemId pg (offsetindex q + 1))"
  using assms by (auto simp: live_items_def items_of_def compact_item_def)

lemma live_items_index: "map offsetindex (live_items pg) = map (\<lambda>i. i - 1) (filter (live pg) [1..<Suc (PageGetMaxOffsetNumber pg)])"
  by (simp add: live_items_def items_of_def compact_item_def comp_def)

lemma distinct_live_items: "distinct (map offsetindex (live_items pg))"
  unfolding live_items_index distinct_map
proof
  show "inj_on (\<lambda>i. i - 1) (set (filter (live pg) [1..<Suc (PageGetMaxOffsetNumber pg)]))"
  proof (rule inj_onI)
    fix x y assume "x \<in> set (filter (live pg) [1..<Suc (PageGetMaxOffsetNumber pg)])"
      "y \<in> set (filter (live pg) [1..<Suc (PageGetMaxOffsetNumber pg)])" "x - 1 = y - 1"
    then have "1 \<le> x" "1 \<le> y" "x - 1 = y - 1"
      by auto
    then show "x = y"
      by linarith
  qed
qed (rule distinct_filter, rule distinct_upt)

lemma items_ok_live:
  assumes wf: "page_wf pg" and cl: "lp_cleared (unat (pd_lower pg)) [1..<Suc (PageGetMaxOffsetNumber pg)] pg pg'"
    and "sorted_wrt (apart separate) (live_items pg)"
  shows "items_ok separate (unat (pd_lower pg)) pg' (live_items pg)"
proof -
  let ?low = "unat (pd_lower pg)"
  have w: "length pg = 8192" "24 \<le> ?low" "?low \<le> unat (pd_upper pg)" "unat (pd_special pg) \<le> 8192"
    "\<forall>q\<in>set (live_items pg). unat (pd_upper pg) \<le> itemoff q \<and> item_end q \<le> unat (pd_special pg)"
    "total_len (live_items pg) \<le> unat (pd_special pg) - ?low" "unat (pd_upper pg) \<le> unat (pd_special pg)"
    using wf unfolding page_wf_def by blast+
  have hd: "pd_special pg' = pd_special pg" "length pg' = 8192"
    using cl w(1) header_fields(2) [of pg' pg] unfolding lp_cleared_def same_above_def by (blast, metis)
  have lps: "PageGetItemId pg' j = PageGetItemId pg j" if "1 \<le> j" "24 + 4 * j \<le> ?low" "ItemIdIsUsed (PageGetItemId pg j)" for j
    using cl that unfolding lp_cleared_def by metis
  have "28 + 4 * offsetindex q \<le> ?low \<and> lp_off (PageGetItemId pg' (offsetindex q + 1)) = of_nat (itemoff q)"
    if q: "q \<in> set (live_items pg)" for q
  proof -
    let ?i = "offsetindex q + 1"
    have i: "24 + 4 * ?i \<le> ?low"
      using live_items_lp(1) [OF q] by (intro order_trans [OF _ line_pointers_below_lower [OF w(2)]]) simp
    have "PageGetItemId pg' ?i = PageGetItemId pg ?i"
      using i live_items_lp(2) [OF q] unfolding live_def by (intro lps) simp_all
    moreover have "itemoff q = unat (lp_off (PageGetItemId pg ?i))"
      by (subst live_items_lp(3) [OF q]) (simp add: compact_item_def)
    ultimately show ?thesis
      using i by simp
  qed
  moreover have "?low \<le> itemoff q \<and> item_end q \<le> unat (pd_special pg)" if "q \<in> set (live_items pg)" for q
    using w(3,5) that by force
  moreover have "?low + total_len (live_items pg) \<le> unat (pd_special pg)"
    using w(3,6,7) by linarith
  ultimately show ?thesis
    using assms(3) w(2,4) hd(2) distinct_live_items [of pg] unfolding items_ok_def hd(1) by blast
qed

text \<open>The header fields written last leave the line pointers and the tuples alone.\<close>

definition body_kept :: "page \<Rightarrow> page \<Rightarrow> bool" where
  "body_kept pg pg' \<longleftrightarrow> same_above 24 pg pg'"

lemma body_kept_refl [simp]: "body_kept pg pg"
  by (simp add: body_kept_def same_above_def)

lemma body_kept_trans: "body_kept pg pg1 \<Longrightarrow> body_kept pg1 pg2 \<Longrightarrow> body_kept pg pg2"
  by (simp add: body_kept_def same_above_def)

lemma body_kept_write: "24 \<le> length pg \<Longrightarrow> a + length bs \<le> 24 \<Longrightarrow> body_kept pg (write_at pg a bs)"
  by (simp add: body_kept_def same_above_def bytes_at_write_disjoint)

lemma body_kept_length: "body_kept pg pg' \<Longrightarrow> length pg' = length pg"
  by (simp add: body_kept_def same_above_def)

lemma body_kept_bytes: "body_kept pg pg' \<Longrightarrow> 24 \<le> a \<Longrightarrow> bytes_at pg' a n = bytes_at pg a n"
  by (simp add: body_kept_def same_above_def)

lemma body_kept_item: "body_kept pg pg' \<Longrightarrow> 1 \<le> i \<Longrightarrow> PageGetItemId pg' i = PageGetItemId pg i"
  by (simp add: PageGetItemId_def body_kept_bytes)

lemma body_kept_truncate:
  assumes "24 \<le> length pg"
  shows "body_kept pg (truncate_lps nline r pg)"
proof -
  have lower: "body_kept pg (set_pd_lower w pg)" for w
    using assms unfolding set_pd_lower_def by (intro body_kept_write) simp_all
  have flags: "body_kept pg (set_pd_flags w pg')" if "body_kept pg pg'" for w pg'
    using that assms unfolding set_pd_flags_def
    by (intro body_kept_trans [OF that body_kept_write]) (simp_all add: body_kept_length)
  show ?thesis
    unfolding truncate_lps_def Let_def PageSetHasFreeLinePointers_def PageClearHasFreeLinePointers_def
    using flags lower by auto
qed

lemma upper_truncate:
  assumes "24 \<le> length pg"
  shows "pd_upper (truncate_lps nline r pg) = pd_upper pg" "pd_special (truncate_lps nline r pg) = pd_special pg"
proof -
  have fl: "pd_upper (set_pd_flags w pg') = pd_upper pg'" "pd_special (set_pd_flags w pg') = pd_special pg'"
    if "24 \<le> length pg'" for w pg'
    using that bytes_at_write_disjoint [of 10 "le_bytes 2 w" pg' 14 2] bytes_at_write_disjoint [of 10 "le_bytes 2 w" pg' 16 2]
    by (simp_all add: set_pd_flags_def TupleStore.pd_upper_def pd_special_def bytes_at_def)
  have lo: "pd_upper (set_pd_lower w pg) = pd_upper pg" "pd_special (set_pd_lower w pg) = pd_special pg" for w
    using assms bytes_at_write_disjoint [of 12 "le_bytes 2 w" pg 14 2] bytes_at_write_disjoint [of 12 "le_bytes 2 w" pg 16 2]
    by (simp_all add: set_pd_lower_def TupleStore.pd_upper_def pd_special_def bytes_at_def)
  have "24 \<le> length (set_pd_lower w pg)" for w
    using assms by (simp add: set_pd_lower_def)
  with assms show "pd_upper (truncate_lps nline r pg) = pd_upper pg" "pd_special (truncate_lps nline r pg) = pd_special pg"
    by (simp_all add: truncate_lps_def Let_def PageSetHasFreeLinePointers_def PageClearHasFreeLinePointers_def fl lo)
qed

text \<open>
  The pages before and after a repair: every live tuple is at its new offset with the bytes
  \<open>expected\<close> gives, and of the line pointers only the offsets of the live tuples have changed,
  apart from the clearing of unused ones.
\<close>

definition repaired :: "(nat \<Rightarrow> byte) \<Rightarrow> block_number \<Rightarrow> page \<Rightarrow> page \<Rightarrow> bool" where
  "repaired st bn pg pg' \<longleftrightarrow>
     length pg' = length pg \<and> pd_special pg' = pd_special pg \<and>
     unat (pd_upper pg') = unat (pd_special pg) - total_len (live_items pg) \<and>
     (case live_items pg of [] \<Rightarrow> True
      | it # rest \<Rightarrow> holds pg' (expected st bn pg (unat (pd_special pg) - alignedlen it) it rest)) \<and>
     (\<forall>i. 1 \<le> i \<and> i \<le> PageGetMaxOffsetNumber pg \<longrightarrow>
        PageGetItemId pg' i =
          (case map_of (new_offsets (unat (pd_special pg)) (live_items pg)) i of
             Some a \<Rightarrow> (PageGetItemId pg i)\<lparr>lp_off := of_nat a\<rparr>
           | None \<Rightarrow> if ItemIdIsUsed (PageGetItemId pg i) then PageGetItemId pg i else unused_item))"

lemma collect_page:
  assumes wf: "page_wf pg" and pos: "\<forall>q\<in>set (live_items pg). 0 < alignedlen q"
  obtains r where "collect_items (unat (pd_upper pg)) (unat (pd_special pg)) [1..<Suc (PageGetMaxOffsetNumber pg)]
      \<lparr>rp_page = pg, rp_items = [], rp_last_offset = unat (pd_special pg), rp_presorted = True,
       rp_nunused = 0, rp_finalusedlp = 0, rp_totallen = 0\<rparr> = (Inr (), r)"
    "rp_items r = live_items pg" "rp_totallen r = total_len (live_items pg)"
    "sorted_wrt (apart (\<not> rp_presorted r)) (live_items pg)"
    "lp_cleared (unat (pd_lower pg)) [1..<Suc (PageGetMaxOffsetNumber pg)] pg (rp_page r)"
    "rp_finalusedlp r \<le> PageGetMaxOffsetNumber pg"
    "\<forall>i\<in>{1..PageGetMaxOffsetNumber pg}. ItemIdIsUsed (PageGetItemId pg i) \<longrightarrow> i \<le> rp_finalusedlp r"
proof -
  let ?r = "\<lparr>rp_page = pg, rp_items = [], rp_last_offset = unat (pd_special pg), rp_presorted = True,
       rp_nunused = 0, rp_finalusedlp = 0, rp_totallen = 0\<rparr>" and ?is = "[1..<Suc (PageGetMaxOffsetNumber pg)]"
  have w: "length pg = 8192" "24 \<le> unat (pd_lower pg)" "unat (pd_lower pg) \<le> unat (pd_upper pg)"
    "unat (pd_upper pg) \<le> unat (pd_special pg)" "unat (pd_special pg) \<le> 8192"
    "\<forall>q\<in>set (live_items pg). unat (pd_upper pg) \<le> itemoff q \<and> item_end q \<le> unat (pd_special pg)"
    "sorted_wrt (apart True) (live_items pg)" "length (live_items pg) \<le> 291"
    using wf unfolding page_wf_def by blast+
  have its: "items_of (rp_page ?r) ?is = live_items pg"
    by (simp add: live_items_def)
  have is_ok: "\<forall>i\<in>set ?is. 1 \<le> i \<and> 24 + 4 * i \<le> unat (pd_lower pg)"
    using line_pointers_below_lower [OF w(2)] by auto
  have "in_bounds (unat (pd_upper pg)) (unat (pd_special pg)) (live_items pg)"
    using w(6) pos unfolding in_bounds_def item_end_def by force
  then have "\<exists>r'. collect_items (unat (pd_upper pg)) (unat (pd_special pg)) ?is ?r = (Inr (), r') \<and>
    rp_items r' = rp_items ?r @ items_of (rp_page ?r) ?is \<and>
    rp_totallen r' = rp_totallen ?r + total_len (items_of (rp_page ?r) ?is) \<and>
    (rp_presorted r' \<longrightarrow> rp_presorted ?r \<and> (\<forall>q\<in>set (items_of (rp_page ?r) ?is). itemoff q < rp_last_offset ?r) \<and>
       sorted_wrt (\<lambda>p q. itemoff q < itemoff p) (items_of (rp_page ?r) ?is)) \<and>
    lp_cleared (unat (pd_lower pg)) ?is (rp_page ?r) (rp_page r') \<and> rp_finalusedlp ?r \<le> rp_finalusedlp r' \<and>
    rp_finalusedlp r' \<in> insert (rp_finalusedlp ?r) (set ?is) \<and>
    (\<forall>i\<in>set ?is. ItemIdIsUsed (PageGetItemId (rp_page ?r) i) \<longrightarrow> i \<le> rp_finalusedlp r')"
    unfolding its [symmetric] using is_ok w(1-5,8) its by (intro collect_items_result) simp_all
  then obtain r where r: "collect_items (unat (pd_upper pg)) (unat (pd_special pg)) ?is ?r = (Inr (), r)"
    "rp_items r = live_items pg" "rp_totallen r = total_len (live_items pg)"
    "rp_presorted r \<longrightarrow> sorted_wrt (\<lambda>p q. itemoff q < itemoff p) (live_items pg)"
    "lp_cleared (unat (pd_lower pg)) ?is pg (rp_page r)" "rp_finalusedlp r \<in> insert 0 (set ?is)"
    "\<forall>i\<in>set ?is. ItemIdIsUsed (PageGetItemId pg i) \<longrightarrow> i \<le> rp_finalusedlp r"
    unfolding its by auto
  have "sorted_wrt (apart (\<not> rp_presorted r)) (live_items pg)"
    using apart_presorted [OF w(7) _ pos] r(4) w(7) by (cases "rp_presorted r") auto
  with r show thesis
    by (intro that [of r]) auto
qed

lemma expected_cong:
  "\<forall>q\<in>set (p # its). bytes_at S (itemoff q) (alignedlen q) = bytes_at S' (itemoff q) (alignedlen q) \<Longrightarrow>
     expected st bn S u p its = expected st bn S' u p its"
  by (induction its arbitrary: p u) auto

lemma expected_above: "(a, bs) \<in> set (expected st bn S u p its) \<Longrightarrow> u - total_len its \<le> a"
proof (induction its arbitrary: p u)
  case (Cons it its)
  then show ?case
    by (fastforce simp: total_len_def)
qed (simp add: total_len_def)

lemma MAXALIGN_bounds: "n \<le> MAXALIGN n" "MAXALIGN n < n + 8"
  using div_mult_mod_eq [of "n + 7" 8] mod_less_divisor [of 8 "n + 7"] unfolding MAXALIGN_def by linarith+

lemma alignedlen_live: "q \<in> set (live_items pg) \<Longrightarrow> item_len q \<le> alignedlen q \<and> 0 < alignedlen q"
proof -
  assume "q \<in> set (live_items pg)"
  then obtain i where "q = compact_item i (PageGetItemId pg i)" "ItemIdHasStorage (PageGetItemId pg i)"
    by (auto simp: live_items_def items_of_def live_def)
  then have "item_len q > 0" "alignedlen q = MAXALIGN (item_len q)"
    by (auto simp: compact_item_def ItemIdHasStorage_def unat_gt_0)
  then show ?thesis
    using MAXALIGN_bounds(1) [of "item_len q"] by simp
qed

definition fits :: "itemIdCompactData list \<Rightarrow> bool" where
  "fits its = (case its of [] \<Rightarrow> True | it # rest \<Rightarrow> lengths_fit it rest)"

lemma repaired_empty:
  assumes "live_items pg = []" "lp_cleared (unat (pd_lower pg)) [1..<Suc (PageGetMaxOffsetNumber pg)] pg pg1"
    and "24 \<le> unat (pd_lower pg)" "length pg = 8192"
  shows "repaired st bn pg (truncate_lps n r (set_pd_upper (pd_special pg) pg1))"
proof -
  let ?low = "unat (pd_lower pg)" and ?pg = "truncate_lps n r (set_pd_upper (pd_special pg) pg1)"
  have l1: "length pg1 = 8192" "bytes_at pg1 0 24 = bytes_at pg 0 24"
    using assms(2,4) unfolding lp_cleared_def same_above_def by auto
  have k: "body_kept pg1 (set_pd_upper (pd_special pg) pg1)"
    using l1 unfolding set_pd_upper_def by (intro body_kept_write) simp_all
  then have k2: "body_kept pg1 ?pg"
    using l1 body_kept_length [OF k] by (intro body_kept_trans [OF k body_kept_truncate]) simp
  have "pd_upper ?pg = pd_special pg" "pd_special ?pg = pd_special pg"
    using upper_truncate [of "set_pd_upper (pd_special pg) pg1"] body_kept_length [OF k] l1(1)
      bytes_at_write_disjoint [of 14 "le_bytes 2 (pd_special pg)" pg1 16 2] header_fields(2) [OF l1(2)]
    by (simp_all add: set_pd_upper_def TupleStore.pd_upper_def bytes_at_def [symmetric] pd_special_def)
  moreover have "PageGetItemId ?pg i = (if ItemIdIsUsed (PageGetItemId pg i) then PageGetItemId pg i else unused_item)"
    if "1 \<le> i" "i \<le> PageGetMaxOffsetNumber pg" for i
  proof -
    have "24 + 4 * i \<le> ?low"
      using that(2) by (intro order_trans [OF _ line_pointers_below_lower [OF assms(3)]]) simp
    then show ?thesis
      using that assms(2) body_kept_item [OF k2 that(1)] unfolding lp_cleared_def by auto
  qed
  ultimately show ?thesis
    using assms(1,4) l1(1) body_kept_length [OF k2] by (simp add: repaired_def total_len_def)
qed

lemma repaired_compacted:
  assumes live: "live_items pg = it # rest" and wf: "page_wf pg"
    and cl: "lp_cleared (unat (pd_lower pg)) [1..<Suc (PageGetMaxOffsetNumber pg)] pg (cp_page c)"
    and co: "compacted env E ready bn (unat (pd_lower pg)) it rest c c'"
  shows "repaired (session_stream (env, E, ready, cp_keys c)) bn pg
     (truncate_lps n r (set_pd_upper (of_int (cp_upper c')) (cp_page c')))"
proof -
  let ?low = "unat (pd_lower pg)" and ?s = "unat (pd_special pg)" and ?st = "session_stream (env, E, ready, cp_keys c)"
  let ?up = "of_int (cp_upper c') :: uint16"
  let ?pg = "truncate_lps n r (set_pd_upper ?up (cp_page c'))"
  have w: "length pg = 8192" "24 \<le> ?low" "?low \<le> unat (pd_upper pg)" "?s \<le> 8192"
    "\<forall>q\<in>set (live_items pg). unat (pd_upper pg) \<le> itemoff q \<and> item_end q \<le> ?s"
    "total_len (live_items pg) \<le> ?s - ?low" "unat (pd_upper pg) \<le> ?s"
    using wf unfolding page_wf_def by blast+
  have c1: "length (cp_page c) = 8192" "bytes_at (cp_page c) 0 24 = bytes_at pg 0 24" "same_above ?low pg (cp_page c)"
    using cl w(1) unfolding lp_cleared_def same_above_def by simp_all
  have sp: "pd_special (cp_page c) = pd_special pg"
    by (rule header_fields(2) [OF c1(2)])
  note co1 = co [unfolded compacted_def sp]
  have co': "cp_upper c' = int (?s - total_len (it # rest))"
    using co1 by (elim conjE)
  have holds': "holds (cp_page c') (expected ?st bn (cp_page c) (?s - alignedlen it) it rest)"
    using co1 by (elim conjE)
  have lp': "lp_updated ?low (new_offsets ?s (it # rest)) (cp_page c) (cp_page c')"
    using co1 by (elim conjE)
  have l2: "length (cp_page c') = 8192" "pd_special (cp_page c') = pd_special pg"
    using lp' c1(1) header_fields(2) [of "cp_page c'" "cp_page c"] sp unfolding lp_updated_def by simp_all
  have k: "body_kept (cp_page c') (set_pd_upper ?up (cp_page c'))"
    using l2 unfolding set_pd_upper_def by (intro body_kept_write) simp_all
  then have k2: "body_kept (cp_page c') ?pg"
    using l2 body_kept_length [OF k] by (intro body_kept_trans [OF k body_kept_truncate]) simp
  have exp: "expected ?st bn (cp_page c) (?s - alignedlen it) it rest = expected ?st bn pg (?s - alignedlen it) it rest"
  proof (intro expected_cong ballI)
    fix q assume "q \<in> set (it # rest)"
    then have "?low \<le> itemoff q"
      using w(3,5) unfolding live by (meson le_trans)
    then show "bytes_at (cp_page c) (itemoff q) (alignedlen q) = bytes_at pg (itemoff q) (alignedlen q)"
      using c1(3) unfolding same_above_def by blast
  qed
  have "holds ?pg (expected ?st bn pg (?s - alignedlen it) it rest)"
    unfolding holds_def
  proof clarify
    fix a bs assume ab: "(a, bs) \<in> set (expected ?st bn pg (?s - alignedlen it) it rest)"
    have "?s - alignedlen it - total_len rest \<ge> ?low"
      using w(3,6,7) live by (simp add: total_len_def)
    then have "24 \<le> a"
      using expected_above [OF ab] w(2) by linarith
    then show "bytes_at ?pg a (length bs) = bs"
      using holds' ab body_kept_bytes [OF k2, of a "length bs"] unfolding exp holds_def by auto
  qed
  moreover have up16: "unat ?up = ?s - total_len (it # rest)"
    using w(4) unfolding co' by (simp add: unat_of_nat_lt)
  moreover have "pd_upper ?pg = ?up" "pd_special ?pg = pd_special pg"
    using upper_truncate [of "set_pd_upper ?up (cp_page c')"] body_kept_length [OF k] l2
      bytes_at_write_disjoint [of 14 "le_bytes 2 ?up" "cp_page c'" 16 2]
    by (simp_all add: set_pd_upper_def TupleStore.pd_upper_def bytes_at_def [symmetric] pd_special_def)
  moreover have "PageGetItemId ?pg i = (case map_of (new_offsets ?s (live_items pg)) i of
             Some a \<Rightarrow> (PageGetItemId pg i)\<lparr>lp_off := of_nat a\<rparr>
           | None \<Rightarrow> if ItemIdIsUsed (PageGetItemId pg i) then PageGetItemId pg i else unused_item)"
    if i: "1 \<le> i" "i \<le> PageGetMaxOffsetNumber pg" for i
  proof -
    have lo: "24 + 4 * i \<le> ?low"
      using i(2) by (intro order_trans [OF _ line_pointers_below_lower [OF w(2)]]) simp
    have c: "PageGetItemId (cp_page c) i = (if ItemIdIsUsed (PageGetItemId pg i) then PageGetItemId pg i else unused_item)"
      using i lo cl unfolding lp_cleared_def by auto
    have "ItemIdIsUsed (PageGetItemId pg i)" if "map_of (new_offsets ?s (live_items pg)) i = Some a" for a
    proof -
      have "i \<in> Suc ` offsetindex ` set (live_items pg)"
        unfolding new_offsets_index [of ?s, symmetric] using imageI [OF map_of_SomeD [OF that], of fst] by simp
      then show ?thesis
        using live_items_lp(2) [of _ pg] by (auto simp: live_def)
    qed
    then show ?thesis
      using lp' c body_kept_item [OF k2 i(1)] i(1) lo live unfolding lp_updated_def by (auto split: option.splits)
  qed
  ultimately show ?thesis
    using live l2(1) w(1) body_kept_length [OF k2] unfolding repaired_def by simp
qed

text \<open>The line pointer array is cut after the last used one.\<close>

definition lps_cut :: "page \<Rightarrow> page \<Rightarrow> bool" where
  "lps_cut pg pg' \<longleftrightarrow>
     24 \<le> unat (pd_lower pg') \<and> unat (pd_lower pg') \<le> unat (pd_lower pg) \<and>
     PageGetMaxOffsetNumber pg' \<le> PageGetMaxOffsetNumber pg \<and>
     (\<forall>i\<in>{1..PageGetMaxOffsetNumber pg}. ItemIdIsUsed (PageGetItemId pg i) \<longrightarrow> i \<le> PageGetMaxOffsetNumber pg')"

lemma lower_truncate:
  assumes "24 \<le> length pg" "24 \<le> unat (pd_lower pg)" "rp_finalusedlp r \<le> PageGetMaxOffsetNumber pg"
  defines "pg' \<equiv> truncate_lps (PageGetMaxOffsetNumber pg) r pg"
  shows "unat (pd_lower pg') = unat (pd_lower pg) - 4 * (PageGetMaxOffsetNumber pg - rp_finalusedlp r)"
    "PageGetMaxOffsetNumber pg' = rp_finalusedlp r"
proof -
  let ?n = "PageGetMaxOffsetNumber pg" and ?f = "rp_finalusedlp r"
  have fl: "pd_lower (set_pd_flags w pg1) = pd_lower pg1" if "24 \<le> length pg1" for w pg1
    using that bytes_at_write_disjoint [of 10 "le_bytes 2 w" pg1 12 2] by (simp add: set_pd_flags_def pd_lower_def)
  have lo: "pd_lower (set_pd_lower w pg) = w" "24 \<le> length (set_pd_lower w pg)" for w
    using assms(1) by (simp_all add: set_pd_lower_def pd_lower_def)
  have n: "24 + 4 * ?n \<le> unat (pd_lower pg)" "unat (pd_lower pg) < 24 + 4 * ?n + 4"
    using assms(2) by (auto simp: PageGetMaxOffsetNumber_def)
  have "unat (of_nat (4 * (?n - ?f)) :: uint16) = 4 * (?n - ?f)"
    using n(1) unat_bound [of "pd_lower pg"] by (intro unat_of_nat_lt) simp
  then have "unat (pd_lower pg - of_nat (4 * (?n - ?f))) = unat (pd_lower pg) - 4 * (?n - ?f)"
    using n(1) by (subst unat_sub) (simp_all add: word_le_nat_alt)
  then show l: "unat (pd_lower pg') = unat (pd_lower pg) - 4 * (?n - ?f)"
    using assms(1) unfolding pg'_def truncate_lps_def Let_def PageSetHasFreeLinePointers_def PageClearHasFreeLinePointers_def
    by (auto simp: fl lo)
  have "unat (pd_lower pg) - 4 * (?n - ?f) - 24 = 4 * ?f + (unat (pd_lower pg) - 24 - 4 * ?n)" "unat (pd_lower pg) - 24 - 4 * ?n < 4"
    using n assms(3) by linarith+
  then have "(unat (pd_lower pg') - 24) div 4 = ?f"
    unfolding l by simp
  then show "PageGetMaxOffsetNumber pg' = ?f"
    by (auto simp: PageGetMaxOffsetNumber_def)
qed

lemma repair_result:
  assumes keys: "GetRelationKeys env rel s = (Inr p, s1)" and ok: "session_ok (te_crypto env, E, ready, td_heap s1 ! p)"
    and wf: "page_wf pg" and fit: "fits (live_items pg)"
  obtains s2 pg2 where "TdePageRepairFragmentation env rel bn (s, pg) = (Inr (), (s2, pg2))"
    "repaired (session_stream (te_crypto env, E, ready, td_heap s1 ! p)) bn pg pg2" "lps_cut pg pg2"
proof -
  let ?n = "PageGetMaxOffsetNumber pg"
  have w: "length pg = 8192" "24 \<le> unat (pd_lower pg)" "unat (pd_lower pg) \<le> unat (pd_upper pg)"
    "unat (pd_upper pg) \<le> unat (pd_special pg)" "unat (pd_special pg) \<le> 8192" "unat (pd_special pg) = MAXALIGN (unat (pd_special pg))"
    "total_len (live_items pg) \<le> unat (pd_special pg) - unat (pd_lower pg)"
    "\<forall>q\<in>set (live_items pg). unat (pd_upper pg) \<le> itemoff q \<and> item_end q \<le> unat (pd_special pg)"
    using wf unfolding page_wf_def by blast+
  obtain r where r: "collect_items (unat (pd_upper pg)) (unat (pd_special pg)) [1..<Suc ?n]
      \<lparr>rp_page = pg, rp_items = [], rp_last_offset = unat (pd_special pg), rp_presorted = True,
       rp_nunused = 0, rp_finalusedlp = 0, rp_totallen = 0\<rparr> = (Inr (), r)"
    "rp_items r = live_items pg" "rp_totallen r = total_len (live_items pg)"
    "sorted_wrt (apart (\<not> rp_presorted r)) (live_items pg)"
    "lp_cleared (unat (pd_lower pg)) [1..<Suc ?n] pg (rp_page r)"
    and fin: "rp_finalusedlp r \<le> ?n" "\<forall>i\<in>{1..?n}. ItemIdIsUsed (PageGetItemId pg i) \<longrightarrow> i \<le> rp_finalusedlp r"
    using collect_page [OF wf] alignedlen_live by metis
  have cut: "lps_cut pg (truncate_lps ?n r (set_pd_upper w pg1))" if "bytes_at pg1 0 24 = bytes_at pg 0 24" "length pg1 = 8192" for w pg1
  proof -
    let ?pg = "set_pd_upper w pg1"
    have "bytes_at ?pg 12 2 = bytes_at pg1 12 2" "24 \<le> length ?pg"
      using that(2) by (simp_all add: set_pd_upper_def bytes_at_write_disjoint)
    then have l: "pd_lower ?pg = pd_lower pg" "24 \<le> length ?pg"
      using header_fields(1) [OF that(1)] by (simp_all add: pd_lower_def)
    then have n: "PageGetMaxOffsetNumber ?pg = ?n"
      by (simp add: PageGetMaxOffsetNumber_def)
    have "24 \<le> unat (pd_lower ?pg)" "rp_finalusedlp r \<le> PageGetMaxOffsetNumber ?pg"
      using l(1) w(2) fin(1) n by simp_all
    note t = lower_truncate [OF l(2) this, unfolded n l(1)]
    show ?thesis
      using fin w(2) line_pointers_below_lower [OF w(2)] unfolding lps_cut_def t by (auto simp: le_diff_conv)
  qed
  have hd: "bytes_at (rp_page r) 0 24 = bytes_at pg 0 24" "length (rp_page r) = 8192"
    using r(5) w(1) unfolding lp_cleared_def same_above_def by simp_all
  have go: "TdePageRepairFragmentation env rel bn (s, pg) =
      (case (if live_items pg = [] then (Inr (), (s, set_pd_upper (pd_special pg) (rp_page r)))
             else pgtde_compactify_tuples env rel bn (live_items pg) (rp_presorted r) (s, rp_page r)) of
         (Inl e, sp') \<Rightarrow> (Inl e, sp')
       | (Inr u, (s', pg')) \<Rightarrow> (Inr (), (s', truncate_lps ?n r pg')))"
    using w(2-7) r(1-3) unfolding TdePageRepairFragmentation_def by (simp add: Let_def)
  show thesis
  proof (cases "live_items pg")
    case Nil
    then show thesis
      using go repaired_empty [OF Nil r(5) w(2,1)] cut [OF hd] that by simp
  next
    case (Cons it rest)
    let ?c = "\<lparr>cp_page = rp_page r, cp_scratch = stack_array (te_crypto env) ''scratch'' BLCKSZ,
               cp_keys = td_heap s1 ! p, cp_upper = 0, cp_head = 0, cp_tail = 0\<rparr>"
    have c: "session_ok (te_crypto env, E, ready, cp_keys ?c)" "length (cp_scratch ?c) = 8192"
      using ok by (simp_all del: session_ok.simps)
    have items: "items_ok (\<not> rp_presorted r) (unat (pd_lower pg)) (cp_page ?c) (it # rest)"
      using items_ok_live [OF wf r(5) r(4)] Cons by simp
    have lf: "lengths_fit it rest"
      using fit Cons by (simp add: fits_def)
    have upper: "\<forall>q\<in>set (it # rest). unat (pd_upper (cp_page ?c)) \<le> itemoff q"
      using w(8) Cons header_fields(4) [of "rp_page r" pg] r(5) unfolding lp_cleared_def by simp
    obtain c' where c': "(if rp_presorted r then compact_presorted (te_crypto env) bn it rest ?c
        else compact_scratch (te_crypto env) bn it rest ?c) = Inr c'"
      "compacted (te_crypto env) E ready bn (unat (pd_lower pg)) it rest ?c c'"
    proof (cases "rp_presorted r")
      case True
      have "items_ok False (unat (pd_lower pg)) (cp_page ?c) (it # rest)"
        using items True by simp
      from compact_presorted_result [where bn = bn, OF c(1) this lf] show thesis
        using that True by (metis (full_types))
    next
      case False
      have "items_ok True (unat (pd_lower pg)) (cp_page ?c) (it # rest)"
        using items False by simp
      from compact_scratch_result [where bn = bn, OF c(1) this lf c(2) upper] show thesis
        using that False by (metis (full_types))
    qed
    have "lp_updated (unat (pd_lower pg)) (new_offsets (unat (pd_special (rp_page r))) (it # rest)) (rp_page r) (cp_page c')"
      using c'(2) by (simp add: compacted_def)
    then have hd': "bytes_at (cp_page c') 0 24 = bytes_at pg 0 24" "length (cp_page c') = 8192"
      using hd unfolding lp_updated_def by simp_all
    have "pgtde_compactify_tuples env rel bn (live_items pg) (rp_presorted r) (s, rp_page r) =
       (Inr (), (set_keys p (cp_keys c') s1, set_pd_upper (of_int (cp_upper c')) (cp_page c')))"
      using keys Cons c'(1) by (simp add: pgtde_compactify_tuples_def Let_def)
    then show thesis
      using go repaired_compacted [OF Cons wf _ c'(2)] cut [OF hd'] r(5) Cons that by simp
  qed
qed

section \<open>Reading the tuples of a page\<close>

text \<open>The tuple a line pointer leads to, and what a reader gets for the one at offset \<open>a\<close>.\<close>

definition page_tuple :: "page \<Rightarrow> nat \<Rightarrow> HeapTuple" where
  "page_tuple pg i = tuple_at pg (ucast (lp_off (PageGetItemId pg i))) (unat (lp_len (PageGetItemId pg i)))"

lemma read_tuple:
  assumes "GetRelationKeys env rel u = (Inr q, u1)" "session_ok (te_crypto env, E, ready, td_heap u1 ! q)"
    and "relkind \<noteq> RELKIND_TOASTVALUE" "length pg = 8192" "a + len \<le> 8192" "23 \<le> h" "h \<le> len" "t_hoff (bytes_at pg a h) = h"
  shows "fst (PGTdeExecStoreBufferHeapTuple env relkind rel bn (tuple_at pg (of_nat a) len) u) =
     Inr (of_nat len, bytes_at pg a h @ ctr_xor (session_stream (te_crypto env, E, ready, td_heap u1 ! q)) (place bn a) (bytes_at pg (a + h) (len - h)))"
proof -
  let ?tup = "tuple_at pg (of_nat a) len"
  have a: "unat (of_nat a :: uint16) = a" "(ucast (of_nat a :: uint16) :: uint64) = of_nat a"
    using assms(5) by (simp_all add: unat_of_nat_lt unat_ucast_lt word_unat_eq_iff)
  have b: "t_bytes ?tup = drop a pg" "t_off ?tup = of_nat a" "unat (t_len ?tup) = len" "t_len ?tup = of_nat len"
    using assms(5) a by (simp_all add: tuple_at_def unat_of_nat_lt)
  have h: "t_hoff (t_bytes ?tup) = h"
    using assms(4-8) b(1) by (simp add: t_hoff_def bytes_at_def)
  have "unat (of_nat a :: uint64) = a"
    using assms(5) by (simp add: unat_of_nat_lt)
  then have "tuple_in_page ?tup"
    using assms(4,5,7) b h by (simp add: tuple_in_page_def)
  moreover have "take h (t_bytes ?tup) = bytes_at pg a h" "tuple_data ?tup = bytes_at pg (a + h) (len - h)"
    using h unfolding tuple_data_def tuple_data_len_def b(3) b(1) by (simp_all add: bytes_at_def add.commute)
  moreover have "23 \<le> t_hoff (t_bytes ?tup)"
    using h assms(6) by simp
  ultimately show ?thesis
    using store_decrypted_result [OF assms(2,1,3), of ?tup bn] unfolding h b(2,4)
    by (auto simp: PGTdeExecStoreBufferHeapTuple_def place_def simp del: session_stream.simps)
qed

text \<open>Where an item goes, and the length with which it is encrypted anew.\<close>

lemma moved_item:
  assumes "lengths_fit p its" "q \<in> set (p # its)"
  shows "\<exists>a n. (offsetindex q + 1, a) \<in> set (new_offsets s (p # its)) \<and>
    (a, moved_bytes st bn (itemoff q) a n (bytes_at S (itemoff q) (alignedlen q))) \<in> set (expected st bn S (s - alignedlen p) p its) \<and>
    n \<in> item_len ` set (p # its) \<and> 24 \<le> n \<and> n \<le> alignedlen q"
  using assms
proof (induction its arbitrary: p s)
  case (Cons it its)
  show ?case
  proof (cases "q = p")
    case True
    then show ?thesis
      using Cons.prems(1) by (intro exI [of _ "s - alignedlen p"] exI [of _ "item_len it"]) simp
  next
    case False
    then have "q \<in> set (it # its)" "lengths_fit it its"
      using Cons.prems by simp_all
    from Cons.IH [OF this(2,1), of "s - alignedlen p"] show ?thesis
      by auto
  qed
qed simp

lemma repaired_item:
  assumes rep: "repaired st bn pg pg2" and wf: "page_wf pg" and fit: "fits (live_items pg)" and q: "q \<in> set (live_items pg)"
  obtains a n where "PageGetItemId pg2 (offsetindex q + 1) = (PageGetItemId pg (offsetindex q + 1))\<lparr>lp_off := of_nat a\<rparr>"
    "bytes_at pg2 a (alignedlen q) = moved_bytes st bn (itemoff q) a n (bytes_at pg (itemoff q) (alignedlen q))"
    "n \<in> item_len ` set (live_items pg)" "24 \<le> n" "n \<le> alignedlen q" "a + alignedlen q \<le> 8192" "itemoff q + alignedlen q \<le> 8192"
proof -
  let ?s = "unat (pd_special pg)"
  obtain it rest where live: "live_items pg = it # rest"
    using q by (cases "live_items pg") auto
  have w: "length pg = 8192" "?s \<le> 8192" "\<forall>q\<in>set (live_items pg). unat (pd_upper pg) \<le> itemoff q \<and> item_end q \<le> ?s"
    using wf unfolding page_wf_def by blast+
  have lf: "lengths_fit it rest"
    using fit live by (simp add: fits_def)
  obtain a n where an: "(offsetindex q + 1, a) \<in> set (new_offsets ?s (it # rest))"
    "(a, moved_bytes st bn (itemoff q) a n (bytes_at pg (itemoff q) (alignedlen q))) \<in> set (expected st bn pg (?s - alignedlen it) it rest)"
    "n \<in> item_len ` set (it # rest)" "24 \<le> n" "n \<le> alignedlen q"
    using moved_item [OF lf q [unfolded live], of ?s st bn pg] by (elim exE conjE)
  have "map fst (new_offsets v xs) = map (\<lambda>q. offsetindex q + 1) xs" for v xs
    by (induction xs arbitrary: v) auto
  then have "distinct (map fst (new_offsets ?s (live_items pg)))"
    using distinct_live_items [of pg] by (auto simp: distinct_map inj_on_def)
  then have "map_of (new_offsets ?s (live_items pg)) (offsetindex q + 1) = Some a"
    using an(1) unfolding live by (rule map_of_is_SomeI)
  then have lp: "PageGetItemId pg2 (offsetindex q + 1) = (PageGetItemId pg (offsetindex q + 1))\<lparr>lp_off := of_nat a\<rparr>"
    using rep live_items_lp(1) [OF q] unfolding repaired_def by simp
  have e: "itemoff q + alignedlen q \<le> 8192"
    using w q by (fastforce simp: item_end_def)
  then have l: "length (moved_bytes st bn (itemoff q) a n (bytes_at pg (itemoff q) (alignedlen q))) = alignedlen q"
    using an(4,5) w(1) by simp
  have b: "bytes_at pg2 a (alignedlen q) = moved_bytes st bn (itemoff q) a n (bytes_at pg (itemoff q) (alignedlen q))"
    using rep an(2) l live unfolding repaired_def holds_def by fastforce
  have "length (bytes_at pg2 a (alignedlen q)) = alignedlen q"
    unfolding b by (rule l)
  moreover have "length pg2 = 8192" "0 < alignedlen q"
    using rep w(1) alignedlen_live [OF q] unfolding repaired_def by simp_all
  ultimately have "a + alignedlen q \<le> 8192"
    by (simp add: bytes_at_def)
  with that [OF lp b _ an(4,5) _ e] an(3) live show thesis
    by simp
qed

section \<open>Properties of the repair\<close>

lemma same_length_fits:
  assumes "\<forall>q\<in>set (p # its). item_len q = len \<and> len \<le> alignedlen q" "24 \<le> len"
  shows "lengths_fit p its"
  using assms by (induction its arbitrary: p) auto

lemma live_tuple:
  assumes "1 \<le> i" "i \<le> PageGetMaxOffsetNumber pg" "live pg i"
  obtains q where "q \<in> set (live_items pg)" "offsetindex q + 1 = i" "itemoff q = unat (lp_off (PageGetItemId pg i))"
    "item_len q = unat (lp_len (PageGetItemId pg i))"
proof -
  have "compact_item i (PageGetItemId pg i) \<in> set (live_items pg)"
    using assms unfolding live_items_def items_of_def by (intro image_eqI [THEN set_map [THEN equalityD2, THEN subsetD]]) auto
  then show thesis
    using assms(1) that [of "compact_item i (PageGetItemId pg i)"] by (simp add: compact_item_def)
qed

lemma page_tuple_at:
  assumes "lp_off (PageGetItemId pg i) = of_nat a" "a \<le> 8192"
  shows "page_tuple pg i = tuple_at pg (of_nat a) (unat (lp_len (PageGetItemId pg i)))"
proof -
  have "(ucast (of_nat a :: 15 word) :: uint16) = of_nat a"
    using assms(2) by (simp add: word_unat_eq_iff unat_ucast_lt unat_of_nat_lt)
  with assms(1) show ?thesis
    by (simp add: page_tuple_def)
qed

lemma moved_bytes_parts:
  assumes "bytes_at pg2 a al = moved_bytes st bn off a n (bytes_at pg off al)" "24 \<le> n" "n \<le> al"
    and "off + al \<le> length pg" "a + al \<le> length pg2"
  shows "bytes_at pg2 a 24 = bytes_at pg off 24"
    and "ctr_xor st (place bn a) (bytes_at pg2 (a + 24) (n - 24)) = ctr_xor st (place bn off) (bytes_at pg (off + 24) (n - 24))"
    and "bytes_at pg2 (a + n) (al - n) = bytes_at pg (off + n) (al - n)"
proof -
  have al: "bytes_at buf b al = bytes_at buf b 24 @ bytes_at buf (b + 24) (n - 24) @ bytes_at buf (b + n) (al - n)"
    if "b + al \<le> length buf" for buf b
    using that assms(2,3) bytes_at_add [of b 24 buf "al - 24"] bytes_at_add [of "b + 24" "n - 24" buf "al - n"] by simp
  have l: "length (bytes_at buf b m) = m" if "b + m \<le> length buf" for buf b m
    using that by simp
  have "moved_bytes st bn off a n (bytes_at pg off al) =
      bytes_at pg off 24 @ recrypted st bn off a (bytes_at pg (off + 24) (n - 24)) @ bytes_at pg (off + n) (al - n)"
    using assms(2-4) by (simp add: moved_bytes_def bytes_at_def drop_take min_absorb1 add.commute)
  with assms(1) al [OF assms(5)] have "bytes_at pg2 a 24 @ bytes_at pg2 (a + 24) (n - 24) @ bytes_at pg2 (a + n) (al - n) =
      bytes_at pg off 24 @ recrypted st bn off a (bytes_at pg (off + 24) (n - 24)) @ bytes_at pg (off + n) (al - n)"
    by simp
  then have e: "bytes_at pg2 a 24 = bytes_at pg off 24"
    "bytes_at pg2 (a + 24) (n - 24) = recrypted st bn off a (bytes_at pg (off + 24) (n - 24))"
    "bytes_at pg2 (a + n) (al - n) = bytes_at pg (off + n) (al - n)"
    using assms(2-5) by (simp_all add: append_eq_append_conv)
  then show "bytes_at pg2 a 24 = bytes_at pg off 24" "bytes_at pg2 (a + n) (al - n) = bytes_at pg (off + n) (al - n)"
    by simp_all
  show "ctr_xor st (place bn a) (bytes_at pg2 (a + 24) (n - 24)) = ctr_xor st (place bn off) (bytes_at pg (off + 24) (n - 24))"
    unfolding e(2) by (simp add: recrypted_def)
qed

lemma same_length_kept:
  assumes rep: "repaired (session_stream (te_crypto env, E, ready, td_heap u1 ! q)) bn pg pg2" and wf: "page_wf pg"
    and u: "GetRelationKeys env rel u = (Inr q, u1)" "session_ok (te_crypto env, E, ready, td_heap u1 ! q)"
      "relkind \<noteq> RELKIND_TOASTVALUE"
    and len: "\<forall>x\<in>set (live_items pg). item_len x = len" "24 \<le> len"
    and i: "1 \<le> i" "i \<le> PageGetMaxOffsetNumber pg" "live pg i" "t_hoff (t_bytes (page_tuple pg i)) = 24"
  shows "live pg2 i" and "fst (PGTdeExecStoreBufferHeapTuple env relkind rel bn (page_tuple pg2 i) u) =
     fst (PGTdeExecStoreBufferHeapTuple env relkind rel bn (page_tuple pg i) u)"
proof -
  let ?st = "session_stream (te_crypto env, E, ready, td_heap u1 ! q)"
  have fit: "fits (live_items pg)"
    using same_length_fits [of _ _ len] len alignedlen_live [of _ pg] unfolding fits_def by (force split: list.split)
  obtain x where x: "x \<in> set (live_items pg)" "offsetindex x + 1 = i" "itemoff x = unat (lp_off (PageGetItemId pg i))"
    "item_len x = unat (lp_len (PageGetItemId pg i))"
    by (rule live_tuple [OF i(1-3)])
  obtain a n where an: "PageGetItemId pg2 i = (PageGetItemId pg i)\<lparr>lp_off := of_nat a\<rparr>"
    "bytes_at pg2 a (alignedlen x) = moved_bytes ?st bn (itemoff x) a n (bytes_at pg (itemoff x) (alignedlen x))"
    "n \<in> item_len ` set (live_items pg)" "24 \<le> n" "n \<le> alignedlen x" "a + alignedlen x \<le> 8192" "itemoff x + alignedlen x \<le> 8192"
    using repaired_item [OF rep wf fit x(1)] unfolding x(2) by metis
  have n: "n = len" "item_len x = len"
    using an(3) len(1) x(1) by auto
  have l: "length pg = 8192" "length pg2 = 8192"
    using wf rep unfolding page_wf_def repaired_def by simp_all
  show "live pg2 i"
    using i(3) an(1) by (simp add: live_def ItemIdIsUsed_def ItemIdHasStorage_def)
  have e: "bytes_at pg2 a 24 = bytes_at pg (itemoff x) 24"
    "ctr_xor ?st (place bn a) (bytes_at pg2 (a + 24) (len - 24)) = ctr_xor ?st (place bn (itemoff x)) (bytes_at pg (itemoff x + 24) (len - 24))"
    using moved_bytes_parts [OF an(2,4,5)] an(6,7) l n(1) by simp_all
  have t: "page_tuple pg2 i = tuple_at pg2 (of_nat a) len" "page_tuple pg i = tuple_at pg (of_nat (itemoff x)) len"
    using page_tuple_at [of pg2 i a] page_tuple_at [of pg i "itemoff x"] an(1,6,7) x(3,4) n(2) by simp_all
  have "t_bytes (tuple_at pg (of_nat (itemoff x)) len) = drop (itemoff x) pg"
    using an(7) by (simp add: tuple_at_def unat_of_nat_lt)
  then have "t_hoff (bytes_at pg (itemoff x) 24) = 24"
    using i(4) l an(4,5,7) unfolding t(2) by (simp add: t_hoff_def bytes_at_def)
  moreover then have "t_hoff (bytes_at pg2 a 24) = 24"
    unfolding e(1) .
  ultimately show "fst (PGTdeExecStoreBufferHeapTuple env relkind rel bn (page_tuple pg2 i) u) =
     fst (PGTdeExecStoreBufferHeapTuple env relkind rel bn (page_tuple pg i) u)"
    using read_tuple [OF u l(2), of a len 24 bn] read_tuple [OF u l(1), of "itemoff x" len 24 bn] an(5-7) len(2) n(1) e
    unfolding t by simp
qed

text \<open>
  Pages for the concrete instances: three line pointers, the first of them unused, the tuples of
  the other two in the last 80 bytes.
\<close>

definition demo_header :: page where
  "demo_header = write_at (write_at (write_at (replicate 8192 0) 12 (le_bytes 2 (36 :: uint16)))
     14 (le_bytes 2 (8112 :: uint16))) 16 (le_bytes 2 (8192 :: uint16))"

definition demo_heap_page :: "ItemIdData \<Rightarrow> ItemIdData \<Rightarrow> byte \<Rightarrow> page" where
  "demo_heap_page lp2 lp3 h =
     write_at (write_at (set_item_id 3 lp3 (set_item_id 2 lp2 demo_header))
       (unat (lp_off lp2) + 22) [h]) (unat (lp_off lp3) + 22) [24]"

definition demo_place :: "ItemIdData \<Rightarrow> bool" where
  "demo_place lp \<longleftrightarrow> unat (lp_off lp) + 40 \<le> 8192 \<and> 8112 \<le> unat (lp_off lp)"

lemma bytes_at_replicate: "a + n \<le> m \<Longrightarrow> bytes_at (replicate m x) a n = replicate n x"
  by (simp add: bytes_at_def)

lemma demo_header_bytes:
  "length demo_header = 8192" "bytes_at demo_header 12 2 = le_bytes 2 (36 :: uint16)"
  "bytes_at demo_header 14 2 = le_bytes 2 (8112 :: uint16)" "bytes_at demo_header 16 2 = le_bytes 2 (8192 :: uint16)"
  "bytes_at demo_header 24 4 = [0, 0, 0, 0]"
  by (simp_all add: demo_header_def bytes_at_write_disjoint bytes_at_replicate) (simp add: numeral_eq_Suc)

lemma demo_heap_page:
  assumes "demo_place lp2" "demo_place lp3"
  shows "length (demo_heap_page lp2 lp3 h) = 8192" "pd_lower (demo_heap_page lp2 lp3 h) = 36"
    "pd_upper (demo_heap_page lp2 lp3 h) = 8112" "pd_special (demo_heap_page lp2 lp3 h) = 8192"
    "PageGetMaxOffsetNumber (demo_heap_page lp2 lp3 h) = 3"
    "PageGetItemId (demo_heap_page lp2 lp3 h) 1 = unused_item"
    "PageGetItemId (demo_heap_page lp2 lp3 h) 2 = lp2" "PageGetItemId (demo_heap_page lp2 lp3 h) 3 = lp3"
proof -
  let ?lps = "set_item_id 3 lp3 (set_item_id 2 lp2 demo_header)" and ?pg = "demo_heap_page lp2 lp3 h"
  have l: "length ?lps = 8192" "length (set_item_id 2 lp2 demo_header) = 8192"
    by (simp_all add: set_item_id_def demo_header_bytes)
  have p: "bytes_at ?pg a n = bytes_at ?lps a n" if "a + n \<le> 8112" for a n
    using assms that l by (simp add: demo_heap_page_def demo_place_def bytes_at_write_disjoint)
  have hd: "bytes_at ?lps a n = bytes_at demo_header a n" if "a + n \<le> 28" for a n
    using that by (simp add: set_item_id_def bytes_at_write_disjoint demo_header_bytes)
  show "length ?pg = 8192"
    using assms l by (simp add: demo_heap_page_def demo_place_def)
  show lower: "pd_lower ?pg = 36"
    by (simp add: pd_lower_def p hd demo_header_bytes)
  show "pd_special ?pg = 8192"
    by (simp add: pd_special_def p hd demo_header_bytes)
  show "pd_upper ?pg = 8112"
    by (simp add: TupleStore.pd_upper_def bytes_at_def [symmetric] p hd demo_header_bytes)
  show "PageGetMaxOffsetNumber ?pg = 3"
    by (simp add: PageGetMaxOffsetNumber_def lower)
  have "un_le [0, 0, 0, 0] = (0 :: uint32)"
    by (simp add: un_le_def)
  then show "PageGetItemId ?pg 1 = unused_item"
    by (simp add: PageGetItemId_def p hd demo_header_bytes item_id_of_def unused_item_def)
  have item: "PageGetItemId ?pg i = PageGetItemId ?lps i" if "i \<le> 3" for i
    using that by (simp add: PageGetItemId_def p)
  show "PageGetItemId ?pg 2 = lp2" "PageGetItemId ?pg 3 = lp3"
    using item [of 2] item [of 3] l by (simp_all add: PageGetItemId_set demo_header_bytes)
qed

lemma demo_hoff:
  assumes "demo_place lp2" "demo_place lp3" "unat (lp_off lp3) + 22 \<noteq> unat (lp_off lp2) + 22"
  shows "demo_heap_page lp2 lp3 h ! (unat (lp_off lp2) + 22) = h" "demo_heap_page lp2 lp3 h ! (unat (lp_off lp3) + 22) = 24"
  using assms by (auto simp: demo_heap_page_def demo_place_def nth_write_at set_item_id_def demo_header_bytes)

lemma demo_live_items:
  assumes "demo_place lp2" "demo_place lp3"
  shows "live_items (demo_heap_page lp2 lp3 h) =
    (if ItemIdIsUsed lp2 \<and> ItemIdHasStorage lp2 then [compact_item 2 lp2] else []) @
    (if ItemIdIsUsed lp3 \<and> ItemIdHasStorage lp3 then [compact_item 3 lp3] else [])"
proof -
  have "[1..<Suc 3] = [1, 2, 3]"
    by (simp add: upt_rec)
  then show ?thesis
    by (simp add: live_items_def items_of_def live_def demo_heap_page [OF assms] del: One_nat_def)
qed











text \<open>
  What a reader gets for a live item after the repair, byte by byte: the re-encryption covers the
  bytes from 24 to the length of the next item, the reader decrypts those from the end of the header.
  Where both apply at the same distance they cancel.
\<close>

definition read_mask :: "(nat \<Rightarrow> byte) \<Rightarrow> block_number \<Rightarrow> nat \<Rightarrow> nat \<Rightarrow> nat \<Rightarrow> byte" where
  "read_mask st bn old new i = st (place bn old + i) XOR st (place bn new + i)"




text \<open>
  The case that \<open>fits\<close> leaves out. When the next item \<open>it\<close> is longer than the aligned item \<open>p\<close> that is
  encrypted anew, the bytes behind \<open>p\<close>, the header of the tuple stored above it, are changed as well.
\<close>

lemma longer_item_overwrites:
  assumes "session_ok (env, E, ready, cp_keys c)" "length buf = 8192" "cp_head c = itemoff p" "cp_head c < cp_tail c"
    and "cp_upper c = int u" "u \<le> 8192" "24 \<le> alignedlen p" "alignedlen p \<le> j" "j < item_len it" "itemoff p + item_len it \<le> 8192"
  shows "\<exists>buf' k. recrypt_data env bn it c buf = Inr (buf', k) \<and>
     buf' ! (itemoff p + j) =
       buf ! (itemoff p + j) XOR read_mask (session_stream (env, E, ready, cp_keys c)) bn (itemoff p) u (j - 24)"
proof -
  let ?st = "session_stream (env, E, ready, cp_keys c)" and ?n = "item_len it"
  let ?new = "recrypted ?st bn (itemoff p) u (bytes_at buf (itemoff p + 24) (?n - 24))"
  have n: "24 \<le> ?n" "24 \<le> j" using assms(7-9) by simp_all
  have fit: "cp_head c + ?n \<le> length buf" using assms(2,3,10) by simp
  obtain k where r: "recrypt_data env bn it c buf = Inr (write_at buf (itemoff p + 24) ?new, k)"
    by (rule recrypt_data_result [where bn = bn, OF assms(1,4) n(1) fit assms(2,5,6)]) (use assms(3) in simp)
  have "length (bytes_at buf (itemoff p + 24) (?n - 24)) = ?n - 24"
    using fit assms(2,3) n by simp
  then have "write_at buf (itemoff p + 24) ?new ! (itemoff p + j) = ?new ! (j - 24)"
    using assms(2,9,10) n by (simp add: nth_write_at del: session_stream.simps)
  also have "\<dots> = buf ! (itemoff p + j) XOR read_mask ?st bn (itemoff p) u (j - 24)"
    using assms(2,9,10) n by (simp add: recrypted_def nth_ctr_xor nth_bytes_at read_mask_def xor.assoc del: session_stream.simps)
  finally show ?thesis using r by blast
qed

definition demo_lp2 :: ItemIdData where
  "demo_lp2 = \<lparr>lp_off = 8144, lp_flags = LP_NORMAL, lp_len = 40\<rparr>"

definition demo_lp3 :: ItemIdData where
  "demo_lp3 = \<lparr>lp_off = 8112, lp_flags = LP_NORMAL, lp_len = 32\<rparr>"

definition demo_item2 :: itemIdCompactData where
  "demo_item2 = \<lparr>offsetindex = 1, itemoff = 8144, item_len = 40, alignedlen = 40\<rparr>"

definition demo_item3 :: itemIdCompactData where
  "demo_item3 = \<lparr>offsetindex = 2, itemoff = 8112, item_len = 32, alignedlen = 32\<rparr>"

text \<open>Two tuples of the same length, two of different length, and one with a header of 32 bytes.\<close>

definition demo_equal_page :: page where
  "demo_equal_page = demo_heap_page (demo_lp2\<lparr>lp_len := 32\<rparr>) demo_lp3 24"

definition demo_unequal_page :: page where
  "demo_unequal_page = demo_heap_page demo_lp2 demo_lp3 24"


lemmas demo_items = demo_lp2_def demo_lp3_def demo_item2_def demo_item3_def compact_item_def MAXALIGN_def
  ItemIdIsUsed_def ItemIdHasStorage_def

lemma demo_page_wf:
  assumes "demo_place lp2" "demo_place lp3" "live_items (demo_heap_page lp2 lp3 h) = its"
    and "\<forall>q\<in>set its. 8112 \<le> itemoff q \<and> item_end q \<le> 8192" "sorted_wrt (apart True) its" "length its \<le> 2" "total_len its \<le> 8000"
  shows "page_wf (demo_heap_page lp2 lp3 h)"
  using assms(4-7) unfolding page_wf_def assms(3) by (simp add: demo_heap_page [OF assms(1,2)] MAXALIGN_def)

lemma demo_unequal_page:
  "page_wf demo_unequal_page" "live_items demo_unequal_page = [demo_item2, demo_item3]"
  "t_hoff (bytes_at demo_unequal_page 8144 24) = 24" "pd_special demo_unequal_page = 8192"
proof -
  have p: "demo_place demo_lp2" "demo_place demo_lp3"
    by (simp_all add: demo_place_def demo_items)
  show l: "live_items demo_unequal_page = [demo_item2, demo_item3]"
    unfolding demo_unequal_page_def by (subst demo_live_items [OF p]) (simp add: demo_items)
  show "page_wf demo_unequal_page"
    unfolding demo_unequal_page_def
    by (rule demo_page_wf [OF p l [unfolded demo_unequal_page_def]]) (simp_all add: demo_items apart_def item_end_def total_len_def)
  show "pd_special demo_unequal_page = 8192"
    unfolding demo_unequal_page_def by (rule demo_heap_page(4) [OF p])
  show "t_hoff (bytes_at demo_unequal_page 8144 24) = 24"
    using demo_hoff(1) [OF p] demo_heap_page(1) [OF p] unfolding demo_unequal_page_def
    by (simp add: t_hoff_def nth_bytes_at demo_items)
qed


lemma demo_equal_page:
  "page_wf demo_equal_page" "PageGetMaxOffsetNumber demo_equal_page = 3" "live demo_equal_page 2" "live demo_equal_page 3"
  "\<forall>i\<in>{1..3}. live demo_equal_page i \<longrightarrow>
     unat (lp_len (PageGetItemId demo_equal_page i)) = 32 \<and> t_hoff (t_bytes (page_tuple demo_equal_page i)) = 24"
proof -
  let ?lp2 = "demo_lp2\<lparr>lp_len := 32\<rparr>"
  have p: "demo_place ?lp2" "demo_place demo_lp3"
    by (simp_all add: demo_place_def demo_items)
  note d = demo_heap_page [OF p, of 24, folded demo_equal_page_def]
  have l: "live_items demo_equal_page = [demo_item2\<lparr>item_len := 32, alignedlen := 32\<rparr>, demo_item3]"
    unfolding demo_equal_page_def by (subst demo_live_items [OF p]) (simp add: demo_items)
  show "page_wf demo_equal_page"
    unfolding demo_equal_page_def
    by (rule demo_page_wf [OF p l [unfolded demo_equal_page_def]]) (simp_all add: demo_items apart_def item_end_def total_len_def)
  show "PageGetMaxOffsetNumber demo_equal_page = 3"
    by (rule d(5))
  show lv: "live demo_equal_page 2" "live demo_equal_page 3"
    using d(7,8) by (simp_all add: live_def demo_items)
  have "demo_equal_page ! 8166 = 24" "demo_equal_page ! 8134 = 24"
    using demo_hoff [OF p, of 24] by (simp_all add: demo_equal_page_def demo_items)
  then have "unat (lp_len (PageGetItemId demo_equal_page i)) = 32 \<and> t_hoff (t_bytes (page_tuple demo_equal_page i)) = 24"
    if "i = 2 \<or> i = 3" for i
    using that d(1,7,8) by (auto simp: page_tuple_def tuple_at_def t_hoff_def demo_items)
  moreover have "\<not> live demo_equal_page 1"
    using d(6) by (simp add: live_def)
  moreover have "i = 1 \<or> i = 2 \<or> i = 3" if "i \<in> {1..3}" for i :: nat
    using that by auto
  ultimately show "\<forall>i\<in>{1..3}. live demo_equal_page i \<longrightarrow>
     unat (lp_len (PageGetItemId demo_equal_page i)) = 32 \<and> t_hoff (t_bytes (page_tuple demo_equal_page i)) = 24"
    by metis
qed

text \<open>
  (C20) Defragmenting a page keeps its tuples: when every live tuple has the same length and a
  header of 24 bytes, \<open>TdePageRepairFragmentation\<close> succeeds, presorted or not, and whoever reads
  the tuple of a line pointer with the relation's key gets the same bytes from the new page as from
  the old one, although the tuple lies elsewhere and its data is encrypted for its new place.
\<close>

theorem repair_keeps_tuples:
  assumes "GetRelationKeys env rel s = (Inr p, s1)" "session_ok (te_crypto env, E, ready, td_heap s1 ! p)"
    and "page_wf pg" "24 \<le> len"
    and "\<forall>i\<in>{1..PageGetMaxOffsetNumber pg}. live pg i \<longrightarrow>
      unat (lp_len (PageGetItemId pg i)) = len \<and> t_hoff (t_bytes (page_tuple pg i)) = 24"
    and "GetRelationKeys env rel u = (Inr q, u1)" "session_ok (te_crypto env, E, ready, td_heap u1 ! q)"
    and "key (key0 (td_heap u1 ! q)) = key (key0 (td_heap s1 ! p))" "relkind \<noteq> RELKIND_TOASTVALUE"
  shows "\<exists>s2 pg2. TdePageRepairFragmentation env rel bn (s, pg) = (Inr (), (s2, pg2)) \<and>
    (\<forall>i\<in>{1..PageGetMaxOffsetNumber pg}. live pg i \<longrightarrow> live pg2 i \<and>
       fst (PGTdeExecStoreBufferHeapTuple env relkind rel bn (page_tuple pg2 i) u) =
       fst (PGTdeExecStoreBufferHeapTuple env relkind rel bn (page_tuple pg i) u))"
proof -
  have len: "\<forall>x\<in>set (live_items pg). item_len x = len"
    using assms(5) live_items_lp unfolding live_items_def items_of_def by (auto simp: compact_item_def)
  then have "fits (live_items pg)"
    using same_length_fits [of _ _ len] assms(4) alignedlen_live [of _ pg] unfolding fits_def by (force split: list.split)
  from repair_result [OF assms(1,2,3) this, of bn] obtain s2 pg2 where
    r: "TdePageRepairFragmentation env rel bn (s, pg) = (Inr (), (s2, pg2))"
    "repaired (session_stream (te_crypto env, E, ready, td_heap s1 ! p)) bn pg pg2" .
  have "session_stream (te_crypto env, E, ready, td_heap s1 ! p) = session_stream (te_crypto env, E, ready, td_heap u1 ! q)"
    using assms(8) by simp
  note rep = r(2) [unfolded this]
  show ?thesis
    using r(1) same_length_kept [OF rep assms(3,6,7,9) len assms(4)] assms(5) by (intro exI [of _ s2] exI [of _ pg2]) auto
qed

theorem repair_keeps_tuples_witness:
  "\<exists>s2 pg2. TdePageRepairFragmentation demo_tde_env demo_loc 7 (demo_two_forks, demo_equal_page) = (Inr (), (s2, pg2)) \<and>
    (\<forall>i\<in>{2, 3}. live pg2 i \<and>
       fst (PGTdeExecStoreBufferHeapTuple demo_tde_env CHR ''r'' demo_loc 7 (page_tuple pg2 i) demo_two_forks) =
       fst (PGTdeExecStoreBufferHeapTuple demo_tde_env CHR ''r'' demo_loc 7 (page_tuple demo_equal_page i) demo_two_forks))"
proof -
  obtain v where v: "GetRelationKeys demo_tde_env demo_loc demo_two_forks = (Inr 0, v)"
    "td_heap v = [single_key (ki_name demo_mk) demo_key]" "session_ok (te_crypto demo_tde_env, demo_E, demo_ready, td_heap v ! 0)"
    by (rule demo_keys_ready)
  note w = demo_equal_page
  have rk: "CHR ''r'' \<noteq> RELKIND_TOASTVALUE" by simp
  from repair_keeps_tuples [OF v(1,3) w(1) _ w(5) [folded w(2)] v(1,3) refl rk, of 7] w(2-4) show ?thesis
    by auto
qed






section \<open>The repaired page is well-formed\<close>

fun relocated :: "nat \<Rightarrow> itemIdCompactData list \<Rightarrow> itemIdCompactData list" where
  "relocated s [] = []"
| "relocated s (q # qs) = q\<lparr>itemoff := s - alignedlen q\<rparr> # relocated (s - alignedlen q) qs"

lemma relocated_map:
  assumes "distinct (map offsetindex its)"
  shows "relocated s its = map (\<lambda>q. q\<lparr>itemoff := the (map_of (new_offsets s its) (offsetindex q + 1))\<rparr>) its"
  using assms
proof (induction its arbitrary: s)
  case (Cons p its)
  have "map_of (new_offsets s (p # its)) (offsetindex q + 1) = map_of (new_offsets (s - alignedlen p) its) (offsetindex q + 1)"
    if "q \<in> set its" for q
  proof -
    have "offsetindex q \<in> offsetindex ` set its"
      using that by (rule imageI)
    then have "offsetindex q \<noteq> offsetindex p"
      using Cons.prems by auto
    then show ?thesis
      by simp
  qed
  then show ?case
    using Cons by auto
qed simp

lemma total_relocated [simp]: "total_len (relocated s its) = total_len its"
  by (induction its arbitrary: s) (simp_all add: total_len_def)

lemma length_relocated [simp]: "length (relocated s its) = length its"
  by (induction its arbitrary: s) simp_all

lemma relocated_bounds:
  assumes "q \<in> set (relocated s its)" "total_len its \<le> s"
  shows "s - total_len its \<le> itemoff q \<and> item_end q \<le> s"
  using assms
proof (induction its arbitrary: s)
  case (Cons p its)
  have t: "total_len its \<le> s - alignedlen p" "alignedlen p \<le> s"
    using Cons.prems(2) by (simp_all add: total_len_def)
  show ?case
  proof (cases "q = p\<lparr>itemoff := s - alignedlen p\<rparr>")
    case True
    then show ?thesis
      using t by (simp add: item_end_def total_len_def)
  next
    case False
    then have "q \<in> set (relocated (s - alignedlen p) its)"
      using Cons.prems(1) by simp
    from Cons.IH [OF this t(1)] show ?thesis
      by (auto simp: total_len_def)
  qed
qed simp

lemma relocated_apart: "total_len its \<le> s \<Longrightarrow> sorted_wrt (apart False) (relocated s its)"
proof (induction its arbitrary: s)
  case (Cons p its)
  have t: "total_len its \<le> s - alignedlen p" "alignedlen p \<le> s"
    using Cons.prems by (simp_all add: total_len_def)
  have "apart False (p\<lparr>itemoff := s - alignedlen p\<rparr>) q" if "q \<in> set (relocated (s - alignedlen p) its)" for q
    using relocated_bounds [OF that t(1)] by (simp add: apart_def)
  then show ?case
    using Cons.IH [OF t(1)] by simp
qed simp

lemma new_offsets_le: "(j, a) \<in> set (new_offsets s its) \<Longrightarrow> a \<le> s"
proof (induction its arbitrary: s)
  case (Cons p its)
  then have "a \<le> s - alignedlen p"
    using Cons.IH [of "s - alignedlen p"] by auto
  then show ?case
    by linarith
qed simp

lemma live_items_repaired:
  assumes rep: "repaired st bn pg pg2" and cut: "lps_cut pg pg2" and wf: "page_wf pg"
  shows "live_items pg2 = relocated (unat (pd_special pg)) (live_items pg)"
proof -
  let ?s = "unat (pd_special pg)" and ?n = "PageGetMaxOffsetNumber pg" and ?m = "PageGetMaxOffsetNumber pg2"
  have lp: "PageGetItemId pg2 i = (case map_of (new_offsets ?s (live_items pg)) i of
             Some a \<Rightarrow> (PageGetItemId pg i)\<lparr>lp_off := of_nat a\<rparr>
           | None \<Rightarrow> if ItemIdIsUsed (PageGetItemId pg i) then PageGetItemId pg i else unused_item)"
    if "1 \<le> i" "i \<le> ?n" for i
    using rep that unfolding repaired_def by blast
  have m: "?m \<le> ?n" "\<And>i. 1 \<le> i \<Longrightarrow> i \<le> ?n \<Longrightarrow> ItemIdIsUsed (PageGetItemId pg i) \<Longrightarrow> i \<le> ?m"
    using cut unfolding lps_cut_def by auto
  have dom: "i \<in> Suc ` offsetindex ` set (live_items pg)" if "map_of (new_offsets ?s (live_items pg)) i = Some a" for i a
    unfolding new_offsets_index [of ?s, symmetric] using imageI [OF map_of_SomeD [OF that], of fst] by simp
  have live: "live pg2 i = live pg i" if "1 \<le> i" "i \<le> ?n" for i
  proof (cases "map_of (new_offsets ?s (live_items pg)) i")
    case None
    then show ?thesis
      using lp [OF that] by (auto simp: live_def)
  next
    case (Some a)
    then show ?thesis
      using lp [OF that] by (simp add: live_def ItemIdIsUsed_def ItemIdHasStorage_def)
  qed
  have "filter (live pg) [1..<Suc ?n] = filter (live pg) ([1..<Suc ?m] @ [Suc ?m..<Suc ?n])"
    using m(1) upt_add_eq_append [of 1 "Suc ?m" "?n - ?m"] by simp
  also have "\<dots> = filter (live pg) [1..<Suc ?m]"
  proof -
    have "\<not> live pg x" if "x \<in> set [Suc ?m..<Suc ?n]" for x
      using m(2) [of x] that by (auto simp: live_def)
    then have "filter (live pg) [Suc ?m..<Suc ?n] = []"
      by (simp only: filter_empty_conv simp_thms ball_simps) blast
    then show ?thesis
      by simp
  qed
  finally have f: "filter (live pg2) [1..<Suc ?m] = filter (live pg) [1..<Suc ?n]"
    using live m(1) by (auto intro: filter_cong)
  have item: "compact_item i (PageGetItemId pg2 i) = (compact_item i (PageGetItemId pg i))
      \<lparr>itemoff := the (map_of (new_offsets ?s (live_items pg)) (offsetindex (compact_item i (PageGetItemId pg i)) + 1))\<rparr>"
    if i: "i \<in> set (filter (live pg) [1..<Suc ?n])" for i
  proof -
    have i1: "1 \<le> i" "i \<le> ?n" "offsetindex (compact_item i (PageGetItemId pg i)) + 1 = i"
      using i by (auto simp: compact_item_def)
    have "compact_item i (PageGetItemId pg i) \<in> set (live_items pg)"
      using i unfolding live_items_def items_of_def by (auto intro: imageI)
    then have "i \<in> fst ` set (new_offsets ?s (live_items pg))"
      unfolding new_offsets_index using i1(3) by (metis Suc_eq_plus1 imageI)
    then obtain a where a: "map_of (new_offsets ?s (live_items pg)) i = Some a"
      by (meson map_of_eq_None_iff not_Some_eq)
    have "total_len (live_items pg) \<le> ?s" "?s \<le> 8192"
      using wf unfolding page_wf_def by auto
    then have "a \<le> 8192"
      using new_offsets_le [OF map_of_SomeD [OF a]] by simp
    then show ?thesis
      using lp [OF i1(1,2)] a i1(3) by (simp add: compact_item_def unat_of_nat_lt)
  qed
  have "live_items pg2 = map (\<lambda>i. compact_item i (PageGetItemId pg2 i)) (filter (live pg) [1..<Suc ?n])"
    unfolding live_items_def items_of_def f by (rule refl)
  also have "\<dots> = map (\<lambda>q. q\<lparr>itemoff := the (map_of (new_offsets ?s (live_items pg)) (offsetindex q + 1))\<rparr>) (live_items pg)"
    unfolding live_items_def items_of_def map_map using item by (intro map_cong) (simp_all add: live_items_def items_of_def comp_def)
  finally show ?thesis
    unfolding relocated_map [OF distinct_live_items] .
qed

lemma repaired_wf:
  assumes "repaired st bn pg pg2" "lps_cut pg pg2" "page_wf pg"
  shows "page_wf pg2" "unat (pd_upper pg2) = unat (pd_special pg) - total_len (live_items pg2)"
proof -
  have l: "live_items pg2 = relocated (unat (pd_special pg)) (live_items pg)"
    by (rule live_items_repaired [OF assms])
  have w: "length pg = 8192" "unat (pd_special pg) \<le> 8192" "unat (pd_special pg) = MAXALIGN (unat (pd_special pg))"
    "total_len (live_items pg) \<le> unat (pd_special pg) - unat (pd_lower pg)" "length (live_items pg) \<le> 291"
    "unat (pd_lower pg) \<le> unat (pd_upper pg)" "unat (pd_upper pg) \<le> unat (pd_special pg)"
    using assms(3) unfolding page_wf_def by blast+
  have h: "length pg2 = 8192" "pd_special pg2 = pd_special pg"
    "unat (pd_upper pg2) = unat (pd_special pg) - total_len (live_items pg)"
    "24 \<le> unat (pd_lower pg2)" "unat (pd_lower pg2) \<le> unat (pd_lower pg)"
    using assms(1,2) w(1) unfolding repaired_def lps_cut_def by simp_all
  have tot: "total_len (live_items pg) \<le> unat (pd_special pg)"
    using w(4) by linarith
  have "sorted_wrt (apart True) (relocated (unat (pd_special pg)) (live_items pg))"
    using relocated_apart [OF tot] by (rule sorted_wrt_mono_rel [rotated]) (auto simp: apart_def)
  moreover have "unat (pd_lower pg2) \<le> unat (pd_upper pg2)" "unat (pd_upper pg2) \<le> unat (pd_special pg)"
    "total_len (live_items pg) \<le> unat (pd_special pg) - unat (pd_lower pg2)"
    using h w(4,6,7) by linarith+
  ultimately show "page_wf pg2"
    using h w(2,3,5) relocated_bounds [OF _ tot] unfolding page_wf_def l h(2) by auto
  show "unat (pd_upper pg2) = unat (pd_special pg) - total_len (live_items pg2)"
    using h(3) l by simp
qed

text \<open>
  (C21) Defragmenting keeps a page well-formed and leaves no hole, when no item is longer than the
  aligned item before it in the order of the line pointers (\<open>fits\<close>; otherwise the re-encryption
  writes past an item, \<open>longer_item_overwrites\<close>): the tuples, in the order of
  their line pointers, lie one below the other from the end of the page to \<open>pd_upper\<close>, each at the
  place its line pointer gives and none sharing storage; unused line pointers at the end of the
  array are given back.
\<close>

theorem repair_packs_page:
  assumes "GetRelationKeys env rel s = (Inr p, s1)" "session_ok (te_crypto env, E, ready, td_heap s1 ! p)"
    and "page_wf pg" "fits (live_items pg)"
  shows "\<exists>s2 pg2. TdePageRepairFragmentation env rel bn (s, pg) = (Inr (), (s2, pg2)) \<and> page_wf pg2 \<and>
    live_items pg2 = relocated (unat (pd_special pg)) (live_items pg) \<and> pd_special pg2 = pd_special pg \<and>
    unat (pd_upper pg2) = unat (pd_special pg) - total_len (live_items pg2) \<and>
    unat (pd_lower pg2) \<le> unat (pd_lower pg)"
proof -
  obtain s2 pg2 where r: "TdePageRepairFragmentation env rel bn (s, pg) = (Inr (), (s2, pg2))"
    "repaired (session_stream (te_crypto env, E, ready, td_heap s1 ! p)) bn pg pg2" "lps_cut pg pg2"
    by (rule repair_result [OF assms])
  have "pd_special pg2 = pd_special pg" "unat (pd_lower pg2) \<le> unat (pd_lower pg)"
    using r(2,3) unfolding repaired_def lps_cut_def by simp_all
  then show ?thesis
    using r(1) repaired_wf [OF r(2,3) assms(3)] live_items_repaired [OF r(2,3) assms(3)]
    by (intro exI [of _ s2] exI [of _ pg2]) simp
qed

theorem repair_packs_page_witness:
  "\<exists>s2 pg2. TdePageRepairFragmentation demo_tde_env demo_loc 7 (demo_two_forks, demo_unequal_page) = (Inr (), (s2, pg2)) \<and>
    page_wf pg2 \<and> live_items pg2 = [demo_item2\<lparr>itemoff := 8152\<rparr>, demo_item3\<lparr>itemoff := 8120\<rparr>] \<and> unat (pd_upper pg2) = 8120"
proof -
  obtain v where v: "GetRelationKeys demo_tde_env demo_loc demo_two_forks = (Inr 0, v)"
    "td_heap v = [single_key (ki_name demo_mk) demo_key]" "session_ok (te_crypto demo_tde_env, demo_E, demo_ready, td_heap v ! 0)"
    by (rule demo_keys_ready)
  note w = demo_unequal_page
  have f: "fits (live_items demo_unequal_page)"
    by (simp add: w(2) fits_def demo_item2_def demo_item3_def)
  from repair_packs_page [OF v(1,3) w(1) f, of 7] w(2,4) show ?thesis
    by (auto simp: demo_item2_def demo_item3_def total_len_def)
qed

end
