(* ===== verification/PruneChain.thy ===== *)
theory PruneChain
  imports PageLayout Visibility
begin

text \<open>
  Choosing what to prune, \<^verbatim>\<open>src/access/pg_tde_prune.c\<close>: the visibility of every tuple of a page,
  the walk along a chain of heap-only tuples, and the three lists of line pointers to redirect, to
  mark dead and to mark unused. The page is read but not changed, apart from hint bits. What the
  lists mean for the page is in theory \<^verbatim>\<open>Prune\<close>.

  The working data are the fixed arrays of \<^verbatim>\<open>PruneState\<close>, here lists with an explicit bound: a store
  behind an array and a line pointer recorded twice, which the code asserts not to happen, are
  undefined.
\<close>

section \<open>A tuple header on the page\<close>

text \<open>\<^verbatim>\<open>PageGetItem\<close> is the address \<open>lp_off\<close> on the page; the fields are read from the bytes there.\<close>

definition header_at :: "page \<Rightarrow> nat \<Rightarrow> HeapTupleHeader" where
  "header_at pg a =
     \<lparr>t_xmin = un_le (bytes_at pg a 4), t_xmax = un_le (bytes_at pg (a + 4) 4), t_field3 = un_le (bytes_at pg (a + 8) 4),
      t_ctid = (push_bit 16 (un_le (bytes_at pg (a + 12) 2)) OR un_le (bytes_at pg (a + 14) 2), un_le (bytes_at pg (a + 16) 2)),
      t_infomask2 = un_le (bytes_at pg (a + 18) 2), t_infomask = un_le (bytes_at pg (a + 20) 2)\<rparr>"

definition PageGetItem :: "page \<Rightarrow> ItemIdData \<Rightarrow> HeapTupleHeader" where
  "PageGetItem pg lp = header_at pg (unat (lp_off lp))"

abbreviation (input) HEAP_HOT_UPDATED :: uint16 where "HEAP_HOT_UPDATED \<equiv> 0x4000"
abbreviation (input) HEAP_ONLY_TUPLE :: uint16 where "HEAP_ONLY_TUPLE \<equiv> 0x8000"

definition HeapTupleHeaderIsHotUpdated :: "HeapTupleHeader \<Rightarrow> bool" where
  "HeapTupleHeaderIsHotUpdated t =
     (t_infomask2 t AND HEAP_HOT_UPDATED \<noteq> 0 \<and> \<not> has HEAP_XMAX_INVALID t \<and> \<not> HeapTupleHeaderXminInvalid t)"

definition HeapTupleHeaderIsHeapOnly :: "HeapTupleHeader \<Rightarrow> bool" where
  "HeapTupleHeaderIsHeapOnly t = (t_infomask2 t AND HEAP_ONLY_TUPLE \<noteq> 0)"

definition ItemIdGetRedirect :: "ItemIdData \<Rightarrow> nat" where
  "ItemIdGetRedirect lp = unat (lp_off lp)"

section \<open>The working data\<close>

text \<open>
  What the server answers. The states of transactions may change while the routine looks at one
  tuple after the other, so the answers are indexed by the line pointer they are asked for;
  \<open>at_scan\<close> are the answers of the second pass. \<open>TransactionIdLimitedForOldSnapshots\<close> gives the
  two output arguments when it returns true.
\<close>

record prune_env =
  at_item :: "nat \<Rightarrow> xact_env"
  at_scan :: xact_env
  TransactionIdFollows :: "uint32 \<Rightarrow> uint32 \<Rightarrow> bool"
  GlobalVisTestIsRemovableXid :: "nat \<Rightarrow> uint32 \<Rightarrow> bool"
  GlobalVisTestNonRemovableHorizon :: "nat \<Rightarrow> uint32"
  OldSnapshotThresholdActive :: bool
  TransactionIdLimitedForOldSnapshots :: "nat \<Rightarrow> uint32 \<Rightarrow> (uint32 \<times> uint64) option"

text \<open>\<open>htsv\<close> is \<open>None\<close> for the value -1, no visibility computed.\<close>

record PruneState =
  old_snap_ts :: uint64
  old_snap_xmin :: uint32
  old_snap_used :: bool
  new_prune_xid :: uint32
  snapshotConflictHorizon :: uint32
  redirected :: "(nat \<times> nat) list"
  nowdead :: "nat list"
  nowunused :: "nat list"
  marked :: "nat \<Rightarrow> bool"
  htsv :: "nat \<Rightarrow> HTSV_Result option"

definition heap_prune_record_prunable :: "prune_env \<Rightarrow> uint32 \<Rightarrow> PruneState \<Rightarrow> PruneState" where
  "heap_prune_record_prunable pe xid P =
     (if new_prune_xid P = InvalidTransactionId \<or> TransactionIdPrecedes (at_scan pe) xid (new_prune_xid P)
      then P\<lparr>new_prune_xid := xid\<rparr> else P)"

definition mark_item :: "nat \<Rightarrow> PruneState \<Rightarrow> PruneState result" where
  "mark_item offnum P =
     (if offnum > MaxHeapTuplesPerPage then Inl (Undefined ''store outside marked'')
      else if marked P offnum then Inl (Undefined ''assertion failed: item is marked'')
      else Inr (P\<lparr>marked := (marked P)(offnum := True)\<rparr>))"

definition heap_prune_record_redirect :: "nat \<Rightarrow> nat \<Rightarrow> PruneState \<Rightarrow> PruneState result" where
  "heap_prune_record_redirect offnum rdoffnum P =
     (if length (redirected P) \<ge> MaxHeapTuplesPerPage then Inl (Undefined ''store outside redirected'')
      else (case mark_item offnum (P\<lparr>redirected := redirected P @ [(offnum, rdoffnum)]\<rparr>) of
              Inl e \<Rightarrow> Inl e | Inr P \<Rightarrow> mark_item rdoffnum P))"

definition heap_prune_record_dead :: "nat \<Rightarrow> PruneState \<Rightarrow> PruneState result" where
  "heap_prune_record_dead offnum P =
     (if length (nowdead P) \<ge> MaxHeapTuplesPerPage then Inl (Undefined ''store outside nowdead'')
      else mark_item offnum (P\<lparr>nowdead := nowdead P @ [offnum]\<rparr>))"

definition heap_prune_record_unused :: "nat \<Rightarrow> PruneState \<Rightarrow> PruneState result" where
  "heap_prune_record_unused offnum P =
     (if length (nowunused P) \<ge> MaxHeapTuplesPerPage then Inl (Undefined ''store outside nowunused'')
      else mark_item offnum (P\<lparr>nowunused := nowunused P @ [offnum]\<rparr>))"

text \<open>The newest transaction whose effects are removed, for conflicts on a standby.\<close>

definition HeapTupleHeaderAdvanceConflictHorizon :: "prune_env \<Rightarrow> HeapTupleHeader \<Rightarrow> uint32 \<Rightarrow> uint32" where
  "HeapTupleHeaderAdvanceConflictHorizon pe tuple horizon =
     (let xmin = HeapTupleHeaderGetXmin tuple;
          xmax = HeapTupleHeaderGetUpdateXid (at_scan pe) tuple;
          xvac = HeapTupleHeaderGetXvac tuple;
          horizon = (if has HEAP_MOVED tuple \<and> TransactionIdPrecedes (at_scan pe) horizon xvac then xvac else horizon)
      in if HeapTupleHeaderXminCommitted tuple \<or>
            (\<not> HeapTupleHeaderXminInvalid tuple \<and> TransactionIdDidCommit (at_scan pe) xmin)
         then (if xmax \<noteq> xmin \<and> TransactionIdFollows pe xmax horizon then xmax else horizon)
         else horizon)"

definition advance_horizon :: "prune_env \<Rightarrow> HeapTupleHeader \<Rightarrow> PruneState \<Rightarrow> PruneState" where
  "advance_horizon pe htup P =
     P\<lparr>snapshotConflictHorizon := HeapTupleHeaderAdvanceConflictHorizon pe htup (snapshotConflictHorizon P)\<rparr>"

section \<open>The visibility of a tuple\<close>

text \<open>
  The second result is the argument of \<^verbatim>\<open>SetOldSnapshotThresholdTimestamp\<close> when it is called.
\<close>

definition removable_after :: "prune_env \<Rightarrow> nat \<Rightarrow> uint32 \<Rightarrow> PruneState
     \<Rightarrow> HTSV_Result \<times> (uint64 \<times> uint32) option \<times> PruneState" where
  "removable_after pe i dead_after P =
     (let old = (\<lambda>P. TransactionIdPrecedes (at_item pe i) dead_after (old_snap_xmin P))
      in if old_snap_used P then (if old P then HEAPTUPLE_DEAD else HEAPTUPLE_RECENTLY_DEAD, None, P)
         else if GlobalVisTestIsRemovableXid pe i dead_after then (HEAPTUPLE_DEAD, None, P)
         else if OldSnapshotThresholdActive pe
         then (let P = (if old_snap_xmin P = InvalidTransactionId
                        then (case TransactionIdLimitedForOldSnapshots pe i (GlobalVisTestNonRemovableHorizon pe i) of
                                None \<Rightarrow> P
                              | Some (xmin, ts) \<Rightarrow> P\<lparr>old_snap_xmin := xmin, old_snap_ts := ts\<rparr>)
                        else P)
               in if old_snap_xmin P \<noteq> InvalidTransactionId \<and> old P
                  then (HEAPTUPLE_DEAD, Some (old_snap_ts P, old_snap_xmin P), P\<lparr>old_snap_used := True\<rparr>)
                  else (HEAPTUPLE_RECENTLY_DEAD, None, P))
         else (HEAPTUPLE_RECENTLY_DEAD, None, P))"

definition heap_prune_satisfies_vacuum :: "prune_env \<Rightarrow> nat \<Rightarrow> HeapTupleHeader \<Rightarrow> PruneState
     \<Rightarrow> (HTSV_Result \<times> (uint64 \<times> uint32) option \<times> PruneState) \<times> vis_state" where
  "heap_prune_satisfies_vacuum pe i tup P =
     (case HeapTupleSatisfiesVacuumHorizon (at_item pe i) \<lparr>vt = tup, hint_dirty = False\<rparr> of
        ((res, dead_after), s) \<Rightarrow>
          (if res \<noteq> HEAPTUPLE_RECENTLY_DEAD then (res, None, P) else removable_after pe i dead_after P, s))"

section \<open>A chain\<close>

text \<open>
  What the visibility of a member of the chain means: whether it is dead, whether it may soon be,
  and the hint for the next pruning.
\<close>

definition member_status :: "prune_env \<Rightarrow> HeapTupleHeader \<Rightarrow> HTSV_Result option \<Rightarrow> PruneState
     \<Rightarrow> (bool \<times> bool \<times> PruneState) result" where
  "member_status pe htup res P =
     (let prunable = heap_prune_record_prunable pe (HeapTupleHeaderGetUpdateXid (at_scan pe) htup) P
      in case res of
           Some HEAPTUPLE_DEAD \<Rightarrow> Inr (True, False, P)
         | Some HEAPTUPLE_RECENTLY_DEAD \<Rightarrow> Inr (False, True, prunable)
         | Some HEAPTUPLE_DELETE_IN_PROGRESS \<Rightarrow> Inr (False, False, prunable)
         | Some HEAPTUPLE_LIVE \<Rightarrow> Inr (False, False, P)
         | Some HEAPTUPLE_INSERT_IN_PROGRESS \<Rightarrow> Inr (False, False, P)
         | None \<Rightarrow> Inl (Ereport ERROR ''unexpected HeapTupleSatisfiesVacuum result''))"

text \<open>
  The walk: the items of the chain so far, the last dead one among them, 0 for none. Each turn
  stops or stores an item in \<^verbatim>\<open>chainitems\<close>, so the walk ends, by the store behind the array if
  nothing else stops it.
\<close>

function chain_loop :: "prune_env \<Rightarrow> page \<Rightarrow> ItemIdData \<Rightarrow> nat \<Rightarrow> uint32 \<Rightarrow> nat list \<Rightarrow> nat \<Rightarrow> PruneState
     \<Rightarrow> (nat list \<times> nat \<times> PruneState) result" where
  "chain_loop pe dp rootlp offnum priorXmax chainitems latestdead P =
     (if offnum < 1 \<or> offnum > PageGetMaxOffsetNumber dp then Inr (chainitems, latestdead, P)
      else if marked P offnum then Inr (chainitems, latestdead, P)
      else
        (let lp = PageGetItemId dp offnum
         in if \<not> ItemIdIsUsed lp then Inr (chainitems, latestdead, P)
            else if ItemIdIsRedirected lp
            then (if chainitems \<noteq> [] then Inr (chainitems, latestdead, P)
                  else chain_loop pe dp rootlp (ItemIdGetRedirect rootlp) priorXmax [offnum] latestdead P)
            else if ItemIdIsDead lp then Inr (chainitems, latestdead, P)
            else
              (let htup = PageGetItem dp lp
               in if priorXmax \<noteq> InvalidTransactionId \<and> HeapTupleHeaderGetXmin htup \<noteq> priorXmax
                  then Inr (chainitems, latestdead, P)
                  else if length chainitems \<ge> MaxHeapTuplesPerPage then Inl (Undefined ''store outside chainitems'')
                  else
                    (case member_status pe htup (htsv P offnum) P of
                       Inl e \<Rightarrow> Inl e
                     | Inr (tupdead, recent_dead, P) \<Rightarrow>
                         (let chainitems = chainitems @ [offnum];
                              latestdead = (if tupdead then offnum else latestdead);
                              P = (if tupdead then advance_horizon pe htup P else P)
                          in if \<not> tupdead \<and> \<not> recent_dead then Inr (chainitems, latestdead, P)
                             else if \<not> HeapTupleHeaderIsHotUpdated htup then Inr (chainitems, latestdead, P)
                             else chain_loop pe dp rootlp (unat (snd (t_ctid htup)))
                                    (HeapTupleHeaderGetUpdateXid (at_scan pe) htup) chainitems latestdead P)))))"
  by pat_completeness auto
termination
  by (relation "measure (\<lambda>(_, _, _, _, _, chainitems, _, _). 291 - length chainitems)") auto

declare chain_loop.simps [simp del]

text \<open>
  The items behind the first are marked unused up to the last dead one; what remains of the chain
  and how many were marked.
\<close>

fun unuse_items :: "nat \<Rightarrow> nat \<Rightarrow> nat list \<Rightarrow> PruneState \<Rightarrow> (nat list \<times> nat \<times> PruneState) result" where
  "unuse_items latestdead prev [] P = Inr ([], 0, P)"
| "unuse_items latestdead prev (offnum # rest) P =
     (if prev = latestdead then Inr (offnum # rest, 0, P)
      else (case heap_prune_record_unused offnum P of
              Inl e \<Rightarrow> Inl e
            | Inr P \<Rightarrow>
                (case unuse_items latestdead offnum rest P of
                   Inl e \<Rightarrow> Inl e
                 | Inr (left, n, P) \<Rightarrow> Inr (left, n + 1, P))))"

definition heap_prune_chain :: "prune_env \<Rightarrow> page \<Rightarrow> nat \<Rightarrow> PruneState \<Rightarrow> (nat \<times> PruneState) result" where
  "heap_prune_chain pe dp rootoffnum P =
     (let rootlp = PageGetItemId dp rootoffnum; htup = PageGetItem dp rootlp
      in if ItemIdIsNormal rootlp \<and> HeapTupleHeaderIsHeapOnly htup
         then (if htsv P rootoffnum = Some HEAPTUPLE_DEAD \<and> \<not> HeapTupleHeaderIsHotUpdated htup
               then (case heap_prune_record_unused rootoffnum P of
                       Inl e \<Rightarrow> Inl e | Inr P \<Rightarrow> Inr (1, advance_horizon pe htup P))
               else Inr (0, P))
         else
           (case chain_loop pe dp rootlp rootoffnum InvalidTransactionId [] 0 P of
              Inl e \<Rightarrow> Inl e
            | Inr (chainitems, latestdead, P) \<Rightarrow>
                if latestdead \<noteq> 0
                then (case unuse_items latestdead (hd chainitems) (tl chainitems) P of
                        Inl e \<Rightarrow> Inl e
                      | Inr (left, n, P) \<Rightarrow>
                          (let ndeleted = (if ItemIdIsNormal rootlp then n + 1 else n)
                           in case (case left of
                                      [] \<Rightarrow> heap_prune_record_dead rootoffnum P
                                    | rd # _ \<Rightarrow> heap_prune_record_redirect rootoffnum rd P) of
                                Inl e \<Rightarrow> Inl e
                              | Inr P \<Rightarrow> Inr (ndeleted, P)))
                else if length chainitems < 2 \<and> ItemIdIsRedirected rootlp
                then (case heap_prune_record_dead rootoffnum P of Inl e \<Rightarrow> Inl e | Inr P \<Rightarrow> Inr (0, P))
                else Inr (0, P)))"

text \<open>The second pass over the page.\<close>

fun prune_scan :: "prune_env \<Rightarrow> page \<Rightarrow> nat list \<Rightarrow> nat \<Rightarrow> PruneState \<Rightarrow> (nat \<times> PruneState) result" where
  "prune_scan pe dp [] ndeleted P = Inr (ndeleted, P)"
| "prune_scan pe dp (offnum # offs) ndeleted P =
     (if marked P offnum then prune_scan pe dp offs ndeleted P
      else (let itemid = PageGetItemId dp offnum
            in if \<not> ItemIdIsUsed itemid \<or> ItemIdIsDead itemid then prune_scan pe dp offs ndeleted P
               else (case heap_prune_chain pe dp offnum P of
                       Inl e \<Rightarrow> Inl e
                     | Inr (n, P) \<Rightarrow> prune_scan pe dp offs (ndeleted + n) P)))"

end
