(* ===== verification/PrunePlan.thy ===== *)
theory PrunePlan
  imports PruneChain
begin

text \<open>
  What the lists of a pruning contain. A page's line pointers form chains: a redirect leads to a
  tuple, and a tuple that was updated on the page leads to its next version. The lists are
  described over these links and the visibility of the tuples alone, without the walk.
\<close>

section \<open>Links and doomed tuples\<close>

definition in_page :: "page \<Rightarrow> nat \<Rightarrow> bool" where
  "in_page pg i \<longleftrightarrow> 1 \<le> i \<and> i \<le> PageGetMaxOffsetNumber pg"

definition normal :: "page \<Rightarrow> nat \<Rightarrow> bool" where
  "normal pg i \<longleftrightarrow> in_page pg i \<and> ItemIdIsNormal (PageGetItemId pg i)"

definition tuple_of :: "page \<Rightarrow> nat \<Rightarrow> HeapTupleHeader" where
  "tuple_of pg i = PageGetItem pg (PageGetItemId pg i)"

definition heap_only :: "page \<Rightarrow> nat \<Rightarrow> bool" where
  "heap_only pg i \<longleftrightarrow> HeapTupleHeaderIsHeapOnly (tuple_of pg i)"

definition hot_link :: "xact_env \<Rightarrow> page \<Rightarrow> nat \<Rightarrow> nat \<Rightarrow> bool" where
  "hot_link env pg i j \<longleftrightarrow>
     normal pg i \<and> HeapTupleHeaderIsHotUpdated (tuple_of pg i) \<and> j = unat (snd (t_ctid (tuple_of pg i))) \<and> normal pg j \<and>
     (HeapTupleHeaderGetUpdateXid env (tuple_of pg i) = 0 \<or>
      HeapTupleHeaderGetXmin (tuple_of pg j) = HeapTupleHeaderGetUpdateXid env (tuple_of pg i))"

definition redirect_item_at :: "page \<Rightarrow> nat \<Rightarrow> bool" where
  "redirect_item_at pg i \<longleftrightarrow> in_page pg i \<and> ItemIdIsRedirected (PageGetItemId pg i)"

definition redirect_link :: "page \<Rightarrow> nat \<Rightarrow> nat \<Rightarrow> bool" where
  "redirect_link pg i j \<longleftrightarrow> redirect_item_at pg i \<and> j = ItemIdGetRedirect (PageGetItemId pg i) \<and> normal pg j"

definition chain_link :: "xact_env \<Rightarrow> page \<Rightarrow> nat \<Rightarrow> nat \<Rightarrow> bool" where
  "chain_link env pg i j \<longleftrightarrow> hot_link env pg i j \<or> redirect_link pg i j"

text \<open>
  A tuple is doomed when it is dead, or when it may soon be and its next version is doomed: it is
  then dead as well, the test is only too coarse to see it. The links through an item of \<open>M\<close> do
  not count.
\<close>

inductive doomed :: "xact_env \<Rightarrow> page \<Rightarrow> (nat \<Rightarrow> HTSV_Result option) \<Rightarrow> (nat \<Rightarrow> bool) \<Rightarrow> nat \<Rightarrow> bool"
  for env pg h M where
    dead: "normal pg i \<Longrightarrow> \<not> M i \<Longrightarrow> h i = Some HEAPTUPLE_DEAD \<Longrightarrow> doomed env pg h M i"
  | before_dead: "hot_link env pg i j \<Longrightarrow> \<not> M i \<Longrightarrow> h i = Some HEAPTUPLE_RECENTLY_DEAD \<Longrightarrow> doomed env pg h M j
       \<Longrightarrow> doomed env pg h M i"

inductive_cases doomedE: "doomed env pg h M i"

lemma doomed_antimono: "doomed env pg h M' i \<Longrightarrow> (\<And>x. M x \<Longrightarrow> M' x) \<Longrightarrow> doomed env pg h M i"
  by (induction rule: doomed.induct) (auto intro: doomed.intros)

lemma doomed_normal: "doomed env pg h M i \<Longrightarrow> normal pg i"
  by (induction rule: doomed.induct) (auto simp: hot_link_def)

text \<open>
  A page on which the links make sense: they do not run in circles and lead to heap-only tuples,
  and the line pointers fit the working data.
\<close>

definition hot_ok :: "xact_env \<Rightarrow> page \<Rightarrow> bool" where
  "hot_ok env pg \<longleftrightarrow>
     PageGetMaxOffsetNumber pg \<le> MaxHeapTuplesPerPage \<and>
     (\<exists>rank :: nat \<Rightarrow> nat. \<forall>i j. hot_link env pg i j \<longrightarrow> rank i < rank j) \<and>
     (\<forall>i j. chain_link env pg i j \<longrightarrow> heap_only pg j)"

definition htsv_ok :: "page \<Rightarrow> (nat \<Rightarrow> HTSV_Result option) \<Rightarrow> bool" where
  "htsv_ok pg h \<longleftrightarrow> (\<forall>i. in_page pg i \<longrightarrow> (h i \<noteq> None \<longleftrightarrow> normal pg i))"

lemma normal_not_redirect: "normal pg i \<Longrightarrow> \<not> redirect_item_at pg i"
  by (simp add: normal_def redirect_item_at_def ItemIdIsNormal_def ItemIdIsRedirected_def)

lemma chain_link_normal: "chain_link env pg i j \<Longrightarrow> normal pg j"
  by (auto simp: chain_link_def hot_link_def redirect_link_def)

lemma distinct_hot_chain:
  assumes "successively (hot_link env pg) xs" "\<forall>i j. hot_link env pg i j \<longrightarrow> rank i < (rank j :: nat)"
  shows "distinct xs"
proof -
  have "sorted_wrt (\<lambda>i j. rank i < rank j) xs"
    using successively_mono [OF assms(1), of "\<lambda>i j. rank i < rank j"] assms(2)
    by (subst successively_conv_sorted_wrt [symmetric]) (auto simp: transp_def)
  then have "distinct (map rank xs)"
    by (simp add: sorted_wrt_map [symmetric] strict_sorted_iff)
  then show ?thesis
    by (simp add: distinct_map)
qed

section \<open>The walk\<close>

definition same_plan :: "PruneState \<Rightarrow> PruneState \<Rightarrow> bool" where
  "same_plan P P' \<longleftrightarrow> redirected P' = redirected P \<and> nowdead P' = nowdead P \<and> nowunused P' = nowunused P \<and>
     marked P' = marked P \<and> htsv P' = htsv P"

lemma same_plan_refl [simp]: "same_plan P P"
  by (simp add: same_plan_def)

lemma same_plan_trans: "same_plan P Q \<Longrightarrow> same_plan Q R \<Longrightarrow> same_plan P R"
  by (simp add: same_plan_def)

lemma same_plan_advance [simp]: "same_plan P (advance_horizon pe t P)"
  by (simp add: same_plan_def advance_horizon_def)

lemma same_plan_prunable [simp]: "same_plan P (heap_prune_record_prunable pe x P)"
  by (simp add: same_plan_def heap_prune_record_prunable_def)

text \<open>The walk goes on to \<open>off\<close>: it may be added to the chain.\<close>

definition joins :: "page \<Rightarrow> (nat \<Rightarrow> bool) \<Rightarrow> nat \<Rightarrow> uint32 \<Rightarrow> bool" where
  "joins dp M off prior \<longleftrightarrow> normal dp off \<and> \<not> M off \<and> (prior = 0 \<or> HeapTupleHeaderGetXmin (tuple_of dp off) = prior)"

definition goes_on :: "page \<Rightarrow> (nat \<Rightarrow> HTSV_Result option) \<Rightarrow> nat \<Rightarrow> bool" where
  "goes_on dp h off \<longleftrightarrow> h off \<in> {Some HEAPTUPLE_DEAD, Some HEAPTUPLE_RECENTLY_DEAD} \<and> HeapTupleHeaderIsHotUpdated (tuple_of dp off)"

lemma lp_flags_cases:
  "ItemIdIsUsed lp \<longleftrightarrow> ItemIdIsNormal lp \<or> ItemIdIsRedirected lp \<or> ItemIdIsDead lp"
  "ItemIdIsNormal lp \<Longrightarrow> \<not> ItemIdIsRedirected lp \<and> \<not> ItemIdIsDead lp"
  "ItemIdIsRedirected lp \<Longrightarrow> \<not> ItemIdIsDead lp"
proof -
  have "w = 0 \<or> w = 1 \<or> w = 2 \<or> w = 3" for w :: "2 word"
  proof -
    have "unat w < 2 ^ LENGTH(2)"
      by (rule unsigned_less)
    then have "unat w < 4"
      by simp
    then have "unat w = 0 \<or> unat w = 1 \<or> unat w = 2 \<or> unat w = 3"
      by linarith
    then show ?thesis
      by (simp add: word_unat_eq_iff)
  qed
  from this [of "lp_flags lp"] show "ItemIdIsUsed lp \<longleftrightarrow> ItemIdIsNormal lp \<or> ItemIdIsRedirected lp \<or> ItemIdIsDead lp"
    "ItemIdIsNormal lp \<Longrightarrow> \<not> ItemIdIsRedirected lp \<and> \<not> ItemIdIsDead lp" "ItemIdIsRedirected lp \<Longrightarrow> \<not> ItemIdIsDead lp"
    by (auto simp: ItemIdIsUsed_def ItemIdIsNormal_def ItemIdIsRedirected_def ItemIdIsDead_def)
qed

lemma chain_loop_stop:
  assumes "\<not> joins dp (marked P) off prior" "chain \<noteq> [] \<or> \<not> redirect_item_at dp off \<or> marked P off"
  shows "chain_loop pe dp rootlp off prior chain ld P = Inr (chain, ld, P)"
  using assms lp_flags_cases [of "PageGetItemId dp off"]
  by (subst chain_loop.simps)
     (auto simp: joins_def normal_def in_page_def redirect_item_at_def tuple_of_def Let_def)

lemma chain_loop_redirect:
  assumes "redirect_item_at dp off" "\<not> marked P off"
  shows "chain_loop pe dp rootlp off prior [] ld P =
    chain_loop pe dp rootlp (ItemIdGetRedirect rootlp) prior [off] ld P"
  using assms lp_flags_cases [of "PageGetItemId dp off"]
  by (subst chain_loop.simps) (auto simp: in_page_def redirect_item_at_def Let_def)

lemma chain_loop_join:
  assumes j: "joins dp (marked P) off prior" and "length chain < 291" and h: "htsv P off \<noteq> None"
  obtains Q where "same_plan P Q"
    "chain_loop pe dp rootlp off prior chain ld P =
      (let ld' = (if htsv P off = Some HEAPTUPLE_DEAD then off else ld)
       in if goes_on dp (htsv P) off
          then chain_loop pe dp rootlp (unat (snd (t_ctid (tuple_of dp off))))
                 (HeapTupleHeaderGetUpdateXid (at_scan pe) (tuple_of dp off)) (chain @ [off]) ld' Q
          else Inr (chain @ [off], ld', Q))"
proof -
  let ?t = "tuple_of dp off"
  obtain r where r: "htsv P off = Some r"
    using h by auto
  define Q0 where "Q0 = (if r = HEAPTUPLE_RECENTLY_DEAD \<or> r = HEAPTUPLE_DELETE_IN_PROGRESS
    then heap_prune_record_prunable pe (HeapTupleHeaderGetUpdateXid (at_scan pe) ?t) P else P)"
  have ms: "member_status pe ?t (Some r) P = Inr (r = HEAPTUPLE_DEAD, r = HEAPTUPLE_RECENTLY_DEAD, Q0)"
    by (cases r) (simp_all add: member_status_def Q0_def)
  let ?Q = "if r = HEAPTUPLE_DEAD then advance_horizon pe ?t Q0 else Q0"
  have "same_plan P Q0"
    by (simp add: Q0_def)
  then have "same_plan P ?Q"
    by (auto intro: same_plan_trans)
  moreover have "chain_loop pe dp rootlp off prior chain ld P =
      (let ld' = (if htsv P off = Some HEAPTUPLE_DEAD then off else ld)
       in if goes_on dp (htsv P) off
          then chain_loop pe dp rootlp (unat (snd (t_ctid ?t))) (HeapTupleHeaderGetUpdateXid (at_scan pe) ?t) (chain @ [off]) ld' ?Q
          else Inr (chain @ [off], ld', ?Q))"
    using j assms(2) lp_flags_cases [of "PageGetItemId dp off"] ms
    by (subst chain_loop.simps)
       (auto simp: goes_on_def joins_def normal_def in_page_def tuple_of_def [symmetric] Let_def r)
  ultimately show thesis
    by (rule that)
qed
text \<open>A chain visits no item twice and fits its array.\<close>

lemma chain_tail_normal: "successively (chain_link env pg) (x # xs) \<Longrightarrow> y \<in> set xs \<Longrightarrow> normal pg y"
proof (induction xs arbitrary: x)
  case (Cons z zs)
  then show ?case
    using chain_link_normal by (auto simp: successively_Cons)
qed simp

lemma distinct_chain:
  assumes "hot_ok env pg" "successively (chain_link env pg) xs"
  shows "distinct xs"
proof (cases xs)
  case (Cons x ys)
  obtain rank :: "nat \<Rightarrow> nat" where rank: "\<forall>i j. hot_link env pg i j \<longrightarrow> rank i < rank j"
    using assms(1) unfolding hot_ok_def by blast
  have hot: "successively (hot_link env pg) zs" if "successively (chain_link env pg) zs" "\<forall>z\<in>set zs. normal pg z" for zs
    using that by (induction zs) (auto simp: successively_Cons chain_link_def redirect_link_def dest: normal_not_redirect)
  have n: "\<forall>y\<in>set ys. normal pg y"
    using chain_tail_normal assms(2) Cons by blast
  show ?thesis
  proof (cases "normal pg x")
    case True
    then show ?thesis
      using distinct_hot_chain [OF hot [OF assms(2)] rank] n Cons by simp
  next
    case False
    have "successively (chain_link env pg) ys"
      using assms(2) Cons by (cases ys) (simp_all add: successively_Cons)
    with False show ?thesis
      using distinct_hot_chain [OF hot [OF _ n] rank] n Cons by auto
  qed
qed simp

lemma chain_fits:
  assumes "hot_ok env pg" "successively (chain_link env pg) xs" "\<forall>x\<in>set xs. in_page pg x"
  shows "length xs \<le> 291"
proof -
  have "set xs \<subseteq> {1..PageGetMaxOffsetNumber pg}"
    using assms(3) by (auto simp: in_page_def)
  then have "card (set xs) \<le> PageGetMaxOffsetNumber pg"
    using card_mono [of "{1..PageGetMaxOffsetNumber pg}"] by simp
  then show ?thesis
    using assms(1) distinct_card [OF distinct_chain [OF assms(1,2)]] by (simp add: hot_ok_def)
qed

definition walk_inv :: "xact_env \<Rightarrow> page \<Rightarrow> ItemIdData \<Rightarrow> nat \<Rightarrow> uint32 \<Rightarrow> nat list \<Rightarrow> bool" where
  "walk_inv env dp rootlp off prior chain \<longleftrightarrow>
     successively (chain_link env dp) chain \<and> (\<forall>x\<in>set chain. in_page dp x) \<and>
     (if chain = [] then prior = 0 \<and> rootlp = PageGetItemId dp off
      else joins dp (\<lambda>_. False) off prior \<longrightarrow> chain_link env dp (last chain) off)"

lemma joins_any: "joins dp M off prior \<Longrightarrow> joins dp (\<lambda>_. False) off prior"
  by (simp add: joins_def)

lemma walk_inv_join:
  assumes "walk_inv env dp rootlp off prior chain" "joins dp M off prior"
  shows "successively (chain_link env dp) (chain @ [off])" "\<forall>x\<in>set (chain @ [off]). in_page dp x"
    "HeapTupleHeaderIsHotUpdated (tuple_of dp off) \<Longrightarrow>
      walk_inv env dp rootlp (unat (snd (t_ctid (tuple_of dp off)))) (HeapTupleHeaderGetUpdateXid env (tuple_of dp off)) (chain @ [off])"
proof -
  show s: "successively (chain_link env dp) (chain @ [off])"
    using assms joins_any [OF assms(2)] by (auto simp: walk_inv_def successively_append_iff split: if_splits)
  show p: "\<forall>x\<in>set (chain @ [off]). in_page dp x"
    using assms by (auto simp: walk_inv_def joins_def normal_def)
  assume "HeapTupleHeaderIsHotUpdated (tuple_of dp off)"
  then show "walk_inv env dp rootlp (unat (snd (t_ctid (tuple_of dp off)))) (HeapTupleHeaderGetUpdateXid env (tuple_of dp off)) (chain @ [off])"
    using s p assms(2) by (auto simp: walk_inv_def chain_link_def hot_link_def joins_def)
qed

lemma walk_inv_redirect:
  assumes "walk_inv env dp rootlp off prior []" "redirect_item_at dp off"
  shows "walk_inv env dp rootlp (ItemIdGetRedirect rootlp) prior [off]"
  using assms by (auto simp: walk_inv_def redirect_item_at_def chain_link_def redirect_link_def joins_def)

text \<open>What the walk adds to the chain.\<close>

definition walked :: "xact_env \<Rightarrow> page \<Rightarrow> PruneState \<Rightarrow> nat \<Rightarrow> uint32 \<Rightarrow> nat list \<Rightarrow> nat list \<Rightarrow> bool" where
  "walked env dp P off prior chain new \<longleftrightarrow>
     successively (chain_link env dp) (chain @ new) \<and>
     (\<forall>x\<in>set new. \<not> marked P x \<and> (normal dp x \<or> redirect_item_at dp x)) \<and>
     (\<forall>x\<in>set (butlast new). redirect_item_at dp x \<or> htsv P x \<in> {Some HEAPTUPLE_DEAD, Some HEAPTUPLE_RECENTLY_DEAD}) \<and>
     (new \<noteq> [] \<longrightarrow> hd new = off) \<and> (joins dp (marked P) off prior \<longrightarrow> new \<noteq> []) \<and>
     (joins dp (marked P) off prior \<and> doomed env dp (htsv P) (marked P) off \<longrightarrow> (\<exists>x\<in>set new. htsv P x = Some HEAPTUPLE_DEAD)) \<and>
     (chain = [] \<and> redirect_item_at dp off \<and> \<not> marked P off \<longrightarrow> new \<noteq> [] \<and>
        (\<forall>t. redirect_link dp off t \<and> doomed env dp (htsv P) (marked P) t \<longrightarrow> (\<exists>x\<in>set new. htsv P x = Some HEAPTUPLE_DEAD)))"

lemma walked_stop:
  "walk_inv env dp rootlp off prior chain \<Longrightarrow> \<not> joins dp (marked P) off prior \<Longrightarrow>
     chain \<noteq> [] \<or> \<not> redirect_item_at dp off \<or> marked P off \<Longrightarrow> walked env dp P off prior chain []"
  by (auto simp: walked_def walk_inv_def)

lemma walked_last:
  assumes "walk_inv env dp rootlp off prior chain" "joins dp (marked P) off prior" "\<not> goes_on dp (htsv P) off"
  shows "walked env dp P off prior chain [off]"
proof -
  have "htsv P off = Some HEAPTUPLE_DEAD" if "doomed env dp (htsv P) (marked P) off"
    using that
  proof (cases rule: doomed.cases)
    case (before_dead j)
    then show ?thesis
      using assms(3) by (simp add: hot_link_def goes_on_def)
  qed simp
  then show ?thesis
    using assms(2) walk_inv_join(1) [OF assms(1,2)] normal_not_redirect by (auto simp: walked_def joins_def)
qed

lemma walked_join:
  assumes "walk_inv env dp rootlp off prior chain" "joins dp (marked P) off prior" "goes_on dp (htsv P) off" "same_plan P Q"
    and w: "walked env dp Q (unat (snd (t_ctid (tuple_of dp off)))) (HeapTupleHeaderGetUpdateXid env (tuple_of dp off)) (chain @ [off]) new"
  shows "walked env dp P off prior chain (off # new)"
proof -
  have PQ: "marked Q = marked P" "htsv Q = htsv P"
    using assms(4) by (simp_all add: same_plan_def)
  have "\<exists>x\<in>set (off # new). htsv P x = Some HEAPTUPLE_DEAD" if "doomed env dp (htsv P) (marked P) off"
    using that
  proof (cases rule: doomed.cases)
    case (before_dead j)
    then have "joins dp (marked P) j (HeapTupleHeaderGetUpdateXid env (tuple_of dp off))"
      "j = unat (snd (t_ctid (tuple_of dp off)))"
      using doomedE [OF before_dead(4)] by (auto simp: joins_def hot_link_def)
    then show ?thesis
      using w before_dead(4) by (auto simp: walked_def PQ)
  qed simp
  then show ?thesis
    using assms(2,3) w normal_not_redirect unfolding walked_def PQ by (auto simp: joins_def goes_on_def)
qed

lemma walked_redirect:
  assumes "redirect_item_at dp off" "\<not> marked P off" "walked env dp P (ItemIdGetRedirect (PageGetItemId dp off)) 0 [off] new"
  shows "walked env dp P off 0 [] (off # new)"
proof -
  have "\<not> normal dp off"
    using assms(1) normal_not_redirect by blast
  moreover have "joins dp (marked P) t 0" if "doomed env dp (htsv P) (marked P) t" for t
    using that doomed_normal [OF that] by (cases rule: doomed.cases) (auto simp: joins_def)
  ultimately show ?thesis
    using assms unfolding walked_def by (auto simp: joins_def redirect_link_def)
qed

lemma chain_loop_result:
  assumes "hot_ok (at_scan pe) dp" "htsv_ok dp (htsv P)" "walk_inv (at_scan pe) dp rootlp off prior chain"
  shows "\<exists>new Q. chain_loop pe dp rootlp off prior chain ld P =
      Inr (chain @ new, last (ld # filter (\<lambda>x. htsv P x = Some HEAPTUPLE_DEAD) new), Q) \<and> same_plan P Q \<and>
    walked (at_scan pe) dp P off prior chain new"
  using assms(2,3)
proof (induction "292 - length chain" arbitrary: off prior chain ld P rule: less_induct)
  case less
  show ?case
  proof (cases "joins dp (marked P) off prior")
    case True
    note j = walk_inv_join [OF less.prems(2) True]
    have len: "length chain < 291"
      using chain_fits [OF assms(1) j(1,2)] by simp
    have "htsv P off \<noteq> None"
      using True less.prems(1) by (auto simp: joins_def normal_def htsv_ok_def)
    then obtain Q where Q: "same_plan P Q" "chain_loop pe dp rootlp off prior chain ld P =
      (let ld' = (if htsv P off = Some HEAPTUPLE_DEAD then off else ld)
       in if goes_on dp (htsv P) off
          then chain_loop pe dp rootlp (unat (snd (t_ctid (tuple_of dp off))))
                 (HeapTupleHeaderGetUpdateXid (at_scan pe) (tuple_of dp off)) (chain @ [off]) ld' Q
          else Inr (chain @ [off], ld', Q))"
      by (rule chain_loop_join [OF True len])
    show ?thesis
    proof (cases "goes_on dp (htsv P) off")
      case False
      then show ?thesis
        using Q walked_last [OF less.prems(2) True False] by (intro exI [of _ "[off]"] exI [of _ Q]) (simp add: Let_def)
    next
      case go: True
      have PQ: "htsv Q = htsv P"
        using Q(1) by (simp add: same_plan_def)
      have i: "walk_inv (at_scan pe) dp rootlp (unat (snd (t_ctid (tuple_of dp off)))) (HeapTupleHeaderGetUpdateXid (at_scan pe) (tuple_of dp off)) (chain @ [off])"
        using go by (intro j(3)) (simp add: goes_on_def)
      have m: "292 - length (chain @ [off]) < 292 - length chain" and q: "htsv_ok dp (htsv Q)"
        using len less.prems(1) PQ by simp_all
      let ?ld = "if htsv P off = Some HEAPTUPLE_DEAD then off else ld"
      from less.hyps [OF m q i, of ?ld] obtain new R where
        r: "chain_loop pe dp rootlp (unat (snd (t_ctid (tuple_of dp off)))) (HeapTupleHeaderGetUpdateXid (at_scan pe) (tuple_of dp off)) (chain @ [off]) ?ld Q =
          Inr ((chain @ [off]) @ new, last (?ld # filter (\<lambda>x. htsv P x = Some HEAPTUPLE_DEAD) new), R)" "same_plan Q R"
        "walked (at_scan pe) dp Q (unat (snd (t_ctid (tuple_of dp off)))) (HeapTupleHeaderGetUpdateXid (at_scan pe) (tuple_of dp off)) (chain @ [off]) new"
        unfolding PQ by blast
      show ?thesis
        using Q(2) go r(1) same_plan_trans [OF Q(1) r(2)] walked_join [OF less.prems(2) True go Q(1) r(3)]
        by (intro exI [of _ "off # new"] exI [of _ R]) (simp add: Let_def)
    qed
  next
    case False
    show ?thesis
    proof (cases "chain = [] \<and> redirect_item_at dp off \<and> \<not> marked P off")
      case True
      then have c: "chain = []" "redirect_item_at dp off" "\<not> marked P off"
        by simp_all
      have root: "rootlp = PageGetItemId dp off" "prior = 0"
        using less.prems(2) c(1) by (simp_all add: walk_inv_def)
      have m: "292 - length [off] < 292 - length chain"
        using c(1) by simp
      have i: "walk_inv (at_scan pe) dp rootlp (ItemIdGetRedirect rootlp) prior [off]"
        using less.prems(2) c(1,2) by (intro walk_inv_redirect) simp_all
      have h: "htsv P off = None"
        using c(2) less.prems(1) normal_not_redirect by (auto simp: htsv_ok_def redirect_item_at_def)
      from less.hyps [OF m less.prems(1) i, of ld] obtain new Q where
        q: "chain_loop pe dp rootlp (ItemIdGetRedirect rootlp) prior [off] ld P =
          Inr ([off] @ new, last (ld # filter (\<lambda>x. htsv P x = Some HEAPTUPLE_DEAD) new), Q)" "same_plan P Q"
        "walked (at_scan pe) dp P (ItemIdGetRedirect rootlp) prior [off] new"
        by blast
      show ?thesis
        using q chain_loop_redirect [OF c(2,3), of pe rootlp prior ld] walked_redirect [OF c(2,3) q(3) [unfolded root]] c(1) h root(2)
        by (intro exI [of _ "off # new"] exI [of _ Q]) simp
    next
      case stop: False
      then show ?thesis
        using chain_loop_stop [OF False, of chain pe rootlp ld] walked_stop [OF less.prems(2) False] stop
        by (intro exI [of _ "[]"] exI [of _ P]) auto
    qed
  qed
qed
section \<open>Recording\<close>

definition recorded :: "PruneState \<Rightarrow> nat list" where
  "recorded P = nowunused P @ nowdead P @ map fst (redirected P) @ map snd (redirected P)"

text \<open>No line pointer is recorded twice, and \<open>marked\<close> says which are.\<close>

definition plan_wf :: "page \<Rightarrow> PruneState \<Rightarrow> bool" where
  "plan_wf dp P \<longleftrightarrow> distinct (recorded P) \<and> (\<forall>x. marked P x \<longleftrightarrow> x \<in> set (recorded P)) \<and>
     (\<forall>x\<in>set (recorded P). in_page dp x)"

lemma plan_wf_same: "same_plan P Q \<Longrightarrow> plan_wf dp P \<Longrightarrow> plan_wf dp Q"
  by (simp add: same_plan_def plan_wf_def recorded_def)

lemma plan_room:
  assumes "plan_wf dp P" "hot_ok env dp" "in_page dp x" "\<not> marked P x"
  shows "length (recorded P) < 291"
proof -
  have "set (x # recorded P) \<subseteq> {1..PageGetMaxOffsetNumber dp}"
    using assms(1,3) by (auto simp: plan_wf_def in_page_def)
  then have "card (set (x # recorded P)) \<le> PageGetMaxOffsetNumber dp"
    using card_mono [of "{1..PageGetMaxOffsetNumber dp}"] by simp
  moreover have "card (set (x # recorded P)) = length (x # recorded P)"
    using assms(1,4) by (intro distinct_card) (simp add: plan_wf_def)
  ultimately show ?thesis
    using assms(2) by (simp add: hot_ok_def)
qed

lemma mark_item_Inr: "i \<le> 291 \<Longrightarrow> \<not> marked P i \<Longrightarrow> mark_item i P = Inr (P\<lparr>marked := (marked P)(i := True)\<rparr>)"
  by (simp add: mark_item_def)

lemma in_page_291: "hot_ok env dp \<Longrightarrow> in_page dp i \<Longrightarrow> i \<le> 291"
  by (simp add: hot_ok_def in_page_def)

lemma record_unused_result:
  assumes "plan_wf dp P" "hot_ok env dp" "in_page dp x" "\<not> marked P x"
  shows "heap_prune_record_unused x P = Inr (P\<lparr>nowunused := nowunused P @ [x], marked := (marked P)(x := True)\<rparr>)"
    "plan_wf dp (P\<lparr>nowunused := nowunused P @ [x], marked := (marked P)(x := True)\<rparr>)"
  using assms plan_room [OF assms] in_page_291 [OF assms(2,3)]
  by (auto simp: heap_prune_record_unused_def mark_item_Inr recorded_def plan_wf_def)

lemma record_dead_result:
  assumes "plan_wf dp P" "hot_ok env dp" "in_page dp x" "\<not> marked P x"
  shows "heap_prune_record_dead x P = Inr (P\<lparr>nowdead := nowdead P @ [x], marked := (marked P)(x := True)\<rparr>)"
    "plan_wf dp (P\<lparr>nowdead := nowdead P @ [x], marked := (marked P)(x := True)\<rparr>)"
  using assms plan_room [OF assms] in_page_291 [OF assms(2,3)]
  by (auto simp: heap_prune_record_dead_def mark_item_Inr recorded_def plan_wf_def)

lemma record_redirect_result:
  assumes "plan_wf dp P" "hot_ok env dp" "in_page dp x" "\<not> marked P x" "in_page dp y" "\<not> marked P y" "x \<noteq> y"
  shows "heap_prune_record_redirect x y P =
      Inr (P\<lparr>redirected := redirected P @ [(x, y)], marked := (marked P)(x := True, y := True)\<rparr>)"
    "plan_wf dp (P\<lparr>redirected := redirected P @ [(x, y)], marked := (marked P)(x := True, y := True)\<rparr>)"
  using assms plan_room [OF assms(1-4)] in_page_291 [OF assms(2,3)] in_page_291 [OF assms(2,5)]
  by (auto simp: heap_prune_record_redirect_def mark_item_Inr recorded_def plan_wf_def)

lemma unuse_items_result:
  assumes "plan_wf dp P" "hot_ok env dp" "\<forall>x\<in>set rest. in_page dp x \<and> \<not> marked P x" "distinct (prev # pre @ post)"
    and "rest = pre @ post" "last (prev # pre) = ld"
  shows "\<exists>Q. unuse_items ld prev rest P = Inr (post, length pre, Q) \<and> plan_wf dp Q \<and>
    Q = P\<lparr>nowunused := nowunused P @ pre, marked := (\<lambda>x. marked P x \<or> x \<in> set pre)\<rparr>"
  using assms
proof (induction pre arbitrary: prev rest P)
  case Nil
  then show ?case
    by (cases post) simp_all
next
  case (Cons x pre)
  let ?P = "P\<lparr>nowunused := nowunused P @ [x], marked := (marked P)(x := True)\<rparr>"
  have x: "in_page dp x" "\<not> marked P x" and ne: "prev \<noteq> ld"
    using Cons.prems(3-6) last_in_set [of "x # pre"] by auto
  note r = record_unused_result [OF Cons.prems(1,2) x]
  have "\<exists>Q. unuse_items ld x (pre @ post) ?P = Inr (post, length pre, Q) \<and> plan_wf dp Q \<and>
    Q = ?P\<lparr>nowunused := nowunused ?P @ pre, marked := (\<lambda>y. marked ?P y \<or> y \<in> set pre)\<rparr>"
    using Cons.prems by (intro Cons.IH [OF r(2)]) auto
  then show ?case
    using r(1) ne Cons.prems(5) by (auto simp: fun_eq_iff)
qed

section \<open>One chain\<close>

lemma doomed_prefix:
  assumes "successively (chain_link env dp) (xs @ [l])" "\<forall>x\<in>set xs. normal dp x \<longrightarrow> h x \<in> {Some HEAPTUPLE_DEAD, Some HEAPTUPLE_RECENTLY_DEAD}"
    and "h l = Some HEAPTUPLE_DEAD" "normal dp l" "\<forall>x\<in>set (xs @ [l]). \<not> M x" "x \<in> set (xs @ [l])" "normal dp x"
  shows "doomed env dp h M x"
  using assms
proof (induction xs arbitrary: x)
  case Nil
  then show ?case
    by (simp add: doomed.dead)
next
  case (Cons y ys)
  show ?case
  proof (cases "x = y")
    case False
    then show ?thesis
      using Cons by (auto simp: successively_Cons)
  next
    case True
    let ?z = "hd (ys @ [l])"
    have link: "chain_link env dp y ?z"
      using Cons.prems(1) by (cases ys) simp_all
    have "?z \<in> set (ys @ [l])"
      by (cases ys) simp_all
    then have "doomed env dp h M ?z"
      using Cons chain_link_normal [OF link] by (intro Cons.IH) (auto simp: successively_Cons)
    moreover have "hot_link env dp y ?z"
      using link True Cons.prems(7) normal_not_redirect by (auto simp: chain_link_def redirect_link_def)
    moreover have "h y = Some HEAPTUPLE_DEAD \<or> h y = Some HEAPTUPLE_RECENTLY_DEAD" "\<not> M y"
      using True Cons.prems(2,5,7) by auto
    ultimately show ?thesis
      using True Cons.prems(7) by (auto intro: doomed.intros)
  qed
qed

text \<open>What one call of \<open>heap_prune_chain\<close> adds to the plan.\<close>

definition chain_result :: "xact_env \<Rightarrow> page \<Rightarrow> nat \<Rightarrow> PruneState \<Rightarrow> nat list \<Rightarrow> nat list \<Rightarrow> (nat \<times> nat) list \<Rightarrow> bool" where
  "chain_result env dp root P U D R \<longleftrightarrow>
     (\<forall>u\<in>set U. heap_only dp u \<and> doomed env dp (htsv P) (marked P) u) \<and>
     (\<forall>x\<in>set (D @ map fst R). x = root \<and>
        (redirect_item_at dp root \<or> normal dp root \<and> \<not> heap_only dp root \<and> doomed env dp (htsv P) (marked P) root)) \<and>
     (\<forall>y\<in>set (map snd R). normal dp y \<and> heap_only dp y \<and> htsv P y \<noteq> Some HEAPTUPLE_DEAD) \<and>
     (\<forall>(x, y)\<in>set R. redirect_item_at dp x \<longrightarrow> ItemIdGetRedirect (PageGetItemId dp x) \<in> set U) \<and>
     (normal dp root \<and> \<not> heap_only dp root \<and> htsv P root = Some HEAPTUPLE_DEAD \<longrightarrow> D @ map fst R = [root]) \<and>
     (redirect_item_at dp root \<longrightarrow> D @ map fst R = [root] \<or>
        U = [] \<and> (\<exists>t. redirect_link dp root t \<and> \<not> marked P t \<and> \<not> doomed env dp (htsv P) (marked P) t))"

definition plan_added :: "PruneState \<Rightarrow> PruneState \<Rightarrow> nat list \<Rightarrow> nat list \<Rightarrow> (nat \<times> nat) list \<Rightarrow> bool" where
  "plan_added P Q U D R \<longleftrightarrow>
     nowunused Q = nowunused P @ U \<and> nowdead Q = nowdead P @ D \<and> redirected Q = redirected P @ R \<and> htsv Q = htsv P"
definition ndeleted_of :: "page \<Rightarrow> nat list \<Rightarrow> nat list \<Rightarrow> (nat \<times> nat) list \<Rightarrow> nat" where
  "ndeleted_of dp U D R = length U + length (filter (normal dp) (D @ map fst R))"

lemma last_dead:
  assumes "last (0 # filter dead xs) = ld" "ld \<noteq> 0"
  obtains pre post where "xs = pre @ ld # post" "dead ld" "\<forall>y\<in>set post. \<not> dead y"
proof -
  have f: "filter dead xs \<noteq> []"
    using assms by auto
  then have "\<exists>pre post. xs = pre @ last (filter dead xs) # post \<and> dead (last (filter dead xs)) \<and> (\<forall>y\<in>set post. \<not> dead y)"
  proof (induction xs rule: rev_induct)
    case (snoc x xs)
    show ?case
    proof (cases "dead x")
      case True
      then show ?thesis
        by (intro exI [of _ xs] exI [of _ "[]"]) simp
    next
      case False
      then obtain pre post where "xs = pre @ last (filter dead xs) # post" "dead (last (filter dead xs))" "\<forall>y\<in>set post. \<not> dead y"
        using snoc by auto
      with False show ?thesis
        by (intro exI [of _ pre] exI [of _ "post @ [x]"]) auto
    qed
  qed simp
  then show thesis
    using that f assms(1) by auto
qed

lemma chain_with_dead:
  assumes ok: "hot_ok env dp" "htsv_ok dp (htsv P)" "plan_wf dp P"
    and w: "walked env dp P root 0 [] chain" and ld: "last (0 # filter (\<lambda>x. htsv P x = Some HEAPTUPLE_DEAD) chain) = ld" "ld \<noteq> 0"
    and root: "\<not> (normal dp root \<and> heap_only dp root)" and same: "same_plan P P1"
  obtains pre post Q where "chain = root # pre @ post" "unuse_items ld (hd chain) (tl chain) P1 = Inr (post, length pre, Q)"
    "plan_wf dp Q" "plan_added P Q pre [] []" "marked Q = (\<lambda>x. marked P x \<or> x \<in> set pre)"
    "\<forall>u\<in>set pre. heap_only dp u \<and> doomed env dp (htsv P) (marked P) u"
    "normal dp root \<longrightarrow> doomed env dp (htsv P) (marked P) root" "redirect_item_at dp root \<or> normal dp root"
    "\<forall>y\<in>set post. normal dp y \<and> heap_only dp y \<and> htsv P y \<noteq> Some HEAPTUPLE_DEAD"
    "redirect_item_at dp root \<longrightarrow> ItemIdGetRedirect (PageGetItemId dp root) \<in> set pre"
proof -
  obtain xs post where x: "chain = xs @ ld # post" "htsv P ld = Some HEAPTUPLE_DEAD" "\<forall>y\<in>set post. htsv P y \<noteq> Some HEAPTUPLE_DEAD"
    by (rule last_dead [OF ld])
  have s: "successively (chain_link env dp) chain" and new: "\<forall>x\<in>set chain. \<not> marked P x \<and> (normal dp x \<or> redirect_item_at dp x)"
    and st: "\<forall>x\<in>set (butlast chain). redirect_item_at dp x \<or> htsv P x \<in> {Some HEAPTUPLE_DEAD, Some HEAPTUPLE_RECENTLY_DEAD}"
    and hd: "hd chain = root"
    using w x(1) by (simp_all add: walked_def)
  have d: "distinct chain"
    by (rule distinct_chain [OF ok(1) s])
  have page: "in_page dp x" if "x \<in> set chain" for x
    using new that by (auto simp: normal_def redirect_item_at_def)
  have ldn: "normal dp ld"
    using x(1,2) new ok(2) page by (auto simp: htsv_ok_def)
  obtain rest where rest: "chain = root # rest"
    using hd x(1) by (metis append_is_Nil_conv list.collapse list.discI)
  have tl: "normal dp y \<and> heap_only dp y" if y: "y \<in> set rest" for y
  proof -
    obtain ys zs where "rest = ys @ y # zs"
      using y by (meson split_list)
    then have "chain_link env dp (last (root # ys)) y"
      using s rest by (cases ys rule: rev_cases) (auto simp: successively_append_iff successively_Cons)
    then show ?thesis
      using ok(1) chain_link_normal unfolding hot_ok_def by blast
  qed
  have pl: "\<exists>pre. chain = root # pre @ post \<and> last (root # pre) = ld \<and> xs @ [ld] = root # pre"
    using x(1) rest by (cases xs) auto
  then obtain pre where pre: "chain = root # pre @ post" "last (root # pre) = ld" "xs @ [ld] = root # pre"
    by blast
  have doom: "doomed env dp (htsv P) (marked P) u" if "u \<in> set (root # pre)" "normal dp u" for u
  proof (rule doomed_prefix [of env dp xs ld])
    show "successively (chain_link env dp) (xs @ [ld])"
      using s x(1) by (simp add: successively_append_iff)
    have "set xs \<subseteq> set (butlast chain)"
      using x(1) by (simp add: butlast_append)
    then show "\<forall>x\<in>set xs. normal dp x \<longrightarrow> htsv P x \<in> {Some HEAPTUPLE_DEAD, Some HEAPTUPLE_RECENTLY_DEAD}"
      using st normal_not_redirect by blast
    show "\<forall>x\<in>set (xs @ [ld]). \<not> marked P x"
      using new x(1) by auto
  qed (use x(2) ldn that pre(3) in auto)
  have pr: "rest = pre @ post"
    using pre(1) rest by simp
  have "\<exists>Q. unuse_items ld (hd chain) (tl chain) P1 = Inr (post, length pre, Q) \<and> plan_wf dp Q \<and>
      Q = P1\<lparr>nowunused := nowunused P1 @ pre, marked := (\<lambda>x. marked P1 x \<or> x \<in> set pre)\<rparr>"
    using plan_wf_same [OF same ok(3)] ok(1) new page same d pre rest
    by (intro unuse_items_result) (auto simp: same_plan_def)
  then obtain Q where Q: "unuse_items ld (hd chain) (tl chain) P1 = Inr (post, length pre, Q)" "plan_wf dp Q"
    "Q = P1\<lparr>nowunused := nowunused P1 @ pre, marked := (\<lambda>x. marked P1 x \<or> x \<in> set pre)\<rparr>"
    by blast
  show thesis
  proof (rule that [OF pre(1) Q(1,2)])
    show "plan_added P Q pre [] []" "marked Q = (\<lambda>x. marked P x \<or> x \<in> set pre)"
      using same Q(3) by (simp_all add: plan_added_def same_plan_def)
    show "\<forall>u\<in>set pre. heap_only dp u \<and> doomed env dp (htsv P) (marked P) u"
      using tl doom pr by simp
    show "normal dp root \<longrightarrow> doomed env dp (htsv P) (marked P) root"
      using doom by simp
    show "redirect_item_at dp root \<or> normal dp root"
      using new rest by auto
    show "\<forall>y\<in>set post. normal dp y \<and> heap_only dp y \<and> htsv P y \<noteq> Some HEAPTUPLE_DEAD"
      using tl pr x(3) by simp
    show "redirect_item_at dp root \<longrightarrow> ItemIdGetRedirect (PageGetItemId dp root) \<in> set pre"
    proof
      assume red: "redirect_item_at dp root"
      then have "ld \<noteq> root"
        using ldn normal_not_redirect by blast
      then obtain t ts where t: "pre = t # ts"
        using pre(2) by (cases pre) auto
      then have "chain_link env dp root t"
        using s pre(1) by (simp add: successively_Cons)
      then show "ItemIdGetRedirect (PageGetItemId dp root) \<in> set pre"
        using red normal_not_redirect t by (auto simp: chain_link_def hot_link_def redirect_link_def)
    qed
  qed
qed
lemma heap_prune_chain_result:
  assumes ok: "hot_ok (at_scan pe) dp" "htsv_ok dp (htsv P)" "plan_wf dp P"
    and root: "in_page dp root" "\<not> marked P root" "normal dp root \<or> redirect_item_at dp root"
  shows "\<exists>n Q U D R. heap_prune_chain pe dp root P = Inr (n, Q) \<and> plan_wf dp Q \<and> plan_added P Q U D R \<and>
    chain_result (at_scan pe) dp root P U D R \<and> n = ndeleted_of dp U D R"
proof (cases "normal dp root \<and> heap_only dp root")
  case ho: True
  then have nr: "\<not> redirect_item_at dp root" and lp: "ItemIdIsNormal (PageGetItemId dp root)"
    "HeapTupleHeaderIsHeapOnly (PageGetItem dp (PageGetItemId dp root))"
    using normal_not_redirect by (auto simp: normal_def heap_only_def tuple_of_def)
  show ?thesis
  proof (cases "htsv P root = Some HEAPTUPLE_DEAD \<and> \<not> HeapTupleHeaderIsHotUpdated (PageGetItem dp (PageGetItemId dp root))")
    case True
    note r = record_unused_result [OF ok(3,1) root(1,2)]
    let ?Q = "advance_horizon pe (PageGetItem dp (PageGetItemId dp root)) (P\<lparr>nowunused := nowunused P @ [root], marked := (marked P)(root := True)\<rparr>)"
    have "doomed (at_scan pe) dp (htsv P) (marked P) root"
      using ho True root(2) by (auto intro: doomed.dead)
    then have "chain_result (at_scan pe) dp root P [root] [] []"
      using ho nr by (simp add: chain_result_def)
    moreover have "plan_wf dp ?Q"
      by (rule plan_wf_same [OF same_plan_advance r(2)])
    moreover have "plan_added P ?Q [root] [] []"
      by (simp add: plan_added_def advance_horizon_def)
    moreover have "heap_prune_chain pe dp root P = Inr (1, ?Q)"
      using lp True r(1) by (simp add: heap_prune_chain_def Let_def)
    ultimately show ?thesis
      by (intro exI [of _ 1] exI [of _ ?Q] exI [of _ "[root]"] exI [of _ "[]"]) (simp add: ndeleted_of_def)
  next
    case False
    moreover have "chain_result (at_scan pe) dp root P [] [] []"
      using ho nr by (simp add: chain_result_def)
    moreover have "heap_prune_chain pe dp root P = Inr (0, P)"
      using lp False by (auto simp: heap_prune_chain_def Let_def)
    ultimately show ?thesis
      using ok(3) by (intro exI [of _ 0] exI [of _ P] exI [of _ "[]"]) (simp add: plan_added_def ndeleted_of_def)
  qed
next
  case nho: False
  let ?rootlp = "PageGetItemId dp root" and ?dead = "\<lambda>x. htsv P x = Some HEAPTUPLE_DEAD"
  have lp: "\<not> (ItemIdIsNormal ?rootlp \<and> HeapTupleHeaderIsHeapOnly (PageGetItem dp ?rootlp))"
    "ItemIdIsNormal ?rootlp \<longleftrightarrow> normal dp root" "ItemIdIsRedirected ?rootlp \<longleftrightarrow> redirect_item_at dp root"
    using nho root(1) by (auto simp: normal_def heap_only_def tuple_of_def redirect_item_at_def)
  have "walk_inv (at_scan pe) dp ?rootlp root 0 []"
    by (simp add: walk_inv_def)
  from chain_loop_result [OF ok(1,2) this, of 0] obtain chain P1 where c:
    "chain_loop pe dp ?rootlp root 0 [] 0 P = Inr (chain, last (0 # filter ?dead chain), P1)" "same_plan P P1"
    "walked (at_scan pe) dp P root 0 [] chain"
    by auto
  define ld where "ld = last (0 # filter ?dead chain)"
  have "chain \<noteq> []"
    using c(3) root(2,3) by (auto simp: walked_def joins_def)
  then obtain rest where rest: "chain = root # rest"
    using c(3) unfolding walked_def by (cases chain) auto
  show ?thesis
  proof (cases "ld = 0")
    case False
    obtain pre post Q where q: "chain = root # pre @ post" "unuse_items ld (hd chain) (tl chain) P1 = Inr (post, length pre, Q)"
      "plan_wf dp Q" "plan_added P Q pre [] []" "marked Q = (\<lambda>x. marked P x \<or> x \<in> set pre)"
      "\<forall>u\<in>set pre. heap_only dp u \<and> doomed (at_scan pe) dp (htsv P) (marked P) u"
      "normal dp root \<longrightarrow> doomed (at_scan pe) dp (htsv P) (marked P) root" "redirect_item_at dp root \<or> normal dp root"
      "\<forall>y\<in>set post. normal dp y \<and> heap_only dp y \<and> htsv P y \<noteq> Some HEAPTUPLE_DEAD"
      "redirect_item_at dp root \<longrightarrow> ItemIdGetRedirect (PageGetItemId dp root) \<in> set pre"
      by (rule chain_with_dead [OF ok c(3) ld_def [symmetric] False nho c(2)])
    have new: "\<forall>x\<in>set chain. \<not> marked P x" and d: "distinct chain"
      using c(3) distinct_chain [OF ok(1)] by (auto simp: walked_def)
    let ?n = "if normal dp root then length pre + 1 else length pre"
    have um: "\<not> marked Q root"
      using q(1,5) d root(2) by simp
    show ?thesis
    proof (cases post)
      case Nil
      note r = record_dead_result [OF q(3) ok(1) root(1) um]
      let ?Q = "Q\<lparr>nowdead := nowdead Q @ [root], marked := (marked Q)(root := True)\<rparr>"
      have "heap_prune_chain pe dp root P = Inr (?n, ?Q)"
        using lp c(1) False q(2) r(1) Nil unfolding ld_def [symmetric] by (auto simp: heap_prune_chain_def Let_def)
      moreover have "chain_result (at_scan pe) dp root P pre [root] []"
        using q(6-8) nho by (auto simp: chain_result_def)
      moreover have "plan_added P ?Q pre [root] []"
        using q(4) by (simp add: plan_added_def)
      ultimately show ?thesis
        using r(2) by (intro exI [of _ ?n] exI [of _ ?Q] exI [of _ pre] exI [of _ "[root]"] exI [of _ "[]"])
          (simp add: ndeleted_of_def)
    next
      case (Cons y ys)
      have y: "\<not> marked Q y" "root \<noteq> y" "in_page dp y"
        using new q(1,5,9) d Cons by (auto simp: normal_def)
      note r = record_redirect_result [OF q(3) ok(1) root(1) um y(3,1,2)]
      let ?Q = "Q\<lparr>redirected := redirected Q @ [(root, y)], marked := (marked Q)(root := True, y := True)\<rparr>"
      have "heap_prune_chain pe dp root P = Inr (?n, ?Q)"
        using lp c(1) False q(2) r(1) Cons unfolding ld_def [symmetric] by (auto simp: heap_prune_chain_def Let_def)
      moreover have "chain_result (at_scan pe) dp root P pre [] [(root, y)]"
        using q(6-10) nho Cons by (auto simp: chain_result_def)
      moreover have "plan_added P ?Q pre [] [(root, y)]"
        using q(4) by (simp add: plan_added_def)
      ultimately show ?thesis
        using r(2) by (intro exI [of _ ?n] exI [of _ ?Q] exI [of _ pre] exI [of _ "[]"] exI [of _ "[(root, y)]"])
          (simp add: ndeleted_of_def)
    qed
  next
    case True
    have pos: "\<forall>x\<in>set chain. x \<noteq> 0"
      using c(3) by (auto simp: walked_def normal_def redirect_item_at_def in_page_def)
    have none: "\<forall>x\<in>set chain. \<not> ?dead x"
    proof (rule ccontr)
      assume "\<not> ?thesis"
      then have "filter ?dead chain \<noteq> []"
        by (auto simp: filter_empty_conv)
      then have "ld \<in> set (filter ?dead chain)"
        unfolding ld_def by (metis last_ConsR last_in_set)
      then show False
        using True pos by auto
    qed
    show ?thesis
    proof (cases "length chain < 2 \<and> redirect_item_at dp root")
      case dead: True
      have "plan_wf dp P1" "\<not> marked P1 root"
        using plan_wf_same [OF c(2) ok(3)] c(2) root(2) by (simp_all add: same_plan_def)
      note r = record_dead_result [OF this(1) ok(1) root(1) this(2)]
      let ?Q = "P1\<lparr>nowdead := nowdead P1 @ [root], marked := (marked P1)(root := True)\<rparr>"
      have "heap_prune_chain pe dp root P = Inr (0, ?Q)"
        using lp c(1) True dead r(1) unfolding ld_def [symmetric] by (auto simp: heap_prune_chain_def Let_def)
      moreover have "chain_result (at_scan pe) dp root P [] [root] []"
        using dead normal_not_redirect by (auto simp: chain_result_def)
      moreover have "plan_added P ?Q [] [root] []"
        using c(2) by (simp add: plan_added_def same_plan_def)
      ultimately show ?thesis
        using r(2) dead normal_not_redirect
        by (intro exI [of _ 0] exI [of _ ?Q] exI [of _ "[]"] exI [of _ "[root]"] exI [of _ "[]"]) (auto simp: ndeleted_of_def)
    next
      case keep: False
      have "\<exists>t. redirect_link dp root t \<and> \<not> marked P t \<and> \<not> doomed (at_scan pe) dp (htsv P) (marked P) t" if red: "redirect_item_at dp root"
      proof -
        obtain t ts where t: "chain = root # t # ts"
          using keep red rest by (cases rest) auto
        have "redirect_link dp root t" "\<not> marked P t"
          using c(3) t red normal_not_redirect by (auto simp: walked_def chain_link_def hot_link_def successively_Cons)
        then show ?thesis
          using c(3) none red root(2) unfolding walked_def by blast
      qed
      then have "chain_result (at_scan pe) dp root P [] [] []"
        using none rest by (auto simp: chain_result_def)
      moreover have "heap_prune_chain pe dp root P = Inr (0, P1)"
        using lp c(1) True keep unfolding ld_def [symmetric] by (auto simp: heap_prune_chain_def Let_def)
      moreover have "plan_added P P1 [] [] []" "plan_wf dp P1"
        using c(2) plan_wf_same [OF c(2) ok(3)] by (simp_all add: plan_added_def same_plan_def)
      ultimately show ?thesis
        by (intro exI [of _ 0] exI [of _ P1] exI [of _ "[]"]) (simp add: ndeleted_of_def)
    qed
  qed
qed
section \<open>The plan for a page\<close>

text \<open>
  The plan after the line pointers \<open>done\<close> have been handled: what the lists contain, that no dead
  tuple an index may point to was passed over, and that a redirect that was left alone still leads
  to a tuple that stays.
\<close>

definition root_item :: "xact_env \<Rightarrow> page \<Rightarrow> (nat \<Rightarrow> HTSV_Result option) \<Rightarrow> nat \<Rightarrow> bool" where
  "root_item env dp h x \<longleftrightarrow>
     redirect_item_at dp x \<or> normal dp x \<and> \<not> heap_only dp x \<and> doomed env dp h (\<lambda>_. False) x"

definition plan_ok :: "xact_env \<Rightarrow> page \<Rightarrow> nat set \<Rightarrow> PruneState \<Rightarrow> bool" where
  "plan_ok env dp done P \<longleftrightarrow>
     plan_wf dp P \<and>
     (\<forall>u\<in>set (nowunused P). heap_only dp u \<and> doomed env dp (htsv P) (\<lambda>_. False) u) \<and>
     (\<forall>x\<in>set (nowdead P @ map fst (redirected P)). root_item env dp (htsv P) x) \<and>
     (\<forall>y\<in>set (map snd (redirected P)). normal dp y \<and> heap_only dp y \<and> htsv P y \<noteq> Some HEAPTUPLE_DEAD) \<and>
     (\<forall>(x, y)\<in>set (redirected P). redirect_item_at dp x \<longrightarrow> ItemIdGetRedirect (PageGetItemId dp x) \<in> set (nowunused P)) \<and>
     (\<forall>i\<in>done. normal dp i \<and> \<not> heap_only dp i \<and> htsv P i = Some HEAPTUPLE_DEAD \<longrightarrow>
        i \<in> set (nowdead P @ map fst (redirected P))) \<and>
     (\<forall>i\<in>done. redirect_item_at dp i \<longrightarrow> i \<in> set (nowdead P @ map fst (redirected P)) \<or>
        (\<exists>t. redirect_link dp i t \<and> t \<notin> set (nowunused P) \<and> \<not> doomed env dp (htsv P) (marked P) t))"

lemma plan_ok_skip:
  assumes ok: "plan_ok env dp done P" and hot: "hot_ok env dp"
    and "marked P i \<or> \<not> ItemIdIsUsed (PageGetItemId dp i) \<or> ItemIdIsDead (PageGetItemId dp i)"
  shows "plan_ok env dp (insert i done) P"
proof -
  have m: "marked P i" if "normal dp i \<or> redirect_item_at dp i"
    using assms(3) that lp_flags_cases [of "PageGetItemId dp i"] by (auto simp: normal_def redirect_item_at_def)
  have rec: "i \<in> set (nowunused P) \<or> i \<in> set (nowdead P @ map fst (redirected P)) \<or> i \<in> set (map snd (redirected P))" if "marked P i"
    using that ok unfolding plan_ok_def plan_wf_def recorded_def by auto
  have "i \<in> set (nowdead P @ map fst (redirected P))" if "normal dp i" "\<not> heap_only dp i"
    using m rec ok that unfolding plan_ok_def by blast
  then have a: "normal dp i \<and> \<not> heap_only dp i \<and> htsv P i = Some HEAPTUPLE_DEAD \<longrightarrow> i \<in> set (nowdead P @ map fst (redirected P))"
    by blast
  have "i \<in> set (nowdead P @ map fst (redirected P))" if red: "redirect_item_at dp i"
  proof -
    have "\<not> normal dp i"
      using red normal_not_redirect by blast
    then have "i \<notin> set (nowunused P)" "i \<notin> set (map snd (redirected P))"
      using ok doomed_normal unfolding plan_ok_def by blast+
    then show ?thesis
      using rec m red by blast
  qed
  with ok a show ?thesis
    unfolding plan_ok_def ball_simps(5) by blast
qed

lemma plan_ok_chain:
  assumes ok: "plan_ok env dp done P" and Q: "plan_wf dp Q" "plan_added P Q U D R" "chain_result env dp i P U D R"
  shows "plan_ok env dp (insert i done) Q"
proof -
  have e: "nowunused Q = nowunused P @ U" "nowdead Q = nowdead P @ D" "redirected Q = redirected P @ R" "htsv Q = htsv P"
    using Q(2) by (simp_all add: plan_added_def)
  have mono: "marked Q x" if "marked P x" for x
    using that ok Q(1) unfolding plan_ok_def plan_wf_def recorded_def e by auto
  have all: "doomed env dp (htsv P) (\<lambda>_. False) x" if "doomed env dp (htsv P) M x" for x M
    by (rule doomed_antimono [OF that]) simp
  have out: "\<not> doomed env dp (htsv P) (marked Q) t" if "\<not> doomed env dp (htsv P) (marked P) t" for t
    using that mono by (meson doomed_antimono)
  note p = ok [unfolded plan_ok_def] and c = Q(3) [unfolded chain_result_def]
  have 1: "\<forall>u\<in>set (nowunused Q). heap_only dp u \<and> doomed env dp (htsv Q) (\<lambda>_. False) u"
    using p c all unfolding e by auto
  have 2: "\<forall>x\<in>set (nowdead Q @ map fst (redirected Q)). root_item env dp (htsv Q) x"
  proof
    fix x assume "x \<in> set (nowdead Q @ map fst (redirected Q))"
    then have "x \<in> set (nowdead P @ map fst (redirected P)) \<or> x \<in> set (D @ map fst R)"
      unfolding e by auto
    then show "root_item env dp (htsv Q) x"
    proof
      assume "x \<in> set (nowdead P @ map fst (redirected P))"
      then show ?thesis
        using p unfolding e(4) by blast
    next
      assume "x \<in> set (D @ map fst R)"
      then have "x = i" "redirect_item_at dp i \<or> normal dp i \<and> \<not> heap_only dp i \<and> doomed env dp (htsv P) (marked P) i"
        using c by blast+
      then show ?thesis
        using all unfolding e(4) root_item_def by blast
    qed
  qed
  have 3: "\<forall>y\<in>set (map snd (redirected Q)). normal dp y \<and> heap_only dp y \<and> htsv Q y \<noteq> Some HEAPTUPLE_DEAD"
    using p c unfolding e by auto
  have r: "\<forall>(x, y)\<in>set (redirected Q). redirect_item_at dp x \<longrightarrow> ItemIdGetRedirect (PageGetItemId dp x) \<in> set (nowunused Q)"
    using p c unfolding e by auto
  have sub: "set (nowdead P @ map fst (redirected P)) \<union> set (D @ map fst R) = set (nowdead Q @ map fst (redirected Q))"
    unfolding e by auto
  have 4: "i' \<in> set (nowdead Q @ map fst (redirected Q))"
    if "i' \<in> insert i done" "normal dp i'" "\<not> heap_only dp i'" "htsv Q i' = Some HEAPTUPLE_DEAD" for i'
  proof (cases "i' = i")
    case True
    then have "D @ map fst R = [i]"
      using that c unfolding e by blast
    then show ?thesis
      using sub True by (metis UnI2 list.set_intros(1))
  next
    case False
    then show ?thesis
      using that p sub unfolding e(4) by blast
  qed
  have 5: "i' \<in> set (nowdead Q @ map fst (redirected Q)) \<or>
        (\<exists>t. redirect_link dp i' t \<and> t \<notin> set (nowunused Q) \<and> \<not> doomed env dp (htsv Q) (marked Q) t)"
    if i': "i' \<in> insert i done" and red: "redirect_item_at dp i'" for i'
  proof (cases "i' = i")
    case True
    then consider "D @ map fst R = [i]" | t where "U = []" "redirect_link dp i t" "\<not> marked P t" "\<not> doomed env dp (htsv P) (marked P) t"
      using red c by blast
    then show ?thesis
    proof cases
      case 1
      then show ?thesis
        using sub True by (metis UnI2 list.set_intros(1))
    next
      case 2
      then have "t \<notin> set (nowunused Q)"
        using p unfolding e plan_wf_def recorded_def by auto
      then show ?thesis
        using 2(2,4) True out unfolding e(4) by blast
    qed
  next
    case False
    then consider "i' \<in> set (nowdead P @ map fst (redirected P))"
      | t where "redirect_link dp i' t" "t \<notin> set (nowunused P)" "\<not> doomed env dp (htsv P) (marked P) t"
      using i' red p by blast
    then show ?thesis
    proof cases
      case 1
      then show ?thesis
        using sub by blast
    next
      case 2
      then have "t \<notin> set (nowunused Q)"
        using c unfolding e by auto
      then show ?thesis
        using 2(1,3) out unfolding e(4) by blast
    qed
  qed
  show ?thesis
    unfolding plan_ok_def using Q(1) 1 2 3 r 4 5 by blast
qed

lemma prune_scan_result:
  assumes "hot_ok (at_scan pe) dp" "htsv_ok dp (htsv P)" "plan_ok (at_scan pe) dp done P" "\<forall>i\<in>set offs. in_page dp i"
    and "n = length (nowunused P) + length (filter (normal dp) (nowdead P @ map fst (redirected P)))"
  shows "\<exists>m Q. prune_scan pe dp offs n P = Inr (m, Q) \<and> htsv Q = htsv P \<and> plan_ok (at_scan pe) dp (done \<union> set offs) Q \<and>
    m = length (nowunused Q) + length (filter (normal dp) (nowdead Q @ map fst (redirected Q)))"
  using assms(2-)
proof (induction offs arbitrary: n P "done")
  case Nil
  then show ?case
    by simp
next
  case (Cons i offs)
  have i: "in_page dp i"
    using Cons.prems by simp
  show ?case
  proof (cases "marked P i \<or> \<not> ItemIdIsUsed (PageGetItemId dp i) \<or> ItemIdIsDead (PageGetItemId dp i)")
    case True
    from Cons.IH [OF Cons.prems(1) plan_ok_skip [OF Cons.prems(2) assms(1) True]] Cons.prems(3,4) True show ?thesis
      by (auto simp: Let_def)
  next
    case False
    then have um: "\<not> marked P i" "normal dp i \<or> redirect_item_at dp i"
      using i lp_flags_cases [of "PageGetItemId dp i"] by (auto simp: normal_def redirect_item_at_def)
    have wf: "plan_wf dp P"
      using Cons.prems(2) by (simp add: plan_ok_def)
    obtain k Q U D R where q: "heap_prune_chain pe dp i P = Inr (k, Q)" "plan_wf dp Q" "plan_added P Q U D R"
      "chain_result (at_scan pe) dp i P U D R" "k = ndeleted_of dp U D R"
      using heap_prune_chain_result [OF assms(1) Cons.prems(1) wf i um] by blast
    have h: "htsv Q = htsv P" "n + k = length (nowunused Q) + length (filter (normal dp) (nowdead Q @ map fst (redirected Q)))"
      using q(3,5) Cons.prems(4) by (simp_all add: plan_added_def ndeleted_of_def)
    from Cons.IH [OF _ plan_ok_chain [OF Cons.prems(2) q(2-4)], of "n + k"] Cons.prems(1,3) h False q(1) show ?thesis
      by (simp add: Let_def)
  qed
qed

end
