(* ===== verification/Prune.thy ===== *)
theory Prune
  imports PrunePlan Repair
begin

text \<open>
  Pruning a page, \<^verbatim>\<open>pg_tde_page_prune\<close> of \<^verbatim>\<open>src/access/pg_tde_prune.c\<close>: the visibility of every
  tuple, the plan of theory \<^verbatim>\<open>PruneChain\<close>, its execution on the line pointers, the defragmentation
  of theory \<^verbatim>\<open>Compact\<close>, and the WAL record; and the replay of that record by \<^verbatim>\<open>pg_tde_xlog_prune\<close> of
  \<^verbatim>\<open>src/access/pg_tdeam.c\<close>. The assertions of the execution are part of the model: where one fails
  the outcome is undefined.
\<close>

section \<open>The visibility of every tuple\<close>

record htsv_pass =
  hp_state :: PruneState
  hp_page :: page
  hp_dirty :: bool
  hp_thresholds :: "(uint64 \<times> uint32) list"

text \<open>The hint bits that the check sets go to the page.\<close>

definition store_infomask :: "nat \<Rightarrow> uint16 \<Rightarrow> page \<Rightarrow> page" where
  "store_infomask a m pg = write_at pg (a + 20) (le_bytes 2 m)"

definition htsv_item :: "prune_env \<Rightarrow> nat \<Rightarrow> htsv_pass \<Rightarrow> htsv_pass result" where
  "htsv_item pe offnum c =
     (let itemid = PageGetItemId (hp_page c) offnum; a = unat (lp_off itemid);
          htsv_set = (\<lambda>v P. P\<lparr>htsv := (htsv P)(offnum := v)\<rparr>)
      in if offnum > MaxHeapTuplesPerPage then Inl (Undefined ''store outside htsv'')
         else if \<not> ItemIdIsNormal itemid then Inr (c\<lparr>hp_state := htsv_set None (hp_state c)\<rparr>)
         else if a + 24 > length (hp_page c) then Inl (Undefined ''tuple outside the page'')
         else (case heap_prune_satisfies_vacuum pe offnum (PageGetItem (hp_page c) itemid) (hp_state c) of
                 ((res, threshold, P), s) \<Rightarrow>
                   Inr (c\<lparr>hp_state := htsv_set (Some res) P,
                          hp_page := store_infomask a (t_infomask (vt s)) (hp_page c),
                          hp_dirty := (hp_dirty c \<or> hint_dirty s),
                          hp_thresholds := hp_thresholds c @ (case threshold of None \<Rightarrow> [] | Some t \<Rightarrow> [t])\<rparr>)))"

fun htsv_items :: "prune_env \<Rightarrow> nat list \<Rightarrow> htsv_pass \<Rightarrow> htsv_pass result" where
  "htsv_items pe [] c = Inr c"
| "htsv_items pe (offnum # offs) c =
     (case htsv_item pe offnum c of Inl e \<Rightarrow> Inl e | Inr c \<Rightarrow> htsv_items pe offs c)"

section \<open>Executing the plan\<close>

definition item_heap_only :: "page \<Rightarrow> ItemIdData \<Rightarrow> bool" where
  "item_heap_only pg lp = HeapTupleHeaderIsHeapOnly (PageGetItem pg lp)"

definition stored_heap_only :: "page \<Rightarrow> ItemIdData \<Rightarrow> bool" where
  "stored_heap_only pg lp = (ItemIdHasStorage lp \<and> ItemIdIsNormal lp \<and> item_heap_only pg lp)"

fun set_redirects :: "(nat \<times> nat) list \<Rightarrow> page \<Rightarrow> page result" where
  "set_redirects [] pg = Inr pg"
| "set_redirects ((fromoff, tooff) # rs) pg =
     (let fromlp = PageGetItemId pg fromoff
      in if (if \<not> ItemIdIsRedirected fromlp
             then ItemIdHasStorage fromlp \<and> ItemIdIsNormal fromlp \<and> \<not> item_heap_only pg fromlp
             else ItemIdGetRedirect fromlp \<noteq> tooff) \<and> stored_heap_only pg (PageGetItemId pg tooff)
         then set_redirects rs (set_item_id fromoff (redirect_item (of_nat tooff)) pg)
         else Inl (Undefined ''assertion failed: redirect''))"

fun set_dead :: "nat list \<Rightarrow> page \<Rightarrow> page result" where
  "set_dead [] pg = Inr pg"
| "set_dead (off # offs) pg =
     (let lp = PageGetItemId pg off
      in if (if ItemIdHasStorage lp then ItemIdIsNormal lp \<and> \<not> item_heap_only pg lp else ItemIdIsRedirected lp)
         then set_dead offs (set_item_id off dead_item pg)
         else Inl (Undefined ''assertion failed: dead''))"

fun set_unused :: "nat list \<Rightarrow> page \<Rightarrow> page result" where
  "set_unused [] pg = Inr pg"
| "set_unused (off # offs) pg =
     (if stored_heap_only pg (PageGetItemId pg off) then set_unused offs (set_item_id off unused_item pg)
      else Inl (Undefined ''assertion failed: unused''))"

definition set_items :: "(nat \<times> nat) list \<Rightarrow> nat list \<Rightarrow> nat list \<Rightarrow> page \<Rightarrow> page result" where
  "set_items rs ds us pg =
     (case set_redirects rs pg of
        Inl e \<Rightarrow> Inl e
      | Inr pg \<Rightarrow> (case set_dead ds pg of Inl e \<Rightarrow> Inl e | Inr pg \<Rightarrow> set_unused us pg))"

text \<open>Every redirect leads to a stored heap-only tuple.\<close>

definition page_verify_redirects :: "page \<Rightarrow> bool" where
  "page_verify_redirects pg =
     (\<forall>offnum\<in>set [1..<Suc (PageGetMaxOffsetNumber pg)].
        let itemid = PageGetItemId pg offnum
        in ItemIdIsRedirected itemid \<longrightarrow> stored_heap_only pg (PageGetItemId pg (ItemIdGetRedirect itemid)))"

definition pg_tde_page_prune_execute ::
  "('c, 'w) tde_env \<Rightarrow> RelFileLocator \<Rightarrow> block_number \<Rightarrow> (nat \<times> nat) list \<Rightarrow> nat list \<Rightarrow> nat list
     \<Rightarrow> (('c, 'w) tde_state \<times> page, unit) cmd" where
  "pg_tde_page_prune_execute env rel bn rs ds us sp =
     (case sp of (s, pg) \<Rightarrow>
      if rs = [] \<and> ds = [] \<and> us = [] then (Inl (Undefined ''assertion failed: nothing to do''), sp)
      else (case set_items rs ds us pg of
              Inl e \<Rightarrow> (Inl e, sp)
            | Inr pg \<Rightarrow>
                (case TdePageRepairFragmentation env rel bn (s, pg) of
                   (Inl e, sp) \<Rightarrow> (Inl e, sp)
                 | (Inr u, (s, pg)) \<Rightarrow>
                     (if page_verify_redirects pg then Inr () else Inl (Undefined ''assertion failed: redirects''), (s, pg)))))"

section \<open>Pruning a page\<close>

text \<open>
  The WAL record: its fixed part and the offset numbers registered with the block. \<open>XLogInsert\<close>
  gives the record's position. The relation's properties are those the routine asks for.
\<close>

record xl_prune =
  xl_snapshotConflictHorizon :: uint32
  xl_nredirected :: uint16
  xl_ndead :: uint16
  xl_isCatalogRel :: bool
  xl_data :: "uint16 list"

record prune_rel =
  rel_locator :: RelFileLocator
  RelationNeedsWAL :: bool
  RelationIsAccessibleInLogicalDecoding :: bool
  XLogInsert :: "xl_prune list \<Rightarrow> uint64"

record ('c, 'w) prune_world =
  pw_tde :: "('c, 'w) tde_state"
  pw_page :: page
  pw_dirty :: bool
  pw_thresholds :: "(uint64 \<times> uint32) list"
  pw_wal :: "xl_prune list"

definition prune_data :: "(nat \<times> nat) list \<Rightarrow> nat list \<Rightarrow> nat list \<Rightarrow> uint16 list" where
  "prune_data rs ds us = map of_nat (concat (map (\<lambda>(f, t). [f, t]) rs) @ ds @ us)"

definition PageSetLSN :: "uint64 \<Rightarrow> page \<Rightarrow> page" where
  "PageSetLSN lsn pg = write_at (write_at pg 0 (le_bytes 4 (ucast (drop_bit 32 lsn) :: uint32))) 4 (le_bytes 4 (ucast lsn :: uint32))"

text \<open>An error in a critical section ends the server.\<close>

definition crit_section :: "('s, 'a) cmd \<Rightarrow> ('s, 'a) cmd" where
  "crit_section m s = (case m s of (Inl (Ereport ERROR msg), t) \<Rightarrow> (Inl (Ereport PANIC msg), t) | r \<Rightarrow> r)"

definition prune_record :: "prune_rel \<Rightarrow> PruneState \<Rightarrow> xl_prune" where
  "prune_record rel P =
     \<lparr>xl_snapshotConflictHorizon = snapshotConflictHorizon P,
      xl_nredirected = of_nat (length (redirected P)), xl_ndead = of_nat (length (nowdead P)),
      xl_isCatalogRel = RelationIsAccessibleInLogicalDecoding rel,
      xl_data = prune_data (redirected P) (nowdead P) (nowunused P)\<rparr>"

definition log_prune :: "prune_rel \<Rightarrow> PruneState \<Rightarrow> ('c, 'w) prune_world \<Rightarrow> ('c, 'w) prune_world" where
  "log_prune rel P w =
     (if RelationNeedsWAL rel
      then (let wal = pw_wal w @ [prune_record rel P]
            in w\<lparr>pw_wal := wal, pw_page := PageSetLSN (XLogInsert rel wal) (pw_page w)\<rparr>)
      else w)"

definition prune_apply :: "('c, 'w) tde_env \<Rightarrow> prune_rel \<Rightarrow> block_number \<Rightarrow> PruneState \<Rightarrow> (('c, 'w) prune_world, unit) cmd" where
  "prune_apply env rel bn P w =
     (if redirected P \<noteq> [] \<or> nowdead P \<noteq> [] \<or> nowunused P \<noteq> []
      then (case pg_tde_page_prune_execute env (rel_locator rel) bn (redirected P) (nowdead P) (nowunused P) (pw_tde w, pw_page w) of
              (Inl e, (s, pg)) \<Rightarrow> (Inl e, w\<lparr>pw_tde := s, pw_page := pg\<rparr>)
            | (Inr u, (s, pg)) \<Rightarrow>
                (Inr (), log_prune rel P (w\<lparr>pw_tde := s, pw_page := PageClearFull (set_pd_prune_xid (new_prune_xid P) pg),
                                           pw_dirty := True\<rparr>)))
      else if pd_prune_xid (pw_page w) \<noteq> new_prune_xid P \<or> PageIsFull (pw_page w)
      then (Inr (), w\<lparr>pw_page := PageClearFull (set_pd_prune_xid (new_prune_xid P) (pw_page w)), pw_dirty := True\<rparr>)
      else (Inr (), w))"

definition prune_start :: "uint32 \<Rightarrow> uint64 \<Rightarrow> PruneState" where
  "prune_start xmin ts =
     \<lparr>old_snap_ts = ts, old_snap_xmin = xmin, old_snap_used = False, new_prune_xid = InvalidTransactionId,
      snapshotConflictHorizon = InvalidTransactionId, redirected = [], nowdead = [], nowunused = [],
      marked = (\<lambda>_. False), htsv = (\<lambda>_. None)\<rparr>"

text \<open>
  The results are the number of deleted tuples and \<^verbatim>\<open>*nnewlpdead\<close>. The argument \<^verbatim>\<open>off_loc\<close>, which
  only serves error messages, is left out.
\<close>

definition pg_tde_page_prune ::
  "('c, 'w) tde_env \<Rightarrow> prune_env \<Rightarrow> prune_rel \<Rightarrow> block_number \<Rightarrow> uint32 \<Rightarrow> uint64
     \<Rightarrow> (('c, 'w) prune_world, nat \<times> nat) cmd" where
  "pg_tde_page_prune env pe rel bn old_xmin old_ts w =
     (let maxoff = PageGetMaxOffsetNumber (pw_page w)
      in case htsv_items pe (rev [1..<Suc maxoff])
                \<lparr>hp_state = prune_start old_xmin old_ts, hp_page = pw_page w, hp_dirty = pw_dirty w, hp_thresholds = pw_thresholds w\<rparr> of
           Inl e \<Rightarrow> (Inl e, w)
         | Inr c \<Rightarrow>
             (let w = w\<lparr>pw_page := hp_page c, pw_dirty := hp_dirty c, pw_thresholds := hp_thresholds c\<rparr>
              in case prune_scan pe (hp_page c) [1..<Suc maxoff] 0 (hp_state c) of
                   Inl e \<Rightarrow> (Inl e, w)
                 | Inr (ndeleted, P) \<Rightarrow>
                     (case GetRelationKeys env (rel_locator rel) (pw_tde w) of
                        (Inl e, s) \<Rightarrow> (Inl e, w\<lparr>pw_tde := s\<rparr>)
                      | (Inr p, s) \<Rightarrow>
                          (case crit_section (prune_apply env rel bn P) (w\<lparr>pw_tde := s\<rparr>) of
                             (Inl e, w) \<Rightarrow> (Inl e, w)
                           | (Inr u, w) \<Rightarrow> (Inr (ndeleted, length (nowdead P)), w)))))"

section \<open>Replay\<close>

text \<open>
  The block of the record was changed since the last checkpoint or not, or its image was restored;
  only a block that needs it is pruned again. The offset numbers are cut from the data by the
  counts of the record. \<open>lsn\<close> is the end of the record.
\<close>

datatype XLogRedoAction = BLK_NEEDS_REDO | BLK_DONE | BLK_RESTORED | BLK_NOTFOUND

fun pairs_of :: "'a list \<Rightarrow> ('a \<times> 'a) list" where
  "pairs_of (f # t # xs) = (f, t) # pairs_of xs"
| "pairs_of xs = []"

definition pg_tde_xlog_prune ::
  "('c, 'w) tde_env \<Rightarrow> RelFileLocator \<Rightarrow> block_number \<Rightarrow> xl_prune \<Rightarrow> uint64 \<Rightarrow> XLogRedoAction
     \<Rightarrow> (('c, 'w) tde_state \<times> page, unit) cmd" where
  "pg_tde_xlog_prune env rlocator blkno xlrec lsn action sp =
     (if action \<noteq> BLK_NEEDS_REDO then (Inr (), sp)
      else
        (let nredirected = unat (xl_nredirected xlrec); ndead = unat (xl_ndead xlrec);
             data = map unat (xl_data xlrec);
             rs = pairs_of (take (nredirected * 2) data);
             ds = take ndead (drop (nredirected * 2) data);
             us = drop (nredirected * 2 + ndead) data
         in if length data < nredirected * 2 + ndead then (Inl (Undefined ''assertion failed: nunused''), sp)
            else (case pg_tde_page_prune_execute env rlocator blkno rs ds us sp of
                    (Inl e, sp) \<Rightarrow> (Inl e, sp)
                  | (Inr u, (s, pg)) \<Rightarrow> (Inr (), (s, PageSetLSN lsn pg)))))"

end
