(* ===== verification/PrunePage.thy ===== *)
theory PrunePage
  imports Prune
begin

text \<open>
  The pages a pruning works on: the first pass changes hint bits only, the plan changes line
  pointers only, the defragmentation moves the tuples that are left, and the last step changes the
  page header only. Each section shows what its step keeps of the line pointers, the tuple headers
  and the links between them.
\<close>

section \<open>Hint bits\<close>

lemma Vacuum_xmax_step:
  assumes env: "xact_ok env" and t: "tuple_ok env (vt s)" and r: "Vacuum_xmax env s = (r, s')"
  shows "good_step env s s'"
proof -
  have cur: "TransactionIdIsCurrentTransactionId env y \<Longrightarrow> TransactionIdIsInProgress env y" for y
    using env by (simp add: xact_ok_def)
  have zero: "gone env 0"
    using env by (simp add: xact_ok_def)
  have inv: "gone env (updater env (vt s)) \<Longrightarrow> good_step env s (SetHintBits env HEAP_XMAX_INVALID 0 s)"
    using good_steps(3) [OF t] .
  have locked: "good_step env s (Vacuum_locked env s)" if "HEAP_XMAX_IS_LOCKED_ONLY (t_infomask (vt s))"
    using inv zero updater_cases(1) [OF that] good_step_refl [OF t] by (simp add: Vacuum_locked_def Let_def)
  show ?thesis
    using r inv locked good_step_refl [OF t] good_steps(4) [OF t] updater_cases(2,3) [of "vt s" env] cur
    by (auto simp: Vacuum_xmax_def Let_def gone_def ended_committed_def split: if_splits)
qed

lemma VacuumHorizon_step:
  assumes env: "xact_ok env" and t: "tuple_ok env (vt s)" and r: "HeapTupleSatisfiesVacuumHorizon env s = (r, s')"
  shows "good_step env s s'"
proof -
  obtain p u where x: "Vacuum_xmin env s = (p, u)"
    by fastforce
  note g = Vacuum_xmin_step [OF t x]
  show ?thesis
  proof (cases p)
    case None
    with r x have "Vacuum_xmax env u = (r, s')"
      by (simp add: HeapTupleSatisfiesVacuumHorizon_def vis_then_def)
    from good_step_trans [OF g Vacuum_xmax_step [OF env good_step_sel(7) [OF env g] this]] show ?thesis .
  next
    case (Some q)
    with r x g show ?thesis
      by (simp add: HeapTupleSatisfiesVacuumHorizon_def vis_then_def)
  qed
qed

text \<open>A tuple header with more information bits, and one that differs in hint bits only and stays frozen or not.\<close>

definition adds_bits :: "HeapTupleHeader \<Rightarrow> HeapTupleHeader \<Rightarrow> bool" where
  "adds_bits t u \<longleftrightarrow> (\<exists>m. u = set_bits m t)"

lemma adds_bits_refl [simp]: "adds_bits t t"
  by (rule exI [of "\<lambda>m. t = set_bits m t" 0, folded adds_bits_def]) (simp add: set_bits_def)

lemma adds_bits_set [simp]: "adds_bits (vt s) (vt (SetHintBits env m x s))"
  using adds_bits_refl [of "vt s"] by (simp add: SetHintBits_def) (auto simp: adds_bits_def)

lemma adds_bits_trans: "adds_bits t u \<Longrightarrow> adds_bits u v \<Longrightarrow> adds_bits t v"
  by (auto simp: adds_bits_def set_bits_def or.assoc)

lemma VacuumHorizon_adds: "HeapTupleSatisfiesVacuumHorizon env s = (r, s') \<Longrightarrow> adds_bits (vt s) (vt s')"
proof -
  have 1: "adds_bits (vt s) (vt (snd (Vacuum_xmin env s)))"
    by (simp add: Vacuum_xmin_def Let_def other_inserter_def)
  have 2: "adds_bits (vt u) (vt (snd (Vacuum_xmax env u)))" for u
    by (simp add: Vacuum_xmax_def Vacuum_locked_def Let_def)
  assume "HeapTupleSatisfiesVacuumHorizon env s = (r, s')"
  then show ?thesis
    using 1 2 adds_bits_trans [OF 1 2]
    by (auto simp: HeapTupleSatisfiesVacuumHorizon_def vis_then_def split: prod.splits option.splits)
qed

definition hint_step :: "HeapTupleHeader \<Rightarrow> HeapTupleHeader \<Rightarrow> bool" where
  "hint_step t u \<longleftrightarrow> adds_bits t u \<and> same_but_hints t u \<and> HeapTupleHeaderXminFrozen u = HeapTupleHeaderXminFrozen t"

lemma hint_step_refl [simp]: "hint_step t t"
  by (simp add: hint_step_def)

lemma hint_step_trans: "hint_step t u \<Longrightarrow> hint_step u v \<Longrightarrow> hint_step t v"
  using adds_bits_trans same_but_hints_trans by (auto simp: hint_step_def)

lemma hint_step_keeps:
  assumes "hint_step t u"
  shows "t_xmin u = t_xmin t" "t_xmax u = t_xmax t" "t_ctid u = t_ctid t" "t_infomask2 u = t_infomask2 t"
    "HeapTupleHeaderIsHeapOnly u = HeapTupleHeaderIsHeapOnly t" "HeapTupleHeaderGetXmin u = HeapTupleHeaderGetXmin t"
    "HeapTupleHeaderIsHotUpdated u \<Longrightarrow> HeapTupleHeaderIsHotUpdated t \<and>
       HeapTupleHeaderGetUpdateXid env u = HeapTupleHeaderGetUpdateXid env t"
proof -
  obtain m where m: "u = set_bits m t"
    using assms by (auto simp: hint_step_def adds_bits_def)
  show sel: "t_xmin u = t_xmin t" "t_xmax u = t_xmax t" "t_ctid u = t_ctid t" "t_infomask2 u = t_infomask2 t"
    unfolding m by simp_all
  have fr: "HeapTupleHeaderXminFrozen u = HeapTupleHeaderXminFrozen t"
    using assms by (simp add: hint_step_def)
  then show "HeapTupleHeaderIsHeapOnly u = HeapTupleHeaderIsHeapOnly t" "HeapTupleHeaderGetXmin u = HeapTupleHeaderGetXmin t"
    by (simp_all add: HeapTupleHeaderIsHeapOnly_def HeapTupleHeaderGetXmin_def sel)
  assume hot: "HeapTupleHeaderIsHotUpdated u"
  have lo: "has HEAP_XMAX_LOCK_ONLY u = has HEAP_XMAX_LOCK_ONLY t" "has HEAP_XMAX_IS_MULTI u = has HEAP_XMAX_IS_MULTI t"
  proof -
    have "set_bits 0x0F00 t = set_bits 0x0F00 u"
      using assms by (simp add: hint_step_def same_but_hints_def)
    from arg_cong [OF this, of t_infomask] have "t_infomask u OR 0x0F00 = t_infomask t OR 0x0F00"
      by simp
    then have "bit (t_infomask u OR 0x0F00) n = bit (t_infomask t OR 0x0F00) n" for n
      by simp
    from this [of 7] this [of 12] show "has HEAP_XMAX_LOCK_ONLY u = has HEAP_XMAX_LOCK_ONLY t" "has HEAP_XMAX_IS_MULTI u = has HEAP_XMAX_IS_MULTI t"
      by (simp_all add: has_bit bit_simps)
  qed
  have b: "bit (t_infomask u) n" if "bit (t_infomask t) n" for n
    using that unfolding m by (simp add: bit_simps)
  have xi: "\<not> has HEAP_XMAX_INVALID u" "\<not> has HEAP_XMAX_INVALID t"
    using hot b [of 11] by (auto simp: HeapTupleHeaderIsHotUpdated_def has_bit)
  moreover have "\<not> HeapTupleHeaderXminInvalid t"
    using hot b [of 9] fr by (auto simp: HeapTupleHeaderIsHotUpdated_def xmin_bits)
  ultimately show "HeapTupleHeaderIsHotUpdated t \<and> HeapTupleHeaderGetUpdateXid env u = HeapTupleHeaderGetUpdateXid env t"
    using hot lo sel by (simp add: HeapTupleHeaderIsHotUpdated_def HeapTupleHeaderGetUpdateXid_def HeapTupleGetUpdateXid_def MultiXactIdGetUpdateXid_def)
qed

lemma VacuumHorizon_hint_step:
  assumes "xact_ok env" "tuple_ok env t" "HeapTupleSatisfiesVacuumHorizon env \<lparr>vt = t, hint_dirty = d\<rparr> = (r, s')"
  shows "hint_step t (vt s')" "tuple_ok env (vt s')"
  using VacuumHorizon_step [OF assms(1) _ assms(3)] VacuumHorizon_adds [OF assms(3)] assms(2)
  by (simp_all add: hint_step_def good_step_def)
section \<open>Pages that can be pruned\<close>

text \<open>
  A well-formed page whose chains make sense, whose line pointers have storage exactly when they
  are normal, and whose tuples have a whole header with right hint bits.
\<close>

definition item_at :: "page \<Rightarrow> nat \<Rightarrow> nat" where
  "item_at pg i = unat (lp_off (PageGetItemId pg i))"

definition lps_ok :: "page \<Rightarrow> bool" where
  "lps_ok pg \<longleftrightarrow>
     (\<forall>i. in_page pg i \<longrightarrow> (ItemIdHasStorage (PageGetItemId pg i) \<longleftrightarrow> ItemIdIsNormal (PageGetItemId pg i))) \<and>
     (\<forall>i. normal pg i \<longrightarrow> 24 \<le> unat (lp_len (PageGetItemId pg i)))"

definition prune_page_ok :: "prune_env \<Rightarrow> page \<Rightarrow> bool" where
  "prune_page_ok pe pg \<longleftrightarrow>
     page_wf pg \<and> hot_ok (at_scan pe) pg \<and> lps_ok pg \<and> (\<forall>i. normal pg i \<longrightarrow> tuple_ok (at_item pe i) (tuple_of pg i))"

lemma live_normal:
  assumes "lps_ok pg" "in_page pg i"
  shows "live pg i \<longleftrightarrow> normal pg i"
  using assms lp_flags_cases(1) [of "PageGetItemId pg i"] by (auto simp: lps_ok_def live_def normal_def)

lemma sorted_wrt_pair:
  assumes "sorted_wrt R xs" "x \<in> set xs" "y \<in> set xs" "x \<noteq> y"
  shows "R x y \<or> R y x"
  using assms by (induction xs) auto

lemma normal_item:
  assumes "page_wf pg" "lps_ok pg" "normal pg i"
  obtains q where "q \<in> set (live_items pg)" "offsetindex q + 1 = i" "itemoff q = item_at pg i"
    "item_len q = unat (lp_len (PageGetItemId pg i))" "24 \<le> item_len q" "item_len q \<le> alignedlen q"
    "unat (pd_lower pg) \<le> item_at pg i" "item_at pg i + alignedlen q \<le> 8192"
proof -
  have i: "1 \<le> i" "i \<le> PageGetMaxOffsetNumber pg" "live pg i"
    using assms live_normal by (auto simp: normal_def in_page_def)
  obtain q where q: "q \<in> set (live_items pg)" "offsetindex q + 1 = i" "itemoff q = item_at pg i"
    "item_len q = unat (lp_len (PageGetItemId pg i))"
    using live_tuple [OF i] unfolding item_at_def by blast
  have "24 \<le> item_len q" "item_len q \<le> alignedlen q"
    using assms(2,3) q(4) alignedlen_live [OF q(1)] by (auto simp: lps_ok_def)
  moreover have "unat (pd_upper pg) \<le> itemoff q \<and> item_end q \<le> unat (pd_special pg)" "unat (pd_special pg) \<le> 8192"
    "unat (pd_lower pg) \<le> unat (pd_upper pg)"
    using assms(1) q(1) unfolding page_wf_def by blast+
  ultimately show thesis
    using q by (intro that [of q]) (simp_all add: item_end_def)
qed

lemma normal_disjoint:
  assumes "page_wf pg" "lps_ok pg" "normal pg i" "normal pg j" "i \<noteq> j"
  shows "item_at pg i + 24 \<le> item_at pg j \<or> item_at pg j + 24 \<le> item_at pg i"
proof -
  obtain p where p: "p \<in> set (live_items pg)" "offsetindex p + 1 = i" "itemoff p = item_at pg i" "24 \<le> item_len p" "item_len p \<le> alignedlen p"
    by (rule normal_item [OF assms(1-3)])
  obtain q where q: "q \<in> set (live_items pg)" "offsetindex q + 1 = j" "itemoff q = item_at pg j" "24 \<le> item_len q" "item_len q \<le> alignedlen q"
    by (rule normal_item [OF assms(1,2,4)])
  have "sorted_wrt (apart True) (live_items pg)"
    using assms(1) unfolding page_wf_def by blast
  moreover have "p \<noteq> q"
    using p(2) q(2) assms(5) by auto
  ultimately have "apart True p q \<or> apart True q p"
    by (rule sorted_wrt_pair [OF _ p(1) q(1)])
  then show ?thesis
    unfolding apart_def item_end_def using p(3-5) q(3-5) by linarith
qed

lemma normal_bounds:
  assumes "page_wf pg" "lps_ok pg" "normal pg i"
  shows "unat (pd_lower pg) \<le> item_at pg i" "item_at pg i + 24 \<le> 8192"
proof -
  show "unat (pd_lower pg) \<le> item_at pg i" "item_at pg i + 24 \<le> 8192"
    by (rule normal_item [OF assms]; linarith)+
qed

lemma page_wf_length: "page_wf pg \<Longrightarrow> length pg = 8192"
  by (simp add: page_wf_def)

lemma page_wf_lower: "page_wf pg \<Longrightarrow> 24 \<le> unat (pd_lower pg)"
  by (simp add: page_wf_def)

text \<open>Two pages with the same bytes below \<open>pd_lower\<close> have the same line pointers.\<close>

definition same_lps :: "page \<Rightarrow> page \<Rightarrow> bool" where
  "same_lps pg pg' \<longleftrightarrow> length pg' = length pg \<and> bytes_at pg' 0 (unat (pd_lower pg)) = bytes_at pg 0 (unat (pd_lower pg))"

lemma same_lps_header:
  assumes "same_lps pg pg'" "24 \<le> unat (pd_lower pg)"
  shows "bytes_at pg' 0 24 = bytes_at pg 0 24"
  using assms bytes_at_bytes_at [of 0 24 "unat (pd_lower pg)" pg 0] bytes_at_bytes_at [of 0 24 "unat (pd_lower pg)" pg' 0]
  by (simp add: same_lps_def)

lemma same_lps_fields:
  assumes "same_lps pg pg'" "24 \<le> unat (pd_lower pg)"
  shows "pd_lower pg' = pd_lower pg" "pd_upper pg' = pd_upper pg" "pd_special pg' = pd_special pg"
    "PageGetMaxOffsetNumber pg' = PageGetMaxOffsetNumber pg" "in_page pg' = in_page pg"
  using header_fields [OF same_lps_header [OF assms]] by (simp_all add: PageGetMaxOffsetNumber_def in_page_def fun_eq_iff)

lemma same_lps_item:
  assumes "same_lps pg pg'" "24 \<le> unat (pd_lower pg)" "in_page pg i"
  shows "PageGetItemId pg' i = PageGetItemId pg i"
proof -
  have "24 + 4 * i \<le> unat (pd_lower pg)"
    using assms(3) line_pointers_below_lower [OF assms(2)] by (auto simp: in_page_def)
  then have "bytes_at pg' (20 + 4 * i) 4 = bytes_at pg (20 + 4 * i) 4"
    using assms(1) bytes_at_bytes_at [of "20 + 4 * i" 4 "unat (pd_lower pg)" pg 0]
      bytes_at_bytes_at [of "20 + 4 * i" 4 "unat (pd_lower pg)" pg' 0] by (simp add: same_lps_def)
  then show ?thesis
    by (simp add: PageGetItemId_def)
qed

lemma same_lps_items:
  assumes "same_lps pg pg'" "24 \<le> unat (pd_lower pg)"
  shows "live_items pg' = live_items pg" "normal pg' = normal pg" "redirect_item_at pg' = redirect_item_at pg"
    "lps_ok pg \<Longrightarrow> lps_ok pg'" "page_wf pg \<Longrightarrow> page_wf pg'"
proof -
  note f = same_lps_fields [OF assms]
  note it = same_lps_item [OF assms]
  have l: "live pg' i = live pg i" if "in_page pg i" for i
    using it [OF that] by (simp add: live_def)
  have "filter (live pg') [1..<Suc (PageGetMaxOffsetNumber pg)] = filter (live pg) [1..<Suc (PageGetMaxOffsetNumber pg)]"
    using l by (intro filter_cong [OF refl]) (auto simp: in_page_def)
  then show e: "live_items pg' = live_items pg"
    using it unfolding live_items_def items_of_def f(4) by (intro map_cong) (auto simp: in_page_def)
  show n: "normal pg' = normal pg" "redirect_item_at pg' = redirect_item_at pg"
    using it by (auto simp: normal_def redirect_item_at_def fun_eq_iff f(5))
  show "lps_ok pg \<Longrightarrow> lps_ok pg'"
    using it unfolding lps_ok_def n f(5) by (simp add: normal_def)
  show "page_wf pg \<Longrightarrow> page_wf pg'"
    using assms(1) unfolding page_wf_def e f(1-3) same_lps_def by simp
qed
section \<open>The pages of the first pass\<close>

lemma header_at_cong: "bytes_at pg' a 22 = bytes_at pg b 22 \<Longrightarrow> header_at pg' a = header_at pg b"
proof -
  assume e: "bytes_at pg' a 22 = bytes_at pg b 22"
  have "bytes_at pg' (a + i) n = bytes_at pg (b + i) n" if "i + n \<le> 22" for i n
    using that bytes_at_bytes_at [of i n 22 pg' a] bytes_at_bytes_at [of i n 22 pg b] e by simp
  from this [of 0] this show ?thesis
    by (simp add: header_at_def)
qed

lemma header_at_store:
  assumes "a + 24 \<le> length pg" "header_at pg a = t" "adds_bits t u"
  shows "header_at (store_infomask a (t_infomask u) pg) a = u"
proof -
  obtain m where m: "u = set_bits m t"
    using assms(3) by (auto simp: adds_bits_def)
  have "bytes_at (store_infomask a w pg) (a + i) n = bytes_at pg (a + i) n" if "i + n \<le> 20" for w i n
    using that assms(1) by (simp add: store_infomask_def bytes_at_write_disjoint)
  from this [of 0] this have "header_at (store_infomask a w pg) a = (header_at pg a)\<lparr>t_infomask := w\<rparr>" for w
    using assms(1) by (simp add: header_at_def store_infomask_def)
  then show ?thesis
    unfolding assms(2) m by (simp add: set_bits_def)
qed

lemma header_at_store_other:
  assumes "a + 24 \<le> length pg" "b + 24 \<le> a \<or> a + 24 \<le> b"
  shows "header_at (store_infomask a w pg) b = header_at pg b"
  using assms by (intro header_at_cong) (auto simp: store_infomask_def bytes_at_write_disjoint)

definition hinted :: "page \<Rightarrow> page \<Rightarrow> bool" where
  "hinted pg pg' \<longleftrightarrow> same_lps pg pg' \<and>
     (\<forall>k. (\<forall>i. normal pg i \<longrightarrow> k \<noteq> item_at pg i + 20 \<and> k \<noteq> item_at pg i + 21) \<longrightarrow> k < length pg \<longrightarrow> pg' ! k = pg ! k) \<and>
     (\<forall>i. normal pg i \<longrightarrow> hint_step (tuple_of pg i) (tuple_of pg' i))"

lemma hinted_refl [simp]: "hinted pg pg"
  by (simp add: hinted_def same_lps_def)

lemma hinted_items:
  assumes "hinted pg pg'" "24 \<le> unat (pd_lower pg)"
  shows "normal pg' = normal pg" "normal pg i \<Longrightarrow> item_at pg' i = item_at pg i"
    "normal pg i \<Longrightarrow> PageGetItemId pg' i = PageGetItemId pg i" "length pg' = length pg"
  using assms same_lps_items(2) [of pg pg'] same_lps_item [of pg pg' i]
  by (simp_all add: hinted_def item_at_def same_lps_def normal_def)

lemma hinted_trans:
  assumes "hinted pg pg'" "hinted pg' pg''" "24 \<le> unat (pd_lower pg)"
  shows "hinted pg pg''"
proof -
  note h = hinted_items [OF assms(1,3)]
  have "pd_lower pg' = pd_lower pg"
    using assms(1,3) same_lps_fields(1) by (simp add: hinted_def)
  then have "same_lps pg pg''"
    using assms(1,2) by (simp add: hinted_def same_lps_def)
  moreover have "\<forall>i. normal pg i \<longrightarrow> hint_step (tuple_of pg i) (tuple_of pg'' i)"
    using assms(1,2) hint_step_trans unfolding hinted_def h(1) by blast
  ultimately show ?thesis
    using assms(1,2) h unfolding hinted_def by auto
qed

lemma hinted_store:
  assumes "page_wf pg" "lps_ok pg" "normal pg i" "hint_step (tuple_of pg i) u"
  defines "pg' \<equiv> store_infomask (item_at pg i) (t_infomask u) pg"
  shows "hinted pg pg'" "tuple_of pg' i = u" "normal pg j \<Longrightarrow> j \<noteq> i \<Longrightarrow> tuple_of pg' j = tuple_of pg j"
proof -
  note b = normal_bounds [OF assms(1-3)] and l = page_wf_length [OF assms(1)] page_wf_lower [OF assms(1)]
  have s: "same_lps pg pg'"
    using b l by (simp add: same_lps_def pg'_def store_infomask_def bytes_at_write_disjoint)
  have lp: "PageGetItemId pg' j = PageGetItemId pg j" if "normal pg j" for j
    using that same_lps_item [OF s l(2)] by (simp add: normal_def)
  have tup: "tuple_of pg j = header_at pg (item_at pg j)" for pg j
    by (simp add: tuple_of_def PageGetItem_def item_at_def)
  have at: "item_at pg' j = item_at pg j" if "normal pg j" for j
    using lp [OF that] by (simp add: item_at_def)
  show u: "tuple_of pg' i = u"
    using header_at_store [of "item_at pg i" pg _ u] b l assms(4) at [OF assms(3)]
    by (simp add: tup pg'_def hint_step_def)
  show other: "tuple_of pg' j = tuple_of pg j" if "normal pg j" "j \<noteq> i" for j
    using header_at_store_other [of "item_at pg i" pg "item_at pg j"] normal_disjoint [OF assms(1,2) that(1) assms(3) that(2)] b l at [OF that(1)]
    by (simp add: tup pg'_def)
  have "pg' ! k = pg ! k" if "k \<noteq> item_at pg i + 20" "k \<noteq> item_at pg i + 21" "k < length pg" for k
    using that b l by (auto simp: pg'_def store_infomask_def nth_write_at)
  then show "hinted pg pg'"
    using s u other assms(3,4) unfolding hinted_def by (metis hint_step_refl)
qed

text \<open>After the hint bits the page can still be pruned, and its links are among those from before.\<close>

lemma hinted_link:
  assumes "hinted pg pg'" "24 \<le> unat (pd_lower pg)"
  shows "hot_link env pg' i j \<Longrightarrow> hot_link env pg i j" "redirect_link pg' i j \<Longrightarrow> redirect_link pg i j"
    "normal pg i \<Longrightarrow> heap_only pg' i = heap_only pg i"
proof -
  note n = hinted_items(1) [OF assms]
  have hs: "hint_step (tuple_of pg i) (tuple_of pg' i)" if "normal pg i" for i
    using that assms(1) by (simp add: hinted_def)
  show "normal pg i \<Longrightarrow> heap_only pg' i = heap_only pg i"
    using hint_step_keeps(5) [OF hs] by (simp add: heap_only_def)
  have s: "same_lps pg pg'"
    using assms(1) by (simp add: hinted_def)
  show "redirect_link pg' i j \<Longrightarrow> redirect_link pg i j"
    using same_lps_items(3) [OF s assms(2)] same_lps_item [OF s assms(2), of i] n
    by (auto simp: redirect_link_def redirect_item_at_def)
  assume l: "hot_link env pg' i j"
  then have ij: "normal pg i" "normal pg j"
    unfolding hot_link_def n by blast+
  note ki = hint_step_keeps [OF hs [OF ij(1)]] and kj = hint_step_keeps [OF hs [OF ij(2)]]
  have "HeapTupleHeaderIsHotUpdated (tuple_of pg' i)"
    using l by (simp add: hot_link_def)
  from ki(7) [OF this, of env] l show "hot_link env pg i j"
    unfolding hot_link_def n ki(3) kj(6) by metis
qed

lemma hinted_hot_ok:
  assumes "hinted pg pg'" "24 \<le> unat (pd_lower pg)" "hot_ok env pg"
  shows "hot_ok env pg'"
proof -
  have s: "same_lps pg pg'"
    using assms(1) by (simp add: hinted_def)
  have "heap_only pg' j" if "chain_link env pg' i j" for i j
  proof -
    have "chain_link env pg i j"
      using that hinted_link(1,2) [OF assms(1,2)] by (auto simp: chain_link_def)
    then show ?thesis
      using assms(3) chain_link_normal hinted_link(3) [OF assms(1,2)] unfolding hot_ok_def by blast
  qed
  then show ?thesis
    using assms(3) hinted_link(1) [OF assms(1,2)] same_lps_fields(4) [OF s assms(2)] unfolding hot_ok_def by metis
qed
text \<open>
  The first pass: it leaves a page with hint bits, and each tuple's visibility is that of the
  header it had before.
\<close>

definition same_lists :: "PruneState \<Rightarrow> PruneState \<Rightarrow> bool" where
  "same_lists P P' \<longleftrightarrow> redirected P' = redirected P \<and> nowdead P' = nowdead P \<and> nowunused P' = nowunused P \<and>
     marked P' = marked P"

definition horizon_plain :: "prune_env \<Rightarrow> PruneState \<Rightarrow> bool" where
  "horizon_plain pe P \<longleftrightarrow> \<not> OldSnapshotThresholdActive pe \<longrightarrow> \<not> old_snap_used P"

lemma removable_after_lists:
  assumes "removable_after pe i x P = (res, thr, P')"
  shows "same_lists P P'" "htsv P' = htsv P" "horizon_plain pe P \<Longrightarrow> horizon_plain pe P'"
    "res = HEAPTUPLE_DEAD \<or> res = HEAPTUPLE_RECENTLY_DEAD"
    "horizon_plain pe P \<Longrightarrow> \<not> OldSnapshotThresholdActive pe \<Longrightarrow> res = HEAPTUPLE_DEAD \<Longrightarrow> GlobalVisTestIsRemovableXid pe i x"
  using assms by (auto simp: removable_after_def Let_def same_lists_def horizon_plain_def split: if_splits option.splits)

text \<open>What the visibility says about the tuple, when snapshots do not become too old.\<close>

definition htsv_says :: "prune_env \<Rightarrow> nat \<Rightarrow> HeapTupleHeader \<Rightarrow> HTSV_Result \<Rightarrow> bool" where
  "htsv_says pe i t r \<longleftrightarrow>
     (case fst (HeapTupleSatisfiesVacuumHorizon (at_item pe i) \<lparr>vt = t, hint_dirty = False\<rparr>) of
        (res, x) \<Rightarrow>
          if res \<noteq> HEAPTUPLE_RECENTLY_DEAD then r = res
          else (r = HEAPTUPLE_DEAD \<or> r = HEAPTUPLE_RECENTLY_DEAD) \<and>
               (r = HEAPTUPLE_DEAD \<longrightarrow> OldSnapshotThresholdActive pe \<or> GlobalVisTestIsRemovableXid pe i x))"

lemma satisfies_vacuum_result:
  assumes "heap_prune_satisfies_vacuum pe i t P = ((res, thr, P'), s)" "xact_ok (at_item pe i)" "tuple_ok (at_item pe i) t"
    and "horizon_plain pe P"
  shows "same_lists P P'" "htsv P' = htsv P" "horizon_plain pe P'" "htsv_says pe i t res"
    "hint_step t (vt s)" "tuple_ok (at_item pe i) (vt s)"
proof -
  obtain r x u where h: "HeapTupleSatisfiesVacuumHorizon (at_item pe i) \<lparr>vt = t, hint_dirty = False\<rparr> = ((r, x), u)"
    by (metis surj_pair)
  have e: "(if r \<noteq> HEAPTUPLE_RECENTLY_DEAD then (r, None, P) else removable_after pe i x P) = (res, thr, P')" "s = u"
    using assms(1) by (auto simp: heap_prune_satisfies_vacuum_def h split: if_splits)
  show "hint_step t (vt s)" "tuple_ok (at_item pe i) (vt s)"
    using VacuumHorizon_hint_step [OF assms(2,3) h] e(2) by simp_all
  show "same_lists P P'" "htsv P' = htsv P" "horizon_plain pe P'" "htsv_says pe i t res"
    using e(1) removable_after_lists [of pe i x P res thr P'] assms(4)
    by (auto simp: same_lists_def htsv_says_def h split: if_splits)
qed

definition htsv_inv :: "prune_env \<Rightarrow> page \<Rightarrow> PruneState \<Rightarrow> nat set \<Rightarrow> htsv_pass \<Rightarrow> bool" where
  "htsv_inv pe pg P0 done c \<longleftrightarrow>
     hinted pg (hp_page c) \<and> same_lists P0 (hp_state c) \<and> horizon_plain pe (hp_state c) \<and>
     (\<forall>i. normal pg i \<longrightarrow> tuple_ok (at_item pe i) (tuple_of (hp_page c) i) \<and> (i \<notin> done \<longrightarrow> tuple_of (hp_page c) i = tuple_of pg i)) \<and>
     (\<forall>i\<in>done. if normal pg i then \<exists>r. htsv (hp_state c) i = Some r \<and> htsv_says pe i (tuple_of pg i) r
               else htsv (hp_state c) i = None)"

lemma htsv_item_result:
  assumes pg: "page_wf pg" "lps_ok pg" "PageGetMaxOffsetNumber pg \<le> 291" and x: "\<And>i. xact_ok (at_item pe i)"
    and inv: "htsv_inv pe pg P0 done c" and i: "in_page pg i" "i \<notin> done"
  shows "\<exists>c'. htsv_item pe i c = Inr c' \<and> htsv_inv pe pg P0 (insert i done) c'"
proof -
  let ?pg = "hp_page c" and ?P = "hp_state c"
  note low = page_wf_lower [OF pg(1)]
  have hin: "hinted pg ?pg" and hp: "horizon_plain pe ?P"
    using inv by (simp_all add: htsv_inv_def)
  have s: "same_lps pg ?pg"
    using hin by (simp add: hinted_def)
  note n = hinted_items(1) [OF hin low] and lp = same_lps_item [OF s low i(1)]
  have i291: "i \<le> 291"
    using i(1) pg(3) by (simp add: in_page_def)
  show ?thesis
  proof (cases "normal pg i")
    case False
    let ?c = "c\<lparr>hp_state := ?P\<lparr>htsv := (htsv ?P)(i := None)\<rparr>\<rparr>"
    have "htsv_item pe i c = Inr ?c"
      using False i291 i(1) lp by (simp add: htsv_item_def Let_def normal_def)
    moreover have "htsv_inv pe pg P0 (insert i done) ?c"
      using inv i(2) False unfolding htsv_inv_def by (auto simp: same_lists_def horizon_plain_def)
    ultimately show ?thesis
      by blast
  next
    case True
    have w: "page_wf ?pg" "lps_ok ?pg"
      using same_lps_items(4,5) [OF s low] pg by simp_all
    have t: "tuple_ok (at_item pe i) (tuple_of ?pg i)" "tuple_of ?pg i = tuple_of pg i"
      using inv True i(2) unfolding htsv_inv_def by blast+
    obtain res thr P' u where h: "heap_prune_satisfies_vacuum pe i (tuple_of ?pg i) ?P = ((res, thr, P'), u)"
      by (metis surj_pair)
    note r = satisfies_vacuum_result [OF h x t(1) hp]
    have tn: "normal ?pg i"
      using True n by simp
    note st = hinted_store [OF w tn r(5)]
    let ?pg' = "store_infomask (item_at ?pg i) (t_infomask (vt u)) ?pg"
    let ?c = "c\<lparr>hp_state := P'\<lparr>htsv := (htsv P')(i := Some res)\<rparr>, hp_page := ?pg', hp_dirty := (hp_dirty c \<or> hint_dirty u),
      hp_thresholds := hp_thresholds c @ (case thr of None \<Rightarrow> [] | Some t \<Rightarrow> [t])\<rparr>"
    have b: "item_at ?pg i + 24 \<le> 8192" "length ?pg = 8192"
      using normal_bounds [OF w tn] page_wf_length [OF w(1)] by simp_all
    have nn: "ItemIdIsNormal (PageGetItemId ?pg i)"
      using True lp by (simp add: normal_def)
    have c': "htsv_item pe i c = Inr ?c"
      using nn i291 b h unfolding item_at_def by (simp add: htsv_item_def Let_def tuple_of_def)
    have "hinted pg ?pg'"
      by (rule hinted_trans [OF hin st(1) low])
    moreover have "tuple_of ?pg' j = (if j = i then vt u else tuple_of ?pg j)" if "normal pg j" for j
      using that st(2,3) n by simp
    then have "\<forall>j. normal pg j \<longrightarrow> tuple_ok (at_item pe j) (tuple_of ?pg' j) \<and> (j \<notin> insert i done \<longrightarrow> tuple_of ?pg' j = tuple_of pg j)"
      using inv r(6) unfolding htsv_inv_def by simp
    moreover have "\<forall>j\<in>insert i done. if normal pg j then \<exists>r. htsv (hp_state ?c) j = Some r \<and> htsv_says pe j (tuple_of pg j) r
        else htsv (hp_state ?c) j = None"
      using inv r(2,4) True t(2) i(2) unfolding htsv_inv_def by auto
    moreover have "same_lists P0 (hp_state ?c)" "horizon_plain pe (hp_state ?c)"
      using inv r(1,3) unfolding htsv_inv_def by (simp_all add: same_lists_def horizon_plain_def)
    ultimately have "htsv_inv pe pg P0 (insert i done) ?c"
      unfolding htsv_inv_def by simp
    with c' show ?thesis
      by blast
  qed
qed

lemma htsv_items_result:
  assumes pg: "page_wf pg" "lps_ok pg" "PageGetMaxOffsetNumber pg \<le> 291" and x: "\<And>i. xact_ok (at_item pe i)"
    and "htsv_inv pe pg P0 done c" "\<forall>i\<in>set offs. in_page pg i" "distinct offs" "set offs \<inter> done = {}"
  shows "\<exists>c'. htsv_items pe offs c = Inr c' \<and> htsv_inv pe pg P0 (done \<union> set offs) c'"
  using assms(5-)
proof (induction offs arbitrary: "done" c)
  case (Cons i offs)
  then obtain c1 where c1: "htsv_item pe i c = Inr c1" "htsv_inv pe pg P0 (insert i done) c1"
    using htsv_item_result [OF pg x Cons.prems(1), of i] by auto
  from Cons.IH [OF this(2)] Cons.prems(2-4) c1(1) show ?case
    by simp
qed simp
section \<open>The line pointers of the plan\<close>

definition items_set :: "page \<Rightarrow> (nat \<Rightarrow> ItemIdData) \<Rightarrow> page \<Rightarrow> bool" where
  "items_set pg f pg' \<longleftrightarrow>
     same_above (unat (pd_lower pg)) pg pg' \<and> bytes_at pg' 0 24 = bytes_at pg 0 24 \<and>
     (\<forall>j. in_page pg j \<longrightarrow> PageGetItemId pg' j = f j)"

lemma items_set_refl: "items_set pg (PageGetItemId pg) pg"
  by (simp add: items_set_def same_above_def)

lemma in_page_room: "24 \<le> unat (pd_lower pg) \<Longrightarrow> in_page pg i \<Longrightarrow> 24 + 4 * i \<le> unat (pd_lower pg)"
  using line_pointers_below_lower [of pg] by (auto simp: in_page_def)

lemma items_set_item:
  assumes "items_set pg f cur" "page_wf pg" "in_page pg i"
  shows "items_set pg (f(i := lp)) (set_item_id i lp cur)"
proof -
  have l: "24 + 4 * i \<le> unat (pd_lower pg)" "unat (pd_lower pg) \<le> 8192" "length cur = 8192" "1 \<le> i"
    using in_page_room [OF page_wf_lower [OF assms(2)] assms(3)] assms unfolding items_set_def same_above_def page_wf_def in_page_def by simp_all
  then have "same_above (unat (pd_lower pg)) cur (set_item_id i lp cur)" "bytes_at (set_item_id i lp cur) 0 24 = bytes_at cur 0 24"
    by (simp_all add: same_above_def set_item_id_def bytes_at_write_disjoint)
  moreover have "PageGetItemId (set_item_id i lp cur) j = (f(i := lp)) j" if "in_page pg j" for j
    using that assms(1) l by (simp add: PageGetItemId_set items_set_def in_page_def)
  ultimately show ?thesis
    using assms(1) unfolding items_set_def same_above_def by simp
qed

lemma items_set_heap_only:
  assumes "items_set pg f cur" "unat (pd_lower pg) \<le> unat (lp_off lp)"
  shows "item_heap_only cur lp = item_heap_only pg lp"
proof -
  have "header_at cur (unat (lp_off lp)) = header_at pg (unat (lp_off lp))"
    using assms by (intro header_at_cong) (simp add: items_set_def same_above_def)
  then show ?thesis
    by (simp add: item_heap_only_def PageGetItem_def)
qed

text \<open>What the assertions ask of the line pointers and the tuples behind them.\<close>

definition behind_lps :: "page \<Rightarrow> ItemIdData \<Rightarrow> bool" where
  "behind_lps pg lp \<longleftrightarrow> (ItemIdIsNormal lp \<longrightarrow> unat (pd_lower pg) \<le> unat (lp_off lp))"

definition root_lp :: "page \<Rightarrow> ItemIdData \<Rightarrow> bool" where
  "root_lp pg lp \<longleftrightarrow> behind_lps pg lp \<and>
     (if ItemIdHasStorage lp then ItemIdIsNormal lp \<and> \<not> item_heap_only pg lp else ItemIdIsRedirected lp)"

definition member_lp :: "page \<Rightarrow> ItemIdData \<Rightarrow> bool" where
  "member_lp pg lp \<longleftrightarrow> behind_lps pg lp \<and> stored_heap_only pg lp"

lemma member_lp_set: "items_set pg f cur \<Longrightarrow> member_lp pg lp \<Longrightarrow> stored_heap_only cur lp"
  using items_set_heap_only by (auto simp: member_lp_def behind_lps_def stored_heap_only_def)

lemma root_lp_set:
  assumes "items_set pg f cur" "root_lp pg lp"
  shows "if ItemIdHasStorage lp then ItemIdIsNormal lp \<and> \<not> item_heap_only cur lp else ItemIdIsRedirected lp"
  using assms items_set_heap_only [OF assms(1), of lp] by (auto simp: root_lp_def behind_lps_def split: if_splits)

lemma redirected_no_storage: "root_lp pg lp \<Longrightarrow> \<not> ItemIdIsRedirected lp \<Longrightarrow> ItemIdHasStorage lp"
  by (auto simp: root_lp_def split: if_splits)

definition redirect_to :: "(nat \<times> nat) list \<Rightarrow> (nat \<Rightarrow> ItemIdData) \<Rightarrow> nat \<Rightarrow> ItemIdData" where
  "redirect_to rs f j = (case map_of rs j of Some t \<Rightarrow> redirect_item (of_nat t) | None \<Rightarrow> f j)"

definition redirect_ok :: "page \<Rightarrow> (nat \<Rightarrow> ItemIdData) \<Rightarrow> nat \<Rightarrow> nat \<Rightarrow> bool" where
  "redirect_ok pg f x y \<longleftrightarrow> in_page pg x \<and> in_page pg y \<and> root_lp pg (f x) \<and> member_lp pg (f y) \<and>
     (ItemIdIsRedirected (f x) \<longrightarrow> ItemIdGetRedirect (f x) \<noteq> y)"

lemma set_redirects_result:
  assumes "items_set pg f cur" "page_wf pg" "distinct (map fst rs)" "set (map fst rs) \<inter> set (map snd rs) = {}"
    and "\<And>x y. (x, y) \<in> set rs \<Longrightarrow> redirect_ok pg f x y"
  shows "\<exists>cur'. set_redirects rs cur = Inr cur' \<and> items_set pg (redirect_to rs f) cur'"
  using assms(1,3-)
proof (induction rs arbitrary: f cur)
  case Nil
  then show ?case
    by (simp add: redirect_to_def)
next
  case (Cons r rs)
  obtain x y where r: "r = (x, y)"
    by (cases r)
  have c: "in_page pg x" "in_page pg y" "root_lp pg (f x)" "member_lp pg (f y)" "ItemIdIsRedirected (f x) \<longrightarrow> ItemIdGetRedirect (f x) \<noteq> y"
    using Cons.prems(4) [of x y] r by (simp_all add: redirect_ok_def)
  have lp: "PageGetItemId cur x = f x" "PageGetItemId cur y = f y"
    using Cons.prems(1) c by (simp_all add: items_set_def)
  let ?f = "f(x := redirect_item (of_nat y))"
  have "\<exists>cur'. set_redirects rs (set_item_id x (redirect_item (of_nat y)) cur) = Inr cur' \<and> items_set pg (redirect_to rs ?f) cur'"
  proof (rule Cons.IH [OF items_set_item [OF Cons.prems(1) assms(2) c(1)]])
    show "distinct (map fst rs)" "set (map fst rs) \<inter> set (map snd rs) = {}"
      using Cons.prems(2,3) by auto
    fix a b assume ab: "(a, b) \<in> set rs"
    then have "a \<in> fst ` set rs" "b \<in> snd ` set rs"
      by (auto intro: rev_image_eqI)
    moreover have "x \<notin> fst ` set rs" "x \<notin> snd ` set rs"
      using Cons.prems(2,3) r by auto
    ultimately have "a \<noteq> x" "b \<noteq> x"
      by blast+
    then show "redirect_ok pg ?f a b"
      using Cons.prems(4) [of a b] ab by (simp add: redirect_ok_def)
  qed
  moreover have "map_of rs x = None"
    using Cons.prems(2) r by (simp add: map_of_eq_None_iff)
  then have "redirect_to rs ?f = redirect_to (r # rs) f"
    by (auto simp: redirect_to_def fun_eq_iff r split: option.splits)
  moreover have "set_redirects (r # rs) cur = set_redirects rs (set_item_id x (redirect_item (of_nat y)) cur)"
    using root_lp_set [OF Cons.prems(1) c(3)] redirected_no_storage [OF c(3)] member_lp_set [OF Cons.prems(1) c(4)] c(5)
    by (simp add: r lp Let_def split: if_splits)
  ultimately show ?case
    by simp
qed

lemma set_dead_result:
  assumes "items_set pg f cur" "page_wf pg" "distinct ds" "\<forall>x\<in>set ds. in_page pg x \<and> root_lp pg (f x)"
  shows "\<exists>cur'. set_dead ds cur = Inr cur' \<and> items_set pg (\<lambda>j. if j \<in> set ds then dead_item else f j) cur'"
  using assms(1,3-)
proof (induction ds arbitrary: f cur)
  case (Cons x ds)
  have lp: "PageGetItemId cur x = f x"
    using Cons.prems by (simp add: items_set_def)
  let ?f = "f(x := dead_item)"
  have "\<exists>cur'. set_dead ds (set_item_id x dead_item cur) = Inr cur' \<and> items_set pg (\<lambda>j. if j \<in> set ds then dead_item else ?f j) cur'"
    using Cons.prems by (intro Cons.IH items_set_item assms(2)) auto
  moreover have "(\<lambda>j. if j \<in> set ds then dead_item else ?f j) = (\<lambda>j. if j \<in> set (x # ds) then dead_item else f j)"
    by auto
  ultimately show ?case
    using root_lp_set [OF Cons.prems(1), of "f x"] Cons.prems(3) lp by (simp add: Let_def)
qed simp

lemma set_unused_result:
  assumes "items_set pg f cur" "page_wf pg" "distinct us" "\<forall>x\<in>set us. in_page pg x \<and> member_lp pg (f x)"
  shows "\<exists>cur'. set_unused us cur = Inr cur' \<and> items_set pg (\<lambda>j. if j \<in> set us then unused_item else f j) cur'"
  using assms(1,3-)
proof (induction us arbitrary: f cur)
  case (Cons x us)
  have lp: "PageGetItemId cur x = f x"
    using Cons.prems by (simp add: items_set_def)
  let ?f = "f(x := unused_item)"
  have "\<exists>cur'. set_unused us (set_item_id x unused_item cur) = Inr cur' \<and> items_set pg (\<lambda>j. if j \<in> set us then unused_item else ?f j) cur'"
    using Cons.prems by (intro Cons.IH items_set_item assms(2)) auto
  moreover have "(\<lambda>j. if j \<in> set us then unused_item else ?f j) = (\<lambda>j. if j \<in> set (x # us) then unused_item else f j)"
    by auto
  ultimately show ?case
    using member_lp_set [OF Cons.prems(1), of "f x"] Cons.prems(3) lp by simp
qed simp
section \<open>The page after the plan\<close>

definition removed :: "PruneState \<Rightarrow> nat set" where
  "removed P = set (nowunused P) \<union> set (nowdead P @ map fst (redirected P))"

definition item_after :: "page \<Rightarrow> PruneState \<Rightarrow> nat \<Rightarrow> ItemIdData" where
  "item_after dp P j =
     (if j \<in> set (nowunused P) then unused_item else if j \<in> set (nowdead P) then dead_item
      else redirect_to (redirected P) (PageGetItemId dp) j)"

text \<open>What the execution needs of a plan: the tuples' visibility no longer matters.\<close>

definition plan_exec :: "page \<Rightarrow> PruneState \<Rightarrow> bool" where
  "plan_exec dp P \<longleftrightarrow>
     plan_wf dp P \<and>
     (\<forall>u\<in>set (nowunused P). normal dp u \<and> heap_only dp u) \<and>
     (\<forall>x\<in>set (nowdead P @ map fst (redirected P)). redirect_item_at dp x \<or> normal dp x \<and> \<not> heap_only dp x) \<and>
     (\<forall>y\<in>set (map snd (redirected P)). normal dp y \<and> heap_only dp y) \<and>
     (\<forall>(x, y)\<in>set (redirected P). redirect_item_at dp x \<longrightarrow> ItemIdGetRedirect (PageGetItemId dp x) \<in> set (nowunused P)) \<and>
     (\<forall>i. redirect_item_at dp i \<longrightarrow> i \<in> set (nowdead P @ map fst (redirected P)) \<or>
        (\<exists>t. redirect_link dp i t \<and> t \<notin> set (nowunused P)))"

lemma plan_ok_exec:
  assumes "plan_ok env dp done P" "\<And>i. in_page dp i \<Longrightarrow> i \<in> done"
  shows "plan_exec dp P"
  unfolding plan_exec_def
proof (intro conjI)
  note p = assms(1) [unfolded plan_ok_def]
  show "plan_wf dp P"
    "\<forall>(x, y)\<in>set (redirected P). redirect_item_at dp x \<longrightarrow> ItemIdGetRedirect (PageGetItemId dp x) \<in> set (nowunused P)"
    "\<forall>y\<in>set (map snd (redirected P)). normal dp y \<and> heap_only dp y"
    using p by blast+
  show "\<forall>u\<in>set (nowunused P). normal dp u \<and> heap_only dp u"
    using p doomed_normal by blast
  show "\<forall>x\<in>set (nowdead P @ map fst (redirected P)). redirect_item_at dp x \<or> normal dp x \<and> \<not> heap_only dp x"
    using p unfolding root_item_def by blast
  show "\<forall>i. redirect_item_at dp i \<longrightarrow> i \<in> set (nowdead P @ map fst (redirected P)) \<or>
        (\<exists>t. redirect_link dp i t \<and> t \<notin> set (nowunused P))"
    using p assms(2) unfolding redirect_item_at_def by blast
qed

lemma root_item_lp:
  assumes "page_wf dp" "lps_ok dp" "redirect_item_at dp x \<or> normal dp x \<and> \<not> heap_only dp x"
  shows "in_page dp x" "root_lp dp (PageGetItemId dp x)"
proof -
  show page: "in_page dp x"
    using assms(3) by (auto simp: redirect_item_at_def normal_def)
  have st: "ItemIdHasStorage (PageGetItemId dp x) = ItemIdIsNormal (PageGetItemId dp x)"
    using assms(2) page by (simp add: lps_ok_def)
  show "root_lp dp (PageGetItemId dp x)"
  proof (cases "redirect_item_at dp x")
    case True
    then have "ItemIdIsRedirected (PageGetItemId dp x)" "\<not> ItemIdIsNormal (PageGetItemId dp x)"
      using lp_flags_cases(2) by (auto simp: redirect_item_at_def)
    then show ?thesis
      using st by (simp add: root_lp_def behind_lps_def)
  next
    case False
    then have n: "normal dp x" "\<not> heap_only dp x"
      using assms(3) by auto
    then show ?thesis
      using st normal_bounds(1) [OF assms(1,2) n(1)]
      by (simp add: root_lp_def behind_lps_def normal_def heap_only_def item_heap_only_def tuple_of_def item_at_def)
  qed
qed

lemma member_item_lp:
  assumes "page_wf dp" "lps_ok dp" "normal dp x" "heap_only dp x"
  shows "member_lp dp (PageGetItemId dp x)"
  using assms normal_bounds(1) [OF assms(1-3)]
  by (simp add: member_lp_def behind_lps_def stored_heap_only_def normal_def heap_only_def item_heap_only_def tuple_of_def
      item_at_def lps_ok_def)

lemma redirect_to_other: "x \<notin> set (map fst rs) \<Longrightarrow> redirect_to rs f x = f x"
  by (simp add: redirect_to_def map_of_eq_None_iff [THEN iffD2])

lemma plan_parts:
  assumes "plan_exec dp P"
  shows "distinct (map fst (redirected P))" "distinct (nowdead P)" "distinct (nowunused P)"
    "set (map fst (redirected P)) \<inter> set (map snd (redirected P)) = {}"
    "set (nowdead P) \<inter> set (map fst (redirected P)) = {}" "set (nowdead P) \<inter> set (map snd (redirected P)) = {}"
    "set (nowunused P) \<inter> set (map fst (redirected P)) = {}" "set (nowunused P) \<inter> set (map snd (redirected P)) = {}"
    "set (nowunused P) \<inter> set (nowdead P) = {}"
  using assms unfolding plan_exec_def plan_wf_def recorded_def by auto

lemma set_items_result:
  assumes pg: "page_wf dp" "lps_ok dp" and plan: "plan_exec dp P"
  obtains pg2 where "set_items (redirected P) (nowdead P) (nowunused P) dp = Inr pg2" "items_set dp (item_after dp P) pg2"
proof -
  let ?f = "PageGetItemId dp" and ?rs = "redirected P" and ?ds = "nowdead P" and ?us = "nowunused P"
  note d = plan_parts [OF plan] and p = plan [unfolded plan_exec_def]
  have root: "in_page dp x" "root_lp dp (?f x)" if "x \<in> set (?ds @ map fst ?rs)" for x
    using p root_item_lp [OF pg, of x] that by blast+
  have u: "normal dp x" "heap_only dp x" if "x \<in> set ?us" for x
    using p that by blast+
  have ok: "redirect_ok dp ?f x y" if xy: "(x, y) \<in> set ?rs" for x y
  proof -
    have m: "x \<in> set (map fst ?rs)" "y \<in> set (map snd ?rs)"
      using xy by (auto intro: rev_image_eqI)
    then have y: "normal dp y" "heap_only dp y"
      using p by blast+
    have "ItemIdGetRedirect (?f x) \<noteq> y" if "redirect_item_at dp x"
      using p xy that m(2) d(8) by blast
    moreover have "redirect_item_at dp x" if "ItemIdIsRedirected (?f x)"
      using that root(1) [of x] m(1) by (simp add: redirect_item_at_def)
    ultimately show ?thesis
      using root [of x] m(1) member_item_lp [OF pg y] y(1) by (auto simp: redirect_ok_def normal_def)
  qed
  obtain pg1 where 1: "set_redirects ?rs dp = Inr pg1" "items_set dp (redirect_to ?rs ?f) pg1"
    using set_redirects_result [OF items_set_refl pg(1) d(1,4) ok] by blast
  have "in_page dp x \<and> root_lp dp (redirect_to ?rs ?f x)" if "x \<in> set ?ds" for x
  proof -
    have "x \<notin> set (map fst ?rs)"
      using d(5) that by blast
    then show ?thesis
      using root [of x] that by (simp add: redirect_to_other)
  qed
  then obtain pg2 where 2: "set_dead ?ds pg1 = Inr pg2" "items_set dp (\<lambda>j. if j \<in> set ?ds then dead_item else redirect_to ?rs ?f j) pg2"
    using set_dead_result [OF 1(2) pg(1) d(2)] by blast
  let ?g = "\<lambda>j. if j \<in> set ?ds then dead_item else redirect_to ?rs ?f j"
  have "in_page dp x \<and> member_lp dp (?g x)" if x: "x \<in> set ?us" for x
  proof -
    have "?g x = ?f x"
    proof -
      have "x \<notin> set (map fst ?rs)" "x \<notin> set ?ds"
        using d(7,9) x by blast+
      then show ?thesis
        by (simp add: redirect_to_other)
    qed
    then show ?thesis
      using u [OF x] member_item_lp [OF pg] by (simp add: normal_def)
  qed
  then obtain pg3 where 3: "set_unused ?us pg2 = Inr pg3" "items_set dp (\<lambda>j. if j \<in> set ?us then unused_item else ?g j) pg3"
    using set_unused_result [OF 2(2) pg(1) d(3)] by blast
  have "(\<lambda>j. if j \<in> set ?us then unused_item else ?g j) = item_after dp P"
    by (simp add: item_after_def fun_eq_iff)
  then show thesis
    using that [of pg3] 1(1) 2(1) 3 by (simp add: set_items_def)
qed

text \<open>Which items are left, and what the others became.\<close>

lemma flags_of_new [simp]:
  "\<not> ItemIdIsNormal unused_item" "\<not> ItemIdIsNormal dead_item" "\<not> ItemIdIsNormal (redirect_item t)"
  "\<not> ItemIdHasStorage unused_item" "\<not> ItemIdHasStorage dead_item" "\<not> ItemIdHasStorage (redirect_item t)"
  "\<not> ItemIdIsRedirected unused_item" "\<not> ItemIdIsRedirected dead_item" "ItemIdIsRedirected (redirect_item t)"
  by (simp_all add: unused_item_def dead_item_def redirect_item_def ItemIdIsNormal_def ItemIdHasStorage_def ItemIdIsRedirected_def)

lemma ItemIdGetRedirect_item: "y \<le> 291 \<Longrightarrow> ItemIdGetRedirect (redirect_item (of_nat y)) = y"
  by (simp add: ItemIdGetRedirect_def redirect_item_def unat_ucast_lt unat_of_nat_lt)

lemma item_after_cases:
  "j \<notin> removed P \<Longrightarrow> item_after dp P j = PageGetItemId dp j"
  "j \<in> removed P \<Longrightarrow> item_after dp P j = unused_item \<or> item_after dp P j = dead_item \<or>
     (\<exists>y. (j, y) \<in> set (redirected P) \<and> item_after dp P j = redirect_item (of_nat y))"
proof -
  show "j \<notin> removed P \<Longrightarrow> item_after dp P j = PageGetItemId dp j"
    using redirect_to_other [of j "redirected P"] by (simp add: removed_def item_after_def)
  assume j: "j \<in> removed P"
  show "item_after dp P j = unused_item \<or> item_after dp P j = dead_item \<or>
     (\<exists>y. (j, y) \<in> set (redirected P) \<and> item_after dp P j = redirect_item (of_nat y))"
  proof (cases "j \<in> set (nowunused P) \<or> j \<in> set (nowdead P)")
    case True
    then show ?thesis
      by (auto simp: item_after_def)
  next
    case False
    then have "j \<in> fst ` set (redirected P)"
      using j by (auto simp: removed_def)
    then obtain y where "map_of (redirected P) j = Some y"
      by (metis map_of_eq_None_iff option.exhaust)
    then have "(j, y) \<in> set (redirected P)" "item_after dp P j = redirect_item (of_nat y)"
      using False map_of_SomeD [of "redirected P" j y] by (simp_all add: item_after_def redirect_to_def)
    then show ?thesis
      by blast
  qed
qed
definition tuples_kept :: "page \<Rightarrow> page \<Rightarrow> bool" where
  "tuples_kept dp pg \<longleftrightarrow> PageGetMaxOffsetNumber pg \<le> PageGetMaxOffsetNumber dp \<and>
     (\<forall>i. normal pg i \<longrightarrow> normal dp i \<and> tuple_of pg i = tuple_of dp i)"

definition redirects_ok :: "page \<Rightarrow> bool" where
  "redirects_ok pg \<longleftrightarrow> (\<forall>i. redirect_item_at pg i \<longrightarrow>
     normal pg (ItemIdGetRedirect (PageGetItemId pg i)) \<and> heap_only pg (ItemIdGetRedirect (PageGetItemId pg i)))"

lemma tuples_kept_trans: "tuples_kept a b \<Longrightarrow> tuples_kept b c \<Longrightarrow> tuples_kept a c"
  by (auto simp: tuples_kept_def)

lemma hot_link_normal: "hot_link env pg i j \<Longrightarrow> normal pg i" "hot_link env pg i j \<Longrightarrow> normal pg j"
  unfolding hot_link_def by blast+

lemma tuples_kept_hot_ok:
  assumes "hot_ok env dp" "tuples_kept dp pg" "redirects_ok pg"
  shows "hot_ok env pg"
proof -
  have k: "normal dp i" "tuple_of pg i = tuple_of dp i" if "normal pg i" for i
    using that assms(2) by (simp_all add: tuples_kept_def)
  have h: "hot_link env dp i j" if "hot_link env pg i j" for i j
  proof -
    show ?thesis
      using that k hot_link_normal [OF that] unfolding hot_link_def by metis
  qed
  have "heap_only pg j" if "chain_link env pg i j" for i j
    using that unfolding chain_link_def
  proof
    assume l: "hot_link env pg i j"
    then have "chain_link env dp i j" "tuple_of pg j = tuple_of dp j"
      using h k(2) hot_link_normal(2) [OF l] by (simp_all add: chain_link_def)
    then show ?thesis
      using assms(1) unfolding hot_ok_def heap_only_def by metis
  next
    assume "redirect_link pg i j"
    then show ?thesis
      using assms(3) by (auto simp: redirect_link_def redirects_ok_def)
  qed
  moreover have "PageGetMaxOffsetNumber pg \<le> 291"
    using assms(1,2) by (simp add: hot_ok_def tuples_kept_def)
  moreover have "\<exists>rank :: nat \<Rightarrow> nat. \<forall>i j. hot_link env pg i j \<longrightarrow> rank i < rank j"
    using assms(1) h unfolding hot_ok_def by blast
  ultimately show ?thesis
    unfolding hot_ok_def by blast
qed

lemma redirects_ok_verify:
  assumes "redirects_ok pg" "lps_ok pg"
  shows "page_verify_redirects pg"
proof -
  have "stored_heap_only pg (PageGetItemId pg (ItemIdGetRedirect (PageGetItemId pg i)))"
    if "i \<in> set [1..<Suc (PageGetMaxOffsetNumber pg)]" "ItemIdIsRedirected (PageGetItemId pg i)" for i
  proof -
    let ?t = "ItemIdGetRedirect (PageGetItemId pg i)"
    have "redirect_item_at pg i"
      using that by (auto simp: redirect_item_at_def in_page_def)
    then have "normal pg ?t" "heap_only pg ?t"
      using assms(1) by (simp_all add: redirects_ok_def)
    then show ?thesis
      using assms(2) by (simp add: stored_heap_only_def lps_ok_def normal_def heap_only_def item_heap_only_def tuple_of_def)
  qed
  then show ?thesis
    by (simp only: page_verify_redirects_def Let_def) blast
qed

lemma plan_page:
  assumes dp: "page_wf dp" "lps_ok dp" and set: "items_set dp (item_after dp P) pg"
  shows "in_page pg = in_page dp" "normal pg i \<longleftrightarrow> normal dp i \<and> i \<notin> removed P"
    "normal pg i \<Longrightarrow> PageGetItemId pg i = PageGetItemId dp i" "normal pg i \<Longrightarrow> tuple_of pg i = tuple_of dp i"
    "lps_ok pg" "live_items pg = filter (\<lambda>q. offsetindex q + 1 \<notin> removed P) (live_items dp)" "page_wf pg"
    "pd_lower pg = pd_lower dp" "pd_special pg = pd_special dp" "PageGetMaxOffsetNumber pg = PageGetMaxOffsetNumber dp"
proof -
  let ?low = "unat (pd_lower dp)"
  have s: "same_above ?low dp pg" "bytes_at pg 0 24 = bytes_at dp 0 24"
    and lp: "\<And>j. in_page dp j \<Longrightarrow> PageGetItemId pg j = item_after dp P j"
    using set by (auto simp: items_set_def)
  note f = header_fields [OF s(2)]
  show m: "PageGetMaxOffsetNumber pg = PageGetMaxOffsetNumber dp" and lo: "pd_lower pg = pd_lower dp" "pd_special pg = pd_special dp"
    using f by (simp_all add: PageGetMaxOffsetNumber_def)
  then show ip: "in_page pg = in_page dp"
    by (simp add: in_page_def fun_eq_iff)
  have new: "ItemIdIsNormal (item_after dp P j) \<longleftrightarrow> ItemIdIsNormal (PageGetItemId dp j) \<and> j \<notin> removed P"
    "ItemIdHasStorage (item_after dp P j) \<longleftrightarrow> ItemIdHasStorage (PageGetItemId dp j) \<and> j \<notin> removed P" for j
    using item_after_cases(1) [of j P dp] item_after_cases(2) [of j P dp] by (cases "j \<in> removed P"; auto)+
  show n: "normal pg i \<longleftrightarrow> normal dp i \<and> i \<notin> removed P" for i
    using new(1) [of i] lp [of i] by (cases "in_page dp i") (simp_all add: normal_def ip)
  show pi: "PageGetItemId pg i = PageGetItemId dp i" if "normal pg i" for i
    using that n [of i] lp [of i] item_after_cases(1) [of i P dp] by (simp add: normal_def)
  show tup: "tuple_of pg i = tuple_of dp i" if "normal pg i" for i
  proof -
    have "?low \<le> item_at dp i"
      using that n normal_bounds(1) [OF dp] by blast
    then have "header_at pg (item_at dp i) = header_at dp (item_at dp i)"
      using s(1) by (intro header_at_cong) (simp add: same_above_def)
    then show ?thesis
      using pi [OF that] by (simp add: tuple_of_def PageGetItem_def item_at_def)
  qed
  show lps: "lps_ok pg"
    unfolding lps_ok_def
  proof (intro conjI allI impI)
    fix i assume "in_page pg i"
    then show "ItemIdHasStorage (PageGetItemId pg i) = ItemIdIsNormal (PageGetItemId pg i)"
      using dp(2) lp [of i] new by (simp add: lps_ok_def ip)
  next
    fix i assume "normal pg i"
    then show "24 \<le> unat (lp_len (PageGetItemId pg i))"
      using pi n dp(2) by (simp add: lps_ok_def)
  qed
  have lv: "live pg i \<longleftrightarrow> live dp i \<and> i \<notin> removed P" if "in_page dp i" for i
    using that n live_normal [OF lps, of i] live_normal [OF dp(2), of i] by (simp add: ip)
  have "filter (live pg) [1..<Suc (PageGetMaxOffsetNumber dp)] =
      filter (\<lambda>i. live dp i \<and> i \<notin> removed P) [1..<Suc (PageGetMaxOffsetNumber dp)]"
    using lv by (intro filter_cong [OF refl]) (auto simp: in_page_def)
  moreover have "compact_item i (PageGetItemId pg i) = compact_item i (PageGetItemId dp i)"
    if "i \<in> set [1..<Suc (PageGetMaxOffsetNumber dp)]" "live dp i" "i \<notin> removed P" for i
  proof -
    have "in_page dp i"
      using that(1) by (auto simp: in_page_def)
    then have "normal pg i"
      using that n live_normal [OF dp(2)] by simp
    then show ?thesis
      using pi by simp
  qed
  ultimately have "live_items pg = map (\<lambda>i. compact_item i (PageGetItemId dp i))
      (filter (\<lambda>i. live dp i \<and> i \<notin> removed P) [1..<Suc (PageGetMaxOffsetNumber dp)])"
    unfolding live_items_def items_of_def m by simp
  also have "\<dots> = map (\<lambda>i. compact_item i (PageGetItemId dp i))
      (filter (\<lambda>i. offsetindex (compact_item i (PageGetItemId dp i)) + 1 \<notin> removed P) (filter (live dp) [1..<Suc (PageGetMaxOffsetNumber dp)]))"
    unfolding filter_filter by (intro arg_cong [of _ _ "map _"] filter_cong [OF refl]) (auto simp: compact_item_def)
  also have "\<dots> = filter (\<lambda>q. offsetindex q + 1 \<notin> removed P) (live_items dp)"
    unfolding live_items_def items_of_def by (simp add: filter_map comp_def)
  finally show li: "live_items pg = filter (\<lambda>q. offsetindex q + 1 \<notin> removed P) (live_items dp)" .
  have tot: "total_len (filter Q qs) \<le> total_len qs" for Q qs
    by (induction qs) (simp_all add: total_len_def)
  have len: "length (filter Q qs) \<le> n" if "length qs \<le> n" for Q qs and n :: nat
    using that length_filter_le [of Q qs] by linarith
  show "page_wf pg"
    using dp(1) s(1) tot len unfolding page_wf_def li f same_above_def by (auto intro: sorted_wrt_filter order_trans [OF tot])
qed
lemma plan_redirects:
  assumes hot: "hot_ok env dp" and dp: "page_wf dp" "lps_ok dp" and plan: "plan_exec dp P"
    and set: "items_set dp (item_after dp P) pg"
  shows "redirects_ok pg" "tuples_kept dp pg"
proof -
  note q = plan_page [OF dp set] and d = plan_parts [OF plan] and p = plan [unfolded plan_exec_def]
  show "tuples_kept dp pg"
    using q(2,4,10) unfolding tuples_kept_def by simp
  have keep: "normal pg t \<and> heap_only pg t" if "normal dp t" "heap_only dp t" "t \<notin> removed P" for t
    using that q(2,4) by (simp add: heap_only_def)
  have not_root: "t \<notin> set (nowdead P @ map fst (redirected P))" if "normal dp t" "heap_only dp t" for t
    using p that normal_not_redirect by blast
  show "redirects_ok pg"
    unfolding redirects_ok_def
  proof (intro allI impI)
    fix i assume red: "redirect_item_at pg i"
    then have i: "in_page dp i" "PageGetItemId pg i = item_after dp P i" "ItemIdIsRedirected (item_after dp P i)"
      using set q(1) by (auto simp: redirect_item_at_def items_set_def)
    let ?t = "ItemIdGetRedirect (item_after dp P i)"
    have "normal dp ?t \<and> heap_only dp ?t \<and> ?t \<notin> removed P"
    proof (cases "i \<in> removed P")
      case True
      then obtain y where y: "(i, y) \<in> set (redirected P)" "item_after dp P i = redirect_item (of_nat y)"
        using item_after_cases(2) [of i P dp] i(3) by auto
      then have m: "y \<in> set (map snd (redirected P))"
        by (auto intro: rev_image_eqI)
      then have n: "normal dp y" "heap_only dp y"
        using p by blast+
      have "?t = y"
        using y(2) in_page_291 [OF hot] n(1) by (simp add: ItemIdGetRedirect_item normal_def)
      then show ?thesis
        using n m d(8) not_root [OF n] unfolding removed_def by blast
    next
      case False
      have lp: "item_after dp P i = PageGetItemId dp i"
        using False by (rule item_after_cases(1))
      then have "redirect_item_at dp i"
        using i by (simp add: redirect_item_at_def)
      then obtain t where t: "redirect_link dp i t" "t \<notin> set (nowunused P)"
        using p False unfolding removed_def by blast
      have "chain_link env dp i t"
        using t(1) by (simp add: chain_link_def)
      then have n: "normal dp t" "heap_only dp t"
        using hot chain_link_normal unfolding hot_ok_def by blast+
      have "?t = t"
        using t(1) lp by (simp add: redirect_link_def)
      then show ?thesis
        using n t(2) not_root [OF n] unfolding removed_def by blast
    qed
    then show "normal pg (ItemIdGetRedirect (PageGetItemId pg i)) \<and> heap_only pg (ItemIdGetRedirect (PageGetItemId pg i))"
      using keep i(2) by simp
  qed
qed

section \<open>The page after the defragmentation\<close>

lemma repaired_page:
  assumes rep: "repaired st bn pg pg2" "lps_cut pg pg2" and pg: "page_wf pg" "lps_ok pg" "fits (live_items pg)"
  shows "lps_ok pg2" "normal pg2 = normal pg" "normal pg i \<Longrightarrow> tuple_of pg2 i = tuple_of pg i"
    "redirect_item_at pg2 i \<longleftrightarrow> redirect_item_at pg i" "redirect_item_at pg i \<Longrightarrow> PageGetItemId pg2 i = PageGetItemId pg i"
    "normal pg i \<Longrightarrow> lp_len (PageGetItemId pg2 i) = lp_len (PageGetItemId pg i)"
    "PageGetMaxOffsetNumber pg2 \<le> PageGetMaxOffsetNumber pg"
proof -
  have cut: "in_page pg2 i \<Longrightarrow> in_page pg i" "in_page pg i \<Longrightarrow> ItemIdIsUsed (PageGetItemId pg i) \<Longrightarrow> in_page pg2 i" for i
    using rep(2) by (auto simp: lps_cut_def in_page_def)
  show "PageGetMaxOffsetNumber pg2 \<le> PageGetMaxOffsetNumber pg"
    using rep(2) by (simp add: lps_cut_def)
  have norm: "\<exists>a. PageGetItemId pg2 i = (PageGetItemId pg i)\<lparr>lp_off := of_nat a\<rparr> \<and> a \<le> 8192 \<and>
      header_at pg2 a = header_at pg (item_at pg i)" if n: "normal pg i" for i
  proof -
    obtain q where q: "q \<in> set (live_items pg)" "offsetindex q + 1 = i" "itemoff q = item_at pg i" "24 \<le> item_len q" "item_len q \<le> alignedlen q"
      by (rule normal_item [OF pg(1,2) n])
    obtain a k where a: "PageGetItemId pg2 (offsetindex q + 1) = (PageGetItemId pg (offsetindex q + 1))\<lparr>lp_off := of_nat a\<rparr>"
      "bytes_at pg2 a (alignedlen q) = moved_bytes st bn (itemoff q) a k (bytes_at pg (itemoff q) (alignedlen q))"
      "24 \<le> k" "k \<le> alignedlen q" "a + alignedlen q \<le> 8192" "itemoff q + alignedlen q \<le> 8192"
      by (rule repaired_item [OF rep(1) pg(1,3) q(1)])
    have l: "length pg = 8192" "length pg2 = 8192"
      using page_wf_length [OF pg(1)] rep(1) by (simp_all add: repaired_def)
    have "bytes_at pg2 a 24 = bytes_at pg (itemoff q) 24"
      using moved_bytes_parts(1) [OF a(2-4)] a(5,6) l by simp
    then have "header_at pg2 a = header_at pg (item_at pg i)"
      using bytes_at_bytes_at [of 0 22 24 pg2 a] bytes_at_bytes_at [of 0 22 24 pg "itemoff q"] q(3)
      by (intro header_at_cong) simp
    then show ?thesis
      using a(1,5) q(2) by auto
  qed
  have other: "PageGetItemId pg2 i = (if ItemIdIsUsed (PageGetItemId pg i) then PageGetItemId pg i else unused_item)"
    if i: "in_page pg i" "\<not> normal pg i" for i
  proof -
    have "i \<notin> fst ` set (new_offsets (unat (pd_special pg)) (live_items pg))"
    proof
      assume "i \<in> fst ` set (new_offsets (unat (pd_special pg)) (live_items pg))"
      then obtain q where "q \<in> set (live_items pg)" "i = offsetindex q + 1"
        unfolding new_offsets_index by auto
      then have "live pg i"
        using live_items_lp(2) by blast
      then show False
        using i live_normal [OF pg(2)] by blast
    qed
    then have "map_of (new_offsets (unat (pd_special pg)) (live_items pg)) i = None"
      by (simp only: map_of_eq_None_iff) simp
    then show ?thesis
      using rep(1) i(1) by (simp add: repaired_def in_page_def)
  qed
  have used: "ItemIdIsUsed (PageGetItemId pg i)" if "normal pg i \<or> redirect_item_at pg i" for i
    using that lp_flags_cases(1) by (auto simp: normal_def redirect_item_at_def)
  have n1: "normal pg2 i" if n: "normal pg i" for i
    using norm [OF n] cut(2) [of i] used [of i] n by (auto simp: normal_def ItemIdIsNormal_def)
  have n2: "normal pg i" if n: "normal pg2 i" for i
  proof (rule ccontr)
    assume "\<not> normal pg i"
    moreover have "in_page pg i"
      using n cut(1) by (simp add: normal_def)
    ultimately show False
      using other [of i] n by (auto simp: normal_def split: if_splits)
  qed
  show nn: "normal pg2 = normal pg"
    using n1 n2 by blast
  show "lp_len (PageGetItemId pg2 i) = lp_len (PageGetItemId pg i)" if "normal pg i"
    using norm [OF that] by auto
  show "tuple_of pg2 i = tuple_of pg i" if n: "normal pg i"
  proof -
    obtain a where "PageGetItemId pg2 i = (PageGetItemId pg i)\<lparr>lp_off := of_nat a\<rparr>" "a \<le> 8192" "header_at pg2 a = header_at pg (item_at pg i)"
      using norm [OF n] by blast
    then show ?thesis
      by (simp add: tuple_of_def PageGetItem_def item_at_def unat_of_nat_lt)
  qed
  show red: "redirect_item_at pg i \<Longrightarrow> PageGetItemId pg2 i = PageGetItemId pg i" for i
    using other [of i] used [of i] normal_not_redirect by (auto simp: redirect_item_at_def)
  show "redirect_item_at pg2 i \<longleftrightarrow> redirect_item_at pg i"
  proof
    assume r: "redirect_item_at pg2 i"
    then have "in_page pg i" "\<not> normal pg i"
      using cut(1) nn normal_not_redirect by (auto simp: redirect_item_at_def)
    then show "redirect_item_at pg i"
      using other [of i] r by (auto simp: redirect_item_at_def split: if_splits)
  next
    assume r: "redirect_item_at pg i"
    then show "redirect_item_at pg2 i"
      using red [OF r] cut(2) [of i] used [of i] by (simp add: redirect_item_at_def)
  qed
  show "lps_ok pg2"
    unfolding lps_ok_def
  proof (intro conjI allI impI)
    fix i assume i: "in_page pg2 i"
    show "ItemIdHasStorage (PageGetItemId pg2 i) = ItemIdIsNormal (PageGetItemId pg2 i)"
    proof (cases "normal pg i")
      case True
      then show ?thesis
        using norm [OF True] pg(2) by (auto simp: lps_ok_def normal_def ItemIdHasStorage_def ItemIdIsNormal_def)
    next
      case False
      then have "\<not> ItemIdHasStorage (PageGetItemId pg i)" "\<not> ItemIdIsNormal (PageGetItemId pg i)"
        using pg(2) cut(1) [OF i] by (auto simp: lps_ok_def normal_def)
      then show ?thesis
        using other [OF cut(1) [OF i] False] by (simp split: if_splits)
    qed
  next
    fix i assume "normal pg2 i"
    then show "24 \<le> unat (lp_len (PageGetItemId pg2 i))"
      using norm [of i] pg(2) nn by (auto simp: lps_ok_def)
  qed
qed
section \<open>The header of the page\<close>

definition only_header :: "page \<Rightarrow> page \<Rightarrow> bool" where
  "only_header pg pg' \<longleftrightarrow> body_kept pg pg' \<and> pd_lower pg' = pd_lower pg \<and> pd_upper pg' = pd_upper pg \<and> pd_special pg' = pd_special pg"

lemma only_header_refl [simp]: "only_header pg pg"
  by (simp add: only_header_def)

lemma only_header_trans: "only_header a b \<Longrightarrow> only_header b c \<Longrightarrow> only_header a c"
  using body_kept_trans by (auto simp: only_header_def)

lemma only_header_write:
  assumes "24 \<le> length pg" "a + length bs \<le> 24" "a + length bs \<le> 12 \<or> 18 \<le> a"
  shows "only_header pg (write_at pg a bs)"
proof -
  have "bytes_at (write_at pg a bs) b n = bytes_at pg b n" if "12 \<le> b" "b + n \<le> 18" for b n
    using assms that by (intro bytes_at_write_disjoint) auto
  from this [of 12 2] this [of 14 2] this [of 16 2] show ?thesis
    using body_kept_write [OF assms(1,2)]
    by (simp add: only_header_def pd_lower_def TupleStore.pd_upper_def pd_special_def bytes_at_def)
qed

lemma only_header_length: "only_header pg pg' \<Longrightarrow> length pg' = length pg"
  by (simp add: only_header_def body_kept_length)

lemma only_header_prune:
  assumes "24 \<le> length pg"
  shows "only_header pg (PageClearFull (set_pd_prune_xid x pg))" "only_header pg (PageSetLSN lsn pg)"
proof -
  have 1: "only_header pg (set_pd_prune_xid x pg)"
    using assms unfolding set_pd_prune_xid_def by (intro only_header_write) simp_all
  have "24 \<le> length (set_pd_prune_xid x pg)"
    using only_header_length [OF 1] assms by simp
  then show "only_header pg (PageClearFull (set_pd_prune_xid x pg))"
    unfolding PageClearFull_def set_pd_flags_def by (intro only_header_trans [OF 1] only_header_write) simp_all
  have 2: "only_header pg (write_at pg 0 (le_bytes 4 (ucast (drop_bit 32 lsn) :: uint32)))"
    using assms by (intro only_header_write) simp_all
  have "24 \<le> length (write_at pg 0 (le_bytes 4 (ucast (drop_bit 32 lsn) :: uint32)))"
    using only_header_length [OF 2] assms by simp
  then show "only_header pg (PageSetLSN lsn pg)"
    unfolding PageSetLSN_def by (intro only_header_trans [OF 2] only_header_write) simp_all
qed

text \<open>Two pages with the same line pointers and the same tuples.\<close>

definition same_items :: "page \<Rightarrow> page \<Rightarrow> bool" where
  "same_items pg pg' \<longleftrightarrow> in_page pg' = in_page pg \<and> (\<forall>i. in_page pg i \<longrightarrow> PageGetItemId pg' i = PageGetItemId pg i) \<and>
     (\<forall>i. normal pg i \<longrightarrow> tuple_of pg' i = tuple_of pg i \<and> page_tuple pg' i = page_tuple pg i)"

lemma same_items_facts:
  assumes "same_items pg pg'"
  shows "normal pg' = normal pg" "redirect_item_at pg' = redirect_item_at pg" "lps_ok pg \<Longrightarrow> lps_ok pg'"
    "redirects_ok pg \<Longrightarrow> redirects_ok pg'"
proof -
  have ip: "in_page pg' = in_page pg" and lp: "\<And>i. in_page pg i \<Longrightarrow> PageGetItemId pg' i = PageGetItemId pg i"
    and t: "\<And>i. normal pg i \<Longrightarrow> tuple_of pg' i = tuple_of pg i"
    using assms by (auto simp: same_items_def)
  show n: "normal pg' = normal pg" and r: "redirect_item_at pg' = redirect_item_at pg"
    using ip lp by (auto simp: normal_def redirect_item_at_def fun_eq_iff)
  show "lps_ok pg \<Longrightarrow> lps_ok pg'"
    using lp unfolding lps_ok_def n ip by (simp add: normal_def)
  show "redirects_ok pg \<Longrightarrow> redirects_ok pg'"
    using lp t unfolding redirects_ok_def n r heap_only_def by (simp add: redirect_item_at_def)
qed

lemma page_tuple_cong:
  assumes "PageGetItemId pg' i = PageGetItemId pg i" "drop (item_at pg i) pg' = drop (item_at pg i) pg"
  shows "page_tuple pg' i = page_tuple pg i"
proof -
  have "unat (ucast x :: uint16) = unat x" for x :: "15 word"
  proof -
    have "unat x < 2 ^ LENGTH(15)"
      by (rule unsigned_less)
    then show ?thesis
      by (simp add: unat_ucast_lt)
  qed
  with assms show ?thesis
    by (simp add: page_tuple_def tuple_at_def item_at_def)
qed

lemma only_header_items:
  assumes "only_header pg pg'" "page_wf pg" "lps_ok pg"
  shows "same_items pg pg'" "page_wf pg'"
proof -
  have b: "body_kept pg pg'" "pd_lower pg' = pd_lower pg" "pd_upper pg' = pd_upper pg" "pd_special pg' = pd_special pg"
    using assms(1) by (simp_all add: only_header_def)
  have m: "PageGetMaxOffsetNumber pg' = PageGetMaxOffsetNumber pg"
    using b by (simp add: PageGetMaxOffsetNumber_def)
  have lp: "PageGetItemId pg' i = PageGetItemId pg i" if "in_page pg i" for i
    using that body_kept_item [OF b(1)] by (simp add: in_page_def)
  have ip: "in_page pg' = in_page pg"
    by (simp add: in_page_def m fun_eq_iff)
  have "tuple_of pg' i = tuple_of pg i" "page_tuple pg' i = page_tuple pg i" if n: "normal pg i" for i
  proof -
    have l: "PageGetItemId pg' i = PageGetItemId pg i" and a: "24 \<le> item_at pg i"
      using n lp normal_bounds(1) [OF assms(2,3) n] page_wf_lower [OF assms(2)] by (simp_all add: normal_def)
    have "header_at pg' (item_at pg i) = header_at pg (item_at pg i)"
      using body_kept_bytes [OF b(1) a] by (rule header_at_cong)
    then show "tuple_of pg' i = tuple_of pg i"
      using l by (simp add: tuple_of_def PageGetItem_def item_at_def)
    have "drop (item_at pg i) pg' = drop (item_at pg i) pg"
      using body_kept_bytes [OF b(1) a, of "length pg"] body_kept_length [OF b(1)] by (simp add: bytes_at_def)
    then show "page_tuple pg' i = page_tuple pg i"
      by (rule page_tuple_cong [OF l])
  qed
  with lp ip show "same_items pg pg'"
    by (simp add: same_items_def)
  have "live_items pg' = live_items pg"
    using lp unfolding live_items_def items_of_def m
    by (intro map_cong filter_cong) (auto simp: in_page_def live_def)
  then show "page_wf pg'"
    using assms(2) b body_kept_length [OF b(1)] unfolding page_wf_def by simp
qed

lemma plan_page_tuple:
  assumes dp: "page_wf dp" "lps_ok dp" and set: "items_set dp (item_after dp P) pg" and n: "normal pg i"
  shows "page_tuple pg i = page_tuple dp i"
proof (rule page_tuple_cong)
  show "PageGetItemId pg i = PageGetItemId dp i"
    using plan_page(3) [OF dp set n] .
  have "unat (pd_lower dp) \<le> item_at dp i"
    using plan_page(2) [OF dp set] n normal_bounds(1) [OF dp] by blast
  then have "bytes_at pg (item_at dp i) (length dp) = bytes_at dp (item_at dp i) (length dp)" "length pg = length dp"
    using set by (simp_all add: items_set_def same_above_def)
  then show "drop (item_at dp i) pg = drop (item_at dp i) dp"
    by (simp add: bytes_at_def)
qed
section \<open>The pruned page\<close>

definition pruned :: "page \<Rightarrow> PruneState \<Rightarrow> page \<Rightarrow> bool" where
  "pruned dp P pg \<longleftrightarrow> page_wf pg \<and> lps_ok pg \<and> redirects_ok pg \<and> tuples_kept dp pg \<and>
     (\<forall>i. normal pg i \<longleftrightarrow> normal dp i \<and> i \<notin> removed P)"

text \<open>A backend with the same key reads the same bytes for every tuple that is left.\<close>

definition reads_same :: "('c, 'w) tde_env \<Rightarrow> RelFileLocator \<Rightarrow> block_number \<Rightarrow> (nat \<Rightarrow> byte) \<Rightarrow> page \<Rightarrow> page \<Rightarrow> bool" where
  "reads_same env rel bn st dp pg \<longleftrightarrow>
     (\<forall>relkind u q u1 E ready i. GetRelationKeys env rel u = (Inr q, u1) \<longrightarrow> session_ok (te_crypto env, E, ready, td_heap u1 ! q) \<longrightarrow>
        session_stream (te_crypto env, E, ready, td_heap u1 ! q) = st \<longrightarrow> relkind \<noteq> RELKIND_TOASTVALUE \<longrightarrow>
        normal pg i \<longrightarrow> t_hoff (t_bytes (page_tuple dp i)) = 24 \<longrightarrow>
        fst (PGTdeExecStoreBufferHeapTuple env relkind rel bn (page_tuple pg i) u) =
        fst (PGTdeExecStoreBufferHeapTuple env relkind rel bn (page_tuple dp i) u))"

lemma reads_same_items: "same_items pg pg' \<Longrightarrow> reads_same env rel bn st dp pg \<Longrightarrow> reads_same env rel bn st dp pg'"
  using same_items_facts(1) [of pg pg'] by (simp add: reads_same_def same_items_def)

lemma pruned_only_header:
  assumes "pruned dp P pg" "only_header pg pg'"
  shows "pruned dp P pg'" "same_items pg pg'"
proof -
  have pg: "page_wf pg" "lps_ok pg"
    using assms(1) by (simp_all add: pruned_def)
  note o = only_header_items [OF assms(2) pg]
  note s = same_items_facts [OF o(1)]
  show "same_items pg pg'"
    by (rule o(1))
  have "PageGetMaxOffsetNumber pg' = PageGetMaxOffsetNumber pg"
    using assms(2) by (simp add: only_header_def PageGetMaxOffsetNumber_def)
  moreover have "tuple_of pg' i = tuple_of pg i" if "normal pg i" for i
    using o(1) that by (simp add: same_items_def)
  ultimately show "pruned dp P pg'"
    using assms(1) o s pg by (simp add: pruned_def tuples_kept_def)
qed

lemma same_length_page:
  assumes "page_wf pg" "lps_ok pg" "\<And>i. normal pg i \<Longrightarrow> unat (lp_len (PageGetItemId pg i)) = len"
  shows "fits (live_items pg)" "\<forall>x\<in>set (live_items pg). item_len x = len" "live_items pg \<noteq> [] \<Longrightarrow> 24 \<le> len"
proof -
  have all: "item_len q = len \<and> 24 \<le> len" if q: "q \<in> set (live_items pg)" for q
  proof -
    let ?i = "offsetindex q + 1"
    have "in_page pg ?i"
      using live_items_lp(1) [OF q] by (simp add: in_page_def)
    then have n: "normal pg ?i"
      using live_items_lp(2) [OF q] live_normal [OF assms(2)] by blast
    have "item_len q = unat (lp_len (PageGetItemId pg ?i))"
      using arg_cong [OF live_items_lp(3) [OF q], of item_len] by (simp add: compact_item_def)
    then show ?thesis
      using assms(3) [OF n] assms(2) n unfolding lps_ok_def by metis
  qed
  then show l: "\<forall>x\<in>set (live_items pg). item_len x = len"
    by blast
  show "24 \<le> len" if "live_items pg \<noteq> []"
    using all [OF hd_in_set [OF that]] by blast
  show "fits (live_items pg)"
  proof (cases "live_items pg")
    case (Cons x xs)
    have 1: "item_len q = len \<and> len \<le> alignedlen q" if "q \<in> set (x # xs)" for q
      using all [of q] alignedlen_live [of q pg] that unfolding Cons by auto
    have 2: "24 \<le> len"
      using all [of x] unfolding Cons by simp
    have "\<forall>q\<in>set (x # xs). item_len q = len \<and> len \<le> alignedlen q"
      using 1 by (rule ballI)
    from same_length_fits [OF this 2] have "lengths_fit x xs" .
    then show ?thesis
      unfolding Cons fits_def by simp
  qed (simp add: fits_def)
qed

lemma execute_result:
  assumes keys: "GetRelationKeys env rel s = (Inr p, s1)" "session_ok (te_crypto env, E, ready, td_heap s1 ! p)"
    and dp: "page_wf dp" "lps_ok dp" "hot_ok xenv dp" and len: "\<And>i. normal dp i \<Longrightarrow> unat (lp_len (PageGetItemId dp i)) = len"
    and plan: "plan_exec dp P"
    and todo: "\<not> (redirected P = [] \<and> nowdead P = [] \<and> nowunused P = [])"
  obtains s2 pg where "pg_tde_page_prune_execute env rel bn (redirected P) (nowdead P) (nowunused P) (s, dp) = (Inr (), (s2, pg))"
    "pruned dp P pg" "reads_same env rel bn (session_stream (te_crypto env, E, ready, td_heap s1 ! p)) dp pg"
proof -
  let ?st = "session_stream (te_crypto env, E, ready, td_heap s1 ! p)"
  obtain pg2 where 2: "set_items (redirected P) (nowdead P) (nowunused P) dp = Inr pg2" "items_set dp (item_after dp P) pg2"
    by (rule set_items_result [OF dp(1,2) plan])
  note q = plan_page [OF dp(1,2) 2(2)] and r = plan_redirects [OF dp(3,1,2) plan 2(2)]
  have l2: "unat (lp_len (PageGetItemId pg2 i)) = len" if "normal pg2 i" for i
    using that len q(2,3) by simp
  note sl = same_length_page [OF q(7,5) l2]
  obtain s2 pg3 where 3: "TdePageRepairFragmentation env rel bn (s, pg2) = (Inr (), (s2, pg3))" "repaired ?st bn pg2 pg3" "lps_cut pg2 pg3"
    by (rule repair_result [OF keys q(7) sl(1)])
  note rp = repaired_page [OF 3(2,3) q(7,5) sl(1)] and wf = repaired_wf(1) [OF 3(2,3) q(7)]
  have ro: "redirects_ok pg3"
    unfolding redirects_ok_def
  proof (intro allI impI)
    fix i assume "redirect_item_at pg3 i"
    then have i: "redirect_item_at pg2 i" "PageGetItemId pg3 i = PageGetItemId pg2 i"
      using rp(4,5) by blast+
    then have "normal pg2 (ItemIdGetRedirect (PageGetItemId pg2 i))" "heap_only pg2 (ItemIdGetRedirect (PageGetItemId pg2 i))"
      using r(1) by (simp_all add: redirects_ok_def)
    then show "normal pg3 (ItemIdGetRedirect (PageGetItemId pg3 i)) \<and> heap_only pg3 (ItemIdGetRedirect (PageGetItemId pg3 i))"
      using rp(2,3) i(2) by (simp add: heap_only_def)
  qed
  have tk: "tuples_kept pg2 pg3"
    using rp(2,3,7) by (simp add: tuples_kept_def)
  have "pruned dp P pg3"
    using wf rp(1,2) ro tuples_kept_trans [OF r(2) tk] q(2) by (simp add: pruned_def)
  moreover have "reads_same env rel bn ?st dp pg3"
    unfolding reads_same_def
  proof (intro allI impI)
    fix relkind u q' u1 E' ready' i
    assume u: "GetRelationKeys env rel u = (Inr q', u1)" "session_ok (te_crypto env, E', ready', td_heap u1 ! q')"
      and st: "session_stream (te_crypto env, E', ready', td_heap u1 ! q') = ?st" and rk: "relkind \<noteq> RELKIND_TOASTVALUE"
      and n: "normal pg3 i" and h: "t_hoff (t_bytes (page_tuple dp i)) = 24"
    have n2: "normal pg2 i"
      using n rp(2) by simp
    then have ip: "in_page pg2 i" "live pg2 i"
      using live_normal [OF q(5), of i] by (simp_all add: normal_def)
    have e: "page_tuple pg2 i = page_tuple dp i"
      by (rule plan_page_tuple [OF dp(1,2) 2(2) n2])
    have i: "1 \<le> i" "i \<le> PageGetMaxOffsetNumber pg2"
      using ip(1) by (simp_all add: in_page_def)
    obtain x where "x \<in> set (live_items pg2)"
      by (rule live_tuple [OF i ip(2)])
    then have ne: "live_items pg2 \<noteq> []"
      by auto
    have len24: "24 \<le> len"
      using sl(3) ne by blast
    have h2: "t_hoff (t_bytes (page_tuple pg2 i)) = 24"
      unfolding e by (rule h)
    show "fst (PGTdeExecStoreBufferHeapTuple env relkind rel bn (page_tuple pg3 i) u) =
        fst (PGTdeExecStoreBufferHeapTuple env relkind rel bn (page_tuple dp i) u)"
      unfolding e [symmetric] by (rule same_length_kept(2) [OF 3(2) [folded st] q(7) u rk sl(2) len24 i ip(2) h2])
  qed
  moreover have "pg_tde_page_prune_execute env rel bn (redirected P) (nowdead P) (nowunused P) (s, dp) = (Inr (), (s2, pg3))"
    using todo 2(1) 3(1) redirects_ok_verify [OF ro rp(1)] by (auto simp: pg_tde_page_prune_execute_def)
  ultimately show thesis
    using that by blast
qed

end
