(* ===== verification/PruneSafety.thy ===== *)
theory PruneSafety
  imports PrunePage
begin

text \<open>
  What \<^verbatim>\<open>pg_tde_page_prune\<close> does to a page: which tuples it removes, that nothing a snapshot sees
  is among them, that the page it leaves can be pruned again, and that its WAL record repeats it.
\<close>

section \<open>One call\<close>

lemma plan_ok_start:
  assumes "redirected P = []" "nowdead P = []" "nowunused P = []" "\<And>i. \<not> marked P i"
  shows "plan_ok env dp {} P"
  using assms by (simp add: plan_ok_def plan_wf_def recorded_def)

lemma htsv_inv_start:
  assumes "prune_page_ok pe pg"
  shows "htsv_inv pe pg (prune_start xmin ts) {}
    \<lparr>hp_state = prune_start xmin ts, hp_page = pg, hp_dirty = d, hp_thresholds = thr\<rparr>"
  using assms by (simp add: htsv_inv_def same_lists_def horizon_plain_def prune_start_def prune_page_ok_def)

lemma plan_result:
  assumes pg: "prune_page_ok pe pg" and x: "\<And>i. xact_ok (at_item pe i)"
  obtains n P c where
    "htsv_items pe (rev [1..<Suc (PageGetMaxOffsetNumber pg)])
       \<lparr>hp_state = prune_start xmin ts, hp_page = pg, hp_dirty = d, hp_thresholds = thr\<rparr> = Inr c"
    "prune_scan pe (hp_page c) [1..<Suc (PageGetMaxOffsetNumber pg)] 0 (hp_state c) = Inr (n, P)"
    "hinted pg (hp_page c)" "\<And>i. normal pg i \<Longrightarrow> tuple_ok (at_item pe i) (tuple_of (hp_page c) i)"
    "plan_ok (at_scan pe) (hp_page c) {i. in_page (hp_page c) i} P"
    "\<And>i. normal pg i \<Longrightarrow> \<exists>r. htsv P i = Some r \<and> htsv_says pe i (tuple_of pg i) r"
    "n = length (nowunused P) + length (filter (normal (hp_page c)) (nowdead P @ map fst (redirected P)))"
proof -
  let ?n = "PageGetMaxOffsetNumber pg"
  have ok: "page_wf pg" "lps_ok pg" "hot_ok (at_scan pe) pg" "?n \<le> 291"
    using pg by (simp_all add: prune_page_ok_def hot_ok_def)
  note low = page_wf_lower [OF ok(1)]
  have offs: "\<forall>i\<in>set (rev [1..<Suc ?n]). in_page pg i" "set [1..<Suc ?n] = {i. in_page pg i}"
    by (auto simp: in_page_def)
  obtain c where c: "htsv_items pe (rev [1..<Suc ?n])
       \<lparr>hp_state = prune_start xmin ts, hp_page = pg, hp_dirty = d, hp_thresholds = thr\<rparr> = Inr c"
    "htsv_inv pe pg (prune_start xmin ts) ({} \<union> set (rev [1..<Suc ?n])) c"
    using htsv_items_result [OF ok(1,2,4) x htsv_inv_start [OF pg] offs(1) _ Int_empty_right, of xmin ts d thr]
    by (simp only: distinct_rev distinct_upt) blast
  note inv = c(2) [unfolded htsv_inv_def]
  let ?dp = "hp_page c" and ?P = "hp_state c"
  have h: "hinted pg ?dp"
    using inv by blast
  then have s: "same_lps pg ?dp"
    by (simp add: hinted_def)
  have page: "in_page ?dp = in_page pg" "normal ?dp = normal pg"
    using same_lps_fields(5) [OF s low] hinted_items(1) [OF h low] by simp_all
  have v: "if normal pg i then \<exists>r. htsv ?P i = Some r \<and> htsv_says pe i (tuple_of pg i) r else htsv ?P i = None"
    if "in_page pg i" for i
    using inv that offs(2) by auto
  have "htsv ?P i \<noteq> None \<longleftrightarrow> normal pg i" if "in_page pg i" for i
    using v [OF that] by (auto split: if_splits)
  then have hk: "htsv_ok ?dp (htsv ?P)"
    by (simp add: htsv_ok_def page)
  have e: "redirected ?P = []" "nowdead ?P = []" "nowunused ?P = []" "\<And>i. \<not> marked ?P i"
    using inv by (simp_all add: same_lists_def prune_start_def)
  have "\<forall>i\<in>set [1..<Suc ?n]. in_page ?dp i"
    unfolding page offs(2) by simp
  from prune_scan_result [OF hinted_hot_ok [OF h low ok(3)] hk plan_ok_start [OF e] this, of 0] e
  obtain n P where P: "prune_scan pe ?dp [1..<Suc ?n] 0 ?P = Inr (n, P)" "htsv P = htsv ?P"
    "plan_ok (at_scan pe) ?dp ({} \<union> set [1..<Suc ?n]) P"
    "n = length (nowunused P) + length (filter (normal ?dp) (nowdead P @ map fst (redirected P)))"
    by auto
  show thesis
  proof (rule that [OF c(1) P(1) h _ _ _ P(4)])
    show "tuple_ok (at_item pe i) (tuple_of ?dp i)" if "normal pg i" for i
      using inv that by blast
    show "plan_ok (at_scan pe) ?dp {i. in_page ?dp i} P"
      using P(3) unfolding offs(2) page by simp
    show "\<exists>r. htsv P i = Some r \<and> htsv_says pe i (tuple_of pg i) r" if n: "normal pg i" for i
    proof -
      have "in_page pg i"
        using n by (simp add: normal_def)
      from v [OF this] n show ?thesis
        unfolding P(2) by simp
    qed
  qed
qed

lemma nothing_removed: "redirected P = [] \<Longrightarrow> nowdead P = [] \<Longrightarrow> nowunused P = [] \<Longrightarrow> item_after dp P = PageGetItemId dp"
  by (simp add: item_after_def redirect_to_def fun_eq_iff)

lemma log_prune_page:
  "only_header pg (pw_page w) \<Longrightarrow> 24 \<le> length pg \<Longrightarrow> only_header pg (pw_page (log_prune rel P w))"
  using only_header_prune(2) [of "pw_page w"] only_header_length [of pg "pw_page w"]
  by (auto simp: log_prune_def Let_def intro: only_header_trans)

lemma apply_result:
  assumes keys: "GetRelationKeys env (rel_locator rel) (pw_tde w) = (Inr p, s1)" "session_ok (te_crypto env, E, ready, td_heap s1 ! p)"
    and dp: "page_wf (pw_page w)" "lps_ok (pw_page w)" "hot_ok xenv (pw_page w)"
    and len: "\<And>i. normal (pw_page w) i \<Longrightarrow> unat (lp_len (PageGetItemId (pw_page w) i)) = len"
    and plan: "plan_exec (pw_page w) P"
  obtains w' where "prune_apply env rel bn P w = (Inr (), w')" "pruned (pw_page w) P (pw_page w')"
    "reads_same env (rel_locator rel) bn (session_stream (te_crypto env, E, ready, td_heap s1 ! p)) (pw_page w) (pw_page w')"
    "pw_wal w' = pw_wal w @ (if RelationNeedsWAL rel \<and> removed P \<noteq> {} then [prune_record rel P] else [])"
proof (cases "redirected P = [] \<and> nowdead P = [] \<and> nowunused P = []")
  case False
  obtain s2 pg where x: "pg_tde_page_prune_execute env (rel_locator rel) bn (redirected P) (nowdead P) (nowunused P) (pw_tde w, pw_page w) = (Inr (), (s2, pg))"
    "pruned (pw_page w) P pg" "reads_same env (rel_locator rel) bn (session_stream (te_crypto env, E, ready, td_heap s1 ! p)) (pw_page w) pg"
    using execute_result [OF keys dp len plan False] by blast
  let ?w = "w\<lparr>pw_tde := s2, pw_page := PageClearFull (set_pd_prune_xid (new_prune_xid P) pg), pw_dirty := True\<rparr>"
  let ?w' = "log_prune rel P ?w"
  have l: "24 \<le> length pg"
    using x(2) page_wf_length by (simp add: pruned_def)
  have "only_header pg (pw_page ?w')"
    using log_prune_page [of pg ?w] only_header_prune(1) [OF l] l by simp
  note h = pruned_only_header [OF x(2) this]
  have wal: "pw_wal ?w' = pw_wal w @ (if RelationNeedsWAL rel \<and> removed P \<noteq> {} then [prune_record rel P] else [])"
    using False by (auto simp: log_prune_def removed_def Let_def)
  show thesis
    using x(1) False h(1) reads_same_items [OF h(2) x(3)] wal by (intro that [of ?w']) (auto simp: prune_apply_def)
next
  case True
  then have nil: "redirected P = []" "nowdead P = []" "nowunused P = []"
    by simp_all
  let ?dp = "pw_page w"
  have set: "items_set ?dp (item_after ?dp P) ?dp"
    unfolding nothing_removed [OF nil] by (rule items_set_refl)
  have "redirects_ok ?dp" "tuples_kept ?dp ?dp"
    using plan_redirects [OF dp(3,1,2) plan set] by simp_all
  then have pr: "pruned ?dp P ?dp"
    using dp nil by (simp add: pruned_def removed_def)
  have rs: "reads_same env (rel_locator rel) bn st ?dp ?dp" for st
    by (simp add: reads_same_def)
  have "removed P = {}"
    by (simp add: removed_def nil)
  then have wal: "pw_wal w = pw_wal w @ (if RelationNeedsWAL rel \<and> removed P \<noteq> {} then [prune_record rel P] else [])"
    by simp
  show thesis
  proof (cases "pd_prune_xid ?dp \<noteq> new_prune_xid P \<or> PageIsFull ?dp")
    case False
    then show ?thesis
      using nil pr rs wal by (intro that [of w]) (simp_all add: prune_apply_def)
  next
    case True
    let ?w' = "w\<lparr>pw_page := PageClearFull (set_pd_prune_xid (new_prune_xid P) ?dp), pw_dirty := True\<rparr>"
    have "24 \<le> length ?dp"
      using page_wf_length [OF dp(1)] by simp
    note h = pruned_only_header [OF pr only_header_prune(1) [OF this, of "new_prune_xid P"]]
    show ?thesis
      using nil True h(1) reads_same_items [OF h(2) rs] wal by (intro that [of ?w']) (simp_all add: prune_apply_def)
  qed
qed

lemma prune_result:
  assumes keys: "GetRelationKeys env (rel_locator rel) (pw_tde w) = (Inr p, s1)" "session_ok (te_crypto env, E, ready, td_heap s1 ! p)"
    and pg: "prune_page_ok pe (pw_page w)" and x: "\<And>i. xact_ok (at_item pe i)"
    and len: "\<And>i. normal (pw_page w) i \<Longrightarrow> unat (lp_len (PageGetItemId (pw_page w) i)) = len"
  obtains n P w' dp where "pg_tde_page_prune env pe rel bn xmin ts w = (Inr (n, length (nowdead P)), w')"
    "hinted (pw_page w) dp" "\<forall>i. normal (pw_page w) i \<longrightarrow> tuple_ok (at_item pe i) (tuple_of dp i)"
    "plan_ok (at_scan pe) dp {i. in_page dp i} P"
    "\<forall>i. normal (pw_page w) i \<longrightarrow> (\<exists>r. htsv P i = Some r \<and> htsv_says pe i (tuple_of (pw_page w) i) r)"
    "n = length (nowunused P) + length (filter (normal dp) (nowdead P @ map fst (redirected P)))"
    "pruned dp P (pw_page w')"
    "reads_same env (rel_locator rel) bn (session_stream (te_crypto env, E, ready, td_heap s1 ! p)) dp (pw_page w')"
    "pw_wal w' = pw_wal w @ (if RelationNeedsWAL rel \<and> removed P \<noteq> {} then [prune_record rel P] else [])"
proof -
  let ?pg = "pw_page w"
  obtain n P c where c:
    "htsv_items pe (rev [1..<Suc (PageGetMaxOffsetNumber ?pg)])
       \<lparr>hp_state = prune_start xmin ts, hp_page = ?pg, hp_dirty = pw_dirty w, hp_thresholds = pw_thresholds w\<rparr> = Inr c"
    "prune_scan pe (hp_page c) [1..<Suc (PageGetMaxOffsetNumber ?pg)] 0 (hp_state c) = Inr (n, P)"
    "hinted ?pg (hp_page c)" "\<forall>i. normal ?pg i \<longrightarrow> tuple_ok (at_item pe i) (tuple_of (hp_page c) i)"
    "plan_ok (at_scan pe) (hp_page c) {i. in_page (hp_page c) i} P"
    "\<forall>i. normal ?pg i \<longrightarrow> (\<exists>r. htsv P i = Some r \<and> htsv_says pe i (tuple_of ?pg i) r)"
    "n = length (nowunused P) + length (filter (normal (hp_page c)) (nowdead P @ map fst (redirected P)))"
    using plan_result [OF pg x, of xmin ts "pw_dirty w" "pw_thresholds w"] by metis
  have ok: "page_wf ?pg" "lps_ok ?pg" "hot_ok (at_scan pe) ?pg"
    using pg by (simp_all add: prune_page_ok_def)
  note low = page_wf_lower [OF ok(1)]
  have s: "same_lps ?pg (hp_page c)"
    using c(3) by (simp add: hinted_def)
  let ?w = "w\<lparr>pw_page := hp_page c, pw_dirty := hp_dirty c, pw_thresholds := hp_thresholds c, pw_tde := s1\<rparr>"
  have dp: "page_wf (pw_page ?w)" "lps_ok (pw_page ?w)" "hot_ok (at_scan pe) (pw_page ?w)" "plan_exec (pw_page ?w) P"
    using plan_ok_exec [OF c(5)] same_lps_items(4,5) [OF s low] ok hinted_hot_ok [OF c(3) low ok(3)] by simp_all
  have l: "unat (lp_len (PageGetItemId (pw_page ?w) i)) = len" if "normal (pw_page ?w) i" for i
    using that len [of i] hinted_items(1,3) [OF c(3) low] by simp
  have k: "GetRelationKeys env (rel_locator rel) (pw_tde ?w) = (Inr p, s1)"
    using GetRelationKeys_cached [OF keys(1)] by simp
  obtain w' where w': "prune_apply env rel bn P ?w = (Inr (), w')" "pruned (hp_page c) P (pw_page w')"
    "reads_same env (rel_locator rel) bn (session_stream (te_crypto env, E, ready, td_heap s1 ! p)) (hp_page c) (pw_page w')"
    "pw_wal w' = pw_wal w @ (if RelationNeedsWAL rel \<and> removed P \<noteq> {} then [prune_record rel P] else [])"
    using apply_result [OF k keys(2) dp(1-3) l dp(4), of bn] by auto
  have "pg_tde_page_prune env pe rel bn xmin ts w = (Inr (n, length (nowdead P)), w')"
    using c(1,2) keys(1) w'(1) by (simp add: pg_tde_page_prune_def Let_def crit_section_def)
  from that [OF this c(3,4,5,6,7) w'(2,3,4)] show thesis .
qed
section \<open>Hint bits and what is read\<close>

lemma hinted_doomed:
  assumes "hinted pg dp" "24 \<le> unat (pd_lower pg)"
  shows "doomed env dp h M i \<Longrightarrow> doomed env pg h M i"
proof (induction rule: doomed.induct)
  case (dead i)
  then show ?case
    using hinted_items(1) [OF assms] by (simp add: doomed.dead)
next
  case (before_dead i j)
  then show ?case
    using hinted_link(1) [OF assms] by (blast intro: doomed.before_dead)
qed

lemma normal_disjoint_len:
  assumes "page_wf pg" "lps_ok pg" "normal pg i" "normal pg j" "i \<noteq> j"
  shows "item_at pg i + unat (lp_len (PageGetItemId pg i)) \<le> item_at pg j \<or> item_at pg j + 24 \<le> item_at pg i"
proof -
  obtain p where p: "p \<in> set (live_items pg)" "offsetindex p + 1 = i" "itemoff p = item_at pg i"
    "item_len p = unat (lp_len (PageGetItemId pg i))" "item_len p \<le> alignedlen p"
    by (rule normal_item [OF assms(1-3)])
  obtain q where q: "q \<in> set (live_items pg)" "offsetindex q + 1 = j" "itemoff q = item_at pg j" "24 \<le> item_len q" "item_len q \<le> alignedlen q"
    by (rule normal_item [OF assms(1,2,4)])
  have "sorted_wrt (apart True) (live_items pg)"
    using assms(1) unfolding page_wf_def by blast
  moreover have "p \<noteq> q"
    using p(2) q(2) assms(5) by auto
  ultimately have "apart True p q \<or> apart True q p"
    by (rule sorted_wrt_pair [OF _ p(1) q(1)])
  then show ?thesis
    unfolding apart_def item_end_def using p(3-5) q(3-5) by linarith
qed

lemma normal_len:
  assumes "page_wf pg" "lps_ok pg" "normal pg i"
  shows "24 \<le> unat (lp_len (PageGetItemId pg i))" "item_at pg i + unat (lp_len (PageGetItemId pg i)) \<le> 8192"
  by (rule normal_item [OF assms]; linarith)+

lemma hinted_bytes:
  assumes "hinted pg dp" "page_wf pg" "lps_ok pg" "normal pg i"
    and k: "item_at pg i \<le> k" "k < item_at pg i + unat (lp_len (PageGetItemId pg i))"
      "k \<noteq> item_at pg i + 20" "k \<noteq> item_at pg i + 21"
  shows "dp ! k = pg ! k"
proof -
  have q: "item_at pg i + unat (lp_len (PageGetItemId pg i)) \<le> 8192"
    by (rule normal_len(2) [OF assms(2-4)])
  have "k \<noteq> item_at pg j + 20 \<and> k \<noteq> item_at pg j + 21" if j: "normal pg j" for j
  proof (cases "j = i")
    case True
    then show ?thesis
      using k(3,4) by simp
  next
    case False
    then have "item_at pg i + unat (lp_len (PageGetItemId pg i)) \<le> item_at pg j \<or> item_at pg j + 24 \<le> item_at pg i"
      by (intro normal_disjoint_len [OF assms(2,3,4) j]) simp
    then show ?thesis
      using k(1,2) by linarith
  qed
  moreover have "k < length pg"
    using k(2) q page_wf_length [OF assms(2)] by linarith
  ultimately show ?thesis
    using assms(1) unfolding hinted_def by blast
qed

text \<open>The same bytes, up to the two of the information bits.\<close>

definition same_up_to_hints :: "byte list \<Rightarrow> byte list \<Rightarrow> bool" where
  "same_up_to_hints b b' \<longleftrightarrow> length b' = length b \<and> take 20 b' = take 20 b \<and> drop 22 b' = drop 22 b"

lemma hinted_read:
  assumes h: "hinted pg dp" and pg: "page_wf pg" "lps_ok pg" "normal pg i"
    and u: "GetRelationKeys env rel u = (Inr q, u1)" "session_ok (te_crypto env, E, ready, td_heap u1 ! q)" "relkind \<noteq> RELKIND_TOASTVALUE"
    and hoff: "t_hoff (t_bytes (page_tuple pg i)) = 24"
  obtains l b b' where
    "fst (PGTdeExecStoreBufferHeapTuple env relkind rel bn (page_tuple pg i) u) = Inr (l, b)"
    "fst (PGTdeExecStoreBufferHeapTuple env relkind rel bn (page_tuple dp i) u) = Inr (l, b')"
    "same_up_to_hints b b'" "t_hoff (t_bytes (page_tuple dp i)) = 24"
proof -
  let ?a = "item_at pg i" and ?len = "unat (lp_len (PageGetItemId pg i))"
  let ?st = "session_stream (te_crypto env, E, ready, td_heap u1 ! q)"
  note low = page_wf_lower [OF pg(1)]
  have len: "24 \<le> ?len" "?a + ?len \<le> 8192" "?a \<le> 8192"
    using normal_len [OF pg] by linarith+
  have l: "length pg = 8192" "length dp = 8192"
    using page_wf_length [OF pg(1)] hinted_items(4) [OF h low] by simp_all
  have lp: "PageGetItemId dp i = PageGetItemId pg i"
    by (rule hinted_items(3) [OF h low pg(3)])
  have off: "lp_off (PageGetItemId pg i) = of_nat ?a"
    by (simp add: item_at_def)
  have t: "page_tuple pg i = tuple_at pg (of_nat ?a) ?len" "page_tuple dp i = tuple_at dp (of_nat ?a) ?len"
    using page_tuple_at [OF off len(3)] page_tuple_at [of dp i ?a] off len(3) by (simp_all add: lp)
  have bt: "t_bytes (tuple_at buf (of_nat ?a) ?len) = drop ?a buf" for buf
    using len by (simp add: tuple_at_def unat_of_nat_lt)
  have b: "dp ! (?a + k) = pg ! (?a + k)" if "k < ?len" "k \<noteq> 20" "k \<noteq> 21" for k
    using that by (intro hinted_bytes [OF h pg]) simp_all
  have hp: "t_hoff (bytes_at pg ?a 24) = 24"
    using hoff l len unfolding t bt by (simp add: t_hoff_def bytes_at_def)
  have hd: "t_hoff (bytes_at dp ?a 24) = 24"
    using hp b [of 22] l len by (simp add: t_hoff_def nth_bytes_at)
  have tail: "bytes_at dp (?a + 24) (?len - 24) = bytes_at pg (?a + 24) (?len - 24)"
  proof (rule nth_equalityI)
    fix k assume "k < length (bytes_at dp (?a + 24) (?len - 24))"
    then have "k < ?len - 24"
      using l len by simp
    then show "bytes_at dp (?a + 24) (?len - 24) ! k = bytes_at pg (?a + 24) (?len - 24) ! k"
      using b [of "24 + k"] l len by (simp add: nth_bytes_at add.assoc)
  qed (use l len in simp)
  have head: "take 20 (bytes_at dp ?a 24) = take 20 (bytes_at pg ?a 24)"
    using b l len by (intro nth_equalityI) (simp_all add: nth_bytes_at)
  have rest: "drop 22 (bytes_at dp ?a 24) = drop 22 (bytes_at pg ?a 24)"
    using b l len by (intro nth_equalityI) (simp_all add: nth_bytes_at add.assoc)
  have o: "(20 :: nat) \<le> 24" "(22 :: nat) \<le> 24"
    by simp_all
  note rp = read_tuple [OF u l(1) len(2) _ len(1) hp, of bn] and rd = read_tuple [OF u l(2) len(2) _ len(1) hd, of bn]
  show thesis
  proof (rule that [of "of_nat ?len" "bytes_at pg ?a 24 @ ctr_xor ?st (place bn ?a) (bytes_at pg (?a + 24) (?len - 24))"
        "bytes_at dp ?a 24 @ ctr_xor ?st (place bn ?a) (bytes_at dp (?a + 24) (?len - 24))"])
    show "fst (PGTdeExecStoreBufferHeapTuple env relkind rel bn (page_tuple pg i) u) =
      Inr (of_nat ?len, bytes_at pg ?a 24 @ ctr_xor ?st (place bn ?a) (bytes_at pg (?a + 24) (?len - 24)))"
      unfolding t by (rule rp) simp
    show "fst (PGTdeExecStoreBufferHeapTuple env relkind rel bn (page_tuple dp i) u) =
      Inr (of_nat ?len, bytes_at dp ?a 24 @ ctr_xor ?st (place bn ?a) (bytes_at dp (?a + 24) (?len - 24)))"
      unfolding t by (rule rd) simp
    show "same_up_to_hints (bytes_at pg ?a 24 @ ctr_xor ?st (place bn ?a) (bytes_at pg (?a + 24) (?len - 24)))
      (bytes_at dp ?a 24 @ ctr_xor ?st (place bn ?a) (bytes_at dp (?a + 24) (?len - 24)))"
      unfolding tail same_up_to_hints_def using head rest l len by (simp del: session_stream.simps)
    show "t_hoff (t_bytes (page_tuple dp i)) = 24"
      using hd l len unfolding t bt by (simp add: t_hoff_def bytes_at_def)
  qed
qed
section \<open>What is removed\<close>

lemma plan_removed:
  assumes "plan_ok env dp done P" "i \<in> removed P" "normal dp i"
  shows "doomed env dp (htsv P) (\<lambda>_. False) i"
proof (cases "i \<in> set (nowunused P)")
  case True
  then show ?thesis
    using assms(1) by (simp add: plan_ok_def)
next
  case False
  then have "root_item env dp (htsv P) i"
    using assms(1,2) unfolding plan_ok_def removed_def by blast
  then show ?thesis
    using normal_not_redirect [OF assms(3)] by (simp add: root_item_def)
qed

lemma plan_complete:
  assumes "plan_ok env dp {i. in_page dp i} P" "normal dp i" "i \<notin> removed P"
  shows "htsv P i = Some HEAPTUPLE_DEAD \<Longrightarrow> heap_only dp i"
  using assms unfolding plan_ok_def removed_def normal_def by blast

text \<open>The number that is returned is the number of tuples that went away.\<close>

lemma plan_counts:
  assumes "plan_ok env dp done P"
  shows "length (nowunused P) + length (filter (normal dp) (nowdead P @ map fst (redirected P))) = card {i. normal dp i \<and> i \<in> removed P}"
proof -
  have d: "distinct (nowunused P @ nowdead P @ map fst (redirected P))"
    using assms unfolding plan_ok_def plan_wf_def recorded_def by auto
  have u: "\<forall>i\<in>set (nowunused P). normal dp i"
    using assms doomed_normal unfolding plan_ok_def by blast
  let ?xs = "filter (normal dp) (nowunused P @ nowdead P @ map fst (redirected P))"
  have "filter (normal dp) (nowunused P) = nowunused P"
    using u by (simp add: filter_id_conv)
  then have "length (nowunused P) + length (filter (normal dp) (nowdead P @ map fst (redirected P))) = length ?xs"
    by simp
  also have "\<dots> = card (set ?xs)"
    using distinct_card [OF distinct_filter [OF d, of "normal dp"]] by simp
  also have "set ?xs = {i. normal dp i \<and> i \<in> removed P}"
    unfolding removed_def by auto
  finally show ?thesis .
qed

text \<open>
  (C9) Pruning removes only dead tuples and keeps the others readable: on a page that can be
  pruned, whose tuples have the same length and a header of 24 bytes, \<open>pg_tde_page_prune\<close>
  succeeds. A tuple that it removes is doomed: dead by the visibility check, or recently dead and
  followed in its update chain by a doomed version. Whoever reads a tuple that is left with the
  relation's key gets the bytes it had before, up to its hint bits, although it may lie elsewhere
  on the page and is encrypted for its new place.
\<close>

theorem prune_removes_only_doomed:
  assumes "GetRelationKeys env (rel_locator rel) (pw_tde w) = (Inr p, s1)" "session_ok (te_crypto env, E, ready, td_heap s1 ! p)"
    and "prune_page_ok pe (pw_page w)" and "\<And>i. xact_ok (at_item pe i)"
    and "\<And>i. normal (pw_page w) i \<Longrightarrow>
      unat (lp_len (PageGetItemId (pw_page w) i)) = len \<and> t_hoff (t_bytes (page_tuple (pw_page w) i)) = 24"
    and "GetRelationKeys env (rel_locator rel) u = (Inr q, u1)" "session_ok (te_crypto env, E, ready, td_heap u1 ! q)"
    and "key (key0 (td_heap u1 ! q)) = key (key0 (td_heap s1 ! p))" "relkind \<noteq> RELKIND_TOASTVALUE"
  shows "\<exists>n d w' h. pg_tde_page_prune env pe rel bn xmin ts w = (Inr (n, d), w') \<and>
    (\<forall>i. normal (pw_page w) i \<longrightarrow> (\<exists>r. h i = Some r \<and> htsv_says pe i (tuple_of (pw_page w) i) r)) \<and>
    (\<forall>i. normal (pw_page w) i \<and> \<not> normal (pw_page w') i \<longrightarrow> doomed (at_scan pe) (pw_page w) h (\<lambda>_. False) i) \<and>
    (\<forall>i. normal (pw_page w') i \<longrightarrow> normal (pw_page w) i \<and> (\<exists>l before after.
       fst (PGTdeExecStoreBufferHeapTuple env relkind (rel_locator rel) bn (page_tuple (pw_page w) i) u) = Inr (l, before) \<and>
       fst (PGTdeExecStoreBufferHeapTuple env relkind (rel_locator rel) bn (page_tuple (pw_page w') i) u) = Inr (l, after) \<and>
       same_up_to_hints before after))"
proof -
  let ?pg = "pw_page w"
  have pg: "page_wf ?pg" "lps_ok ?pg"
    using assms(3) by (simp_all add: prune_page_ok_def)
  note low = page_wf_lower [OF pg(1)]
  have len: "\<And>i. normal ?pg i \<Longrightarrow> unat (lp_len (PageGetItemId ?pg i)) = len"
    using assms(5) by blast
  obtain n P dp w' where r: "pg_tde_page_prune env pe rel bn xmin ts w = (Inr (n, length (nowdead P)), w')"
    "hinted ?pg dp" "\<forall>i. normal ?pg i \<longrightarrow> tuple_ok (at_item pe i) (tuple_of dp i)" "plan_ok (at_scan pe) dp {i. in_page dp i} P"
    "\<forall>i. normal ?pg i \<longrightarrow> (\<exists>r. htsv P i = Some r \<and> htsv_says pe i (tuple_of ?pg i) r)"
    "n = length (nowunused P) + length (filter (normal dp) (nowdead P @ map fst (redirected P)))" "pruned dp P (pw_page w')"
    "reads_same env (rel_locator rel) bn (session_stream (te_crypto env, E, ready, td_heap s1 ! p)) dp (pw_page w')"
    "pw_wal w' = pw_wal w @ (if RelationNeedsWAL rel \<and> removed P \<noteq> {} then [prune_record rel P] else [])"
    by (rule prune_result [OF assms(1-4) len, where bn = bn and xmin = xmin and ts = ts])
  have n: "normal dp = normal ?pg"
    by (rule hinted_items(1) [OF r(2) low])
  have norm: "normal (pw_page w') i \<longleftrightarrow> normal ?pg i \<and> i \<notin> removed P" for i
    using r(7) unfolding pruned_def n by blast
  have st: "session_stream (te_crypto env, E, ready, td_heap u1 ! q) = session_stream (te_crypto env, E, ready, td_heap s1 ! p)"
    using assms(8) by simp
  have gone: "doomed (at_scan pe) ?pg (htsv P) (\<lambda>_. False) i" if "normal ?pg i" "\<not> normal (pw_page w') i" for i
    using plan_removed [OF r(4), of i] that norm hinted_doomed [OF r(2) low] unfolding n by blast
  have kept: "\<exists>l before after.
       fst (PGTdeExecStoreBufferHeapTuple env relkind (rel_locator rel) bn (page_tuple ?pg i) u) = Inr (l, before) \<and>
       fst (PGTdeExecStoreBufferHeapTuple env relkind (rel_locator rel) bn (page_tuple (pw_page w') i) u) = Inr (l, after) \<and>
       same_up_to_hints before after" if k: "normal (pw_page w') i" for i
  proof -
    have i: "normal ?pg i" "t_hoff (t_bytes (page_tuple ?pg i)) = 24"
      using k norm assms(5) by blast+
    obtain l b b' where rd:
      "fst (PGTdeExecStoreBufferHeapTuple env relkind (rel_locator rel) bn (page_tuple ?pg i) u) = Inr (l, b)"
      "fst (PGTdeExecStoreBufferHeapTuple env relkind (rel_locator rel) bn (page_tuple dp i) u) = Inr (l, b')"
      "same_up_to_hints b b'" "t_hoff (t_bytes (page_tuple dp i)) = 24"
      by (rule hinted_read [OF r(2) pg i(1) assms(6,7,9) i(2)])
    have "fst (PGTdeExecStoreBufferHeapTuple env relkind (rel_locator rel) bn (page_tuple (pw_page w') i) u) = Inr (l, b')"
      using r(8) assms(6,7,9) st k rd(4) unfolding reads_same_def rd(2) [symmetric] by blast
    with rd(1,3) show ?thesis
      by blast
  qed
  show ?thesis
    using r(1,5) gone kept norm by blast
qed
section \<open>What a snapshot sees\<close>

text \<open>
  Whoever updates a tuple has seen its insertion, so a snapshot that regards the updater as finished
  regards the inserter as finished.
\<close>

definition snapshot_closed :: "xact_env \<Rightarrow> Snapshot \<Rightarrow> HeapTupleHeader \<Rightarrow> bool" where
  "snapshot_closed env snapshot t \<longleftrightarrow>
     (ended_committed env (updater env t) \<and> \<not> XidInMVCCSnapshot snapshot (updater env t) \<longrightarrow>
      \<not> XidInMVCCSnapshot snapshot (HeapTupleHeaderGetXmin t))"

text \<open>Why a doomed tuple is out of sight: it was never there, or its update is in the snapshot.\<close>

definition out_of_sight :: "xact_env \<Rightarrow> Snapshot \<Rightarrow> HeapTupleHeader \<Rightarrow> bool" where
  "out_of_sight env snapshot t \<longleftrightarrow>
     gone env (t_xmin t) \<and> \<not> HeapTupleHeaderXminFrozen t \<or>
     ended_committed env (updater env t) \<and> \<not> XidInMVCCSnapshot snapshot (updater env t)"

lemma out_of_sight_invisible: "out_of_sight env snapshot t \<Longrightarrow> \<not> mvcc_visible env snapshot t"
  using gone_not_in_effect [of env "t_xmin t"]
  by (auto simp: out_of_sight_def mvcc_visible_def ended_committed_def) (simp_all add: in_effect_def)

lemma horizon_cases:
  assumes env: "xact_ok env" and t: "tuple_ok env (vt s)" and r: "HeapTupleSatisfiesVacuumHorizon env s = ((res, x), s')"
  shows "res = HEAPTUPLE_DEAD \<Longrightarrow> gone env (t_xmin (vt s)) \<and> \<not> HeapTupleHeaderXminFrozen (vt s)"
    "res = HEAPTUPLE_RECENTLY_DEAD \<Longrightarrow> x = updater env (vt s) \<and> ended_committed env x"
proof -
  obtain p u where x: "Vacuum_xmin env s = (p, u)"
    by fastforce
  note g = Vacuum_xmin_step [OF t x]
  note sel = good_step_sel [OF env g]
  have later: "Vacuum_xmax env u = ((res, x), s')" if "p = None"
    using that r x by (simp add: HeapTupleSatisfiesVacuumHorizon_def vis_then_def)
  have first: "p = Some (res, x) \<and> u = s'" if "p \<noteq> None"
    using that r x by (auto simp: HeapTupleSatisfiesVacuumHorizon_def vis_then_def)
  show "gone env (t_xmin (vt s)) \<and> \<not> HeapTupleHeaderXminFrozen (vt s)" if d: "res = HEAPTUPLE_DEAD"
  proof -
    have "p \<noteq> None"
    proof
      assume "p = None"
      from later [OF this] d Vacuum_xmax_never_dead [of env u x s'] show False
        by simp
    qed
    from first [OF this] x d have "Vacuum_xmin env s = (Some (HEAPTUPLE_DEAD, x), s')"
      by simp
    then show ?thesis
      by (rule Vacuum_xmin_dead [OF env t])
  qed
  show "x = updater env (vt s) \<and> ended_committed env x" if d: "res = HEAPTUPLE_RECENTLY_DEAD"
  proof -
    have "p = None"
    proof (rule ccontr)
      assume "p \<noteq> None"
      from first [OF this] x d Vacuum_xmin_recently [of env s x s'] show False
        by simp
    qed
    from later [OF this] d have "Vacuum_xmax env u = ((HEAPTUPLE_RECENTLY_DEAD, x), s')"
      by simp
    from Vacuum_xmax_dead [OF env sel(7) this] show ?thesis
      unfolding sel(2) .
  qed
qed

lemma htsv_out_of_sight:
  assumes env: "xact_ok env" "at_item pe i = env" and t: "tuple_ok env t"
    and h: "horizon_ok env snapshot (GlobalVisTestIsRemovableXid pe i)" "\<not> OldSnapshotThresholdActive pe"
    and says: "htsv_says pe i t r"
  shows "r = HEAPTUPLE_DEAD \<Longrightarrow> out_of_sight env snapshot t"
    "r = HEAPTUPLE_RECENTLY_DEAD \<Longrightarrow> ended_committed env (updater env t)"
proof -
  obtain res x s' where v: "HeapTupleSatisfiesVacuumHorizon env \<lparr>vt = t, hint_dirty = False\<rparr> = ((res, x), s')"
    by (metis prod.exhaust)
  have t': "tuple_ok env (vt \<lparr>vt = t, hint_dirty = False\<rparr>)"
    using t by simp
  note c = horizon_cases [OF env(1) t' v, simplified]
  have "if res \<noteq> HEAPTUPLE_RECENTLY_DEAD then r = res
    else (r = HEAPTUPLE_DEAD \<or> r = HEAPTUPLE_RECENTLY_DEAD) \<and> (r = HEAPTUPLE_DEAD \<longrightarrow> GlobalVisTestIsRemovableXid pe i x)"
    using says h(2) unfolding htsv_says_def env(2) v by (auto split: if_splits)
  then show "r = HEAPTUPLE_DEAD \<Longrightarrow> out_of_sight env snapshot t" "r = HEAPTUPLE_RECENTLY_DEAD \<Longrightarrow> ended_committed env (updater env t)"
    using c h(1) by (auto simp: out_of_sight_def horizon_ok_def split: if_splits)
qed

lemma hot_updated_updater:
  assumes "HeapTupleHeaderIsHotUpdated t" "xact_ok env" "ended_committed env (updater env t)"
  shows "HeapTupleHeaderGetUpdateXid env t = updater env t" "updater env t \<noteq> 0"
proof -
  have no_lock: "\<not> HEAP_XMAX_IS_LOCKED_ONLY (t_infomask t)"
    using assms(2,3) by (auto simp: updater_def ended_committed_def xact_ok_def gone_def)
  then have "\<not> has HEAP_XMAX_LOCK_ONLY t"
    by (simp add: HEAP_XMAX_IS_LOCKED_ONLY_def has_def)
  with no_lock assms(1) show "HeapTupleHeaderGetUpdateXid env t = updater env t"
    by (simp add: HeapTupleHeaderGetUpdateXid_def updater_def HeapTupleHeaderIsHotUpdated_def)
  show "updater env t \<noteq> 0"
    using assms(2,3) by (auto simp: ended_committed_def xact_ok_def gone_def)
qed

lemma doomed_out_of_sight:
  assumes env: "xact_ok env" "\<And>i. at_item pe i = env" "at_scan pe = env"
    and h: "\<And>i. horizon_ok env snapshot (GlobalVisTestIsRemovableXid pe i)" "\<not> OldSnapshotThresholdActive pe"
    and t: "\<And>i. normal pg i \<Longrightarrow> tuple_ok env (tuple_of pg i)"
    and says: "\<And>i. normal pg i \<Longrightarrow> \<exists>r. v i = Some r \<and> htsv_says pe i (tuple_of pg i) r"
    and closed: "\<And>i. normal pg i \<Longrightarrow> snapshot_closed env snapshot (tuple_of pg i)"
  shows "doomed (at_scan pe) pg v M i \<Longrightarrow> out_of_sight env snapshot (tuple_of pg i)"
proof (induction rule: doomed.induct)
  case (dead i)
  then show ?case
    using htsv_out_of_sight(1) [OF env(1,2) t h] says by fastforce
next
  case (before_dead i j)
  have n: "normal pg i" "normal pg j" and hot: "HeapTupleHeaderIsHotUpdated (tuple_of pg i)"
    using before_dead(1) unfolding hot_link_def by blast+
  have e: "ended_committed env (updater env (tuple_of pg i))"
    using htsv_out_of_sight(2) [OF env(1,2) t h] says [OF n(1)] n(1) before_dead(3) by fastforce
  note u = hot_updated_updater [OF hot env(1) e]
  have x: "HeapTupleHeaderGetXmin (tuple_of pg j) = updater env (tuple_of pg i)"
    using before_dead(1) u unfolding hot_link_def env(3) by metis
  have "\<not> gone env (updater env (tuple_of pg i))"
    using e by (simp add: gone_def ended_committed_def)
  then have "\<not> (gone env (t_xmin (tuple_of pg j)) \<and> \<not> HeapTupleHeaderXminFrozen (tuple_of pg j))"
    unfolding x [symmetric]
    by (cases "HeapTupleHeaderXminFrozen (tuple_of pg j)") (simp_all add: HeapTupleHeaderGetXmin_def)
  with before_dead.IH have "ended_committed env (updater env (tuple_of pg j)) \<and> \<not> XidInMVCCSnapshot snapshot (updater env (tuple_of pg j))"
    by (simp add: out_of_sight_def)
  with closed [OF n(2)] have "\<not> XidInMVCCSnapshot snapshot (updater env (tuple_of pg i))"
    by (simp add: snapshot_closed_def x)
  with e show ?case
    by (simp add: out_of_sight_def)
qed

text \<open>The MVCC check of a tuple of the page.\<close>

definition sees :: "xact_env \<Rightarrow> Snapshot \<Rightarrow> page \<Rightarrow> nat \<Rightarrow> bool" where
  "sees env snapshot pg i \<longleftrightarrow> normal pg i \<and> fst (HeapTupleSatisfiesMVCC env snapshot \<lparr>vt = tuple_of pg i, hint_dirty = False\<rparr>)"

lemma sees_visible:
  assumes "xact_ok env" "snapshot_ok env snapshot" "tuple_ok env (tuple_of pg i)"
  shows "sees env snapshot pg i \<longleftrightarrow> normal pg i \<and> mvcc_visible env snapshot (tuple_of pg i)"
proof -
  obtain b s' where r: "HeapTupleSatisfiesMVCC env snapshot \<lparr>vt = tuple_of pg i, hint_dirty = False\<rparr> = (b, s')"
    by fastforce
  have t: "tuple_ok env (vt \<lparr>vt = tuple_of pg i, hint_dirty = False\<rparr>)"
    using assms(3) by simp
  have g: "b = mvcc_visible env snapshot (tuple_of pg i)"
    using MVCC_visible [OF assms(1,2) t r] by simp
  show ?thesis
    by (simp add: sees_def r g)
qed

lemma hint_step_visible:
  assumes "xact_ok env" "hint_step t u" "tuple_ok env u"
  shows "mvcc_visible env snapshot u = mvcc_visible env snapshot t"
proof -
  have "good_step env \<lparr>vt = t, hint_dirty = False\<rparr> \<lparr>vt = u, hint_dirty = False\<rparr>"
    using assms(2,3) by (simp add: good_step_def hint_step_def)
  from good_step_sel(1) [OF assms(1) this] show ?thesis
    by simp
qed

text \<open>
  (C8) Pruning is invisible to every snapshot that the removal horizon covers, on a page whose stored
  tuples all have the same length and with \<^verbatim>\<open>old_snapshot_threshold\<close> off (for other lengths the
  defragmentation may change the header of a neighbour, \<open>longer_item_overwrites\<close>): with the states of
  the transactions fixed, the MVCC check of such a snapshot accepts the same line pointers on the
  page before and after \<open>pg_tde_page_prune\<close>, although whole update chains may be gone.
\<close>

theorem prune_keeps_visible_tuples:
  assumes "GetRelationKeys env (rel_locator rel) (pw_tde w) = (Inr p, s1)" "session_ok (te_crypto env, E, ready, td_heap s1 ! p)"
    and "prune_page_ok pe (pw_page w)" "\<And>i. normal (pw_page w) i \<Longrightarrow> unat (lp_len (PageGetItemId (pw_page w) i)) = len"
    and "xact_ok xe" "\<And>i. at_item pe i = xe" "at_scan pe = xe" "snapshot_ok xe snapshot"
    and "\<And>i. horizon_ok xe snapshot (GlobalVisTestIsRemovableXid pe i)" "\<not> OldSnapshotThresholdActive pe"
    and "\<And>i. normal (pw_page w) i \<Longrightarrow> snapshot_closed xe snapshot (tuple_of (pw_page w) i)"
  shows "\<exists>n d w'. pg_tde_page_prune env pe rel bn xmin ts w = (Inr (n, d), w') \<and>
    {i. sees xe snapshot (pw_page w') i} = {i. sees xe snapshot (pw_page w) i}"
proof -
  let ?pg = "pw_page w"
  have pg: "page_wf ?pg" and t: "\<And>i. normal ?pg i \<Longrightarrow> tuple_ok xe (tuple_of ?pg i)"
    using assms(3,6) by (auto simp: prune_page_ok_def)
  note low = page_wf_lower [OF pg]
  have x: "\<And>i. xact_ok (at_item pe i)"
    by (simp add: assms(5,6))
  obtain n P w' dp where r: "pg_tde_page_prune env pe rel bn xmin ts w = (Inr (n, length (nowdead P)), w')"
    "hinted ?pg dp" "\<forall>i. normal ?pg i \<longrightarrow> tuple_ok (at_item pe i) (tuple_of dp i)" "plan_ok (at_scan pe) dp {i. in_page dp i} P"
    "\<forall>i. normal ?pg i \<longrightarrow> (\<exists>r. htsv P i = Some r \<and> htsv_says pe i (tuple_of ?pg i) r)"
    "n = length (nowunused P) + length (filter (normal dp) (nowdead P @ map fst (redirected P)))" "pruned dp P (pw_page w')"
    "reads_same env (rel_locator rel) bn (session_stream (te_crypto env, E, ready, td_heap s1 ! p)) dp (pw_page w')"
    "pw_wal w' = pw_wal w @ (if RelationNeedsWAL rel \<and> removed P \<noteq> {} then [prune_record rel P] else [])"
    by (rule prune_result [OF assms(1-3) x assms(4), where bn = bn and xmin = xmin and ts = ts])
  have n: "normal dp = normal ?pg"
    by (rule hinted_items(1) [OF r(2) low])
  have norm: "normal (pw_page w') i \<longleftrightarrow> normal ?pg i \<and> i \<notin> removed P" for i
    using r(7) unfolding pruned_def n by blast
  have left: "tuple_ok xe (tuple_of (pw_page w') i)"
    "mvcc_visible xe snapshot (tuple_of (pw_page w') i) = mvcc_visible xe snapshot (tuple_of ?pg i)" if "normal (pw_page w') i" for i
  proof -
    have i: "normal ?pg i" "tuple_of (pw_page w') i = tuple_of dp i"
      using that norm r(7) unfolding pruned_def tuples_kept_def by blast+
    then show "tuple_ok xe (tuple_of (pw_page w') i)"
      using r(3) assms(6) by simp
    then show "mvcc_visible xe snapshot (tuple_of (pw_page w') i) = mvcc_visible xe snapshot (tuple_of ?pg i)"
      using hint_step_visible [OF assms(5)] r(2) i by (simp add: hinted_def)
  qed
  have gone: "\<not> mvcc_visible xe snapshot (tuple_of ?pg i)" if "normal ?pg i" "i \<in> removed P" for i
  proof -
    have "doomed (at_scan pe) ?pg (htsv P) (\<lambda>_. False) i"
      using plan_removed [OF r(4) that(2)] that(1) hinted_doomed [OF r(2) low] unfolding n by blast
    from doomed_out_of_sight [OF assms(5-7,9,10) t _ assms(11) this] r(5) show ?thesis
      using out_of_sight_invisible by blast
  qed
  have "sees xe snapshot (pw_page w') i = sees xe snapshot ?pg i" for i
  proof (cases "normal (pw_page w') i")
    case True
    then show ?thesis
      using sees_visible [OF assms(5,8)] left [OF True] t [of i] norm by simp
  next
    case False
    then show ?thesis
      using sees_visible [OF assms(5,8) t, of i] gone [of i] norm by (auto simp: sees_def)
  qed
  with r(1) show ?thesis
    by blast
qed
section \<open>The page that is left\<close>

text \<open>
  (C11) Pruning leaves a page that can be pruned again, when the stored tuples of the page all have the
  same length (see \<open>longer_item_overwrites\<close> for others): the page is well formed, its line pointers
  and chains make sense, every redirect leads to a stored heap-only tuple and the hint bits are
  right. The first result counts the tuples that went away, and of the tuples that the visibility
  check found dead only heap-only ones may be left.
\<close>

theorem pruned_page_can_be_pruned_again:
  assumes "GetRelationKeys env (rel_locator rel) (pw_tde w) = (Inr p, s1)" "session_ok (te_crypto env, E, ready, td_heap s1 ! p)"
    and "prune_page_ok pe (pw_page w)" and "\<And>i. xact_ok (at_item pe i)"
    and "\<And>i. normal (pw_page w) i \<Longrightarrow> unat (lp_len (PageGetItemId (pw_page w) i)) = len"
  shows "\<exists>n d w'. pg_tde_page_prune env pe rel bn xmin ts w = (Inr (n, d), w') \<and>
    prune_page_ok pe (pw_page w') \<and> page_verify_redirects (pw_page w') \<and>
    n = card {i. normal (pw_page w) i \<and> \<not> normal (pw_page w') i} \<and>
    (\<forall>i. normal (pw_page w') i \<and> (\<forall>r. htsv_says pe i (tuple_of (pw_page w) i) r \<longrightarrow> r = HEAPTUPLE_DEAD) \<longrightarrow>
       heap_only (pw_page w) i)"
proof -
  let ?pg = "pw_page w"
  have pg: "page_wf ?pg" "hot_ok (at_scan pe) ?pg"
    using assms(3) by (simp_all add: prune_page_ok_def)
  note low = page_wf_lower [OF pg(1)]
  obtain n P w' dp where r: "pg_tde_page_prune env pe rel bn xmin ts w = (Inr (n, length (nowdead P)), w')"
    "hinted ?pg dp" "\<forall>i. normal ?pg i \<longrightarrow> tuple_ok (at_item pe i) (tuple_of dp i)" "plan_ok (at_scan pe) dp {i. in_page dp i} P"
    "\<forall>i. normal ?pg i \<longrightarrow> (\<exists>r. htsv P i = Some r \<and> htsv_says pe i (tuple_of ?pg i) r)"
    "n = length (nowunused P) + length (filter (normal dp) (nowdead P @ map fst (redirected P)))" "pruned dp P (pw_page w')"
    "reads_same env (rel_locator rel) bn (session_stream (te_crypto env, E, ready, td_heap s1 ! p)) dp (pw_page w')"
    "pw_wal w' = pw_wal w @ (if RelationNeedsWAL rel \<and> removed P \<noteq> {} then [prune_record rel P] else [])"
    by (rule prune_result [OF assms, where bn = bn and xmin = xmin and ts = ts])
  have n: "normal dp = normal ?pg"
    by (rule hinted_items(1) [OF r(2) low])
  have pr: "page_wf (pw_page w')" "lps_ok (pw_page w')" "redirects_ok (pw_page w')" "tuples_kept dp (pw_page w')"
    and norm: "\<And>i. normal (pw_page w') i \<longleftrightarrow> normal ?pg i \<and> i \<notin> removed P"
    using r(7) unfolding pruned_def n by blast+
  have tup: "tuple_of (pw_page w') i = tuple_of dp i" if "normal (pw_page w') i" for i
    using pr(4) that by (simp add: tuples_kept_def)
  have ok: "prune_page_ok pe (pw_page w')"
    unfolding prune_page_ok_def
  proof (intro conjI allI impI)
    show "hot_ok (at_scan pe) (pw_page w')"
      by (rule tuples_kept_hot_ok [OF hinted_hot_ok [OF r(2) low pg(2)] pr(4,3)])
    show "tuple_ok (at_item pe i) (tuple_of (pw_page w') i)" if i: "normal (pw_page w') i" for i
      using r(3) i norm unfolding tup [OF i] by blast
  qed (use pr in blast)+
  have "{i. normal dp i \<and> i \<in> removed P} = {i. normal ?pg i \<and> \<not> normal (pw_page w') i}"
    using norm unfolding n by blast
  then have count: "n = card {i. normal ?pg i \<and> \<not> normal (pw_page w') i}"
    using r(6) plan_counts [OF r(4)] by simp
  have "heap_only ?pg i" if i: "normal (pw_page w') i" and d: "\<forall>r. htsv_says pe i (tuple_of ?pg i) r \<longrightarrow> r = HEAPTUPLE_DEAD" for i
  proof -
    have "normal ?pg i" "i \<notin> removed P"
      using i norm by blast+
    moreover from this(1) have "htsv P i = Some HEAPTUPLE_DEAD"
      using r(5) d by metis
    ultimately have "heap_only dp i"
      using plan_complete [OF r(4)] unfolding n by blast
    then show ?thesis
      using hinted_link(3) [OF r(2) low \<open>normal ?pg i\<close>] by simp
  qed
  with r(1) ok count redirects_ok_verify [OF pr(3,2)] show ?thesis
    by blast
qed
section \<open>Replay\<close>

lemma plan_exec_hinted:
  assumes h: "hinted pg dp" "24 \<le> unat (pd_lower pg)" and plan: "plan_exec dp P"
  shows "plan_exec pg P"
proof -
  have s: "same_lps pg dp"
    using h(1) by (simp add: hinted_def)
  have n: "normal dp = normal pg" and r: "redirect_item_at dp = redirect_item_at pg" and ip: "in_page dp = in_page pg"
    using same_lps_items(2,3) [OF s h(2)] same_lps_fields(5) [OF s h(2)] by simp_all
  have lp: "PageGetItemId dp i = PageGetItemId pg i" if "redirect_item_at pg i" for i
    using that same_lps_item [OF s h(2)] by (simp add: redirect_item_at_def)
  have ho: "heap_only dp i = heap_only pg i" if "normal pg i" for i
    using hinted_link(3) [OF h that] .
  note p = plan [unfolded plan_exec_def n r]
  show ?thesis
    unfolding plan_exec_def
  proof (intro conjI)
    show "plan_wf pg P"
      using p unfolding plan_wf_def ip by blast
    show "\<forall>u\<in>set (nowunused P). normal pg u \<and> heap_only pg u" "\<forall>y\<in>set (map snd (redirected P)). normal pg y \<and> heap_only pg y"
      "\<forall>x\<in>set (nowdead P @ map fst (redirected P)). redirect_item_at pg x \<or> normal pg x \<and> \<not> heap_only pg x"
      using p ho by blast+
    show "\<forall>(x, y)\<in>set (redirected P). redirect_item_at pg x \<longrightarrow> ItemIdGetRedirect (PageGetItemId pg x) \<in> set (nowunused P)"
      using p lp by (metis (no_types, lifting) case_prodD case_prodI2)
    show "\<forall>i. redirect_item_at pg i \<longrightarrow> i \<in> set (nowdead P @ map fst (redirected P)) \<or>
        (\<exists>t. redirect_link pg i t \<and> t \<notin> set (nowunused P))"
      using p hinted_link(2) [OF h] by blast
  qed
qed

lemma pairs_of_concat [simp]: "pairs_of (concat (map (\<lambda>(f, t). [f, t]) rs)) = rs"
  by (induction rs) auto

lemma length_concat_pairs [simp]: "length (concat (map (\<lambda>(f, t). [f, t]) rs)) = length rs * 2"
  by (induction rs) auto

lemma unat_of_nats: "\<forall>x\<in>set xs. x \<le> 291 \<Longrightarrow> map (\<lambda>x. unat (of_nat x :: uint16)) xs = xs"
  by (induction xs) (auto simp: unat_of_nat_lt)

lemma plan_lengths:
  assumes "plan_wf dp P" "hot_ok env dp"
  shows "length (recorded P) \<le> 291" "\<forall>x\<in>set (recorded P). x \<le> 291"
proof -
  have r: "set (recorded P) \<subseteq> {1..PageGetMaxOffsetNumber dp}" "distinct (recorded P)"
    using assms(1) by (auto simp: plan_wf_def in_page_def)
  have m: "PageGetMaxOffsetNumber dp \<le> 291"
    using assms(2) by (simp add: hot_ok_def)
  have "length (recorded P) \<le> PageGetMaxOffsetNumber dp"
    using card_mono [OF _ r(1)] distinct_card [OF r(2)] by simp
  then show "length (recorded P) \<le> 291"
    using m by linarith
  show "\<forall>x\<in>set (recorded P). x \<le> 291"
    using r(1) m by fastforce
qed

text \<open>The replay takes the three lists from the record as they were.\<close>

lemma redo_is_execute:
  assumes "plan_wf dp P" "hot_ok env dp"
  shows "pg_tde_xlog_prune tenv loc bn (prune_record rel P) lsn BLK_NEEDS_REDO sp =
    (case pg_tde_page_prune_execute tenv loc bn (redirected P) (nowdead P) (nowunused P) sp of
       (Inl e, sp) \<Rightarrow> (Inl e, sp) | (Inr u, (s, pg)) \<Rightarrow> (Inr (), (s, PageSetLSN lsn pg)))"
proof -
  note l = plan_lengths [OF assms]
  let ?rs = "concat (map (\<lambda>(f, t). [f, t]) (redirected P))"
  have "set ?rs \<subseteq> set (recorded P)"
    by (auto simp: recorded_def rev_image_eqI)
  then have "\<forall>x\<in>set (?rs @ nowdead P @ nowunused P). x \<le> 291"
    using l(2) by (auto simp: recorded_def)
  from unat_of_nats [OF this] have data: "map unat (xl_data (prune_record rel P)) = ?rs @ nowdead P @ nowunused P"
    by (simp add: prune_record_def prune_data_def comp_def)
  have "length (redirected P) \<le> 291" "length (nowdead P) \<le> 291"
    using l(1) by (simp_all add: recorded_def)
  then have n: "unat (xl_nredirected (prune_record rel P)) = length (redirected P)" "unat (xl_ndead (prune_record rel P)) = length (nowdead P)"
    by (simp_all add: prune_record_def unat_of_nat_lt)
  have c: "take (length (redirected P) * 2) (?rs @ nowdead P @ nowunused P) = ?rs"
    "drop (length (redirected P) * 2) (?rs @ nowdead P @ nowunused P) = nowdead P @ nowunused P"
    "drop (length (redirected P) * 2 + length (nowdead P)) (?rs @ nowdead P @ nowunused P) = nowunused P"
    using length_concat_pairs [of "redirected P"] by simp_all
  show ?thesis
    unfolding pg_tde_xlog_prune_def data n c Let_def by (simp add: c)
qed

lemma redo_result:
  assumes keys: "GetRelationKeys env loc s = (Inr p, s1)" "session_ok (te_crypto env, E, ready, td_heap s1 ! p)"
    and pg: "page_wf q" "lps_ok q" "hot_ok xenv q"
    and len: "\<And>i. normal q i \<Longrightarrow> unat (lp_len (PageGetItemId q i)) = len"
    and plan: "plan_exec q P" "removed P \<noteq> {}"
  obtains s' q' where "pg_tde_xlog_prune env loc bn (prune_record rel P) lsn BLK_NEEDS_REDO (s, q) = (Inr (), (s', q'))"
    "pruned q P q'" "reads_same env loc bn (session_stream (te_crypto env, E, ready, td_heap s1 ! p)) q q'"
proof -
  have todo: "\<not> (redirected P = [] \<and> nowdead P = [] \<and> nowunused P = [])"
    using plan(2) by (auto simp: removed_def)
  obtain s' q' where x: "pg_tde_page_prune_execute env loc bn (redirected P) (nowdead P) (nowunused P) (s, q) = (Inr (), (s', q'))"
    "pruned q P q'" "reads_same env loc bn (session_stream (te_crypto env, E, ready, td_heap s1 ! p)) q q'"
    by (rule execute_result [OF keys pg len plan(1) todo])
  have w: "plan_wf q P"
    using plan(1) by (simp add: plan_exec_def)
  have "24 \<le> length q'"
    using x(2) page_wf_length by (simp add: pruned_def)
  note h = pruned_only_header [OF x(2) only_header_prune(2) [OF this, of lsn]]
  show thesis
    using redo_is_execute [OF w pg(3), of env loc bn rel lsn "(s, q)"] x(1) h(1) reads_same_items [OF h(2) x(3)]
    by (intro that [of s' "PageSetLSN lsn q'"]) simp_all
qed
text \<open>
  (C10) The redo routine written for a pruning repeats it, on a page whose stored tuples have the same
  length and a header of 24 bytes: \<open>pg_tde_page_prune\<close> logs one record when it changed line
  pointers. A server with the same key that replays it with \<open>pg_tde_xlog_prune\<close> on its copy of the
  page, which may lack hint bits, succeeds, is left with the same tuples, and a reader with the key
  gets the same bytes from both pages up to hint bits. This is about the two routines: the record
  carries the id of the core's resource manager and the extension does not register its redo
  routines, so that in a recovery it is the core's replay that runs.
\<close>

theorem redo_prune_repeats:
  assumes "GetRelationKeys env (rel_locator rel) (pw_tde w) = (Inr p, s1)" "session_ok (te_crypto env, E, ready, td_heap s1 ! p)"
    and "prune_page_ok pe (pw_page w)" "\<And>i. xact_ok (at_item pe i)" "RelationNeedsWAL rel"
    and "GetRelationKeys env (rel_locator rel) s = (Inr p', s1')" "session_ok (te_crypto env, E, ready, td_heap s1' ! p')"
    and "key (key0 (td_heap s1' ! p')) = key (key0 (td_heap s1 ! p))"
    and "hinted q (pw_page w)" "page_wf q" "lps_ok q" "hot_ok (at_scan pe) q"
    and "\<And>i. normal q i \<Longrightarrow> unat (lp_len (PageGetItemId q i)) = len \<and> t_hoff (t_bytes (page_tuple q i)) = 24"
    and "GetRelationKeys env (rel_locator rel) u = (Inr p'', u1)" "session_ok (te_crypto env, E, ready, td_heap u1 ! p'')"
    and "key (key0 (td_heap u1 ! p'')) = key (key0 (td_heap s1 ! p))" "relkind \<noteq> RELKIND_TOASTVALUE"
  shows "\<exists>n d w'. pg_tde_page_prune env pe rel bn xmin ts w = (Inr (n, d), w') \<and>
    (if pw_wal w' = pw_wal w then \<forall>i. normal (pw_page w') i \<longleftrightarrow> normal (pw_page w) i
     else \<exists>xlrec s' q'. pw_wal w' = pw_wal w @ [xlrec] \<and>
       pg_tde_xlog_prune env (rel_locator rel) bn xlrec lsn BLK_NEEDS_REDO (s, q) = (Inr (), (s', q')) \<and>
       (\<forall>i. normal q' i \<longleftrightarrow> normal (pw_page w') i) \<and>
       (\<forall>i. normal q' i \<longrightarrow> (\<exists>l b b'.
          fst (PGTdeExecStoreBufferHeapTuple env relkind (rel_locator rel) bn (page_tuple q' i) u) = Inr (l, b) \<and>
          fst (PGTdeExecStoreBufferHeapTuple env relkind (rel_locator rel) bn (page_tuple (pw_page w') i) u) = Inr (l, b') \<and>
          same_up_to_hints b b')))"
proof -
  let ?pg = "pw_page w" and ?loc = "rel_locator rel"
  let ?read = "\<lambda>pg i. fst (PGTdeExecStoreBufferHeapTuple env relkind ?loc bn (page_tuple pg i) u)"
  note low = page_wf_lower [OF assms(10)]
  have nq: "normal ?pg = normal q" and lq: "unat (lp_len (PageGetItemId q i)) = len" if "normal q i" for i
    using hinted_items(1) [OF assms(9) low] assms(13) that by blast+
  have norm_pg: "normal ?pg = normal q"
    by (rule hinted_items(1) [OF assms(9) low])
  have lpg: "unat (lp_len (PageGetItemId ?pg i)) = len" if "normal ?pg i" for i
    using that lq hinted_items(3) [OF assms(9) low] unfolding norm_pg by simp
  obtain n P w' dp where r: "pg_tde_page_prune env pe rel bn xmin ts w = (Inr (n, length (nowdead P)), w')"
    "hinted ?pg dp" "\<forall>i. normal ?pg i \<longrightarrow> tuple_ok (at_item pe i) (tuple_of dp i)" "plan_ok (at_scan pe) dp {i. in_page dp i} P"
    "\<forall>i. normal ?pg i \<longrightarrow> (\<exists>r. htsv P i = Some r \<and> htsv_says pe i (tuple_of ?pg i) r)"
    "n = length (nowunused P) + length (filter (normal dp) (nowdead P @ map fst (redirected P)))" "pruned dp P (pw_page w')"
    "reads_same env ?loc bn (session_stream (te_crypto env, E, ready, td_heap s1 ! p)) dp (pw_page w')"
    "pw_wal w' = pw_wal w @ (if RelationNeedsWAL rel \<and> removed P \<noteq> {} then [prune_record rel P] else [])"
    by (rule prune_result [OF assms(1-4) lpg, where bn = bn and xmin = xmin and ts = ts])
  have h: "hinted q dp"
    by (rule hinted_trans [OF assms(9) r(2) low])
  have n: "normal dp = normal q"
    by (rule hinted_items(1) [OF h low])
  have norm: "normal (pw_page w') i \<longleftrightarrow> normal q i \<and> i \<notin> removed P" for i
    using r(7) unfolding pruned_def n by blast
  show ?thesis
  proof (cases "removed P = {}")
    case True
    then have "pw_wal w' = pw_wal w" "\<forall>i. normal (pw_page w') i \<longleftrightarrow> normal ?pg i"
      using r(9) norm norm_pg by simp_all
    with r(1) show ?thesis
      by auto
  next
    case False
    have plan: "plan_exec q P"
      using plan_exec_hinted [OF h low plan_ok_exec [OF r(4)]] by blast
    obtain s' q' where x: "pg_tde_xlog_prune env ?loc bn (prune_record rel P) lsn BLK_NEEDS_REDO (s, q) = (Inr (), (s', q'))"
      "pruned q P q'" "reads_same env ?loc bn (session_stream (te_crypto env, E, ready, td_heap s1' ! p')) q q'"
      by (rule redo_result [OF assms(6,7,10-12) lq plan False])
    have same: "normal q' i \<longleftrightarrow> normal (pw_page w') i" for i
      using x(2) norm unfolding pruned_def by blast
    have st: "session_stream (te_crypto env, E, ready, td_heap u1 ! p'') = session_stream (te_crypto env, E, ready, td_heap s1 ! p)"
      "session_stream (te_crypto env, E, ready, td_heap u1 ! p'') = session_stream (te_crypto env, E, ready, td_heap s1' ! p')"
      using assms(8,16) by simp_all
    have "\<exists>l b b'. ?read q' i = Inr (l, b) \<and> ?read (pw_page w') i = Inr (l, b') \<and> same_up_to_hints b b'" if k: "normal q' i" for i
    proof -
      have i: "normal q i" "normal (pw_page w') i" "t_hoff (t_bytes (page_tuple q i)) = 24"
        using k same norm assms(13) by blast+
      obtain l b b' where rd: "?read q i = Inr (l, b)" "?read dp i = Inr (l, b')" "same_up_to_hints b b'"
        "t_hoff (t_bytes (page_tuple dp i)) = 24"
        by (rule hinted_read [OF h assms(10,11) i(1) assms(14,15,17) i(3)])
      have "?read q' i = Inr (l, b)"
        using x(3) assms(14,15,17) st(2) k i(3) unfolding reads_same_def rd(1) [symmetric] by blast
      moreover have "?read (pw_page w') i = Inr (l, b')"
        using r(8) assms(14,15,17) st(1) i(2) rd(4) unfolding reads_same_def rd(2) [symmetric] by blast
      ultimately show ?thesis
        using rd(3) by blast
    qed
    moreover have "pw_wal w' = pw_wal w @ [prune_record rel P]"
      using r(9) False assms(5) by simp
    ultimately show ?thesis
      using r(1) x(1) same by auto
  qed
qed
section \<open>A page to prune\<close>

text \<open>
  The page of two tuples of equal length: the inserter of the first is gone, the second is
  frozen. Every transaction before 15 may be removed.
\<close>

definition demo_prune_page :: page where
  "demo_prune_page = write_at demo_equal_page 8132 (le_bytes 2 (0x0300 :: uint16))"

definition demo_prune_env :: prune_env where
  "demo_prune_env = \<lparr>at_item = (\<lambda>_. demo_xact), at_scan = demo_xact, TransactionIdFollows = (>),
     GlobalVisTestIsRemovableXid = (\<lambda>_ x. x < 15), GlobalVisTestNonRemovableHorizon = (\<lambda>_. 15),
     OldSnapshotThresholdActive = False, TransactionIdLimitedForOldSnapshots = (\<lambda>_ _. None)\<rparr>"

definition demo_prune_rel :: prune_rel where
  "demo_prune_rel = \<lparr>rel_locator = demo_loc, RelationNeedsWAL = True, RelationIsAccessibleInLogicalDecoding = False,
     XLogInsert = (\<lambda>wal. 0x0000000100000010)\<rparr>"

abbreviation (input) demo_prune_world where
  "demo_prune_world \<equiv> \<lparr>pw_tde = demo_two_forks, pw_page = demo_prune_page, pw_dirty = False, pw_thresholds = [], pw_wal = []\<rparr>"

lemma demo_prune_places: "demo_place (demo_lp2\<lparr>lp_len := 32\<rparr>)" "demo_place demo_lp3"
  by (simp_all add: demo_place_def demo_items)

lemmas demo_equal_fields = demo_heap_page [OF demo_prune_places, of 24, folded demo_equal_page_def]

lemma demo_prune_same: "same_lps demo_equal_page demo_prune_page"
  by (simp add: same_lps_def demo_prune_page_def demo_equal_fields bytes_at_write_disjoint)

lemma demo_prune_page:
  "page_wf demo_prune_page" "length demo_prune_page = 8192" "PageGetMaxOffsetNumber demo_prune_page = 3"
  "PageGetItemId demo_prune_page 1 = unused_item" "PageGetItemId demo_prune_page 2 = demo_lp2\<lparr>lp_len := 32\<rparr>"
  "PageGetItemId demo_prune_page 3 = demo_lp3"
proof -
  note s = demo_prune_same
  have l: "24 \<le> unat (pd_lower demo_equal_page)"
    by (simp add: demo_equal_fields)
  show "page_wf demo_prune_page"
    using same_lps_items(5) [OF s l] demo_equal_page(1) .
  show "length demo_prune_page = 8192" "PageGetMaxOffsetNumber demo_prune_page = 3"
    using s same_lps_fields(4) [OF s l] by (simp_all add: same_lps_def demo_equal_fields)
  have i: "PageGetItemId demo_prune_page i = PageGetItemId demo_equal_page i" if "1 \<le> i" "i \<le> 3" for i
    using that by (intro same_lps_item [OF s l]) (simp add: in_page_def demo_equal_fields)
  show "PageGetItemId demo_prune_page 1 = unused_item" "PageGetItemId demo_prune_page 2 = demo_lp2\<lparr>lp_len := 32\<rparr>"
    "PageGetItemId demo_prune_page 3 = demo_lp3"
    using i [of 1] i [of 2] i [of 3] demo_equal_fields by simp_all
qed

lemma demo_prune_normal: "normal demo_prune_page i \<longleftrightarrow> i = 2 \<or> i = 3"
proof -
  have "in_page demo_prune_page i \<longleftrightarrow> i = 1 \<or> i = 2 \<or> i = 3"
    by (auto simp: in_page_def demo_prune_page)
  moreover have "\<not> ItemIdIsNormal (PageGetItemId demo_prune_page 1)" "ItemIdIsNormal (PageGetItemId demo_prune_page 2)"
    "ItemIdIsNormal (PageGetItemId demo_prune_page 3)"
    by (simp_all add: demo_prune_page demo_items unused_item_def ItemIdIsNormal_def del: One_nat_def)
  ultimately show ?thesis
    by (auto simp: normal_def)
qed

lemma demo_prune_tuples:
  "tuple_of demo_prune_page 2 = \<lparr>t_xmin = 0, t_xmax = 0, t_field3 = 0, t_ctid = (0, 0), t_infomask2 = 0, t_infomask = 0\<rparr>"
  "tuple_of demo_prune_page 3 = \<lparr>t_xmin = 0, t_xmax = 0, t_field3 = 0, t_ctid = (0, 0), t_infomask2 = 0, t_infomask = 0x0300\<rparr>"
proof -
  have z: "bytes_at demo_equal_page a n = replicate n 0" if "8112 \<le> a" "a + n \<le> 8134 \<or> 8144 \<le> a \<and> a + n \<le> 8166" for a n
    using that
    by (auto simp: demo_equal_page_def demo_heap_page_def demo_items set_item_id_def demo_header_def bytes_at_write_disjoint bytes_at_replicate)
  have u: "un_le (replicate n 0) = (0 :: 'a :: len word)" for n
    by (induction n) (simp_all add: un_le_def)
  have 2: "bytes_at demo_prune_page a n = replicate n 0" if "8144 \<le> a" "a + n \<le> 8166" for a n
    using that z [of a n] by (simp add: demo_prune_page_def bytes_at_write_disjoint demo_equal_fields)
  have 3: "bytes_at demo_prune_page a n = replicate n 0" if "8112 \<le> a" "a + n \<le> 8132" for a n
    using that z [of a n] by (simp add: demo_prune_page_def bytes_at_write_disjoint demo_equal_fields)
  have m: "bytes_at demo_prune_page 8132 2 = le_bytes 2 (0x0300 :: uint16)"
    by (simp add: demo_prune_page_def demo_equal_fields)
  have "unat (lp_off (PageGetItemId demo_prune_page 2)) = 8144" "unat (lp_off (PageGetItemId demo_prune_page 3)) = 8112"
    by (simp_all add: demo_prune_page demo_items)
  then show "tuple_of demo_prune_page 2 = \<lparr>t_xmin = 0, t_xmax = 0, t_field3 = 0, t_ctid = (0, 0), t_infomask2 = 0, t_infomask = 0\<rparr>"
    "tuple_of demo_prune_page 3 = \<lparr>t_xmin = 0, t_xmax = 0, t_field3 = 0, t_ctid = (0, 0), t_infomask2 = 0, t_infomask = 0x0300\<rparr>"
    by (simp_all add: tuple_of_def PageGetItem_def header_at_def 2 3 m u)
qed
lemma demo_prune_no_redirect: "\<not> redirect_item_at demo_prune_page i"
proof
  assume r: "redirect_item_at demo_prune_page i"
  then have "i = 1 \<or> i = 2 \<or> i = 3"
    by (auto simp: redirect_item_at_def in_page_def demo_prune_page)
  with r show False
    by (auto simp: redirect_item_at_def demo_prune_page demo_items unused_item_def ItemIdIsRedirected_def simp del: One_nat_def)
qed

lemma demo_prune_ok: "prune_page_ok demo_prune_env demo_prune_page"
  unfolding prune_page_ok_def
proof (intro conjI allI impI)
  have no_hot: "\<not> HeapTupleHeaderIsHotUpdated (tuple_of demo_prune_page i)" if "normal demo_prune_page i" for i
    using that by (auto simp: demo_prune_normal demo_prune_tuples HeapTupleHeaderIsHotUpdated_def)
  have "\<not> hot_link env demo_prune_page i j" "\<not> redirect_link demo_prune_page i j" for env i j
    using no_hot demo_prune_no_redirect unfolding hot_link_def redirect_link_def by blast+
  then show "hot_ok (at_scan demo_prune_env) demo_prune_page"
    by (simp add: hot_ok_def chain_link_def demo_prune_page)
  show "lps_ok demo_prune_page"
    unfolding lps_ok_def
  proof (intro conjI allI impI)
    fix i assume "in_page demo_prune_page i"
    then have "i = 1 \<or> i = 2 \<or> i = 3"
      by (auto simp: in_page_def demo_prune_page)
    then show "ItemIdHasStorage (PageGetItemId demo_prune_page i) = ItemIdIsNormal (PageGetItemId demo_prune_page i)"
      by (auto simp: demo_prune_page demo_items unused_item_def ItemIdIsNormal_def simp del: One_nat_def)
  next
    fix i assume "normal demo_prune_page i"
    then show "24 \<le> unat (lp_len (PageGetItemId demo_prune_page i))"
      by (auto simp: demo_prune_normal demo_prune_page demo_items)
  qed
  fix i assume "normal demo_prune_page i"
  then show "tuple_ok (at_item demo_prune_env i) (tuple_of demo_prune_page i)"
    by (auto simp: demo_prune_normal demo_prune_tuples tuple_ok_def demo_prune_env_def demo_xact_def updater_def has_def xmin_bits
        gone_def ended_committed_def HEAP_XMAX_IS_LOCKED_ONLY_def HeapTupleHeaderXminCommitted_def HeapTupleHeaderXminInvalid_def HeapTupleHeaderXminFrozen_def)
qed (rule demo_prune_page(1))

lemma demo_prune_lens:
  "normal demo_prune_page i \<Longrightarrow>
     unat (lp_len (PageGetItemId demo_prune_page i)) = 32 \<and> t_hoff (t_bytes (page_tuple demo_prune_page i)) = 24"
proof -
  have "demo_prune_page ! 8166 = demo_equal_page ! 8166" "demo_prune_page ! 8134 = demo_equal_page ! 8134"
    by (simp_all add: demo_prune_page_def nth_write_at demo_equal_fields)
  then have "demo_prune_page ! 8166 = 24" "demo_prune_page ! 8134 = 24"
    using demo_hoff [OF demo_prune_places, of 24] by (simp_all add: demo_equal_page_def demo_items)
  then show "normal demo_prune_page i \<Longrightarrow>
     unat (lp_len (PageGetItemId demo_prune_page i)) = 32 \<and> t_hoff (t_bytes (page_tuple demo_prune_page i)) = 24"
    by (auto simp: demo_prune_normal page_tuple_def tuple_at_def t_hoff_def demo_prune_page demo_items)
qed

lemma demo_prune_server:
  "xact_ok (at_item demo_prune_env i)" "at_item demo_prune_env i = demo_xact" "at_scan demo_prune_env = demo_xact"
  "horizon_ok demo_xact demo_snapshot (GlobalVisTestIsRemovableXid demo_prune_env i)" "\<not> OldSnapshotThresholdActive demo_prune_env"
  "rel_locator demo_prune_rel = demo_loc" "RelationNeedsWAL demo_prune_rel"
  using demo_xact_ok by (simp_all add: demo_prune_env_def demo_prune_rel_def horizon_ok_def demo_snapshot_def not_le)

lemma demo_prune_htsv:
  "htsv_says demo_prune_env 2 (tuple_of demo_prune_page 2) r \<longleftrightarrow> r = HEAPTUPLE_DEAD"
  "htsv_says demo_prune_env 3 (tuple_of demo_prune_page 3) r \<longleftrightarrow> r = HEAPTUPLE_LIVE"
  by (simp_all add: htsv_says_def demo_prune_tuples demo_prune_env_def demo_xact_def HeapTupleSatisfiesVacuumHorizon_def vis_then_def
      Vacuum_xmin_def Vacuum_xmax_def other_inserter_def Let_def has_def xmin_bits HEAP_XMAX_IS_LOCKED_ONLY_def SetHintBits_def
      HeapTupleHeaderXminCommitted_def HeapTupleHeaderXminInvalid_def HeapTupleHeaderXminFrozen_def set_bits_def)

lemma demo_prune_visible:
  "\<not> mvcc_visible demo_xact demo_snapshot (tuple_of demo_prune_page 2)" "mvcc_visible demo_xact demo_snapshot (tuple_of demo_prune_page 3)"
  by (simp_all add: demo_prune_tuples mvcc_visible_def in_effect_def updater_def demo_xact_def xmin_bits has_def HEAP_XMAX_IS_LOCKED_ONLY_def)

lemma demo_prune_sees: "sees demo_xact demo_snapshot demo_prune_page i \<longleftrightarrow> i = 3"
proof (cases "normal demo_prune_page i")
  case True
  then have "tuple_ok demo_xact (tuple_of demo_prune_page i)"
    using demo_prune_ok by (simp add: prune_page_ok_def demo_prune_server)
  with True show ?thesis
    using sees_visible [OF demo_xact_ok demo_snapshot_ok, of demo_prune_page i] demo_prune_visible
    by (auto simp: demo_prune_normal)
next
  case False
  then show ?thesis
    by (auto simp: sees_def demo_prune_normal)
qed

lemma demo_prune_closed: "normal demo_prune_page i \<Longrightarrow> snapshot_closed demo_xact demo_snapshot (tuple_of demo_prune_page i)"
  by (auto simp: demo_prune_normal demo_prune_tuples snapshot_closed_def ended_committed_def updater_def demo_xact_def has_def
      HEAP_XMAX_IS_LOCKED_ONLY_def)
theorem prune_removes_only_doomed_witness:
  "\<exists>n d w'. pg_tde_page_prune demo_tde_env demo_prune_env demo_prune_rel 7 0 0 demo_prune_world = (Inr (n, d), w') \<and>
    (\<exists>l before after.
       fst (PGTdeExecStoreBufferHeapTuple demo_tde_env CHR ''r'' demo_loc 7 (page_tuple demo_prune_page 3) demo_two_forks) = Inr (l, before) \<and>
       fst (PGTdeExecStoreBufferHeapTuple demo_tde_env CHR ''r'' demo_loc 7 (page_tuple (pw_page w') 3) demo_two_forks) = Inr (l, after) \<and>
       same_up_to_hints before after)"
proof -
  obtain v where v: "GetRelationKeys demo_tde_env demo_loc demo_two_forks = (Inr 0, v)"
    "td_heap v = [single_key (ki_name demo_mk) demo_key]" "session_ok (te_crypto demo_tde_env, demo_E, demo_ready, td_heap v ! 0)"
    by (rule demo_keys_ready)
  let ?w = "demo_prune_world"
  have k: "GetRelationKeys demo_tde_env (rel_locator demo_prune_rel) (pw_tde ?w) = (Inr 0, v)"
    "GetRelationKeys demo_tde_env (rel_locator demo_prune_rel) demo_two_forks = (Inr 0, v)"
    using v(1) by (simp_all add: demo_prune_server)
  have pg: "prune_page_ok demo_prune_env (pw_page ?w)"
    "\<And>i. normal (pw_page ?w) i \<Longrightarrow> unat (lp_len (PageGetItemId (pw_page ?w) i)) = 32 \<and> t_hoff (t_bytes (page_tuple (pw_page ?w) i)) = 24"
    using demo_prune_ok demo_prune_lens by simp_all
  have rk: "CHR ''r'' \<noteq> RELKIND_TOASTVALUE" by simp
  obtain n d w' h where r: "pg_tde_page_prune demo_tde_env demo_prune_env demo_prune_rel 7 0 0 ?w = (Inr (n, d), w')"
    "\<forall>i. normal demo_prune_page i \<longrightarrow> (\<exists>r. h i = Some r \<and> htsv_says demo_prune_env i (tuple_of demo_prune_page i) r)"
    "\<forall>i. normal demo_prune_page i \<and> \<not> normal (pw_page w') i \<longrightarrow> doomed demo_xact demo_prune_page h (\<lambda>_. False) i"
    "\<forall>i. normal (pw_page w') i \<longrightarrow> normal demo_prune_page i \<and> (\<exists>l before after.
       fst (PGTdeExecStoreBufferHeapTuple demo_tde_env CHR ''r'' demo_loc 7 (page_tuple demo_prune_page i) demo_two_forks) = Inr (l, before) \<and>
       fst (PGTdeExecStoreBufferHeapTuple demo_tde_env CHR ''r'' demo_loc 7 (page_tuple (pw_page w') i) demo_two_forks) = Inr (l, after) \<and>
       same_up_to_hints before after)"
    using prune_removes_only_doomed [OF k(1) v(3) pg(1) demo_prune_server(1) pg(2) k(2) v(3) refl rk, of 7 0 0]
    unfolding demo_prune_server(3,6) by auto
  have "h 3 = Some HEAPTUPLE_LIVE"
    using r(2) demo_prune_htsv(2) by (simp add: demo_prune_normal)
  then have "\<not> doomed demo_xact demo_prune_page h (\<lambda>_. False) 3"
    by (auto elim: doomedE)
  with r(3) have "normal (pw_page w') 3"
    by (auto simp: demo_prune_normal)
  with r(1,4) show ?thesis
    by blast
qed

theorem prune_keeps_visible_tuples_witness:
  "\<exists>n d w'. pg_tde_page_prune demo_tde_env demo_prune_env demo_prune_rel 7 0 0 demo_prune_world = (Inr (n, d), w') \<and>
    {i. sees demo_xact demo_snapshot (pw_page w') i} = {3}"
proof -
  obtain v where v: "GetRelationKeys demo_tde_env demo_loc demo_two_forks = (Inr 0, v)"
    "td_heap v = [single_key (ki_name demo_mk) demo_key]" "session_ok (te_crypto demo_tde_env, demo_E, demo_ready, td_heap v ! 0)"
    by (rule demo_keys_ready)
  let ?w = "demo_prune_world"
  have k: "GetRelationKeys demo_tde_env (rel_locator demo_prune_rel) (pw_tde ?w) = (Inr 0, v)"
    using v(1) by (simp add: demo_prune_server)
  have pg: "prune_page_ok demo_prune_env (pw_page ?w)" "\<And>i. normal (pw_page ?w) i \<Longrightarrow> unat (lp_len (PageGetItemId (pw_page ?w) i)) = 32"
    "\<And>i. normal (pw_page ?w) i \<Longrightarrow> snapshot_closed demo_xact demo_snapshot (tuple_of (pw_page ?w) i)"
    using demo_prune_ok demo_prune_lens demo_prune_closed by simp_all
  show ?thesis
    using prune_keeps_visible_tuples [OF k v(3) pg(1,2) demo_xact_ok demo_prune_server(2,3) demo_snapshot_ok demo_prune_server(4,5) pg(3), of 7 0 0]
    by (simp add: demo_prune_sees)
qed

theorem pruned_page_can_be_pruned_again_witness:
  "\<exists>n d w'. pg_tde_page_prune demo_tde_env demo_prune_env demo_prune_rel 7 0 0 demo_prune_world = (Inr (n, d), w') \<and>
    prune_page_ok demo_prune_env (pw_page w') \<and> \<not> normal (pw_page w') 2"
proof -
  obtain v where v: "GetRelationKeys demo_tde_env demo_loc demo_two_forks = (Inr 0, v)"
    "td_heap v = [single_key (ki_name demo_mk) demo_key]" "session_ok (te_crypto demo_tde_env, demo_E, demo_ready, td_heap v ! 0)"
    by (rule demo_keys_ready)
  let ?w = "demo_prune_world"
  have k: "GetRelationKeys demo_tde_env (rel_locator demo_prune_rel) (pw_tde ?w) = (Inr 0, v)"
    using v(1) by (simp add: demo_prune_server)
  have pg: "prune_page_ok demo_prune_env (pw_page ?w)" "\<And>i. normal (pw_page ?w) i \<Longrightarrow> unat (lp_len (PageGetItemId (pw_page ?w) i)) = 32"
    using demo_prune_ok demo_prune_lens by simp_all
  obtain n d w' where r: "pg_tde_page_prune demo_tde_env demo_prune_env demo_prune_rel 7 0 0 ?w = (Inr (n, d), w')"
    "prune_page_ok demo_prune_env (pw_page w')" "n = card {i. normal demo_prune_page i \<and> \<not> normal (pw_page w') i}"
    "\<forall>i. normal (pw_page w') i \<and> (\<forall>r. htsv_says demo_prune_env i (tuple_of demo_prune_page i) r \<longrightarrow> r = HEAPTUPLE_DEAD) \<longrightarrow>
       heap_only demo_prune_page i"
    using pruned_page_can_be_pruned_again [OF k v(3) pg(1) demo_prune_server(1) pg(2), of 7 0 0] by auto
  have "\<not> heap_only demo_prune_page 2" "\<forall>r. htsv_says demo_prune_env 2 (tuple_of demo_prune_page 2) r \<longrightarrow> r = HEAPTUPLE_DEAD"
    using demo_prune_htsv(1) by (simp_all add: heap_only_def demo_prune_tuples HeapTupleHeaderIsHeapOnly_def)
  with r show ?thesis
    by blast
qed

theorem redo_prune_repeats_witness:
  "\<exists>n d w'. pg_tde_page_prune demo_tde_env demo_prune_env demo_prune_rel 7 0 0 demo_prune_world = (Inr (n, d), w') \<and>
    (if pw_wal w' = [] then \<forall>i. normal (pw_page w') i \<longleftrightarrow> normal demo_prune_page i
     else \<exists>xlrec s' q'. pw_wal w' = [xlrec] \<and>
       pg_tde_xlog_prune demo_tde_env demo_loc 7 xlrec 99 BLK_NEEDS_REDO (demo_two_forks, demo_prune_page) = (Inr (), (s', q')) \<and>
       (\<forall>i. normal q' i \<longleftrightarrow> normal (pw_page w') i))"
proof -
  obtain v where v: "GetRelationKeys demo_tde_env demo_loc demo_two_forks = (Inr 0, v)"
    "td_heap v = [single_key (ki_name demo_mk) demo_key]" "session_ok (te_crypto demo_tde_env, demo_E, demo_ready, td_heap v ! 0)"
    by (rule demo_keys_ready)
  let ?w = "demo_prune_world"
  have k: "GetRelationKeys demo_tde_env (rel_locator demo_prune_rel) (pw_tde ?w) = (Inr 0, v)"
    "GetRelationKeys demo_tde_env (rel_locator demo_prune_rel) demo_two_forks = (Inr 0, v)"
    using v(1) by (simp_all add: demo_prune_server)
  have pg: "prune_page_ok demo_prune_env (pw_page ?w)" "hinted demo_prune_page (pw_page ?w)"
    using demo_prune_ok by simp_all
  have q: "page_wf demo_prune_page" "lps_ok demo_prune_page" "hot_ok (at_scan demo_prune_env) demo_prune_page"
    using demo_prune_ok by (simp_all add: prune_page_ok_def)
  have rk: "CHR ''r'' \<noteq> RELKIND_TOASTVALUE" by simp
  from redo_prune_repeats [OF k(1) v(3) pg(1) demo_prune_server(1,7) k(2) v(3) refl pg(2) q demo_prune_lens k(2) v(3) refl rk, of 7 0 0 99]
  obtain n d w' where r: "pg_tde_page_prune demo_tde_env demo_prune_env demo_prune_rel 7 0 0 ?w = (Inr (n, d), w')"
    "if pw_wal w' = [] then \<forall>i. normal (pw_page w') i \<longleftrightarrow> normal demo_prune_page i
     else \<exists>xlrec s' q'. pw_wal w' = [xlrec] \<and>
       pg_tde_xlog_prune demo_tde_env demo_loc 7 xlrec 99 BLK_NEEDS_REDO (demo_two_forks, demo_prune_page) = (Inr (), (s', q')) \<and>
       (\<forall>i. normal q' i \<longleftrightarrow> normal (pw_page w') i)"
    unfolding demo_prune_server(6) prune_world.simps append_Nil by (metis (no_types, lifting))
  then show ?thesis
    by blast
qed

end
