(* ===== verification/RootTuples.thy ===== *)
theory RootTuples
  imports PruneSafety
begin

text \<open>
  The callers' side of pruning, \<^verbatim>\<open>src/access/pg_tde_prune.c\<close>: \<^verbatim>\<open>pg_tde_page_prune_opt\<close>, which prunes
  a page when it looks worth it, and \<^verbatim>\<open>pg_tde_get_root_tuples\<close>, which finds for every tuple of a page
  the root line pointer of its chain.
\<close>

section \<open>Opportunistic pruning\<close>

text \<open>
  What the routine asks the server for: the first argument of the answers of \<open>prune_env\<close> is 0, before
  any item. \<open>seen\<close> is the page as it is read without a lock. The result is the number that
  is reported to the statistics, when there is a report.
\<close>

record prune_opt_env =
  RecoveryInProgress :: bool
  RelationGetTargetPageFreeSpace :: nat
  PageGetHeapFreeSpace :: "page \<Rightarrow> nat"
  ConditionalLockBufferForCleanup :: bool

definition worth_pruning :: "prune_opt_env \<Rightarrow> page \<Rightarrow> bool" where
  "worth_pruning po pg =
     (PageIsFull pg \<or> PageGetHeapFreeSpace po pg < max (RelationGetTargetPageFreeSpace po) (8192 div 10))"

text \<open>The limits for old snapshots with which a page may be pruned, \<open>None\<close> when it may not.\<close>

definition prune_limits :: "prune_env \<Rightarrow> uint32 \<Rightarrow> (uint32 \<times> uint64) option" where
  "prune_limits pe prune_xid =
     (if GlobalVisTestIsRemovableXid pe 0 prune_xid then Some (InvalidTransactionId, 0)
      else if \<not> OldSnapshotThresholdActive pe then None
      else (case TransactionIdLimitedForOldSnapshots pe 0 (GlobalVisTestNonRemovableHorizon pe 0) of
              None \<Rightarrow> None
            | Some (limited_xmin, limited_ts) \<Rightarrow>
                if TransactionIdPrecedes (at_item pe 0) prune_xid limited_xmin then Some (limited_xmin, limited_ts) else None))"

definition pg_tde_page_prune_opt ::
  "('c, 'w) tde_env \<Rightarrow> prune_env \<Rightarrow> prune_opt_env \<Rightarrow> prune_rel \<Rightarrow> block_number \<Rightarrow> page
     \<Rightarrow> (('c, 'w) prune_world, nat option) cmd" where
  "pg_tde_page_prune_opt env pe po rel bn seen w =
     (if RecoveryInProgress po \<or> pd_prune_xid seen = InvalidTransactionId then (Inr None, w)
      else (case prune_limits pe (pd_prune_xid seen) of
              None \<Rightarrow> (Inr None, w)
            | Some (limited_xmin, limited_ts) \<Rightarrow>
                if worth_pruning po seen \<and> ConditionalLockBufferForCleanup po \<and> worth_pruning po (pw_page w)
                then (case pg_tde_page_prune env pe rel bn limited_xmin limited_ts w of
                        (Inl e, w) \<Rightarrow> (Inl e, w)
                      | (Inr (ndeleted, nnewlpdead), w) \<Rightarrow>
                          (Inr (if ndeleted > nnewlpdead then Some (ndeleted - nnewlpdead) else None), w))
                else (Inr None, w)))"

section \<open>The roots of a page's tuples\<close>

text \<open>
  The walk along one chain. The code tests \<^verbatim>\<open>offnum\<close>, the root, against the bounds, where a test of
  \<^verbatim>\<open>nextoffnum\<close> is meant; so a line pointer anywhere on the page may be read. Nothing bounds the
  walk on a page whose links run in a circle: it then has no result.
\<close>

partial_function (option) root_walk ::
  "xact_env \<Rightarrow> page \<Rightarrow> nat \<Rightarrow> nat \<Rightarrow> uint32 \<Rightarrow> nat list \<Rightarrow> nat list result option" where
  "root_walk env pg offnum nextoffnum priorXmax root_offsets =
     (if offnum < 1 \<or> offnum > PageGetMaxOffsetNumber pg then Some (Inr root_offsets)
      else if nextoffnum = 0 \<or> length pg < 24 + 4 * nextoffnum then Some (Inl (Undefined ''line pointer outside the page''))
      else
        (let lp = PageGetItemId pg nextoffnum; htup = PageGetItem pg lp
         in if \<not> ItemIdIsNormal lp then Some (Inr root_offsets)
            else if length pg < unat (lp_off lp) + 24 then Some (Inl (Undefined ''tuple outside the page''))
            else if priorXmax \<noteq> InvalidTransactionId \<and> priorXmax \<noteq> HeapTupleHeaderGetXmin htup then Some (Inr root_offsets)
            else if nextoffnum > MaxHeapTuplesPerPage then Some (Inl (Undefined ''store outside root_offsets''))
            else if \<not> HeapTupleHeaderIsHotUpdated htup then Some (Inr (root_offsets[nextoffnum - 1 := offnum]))
            else root_walk env pg offnum (unat (snd (t_ctid htup))) (HeapTupleHeaderGetUpdateXid env htup)
                   (root_offsets[nextoffnum - 1 := offnum])))"

declare root_walk.simps [code]

definition root_one :: "xact_env \<Rightarrow> page \<Rightarrow> nat \<Rightarrow> nat list \<Rightarrow> nat list result option" where
  "root_one env pg offnum root_offsets =
     (let lp = PageGetItemId pg offnum; htup = PageGetItem pg lp
      in if \<not> ItemIdIsUsed lp \<or> ItemIdIsDead lp then Some (Inr root_offsets)
         else if ItemIdIsNormal lp
         then (if length pg < unat (lp_off lp) + 24 then Some (Inl (Undefined ''tuple outside the page''))
               else if HeapTupleHeaderIsHeapOnly htup then Some (Inr root_offsets)
               else if offnum > MaxHeapTuplesPerPage then Some (Inl (Undefined ''store outside root_offsets''))
               else if \<not> HeapTupleHeaderIsHotUpdated htup then Some (Inr (root_offsets[offnum - 1 := offnum]))
               else root_walk env pg offnum (unat (snd (t_ctid htup))) (HeapTupleHeaderGetUpdateXid env htup)
                      (root_offsets[offnum - 1 := offnum]))
         else root_walk env pg offnum (ItemIdGetRedirect lp) InvalidTransactionId root_offsets)"

fun root_scan :: "xact_env \<Rightarrow> page \<Rightarrow> nat list \<Rightarrow> nat list \<Rightarrow> nat list result option" where
  "root_scan env pg [] root_offsets = Some (Inr root_offsets)"
| "root_scan env pg (offnum # offs) root_offsets =
     (case root_one env pg offnum root_offsets of
        Some (Inr root_offsets) \<Rightarrow> root_scan env pg offs root_offsets | r \<Rightarrow> r)"

definition pg_tde_get_root_tuples :: "xact_env \<Rightarrow> page \<Rightarrow> nat list result option" where
  "pg_tde_get_root_tuples env pg =
     root_scan env pg [1..<Suc (PageGetMaxOffsetNumber pg)] (replicate MaxHeapTuplesPerPage 0)"

section \<open>The specification\<close>

text \<open>A root is a redirect or a tuple that is not heap-only; its tuples are those it leads to.\<close>

definition chain_root :: "page \<Rightarrow> nat \<Rightarrow> bool" where
  "chain_root pg j \<longleftrightarrow> redirect_item_at pg j \<or> normal pg j \<and> \<not> heap_only pg j"

definition root_of :: "xact_env \<Rightarrow> page \<Rightarrow> nat \<Rightarrow> nat \<Rightarrow> bool" where
  "root_of env pg j k \<longleftrightarrow> chain_root pg j \<and> normal pg k \<and> (chain_link env pg)\<^sup>*\<^sup>* j k"

text \<open>No link leads behind the page's line pointers.\<close>

definition links_inside :: "page \<Rightarrow> bool" where
  "links_inside pg \<longleftrightarrow>
     (\<forall>i. normal pg i \<and> HeapTupleHeaderIsHotUpdated (tuple_of pg i) \<longrightarrow> in_page pg (unat (snd (t_ctid (tuple_of pg i))))) \<and>
     (\<forall>i. redirect_item_at pg i \<longrightarrow> in_page pg (ItemIdGetRedirect (PageGetItemId pg i)))"

definition marks :: "nat \<Rightarrow> (nat \<Rightarrow> bool) \<Rightarrow> nat list \<Rightarrow> nat list \<Rightarrow> bool" where
  "marks j V ro ro' \<longleftrightarrow> length ro' = length ro \<and> (\<forall>x. 1 \<le> x \<and> x \<le> 291 \<longrightarrow> ro' ! (x - 1) = (if V x then j else ro ! (x - 1)))"

lemma marks_none: "marks j (\<lambda>_. False) ro ro"
  by (simp add: marks_def)

lemma marks_one: "length ro = 291 \<Longrightarrow> 1 \<le> k \<Longrightarrow> k \<le> 291 \<Longrightarrow> marks j (\<lambda>x. x = k) ro (ro[k - 1 := j])"
  by (auto simp: marks_def nth_list_update)

lemma marks_comp: "marks j V ro ro1 \<Longrightarrow> marks j W ro1 ro2 \<Longrightarrow> marks j (\<lambda>x. V x \<or> W x) ro ro2"
  by (auto simp: marks_def)

lemma root_walk_stop:
  assumes "in_page pg j" "page_wf pg" "lps_ok pg" "in_page pg k" "\<not> (normal pg k \<and> (prior = 0 \<or> HeapTupleHeaderGetXmin (tuple_of pg k) = prior))"
  shows "root_walk env pg j k prior ro = Some (Inr ro)"
proof -
  have "24 + 4 * k \<le> length pg" "1 \<le> k"
  proof -
    have "24 + 4 * k \<le> unat (pd_lower pg)"
      using in_page_room [OF page_wf_lower [OF assms(2)] assms(4)] .
    moreover have "unat (pd_lower pg) \<le> 8192"
      using assms(2) unfolding page_wf_def by auto
    ultimately show "24 + 4 * k \<le> length pg"
      using page_wf_length [OF assms(2)] by linarith
  qed (use assms(4) in \<open>simp add: in_page_def\<close>)
  then show ?thesis
    using assms normal_bounds(2) [OF assms(2,3), of k] page_wf_length [OF assms(2)]
    by (subst root_walk.simps) (auto simp: Let_def in_page_def normal_def tuple_of_def item_at_def)
qed

lemma root_walk_go:
  assumes "in_page pg j" "page_wf pg" "lps_ok pg" "PageGetMaxOffsetNumber pg \<le> 291" "normal pg k" "prior = 0 \<or> HeapTupleHeaderGetXmin (tuple_of pg k) = prior"
  shows "root_walk env pg j k prior ro =
    (if HeapTupleHeaderIsHotUpdated (tuple_of pg k)
     then root_walk env pg j (unat (snd (t_ctid (tuple_of pg k)))) (HeapTupleHeaderGetUpdateXid env (tuple_of pg k)) (ro[k - 1 := j])
     else Some (Inr (ro[k - 1 := j])))"
proof -
  have k: "in_page pg k"
    using assms(5) by (simp add: normal_def)
  have "24 + 4 * k \<le> unat (pd_lower pg)"
    using in_page_room [OF page_wf_lower [OF assms(2)] k] .
  moreover have "unat (pd_lower pg) \<le> 8192"
    using assms(2) unfolding page_wf_def by auto
  ultimately have "24 + 4 * k \<le> length pg"
    using page_wf_length [OF assms(2)] by linarith
  then show ?thesis
    using assms k normal_bounds(2) [OF assms(2,3,5)] page_wf_length [OF assms(2)]
    by (subst root_walk.simps) (auto simp: Let_def in_page_def normal_def tuple_of_def item_at_def)
qed

section \<open>The walk finds the rest of the chain\<close>

definition accepted :: "page \<Rightarrow> nat \<Rightarrow> uint32 \<Rightarrow> bool" where
  "accepted pg k prior \<longleftrightarrow> normal pg k \<and> (prior = 0 \<or> HeapTupleHeaderGetXmin (tuple_of pg k) = prior)"

text \<open>The next version of a tuple is what its link leads to, when that is accepted.\<close>

lemma hot_link_next:
  assumes "normal pg k" "HeapTupleHeaderIsHotUpdated (tuple_of pg k)"
  shows "hot_link env pg k x \<longleftrightarrow>
    x = unat (snd (t_ctid (tuple_of pg k))) \<and> accepted pg x (HeapTupleHeaderGetUpdateXid env (tuple_of pg k))"
  using assms by (auto simp: hot_link_def accepted_def)

lemma hot_reach_stop: "(\<And>x. \<not> hot_link env pg k x) \<Longrightarrow> (hot_link env pg)\<^sup>*\<^sup>* k x \<longleftrightarrow> x = k"
  by (metis converse_rtranclpE rtranclp.rtrancl_refl)

lemma hot_reach_next:
  assumes "\<And>x. hot_link env pg k x \<longleftrightarrow> x = m"
  shows "(hot_link env pg)\<^sup>*\<^sup>* k x \<longleftrightarrow> x = k \<or> (hot_link env pg)\<^sup>*\<^sup>* m x"
proof -
  have km: "hot_link env pg k m"
    using assms by simp
  have "x = k \<or> (hot_link env pg)\<^sup>*\<^sup>* m x" if r: "(hot_link env pg)\<^sup>*\<^sup>* k x"
    using r
  proof (cases rule: converse_rtranclpE)
    case (step y)
    then show ?thesis
      unfolding assms by simp
  qed simp
  moreover have "(hot_link env pg)\<^sup>*\<^sup>* k k"
    by (rule rtranclp.rtrancl_refl)
  ultimately show ?thesis
    using converse_rtranclp_into_rtranclp [where r = "hot_link env pg", OF km] by metis
qed

lemma finite_normal [simp]: "finite {x. normal pg x \<and> Q x}"
  by (rule finite_subset [of _ "{..PageGetMaxOffsetNumber pg}"]) (auto simp: normal_def in_page_def)

lemma root_walk_result:
  assumes j: "in_page pg j" and pg: "page_wf pg" "lps_ok pg" "hot_ok env pg" "links_inside pg"
    and rank: "\<forall>i j. hot_link env pg i j \<longrightarrow> rank i < (rank j :: nat)"
  shows "in_page pg k \<Longrightarrow> length ro = 291 \<Longrightarrow>
    \<exists>ro'. root_walk env pg j k prior ro = Some (Inr ro') \<and>
      marks j (\<lambda>x. accepted pg k prior \<and> (hot_link env pg)\<^sup>*\<^sup>* k x) ro ro'"
proof (induction "card {x. normal pg x \<and> rank k \<le> rank x}" arbitrary: k prior ro rule: less_induct)
  case less
  show ?case
  proof (cases "accepted pg k prior")
    case False
    then have "root_walk env pg j k prior ro = Some (Inr ro)"
      by (intro root_walk_stop [OF j pg(1,2) less.prems(1)]) (simp add: accepted_def)
    with False marks_none show ?thesis
      by simp
  next
    case True
    then have k: "normal pg k" "prior = 0 \<or> HeapTupleHeaderGetXmin (tuple_of pg k) = prior"
      by (simp_all add: accepted_def)
    have k291: "1 \<le> k" "k \<le> 291"
      using less.prems(1) in_page_291 [OF pg(3)] by (simp_all add: in_page_def)
    have max: "PageGetMaxOffsetNumber pg \<le> 291"
      using pg(3) by (simp add: hot_ok_def)
    note go = root_walk_go [OF j pg(1,2) max k, of env ro] and one = marks_one [OF less.prems(2) k291, of j]
    let ?m = "unat (snd (t_ctid (tuple_of pg k)))" and ?p = "HeapTupleHeaderGetUpdateXid env (tuple_of pg k)"
    show ?thesis
    proof (cases "HeapTupleHeaderIsHotUpdated (tuple_of pg k)")
      case no: False
      then have "\<not> hot_link env pg k x" for x
        by (simp add: hot_link_def)
      from hot_reach_stop [OF this] show ?thesis
        using go no True one by simp
    next
      case hot: True
      note link = hot_link_next [OF k(1) hot, of env]
      have m: "in_page pg ?m"
        using pg(4) k(1) hot by (simp add: links_inside_def)
      have len: "length (ro[k - 1 := j]) = 291"
        using less.prems(2) by simp
      have "\<exists>ro'. root_walk env pg j ?m ?p (ro[k - 1 := j]) = Some (Inr ro') \<and>
        marks j (\<lambda>x. accepted pg ?m ?p \<and> (hot_link env pg)\<^sup>*\<^sup>* ?m x) (ro[k - 1 := j]) ro'"
      proof (cases "accepted pg ?m ?p")
        case acc: True
        then have "hot_link env pg k ?m"
          using link [of ?m] by simp
        then have "rank k < rank ?m"
          using rank by blast
        then have "{x. normal pg x \<and> rank ?m \<le> rank x} \<subset> {x. normal pg x \<and> rank k \<le> rank x}"
        proof (intro psubsetI)
          assume l: "rank k < rank ?m"
          show "{x. normal pg x \<and> rank ?m \<le> rank x} \<subseteq> {x. normal pg x \<and> rank k \<le> rank x}"
            using l by auto
          have "k \<in> {x. normal pg x \<and> rank k \<le> rank x}" "k \<notin> {x. normal pg x \<and> rank ?m \<le> rank x}"
            using k(1) l by simp_all
          then show "{x. normal pg x \<and> rank ?m \<le> rank x} \<noteq> {x. normal pg x \<and> rank k \<le> rank x}"
            by metis
        qed
        from less.hyps [OF psubset_card_mono [OF finite_normal this] m len] show ?thesis .
      next
        case False
        then have "root_walk env pg j ?m ?p (ro[k - 1 := j]) = Some (Inr (ro[k - 1 := j]))"
          by (intro root_walk_stop [OF j pg(1,2) m]) (simp add: accepted_def)
        with False marks_none show ?thesis
          by simp
      qed
      then obtain ro' where r: "root_walk env pg j ?m ?p (ro[k - 1 := j]) = Some (Inr ro')"
        "marks j (\<lambda>x. accepted pg ?m ?p \<and> (hot_link env pg)\<^sup>*\<^sup>* ?m x) (ro[k - 1 := j]) ro'"
        by blast
      have "(hot_link env pg)\<^sup>*\<^sup>* k x \<longleftrightarrow> x = k \<or> accepted pg ?m ?p \<and> (hot_link env pg)\<^sup>*\<^sup>* ?m x" for x
      proof (cases "accepted pg ?m ?p")
        case acc: True
        have "hot_link env pg k x \<longleftrightarrow> x = ?m" for x
          using link [of x] acc by auto
        from hot_reach_next [OF this] acc show ?thesis
          by simp
      next
        case False
        have "\<not> hot_link env pg k x" for x
          using link [of x] False by auto
        from hot_reach_stop [OF this] False show ?thesis
          by simp
      qed
      then show ?thesis
        using go hot True r(1) marks_comp [OF one r(2)] by (intro exI [of _ ro']) simp
    qed
  qed
qed

text \<open>One root: everything it leads to is marked with it.\<close>

lemma chain_reach_normal:
  assumes "normal pg k"
  shows "(chain_link env pg)\<^sup>*\<^sup>* k x \<longleftrightarrow> (hot_link env pg)\<^sup>*\<^sup>* k x"
proof
  show "(chain_link env pg)\<^sup>*\<^sup>* k x \<Longrightarrow> (hot_link env pg)\<^sup>*\<^sup>* k x"
  proof (induction rule: rtranclp_induct)
    case (step y z)
    have "normal pg y"
      using step.hyps(1) assms by (cases rule: rtranclp.cases) (auto intro: chain_link_normal)
    then have "hot_link env pg y z"
      using step.hyps(2) normal_not_redirect by (auto simp: chain_link_def redirect_link_def)
    with step.IH show ?case
      by (rule rtranclp.rtrancl_into_rtrancl)
  qed simp
  show "(hot_link env pg)\<^sup>*\<^sup>* k x \<Longrightarrow> (chain_link env pg)\<^sup>*\<^sup>* k x"
    by (rule mono_rtranclp [rule_format]) (auto simp: chain_link_def)
qed

lemma hot_reach_is_normal: "(hot_link env pg)\<^sup>*\<^sup>* k x \<Longrightarrow> normal pg k \<Longrightarrow> normal pg x"
  by (induction rule: rtranclp_induct) (auto dest: hot_link_normal)
lemma root_of_tuple:
  assumes "normal pg j" "\<not> heap_only pg j"
  shows "root_of env pg j x \<longleftrightarrow> (hot_link env pg)\<^sup>*\<^sup>* j x"
  using assms chain_reach_normal [OF assms(1)] hot_reach_is_normal [OF _ assms(1)] by (auto simp: root_of_def chain_root_def)

lemma root_of_redirect:
  assumes "redirect_item_at pg j"
  shows "root_of env pg j x \<longleftrightarrow>
    normal pg (ItemIdGetRedirect (PageGetItemId pg j)) \<and> (hot_link env pg)\<^sup>*\<^sup>* (ItemIdGetRedirect (PageGetItemId pg j)) x"
proof -
  let ?t = "ItemIdGetRedirect (PageGetItemId pg j)"
  have link: "chain_link env pg j y \<longleftrightarrow> y = ?t \<and> normal pg ?t" for y
    using assms normal_not_redirect by (auto simp: chain_link_def redirect_link_def hot_link_def)
  have "normal pg ?t \<and> (hot_link env pg)\<^sup>*\<^sup>* ?t x" if x: "normal pg x" and r: "(chain_link env pg)\<^sup>*\<^sup>* j x"
    using r
  proof (cases rule: converse_rtranclpE)
    case base
    then show ?thesis
      using x assms normal_not_redirect by blast
  next
    case (step y)
    then have "y = ?t" "normal pg ?t"
      using link by blast+
    then show ?thesis
      using step(2) chain_reach_normal by simp
  qed
  moreover have "normal pg x \<and> (chain_link env pg)\<^sup>*\<^sup>* j x" if t: "normal pg ?t" and r: "(hot_link env pg)\<^sup>*\<^sup>* ?t x"
  proof -
    have "chain_link env pg j ?t" "(chain_link env pg)\<^sup>*\<^sup>* ?t x"
      using link t r chain_reach_normal [OF t] by simp_all
    then show ?thesis
      using hot_reach_is_normal [OF r t] converse_rtranclp_into_rtranclp [where r = "chain_link env pg"] by metis
  qed
  ultimately show ?thesis
    using assms by (auto simp: root_of_def chain_root_def)
qed

lemma root_one_result:
  assumes j: "in_page pg j" and pg: "page_wf pg" "lps_ok pg" "hot_ok env pg" "links_inside pg" and len: "length ro = 291"
  shows "\<exists>ro'. root_one env pg j ro = Some (Inr ro') \<and> marks j (root_of env pg j) ro ro'"
proof -
  obtain rank :: "nat \<Rightarrow> nat" where rank: "\<forall>i j. hot_link env pg i j \<longrightarrow> rank i < rank j"
    using pg(3) unfolding hot_ok_def by blast
  note walk = root_walk_result [OF j pg rank _ len]
  let ?lp = "PageGetItemId pg j"
  note flags = lp_flags_cases [of ?lp]
  have root: "chain_root pg j \<longleftrightarrow> ItemIdIsRedirected ?lp \<or> ItemIdIsNormal ?lp \<and> \<not> heap_only pg j"
    using j by (simp add: chain_root_def redirect_item_at_def normal_def)
  consider (other) "\<not> chain_root pg j" | (red) "redirect_item_at pg j" | (tup) "normal pg j" "\<not> heap_only pg j"
    unfolding chain_root_def by blast
  then show ?thesis
  proof cases
    case other
    then have "root_of env pg j = (\<lambda>_. False)"
      by (simp add: root_of_def fun_eq_iff)
    moreover have "root_one env pg j ro = Some (Inr ro)"
      using other root flags normal_bounds(2) [OF pg(1,2), of j] page_wf_length [OF pg(1)] j
      by (auto simp: root_one_def Let_def heap_only_def tuple_of_def item_at_def normal_def)
    ultimately show ?thesis
      using marks_none by simp
  next
    case red
    let ?t = "ItemIdGetRedirect ?lp"
    have t: "in_page pg ?t"
      using pg(4) red by (simp add: links_inside_def)
    have "ItemIdIsRedirected ?lp"
      using red by (simp add: redirect_item_at_def)
    then have "root_one env pg j ro = root_walk env pg j ?t 0 ro"
      using flags by (auto simp: root_one_def Let_def)
    moreover have "root_of env pg j = (\<lambda>x. accepted pg ?t 0 \<and> (hot_link env pg)\<^sup>*\<^sup>* ?t x)"
      using root_of_redirect [OF red] by (simp add: accepted_def fun_eq_iff)
    ultimately show ?thesis
      using walk [OF t, of 0] by simp
  next
    case tup
    have lp: "ItemIdIsNormal ?lp" "j \<le> 291"
      using tup(1) in_page_291 [OF pg(3) j] by (simp_all add: normal_def)
    have "length pg \<ge> unat (lp_off ?lp) + 24"
      using normal_bounds(2) [OF pg(1,2) tup(1)] page_wf_length [OF pg(1)] by (simp add: item_at_def)
    then have "root_one env pg j ro =
      (if HeapTupleHeaderIsHotUpdated (tuple_of pg j)
       then root_walk env pg j (unat (snd (t_ctid (tuple_of pg j)))) (HeapTupleHeaderGetUpdateXid env (tuple_of pg j)) (ro[j - 1 := j])
       else Some (Inr (ro[j - 1 := j])))"
      using lp flags tup(2) by (simp add: root_one_def Let_def heap_only_def tuple_of_def)
    moreover have "PageGetMaxOffsetNumber pg \<le> 291"
      using pg(3) by (simp add: hot_ok_def)
    ultimately have "root_one env pg j ro = root_walk env pg j j 0 ro"
      using root_walk_go [OF j pg(1,2) _ tup(1), of 0 env ro] by simp
    moreover have "root_of env pg j = (\<lambda>x. accepted pg j 0 \<and> (hot_link env pg)\<^sup>*\<^sup>* j x)"
      using root_of_tuple [OF tup] tup(1) by (simp add: accepted_def fun_eq_iff)
    ultimately show ?thesis
      using walk [OF j, of 0] by simp
  qed
qed

lemma root_scan_result:
  assumes pg: "page_wf pg" "lps_ok pg" "hot_ok env pg" "links_inside pg"
  shows "\<forall>j\<in>set offs. in_page pg j \<Longrightarrow> length ro = 291 \<Longrightarrow>
    \<exists>ro'. root_scan env pg offs ro = Some (Inr ro') \<and> length ro' = 291 \<and>
      (\<forall>x. 1 \<le> x \<and> x \<le> 291 \<longrightarrow>
        (if \<exists>j\<in>set offs. root_of env pg j x then ro' ! (x - 1) \<in> set offs \<and> root_of env pg (ro' ! (x - 1)) x
         else ro' ! (x - 1) = ro ! (x - 1)))"
proof (induction offs arbitrary: ro)
  case (Cons j offs)
  obtain ro1 where 1: "root_one env pg j ro = Some (Inr ro1)" "marks j (root_of env pg j) ro ro1"
    using root_one_result [OF _ pg Cons.prems(2)] Cons.prems(1) by auto
  have l: "length ro1 = 291" "\<forall>j\<in>set offs. in_page pg j"
    using 1(2) Cons.prems by (simp_all add: marks_def)
  obtain ro' where 2: "root_scan env pg offs ro1 = Some (Inr ro')" "length ro' = 291"
    "\<forall>x. 1 \<le> x \<and> x \<le> 291 \<longrightarrow>
        (if \<exists>j\<in>set offs. root_of env pg j x then ro' ! (x - 1) \<in> set offs \<and> root_of env pg (ro' ! (x - 1)) x
         else ro' ! (x - 1) = ro1 ! (x - 1))"
    using Cons.IH [OF l(2,1)] by blast
  have all: "if \<exists>i\<in>set (j # offs). root_of env pg i x then ro' ! (x - 1) \<in> set (j # offs) \<and> root_of env pg (ro' ! (x - 1)) x
      else ro' ! (x - 1) = ro ! (x - 1)" if x: "1 \<le> x" "x \<le> 291" for x
  proof (cases "\<exists>i\<in>set offs. root_of env pg i x")
    case True
    then show ?thesis
      using spec [OF 2(3), of x] x by (auto simp del: One_nat_def)
  next
    case False
    then have "ro' ! (x - 1) = ro1 ! (x - 1)"
      using 2(3) x by auto
    also have "\<dots> = (if root_of env pg j x then j else ro ! (x - 1))"
      using 1(2) x by (simp add: marks_def)
    finally show ?thesis
      using False by auto
  qed
  have "root_scan env pg (j # offs) ro = Some (Inr ro')"
    using 1(1) 2(1) by simp
  with 2(2) all show ?case
    by blast
qed simp

text \<open>
  (C16) The roots that \<open>pg_tde_get_root_tuples\<close> reports: on a page whose links make sense and lead to
  line pointers of the page, it returns; the entry of a line pointer is a root, a redirect
  or a tuple that is not heap-only, from which its tuple is reached, and it is 0 when there is no
  such root.
\<close>

theorem get_root_tuples_correct:
  assumes "page_wf pg" "lps_ok pg" "hot_ok env pg" "links_inside pg"
  shows "\<exists>root_offsets. pg_tde_get_root_tuples env pg = Some (Inr root_offsets) \<and> length root_offsets = 291 \<and>
    (\<forall>k\<in>{1..291}. if \<exists>j. root_of env pg j k then root_of env pg (root_offsets ! (k - 1)) k else root_offsets ! (k - 1) = 0)"
proof -
  let ?offs = "[1..<Suc (PageGetMaxOffsetNumber pg)]"
  have offs: "set ?offs = {j. in_page pg j}"
    by (auto simp: in_page_def)
  obtain ro where r: "root_scan env pg ?offs (replicate 291 0) = Some (Inr ro)" "length ro = 291"
    "\<forall>x. 1 \<le> x \<and> x \<le> 291 \<longrightarrow>
        (if \<exists>j\<in>{j. in_page pg j}. root_of env pg j x then ro ! (x - 1) \<in> {j. in_page pg j} \<and> root_of env pg (ro ! (x - 1)) x
         else ro ! (x - 1) = replicate 291 0 ! (x - 1))"
    using root_scan_result [OF assms, of ?offs "replicate 291 0"] unfolding offs by auto
  have page: "in_page pg j" if "root_of env pg j k" for j k
    using that by (auto simp: root_of_def chain_root_def redirect_item_at_def normal_def)
  have "if \<exists>j. root_of env pg j k then root_of env pg (ro ! (k - 1)) k else ro ! (k - 1) = 0" if k: "k \<in> {1..291}" for k
  proof (cases "\<exists>j. root_of env pg j k")
    case True
    then have "\<exists>j\<in>{j. in_page pg j}. root_of env pg j k"
      using page by blast
    with True show ?thesis
      using spec [OF r(3), of k] k by (simp del: One_nat_def)
  next
    case False
    then have "ro ! (k - 1) = replicate 291 0 ! (k - 1)"
      using r(3) k by auto
    with False show ?thesis
      using k by auto
  qed
  with r(1,2) show ?thesis
    unfolding pg_tde_get_root_tuples_def by blast
qed

theorem get_root_tuples_correct_witness:
  "\<exists>root_offsets. pg_tde_get_root_tuples demo_xact demo_prune_page = Some (Inr root_offsets) \<and>
     root_offsets ! 1 = 2 \<and> root_offsets ! 2 = 3 \<and> root_offsets ! 3 = 0"
proof -
  have pg: "page_wf demo_prune_page" "lps_ok demo_prune_page" "hot_ok demo_xact demo_prune_page"
    using demo_prune_ok by (simp_all add: prune_page_ok_def demo_prune_server)
  have hot: "\<not> HeapTupleHeaderIsHotUpdated (tuple_of demo_prune_page i)" if "normal demo_prune_page i" for i
    using that by (auto simp: demo_prune_normal demo_prune_tuples HeapTupleHeaderIsHotUpdated_def)
  have red: "\<not> redirect_item_at demo_prune_page i" for i
    using demo_prune_no_redirect .
  have "links_inside demo_prune_page"
    using hot red unfolding links_inside_def by blast
  note r = get_root_tuples_correct [OF pg this]
  have link: "\<not> chain_link demo_xact demo_prune_page i j" for i j
    using hot red unfolding chain_link_def hot_link_def redirect_link_def by blast
  have root: "root_of demo_xact demo_prune_page j k \<longleftrightarrow> j = k \<and> (k = 2 \<or> k = 3)" for j k
  proof -
    have "(chain_link demo_xact demo_prune_page)\<^sup>*\<^sup>* j k \<longleftrightarrow> j = k"
      using link by (metis converse_rtranclpE rtranclp.rtrancl_refl)
    then show ?thesis
      using red by (auto simp: root_of_def chain_root_def demo_prune_normal heap_only_def demo_prune_tuples HeapTupleHeaderIsHeapOnly_def)
  qed
  obtain ro where ro: "pg_tde_get_root_tuples demo_xact demo_prune_page = Some (Inr ro)"
    "\<forall>k\<in>{1..291}. if \<exists>j. j = k \<and> (k = 2 \<or> k = 3) then ro ! (k - 1) = k \<and> (k = 2 \<or> k = 3) else ro ! (k - 1) = 0"
    using r unfolding root by blast
  show ?thesis
    using ro(1) bspec [OF ro(2), of 2] bspec [OF ro(2), of 3] bspec [OF ro(2), of 4] by simp
qed

section \<open>When a page is pruned\<close>

text \<open>
  Opportunistic pruning leaves everything as it was or prunes the page, and only a page
  that looks worth it under the lock, with limits that the horizon or the old-snapshot threshold
  allows.
\<close>

lemma prune_opt_cases:
  assumes "pg_tde_page_prune_opt env pe po rel bn seen w = (r, w')"
  shows "r = Inr None \<and> w' = w \<or>
    \<not> RecoveryInProgress po \<and> worth_pruning po (pw_page w) \<and>
    (\<exists>xmin ts. prune_limits pe (pd_prune_xid seen) = Some (xmin, ts) \<and> w' = snd (pg_tde_page_prune env pe rel bn xmin ts w))"
proof (cases "prune_limits pe (pd_prune_xid seen)")
  case None
  then show ?thesis
    using assms by (simp add: pg_tde_page_prune_opt_def split: if_splits)
next
  case (Some l)
  obtain xmin ts where l: "l = (xmin, ts)"
    by (cases l)
  obtain q w2 where p: "pg_tde_page_prune env pe rel bn xmin ts w = (q, w2)"
    by (cases "pg_tde_page_prune env pe rel bn xmin ts w")
  show ?thesis
    using assms Some p unfolding pg_tde_page_prune_opt_def l
    by (cases q) (simp_all split: if_splits prod.splits)
qed

end
