(* ===== verification/Freeze.thy ===== *)
theory Freeze
  imports TupleLock PruneChain
begin

text \<open>
  Freezing tuples, \<^verbatim>\<open>src/access/pg_tdeam.c\<close>: what a vacuum does to the transaction ids of a tuple
  that every snapshot sees as finished, so that the ids can be used again. Deciding
  (\<^verbatim>\<open>FreezeMultiXactId\<close>, \<^verbatim>\<open>pg_tde_prepare_freeze_tuple\<close>, \<^verbatim>\<open>pg_tde_tuple_should_freeze\<close>) is
  separate from doing it (\<^verbatim>\<open>pg_tde_execute_freeze_tuple\<close>). As in theory \<open>Visibility\<close> the routines are
  those of a build without assertions. Freezing a page and its replay are in theory \<open>FreezePage\<close>.
\<close>

section \<open>Plans\<close>

record VacuumCutoffs =
  relfrozenxid :: uint32
  relminmxid :: uint32
  OldestXmin :: uint32
  OldestMxact :: uint32
  FreezeLimit :: uint32
  MultiXactCutoff :: uint32

record HeapPageFreeze =
  freeze_required :: bool
  FreezePageRelfrozenXid :: uint32
  FreezePageRelminMxid :: uint32
  NoFreezePageRelfrozenXid :: uint32
  NoFreezePageRelminMxid :: uint32

record HeapTupleFreeze =
  frz_xmax :: uint32
  frz_infomask2 :: uint16
  frz_infomask :: uint16
  frzflags :: uint8
  checkflags :: uint8
  frz_offset :: uint16

text \<open>
  The server's multixacts: their order, and a new one with given members, with the state of the
  server afterwards.
\<close>

record freeze_ops =
  MultiXactIdPrecedes :: "uint32 \<Rightarrow> uint32 \<Rightarrow> bool"
  MultiXactIdCreateFromMembers :: "xact_env \<Rightarrow> MultiXactMember list \<Rightarrow> uint32 \<times> xact_env"

abbreviation (input) XLH_FREEZE_XVAC :: uint8 where "XLH_FREEZE_XVAC \<equiv> 0x02"
abbreviation (input) XLH_INVALID_XVAC :: uint8 where "XLH_INVALID_XVAC \<equiv> 0x04"
abbreviation (input) HEAP_FREEZE_CHECK_XMIN_COMMITTED :: uint8 where "HEAP_FREEZE_CHECK_XMIN_COMMITTED \<equiv> 0x01"
abbreviation (input) HEAP_FREEZE_CHECK_XMAX_ABORTED :: uint8 where "HEAP_FREEZE_CHECK_XMAX_ABORTED \<equiv> 0x02"
abbreviation (input) HEAP_XMAX_BITS :: uint16 where "HEAP_XMAX_BITS \<equiv> 0x1CD0"
abbreviation (input) InvalidMultiXactId :: uint32 where "InvalidMultiXactId \<equiv> 0"

definition TransactionIdIsNormal :: "uint32 \<Rightarrow> bool" where
  "TransactionIdIsNormal xid = (xid \<ge> 3)"

section \<open>A multixact\<close>

text \<open>
  The output flags: one of four, and \<^verbatim>\<open>FRM_MARK_COMMITTED\<close>, which only goes with
  \<^verbatim>\<open>FRM_RETURN_IS_XID\<close>, is its argument.
\<close>

datatype FRM = FRM_NOOP | FRM_INVALIDATE_XMAX | FRM_RETURN_IS_XID bool | FRM_RETURN_IS_MULTI

text \<open>The first pass: is a member too old, and the oldest member otherwise.\<close>

fun oldest_member :: "xact_env \<Rightarrow> VacuumCutoffs \<Rightarrow> MultiXactMember list \<Rightarrow> uint32 \<Rightarrow> bool \<times> uint32" where
  "oldest_member env cutoffs [] oldest = (False, oldest)"
| "oldest_member env cutoffs (m # ms) oldest =
     (if TransactionIdPrecedes env (mxid m) (FreezeLimit cutoffs) then (True, oldest)
      else oldest_member env cutoffs ms (if TransactionIdPrecedes env (mxid m) oldest then mxid m else oldest))"

text \<open>The second pass: the members to keep.\<close>

record kept_members =
  newmembers :: "MultiXactMember list"
  has_lockers :: bool
  update_xid :: uint32
  update_committed :: bool

fun keep_members :: "xact_env \<Rightarrow> VacuumCutoffs \<Rightarrow> MultiXactMember list \<Rightarrow> kept_members \<Rightarrow> kept_members result" where
  "keep_members env cutoffs [] k = Inr k"
| "keep_members env cutoffs (m # ms) k =
     (let xid = mxid m;
          running = (TransactionIdIsCurrentTransactionId env xid \<or> TransactionIdIsInProgress env xid);
          old = TransactionIdPrecedes env xid (OldestXmin cutoffs)
      in if \<not> ISUPDATE_from_mxstatus (mxstatus m)
         then (if running
               then (if old then Inl (Ereport ERROR ''running locker from before removable cutoff'')
                     else keep_members env cutoffs ms (k\<lparr>newmembers := newmembers k @ [m], has_lockers := True\<rparr>))
               else keep_members env cutoffs ms k)
         else if update_xid k \<noteq> InvalidTransactionId then Inl (Ereport ERROR ''two or more updating members'')
         else if running \<or> TransactionIdDidCommit env xid
         then (if old then Inl (Ereport ERROR ''committed update XID from before removable cutoff'')
               else keep_members env cutoffs ms
                      (k\<lparr>newmembers := newmembers k @ [m], update_xid := xid, update_committed := (update_committed k \<or> \<not> running)\<rparr>))
         else keep_members env cutoffs ms k)"

definition no_members :: kept_members where
  "no_members = \<lparr>newmembers = [], has_lockers = False, update_xid = InvalidTransactionId, update_committed = False\<rparr>"

text \<open>A multixact that no transaction of today can be a member of.\<close>

definition freeze_old_multi ::
  "xact_env \<Rightarrow> uint32 \<Rightarrow> uint16 \<Rightarrow> VacuumCutoffs \<Rightarrow> (FRM \<times> uint32) result" where
  "freeze_old_multi env multi infomask cutoffs =
     (if MultiXactIdIsRunning env multi (HEAP_XMAX_IS_LOCKED_ONLY infomask)
      then Inl (Ereport ERROR ''multixact from before multi freeze cutoff found to be still running'')
      else if HEAP_XMAX_IS_LOCKED_ONLY infomask then Inr (FRM_INVALIDATE_XMAX, InvalidTransactionId)
      else
        (let update_xact = MultiXactIdGetUpdateXid env multi infomask
         in if TransactionIdPrecedes env update_xact (relfrozenxid cutoffs)
            then Inl (Ereport ERROR ''multixact contains update XID from before relfrozenxid'')
            else if TransactionIdPrecedes env update_xact (OldestXmin cutoffs)
            then (if TransactionIdDidCommit env update_xact
                  then Inl (Ereport ERROR ''multixact contains committed update XID from before removable cutoff'')
                  else Inr (FRM_INVALIDATE_XMAX, InvalidTransactionId))
            else Inr (FRM_RETURN_IS_XID False, update_xact)))"

text \<open>What becomes of the members that are kept.\<close>

definition freeze_members ::
  "freeze_ops \<Rightarrow> xact_env \<Rightarrow> kept_members \<Rightarrow> (FRM \<times> uint32) \<times> xact_env" where
  "freeze_members ops env k =
     (if newmembers k = [] then ((FRM_INVALIDATE_XMAX, InvalidTransactionId), env)
      else if update_xid k \<noteq> InvalidTransactionId \<and> \<not> has_lockers k
      then ((FRM_RETURN_IS_XID (update_committed k), update_xid k), env)
      else (case MultiXactIdCreateFromMembers ops env (newmembers k) of (newxmax, env) \<Rightarrow> ((FRM_RETURN_IS_MULTI, newxmax), env)))"

definition FreezeMultiXactId ::
  "freeze_ops \<Rightarrow> xact_env \<Rightarrow> uint32 \<Rightarrow> uint16 \<Rightarrow> VacuumCutoffs \<Rightarrow> HeapPageFreeze
     \<Rightarrow> ((FRM \<times> uint32) \<times> HeapPageFreeze \<times> xact_env) result" where
  "FreezeMultiXactId ops env multi infomask cutoffs pagefrz =
     (let required = pagefrz\<lparr>freeze_required := True\<rparr>
      in if multi = InvalidMultiXactId \<or> HEAP_LOCKED_UPGRADED infomask
         then Inr ((FRM_INVALIDATE_XMAX, InvalidTransactionId), required, env)
         else if MultiXactIdPrecedes ops multi (relminmxid cutoffs)
         then Inl (Ereport ERROR ''found multixact from before relminmxid'')
         else if MultiXactIdPrecedes ops multi (OldestMxact cutoffs)
         then (case freeze_old_multi env multi infomask cutoffs of Inl e \<Rightarrow> Inl e | Inr r \<Rightarrow> Inr (r, required, env))
         else
           (let members = GetMultiXactIdMembers env multi;
                (too_old, oldest) = oldest_member env cutoffs members (FreezePageRelfrozenXid pagefrz)
            in if members = [] then Inr ((FRM_INVALIDATE_XMAX, InvalidTransactionId), required, env)
               else if \<not> too_old \<and> \<not> MultiXactIdPrecedes ops multi (MultiXactCutoff cutoffs)
               then Inr ((FRM_NOOP, multi),
                         pagefrz\<lparr>FreezePageRelfrozenXid := oldest,
                                 FreezePageRelminMxid := (if MultiXactIdPrecedes ops multi (FreezePageRelminMxid pagefrz)
                                                          then multi else FreezePageRelminMxid pagefrz)\<rparr>, env)
               else (case keep_members env cutoffs members no_members of
                       Inl e \<Rightarrow> Inl e
                     | Inr k \<Rightarrow> (case freeze_members ops env k of (r, env) \<Rightarrow> Inr (r, required, env)))))"

section \<open>Must a tuple be frozen\<close>

text \<open>The trackers are the oldest transaction id and the oldest multixact seen.\<close>

definition track :: "('a \<Rightarrow> 'a \<Rightarrow> bool) \<Rightarrow> 'a \<Rightarrow> 'a \<Rightarrow> 'a" where
  "track precedes x oldest = (if precedes x oldest then x else oldest)"

fun should_freeze_members :: "xact_env \<Rightarrow> VacuumCutoffs \<Rightarrow> MultiXactMember list \<Rightarrow> bool \<Rightarrow> uint32 \<Rightarrow> bool \<times> uint32" where
  "should_freeze_members env cutoffs [] freeze oldest = (freeze, oldest)"
| "should_freeze_members env cutoffs (m # ms) freeze oldest =
     should_freeze_members env cutoffs ms (freeze \<or> TransactionIdPrecedes env (mxid m) (FreezeLimit cutoffs))
       (track (TransactionIdPrecedes env) (mxid m) oldest)"

definition should_freeze_xmin :: "xact_env \<Rightarrow> VacuumCutoffs \<Rightarrow> HeapTupleHeader \<Rightarrow> uint32 \<Rightarrow> bool \<times> uint32" where
  "should_freeze_xmin env cutoffs tuple oldest =
     (let xid = HeapTupleHeaderGetXmin tuple
      in if TransactionIdIsNormal xid
         then (TransactionIdPrecedes env xid (FreezeLimit cutoffs), track (TransactionIdPrecedes env) xid oldest)
         else (False, oldest))"

definition should_freeze_xmax ::
  "freeze_ops \<Rightarrow> xact_env \<Rightarrow> VacuumCutoffs \<Rightarrow> HeapTupleHeader \<Rightarrow> uint32 \<times> uint32 \<Rightarrow> bool \<times> uint32 \<times> uint32" where
  "should_freeze_xmax ops env cutoffs tuple oldest =
     (let precedes = TransactionIdPrecedes env; mprecedes = MultiXactIdPrecedes ops;
          xid = (if has HEAP_XMAX_IS_MULTI tuple then InvalidTransactionId else t_xmax tuple);
          multi = (if has HEAP_XMAX_IS_MULTI tuple then t_xmax tuple else InvalidMultiXactId);
          (oldxid, oldmulti) = oldest
      in if TransactionIdIsNormal xid then (precedes xid (FreezeLimit cutoffs), track precedes xid oldxid, oldmulti)
         else if multi = InvalidMultiXactId then (False, oldest)
         else if HEAP_LOCKED_UPGRADED (t_infomask tuple) then (True, oldxid, track mprecedes multi oldmulti)
         else (let (freeze, oldxid) = should_freeze_members env cutoffs (GetMultiXactIdMembers env multi)
                                        (mprecedes multi (MultiXactCutoff cutoffs)) oldxid
               in (freeze, oldxid, track mprecedes multi oldmulti)))"

definition should_freeze_xvac :: "xact_env \<Rightarrow> HeapTupleHeader \<Rightarrow> uint32 \<Rightarrow> bool \<times> uint32" where
  "should_freeze_xvac env tuple oldest =
     (let xid = HeapTupleHeaderGetXvac tuple
      in if has HEAP_MOVED tuple \<and> TransactionIdIsNormal xid then (True, track (TransactionIdPrecedes env) xid oldest) else (False, oldest))"

definition pg_tde_tuple_should_freeze ::
  "freeze_ops \<Rightarrow> xact_env \<Rightarrow> HeapTupleHeader \<Rightarrow> VacuumCutoffs \<Rightarrow> uint32 \<times> uint32 \<Rightarrow> bool \<times> uint32 \<times> uint32" where
  "pg_tde_tuple_should_freeze ops env tuple cutoffs oldest =
     (let (f1, oldxid) = should_freeze_xmin env cutoffs tuple (fst oldest);
          (f2, oldxid, oldmulti) = should_freeze_xmax ops env cutoffs tuple (oldxid, snd oldest);
          (f3, oldxid) = should_freeze_xvac env tuple oldxid
      in (f1 \<or> f2 \<or> f3, oldxid, oldmulti))"

definition pg_tde_tuple_needs_eventual_freeze :: "HeapTupleHeader \<Rightarrow> bool" where
  "pg_tde_tuple_needs_eventual_freeze tuple =
     (TransactionIdIsNormal (HeapTupleHeaderGetXmin tuple) \<or>
      (if has HEAP_XMAX_IS_MULTI tuple then t_xmax tuple \<noteq> InvalidMultiXactId else TransactionIdIsNormal (t_xmax tuple)) \<or>
      has HEAP_MOVED tuple \<and> TransactionIdIsNormal (HeapTupleHeaderGetXvac tuple))"
section \<open>Deciding for a tuple\<close>

text \<open>The plan for the xmax: its new value and bits, and which of the local flags are set.\<close>

record xmax_plan =
  xp_xmax :: uint32
  xp_infomask2 :: uint16
  xp_infomask :: uint16
  replace_xmax :: bool
  freeze_xmax :: bool
  xmax_already_frozen :: bool
  check_aborted :: bool

definition prepare_xmax ::
  "freeze_ops \<Rightarrow> xact_env \<Rightarrow> HeapTupleHeader \<Rightarrow> VacuumCutoffs \<Rightarrow> HeapPageFreeze
     \<Rightarrow> (xmax_plan \<times> HeapPageFreeze \<times> xact_env) result" where
  "prepare_xmax ops env tuple cutoffs pagefrz =
     (let xid = t_xmax tuple; m = t_infomask tuple; m2 = t_infomask2 tuple;
          plan = \<lparr>xp_xmax = xid, xp_infomask2 = m2, xp_infomask = m, replace_xmax = False, freeze_xmax = False,
                  xmax_already_frozen = False, check_aborted = False\<rparr>
      in if has HEAP_XMAX_IS_MULTI tuple
         then (case FreezeMultiXactId ops env xid m cutoffs pagefrz of
                 Inl e \<Rightarrow> Inl e
               | Inr ((flags, newxmax), pagefrz, env) \<Rightarrow>
                   Inr (case flags of
                          FRM_NOOP \<Rightarrow> plan
                        | FRM_RETURN_IS_XID committed \<Rightarrow>
                            plan\<lparr>xp_xmax := newxmax, replace_xmax := True,
                                 xp_infomask := (m AND NOT HEAP_XMAX_BITS) OR (if committed then HEAP_XMAX_COMMITTED else 0)\<rparr>
                        | FRM_RETURN_IS_MULTI \<Rightarrow>
                            (let (newbits, newbits2) = GetMultiXactIdHintBits env newxmax
                             in plan\<lparr>xp_xmax := newxmax, replace_xmax := True,
                                     xp_infomask := (m AND NOT HEAP_XMAX_BITS) OR newbits,
                                     xp_infomask2 := (m2 AND NOT HEAP_KEYS_UPDATED) OR newbits2\<rparr>)
                        | FRM_INVALIDATE_XMAX \<Rightarrow> plan\<lparr>freeze_xmax := True\<rparr>, pagefrz, env))
         else if TransactionIdIsNormal xid
         then (if TransactionIdPrecedes env xid (relfrozenxid cutoffs)
               then Inl (Ereport ERROR ''found xmax from before relfrozenxid'')
               else (let freeze = TransactionIdPrecedes env xid (OldestXmin cutoffs)
                     in Inr (plan\<lparr>freeze_xmax := freeze, check_aborted := (freeze \<and> \<not> HEAP_XMAX_IS_LOCKED_ONLY m)\<rparr>, pagefrz, env)))
         else if xid = InvalidTransactionId then Inr (plan\<lparr>xmax_already_frozen := True\<rparr>, pagefrz, env)
         else Inl (Ereport ERROR ''found raw xmax not invalid and not multi''))"

definition prepare_xmin :: "xact_env \<Rightarrow> HeapTupleHeader \<Rightarrow> VacuumCutoffs \<Rightarrow> (bool \<times> bool) result" where
  "prepare_xmin env tuple cutoffs =
     (let xid = HeapTupleHeaderGetXmin tuple
      in if \<not> TransactionIdIsNormal xid then Inr (True, False)
         else if TransactionIdPrecedes env xid (relfrozenxid cutoffs)
         then Inl (Ereport ERROR ''found xmin from before relfrozenxid'')
         else Inr (False, TransactionIdPrecedes env xid (OldestXmin cutoffs)))"

text \<open>The plan as it is written for the caller, from the flags.\<close>

definition tuple_plan :: "HeapTupleHeader \<Rightarrow> bool \<Rightarrow> bool \<Rightarrow> xmax_plan \<Rightarrow> HeapTupleFreeze" where
  "tuple_plan tuple freeze_xmin replace_xvac xp =
     (let m = (if freeze_xmin then xp_infomask xp OR HEAP_XMIN_FROZEN else xp_infomask xp)
      in \<lparr>frz_xmax = (if freeze_xmax xp then InvalidTransactionId else xp_xmax xp),
          frz_infomask2 = (if freeze_xmax xp then (xp_infomask2 xp AND NOT HEAP_HOT_UPDATED) AND NOT HEAP_KEYS_UPDATED else xp_infomask2 xp),
          frz_infomask = (if freeze_xmax xp then (m AND NOT HEAP_XMAX_BITS) OR HEAP_XMAX_INVALID else m),
          frzflags = (if replace_xvac then (if has HEAP_MOVED_OFF tuple then XLH_INVALID_XVAC else XLH_FREEZE_XVAC) else 0),
          checkflags = (if freeze_xmin then HEAP_FREEZE_CHECK_XMIN_COMMITTED else 0) OR
                       (if check_aborted xp then HEAP_FREEZE_CHECK_XMAX_ABORTED else 0),
          frz_offset = 0\<rparr>)"

text \<open>
  The results: whether there is something to freeze, the plan, whether nothing is left to freeze
  afterwards, the page's state, and the server, which may have a new multixact.
\<close>

record freeze_result =
  do_freeze :: bool
  the_plan :: HeapTupleFreeze
  totally_frozen :: bool
  page_freeze :: HeapPageFreeze
  server_after :: xact_env

definition pg_tde_prepare_freeze_tuple ::
  "freeze_ops \<Rightarrow> xact_env \<Rightarrow> HeapTupleHeader \<Rightarrow> VacuumCutoffs \<Rightarrow> HeapPageFreeze \<Rightarrow> freeze_result result" where
  "pg_tde_prepare_freeze_tuple ops env tuple cutoffs pagefrz =
     (case prepare_xmin env tuple cutoffs of
        Inl e \<Rightarrow> Inl e
      | Inr (xmin_already_frozen, freeze_xmin) \<Rightarrow>
          (let replace_xvac = TransactionIdIsNormal (HeapTupleHeaderGetXvac tuple);
               pagefrz = (if replace_xvac then pagefrz\<lparr>freeze_required := True\<rparr> else pagefrz)
           in case prepare_xmax ops env tuple cutoffs pagefrz of
                Inl e \<Rightarrow> Inl e
              | Inr (xp, pagefrz, env) \<Rightarrow>
                  (let pagefrz = (if \<not> freeze_required pagefrz \<and> \<not> (xmin_already_frozen \<and> xmax_already_frozen xp)
                         then (let (f, oldxid, oldmulti) = pg_tde_tuple_should_freeze ops env tuple cutoffs
                                 (NoFreezePageRelfrozenXid pagefrz, NoFreezePageRelminMxid pagefrz)
                               in pagefrz\<lparr>freeze_required := f, NoFreezePageRelfrozenXid := oldxid, NoFreezePageRelminMxid := oldmulti\<rparr>)
                         else pagefrz)
                   in Inr \<lparr>do_freeze = (freeze_xmin \<or> replace_xvac \<or> replace_xmax xp \<or> freeze_xmax xp),
                           the_plan = tuple_plan tuple freeze_xmin replace_xvac xp,
                           totally_frozen = ((freeze_xmin \<or> xmin_already_frozen) \<and> (freeze_xmax xp \<or> xmax_already_frozen xp)),
                           page_freeze = pagefrz, server_after = env\<rparr>)))"

section \<open>Doing it\<close>

definition pg_tde_execute_freeze_tuple :: "HeapTupleHeader \<Rightarrow> HeapTupleFreeze \<Rightarrow> HeapTupleHeader" where
  "pg_tde_execute_freeze_tuple tuple frz =
     (let f3 = (if frzflags frz AND XLH_FREEZE_XVAC \<noteq> 0 then FrozenTransactionId else t_field3 tuple);
          f3 = (if frzflags frz AND XLH_INVALID_XVAC \<noteq> 0 then InvalidTransactionId else f3)
      in tuple\<lparr>t_xmax := frz_xmax frz, t_field3 := f3, t_infomask := frz_infomask frz, t_infomask2 := frz_infomask2 frz\<rparr>)"

text \<open>The checks before a prepared plan is carried out.\<close>

definition freeze_checks :: "xact_env \<Rightarrow> HeapTupleHeader \<Rightarrow> HeapTupleFreeze \<Rightarrow> unit result" where
  "freeze_checks env htup frz =
     (if checkflags frz AND HEAP_FREEZE_CHECK_XMIN_COMMITTED \<noteq> 0 \<and> \<not> TransactionIdDidCommit env (t_xmin htup)
      then Inl (Ereport ERROR ''uncommitted xmin needs to be frozen'')
      else if checkflags frz AND HEAP_FREEZE_CHECK_XMAX_ABORTED \<noteq> 0 \<and> TransactionIdDidCommit env (t_xmax htup)
      then Inl (Ereport ERROR ''cannot freeze committed xmax'')
      else Inr ())"

text \<open>
  Freezing in place, for a table that is being written anew. The checks are not made here: the
  code calls \<^verbatim>\<open>pg_tde_execute_freeze_tuple\<close> alone.
\<close>

definition pg_tde_freeze_tuple ::
  "freeze_ops \<Rightarrow> xact_env \<Rightarrow> HeapTupleHeader \<Rightarrow> uint32 \<Rightarrow> uint32 \<Rightarrow> uint32 \<Rightarrow> uint32
     \<Rightarrow> (bool \<times> HeapTupleHeader \<times> xact_env) result" where
  "pg_tde_freeze_tuple ops env tuple relfrozen relmin limit cutoff =
     (let cutoffs = \<lparr>relfrozenxid = relfrozen, relminmxid = relmin, OldestXmin = limit, OldestMxact = cutoff,
                     FreezeLimit = limit, MultiXactCutoff = cutoff\<rparr>;
          pagefrz = \<lparr>freeze_required = True, FreezePageRelfrozenXid = limit, FreezePageRelminMxid = cutoff,
                     NoFreezePageRelfrozenXid = limit, NoFreezePageRelminMxid = cutoff\<rparr>
      in case pg_tde_prepare_freeze_tuple ops env tuple cutoffs pagefrz of
           Inl e \<Rightarrow> Inl e
         | Inr r \<Rightarrow> Inr (do_freeze r, if do_freeze r then pg_tde_execute_freeze_tuple tuple (the_plan r) else tuple, server_after r))"
section \<open>What the server promises\<close>

text \<open>
  A new multixact has the members it was created from, is a valid number that is not old, and
  nothing else about the server changes. A transaction before the removal cutoff is finished, and
  the freeze limits do not lie behind the removal cutoffs.
\<close>

definition freeze_ops_ok :: "freeze_ops \<Rightarrow> VacuumCutoffs \<Rightarrow> bool" where
  "freeze_ops_ok ops cutoffs \<longleftrightarrow>
     (\<forall>env ms m env'. MultiXactIdCreateFromMembers ops env ms = (m, env') \<longrightarrow>
        m \<noteq> 0 \<and> \<not> MultiXactIdPrecedes ops m (OldestMxact cutoffs) \<and>
        (\<exists>run. env' = env\<lparr>GetMultiXactIdMembers := (GetMultiXactIdMembers env)(m := ms), MultiXactIdIsRunning := run\<rparr>))"

definition cutoffs_ok :: "freeze_ops \<Rightarrow> xact_env \<Rightarrow> VacuumCutoffs \<Rightarrow> bool" where
  "cutoffs_ok ops env cutoffs \<longleftrightarrow>
     (\<forall>x. TransactionIdPrecedes env x (FreezeLimit cutoffs) \<longrightarrow> TransactionIdPrecedes env x (OldestXmin cutoffs)) \<and>
     (\<forall>m. MultiXactIdPrecedes ops m (MultiXactCutoff cutoffs) \<longrightarrow> MultiXactIdPrecedes ops m (OldestMxact cutoffs)) \<and>
     (\<forall>x. TransactionIdPrecedes env x (OldestXmin cutoffs) \<longrightarrow> \<not> TransactionIdIsInProgress env x)"

text \<open>The command ids of a tuple depend on their field and on the bit for combined command ids.\<close>

abbreviation (input) HEAP_COMBOCID :: uint16 where "HEAP_COMBOCID \<equiv> 0x0020"

definition cmds_ok :: "xact_env \<Rightarrow> bool" where
  "cmds_ok env \<longleftrightarrow>
     (\<forall>t u. t_field3 t = t_field3 u \<and> t_xmin t = t_xmin u \<and> has HEAP_COMBOCID t = has HEAP_COMBOCID u \<longrightarrow>
        HeapTupleHeaderGetCmin env t = HeapTupleHeaderGetCmin env u \<and> HeapTupleHeaderGetCmax env t = HeapTupleHeaderGetCmax env u)"

definition same_server :: "xact_env \<Rightarrow> xact_env \<Rightarrow> bool" where
  "same_server env env' \<longleftrightarrow> (\<exists>mem run. env' = env\<lparr>GetMultiXactIdMembers := mem, MultiXactIdIsRunning := run\<rparr>)"

lemma same_server_refl [simp]: "same_server env env"
proof -
  have "env = env\<lparr>GetMultiXactIdMembers := GetMultiXactIdMembers env, MultiXactIdIsRunning := MultiXactIdIsRunning env\<rparr>"
    by simp
  then show ?thesis
    unfolding same_server_def by blast
qed

lemma same_server_sel:
  assumes "same_server env env'"
  shows "TransactionIdIsCurrentTransactionId env' = TransactionIdIsCurrentTransactionId env"
    "TransactionIdIsInProgress env' = TransactionIdIsInProgress env" "TransactionIdDidCommit env' = TransactionIdDidCommit env"
    "TransactionIdPrecedes env' = TransactionIdPrecedes env"
    "HeapTupleHeaderGetCmin env' = HeapTupleHeaderGetCmin env" "HeapTupleHeaderGetCmax env' = HeapTupleHeaderGetCmax env"
    "gone env' = gone env" "ended_committed env' = ended_committed env" "alive env' = alive env" "in_effect env' = in_effect env"
    "xact_ok env' = xact_ok env" "snapshot_ok env' = snapshot_ok env"
  using assms
  by (auto simp: same_server_def gone_def ended_committed_def alive_def in_effect_def xact_ok_def snapshot_ok_def fun_eq_iff)

section \<open>The bits of a plan\<close>

lemma xmax_bits_bit: "bit (HEAP_XMAX_BITS :: uint16) n \<longleftrightarrow> n \<in> {4, 6, 7, 10, 11, 12}"
proof (cases "n < 16")
  case True
  then have "n \<in> {0,1,2,3,4,5,6,7,8,9,10,11,12,13,14,15}"
    by (simp add: numeral_eq_Suc less_Suc_eq)
  then show ?thesis
    by (elim insertE emptyE) (simp_all add: bit_simps)
next
  case False
  then show ?thesis
    using bit_imp_le_length [of "HEAP_XMAX_BITS :: uint16" n] by auto
qed

lemma bit_cleared:
  "bit (m AND NOT HEAP_XMAX_BITS) n \<longleftrightarrow> bit m n \<and> n \<notin> {4, 6, 7, 10, 11, 12}"
  "bit (m AND - 7377) n \<longleftrightarrow> bit m n \<and> n \<notin> {4, 6, 7, 10, 11, 12}" for m :: uint16
proof -
  show "bit (m AND NOT HEAP_XMAX_BITS) n \<longleftrightarrow> bit m n \<and> n \<notin> {4, 6, 7, 10, 11, 12}"
    using bit_imp_le_length [of m n] unfolding bit_and_iff bit_not_iff xmax_bits_bit by auto
  then show "bit (m AND - 7377) n \<longleftrightarrow> bit m n \<and> n \<notin> {4, 6, 7, 10, 11, 12}"
    by simp
qed

lemma hint_bits_values:
  assumes "GetMultiXactIdHintBits env x = (m, m2)"
  shows "m \<in> {0x1040, 0x10C0, 0x1050, 0x10D0, 0x1010, 0x1090}"
  using assms by (auto simp: GetMultiXactIdHintBits_def split: prod.splits if_splits)

lemma hint_bits_bits:
  assumes "GetMultiXactIdHintBits env x = (m, m2)"
  shows "bit m n \<Longrightarrow> n \<in> {4, 6, 7, 12}" "bit m 12" "bit m 4 \<or> bit m 6"
proof -
  have p: "(0x1040 :: uint16) = 2 ^ 6 OR 2 ^ 12" "(0x10C0 :: uint16) = 2 ^ 6 OR (2 ^ 7 OR 2 ^ 12)"
    "(0x1050 :: uint16) = 2 ^ 4 OR (2 ^ 6 OR 2 ^ 12)" "(0x10D0 :: uint16) = 2 ^ 4 OR (2 ^ 6 OR (2 ^ 7 OR 2 ^ 12))"
    "(0x1010 :: uint16) = 2 ^ 4 OR 2 ^ 12" "(0x1090 :: uint16) = 2 ^ 4 OR (2 ^ 7 OR 2 ^ 12)"
    by simp_all
  show "bit m n \<Longrightarrow> n \<in> {4, 6, 7, 12}" "bit m 12" "bit m 4 \<or> bit m 6"
    using hint_bits_values [OF assms] unfolding p
    by (auto simp only: insert_iff empty_iff bit_or_iff bit_exp_iff possible_bit_word) simp_all
qed

text \<open>With the xmax bits cleared and others of them set, a header shows what the new bits say.\<close>

lemma updater_of_plain: "updater_of env x (m AND NOT HEAP_XMAX_BITS) = x"
  "updater_of env x ((m AND NOT HEAP_XMAX_BITS) OR HEAP_XMAX_COMMITTED) = x"
  "updater_of env x ((m AND NOT HEAP_XMAX_BITS) OR HEAP_XMAX_INVALID) = x"
  by (simp_all add: updater_of_def locked_only_bits masks_nonzero hint_bit bit_cleared)

lemma locked_only_new_bits:
  assumes "GetMultiXactIdHintBits env x = (b, b2)"
  shows "HEAP_XMAX_IS_LOCKED_ONLY ((m AND NOT HEAP_XMAX_BITS) OR b) = HEAP_XMAX_IS_LOCKED_ONLY b"
    "((m AND NOT HEAP_XMAX_BITS) OR b) AND HEAP_XMAX_IS_MULTI \<noteq> 0"
  using hint_bits_bits [OF assms] by (simp_all add: locked_only_bits masks_nonzero bit_or_iff bit_cleared)

lemma updater_of_new_bits:
  assumes "GetMultiXactIdHintBits env x = (b, b2)"
  shows "updater_of env x ((m AND NOT HEAP_XMAX_BITS) OR b) = (case updaters (GetMultiXactIdMembers env x) of [] \<Rightarrow> 0 | k # _ \<Rightarrow> mxid k)"
proof -
  have "updater_of env x ((m AND NOT HEAP_XMAX_BITS) OR b) = updater_of env x b"
    using locked_only_new_bits [OF assms, of m] hint_bits_lock_only(1) [OF assms]
    by (simp add: updater_of_def MultiXactIdGetUpdateXid_def)
  then show ?thesis
    unfolding updater_of_multi [OF assms] .
qed
section \<open>The members that are kept\<close>

definition kept :: "xact_env \<Rightarrow> MultiXactMember \<Rightarrow> bool" where
  "kept env m \<longleftrightarrow>
     TransactionIdIsCurrentTransactionId env (mxid m) \<or> TransactionIdIsInProgress env (mxid m) \<or>
     (ISUPDATE_from_mxstatus (mxstatus m) \<and> TransactionIdDidCommit env (mxid m))"

lemma kept_alive:
  assumes "xact_ok env"
  shows "ISUPDATE_from_mxstatus (mxstatus m) \<Longrightarrow> kept env m \<longleftrightarrow> alive env (mxid m)" "kept env m \<Longrightarrow> mxid m \<noteq> 0"
  using assms by (auto simp: kept_def alive_def xact_ok_def gone_def)

text \<open>The second pass keeps exactly these, unless it finds one that is too old or a second updater.\<close>

lemma keep_members_result:
  assumes env: "xact_ok env"
  shows "keep_members env cutoffs ms k0 = Inr k \<Longrightarrow>
    newmembers k = newmembers k0 @ filter (kept env) ms \<and>
    (\<forall>m\<in>set ms. kept env m \<longrightarrow> \<not> TransactionIdPrecedes env (mxid m) (OldestXmin cutoffs)) \<and>
    (has_lockers k \<longleftrightarrow> has_lockers k0 \<or> (\<exists>m\<in>set ms. \<not> ISUPDATE_from_mxstatus (mxstatus m) \<and> kept env m)) \<and>
    (if update_xid k0 \<noteq> 0 then update_xid k = update_xid k0 \<and> update_committed k = update_committed k0
     else update_xid k = (case updaters (filter (kept env) ms) of [] \<Rightarrow> 0 | u # _ \<Rightarrow> mxid u) \<and>
       (update_committed k \<longrightarrow> update_committed k0 \<or> ended_committed env (update_xid k)))"
proof (induction ms arbitrary: k0)
  case Nil
  then show ?case
    by (simp add: updaters_def)
next
  case (Cons m ms)
  let ?x = "mxid m"
  let ?run = "TransactionIdIsCurrentTransactionId env ?x \<or> TransactionIdIsInProgress env ?x"
  let ?old = "TransactionIdPrecedes env ?x (OldestXmin cutoffs)"
  note r = Cons.prems
  consider (skip) "\<not> kept env m" "keep_members env cutoffs ms k0 = Inr k"
    | (locker) "kept env m" "\<not> ISUPDATE_from_mxstatus (mxstatus m)" "\<not> ?old"
        "keep_members env cutoffs ms (k0\<lparr>newmembers := newmembers k0 @ [m], has_lockers := True\<rparr>) = Inr k"
    | (upd) "kept env m" "ISUPDATE_from_mxstatus (mxstatus m)" "\<not> ?old" "update_xid k0 = 0"
        "keep_members env cutoffs ms (k0\<lparr>newmembers := newmembers k0 @ [m], update_xid := ?x, update_committed := (update_committed k0 \<or> \<not> ?run)\<rparr>) = Inr k"
  proof (cases "ISUPDATE_from_mxstatus (mxstatus m)")
    case True
    then show thesis
      using r that(1,3) by (auto simp: Let_def kept_def split: if_splits)
  next
    case False
    then show thesis
      using r that(1,2) by (auto simp: Let_def kept_def split: if_splits)
  qed
  then show ?case
  proof cases
    case skip
    have "filter (kept env) (m # ms) = filter (kept env) ms"
      using skip(1) by simp
    with Cons.IH [OF skip(2)] skip(1) show ?thesis
      by (cases "update_xid k0 = 0") auto
  next
    case locker
    have f: "filter (kept env) (m # ms) = m # filter (kept env) ms" "updaters (m # filter (kept env) ms) = updaters (filter (kept env) ms)"
      using locker(1,2) by (simp_all add: updaters_def)
    show ?thesis
      using Cons.IH [OF locker(4)] locker(1-3) unfolding f
      by (cases "update_xid k0 = 0") auto
  next
    case upd
    have x: "?x \<noteq> 0"
      using kept_alive(2) [OF env upd(1)] .
    have c: "\<not> ?run \<Longrightarrow> ended_committed env ?x"
      using upd(1) by (simp add: kept_def ended_committed_def)
    have f: "filter (kept env) (m # ms) = m # filter (kept env) ms" "updaters (m # filter (kept env) ms) = m # updaters (filter (kept env) ms)"
      using upd(1,2) by (simp_all add: updaters_def)
    show ?thesis
      using Cons.IH [OF upd(5)] upd(1-4) x c unfolding f by auto
  qed
qed

lemma oldest_member_fine:
  "oldest_member env cutoffs ms oldest = (False, oldest') \<Longrightarrow>
     m \<in> set ms \<Longrightarrow> \<not> TransactionIdPrecedes env (mxid m) (FreezeLimit cutoffs)"
  by (induction ms arbitrary: oldest) (auto split: if_splits)

lemma should_members_fine:
  "fst (should_freeze_members env cutoffs ms freeze oldest) \<longleftrightarrow>
     freeze \<or> (\<exists>m\<in>set ms. TransactionIdPrecedes env (mxid m) (FreezeLimit cutoffs))"
  by (induction ms arbitrary: freeze oldest) auto

text \<open>
  What \<open>FreezeMultiXactId\<close> tells its caller about the updater: the header that results shows the
  same updater, or neither the old nor the new one has an effect.
\<close>

definition same_effect :: "xact_env \<Rightarrow> uint32 \<Rightarrow> uint32 \<Rightarrow> bool" where
  "same_effect env u v \<longleftrightarrow> u = v \<or> \<not> alive env u \<and> \<not> alive env v"

definition frm_ok :: "freeze_ops \<Rightarrow> xact_env \<Rightarrow> xact_env \<Rightarrow> VacuumCutoffs \<Rightarrow> uint32 \<Rightarrow> uint32 \<Rightarrow> FRM \<Rightarrow> uint32 \<Rightarrow> bool" where
  "frm_ok ops env env' cutoffs multi u flags newxmax \<longleftrightarrow>
     (case flags of
        FRM_NOOP \<Rightarrow> newxmax = multi \<and> env' = env \<and> \<not> MultiXactIdPrecedes ops multi (MultiXactCutoff cutoffs) \<and>
          (\<forall>m\<in>set (GetMultiXactIdMembers env multi). \<not> TransactionIdPrecedes env (mxid m) (FreezeLimit cutoffs))
      | FRM_INVALIDATE_XMAX \<Rightarrow> newxmax = 0 \<and> \<not> alive env u
      | FRM_RETURN_IS_XID committed \<Rightarrow> newxmax = u \<and> \<not> TransactionIdPrecedes env u (OldestXmin cutoffs) \<and>
          (committed \<longrightarrow> ended_committed env u)
      | FRM_RETURN_IS_MULTI \<Rightarrow> \<not> MultiXactIdPrecedes ops newxmax (OldestMxact cutoffs) \<and>
          (\<forall>m\<in>set (GetMultiXactIdMembers env' newxmax). \<not> TransactionIdPrecedes env (mxid m) (OldestXmin cutoffs)) \<and>
          same_effect env u (case updaters (GetMultiXactIdMembers env' newxmax) of [] \<Rightarrow> 0 | k # _ \<Rightarrow> mxid k))"

lemma filter_one: "length xs \<le> 1 \<Longrightarrow> filter P xs = (case xs of [] \<Rightarrow> [] | x # _ \<Rightarrow> if P x then [x] else [])"
  by (cases xs) auto

lemma kept_updater:
  assumes env: "xact_ok env" and one: "length (updaters ms) \<le> 1" and u: "u = (case updaters ms of [] \<Rightarrow> 0 | k # _ \<Rightarrow> mxid k)"
  defines "v \<equiv> (case updaters (filter (kept env) ms) of [] \<Rightarrow> 0 | k # _ \<Rightarrow> mxid k)"
  shows "if alive env u then v = u \<and> v \<noteq> 0 else v = 0"
proof -
  have zero: "\<not> alive env 0"
    using env by (simp add: alive_def xact_ok_def gone_def)
  have "updaters (filter (kept env) ms) = filter (kept env) (updaters ms)"
    by (simp add: updaters_def conj_commute)
  then have v: "v = (case updaters ms of [] \<Rightarrow> 0 | k # _ \<Rightarrow> if kept env k then mxid k else 0)"
    unfolding v_def by (simp add: filter_one [OF one] split: list.split)
  show ?thesis
  proof (cases "updaters ms")
    case Nil
    then show ?thesis
      using zero u v by simp
  next
    case (Cons k ks)
    then have "k \<in> set (updaters ms)"
      by simp
    then have "ISUPDATE_from_mxstatus (mxstatus k)"
      by (simp add: updaters_def)
    then have "kept env k \<longleftrightarrow> alive env (mxid k)"
      by (rule kept_alive(1) [OF env])
    then show ?thesis
      using Cons u v kept_alive(2) [OF env, of k] by simp
  qed
qed

lemma FreezeMultiXactId_eqs:
  "multi = 0 \<or> HEAP_LOCKED_UPGRADED infomask \<Longrightarrow>
     FreezeMultiXactId ops env multi infomask cutoffs pagefrz = Inr ((FRM_INVALIDATE_XMAX, 0), pagefrz\<lparr>freeze_required := True\<rparr>, env)"
  "multi \<noteq> 0 \<Longrightarrow> \<not> HEAP_LOCKED_UPGRADED infomask \<Longrightarrow> MultiXactIdPrecedes ops multi (relminmxid cutoffs) \<Longrightarrow>
     FreezeMultiXactId ops env multi infomask cutoffs pagefrz = Inl (Ereport ERROR ''found multixact from before relminmxid'')"
  "multi \<noteq> 0 \<Longrightarrow> \<not> HEAP_LOCKED_UPGRADED infomask \<Longrightarrow> \<not> MultiXactIdPrecedes ops multi (relminmxid cutoffs) \<Longrightarrow>
     MultiXactIdPrecedes ops multi (OldestMxact cutoffs) \<Longrightarrow>
     FreezeMultiXactId ops env multi infomask cutoffs pagefrz =
       (case freeze_old_multi env multi infomask cutoffs of Inl e \<Rightarrow> Inl e | Inr r \<Rightarrow> Inr (r, pagefrz\<lparr>freeze_required := True\<rparr>, env))"
  by (simp_all add: FreezeMultiXactId_def Let_def)

text \<open>A multixact that is not old: what is found, with both passes.\<close>

lemma FreezeMultiXactId_new:
  assumes "multi \<noteq> 0" "\<not> HEAP_LOCKED_UPGRADED infomask" "\<not> MultiXactIdPrecedes ops multi (relminmxid cutoffs)"
    "\<not> MultiXactIdPrecedes ops multi (OldestMxact cutoffs)"
    and r: "FreezeMultiXactId ops env multi infomask cutoffs pagefrz = Inr (x, pagefrz', env')"
  obtains (none) "GetMultiXactIdMembers env multi = []" "x = (FRM_INVALIDATE_XMAX, 0)" "freeze_required pagefrz'" "env' = env"
    | (noop) "\<not> MultiXactIdPrecedes ops multi (MultiXactCutoff cutoffs)"
        "\<forall>m\<in>set (GetMultiXactIdMembers env multi). \<not> TransactionIdPrecedes env (mxid m) (FreezeLimit cutoffs)"
        "x = (FRM_NOOP, multi)" "env' = env" "freeze_required pagefrz' = freeze_required pagefrz"
        "NoFreezePageRelfrozenXid pagefrz' = NoFreezePageRelfrozenXid pagefrz" "NoFreezePageRelminMxid pagefrz' = NoFreezePageRelminMxid pagefrz"
    | (thorough) k where "keep_members env cutoffs (GetMultiXactIdMembers env multi) no_members = Inr k"
        "freeze_members ops env k = (x, env')" "freeze_required pagefrz'"
proof -
  obtain too_old oldest where o: "oldest_member env cutoffs (GetMultiXactIdMembers env multi) (FreezePageRelfrozenXid pagefrz) = (too_old, oldest)"
    by fastforce
  define rest where "rest = (case keep_members env cutoffs (GetMultiXactIdMembers env multi) no_members of
       Inl e \<Rightarrow> Inl e
     | Inr k \<Rightarrow> (case freeze_members ops env k of (r, env) \<Rightarrow> Inr (r, pagefrz\<lparr>freeze_required := True\<rparr>, env)))"
  have r': "Inr (x, pagefrz', env') =
    (if GetMultiXactIdMembers env multi = [] then Inr ((FRM_INVALIDATE_XMAX, 0), pagefrz\<lparr>freeze_required := True\<rparr>, env)
     else if \<not> too_old \<and> \<not> MultiXactIdPrecedes ops multi (MultiXactCutoff cutoffs)
     then Inr ((FRM_NOOP, multi),
               pagefrz\<lparr>FreezePageRelfrozenXid := oldest,
                       FreezePageRelminMxid := (if MultiXactIdPrecedes ops multi (FreezePageRelminMxid pagefrz)
                                                then multi else FreezePageRelminMxid pagefrz)\<rparr>, env)
     else rest)"
    unfolding r [symmetric] rest_def FreezeMultiXactId_def Let_def o prod.case using assms(1-4) by (simp only: simp_thms if_False)
  consider "GetMultiXactIdMembers env multi = []"
    | "GetMultiXactIdMembers env multi \<noteq> []" "\<not> too_old \<and> \<not> MultiXactIdPrecedes ops multi (MultiXactCutoff cutoffs)"
    | "GetMultiXactIdMembers env multi \<noteq> []" "\<not> (\<not> too_old \<and> \<not> MultiXactIdPrecedes ops multi (MultiXactCutoff cutoffs))"
    by blast
  then show thesis
  proof cases
    case 1
    with r' none show thesis by simp
  next
    case 2
    then show thesis
      using r' oldest_member_fine [of env cutoffs _ _ oldest] o by (intro noop) auto
  next
    case 3
    have "rest = Inr (x, pagefrz', env')"
      using r' unfolding if_not_P [OF 3(1)] if_not_P [OF 3(2)] by (rule sym)
    then show thesis
      using thorough unfolding rest_def by (auto split: sum.splits prod.splits)
  qed
qed

lemma freeze_old_multi_result:
  assumes env: "xact_ok env" "multi_ok env" and mul: "infomask AND HEAP_XMAX_IS_MULTI \<noteq> 0"
    and r: "freeze_old_multi env multi infomask cutoffs = Inr (flags, newxmax)"
  shows "frm_ok ops env env cutoffs multi (updater_of env multi infomask) flags newxmax \<and> flags \<noteq> FRM_NOOP"
proof -
  let ?u = "updater_of env multi infomask"
  have dead0: "\<not> alive env 0"
    using env(1) by (simp add: alive_def xact_ok_def gone_def)
  have run: "\<not> MultiXactIdIsRunning env multi (HEAP_XMAX_IS_LOCKED_ONLY infomask)"
    using r by (auto simp: freeze_old_multi_def split: if_splits)
  show ?thesis
  proof (cases "HEAP_XMAX_IS_LOCKED_ONLY infomask")
    case True
    then have "?u = 0"
      by (simp add: updater_of_def)
    with True r run dead0 show ?thesis
      by (auto simp: freeze_old_multi_def frm_ok_def)
  next
    case False
    then have ux: "MultiXactIdGetUpdateXid env multi infomask = ?u"
      using mul by (simp add: updater_of_def)
    have "\<not> TransactionIdIsInProgress env (HeapTupleGetUpdateXid env \<lparr>t_xmin = 0, t_xmax = multi, t_field3 = 0, t_ctid = (0, 0), t_infomask2 = 0, t_infomask = infomask\<rparr>)"
      using update_xid_not_running [OF env] run False by simp
    then have "\<not> TransactionIdIsInProgress env ?u"
      by (simp add: HeapTupleGetUpdateXid_def ux)
    with False r run ux show ?thesis
      by (auto simp: freeze_old_multi_def frm_ok_def alive_def Let_def split: if_splits)
  qed
qed

lemma freeze_members_result:
  assumes env: "xact_ok env" and ops: "freeze_ops_ok ops cutoffs" and one: "length (updaters ms) \<le> 1"
    and u: "u = (case updaters ms of [] \<Rightarrow> 0 | k # _ \<Rightarrow> mxid k)"
    and k: "keep_members env cutoffs ms no_members = Inr k" and r: "freeze_members ops env k = ((flags, newxmax), env')"
  shows "frm_ok ops env env' cutoffs multi u flags newxmax \<and> same_server env env' \<and> flags \<noteq> FRM_NOOP"
proof -
  define v where "v = (case updaters (filter (kept env) ms) of [] \<Rightarrow> 0 | k # _ \<Rightarrow> mxid k)"
  have uv: "if alive env u then v = u \<and> v \<noteq> 0 else v = 0"
    unfolding v_def by (rule kept_updater [OF env one u])
  note kr = keep_members_result [OF env k]
  have nm: "newmembers k = filter (kept env) ms"
    using kr by (simp add: no_members_def)
  have young: "\<forall>m\<in>set ms. kept env m \<longrightarrow> \<not> TransactionIdPrecedes env (mxid m) (OldestXmin cutoffs)"
    using kr by blast
  have uk: "update_xid k = v" "update_committed k \<longrightarrow> ended_committed env v"
  proof -
    have z: "\<not> update_xid no_members \<noteq> 0" "\<not> update_committed no_members"
      by (simp_all add: no_members_def)
    show "update_xid k = v"
      using kr unfolding if_not_P [OF z(1)] v_def by blast
    then show "update_committed k \<longrightarrow> ended_committed env v"
      using kr z(2) unfolding if_not_P [OF z(1)] by blast
  qed
  consider (empty) "newmembers k = []" | (upd) "newmembers k \<noteq> []" "update_xid k \<noteq> 0 \<and> \<not> has_lockers k"
    | (multi) "newmembers k \<noteq> []" "\<not> (update_xid k \<noteq> 0 \<and> \<not> has_lockers k)"
    by blast
  then show ?thesis
  proof cases
    case empty
    then have "v = 0"
      by (simp add: nm v_def updaters_def)
    then have "\<not> alive env u"
      using uv by (auto split: if_splits)
    with empty r show ?thesis
      by (auto simp: freeze_members_def frm_ok_def)
  next
    case upd
    then have v: "v = u" "alive env u"
      using uv uk(1) by (auto split: if_splits)
    have "\<exists>m\<in>set (updaters (filter (kept env) ms)). mxid m = v"
      using upd(2) uk(1) by (cases "updaters (filter (kept env) ms)") (auto simp: v_def)
    then obtain m where "m \<in> set ms" "kept env m" "mxid m = v"
      by (auto simp: updaters_def)
    then have "\<not> TransactionIdPrecedes env u (OldestXmin cutoffs)"
      using young v(1) by blast
    with upd r uk v show ?thesis
      by (auto simp: freeze_members_def frm_ok_def)
  next
    case multi
    obtain m env2 where c: "MultiXactIdCreateFromMembers ops env (newmembers k) = (m, env2)"
      by fastforce
    with multi r have e: "flags = FRM_RETURN_IS_MULTI" "newxmax = m" "env' = env2"
      by (auto simp: freeze_members_def)
    obtain run where o: "\<not> MultiXactIdPrecedes ops m (OldestMxact cutoffs)"
      "env2 = env\<lparr>GetMultiXactIdMembers := (GetMultiXactIdMembers env)(m := newmembers k), MultiXactIdIsRunning := run\<rparr>"
      using ops c unfolding freeze_ops_ok_def by blast
    have mem: "GetMultiXactIdMembers env2 m = filter (kept env) ms"
      by (simp add: o(2) nm)
    have "\<not> alive env 0"
      using env by (simp add: alive_def xact_ok_def gone_def)
    then have "same_effect env u v"
      using uv by (auto simp: same_effect_def split: if_splits)
    then have "frm_ok ops env env' cutoffs multi u flags newxmax"
      using o(1) young by (auto simp: e mem frm_ok_def v_def)
    moreover have "same_server env env'"
      unfolding same_server_def e(3) o(2) by blast
    ultimately show ?thesis
      by (simp add: e)
  qed
qed

lemma FreezeMultiXactId_result:
  assumes env: "xact_ok env" "multi_ok env" and ops: "freeze_ops_ok ops cutoffs" and zero: "GetMultiXactIdMembers env 0 = []"
    and mh: "multi_header_ok env multi infomask" and mul: "infomask AND HEAP_XMAX_IS_MULTI \<noteq> 0"
    and r: "FreezeMultiXactId ops env multi infomask cutoffs pagefrz = Inr ((flags, newxmax), pagefrz', env')"
  shows "frm_ok ops env env' cutoffs multi (updater_of env multi infomask) flags newxmax \<and> same_server env env' \<and>
    (if flags = FRM_NOOP
     then multi \<noteq> 0 \<and> \<not> HEAP_LOCKED_UPGRADED infomask \<and> freeze_required pagefrz' = freeze_required pagefrz
     else freeze_required pagefrz')"
proof -
  let ?ms = "GetMultiXactIdMembers env multi" and ?u = "updater_of env multi infomask"
  have dead0: "\<not> alive env 0"
    using env(1) by (simp add: alive_def xact_ok_def gone_def)
  have one: "length (updaters ?ms) \<le> 1"
    using mh by (simp add: multi_header_ok_def)
  have u: "?u = (case updaters ?ms of [] \<Rightarrow> 0 | k # _ \<Rightarrow> mxid k)"
    using mh mul by (auto simp: multi_header_ok_def updater_of_def MultiXactIdGetUpdateXid_def updaters_def split: list.split)
  consider (gone) "multi = 0 \<or> HEAP_LOCKED_UPGRADED infomask"
    | (old) "multi \<noteq> 0" "\<not> HEAP_LOCKED_UPGRADED infomask" "\<not> MultiXactIdPrecedes ops multi (relminmxid cutoffs)"
        "MultiXactIdPrecedes ops multi (OldestMxact cutoffs)"
    | (new) "multi \<noteq> 0" "\<not> HEAP_LOCKED_UPGRADED infomask" "\<not> MultiXactIdPrecedes ops multi (relminmxid cutoffs)"
        "\<not> MultiXactIdPrecedes ops multi (OldestMxact cutoffs)"
    using r FreezeMultiXactId_eqs(2) [of multi infomask ops cutoffs env pagefrz] by force
  then show ?thesis
  proof cases
    case gone
    then have "?u = 0"
      using u zero LOCKED_UPGRADED_locked by (auto simp: updaters_def updater_of_def)
    with r dead0 show ?thesis
      unfolding FreezeMultiXactId_eqs(1) [OF gone] by (auto simp: frm_ok_def)
  next
    case old
    have f: "freeze_old_multi env multi infomask cutoffs = Inr (flags, newxmax)" "env' = env" "freeze_required pagefrz'"
      using r unfolding FreezeMultiXactId_eqs(3) [OF old] by (auto split: sum.splits)
    show ?thesis
      using freeze_old_multi_result [OF env mul f(1), of ops] f(2,3) by simp
  next
    case new
    show ?thesis
    proof (rule FreezeMultiXactId_new [OF new r])
      assume "?ms = []" "(flags, newxmax) = (FRM_INVALIDATE_XMAX, 0 :: uint32)" "freeze_required pagefrz'" "env' = env"
      then show ?thesis
        using u dead0 by (simp add: frm_ok_def updaters_def)
    next
      assume "\<not> MultiXactIdPrecedes ops multi (MultiXactCutoff cutoffs)"
        "\<forall>m\<in>set ?ms. \<not> TransactionIdPrecedes env (mxid m) (FreezeLimit cutoffs)"
        "(flags, newxmax) = (FRM_NOOP, multi)" "env' = env" "freeze_required pagefrz' = freeze_required pagefrz"
      then show ?thesis
        using new by (simp add: frm_ok_def)
    next
      fix k
      assume k: "keep_members env cutoffs ?ms no_members = Inr k"
        "freeze_members ops env k = ((flags, newxmax), env')" "freeze_required pagefrz'"
      show ?thesis
        using freeze_members_result [OF env(1) ops one u k(1,2), of multi] k(3) by simp
    qed
  qed
qed
section \<open>The plan for the xmax\<close>

text \<open>The xmax and its bits as they are after the plan is carried out, before the xmin's are set.\<close>

definition new_xmax :: "xmax_plan \<Rightarrow> uint32" where
  "new_xmax xp = (if freeze_xmax xp then InvalidTransactionId else xp_xmax xp)"

definition new_mask :: "xmax_plan \<Rightarrow> uint16" where
  "new_mask xp = (if freeze_xmax xp then (xp_infomask xp AND NOT HEAP_XMAX_BITS) OR HEAP_XMAX_INVALID else xp_infomask xp)"

text \<open>Bits that agree with the effect of the xmax, and nothing in it that is old.\<close>

definition xmax_bits_ok :: "xact_env \<Rightarrow> uint32 \<Rightarrow> uint16 \<Rightarrow> bool" where
  "xmax_bits_ok env x m \<longleftrightarrow>
     (bit m 11 \<longrightarrow> gone env (updater_of env x m)) \<and>
     (bit m 10 \<longrightarrow> \<not> bit m 12 \<and> \<not> HEAP_XMAX_IS_LOCKED_ONLY m \<and> ended_committed env x)"

definition xmax_young :: "freeze_ops \<Rightarrow> xact_env \<Rightarrow> VacuumCutoffs \<Rightarrow> uint32 \<Rightarrow> uint16 \<Rightarrow> bool" where
  "xmax_young ops env cutoffs x m \<longleftrightarrow>
     (if bit m 12
      then x \<noteq> 0 \<longrightarrow> \<not> HEAP_LOCKED_UPGRADED m \<and> \<not> MultiXactIdPrecedes ops x (MultiXactCutoff cutoffs) \<and>
        (\<forall>k\<in>set (GetMultiXactIdMembers env x). \<not> TransactionIdPrecedes env (mxid k) (FreezeLimit cutoffs))
      else TransactionIdIsNormal x \<longrightarrow> \<not> TransactionIdPrecedes env x (FreezeLimit cutoffs))"

lemma should_freeze_xmax_young:
  "fst (should_freeze_xmax ops env cutoffs t oldest) \<longleftrightarrow> \<not> xmax_young ops env cutoffs (t_xmax t) (t_infomask t)"
proof (cases "has HEAP_XMAX_IS_MULTI t")
  case True
  then show ?thesis
    by (auto simp: should_freeze_xmax_def xmax_young_def has_bit TransactionIdIsNormal_def Let_def should_members_fine
        split: prod.splits dest: arg_cong [where f = fst])
next
  case False
  then show ?thesis
    by (simp add: should_freeze_xmax_def xmax_young_def has_bit Let_def split: prod.splits)
qed

lemma LOCKED_UPGRADED_bits: "HEAP_LOCKED_UPGRADED m \<longleftrightarrow> bit m 12 \<and> bit m 7 \<and> \<not> bit m 6 \<and> \<not> bit m 4"
  using and_exp_eq_0_iff_not_bit [of m 12] and_exp_eq_0_iff_not_bit [of m 7]
  unfolding HEAP_LOCKED_UPGRADED_def by (auto simp: word16_eq_iff bit_simps)

lemma updater_of_cong:
  "\<forall>n\<in>{4, 6, 7, 12}. bit m n = bit m' n \<Longrightarrow> updater_of env x m = updater_of env x m'"
  by (simp add: updater_of_def locked_only_bits masks_nonzero MultiXactIdGetUpdateXid_def)

lemma same_server_updater:
  assumes "same_server env env'" "\<not> bit m 12"
  shows "updater_of env' x m = updater_of env x m"
  using assms(2) by (simp add: updater_of_def masks_nonzero)
lemma xmax_bit_masks:
  "bit (HEAP_XMAX_COMMITTED :: uint16) n \<longleftrightarrow> n = 10" "bit (HEAP_XMAX_INVALID :: uint16) n \<longleftrightarrow> n = 11"
  using hint_bit(3,4) [of 0 n] by simp_all

text \<open>The three ways in which a plan changes the xmax.\<close>

lemma invalidated_xmax:
  assumes env: "xact_ok env" and m: "m' = (m AND NOT HEAP_XMAX_BITS) OR HEAP_XMAX_INVALID"
  shows "xmax_bits_ok env 0 m'" "xmax_young ops env cutoffs 0 m'" "updater_of env 0 m' = 0" "\<not> bit m' 12"
    "n \<notin> {4, 6, 7, 10, 11, 12} \<Longrightarrow> bit m' n = bit m n"
proof -
  show b: "\<not> bit m' 12" "n \<notin> {4, 6, 7, 10, 11, 12} \<Longrightarrow> bit m' n = bit m n"
    unfolding m bit_or_iff bit_cleared xmax_bit_masks by auto
  show u: "updater_of env 0 m' = 0"
    unfolding m by (rule updater_of_plain(3))
  show "xmax_bits_ok env 0 m'"
    using env unfolding xmax_bits_ok_def u by (simp add: m bit_or_iff bit_cleared xmax_bit_masks xact_ok_def)
  show "xmax_young ops env cutoffs 0 m'"
    by (simp add: xmax_young_def TransactionIdIsNormal_def)
qed

lemma single_xmax:
  assumes m: "m' = (m AND NOT HEAP_XMAX_BITS) OR (if committed then HEAP_XMAX_COMMITTED else 0)"
    and x: "committed \<longrightarrow> ended_committed env x" "\<not> TransactionIdPrecedes env x (FreezeLimit cutoffs)"
  shows "xmax_bits_ok env x m'" "xmax_young ops env cutoffs x m'" "updater_of env x m' = x"
    "n \<notin> {4, 6, 7, 10, 11, 12} \<Longrightarrow> bit m' n = bit m n"
proof -
  show "updater_of env x m' = x"
    unfolding m by (cases committed) (simp_all only: if_True if_False updater_of_plain or.right_neutral)
  show "xmax_bits_ok env x m'"
    using x(1) by (auto simp: xmax_bits_ok_def locked_only_bits m bit_or_iff bit_cleared xmax_bit_masks)
  show "xmax_young ops env cutoffs x m'"
    using x(2) by (auto simp: xmax_young_def m bit_or_iff bit_cleared xmax_bit_masks)
  show "n \<notin> {4, 6, 7, 10, 11, 12} \<Longrightarrow> bit m' n = bit m n"
    unfolding m by (cases committed) (simp_all only: if_True if_False or.right_neutral bit_or_iff bit_cleared xmax_bit_masks simp_thms, auto)
qed

lemma multi_xmax:
  assumes h: "GetMultiXactIdHintBits env x = (b, b2)" and m: "m' = (m AND NOT HEAP_XMAX_BITS) OR b"
    and x: "\<not> MultiXactIdPrecedes ops x (MultiXactCutoff cutoffs)"
      "\<forall>k\<in>set (GetMultiXactIdMembers env x). \<not> TransactionIdPrecedes env (mxid k) (FreezeLimit cutoffs)"
  shows "xmax_bits_ok env x m'" "xmax_young ops env cutoffs x m'"
    "updater_of env x m' = (case updaters (GetMultiXactIdMembers env x) of [] \<Rightarrow> 0 | k # _ \<Rightarrow> mxid k)"
    "n \<notin> {4, 6, 7, 10, 11, 12} \<Longrightarrow> bit m' n = bit m n"
proof -
  note hb = hint_bits_bits [OF h]
  show "updater_of env x m' = (case updaters (GetMultiXactIdMembers env x) of [] \<Rightarrow> 0 | k # _ \<Rightarrow> mxid k)"
    unfolding m by (rule updater_of_new_bits [OF h])
  have no: "\<not> bit b 10" "\<not> bit b 11"
    using hb(1) [of 10] hb(1) [of 11] by auto
  then show "xmax_bits_ok env x m'"
    by (auto simp: xmax_bits_ok_def m bit_or_iff bit_cleared)
  show "xmax_young ops env cutoffs x m'"
    using x hb(2,3) by (auto simp: xmax_young_def LOCKED_UPGRADED_bits m bit_or_iff bit_cleared)
  show "n \<notin> {4, 6, 7, 10, 11, 12} \<Longrightarrow> bit m' n = bit m n"
    using hb(1) [of n] by (auto simp: m bit_or_iff bit_cleared)
qed
text \<open>What the plan for the xmax comes to, once its check has passed.\<close>

definition xmax_planned :: "freeze_ops \<Rightarrow> xact_env \<Rightarrow> xact_env \<Rightarrow> VacuumCutoffs \<Rightarrow> HeapTupleHeader \<Rightarrow> xmax_plan \<Rightarrow> bool" where
  "xmax_planned ops env env' cutoffs t xp \<longleftrightarrow>
     same_server env env' \<and>
     same_effect env (updater_of env (t_xmax t) (t_infomask t)) (updater_of env' (new_xmax xp) (new_mask xp)) \<and>
     xmax_bits_ok env' (new_xmax xp) (new_mask xp) \<and>
     xmax_young ops env' cutoffs (new_xmax xp) (new_mask xp) \<and>
     (\<forall>n. n \<notin> {4, 6, 7, 10, 11, 12} \<longrightarrow> bit (new_mask xp) n = bit (t_infomask t) n) \<and>
     (freeze_xmax xp \<or> xmax_already_frozen xp \<longrightarrow> new_xmax xp = 0 \<and> \<not> bit (new_mask xp) 12) \<and>
     (xmax_already_frozen xp \<longrightarrow> \<not> freeze_xmax xp \<and> \<not> replace_xmax xp) \<and>
     (\<not> freeze_xmax xp \<and> \<not> replace_xmax xp \<longrightarrow>
        xp_xmax xp = t_xmax t \<and> xp_infomask xp = t_infomask t \<and> xp_infomask2 xp = t_infomask2 t)"

lemma same_effect_refl [simp]: "same_effect env u u"
  by (simp add: same_effect_def)

lemma prepare_xmax_plain:
  assumes env: "xact_ok env" and c: "cutoffs_ok ops env cutoffs" and t: "xmax_bits_ok env (t_xmax t) (t_infomask t)"
    and plain: "\<not> has HEAP_XMAX_IS_MULTI t"
    and r: "prepare_xmax ops env t cutoffs pagefrz = Inr (xp, pagefrz', env')"
    and chk: "check_aborted xp \<Longrightarrow> \<not> TransactionIdDidCommit env (t_xmax t)"
  shows "xmax_planned ops env env' cutoffs t xp"
proof -
  let ?m = "t_infomask t" and ?x = "t_xmax t"
  have m12: "\<not> bit ?m 12"
    using plain by (simp add: has_bit)
  have u: "updater_of env ?x ?m = (if HEAP_XMAX_IS_LOCKED_ONLY ?m then 0 else ?x)"
    using m12 by (simp add: updater_of_def masks_nonzero)
  have dead0: "\<not> alive env 0"
    using env by (simp add: alive_def xact_ok_def gone_def)
  have old: "TransactionIdPrecedes env x (OldestXmin cutoffs) \<Longrightarrow> \<not> TransactionIdIsInProgress env x"
    "\<not> TransactionIdPrecedes env x (OldestXmin cutoffs) \<Longrightarrow> \<not> TransactionIdPrecedes env x (FreezeLimit cutoffs)" for x
    using c unfolding cutoffs_ok_def by blast+
  define plan where "plan = \<lparr>xp_xmax = ?x, xp_infomask2 = t_infomask2 t, xp_infomask = ?m, replace_xmax = False,
    freeze_xmax = False, xmax_already_frozen = False, check_aborted = False\<rparr>"
  consider (frz) "env' = env" "TransactionIdPrecedes env ?x (OldestXmin cutoffs)"
      "xp = plan\<lparr>freeze_xmax := True, check_aborted := \<not> HEAP_XMAX_IS_LOCKED_ONLY ?m\<rparr>"
    | (keep) "env' = env" "\<not> TransactionIdPrecedes env ?x (OldestXmin cutoffs)"
      "xp = plan\<lparr>freeze_xmax := False, check_aborted := False\<rparr>"
    | (none) "env' = env" "?x = 0" "xp = plan\<lparr>xmax_already_frozen := True\<rparr>"
    using r plain unfolding prepare_xmax_def Let_def plan_def by (auto split: if_splits)
  then show ?thesis
  proof cases
    case frz
    have sel: "freeze_xmax xp" "new_xmax xp = 0" "new_mask xp = (?m AND NOT HEAP_XMAX_BITS) OR HEAP_XMAX_INVALID" "\<not> xmax_already_frozen xp"
      "check_aborted xp \<longleftrightarrow> \<not> HEAP_XMAX_IS_LOCKED_ONLY ?m"
      unfolding frz(3) by (simp_all add: plan_def new_xmax_def new_mask_def)
    have "\<not> alive env (updater_of env ?x ?m)"
      using dead0 chk old(1) [OF frz(2)] sel(5) unfolding u by (auto simp: alive_def)
    then show ?thesis
      using invalidated_xmax [OF env sel(3)] dead0 sel(1,2,4) by (simp add: xmax_planned_def frz(1) same_effect_def)
  next
    case keep
    have sel: "\<not> freeze_xmax xp" "\<not> xmax_already_frozen xp" "new_xmax xp = ?x" "new_mask xp = ?m"
      "xp_xmax xp = ?x" "xp_infomask xp = ?m" "xp_infomask2 xp = t_infomask2 t"
      unfolding keep(3) by (simp_all add: plan_def new_xmax_def new_mask_def)
    have "xmax_young ops env cutoffs ?x ?m"
      using m12 old(2) [OF keep(2)] by (simp add: xmax_young_def)
    then show ?thesis
      using sel t by (simp add: xmax_planned_def keep(1))
  next
    case none
    have sel: "\<not> freeze_xmax xp" "\<not> replace_xmax xp" "new_xmax xp = 0" "new_mask xp = ?m" "xp_xmax xp = ?x" "xp_infomask xp = ?m" "xp_infomask2 xp = t_infomask2 t"
      unfolding none(3) by (simp_all add: plan_def new_xmax_def new_mask_def none(2))
    show ?thesis
      using sel t m12 none(2) by (simp add: xmax_planned_def none(1) xmax_young_def TransactionIdIsNormal_def)
  qed
qed

lemma prepare_xmax_multi:
  assumes env: "xact_ok env" "multi_ok env" and ops: "freeze_ops_ok ops cutoffs" and zero: "GetMultiXactIdMembers env 0 = []"
    and c: "cutoffs_ok ops env cutoffs" and t: "xmax_bits_ok env (t_xmax t) (t_infomask t)"
    and multi: "has HEAP_XMAX_IS_MULTI t" and mh: "multi_header_ok env (t_xmax t) (t_infomask t)"
    and r: "prepare_xmax ops env t cutoffs pagefrz = Inr (xp, pagefrz', env')"
  shows "xmax_planned ops env env' cutoffs t xp"
proof -
  let ?m = "t_infomask t" and ?x = "t_xmax t"
  define plan where "plan = \<lparr>xp_xmax = ?x, xp_infomask2 = t_infomask2 t, xp_infomask = ?m, replace_xmax = False,
    freeze_xmax = False, xmax_already_frozen = False, check_aborted = False\<rparr>"
  obtain flags newxmax where f: "FreezeMultiXactId ops env ?x ?m cutoffs pagefrz = Inr ((flags, newxmax), pagefrz', env')"
    using r multi unfolding prepare_xmax_def Let_def by (auto split: sum.splits)
  have young: "\<not> TransactionIdPrecedes env x (OldestXmin cutoffs) \<Longrightarrow> \<not> TransactionIdPrecedes env x (FreezeLimit cutoffs)"
    "\<not> MultiXactIdPrecedes ops m (OldestMxact cutoffs) \<Longrightarrow> \<not> MultiXactIdPrecedes ops m (MultiXactCutoff cutoffs)" for x m
    using c unfolding cutoffs_ok_def by blast+
  have res: "frm_ok ops env env' cutoffs ?x (updater_of env ?x ?m) flags newxmax" "same_server env env'"
    "flags = FRM_NOOP \<longrightarrow> \<not> HEAP_LOCKED_UPGRADED ?m"
    using FreezeMultiXactId_result [OF env ops zero mh _ f] multi by (simp_all add: has_def split: if_splits)
  note ss = same_server_sel [OF res(2)]
  have env': "xact_ok env'"
    using env(1) ss by simp
  have dead0: "\<not> alive env 0"
    using env(1) by (simp add: alive_def xact_ok_def gone_def)
  show ?thesis
  proof (cases flags)
    case FRM_NOOP
    have xp: "xp = plan"
      using r multi f FRM_NOOP unfolding prepare_xmax_def Let_def plan_def by simp
    have sel: "\<not> freeze_xmax xp" "\<not> xmax_already_frozen xp" "new_xmax xp = ?x" "new_mask xp = ?m"
      "xp_xmax xp = ?x" "xp_infomask xp = ?m" "xp_infomask2 xp = t_infomask2 t"
      unfolding xp by (simp_all add: plan_def new_xmax_def new_mask_def)
    have e: "env' = env" "xmax_young ops env cutoffs ?x ?m"
      using res(1,3) FRM_NOOP multi by (simp_all add: frm_ok_def xmax_young_def has_bit)
    show ?thesis
      using sel t e(2) by (simp add: xmax_planned_def e(1))
  next
    case FRM_INVALIDATE_XMAX
    have xp: "xp = plan\<lparr>freeze_xmax := True\<rparr>"
      using r multi f FRM_INVALIDATE_XMAX unfolding prepare_xmax_def Let_def plan_def by simp
    have sel: "freeze_xmax xp" "\<not> xmax_already_frozen xp" "new_xmax xp = 0" "new_mask xp = (?m AND NOT HEAP_XMAX_BITS) OR HEAP_XMAX_INVALID"
      unfolding xp by (simp_all add: plan_def new_xmax_def new_mask_def)
    show ?thesis
      using invalidated_xmax [OF env' sel(4)] dead0 sel(1-3) res(1,2) FRM_INVALIDATE_XMAX
      by (simp add: xmax_planned_def frm_ok_def same_effect_def)
  next
    case (FRM_RETURN_IS_XID committed)
    have xp: "xp = plan\<lparr>xp_xmax := newxmax, replace_xmax := True,
        xp_infomask := (?m AND NOT HEAP_XMAX_BITS) OR (if committed then HEAP_XMAX_COMMITTED else 0)\<rparr>"
      using r multi f FRM_RETURN_IS_XID unfolding prepare_xmax_def Let_def plan_def by simp
    have sel: "\<not> freeze_xmax xp" "replace_xmax xp" "\<not> xmax_already_frozen xp" "new_xmax xp = newxmax"
      "new_mask xp = (?m AND NOT HEAP_XMAX_BITS) OR (if committed then HEAP_XMAX_COMMITTED else 0)"
      unfolding xp by (simp_all add: plan_def new_xmax_def new_mask_def)
    have u: "newxmax = updater_of env ?x ?m" "committed \<longrightarrow> ended_committed env' newxmax"
      "\<not> TransactionIdPrecedes env' newxmax (FreezeLimit cutoffs)"
      using res(1) FRM_RETURN_IS_XID young(1) ss by (auto simp: frm_ok_def)
    show ?thesis
      using single_xmax [OF sel(5) u(2,3)] sel(1-4) res(2) u(1) by (simp add: xmax_planned_def)
  next
    case FRM_RETURN_IS_MULTI
    obtain b b2 where h: "GetMultiXactIdHintBits env' newxmax = (b, b2)"
      by fastforce
    have xp: "xp = plan\<lparr>xp_xmax := newxmax, replace_xmax := True, xp_infomask := (?m AND NOT HEAP_XMAX_BITS) OR b,
        xp_infomask2 := (t_infomask2 t AND NOT HEAP_KEYS_UPDATED) OR b2\<rparr>"
      using r multi f FRM_RETURN_IS_MULTI h unfolding prepare_xmax_def Let_def plan_def by simp
    have sel: "\<not> freeze_xmax xp" "replace_xmax xp" "\<not> xmax_already_frozen xp" "new_xmax xp = newxmax"
      "new_mask xp = (?m AND NOT HEAP_XMAX_BITS) OR b"
      unfolding xp by (simp_all add: plan_def new_xmax_def new_mask_def)
    have u: "\<not> MultiXactIdPrecedes ops newxmax (MultiXactCutoff cutoffs)"
      "\<forall>k\<in>set (GetMultiXactIdMembers env' newxmax). \<not> TransactionIdPrecedes env' (mxid k) (FreezeLimit cutoffs)"
      "same_effect env (updater_of env ?x ?m) (case updaters (GetMultiXactIdMembers env' newxmax) of [] \<Rightarrow> 0 | k # _ \<Rightarrow> mxid k)"
      using res(1) FRM_RETURN_IS_MULTI young ss by (auto simp: frm_ok_def)
    show ?thesis
      using multi_xmax [OF h sel(5) u(1,2)] sel(1-4) res(2) u(3) by (simp add: xmax_planned_def)
  qed
qed
section \<open>The frozen tuple\<close>

lemma xmin_frozen_mask: "bit (HEAP_XMIN_FROZEN :: uint16) n \<longleftrightarrow> n = 8 \<or> n = 9"
proof -
  have p: "(0x300 :: uint16) = 2 ^ 8 OR 2 ^ 9"
    by simp
  show ?thesis
    unfolding p bit_or_iff bit_exp_iff by (simp add: possible_bit_word) auto
qed

lemma plan_bits:
  "bit (frz_infomask (tuple_plan t fx rx xp)) n \<longleftrightarrow> bit (new_mask xp) n \<or> fx \<and> (n = 8 \<or> n = 9)"
  by (cases fx; cases "freeze_xmax xp")
    (simp_all only: tuple_plan_def new_mask_def Let_def HeapTupleFreeze.simps if_True if_False bit_or_iff bit_cleared
      xmax_bit_masks xmin_frozen_mask simp_thms, auto)

lemma plan_sel:
  "frz_xmax (tuple_plan t fx rx xp) = new_xmax xp"
  "frzflags (tuple_plan t fx rx xp) = (if rx then (if has HEAP_MOVED_OFF t then XLH_INVALID_XVAC else XLH_FREEZE_XVAC) else 0)"
  "checkflags (tuple_plan t fx rx xp) AND HEAP_FREEZE_CHECK_XMIN_COMMITTED \<noteq> 0 \<longleftrightarrow> fx"
  "checkflags (tuple_plan t fx rx xp) AND HEAP_FREEZE_CHECK_XMAX_ABORTED \<noteq> 0 \<longleftrightarrow> check_aborted xp"
  by (simp_all add: tuple_plan_def Let_def new_xmax_def)

text \<open>What a call that returned has decided, and what its checks say.\<close>

lemma prepare_freeze_tuple_steps:
  assumes r: "pg_tde_prepare_freeze_tuple ops env t cutoffs pagefrz = Inr r"
  obtains already fx xp pagefrz1 pagefrz2 where
    "already \<longleftrightarrow> \<not> TransactionIdIsNormal (HeapTupleHeaderGetXmin t)"
    "fx \<longleftrightarrow> \<not> already \<and> TransactionIdPrecedes env (HeapTupleHeaderGetXmin t) (OldestXmin cutoffs)"
    "prepare_xmax ops env t cutoffs pagefrz1 = Inr (xp, pagefrz2, server_after r)"
    "the_plan r = tuple_plan t fx (TransactionIdIsNormal (HeapTupleHeaderGetXvac t)) xp"
    "do_freeze r \<longleftrightarrow> fx \<or> TransactionIdIsNormal (HeapTupleHeaderGetXvac t) \<or> replace_xmax xp \<or> freeze_xmax xp"
    "totally_frozen r \<longleftrightarrow> (fx \<or> already) \<and> (freeze_xmax xp \<or> xmax_already_frozen xp)"
    "\<not> freeze_required (page_freeze r) \<longrightarrow> already \<and> xmax_already_frozen xp \<and> \<not> TransactionIdIsNormal (HeapTupleHeaderGetXvac t) \<or>
       (\<exists>tr. \<not> fst (pg_tde_tuple_should_freeze ops (server_after r) t cutoffs tr))"
proof -
  obtain already fx where x: "prepare_xmin env t cutoffs = Inr (already, fx)"
    using r by (cases "prepare_xmin env t cutoffs") (auto simp: pg_tde_prepare_freeze_tuple_def)
  define rx where "rx = TransactionIdIsNormal (HeapTupleHeaderGetXvac t)"
  define pf where "pf = (if rx then pagefrz\<lparr>freeze_required := True\<rparr> else pagefrz)"
  obtain xp pf2 env' where p: "prepare_xmax ops env t cutoffs pf = Inr (xp, pf2, env')"
    using r x by (cases "prepare_xmax ops env t cutoffs pf") (auto simp: pg_tde_prepare_freeze_tuple_def rx_def pf_def Let_def)
  define last where "last = (if \<not> freeze_required pf2 \<and> \<not> (already \<and> xmax_already_frozen xp)
      then (let (f, oldxid, oldmulti) = pg_tde_tuple_should_freeze ops env' t cutoffs
              (NoFreezePageRelfrozenXid pf2, NoFreezePageRelminMxid pf2)
            in pf2\<lparr>freeze_required := f, NoFreezePageRelfrozenXid := oldxid, NoFreezePageRelminMxid := oldmulti\<rparr>) else pf2)"
  have r': "r = \<lparr>do_freeze = (fx \<or> rx \<or> replace_xmax xp \<or> freeze_xmax xp), the_plan = tuple_plan t fx rx xp,
      totally_frozen = ((fx \<or> already) \<and> (freeze_xmax xp \<or> xmax_already_frozen xp)), page_freeze = last, server_after = env'\<rparr>"
    using r x p unfolding pg_tde_prepare_freeze_tuple_def rx_def [symmetric] pf_def [symmetric] last_def Let_def by simp
  have kept: "freeze_required pf2" if "rx" "xmax_already_frozen xp"
    using p that by (auto simp: prepare_xmax_def pf_def Let_def split: if_splits sum.splits FRM.splits prod.splits)
  show thesis
  proof (rule that)
    show "already \<longleftrightarrow> \<not> TransactionIdIsNormal (HeapTupleHeaderGetXmin t)"
      "fx \<longleftrightarrow> \<not> already \<and> TransactionIdPrecedes env (HeapTupleHeaderGetXmin t) (OldestXmin cutoffs)"
      using x by (auto simp: prepare_xmin_def Let_def split: if_splits)
    show "prepare_xmax ops env t cutoffs pf = Inr (xp, pf2, server_after r)"
      using p by (simp add: r')
    show "\<not> freeze_required (page_freeze r) \<longrightarrow> already \<and> xmax_already_frozen xp \<and> \<not> TransactionIdIsNormal (HeapTupleHeaderGetXvac t) \<or>
       (\<exists>tr. \<not> fst (pg_tde_tuple_should_freeze ops (server_after r) t cutoffs tr))"
    proof (intro impI, rule disjCI)
      assume nf: "\<not> freeze_required (page_freeze r)"
        and sh: "\<not> (\<exists>tr. \<not> fst (pg_tde_tuple_should_freeze ops (server_after r) t cutoffs tr))"
      obtain f a b where f: "pg_tde_tuple_should_freeze ops env' t cutoffs (NoFreezePageRelfrozenXid pf2, NoFreezePageRelminMxid pf2) = (f, a, b)"
        by (metis prod.exhaust)
      have "fst (pg_tde_tuple_should_freeze ops env' t cutoffs (NoFreezePageRelfrozenXid pf2, NoFreezePageRelminMxid pf2))"
        using sh by (simp add: r')
      then have "f"
        by (simp add: f)
      then have "already \<and> xmax_already_frozen xp \<and> \<not> freeze_required pf2"
        using nf f by (simp add: r' last_def split: if_splits)
      then show "already \<and> xmax_already_frozen xp \<and> \<not> TransactionIdIsNormal (HeapTupleHeaderGetXvac t)"
        using kept by (auto simp: rx_def)
    qed
  qed (simp_all add: r' rx_def)
qed
text \<open>
  The header after the plan, in terms of the old one: the same inserter, frozen only when it
  committed before the cutoff, and an xmax with the same effect.
\<close>

lemma frozen_header:
  assumes env: "xact_ok env" "multi_ok env" and ops: "freeze_ops_ok ops cutoffs" and zero: "GetMultiXactIdMembers env 0 = []"
    and c: "cutoffs_ok ops env cutoffs" and t: "xmax_bits_ok env (t_xmax t) (t_infomask t)"
    and mh: "has HEAP_XMAX_IS_MULTI t \<longrightarrow> multi_header_ok env (t_xmax t) (t_infomask t)"
    and r: "pg_tde_prepare_freeze_tuple ops env t cutoffs pagefrz = Inr r"
    and chk: "freeze_checks (server_after r) t (the_plan r) = Inr ()"
  obtains fx xp where "xmax_planned ops env (server_after r) cutoffs t xp"
    "the_plan r = tuple_plan t fx (TransactionIdIsNormal (HeapTupleHeaderGetXvac t)) xp"
    "fx \<Longrightarrow> \<not> HeapTupleHeaderXminFrozen t \<and> TransactionIdPrecedes env (t_xmin t) (OldestXmin cutoffs) \<and> ended_committed env (t_xmin t)"
    "TransactionIdIsNormal (HeapTupleHeaderGetXmin t) \<Longrightarrow> \<not> fx \<Longrightarrow> \<not> TransactionIdPrecedes env (HeapTupleHeaderGetXmin t) (OldestXmin cutoffs)"
    "do_freeze r \<longleftrightarrow> fx \<or> TransactionIdIsNormal (HeapTupleHeaderGetXvac t) \<or> replace_xmax xp \<or> freeze_xmax xp"
    "totally_frozen r \<longleftrightarrow> (fx \<or> \<not> TransactionIdIsNormal (HeapTupleHeaderGetXmin t)) \<and> (freeze_xmax xp \<or> xmax_already_frozen xp)"
    "\<not> freeze_required (page_freeze r) \<longrightarrow>
       \<not> TransactionIdIsNormal (HeapTupleHeaderGetXmin t) \<and> xmax_already_frozen xp \<and> \<not> TransactionIdIsNormal (HeapTupleHeaderGetXvac t) \<or>
       (\<exists>tr. \<not> fst (pg_tde_tuple_should_freeze ops (server_after r) t cutoffs tr))"
proof (rule prepare_freeze_tuple_steps [OF r])
  fix already fx xp pf1 pf2
  assume a: "already \<longleftrightarrow> \<not> TransactionIdIsNormal (HeapTupleHeaderGetXmin t)"
    "fx \<longleftrightarrow> \<not> already \<and> TransactionIdPrecedes env (HeapTupleHeaderGetXmin t) (OldestXmin cutoffs)"
    and p: "prepare_xmax ops env t cutoffs pf1 = Inr (xp, pf2, server_after r)"
    and plan: "the_plan r = tuple_plan t fx (TransactionIdIsNormal (HeapTupleHeaderGetXvac t)) xp"
    and f: "do_freeze r \<longleftrightarrow> fx \<or> TransactionIdIsNormal (HeapTupleHeaderGetXvac t) \<or> replace_xmax xp \<or> freeze_xmax xp"
      "totally_frozen r \<longleftrightarrow> (fx \<or> already) \<and> (freeze_xmax xp \<or> xmax_already_frozen xp)"
      "\<not> freeze_required (page_freeze r) \<longrightarrow> already \<and> xmax_already_frozen xp \<and> \<not> TransactionIdIsNormal (HeapTupleHeaderGetXvac t) \<or>
       (\<exists>tr. \<not> fst (pg_tde_tuple_should_freeze ops (server_after r) t cutoffs tr))"
  have checks: "fx \<Longrightarrow> TransactionIdDidCommit (server_after r) (t_xmin t)"
    "check_aborted xp \<Longrightarrow> \<not> TransactionIdDidCommit (server_after r) (t_xmax t)"
    using chk plan plan_sel(3,4) [of t fx "TransactionIdIsNormal (HeapTupleHeaderGetXvac t)" xp]
    by (auto simp: freeze_checks_def split: if_splits)
  have planned: "xmax_planned ops env (server_after r) cutoffs t xp"
  proof (cases "has HEAP_XMAX_IS_MULTI t")
    case True
    then show ?thesis
      using prepare_xmax_multi [OF env ops zero c t True _ p] mh by blast
  next
    case False
    have "server_after r = env"
      using p False by (auto simp: prepare_xmax_def Let_def split: if_splits)
    then show ?thesis
      using prepare_xmax_plain [OF env(1) c t False p] checks(2) by simp
  qed
  then have did: "TransactionIdDidCommit (server_after r) = TransactionIdDidCommit env"
    using same_server_sel(3) by (simp add: xmax_planned_def)
  have fx: "\<not> HeapTupleHeaderXminFrozen t \<and> TransactionIdPrecedes env (t_xmin t) (OldestXmin cutoffs) \<and> ended_committed env (t_xmin t)" if fx
  proof -
    have n: "\<not> HeapTupleHeaderXminFrozen t" "TransactionIdPrecedes env (t_xmin t) (OldestXmin cutoffs)"
      using that a by (auto simp: HeapTupleHeaderGetXmin_def TransactionIdIsNormal_def split: if_splits)
    then have "\<not> TransactionIdIsInProgress env (t_xmin t)"
      using c unfolding cutoffs_ok_def by blast
    with env(1) have "ended_committed env (t_xmin t)"
      using checks(1) [OF that] did by (auto simp: ended_committed_def xact_ok_def)
    with n show ?thesis
      by blast
  qed
  show thesis
    by (rule that [OF planned plan]) (use fx a f in blast)+
qed
lemma not_alive_no_effect:
  "xact_ok env \<Longrightarrow> \<not> alive env u \<Longrightarrow> \<not> in_effect env snapshot u cid \<and> gone env u"
  by (auto simp: alive_def in_effect_def xact_ok_def gone_def)

lemma same_effect_cases:
  assumes "xact_ok env" "same_effect env u v"
  shows "in_effect env snapshot u cid = in_effect env snapshot v cid" "gone env u \<longleftrightarrow> gone env v"
    "TransactionIdIsCurrentTransactionId env u = TransactionIdIsCurrentTransactionId env v"
  using assms not_alive_no_effect [OF assms(1)] by (auto simp: same_effect_def gone_def)

text \<open>The header that results, for a tuple without the bits of an old VACUUM FULL.\<close>

lemma frozen_tuple_fields:
  assumes plan: "the_plan r = tuple_plan t fx (TransactionIdIsNormal (HeapTupleHeaderGetXvac t)) xp"
    and p: "xmax_planned ops env env' cutoffs t xp" and u: "u = pg_tde_execute_freeze_tuple t (the_plan r)"
  shows "t_xmin u = t_xmin t" "t_ctid u = t_ctid t" "t_xmax u = new_xmax xp"
    "bit (t_infomask u) n \<longleftrightarrow> bit (new_mask xp) n \<or> fx \<and> (n = 8 \<or> n = 9)"
    "n \<notin> {4, 6, 7, 8, 9, 10, 11, 12} \<Longrightarrow> bit (t_infomask u) n = bit (t_infomask t) n"
    "updater_of env' (t_xmax u) (t_infomask u) = updater_of env' (new_xmax xp) (new_mask xp)"
    "HeapTupleHeaderXminFrozen u \<longleftrightarrow> fx \<or> HeapTupleHeaderXminFrozen t"
    "\<not> TransactionIdIsNormal (HeapTupleHeaderGetXvac u)"
    "\<not> TransactionIdIsNormal (HeapTupleHeaderGetXvac t) \<Longrightarrow> t_field3 u = t_field3 t"
proof -
  show "t_xmin u = t_xmin t" "t_ctid u = t_ctid t" "t_xmax u = new_xmax xp"
    by (simp_all add: u pg_tde_execute_freeze_tuple_def Let_def plan plan_sel)
  show b: "bit (t_infomask u) n \<longleftrightarrow> bit (new_mask xp) n \<or> fx \<and> (n = 8 \<or> n = 9)" for n
    by (simp add: u pg_tde_execute_freeze_tuple_def Let_def plan plan_bits)
  have k: "n \<notin> {4, 6, 7, 10, 11, 12} \<Longrightarrow> bit (new_mask xp) n = bit (t_infomask t) n" for n
    using p by (simp add: xmax_planned_def)
  show "n \<notin> {4, 6, 7, 8, 9, 10, 11, 12} \<Longrightarrow> bit (t_infomask u) n = bit (t_infomask t) n"
    using b k by auto
  have "updater_of env' (new_xmax xp) (t_infomask u) = updater_of env' (new_xmax xp) (new_mask xp)"
    by (rule updater_of_cong) (simp add: b)
  then show "updater_of env' (t_xmax u) (t_infomask u) = updater_of env' (new_xmax xp) (new_mask xp)"
    by (simp add: \<open>t_xmax u = new_xmax xp\<close>)
  show "HeapTupleHeaderXminFrozen u \<longleftrightarrow> fx \<or> HeapTupleHeaderXminFrozen t"
    by (auto simp: xmin_bits b k)
  have moved: "has HEAP_MOVED x \<longleftrightarrow> bit (t_infomask x) 14 \<or> bit (t_infomask x) 15" for x
    by (auto simp: has_def word16_eq_iff bit_simps)
  have same_moved: "has HEAP_MOVED u \<longleftrightarrow> has HEAP_MOVED t"
    by (simp add: moved b k)
  show "\<not> TransactionIdIsNormal (HeapTupleHeaderGetXvac t) \<Longrightarrow> t_field3 u = t_field3 t"
    by (simp add: u pg_tde_execute_freeze_tuple_def Let_def plan plan_sel)
  then show "\<not> TransactionIdIsNormal (HeapTupleHeaderGetXvac u)"
    using same_moved
    by (cases "TransactionIdIsNormal (HeapTupleHeaderGetXvac t)")
      (auto simp: HeapTupleHeaderGetXvac_def u pg_tde_execute_freeze_tuple_def Let_def plan plan_sel TransactionIdIsNormal_def)
qed

lemma frozen_tuple_visible:
  assumes "xact_ok env" "multi_ok env" "cmds_ok env" "GetMultiXactIdMembers env 0 = []"
    and "freeze_ops_ok ops cutoffs" "cutoffs_ok ops env cutoffs"
    and "tuple_ok env t" "has HEAP_XMAX_IS_MULTI t \<longrightarrow> multi_header_ok env (t_xmax t) (t_infomask t)"
    and "pg_tde_prepare_freeze_tuple ops env t cutoffs pagefrz = Inr r"
    and "freeze_checks (server_after r) t (the_plan r) = Inr ()"
    and "u = pg_tde_execute_freeze_tuple t (the_plan r)"
  shows "tuple_ok (server_after r) u" "same_server env (server_after r)"
    "horizon_ok env snapshot (\<lambda>x. TransactionIdPrecedes env x (OldestXmin cutoffs)) \<Longrightarrow>
       mvcc_visible (server_after r) snapshot u = mvcc_visible env snapshot t"
proof -
  let ?t = "t" and ?u = "u" and ?env = "server_after r"
  have xb: "xmax_bits_ok env (t_xmax ?t) (t_infomask ?t)"
    using tuple_okD(5,6,7) [OF assms(7)] by (auto simp: xmax_bits_ok_def has_bit updater_of_header)
  have all: "tuple_ok ?env u \<and> same_server env ?env \<and>
    (horizon_ok env snapshot (\<lambda>x. TransactionIdPrecedes env x (OldestXmin cutoffs)) \<longrightarrow>
       mvcc_visible ?env snapshot u = mvcc_visible env snapshot t)"
  proof (rule frozen_header [OF assms(1,2,5,4,6) xb assms(8,9,10)])
    fix fx xp
    assume p: "xmax_planned ops env ?env cutoffs ?t xp"
      and plan: "the_plan r = tuple_plan ?t fx (TransactionIdIsNormal (HeapTupleHeaderGetXvac ?t)) xp"
      and fx: "fx \<Longrightarrow> \<not> HeapTupleHeaderXminFrozen ?t \<and> TransactionIdPrecedes env (t_xmin ?t) (OldestXmin cutoffs) \<and> ended_committed env (t_xmin ?t)"
    note fu = frozen_tuple_fields [OF plan p assms(11)]
    have same: "same_server env ?env" and eff: "same_effect env (updater env ?t) (updater ?env ?u)"
      and bits: "xmax_bits_ok ?env (new_xmax xp) (new_mask xp)"
      using p by (simp_all add: xmax_planned_def updater_of_header fu(6))
    note ss = same_server_sel [OF same] and se = same_effect_cases [OF assms(1) eff]
    have xvac: "\<not> TransactionIdIsNormal (HeapTupleHeaderGetXvac ?t)"
    proof -
      have "\<not> has HEAP_MOVED ?t"
        using tuple_okD(1,2) [OF assms(7)] by (auto simp: has_def word16_eq_iff bit_simps)
      then show ?thesis
        by (simp add: HeapTupleHeaderGetXvac_def TransactionIdIsNormal_def)
    qed
    have m: "bit (new_mask xp) k = bit (t_infomask ?u) k" if "k \<noteq> 8" "k \<noteq> 9" for k
      using that by (simp add: fu(4))
    have ok: "tuple_ok ?env ?u"
      unfolding tuple_ok_def
    proof (intro conjI impI)
      show "\<not> has HEAP_MOVED_OFF ?u" "\<not> has HEAP_MOVED_IN ?u"
        using tuple_okD(1,2) [OF assms(7)] fu(5) [of 14] fu(5) [of 15] by (simp_all add: has_bit)
      show "ended_committed ?env (t_xmin ?u)" if "HeapTupleHeaderXminCommitted ?u \<and> \<not> HeapTupleHeaderXminFrozen ?u"
        using that tuple_okD(3) [OF assms(7)] p by (auto simp: fu(1,4,7) ss xmin_bits xmax_planned_def)
      show "gone ?env (t_xmin ?u)" if "HeapTupleHeaderXminInvalid ?u"
        using that tuple_okD(4) [OF assms(7)] p by (auto simp: fu(1,4) ss xmin_bits xmax_planned_def)
      show "gone ?env (updater ?env ?u)" if "has HEAP_XMAX_INVALID ?u"
        using that bits fu(6) by (simp add: has_bit fu(4) xmax_bits_ok_def updater_of_header)
      show "\<not> has HEAP_XMAX_IS_MULTI ?u" "\<not> HEAP_XMAX_IS_LOCKED_ONLY (t_infomask ?u)" "ended_committed ?env (t_xmax ?u)"
        if "has HEAP_XMAX_COMMITTED ?u"
        using that bits by (auto simp: has_bit fu(3,4) xmax_bits_ok_def locked_only_bits)
      show "gone ?env (updater ?env ?u)" if c: "TransactionIdIsCurrentTransactionId ?env (t_xmin ?u) \<and> \<not> HeapTupleHeaderXminFrozen ?u \<and>
          \<not> TransactionIdIsCurrentTransactionId ?env (updater ?env ?u)"
        using c tuple_okD(8) [OF assms(7)] se(2,3) by (simp add: ss fu(1,7))
    qed
    have cid: "HeapTupleHeaderGetCmin ?env ?u = HeapTupleHeaderGetCmin env ?t" "HeapTupleHeaderGetCmax ?env ?u = HeapTupleHeaderGetCmax env ?t"
    proof -
      have "t_field3 ?u = t_field3 ?t \<and> t_xmin ?u = t_xmin ?t \<and> has HEAP_COMBOCID ?u = has HEAP_COMBOCID ?t"
        using fu(5) [of 5] fu(9) [OF xvac] fu(1) and_exp_eq_0_iff_not_bit [of "t_infomask ?u" 5] and_exp_eq_0_iff_not_bit [of "t_infomask ?t" 5]
        by (simp add: has_def)
      with assms(3) ss show "HeapTupleHeaderGetCmin ?env ?u = HeapTupleHeaderGetCmin env ?t" "HeapTupleHeaderGetCmax ?env ?u = HeapTupleHeaderGetCmax env ?t"
        unfolding cmds_ok_def by metis+
    qed
    have ins: "fx \<Longrightarrow> horizon_ok env snapshot (\<lambda>x. TransactionIdPrecedes env x (OldestXmin cutoffs)) \<Longrightarrow>
        in_effect env snapshot (t_xmin ?t) c" for c
      using fx by (auto simp: in_effect_def ended_committed_def horizon_ok_def)
    have "horizon_ok env snapshot (\<lambda>x. TransactionIdPrecedes env x (OldestXmin cutoffs)) \<Longrightarrow>
        mvcc_visible ?env snapshot ?u \<longleftrightarrow> mvcc_visible env snapshot ?t"
      using ins by (auto simp: mvcc_visible_def ss cid [unfolded ss] fu(1,7) se(1))
    then show "tuple_ok ?env u \<and> same_server env ?env \<and>
        (horizon_ok env snapshot (\<lambda>x. TransactionIdPrecedes env x (OldestXmin cutoffs)) \<longrightarrow>
           mvcc_visible ?env snapshot u = mvcc_visible env snapshot t)"
      using ok same by blast
  qed
  show "tuple_ok ?env u" "same_server env ?env"
    "horizon_ok env snapshot (\<lambda>x. TransactionIdPrecedes env x (OldestXmin cutoffs)) \<Longrightarrow>
       mvcc_visible ?env snapshot u = mvcc_visible env snapshot t"
    using all by blast+
qed

text \<open>
  (C12) Freezing a tuple is invisible: when the plan is carried out after its checks, every
  snapshot that the removal cutoff covers sees the tuple exactly as before, and the new
  header's hint bits are right again. Multixacts may have been replaced by their updater or by
  a smaller multixact.
\<close>

theorem freezing_is_invisible:
  assumes "xact_ok env" "multi_ok env" "cmds_ok env" "GetMultiXactIdMembers env 0 = []"
    and "freeze_ops_ok ops cutoffs" "cutoffs_ok ops env cutoffs"
    and "tuple_ok env (vt s)" "has HEAP_XMAX_IS_MULTI (vt s) \<longrightarrow> multi_header_ok env (t_xmax (vt s)) (t_infomask (vt s))"
    and "snapshot_ok env snapshot" "horizon_ok env snapshot (\<lambda>x. TransactionIdPrecedes env x (OldestXmin cutoffs))"
    and "pg_tde_prepare_freeze_tuple ops env (vt s) cutoffs pagefrz = Inr r"
    and "freeze_checks (server_after r) (vt s) (the_plan r) = Inr ()"
    and "vt s' = pg_tde_execute_freeze_tuple (vt s) (the_plan r)"
  shows "tuple_ok (server_after r) (vt s') \<and>
    fst (HeapTupleSatisfiesMVCC (server_after r) snapshot s') = fst (HeapTupleSatisfiesMVCC env snapshot s)"
proof -
  note f = frozen_tuple_visible [OF assms(1-8,11-13)]
  have "xact_ok (server_after r)" "snapshot_ok (server_after r) snapshot"
    using assms(1,9) by (simp_all add: same_server_sel [OF f(2)])
  then show ?thesis
    using f(1) f(3) [OF assms(10)] MVCC_visible [OF assms(1,9,7)] MVCC_visible [of "server_after r" snapshot s'] by (metis prod.collapse)
qed

lemma should_freeze_iff:
  "fst (pg_tde_tuple_should_freeze ops env t cutoffs tr) \<longleftrightarrow>
     TransactionIdIsNormal (HeapTupleHeaderGetXmin t) \<and> TransactionIdPrecedes env (HeapTupleHeaderGetXmin t) (FreezeLimit cutoffs) \<or>
     \<not> xmax_young ops env cutoffs (t_xmax t) (t_infomask t) \<or> TransactionIdIsNormal (HeapTupleHeaderGetXvac t)"
proof -
  obtain f1 x1 where a: "should_freeze_xmin env cutoffs t (fst tr) = (f1, x1)"
    by fastforce
  obtain f2 x2 m2 where b: "should_freeze_xmax ops env cutoffs t (x1, snd tr) = (f2, x2, m2)"
    by (metis prod.exhaust)
  obtain f3 x3 where c: "should_freeze_xvac env t x2 = (f3, x3)"
    by fastforce
  have "f1 \<longleftrightarrow> TransactionIdIsNormal (HeapTupleHeaderGetXmin t) \<and> TransactionIdPrecedes env (HeapTupleHeaderGetXmin t) (FreezeLimit cutoffs)"
    using a by (auto simp: should_freeze_xmin_def Let_def split: if_splits)
  moreover have "f2 \<longleftrightarrow> \<not> xmax_young ops env cutoffs (t_xmax t) (t_infomask t)"
    using should_freeze_xmax_young [of ops env cutoffs t "(x1, snd tr)"] by (simp add: b)
  moreover have "f3 \<longleftrightarrow> TransactionIdIsNormal (HeapTupleHeaderGetXvac t)"
    using c by (auto simp: should_freeze_xvac_def HeapTupleHeaderGetXvac_def TransactionIdIsNormal_def Let_def split: if_splits)
  ultimately show ?thesis
    by (simp add: pg_tde_tuple_should_freeze_def a b c)
qed

text \<open>Three lemmas: a page that need not be frozen, the plan that changes nothing, and the frozen tuple.\<close>

lemma xmax_already_frozen_is_young:
  assumes "prepare_xmax ops env t cutoffs pagefrz = Inr (xp, pagefrz', env')" "xmax_already_frozen xp"
  shows "xmax_young ops e cutoffs (t_xmax t) (t_infomask t)"
  using assms
  by (auto simp: prepare_xmax_def Let_def xmax_young_def has_bit TransactionIdIsNormal_def split: if_splits sum.splits FRM.splits prod.splits)

lemma not_required_is_young:
  assumes "pg_tde_prepare_freeze_tuple ops env t cutoffs pagefrz = Inr r" "\<not> freeze_required (page_freeze r)"
  shows "\<not> fst (pg_tde_tuple_should_freeze ops (server_after r) t cutoffs tr)"
proof (rule prepare_freeze_tuple_steps [OF assms(1)])
  fix already fx xp pf1 pf2
  assume a: "already \<longleftrightarrow> \<not> TransactionIdIsNormal (HeapTupleHeaderGetXmin t)"
    and p: "prepare_xmax ops env t cutoffs pf1 = Inr (xp, pf2, server_after r)"
    and f: "\<not> freeze_required (page_freeze r) \<longrightarrow> already \<and> xmax_already_frozen xp \<and> \<not> TransactionIdIsNormal (HeapTupleHeaderGetXvac t) \<or>
       (\<exists>tr. \<not> fst (pg_tde_tuple_should_freeze ops (server_after r) t cutoffs tr))"
  show ?thesis
  proof (cases "already \<and> xmax_already_frozen xp \<and> \<not> TransactionIdIsNormal (HeapTupleHeaderGetXvac t)")
    case True
    then show ?thesis
      using a xmax_already_frozen_is_young [OF p] by (simp add: should_freeze_iff)
  next
    case False
    then show ?thesis
      using assms(2) f unfolding should_freeze_iff by blast
  qed
qed

lemma nothing_to_freeze:
  assumes "pg_tde_prepare_freeze_tuple ops env t cutoffs pagefrz = Inr r" "\<not> do_freeze r"
  shows "pg_tde_execute_freeze_tuple t (the_plan r) = t"
proof (rule prepare_freeze_tuple_steps [OF assms(1)])
  fix already fx xp pf1 pf2
  assume p: "prepare_xmax ops env t cutoffs pf1 = Inr (xp, pf2, server_after r)"
    and plan: "the_plan r = tuple_plan t fx (TransactionIdIsNormal (HeapTupleHeaderGetXvac t)) xp"
    and f: "do_freeze r \<longleftrightarrow> fx \<or> TransactionIdIsNormal (HeapTupleHeaderGetXvac t) \<or> replace_xmax xp \<or> freeze_xmax xp"
  have "xp_xmax xp = t_xmax t \<and> xp_infomask xp = t_infomask t \<and> xp_infomask2 xp = t_infomask2 t"
    using p f assms(2) by (auto simp: prepare_xmax_def Let_def split: if_splits sum.splits FRM.splits prod.splits)
  then show ?thesis
    using f assms(2) by (simp add: plan pg_tde_execute_freeze_tuple_def tuple_plan_def Let_def)
qed

lemma frozen_tuple_young:
  assumes "xact_ok env" "multi_ok env" "GetMultiXactIdMembers env 0 = []"
    and "freeze_ops_ok ops cutoffs" "cutoffs_ok ops env cutoffs"
    and "xmax_bits_ok env (t_xmax t) (t_infomask t)" "has HEAP_XMAX_IS_MULTI t \<longrightarrow> multi_header_ok env (t_xmax t) (t_infomask t)"
    and "pg_tde_prepare_freeze_tuple ops env t cutoffs pagefrz = Inr r"
    and "freeze_checks (server_after r) t (the_plan r) = Inr ()"
    and "u = pg_tde_execute_freeze_tuple t (the_plan r)"
  shows "\<not> fst (pg_tde_tuple_should_freeze ops (server_after r) u cutoffs tr)"
    "totally_frozen r \<Longrightarrow> \<not> pg_tde_tuple_needs_eventual_freeze u"
proof -
  have all: "\<not> fst (pg_tde_tuple_should_freeze ops (server_after r) u cutoffs tr) \<and>
    (totally_frozen r \<longrightarrow> \<not> pg_tde_tuple_needs_eventual_freeze u)"
  proof (rule frozen_header [OF assms(1,2,4,3,5-9)])
    let ?env = "server_after r"
    fix fx xp
    assume p: "xmax_planned ops env ?env cutoffs t xp"
      and plan: "the_plan r = tuple_plan t fx (TransactionIdIsNormal (HeapTupleHeaderGetXvac t)) xp"
      and xmin: "TransactionIdIsNormal (HeapTupleHeaderGetXmin t) \<Longrightarrow> \<not> fx \<Longrightarrow> \<not> TransactionIdPrecedes env (HeapTupleHeaderGetXmin t) (OldestXmin cutoffs)"
      and frz: "totally_frozen r \<longleftrightarrow> (fx \<or> \<not> TransactionIdIsNormal (HeapTupleHeaderGetXmin t)) \<and> (freeze_xmax xp \<or> xmax_already_frozen xp)"
    note u = frozen_tuple_fields [OF plan p assms(10)]
    have same: "same_server env ?env" and young: "xmax_young ops ?env cutoffs (new_xmax xp) (new_mask xp)"
      and fin: "freeze_xmax xp \<or> xmax_already_frozen xp \<Longrightarrow> new_xmax xp = 0 \<and> \<not> bit (new_mask xp) 12"
      using p unfolding xmax_planned_def by blast+
    have xmin_u: "HeapTupleHeaderGetXmin u = (if fx then FrozenTransactionId else HeapTupleHeaderGetXmin t)"
      by (auto simp: HeapTupleHeaderGetXmin_def u(1,7))
    have "xmax_young ops ?env cutoffs (t_xmax u) (t_infomask u)"
      using young u(4) by (auto simp: xmax_young_def LOCKED_UPGRADED_bits u(3) split: if_splits)
    then have 1: "\<not> fst (pg_tde_tuple_should_freeze ops ?env u cutoffs tr)"
      using xmin assms(5) u(8) unfolding should_freeze_iff xmin_u cutoffs_ok_def same_server_sel(4) [OF same]
      by (auto simp: TransactionIdIsNormal_def)
    have 2: "totally_frozen r \<longrightarrow> \<not> pg_tde_tuple_needs_eventual_freeze u"
      using frz fin u(8) by (auto simp: pg_tde_tuple_needs_eventual_freeze_def xmin_u has_bit u(3,4) TransactionIdIsNormal_def split: if_splits)
    show "\<not> fst (pg_tde_tuple_should_freeze ops ?env u cutoffs tr) \<and> (totally_frozen r \<longrightarrow> \<not> pg_tde_tuple_needs_eventual_freeze u)"
      using 1 2 by blast
  qed
  then show "\<not> fst (pg_tde_tuple_should_freeze ops (server_after r) u cutoffs tr)"
    "totally_frozen r \<Longrightarrow> \<not> pg_tde_tuple_needs_eventual_freeze u"
    by blast+
qed

text \<open>
  What the routines should find, said of the ids a header refers to: its inserter unless frozen, its
  xmax or the members of the multixact there, and the VACUUM FULL of an old server that moved it.
\<close>

definition header_xids :: "xact_env \<Rightarrow> HeapTupleHeader \<Rightarrow> uint32 set" where
  "header_xids env h = {HeapTupleHeaderGetXmin h} \<union>
     (if \<not> has HEAP_XMAX_IS_MULTI h then {t_xmax h}
      else if t_xmax h = InvalidMultiXactId then {} else mxid ` set (GetMultiXactIdMembers env (t_xmax h)))"

definition nothing_older :: "freeze_ops \<Rightarrow> xact_env \<Rightarrow> VacuumCutoffs \<Rightarrow> HeapTupleHeader \<Rightarrow> bool" where
  "nothing_older ops env cutoffs h \<longleftrightarrow>
     (\<forall>x\<in>header_xids env h. TransactionIdIsNormal x \<longrightarrow> \<not> TransactionIdPrecedes env x (FreezeLimit cutoffs)) \<and>
     (has HEAP_XMAX_IS_MULTI h \<and> t_xmax h \<noteq> InvalidMultiXactId \<longrightarrow>
        \<not> HEAP_LOCKED_UPGRADED (t_infomask h) \<and> \<not> MultiXactIdPrecedes ops (t_xmax h) (MultiXactCutoff cutoffs)) \<and>
     \<not> TransactionIdIsNormal (HeapTupleHeaderGetXvac h)"

definition no_ids :: "HeapTupleHeader \<Rightarrow> bool" where
  "no_ids h \<longleftrightarrow> \<not> TransactionIdIsNormal (HeapTupleHeaderGetXmin h) \<and> \<not> TransactionIdIsNormal (HeapTupleHeaderGetXvac h) \<and>
     (has HEAP_XMAX_IS_MULTI h \<longrightarrow> t_xmax h = InvalidMultiXactId) \<and> (\<not> has HEAP_XMAX_IS_MULTI h \<longrightarrow> \<not> TransactionIdIsNormal (t_xmax h))"

text \<open>The members of a multixact are transactions, not one of the permanent ids.\<close>

definition members_normal :: "xact_env \<Rightarrow> bool" where
  "members_normal env \<longleftrightarrow> (\<forall>m. \<forall>k\<in>set (GetMultiXactIdMembers env m). TransactionIdIsNormal (mxid k))"

lemma should_freeze_nothing_older:
  assumes "\<forall>k\<in>set (GetMultiXactIdMembers env (t_xmax h)). TransactionIdIsNormal (mxid k)"
  shows "fst (pg_tde_tuple_should_freeze ops env h cutoffs tr) \<longleftrightarrow> \<not> nothing_older ops env cutoffs h"
  using assms unfolding should_freeze_iff
  by (auto simp: nothing_older_def header_xids_def xmax_young_def has_bit)

lemma needs_eventual_freeze_no_ids: "pg_tde_tuple_needs_eventual_freeze h \<longleftrightarrow> \<not> no_ids h"
  by (auto simp: pg_tde_tuple_needs_eventual_freeze_def no_ids_def HeapTupleHeaderGetXvac_def TransactionIdIsNormal_def)

lemma should_freeze_younger:
  "\<not> fst (pg_tde_tuple_should_freeze ops env h cutoffs tr) \<Longrightarrow> nothing_older ops env cutoffs h"
  unfolding should_freeze_iff
  by (auto simp: nothing_older_def header_xids_def xmax_young_def has_bit split: if_splits)

text \<open>
  (C13) What freezing leaves behind: after the plan no transaction id the tuple refers to, members of
  a multixact included, is older than the freeze limit and no multixact older than its cutoff; when
  the routine says that the tuple is totally frozen, it refers to no id at all. When the routine does
  not ask for the page to be frozen, the tuple as it is has nothing older than the limits; with
  nothing to do, the plan changes nothing. The two tests that vacuum makes without freezing,
  \<open>pg_tde_tuple_should_freeze\<close> and \<open>pg_tde_tuple_needs_eventual_freeze\<close>, decide just these two
  conditions, for every header.
\<close>

theorem freezing_leaves_nothing_old:
  assumes "xact_ok env" "multi_ok env" "GetMultiXactIdMembers env 0 = []"
    and "freeze_ops_ok ops cutoffs" "cutoffs_ok ops env cutoffs"
    and "xmax_bits_ok env (t_xmax t) (t_infomask t)" "has HEAP_XMAX_IS_MULTI t \<longrightarrow> multi_header_ok env (t_xmax t) (t_infomask t)"
    and "pg_tde_prepare_freeze_tuple ops env t cutoffs pagefrz = Inr r"
    and "freeze_checks (server_after r) t (the_plan r) = Inr ()"
    and "u = pg_tde_execute_freeze_tuple t (the_plan r)" "members_normal env'"
  shows "nothing_older ops (server_after r) cutoffs u \<and> (totally_frozen r \<longrightarrow> no_ids u) \<and>
    (\<not> freeze_required (page_freeze r) \<longrightarrow> nothing_older ops (server_after r) cutoffs t) \<and>
    (\<not> do_freeze r \<longrightarrow> u = t) \<and>
    (\<forall>h tr. fst (pg_tde_tuple_should_freeze ops env' h cutoffs tr) \<longleftrightarrow> \<not> nothing_older ops env' cutoffs h) \<and>
    (\<forall>h. pg_tde_tuple_needs_eventual_freeze h \<longleftrightarrow> \<not> no_ids h)"
proof -
  have "fst (pg_tde_tuple_should_freeze ops env' h cutoffs tr) \<longleftrightarrow> \<not> nothing_older ops env' cutoffs h" for h tr
    using should_freeze_nothing_older [of env' h] assms(11) unfolding members_normal_def by blast
  then show ?thesis
    using should_freeze_younger [OF frozen_tuple_young(1) [OF assms(1-10)]] frozen_tuple_young(2) [OF assms(1-10)]
      should_freeze_younger [OF not_required_is_young [OF assms(8)]] nothing_to_freeze [OF assms(8)] assms(10)
      needs_eventual_freeze_no_ids by blast
qed

section \<open>A concrete multixact\<close>

text \<open>Multixact 5 has a finished locker, 10, and a running updater, 30.\<close>

definition demo_frz_xact :: xact_env where
  "demo_frz_xact = demo_xact\<lparr>GetMultiXactIdMembers := (\<lambda>m. if m = 5
     then [\<lparr>mxid = 10, mxstatus = MultiXactStatusForShare\<rparr>, \<lparr>mxid = 30, mxstatus = MultiXactStatusUpdate\<rparr>] else [])\<rparr>"

definition demo_freeze_ops :: freeze_ops where
  "demo_freeze_ops = \<lparr>MultiXactIdPrecedes = (<),
     MultiXactIdCreateFromMembers = (\<lambda>env ms. (9, env\<lparr>GetMultiXactIdMembers := (GetMultiXactIdMembers env)(9 := ms)\<rparr>))\<rparr>"

definition demo_cutoffs :: VacuumCutoffs where
  "demo_cutoffs = \<lparr>relfrozenxid = 3, relminmxid = 1, OldestXmin = 15, OldestMxact = 2, FreezeLimit = 15, MultiXactCutoff = 2\<rparr>"

definition demo_pagefrz :: HeapPageFreeze where
  "demo_pagefrz = \<lparr>freeze_required = False, FreezePageRelfrozenXid = 15, FreezePageRelminMxid = 2,
     NoFreezePageRelfrozenXid = 15, NoFreezePageRelminMxid = 2\<rparr>"

definition demo_freeze_plan :: HeapTupleFreeze where
  "demo_freeze_plan = \<lparr>frz_xmax = 30, frz_infomask2 = 0, frz_infomask = 0x0300, frzflags = 0, checkflags = 1, frz_offset = 0\<rparr>"

lemma demo_frz_server:
  "xact_ok demo_frz_xact" "multi_ok demo_frz_xact" "cmds_ok demo_frz_xact" "GetMultiXactIdMembers demo_frz_xact 0 = []"
  "freeze_ops_ok demo_freeze_ops demo_cutoffs" "cutoffs_ok demo_freeze_ops demo_frz_xact demo_cutoffs"
  "snapshot_ok demo_frz_xact demo_snapshot"
  "horizon_ok demo_frz_xact demo_snapshot (\<lambda>x. TransactionIdPrecedes demo_frz_xact x (OldestXmin demo_cutoffs))"
proof -
  show "xact_ok demo_frz_xact"
    using demo_xact_ok by (simp add: xact_ok_def gone_def demo_frz_xact_def)
  show "multi_ok demo_frz_xact"
    by (auto simp: multi_ok_def demo_frz_xact_def demo_xact_def)
  show "cmds_ok demo_frz_xact"
    by (auto simp: cmds_ok_def demo_frz_xact_def demo_xact_def)
  show "GetMultiXactIdMembers demo_frz_xact 0 = []"
    by (simp add: demo_frz_xact_def)
  show "freeze_ops_ok demo_freeze_ops demo_cutoffs"
  proof -
    have "\<exists>run. env\<lparr>GetMultiXactIdMembers := (GetMultiXactIdMembers env)(9 := ms)\<rparr> =
        env\<lparr>GetMultiXactIdMembers := (GetMultiXactIdMembers env)(9 := ms), MultiXactIdIsRunning := run\<rparr>" for env :: xact_env and ms
      by (rule exI [where x = "MultiXactIdIsRunning env"]) simp
    then show ?thesis
      by (auto simp: freeze_ops_ok_def demo_freeze_ops_def demo_cutoffs_def)
  qed
  show "cutoffs_ok demo_freeze_ops demo_frz_xact demo_cutoffs"
    by (auto simp: cutoffs_ok_def demo_cutoffs_def demo_frz_xact_def demo_xact_def)
  show "snapshot_ok demo_frz_xact demo_snapshot"
    using demo_snapshot_ok by (simp add: snapshot_ok_def demo_frz_xact_def)
  show "horizon_ok demo_frz_xact demo_snapshot (\<lambda>x. TransactionIdPrecedes demo_frz_xact x (OldestXmin demo_cutoffs))"
    using demo_horizon_ok(1) by (simp add: horizon_ok_def demo_frz_xact_def demo_cutoffs_def)
qed

lemma demo_frz_tuple:
  "tuple_ok demo_frz_xact (demo_header 10 5 0x1000)"
  "multi_header_ok demo_frz_xact (t_xmax (demo_header 10 5 0x1000)) (t_infomask (demo_header 10 5 0x1000))"
  "xmax_bits_ok demo_frz_xact (t_xmax (demo_header 10 5 0x1000)) (t_infomask (demo_header 10 5 0x1000))"
proof -
  show t: "tuple_ok demo_frz_xact (demo_header 10 5 0x1000)"
    by (simp add: tuple_ok_def demo_header_def demo_frz_xact_def demo_xact_def updater_def HeapTupleGetUpdateXid_def MultiXactIdGetUpdateXid_def
        has_def xmin_bits HEAP_XMAX_IS_LOCKED_ONLY_def)
  show "multi_header_ok demo_frz_xact (t_xmax (demo_header 10 5 0x1000)) (t_infomask (demo_header 10 5 0x1000))"
    by (simp add: multi_header_ok_def demo_header_def demo_frz_xact_def updaters_def HEAP_XMAX_IS_LOCKED_ONLY_def)
  show "xmax_bits_ok demo_frz_xact (t_xmax (demo_header 10 5 0x1000)) (t_infomask (demo_header 10 5 0x1000))"
    by (simp add: xmax_bits_ok_def demo_header_def)
qed

lemma demo_frz_multi:
  "FreezeMultiXactId demo_freeze_ops demo_frz_xact 5 0x1000 demo_cutoffs demo_pagefrz =
     Inr ((FRM_RETURN_IS_XID False, 30), demo_pagefrz\<lparr>freeze_required := True\<rparr>, demo_frz_xact)"
  by (simp add: FreezeMultiXactId_def Let_def HEAP_LOCKED_UPGRADED_def demo_freeze_ops_def demo_frz_xact_def demo_xact_def demo_cutoffs_def
      no_members_def freeze_members_def)

lemma demo_prepare:
  "pg_tde_prepare_freeze_tuple demo_freeze_ops demo_frz_xact (demo_header 10 5 0x1000) demo_cutoffs demo_pagefrz =
     Inr \<lparr>do_freeze = True, the_plan = demo_freeze_plan, totally_frozen = False,
          page_freeze = demo_pagefrz\<lparr>freeze_required := True\<rparr>, server_after = demo_frz_xact\<rparr>"
  using demo_frz_multi
  by (simp add: pg_tde_prepare_freeze_tuple_def prepare_xmin_def prepare_xmax_def demo_header_def HeapTupleHeaderGetXmin_def xmin_bits
      TransactionIdIsNormal_def HeapTupleHeaderGetXvac_def has_def Let_def demo_freeze_plan_def tuple_plan_def)
    (simp add: demo_cutoffs_def demo_frz_xact_def demo_xact_def)
lemma demo_frz_checks: "freeze_checks demo_frz_xact (demo_header 10 5 0x1000) demo_freeze_plan = Inr ()"
  by (simp add: freeze_checks_def demo_freeze_plan_def demo_header_def demo_frz_xact_def demo_xact_def)

lemma demo_frozen: "pg_tde_execute_freeze_tuple (demo_header 10 5 0x1000) demo_freeze_plan = demo_header 10 30 0x0300"
  by (simp add: pg_tde_execute_freeze_tuple_def demo_freeze_plan_def demo_header_def)

lemma demo_frz_visible: "fst (HeapTupleSatisfiesMVCC demo_frz_xact demo_snapshot (demo_vis 10 5 0x1000))"
  by (simp add: HeapTupleSatisfiesMVCC_def vis_then_def MVCC_xmin_def MVCC_xmax_def other_inserter_def Let_def demo_vis_def
      demo_header_def demo_frz_xact_def demo_xact_def demo_snapshot_def has_def HeapTupleHeaderXminCommitted_def HeapTupleHeaderXminInvalid_def
      HEAP_XMAX_IS_LOCKED_ONLY_def SetHintBits_def set_bits_def HeapTupleGetUpdateXid_def MultiXactIdGetUpdateXid_def)

theorem freezing_is_invisible_witness:
  "tuple_ok demo_frz_xact (demo_header 10 30 0x0300) \<and>
   fst (HeapTupleSatisfiesMVCC demo_frz_xact demo_snapshot (demo_vis 10 30 0x0300)) \<and>
   pg_tde_execute_freeze_tuple (demo_header 10 5 0x1000) demo_freeze_plan = demo_header 10 30 0x0300"
proof -
  define r where "r = \<lparr>do_freeze = True, the_plan = demo_freeze_plan, totally_frozen = False,
          page_freeze = demo_pagefrz\<lparr>freeze_required := True\<rparr>, server_after = demo_frz_xact\<rparr>"
  have s: "vt (demo_vis 10 5 0x1000) = demo_header 10 5 0x1000" "the_plan r = demo_freeze_plan" "server_after r = demo_frz_xact"
    by (simp_all add: demo_vis_def r_def)
  have m: "has HEAP_XMAX_IS_MULTI (vt (demo_vis 10 5 0x1000)) \<longrightarrow>
      multi_header_ok demo_frz_xact (t_xmax (vt (demo_vis 10 5 0x1000))) (t_infomask (vt (demo_vis 10 5 0x1000)))"
    using demo_frz_tuple(2) by (simp add: s(1))
  have t: "tuple_ok demo_frz_xact (vt (demo_vis 10 5 0x1000))"
    using demo_frz_tuple(1) by (simp add: s(1))
  have p: "pg_tde_prepare_freeze_tuple demo_freeze_ops demo_frz_xact (vt (demo_vis 10 5 0x1000)) demo_cutoffs demo_pagefrz = Inr r"
    using demo_prepare by (simp add: s(1) r_def)
  have c: "freeze_checks (server_after r) (vt (demo_vis 10 5 0x1000)) (the_plan r) = Inr ()"
    using demo_frz_checks by (simp add: s)
  have v: "vt (demo_vis 10 30 0x0300) = pg_tde_execute_freeze_tuple (vt (demo_vis 10 5 0x1000)) (the_plan r)"
    using demo_frozen by (simp add: s demo_vis_def)
  show ?thesis
    using freezing_is_invisible [OF demo_frz_server(1-6) t m demo_frz_server(7,8) p c v] demo_frz_visible demo_frozen v
    by (simp add: s)
qed

lemma demo_members_normal: "members_normal demo_frz_xact"
  by (simp add: members_normal_def demo_frz_xact_def demo_xact_def TransactionIdIsNormal_def)

theorem freezing_leaves_nothing_old_witness:
  "nothing_older demo_freeze_ops demo_frz_xact demo_cutoffs (demo_header 10 30 0x0300) \<and>
   \<not> nothing_older demo_freeze_ops demo_frz_xact demo_cutoffs (demo_header 10 5 0x1000) \<and>
   fst (pg_tde_tuple_should_freeze demo_freeze_ops demo_frz_xact (demo_header 10 5 0x1000) demo_cutoffs (15, 2))"
proof -
  have m: "has HEAP_XMAX_IS_MULTI (demo_header 10 5 0x1000) \<longrightarrow>
      multi_header_ok demo_frz_xact (t_xmax (demo_header 10 5 0x1000)) (t_infomask (demo_header 10 5 0x1000))"
    using demo_frz_tuple(2) by simp
  have c: "freeze_checks (server_after \<lparr>do_freeze = True, the_plan = demo_freeze_plan, totally_frozen = False,
          page_freeze = demo_pagefrz\<lparr>freeze_required := True\<rparr>, server_after = demo_frz_xact\<rparr>) (demo_header 10 5 0x1000)
      (the_plan \<lparr>do_freeze = True, the_plan = demo_freeze_plan, totally_frozen = False,
          page_freeze = demo_pagefrz\<lparr>freeze_required := True\<rparr>, server_after = demo_frz_xact\<rparr>) = Inr ()"
    using demo_frz_checks by simp
  note left = freezing_leaves_nothing_old [OF demo_frz_server(1,2,4,5,6) demo_frz_tuple(3) m demo_prepare c refl demo_members_normal]
  have "fst (pg_tde_tuple_should_freeze demo_freeze_ops demo_frz_xact (demo_header 10 5 0x1000) demo_cutoffs (15, 2))"
    by (simp add: should_freeze_iff demo_header_def HeapTupleHeaderGetXmin_def xmin_bits TransactionIdIsNormal_def demo_cutoffs_def
        demo_frz_xact_def demo_xact_def)
  then show ?thesis
    using left demo_frozen by simp
qed

end
