(* ===== verification/FreezePage.thy ===== *)
theory FreezePage
  imports Freeze PruneSafety "HOL-Library.Multiset" "HOL-Library.Product_Lexorder"
begin

text \<open>
  Freezing the tuples of a page, \<^verbatim>\<open>src/access/pg_tdeam.c\<close>: the plans of the page's tuples are checked
  and carried out on the bytes of the page, the WAL record that names each distinct plan once, and
  its replay.
\<close>

section \<open>Carrying plans out on a page\<close>

text \<open>
  A store through the header at an address: four fields. Addresses outside the page are undefined.
\<close>

definition store_frozen :: "nat \<Rightarrow> HeapTupleHeader \<Rightarrow> page \<Rightarrow> page" where
  "store_frozen a u pg =
     write_at (write_at pg (a + 4) (le_bytes 4 (t_xmax u) @ le_bytes 4 (t_field3 u)))
       (a + 18) (le_bytes 2 (t_infomask2 u) @ le_bytes 2 (t_infomask u))"

definition item_header :: "page \<Rightarrow> uint16 \<Rightarrow> (nat \<times> HeapTupleHeader) result" where
  "item_header pg offset =
     (let a = unat (lp_off (PageGetItemId pg (unat offset)))
      in if offset = 0 \<or> length pg < 24 + 4 * unat offset then Inl (Undefined ''line pointer outside the page'')
         else if length pg < a + 24 then Inl (Undefined ''tuple outside the page'')
         else Inr (a, header_at pg a))"

fun check_plans :: "xact_env \<Rightarrow> page \<Rightarrow> HeapTupleFreeze list \<Rightarrow> unit result" where
  "check_plans env pg [] = Inr ()"
| "check_plans env pg (frz # tuples) =
     (case item_header pg (frz_offset frz) of
        Inl e \<Rightarrow> Inl e
      | Inr (a, htup) \<Rightarrow> (case freeze_checks env htup frz of Inl e \<Rightarrow> Inl e | Inr u \<Rightarrow> check_plans env pg tuples))"

definition freeze_item :: "HeapTupleFreeze \<Rightarrow> uint16 \<Rightarrow> page \<Rightarrow> page result" where
  "freeze_item frz offset pg =
     (case item_header pg offset of
        Inl e \<Rightarrow> Inl e
      | Inr (a, htup) \<Rightarrow> Inr (store_frozen a (pg_tde_execute_freeze_tuple htup frz) pg))"

fun freeze_items :: "HeapTupleFreeze list \<Rightarrow> page \<Rightarrow> page result" where
  "freeze_items [] pg = Inr pg"
| "freeze_items (frz # tuples) pg =
     (case freeze_item frz (frz_offset frz) pg of Inl e \<Rightarrow> Inl e | Inr pg \<Rightarrow> freeze_items tuples pg)"

section \<open>The WAL record\<close>

record xl_freeze_plan =
  plan_xmax :: uint32
  plan_infomask2 :: uint16
  plan_infomask :: uint16
  plan_frzflags :: uint8
  plan_ntuples :: uint16

text \<open>The record's data are the plans and then the offset numbers, each array in its length.\<close>

record xl_freeze_page =
  xf_snapshotConflictHorizon :: uint32
  xf_nplans :: uint16
  xf_isCatalogRel :: bool
  xf_plans :: "xl_freeze_plan list"
  xf_offsets :: "uint16 list"

definition pg_tde_log_freeze_cmp :: "HeapTupleFreeze \<Rightarrow> HeapTupleFreeze \<Rightarrow> int" where
  "pg_tde_log_freeze_cmp frz1 frz2 =
     (if frz_xmax frz1 < frz_xmax frz2 then -1 else if frz_xmax frz1 > frz_xmax frz2 then 1
      else if frz_infomask2 frz1 < frz_infomask2 frz2 then -1 else if frz_infomask2 frz1 > frz_infomask2 frz2 then 1
      else if frz_infomask frz1 < frz_infomask frz2 then -1 else if frz_infomask frz1 > frz_infomask frz2 then 1
      else if frzflags frz1 < frzflags frz2 then -1 else if frzflags frz1 > frzflags frz2 then 1
      else if frz_offset frz1 < frz_offset frz2 then -1 else if frz_offset frz1 > frz_offset frz2 then 1
      else 0)"

text \<open>
  Plans are never equal to the comparison, since their offset numbers differ; \<^verbatim>\<open>qsort\<close> then has one
  result, here computed with a key (\<open>cmp_is_key\<close> below).
\<close>

definition freeze_key :: "HeapTupleFreeze \<Rightarrow> uint32 \<times> uint16 \<times> uint16 \<times> uint8 \<times> uint16" where
  "freeze_key frz = (frz_xmax frz, frz_infomask2 frz, frz_infomask frz, frzflags frz, frz_offset frz)"

definition qsort :: "HeapTupleFreeze list \<Rightarrow> HeapTupleFreeze list" where
  "qsort tuples = sort_key freeze_key tuples"

definition pg_tde_log_freeze_eq :: "xl_freeze_plan \<Rightarrow> HeapTupleFreeze \<Rightarrow> bool" where
  "pg_tde_log_freeze_eq plan frz \<longleftrightarrow>
     plan_xmax plan = frz_xmax frz \<and> plan_infomask2 plan = frz_infomask2 frz \<and>
     plan_infomask plan = frz_infomask frz \<and> plan_frzflags plan = frzflags frz"

definition pg_tde_log_freeze_new_plan :: "HeapTupleFreeze \<Rightarrow> xl_freeze_plan" where
  "pg_tde_log_freeze_new_plan frz =
     \<lparr>plan_xmax = frz_xmax frz, plan_infomask2 = frz_infomask2 frz, plan_infomask = frz_infomask frz,
      plan_frzflags = frzflags frz, plan_ntuples = 1\<rparr>"

text \<open>The last plan of the output array is the open one.\<close>

definition log_freeze_step :: "HeapTupleFreeze \<Rightarrow> xl_freeze_plan list \<times> uint16 list \<Rightarrow> xl_freeze_plan list \<times> uint16 list" where
  "log_freeze_step frz out =
     (case out of (plans, offsets) \<Rightarrow>
        (if plans \<noteq> [] \<and> pg_tde_log_freeze_eq (last plans) frz
         then butlast plans @ [(last plans)\<lparr>plan_ntuples := plan_ntuples (last plans) + 1\<rparr>]
         else plans @ [pg_tde_log_freeze_new_plan frz],
         offsets @ [frz_offset frz]))"

definition pg_tde_log_freeze_plan :: "HeapTupleFreeze list \<Rightarrow> xl_freeze_plan list \<times> uint16 list" where
  "pg_tde_log_freeze_plan tuples = fold log_freeze_step (qsort tuples) ([], [])"

section \<open>Freezing a page\<close>

record freeze_world =
  fw_page :: page
  fw_dirty :: bool
  fw_wal :: "xl_freeze_page list"

record freeze_rel =
  NeedsWAL :: bool
  AccessibleInLogicalDecoding :: bool
  FreezeXLogInsert :: "xl_freeze_page list \<Rightarrow> uint64"

definition log_freeze :: "freeze_rel \<Rightarrow> uint32 \<Rightarrow> HeapTupleFreeze list \<Rightarrow> freeze_world \<Rightarrow> freeze_world" where
  "log_freeze rel horizon tuples w =
     (if NeedsWAL rel
      then (let (plans, offsets) = pg_tde_log_freeze_plan tuples;
                wal = fw_wal w @ [\<lparr>xf_snapshotConflictHorizon = horizon, xf_nplans = of_nat (length plans),
                                   xf_isCatalogRel = AccessibleInLogicalDecoding rel, xf_plans = plans, xf_offsets = offsets\<rparr>]
            in w\<lparr>fw_wal := wal, fw_page := PageSetLSN (FreezeXLogInsert rel wal) (fw_page w)\<rparr>)
      else w)"

text \<open>More tuples than a page can hold do not fit the arrays on the stack.\<close>

definition pg_tde_freeze_execute_prepared ::
  "xact_env \<Rightarrow> freeze_rel \<Rightarrow> uint32 \<Rightarrow> HeapTupleFreeze list \<Rightarrow> (freeze_world, unit) cmd" where
  "pg_tde_freeze_execute_prepared env rel horizon tuples w =
     (case check_plans env (fw_page w) tuples of
        Inl e \<Rightarrow> (Inl e, w)
      | Inr u \<Rightarrow>
          (case freeze_items tuples (fw_page w) of
             Inl e \<Rightarrow> (Inl e, w)
           | Inr pg \<Rightarrow>
               if NeedsWAL rel \<and> length tuples > MaxHeapTuplesPerPage then (Inl (Undefined ''store outside plans''), w\<lparr>fw_page := pg, fw_dirty := True\<rparr>)
               else (Inr (), log_freeze rel horizon tuples (w\<lparr>fw_page := pg, fw_dirty := True\<rparr>))))"

section \<open>Replay\<close>

text \<open>
  \<open>n\<close> tuples of a plan, with the offset numbers that are left; \<^verbatim>\<open>checkflags\<close> is not set by the replay
  and not read by \<^verbatim>\<open>pg_tde_execute_freeze_tuple\<close>.
\<close>

definition redo_frz :: "xl_freeze_plan \<Rightarrow> HeapTupleFreeze" where
  "redo_frz plan = \<lparr>frz_xmax = plan_xmax plan, frz_infomask2 = plan_infomask2 plan, frz_infomask = plan_infomask plan,
     frzflags = plan_frzflags plan, checkflags = 0, frz_offset = 0\<rparr>"

fun redo_tuples :: "HeapTupleFreeze \<Rightarrow> nat \<Rightarrow> uint16 list \<Rightarrow> page \<Rightarrow> (uint16 list \<times> page) result" where
  "redo_tuples frz 0 offsets pg = Inr (offsets, pg)"
| "redo_tuples frz (Suc n) [] pg = Inl (Undefined ''load outside the record'')"
| "redo_tuples frz (Suc n) (offset # offsets) pg =
     (case freeze_item frz offset pg of Inl e \<Rightarrow> Inl e | Inr pg \<Rightarrow> redo_tuples frz n offsets pg)"

fun redo_plans :: "xl_freeze_plan list \<Rightarrow> uint16 list \<Rightarrow> page \<Rightarrow> page result" where
  "redo_plans [] offsets pg = Inr pg"
| "redo_plans (plan # plans) offsets pg =
     (case redo_tuples (redo_frz plan) (unat (plan_ntuples plan)) offsets pg of
        Inl e \<Rightarrow> Inl e | Inr (offsets, pg) \<Rightarrow> redo_plans plans offsets pg)"

definition pg_tde_xlog_freeze_page :: "xl_freeze_page \<Rightarrow> uint64 \<Rightarrow> bool \<Rightarrow> page \<Rightarrow> page result" where
  "pg_tde_xlog_freeze_page xlrec lsn needs_redo pg =
     (if \<not> needs_redo then Inr pg
      else if length (xf_plans xlrec) < unat (xf_nplans xlrec) then Inl (Undefined ''load outside the record'')
      else (case redo_plans (take (unat (xf_nplans xlrec)) (xf_plans xlrec)) (xf_offsets xlrec) pg of
              Inl e \<Rightarrow> Inl e | Inr pg \<Rightarrow> Inr (PageSetLSN lsn pg)))"
section \<open>One tuple of the page\<close>

lemma cmp_is_key:
  "pg_tde_log_freeze_cmp a b = -1 \<longleftrightarrow> freeze_key a < freeze_key b"
  "pg_tde_log_freeze_cmp a b = 0 \<longleftrightarrow> freeze_key a = freeze_key b"
  by (auto simp: pg_tde_log_freeze_cmp_def freeze_key_def less_prod_def' split: if_splits)

definition freeze_store :: "HeapTupleFreeze \<Rightarrow> uint16 \<Rightarrow> page \<Rightarrow> page" where
  "freeze_store frz offset pg =
     store_frozen (item_at pg (unat offset)) (pg_tde_execute_freeze_tuple (tuple_of pg (unat offset)) frz) pg"

lemma length_store_frozen [simp]: "a + 24 \<le> length pg \<Longrightarrow> length (store_frozen a u pg) = length pg"
  by (simp add: store_frozen_def)

lemma store_frozen_outside:
  assumes "a + 24 \<le> length pg" "b + n \<le> a + 4 \<or> a + 22 \<le> b"
  shows "bytes_at (store_frozen a u pg) b n = bytes_at pg b n"
  using assms by (auto simp: store_frozen_def bytes_at_write_disjoint)

lemma nth_store_frozen:
  assumes "a + 24 \<le> length pg" "k < a + 4 \<or> a + 22 \<le> k" "k < length pg"
  shows "store_frozen a u pg ! k = pg ! k"
  using assms by (auto simp: store_frozen_def nth_write_at)

lemma header_at_store_frozen:
  assumes "a + 24 \<le> length pg"
  shows "header_at (store_frozen a u pg) a =
    (header_at pg a)\<lparr>t_xmax := t_xmax u, t_field3 := t_field3 u, t_infomask2 := t_infomask2 u, t_infomask := t_infomask u\<rparr>"
proof -
  let ?p1 = "write_at pg (a + 4) (le_bytes 4 (t_xmax u) @ le_bytes 4 (t_field3 u))"
  have l: "length ?p1 = length pg"
    using assms by simp
  have "bytes_at (store_frozen a u pg) a 4 = bytes_at pg a 4" "bytes_at (store_frozen a u pg) (a + 12) 2 = bytes_at pg (a + 12) 2"
    "bytes_at (store_frozen a u pg) (a + 14) 2 = bytes_at pg (a + 14) 2" "bytes_at (store_frozen a u pg) (a + 16) 2 = bytes_at pg (a + 16) 2"
    unfolding store_frozen_def using assms l by (simp_all add: bytes_at_write_disjoint)
  moreover have "bytes_at (store_frozen a u pg) (a + 4) 4 = le_bytes 4 (t_xmax u)" "bytes_at (store_frozen a u pg) (a + 8) 4 = le_bytes 4 (t_field3 u)"
    unfolding store_frozen_def using assms l
    by (simp_all add: bytes_at_write_disjoint bytes_at_write_inside) (simp_all add: bytes_at_def)
  moreover have "bytes_at (store_frozen a u pg) (a + 18) 2 = le_bytes 2 (t_infomask2 u)" "bytes_at (store_frozen a u pg) (a + 20) 2 = le_bytes 2 (t_infomask u)"
    unfolding store_frozen_def using assms l
    by (simp_all add: bytes_at_write_inside) (simp_all add: bytes_at_def)
  ultimately show ?thesis
    by (simp add: header_at_def)
qed

lemma execute_keeps: "t_xmin (pg_tde_execute_freeze_tuple t frz) = t_xmin t" "t_ctid (pg_tde_execute_freeze_tuple t frz) = t_ctid t"
  by (simp_all add: pg_tde_execute_freeze_tuple_def Let_def)

text \<open>What a store does on a page in order.\<close>

lemma freeze_store_result:
  assumes "page_wf pg" "lps_ok pg" "normal pg (unat o1)"
  shows "freeze_item frz o1 pg = Inr (freeze_store frz o1 pg)" "same_lps pg (freeze_store frz o1 pg)"
    "tuple_of (freeze_store frz o1 pg) (unat o1) = pg_tde_execute_freeze_tuple (tuple_of pg (unat o1)) frz"
    "normal pg j \<Longrightarrow> j \<noteq> unat o1 \<Longrightarrow> tuple_of (freeze_store frz o1 pg) j = tuple_of pg j"
    "k < item_at pg (unat o1) + 4 \<or> item_at pg (unat o1) + 22 \<le> k \<Longrightarrow> k < 8192 \<Longrightarrow> freeze_store frz o1 pg ! k = pg ! k"
proof -
  let ?a = "item_at pg (unat o1)" and ?pg = "freeze_store frz o1 pg"
  note b = normal_bounds [OF assms] and l = page_wf_length [OF assms(1)] page_wf_lower [OF assms(1)]
  have tup: "tuple_of pg j = header_at pg (item_at pg j)" for pg j
    by (simp add: tuple_of_def PageGetItem_def item_at_def)
  have room: "24 + 4 * unat o1 \<le> unat (pd_lower pg)" "o1 \<noteq> 0"
    using in_page_room [OF l(2)] assms(3) by (auto simp: normal_def in_page_def)
  then show "freeze_item frz o1 pg = Inr (freeze_store frz o1 pg)"
    using b l by (simp add: freeze_item_def item_header_def freeze_store_def Let_def tup item_at_def)
  show s: "same_lps pg ?pg"
    using b l store_frozen_outside [of ?a pg 0 "unat (pd_lower pg)"] by (simp add: same_lps_def freeze_store_def)
  have at: "item_at ?pg j = item_at pg j" if "normal pg j" for j
    using same_lps_item [OF s l(2)] that by (simp add: item_at_def normal_def)
  show "tuple_of ?pg (unat o1) = pg_tde_execute_freeze_tuple (tuple_of pg (unat o1)) frz"
    unfolding tup [of ?pg] at [OF assms(3)] using b l
    by (simp add: freeze_store_def header_at_store_frozen execute_keeps tup [symmetric])
  show "tuple_of ?pg j = tuple_of pg j" if "normal pg j" "j \<noteq> unat o1"
    unfolding tup at [OF that(1)] using normal_disjoint [OF assms(1,2) that(1) assms(3) that(2)] b l
    by (intro header_at_cong) (auto simp: freeze_store_def store_frozen_outside)
  show "k < ?a + 4 \<or> ?a + 22 \<le> k \<Longrightarrow> k < 8192 \<Longrightarrow> ?pg ! k = pg ! k"
    using b l by (simp add: freeze_store_def nth_store_frozen)
qed
section \<open>All tuples of the page, in any order\<close>

lemma write_at_commute:
  assumes "a + length xs \<le> length pg" "b + length ys \<le> length pg" "a + length xs \<le> b \<or> b + length ys \<le> a"
  shows "write_at (write_at pg a xs) b ys = write_at (write_at pg b ys) a xs"
  using assms by (intro nth_equalityI) (auto simp: nth_write_at)

lemma store_frozen_commute:
  assumes "a + 24 \<le> length pg" "b + 24 \<le> length pg" "a + 24 \<le> b \<or> b + 24 \<le> a"
  shows "store_frozen a u (store_frozen b v pg) = store_frozen b v (store_frozen a u pg)"
proof (rule nth_equalityI)
  show "length (store_frozen a u (store_frozen b v pg)) = length (store_frozen b v (store_frozen a u pg))"
    using assms by simp
next
  fix k assume "k < length (store_frozen a u (store_frozen b v pg))"
  then have k: "k < length pg"
    using assms by simp
  have st: "store_frozen c w q ! k = store_frozen c w q' ! k" if "length q = length pg" "length q' = length pg" "c + 24 \<le> length pg" "q ! k = q' ! k"
    for c w q q'
    using that k by (simp add: store_frozen_def nth_write_at)
  consider "k < a + 4 \<or> a + 22 \<le> k" | "k < b + 4 \<or> b + 22 \<le> k"
    using assms(3) by linarith
  then show "store_frozen a u (store_frozen b v pg) ! k = store_frozen b v (store_frozen a u pg) ! k"
  proof cases
    case 1
    have "store_frozen b v (store_frozen a u pg) ! k = store_frozen b v pg ! k"
      using assms(1,2) 1 k by (intro st nth_store_frozen) simp_all
    then show ?thesis
      using assms(1,2) 1 k by (simp add: nth_store_frozen)
  next
    case 2
    have "store_frozen a u (store_frozen b v pg) ! k = store_frozen a u pg ! k"
      using assms(1,2) 2 k by (intro st nth_store_frozen) simp_all
    then show ?thesis
      using assms(1,2) 2 k by (simp add: nth_store_frozen)
  qed
qed

text \<open>A step is a plan and an offset number.\<close>

definition step_on :: "page \<Rightarrow> HeapTupleFreeze \<times> uint16 \<Rightarrow> bool" where
  "step_on pg s \<longleftrightarrow> normal pg (unat (snd s))"

definition do_step :: "HeapTupleFreeze \<times> uint16 \<Rightarrow> page \<Rightarrow> page" where
  "do_step s pg = freeze_store (fst s) (snd s) pg"

lemma do_step_same:
  assumes "page_wf pg" "lps_ok pg" "same_lps pg q" "step_on pg s"
  shows "same_lps pg (do_step s q)" "freeze_item (fst s) (snd s) q = Inr (do_step s q)"
proof -
  note l = page_wf_lower [OF assms(1)]
  note it = same_lps_items [OF assms(3) l]
  have q: "page_wf q" "lps_ok q" "normal q (unat (snd s))"
    using assms it(2,4,5) by (simp_all add: step_on_def)
  have "same_lps q (do_step s q)"
    unfolding do_step_def by (rule freeze_store_result(2) [OF q])
  then show "same_lps pg (do_step s q)"
    using assms(3) same_lps_fields(1) [OF assms(3) l] by (simp add: same_lps_def)
  show "freeze_item (fst s) (snd s) q = Inr (do_step s q)"
    unfolding do_step_def by (rule freeze_store_result(1) [OF q])
qed

lemma do_step_commute:
  assumes "page_wf pg" "lps_ok pg" "same_lps pg q" "step_on pg s" "step_on pg t" "snd s = snd t \<longrightarrow> s = t"
  shows "do_step s (do_step t q) = do_step t (do_step s q)"
proof (cases "s = t")
  case False
  then have ne: "unat (snd s) \<noteq> unat (snd t)"
    using assms(6) by (auto simp: word_unat_eq_iff)
  note l = page_wf_lower [OF assms(1)]
  note it = same_lps_items [OF assms(3) l]
  have q: "page_wf q" "lps_ok q" "normal q (unat (snd s))" "normal q (unat (snd t))"
    using assms it(2,4,5) by (simp_all add: step_on_def)
  note b = normal_bounds [OF q(1,2)] and lq = page_wf_length [OF q(1)] page_wf_lower [OF q(1)]
  have other: "item_at (do_step t q) (unat (snd s)) = item_at q (unat (snd s)) \<and> tuple_of (do_step t q) (unat (snd s)) = tuple_of q (unat (snd s))"
    if "normal q (unat (snd s))" "normal q (unat (snd t))" "unat (snd s) \<noteq> unat (snd t)" for s t :: "HeapTupleFreeze \<times> uint16"
    using freeze_store_result(2,4) [OF q(1,2) that(2)] same_lps_item [of q "freeze_store (fst t) (snd t) q"] that lq
    by (auto simp: do_step_def item_at_def normal_def)
  have "item_at q (unat (snd s)) + 24 \<le> length q" "item_at q (unat (snd t)) + 24 \<le> length q"
    using b q(3,4) lq by simp_all
  then show ?thesis
    using store_frozen_commute normal_disjoint [OF q ne] other [OF q(3,4) ne] other [OF q(4,3) ne [symmetric]]
    unfolding do_step_def freeze_store_def by simp
qed simp

text \<open>The steps may be done in any order.\<close>

lemma do_steps_permuted:
  assumes "page_wf pg" "lps_ok pg" "\<forall>s\<in>set ss. step_on pg s" "distinct (map snd ss)" "mset ss = mset ss'"
  shows "fold do_step ss pg = fold do_step ss' pg"
proof (rule fold_permuted_eq [OF assms(5), where P = "same_lps pg"])
  show "same_lps pg pg"
    by (simp add: same_lps_def)
next
  fix s q assume "s \<in> set ss" "same_lps pg q"
  then show "same_lps pg (do_step s q)"
    using assms(3) by (intro do_step_same(1) [OF assms(1,2)]) auto
next
  fix s t q assume s: "s \<in> set ss" "t \<in> set ss" "same_lps pg q"
  then have "snd s = snd t \<longrightarrow> s = t"
    using assms(4) by (auto simp: distinct_map inj_on_def)
  with s assms(3) show "do_step s (do_step t q) = do_step t (do_step s q)"
    by (intro do_step_commute [OF assms(1,2)]) auto
qed
lemma freeze_item_cong:
  assumes "frz_xmax f = frz_xmax g" "frz_infomask2 f = frz_infomask2 g" "frz_infomask f = frz_infomask g" "frzflags f = frzflags g"
  shows "freeze_item f o1 pg = freeze_item g o1 pg"
  using assms by (simp add: freeze_item_def pg_tde_execute_freeze_tuple_def Let_def split: sum.split)

section \<open>The record says the same\<close>

text \<open>The steps that a tuple stands for, and those that a record does.\<close>

definition tuple_step :: "HeapTupleFreeze \<Rightarrow> HeapTupleFreeze \<times> uint16" where
  "tuple_step frz = (redo_frz (pg_tde_log_freeze_new_plan frz), frz_offset frz)"

fun plan_steps :: "xl_freeze_plan list \<Rightarrow> uint16 list \<Rightarrow> (HeapTupleFreeze \<times> uint16) list" where
  "plan_steps [] offsets = []"
| "plan_steps (p # ps) offsets =
     map (Pair (redo_frz p)) (take (unat (plan_ntuples p)) offsets) @ plan_steps ps (drop (unat (plan_ntuples p)) offsets)"

definition plan_total :: "xl_freeze_plan list \<Rightarrow> nat" where
  "plan_total ps = (\<Sum>p\<leftarrow>ps. unat (plan_ntuples p))"

lemma plan_total_simps [simp]:
  "plan_total [] = 0" "plan_total (p # ps) = unat (plan_ntuples p) + plan_total ps" "plan_total (ps @ qs) = plan_total ps + plan_total qs"
  by (simp_all add: plan_total_def)

lemma plan_steps_append:
  "plan_steps (ps @ qs) offs = plan_steps ps (take (plan_total ps) offs) @ plan_steps qs (drop (plan_total ps) offs)"
proof (induction ps arbitrary: offs)
  case (Cons p ps)
  then show ?case
    by (simp add: take_drop drop_drop add.commute min_absorb1)
qed simp

lemma plan_steps_extra: "plan_total ps \<le> length offs \<Longrightarrow> plan_steps ps (offs @ xs) = plan_steps ps offs"
proof (induction ps arbitrary: offs)
  case (Cons p ps)
  then have "unat (plan_ntuples p) \<le> length offs" "plan_total ps \<le> length (drop (unat (plan_ntuples p)) offs)"
    by simp_all
  with Cons.IH show ?case
    by simp
qed simp

lemma log_freeze_step_steps:
  assumes "log_freeze_step frz (ps, offs) = (ps', offs')" "plan_total ps = length offs" "length offs + 1 < 2 ^ 16"
  shows "plan_total ps' = length offs'" "length offs' = length offs + 1"
    "plan_steps ps' offs' = plan_steps ps offs @ [tuple_step frz]"
proof -
  have o: "offs' = offs @ [frz_offset frz]"
    using assms(1) by (simp add: log_freeze_step_def)
  then show "length offs' = length offs + 1"
    by simp
  have "plan_total ps' = length offs' \<and> plan_steps ps' offs' = plan_steps ps offs @ [tuple_step frz]"
  proof (cases "ps \<noteq> [] \<and> pg_tde_log_freeze_eq (last ps) frz")
    case True
    define bl l where "bl = butlast ps" and "l = last ps"
    have ps: "ps = bl @ [l]" and ps': "ps' = bl @ [l\<lparr>plan_ntuples := plan_ntuples l + 1\<rparr>]"
      using True assms(1) by (simp_all add: bl_def l_def log_freeze_step_def)
    have "unat (plan_ntuples l) \<le> length offs"
      using assms(2) by (simp add: ps)
    then have n: "unat (plan_ntuples l + 1) = unat (plan_ntuples l) + 1"
      using assms(3) unat_add_lt [of "plan_ntuples l" 1] by simp
    have r: "redo_frz (l\<lparr>plan_ntuples := m\<rparr>) = redo_frz (pg_tde_log_freeze_new_plan frz)"
      "redo_frz l = redo_frz (pg_tde_log_freeze_new_plan frz)" for m
      using True by (simp_all add: l_def redo_frz_def pg_tde_log_freeze_eq_def pg_tde_log_freeze_new_plan_def)
    have t: "plan_total bl + unat (plan_ntuples l) = length offs"
      using assms(2) by (simp add: ps)
    then have "plan_steps bl (take (plan_total bl) offs') = plan_steps bl (take (plan_total bl) offs)"
      by (simp add: o)
    moreover have "take (unat (plan_ntuples l) + 1) (drop (plan_total bl) offs') = drop (plan_total bl) offs @ [frz_offset frz]"
      "take (unat (plan_ntuples l)) (drop (plan_total bl) offs) = drop (plan_total bl) offs"
      using t by (simp_all add: o)
    ultimately show ?thesis
      using t unfolding ps ps' plan_steps_append by (simp add: n r tuple_step_def o)
  next
    case False
    then have ps': "ps' = ps @ [pg_tde_log_freeze_new_plan frz]"
      using assms(1) by (auto simp: log_freeze_step_def)
    have "plan_steps ps (take (plan_total ps) offs') = plan_steps ps offs"
      using assms(2) by (simp add: o)
    then show ?thesis
      using assms(2) unfolding ps' plan_steps_append
      by (simp add: o tuple_step_def pg_tde_log_freeze_new_plan_def)
  qed
  then show "plan_total ps' = length offs'" "plan_steps ps' offs' = plan_steps ps offs @ [tuple_step frz]"
    by blast+
qed

lemma log_freeze_steps:
  assumes "fold log_freeze_step ts (ps, offs) = (ps', offs')" "plan_total ps = length offs" "length offs + length ts < 2 ^ 16"
  shows "plan_total ps' = length offs' \<and> length offs' = length offs + length ts \<and>
    plan_steps ps' offs' = plan_steps ps offs @ map tuple_step ts \<and> length ps' \<le> length ps + length ts"
  using assms
proof (induction ts arbitrary: ps offs)
  case (Cons frz ts)
  obtain ps1 offs1 where s: "log_freeze_step frz (ps, offs) = (ps1, offs1)"
    by fastforce
  have "length ps1 \<le> length ps + 1"
    using s by (auto simp: log_freeze_step_def split: if_splits)
  with Cons.IH [of ps1 offs1] log_freeze_step_steps [OF s Cons.prems(2)] Cons.prems s show ?case
    by simp
qed simp

lemma log_freeze_plan_steps:
  assumes "pg_tde_log_freeze_plan tuples = (plans, offsets)" "length tuples \<le> 291"
  shows "plan_total plans = length offsets" "plan_steps plans offsets = map tuple_step (qsort tuples)" "length plans \<le> length tuples"
  using log_freeze_steps [OF assms(1) [unfolded pg_tde_log_freeze_plan_def]] assms(2) by (simp_all add: qsort_def)
section \<open>The page after the call and after the replay\<close>

lemma freeze_items_steps:
  assumes "page_wf pg" "lps_ok pg" "\<forall>frz\<in>set ts. normal pg (unat (frz_offset frz))" "same_lps pg q"
  shows "freeze_items ts q = Inr (fold do_step (map tuple_step ts) q)"
  using assms(3,4)
proof (induction ts arbitrary: q)
  case (Cons frz ts)
  have s: "step_on pg (tuple_step frz)"
    using Cons.prems(1) by (simp add: step_on_def tuple_step_def)
  have "freeze_item frz (frz_offset frz) q = freeze_item (fst (tuple_step frz)) (frz_offset frz) q"
    by (rule freeze_item_cong) (simp_all add: tuple_step_def redo_frz_def pg_tde_log_freeze_new_plan_def)
  moreover have "snd (tuple_step frz) = frz_offset frz"
    by (simp add: tuple_step_def)
  ultimately have "freeze_item frz (frz_offset frz) q = Inr (do_step (tuple_step frz) q)"
    using do_step_same(2) [OF assms(1,2) Cons.prems(2) s] by simp
  with Cons.IH [of "do_step (tuple_step frz) q"] Cons.prems do_step_same(1) [OF assms(1,2) Cons.prems(2) s] show ?case
    by simp
qed simp

lemma redo_tuples_steps:
  assumes "page_wf pg" "lps_ok pg" "\<forall>o1\<in>set (take n offs). normal pg (unat o1)" "same_lps pg q" "n \<le> length offs"
  shows "redo_tuples frz n offs q = Inr (drop n offs, fold do_step (map (Pair frz) (take n offs)) q)"
  using assms(3-5)
proof (induction n arbitrary: offs q)
  case (Suc n)
  then obtain o1 os where o: "offs = o1 # os"
    by (cases offs) auto
  have s: "step_on pg (frz, o1)"
    using Suc.prems(1) by (simp add: step_on_def o)
  have "freeze_item frz o1 q = Inr (do_step (frz, o1) q)"
    using do_step_same(2) [OF assms(1,2) Suc.prems(2) s] by simp
  with Suc.IH [of os "do_step (frz, o1) q"] Suc.prems do_step_same(1) [OF assms(1,2) Suc.prems(2) s] show ?case
    by (simp add: o)
qed simp

lemma fold_do_step_same:
  assumes "page_wf pg" "lps_ok pg" "\<forall>s\<in>set ss. step_on pg s" "same_lps pg q"
  shows "same_lps pg (fold do_step ss q)"
  using assms(3,4)
proof (induction ss arbitrary: q)
  case (Cons s ss)
  then show ?case
    using do_step_same(1) [OF assms(1,2)] by simp
qed simp

lemma redo_plans_steps:
  assumes "page_wf pg" "lps_ok pg" "\<forall>s\<in>set (plan_steps ps offs). step_on pg s" "same_lps pg q" "plan_total ps \<le> length offs"
  shows "redo_plans ps offs q = Inr (fold do_step (plan_steps ps offs) q)"
  using assms(3-5)
proof (induction ps arbitrary: offs q)
  case (Cons p ps)
  let ?n = "unat (plan_ntuples p)"
  have "step_on pg (redo_frz p, o1)" if "o1 \<in> set (take ?n offs)" for o1
    using Cons.prems(1) that by simp
  then have n: "\<forall>o1\<in>set (take ?n offs). normal pg (unat o1)" "?n \<le> length offs"
    using Cons.prems(3) by (simp_all add: step_on_def)
  have "redo_tuples (redo_frz p) ?n offs q = Inr (drop ?n offs, fold do_step (map (Pair (redo_frz p)) (take ?n offs)) q)"
    by (rule redo_tuples_steps [OF assms(1,2) n(1) Cons.prems(2) n(2)])
  moreover have "same_lps pg (fold do_step (map (Pair (redo_frz p)) (take ?n offs)) q)"
    using Cons.prems(1,2) by (intro fold_do_step_same [OF assms(1,2)]) auto
  ultimately show ?case
    using Cons.IH Cons.prems by simp
qed simp

text \<open>The header of each frozen tuple, and every other byte.\<close>

lemma do_steps_result:
  assumes "page_wf pg" "lps_ok pg" "\<forall>s\<in>set ss. step_on pg s" "distinct (map snd ss)" "same_lps pg q"
  shows "(\<forall>s\<in>set ss. tuple_of (fold do_step ss q) (unat (snd s)) = pg_tde_execute_freeze_tuple (tuple_of q (unat (snd s))) (fst s)) \<and>
    (\<forall>j. normal pg j \<and> j \<notin> (\<lambda>s. unat (snd s)) ` set ss \<longrightarrow> tuple_of (fold do_step ss q) j = tuple_of q j) \<and>
    (\<forall>k<8192. (\<forall>s\<in>set ss. k < item_at pg (unat (snd s)) + 4 \<or> item_at pg (unat (snd s)) + 22 \<le> k) \<longrightarrow> fold do_step ss q ! k = q ! k)"
  using assms(3-5)
proof (induction ss arbitrary: q)
  case (Cons s ss)
  note l = page_wf_lower [OF assms(1)]
  note it = same_lps_items [OF Cons.prems(3) l]
  have on: "step_on pg s"
    using Cons.prems(1) by simp
  have q: "page_wf q" "lps_ok q" "normal q (unat (snd s))"
    using assms(1,2) it(2,4,5) on by (simp_all add: step_on_def)
  note st = freeze_store_result [OF q, where frz = "fst s", folded do_step_def]
  have at: "item_at q (unat (snd s)) = item_at pg (unat (snd s))"
    using same_lps_item [OF Cons.prems(3) l] on by (simp add: item_at_def step_on_def normal_def)
  have ih: "(\<forall>t\<in>set ss. tuple_of (fold do_step ss (do_step s q)) (unat (snd t)) = pg_tde_execute_freeze_tuple (tuple_of (do_step s q) (unat (snd t))) (fst t)) \<and>
    (\<forall>j. normal pg j \<and> j \<notin> (\<lambda>s. unat (snd s)) ` set ss \<longrightarrow> tuple_of (fold do_step ss (do_step s q)) j = tuple_of (do_step s q) j) \<and>
    (\<forall>k<8192. (\<forall>s\<in>set ss. k < item_at pg (unat (snd s)) + 4 \<or> item_at pg (unat (snd s)) + 22 \<le> k) \<longrightarrow>
       fold do_step ss (do_step s q) ! k = do_step s q ! k)"
    using Cons.prems do_step_same(1) [OF assms(1,2) Cons.prems(3) on] by (intro Cons.IH) simp_all
  have nin: "unat (snd s) \<noteq> unat (snd t)" if "t \<in> set ss" for t
    using Cons.prems(2) that by (auto simp: word_unat_eq_iff [symmetric] image_iff)
  have n: "normal pg = normal q"
    using it(2) by simp
  have 1: "tuple_of (fold do_step ss (do_step s q)) (unat (snd s)) = pg_tde_execute_freeze_tuple (tuple_of q (unat (snd s))) (fst s)"
  proof -
    have "unat (snd s) \<notin> (\<lambda>s. unat (snd s)) ` set ss"
      using nin by (metis (no_types, lifting) imageE)
    with ih on have "tuple_of (fold do_step ss (do_step s q)) (unat (snd s)) = tuple_of (do_step s q) (unat (snd s))"
      unfolding step_on_def by blast
    with st(3) show ?thesis
      by simp
  qed
  have 2: "tuple_of (fold do_step ss (do_step s q)) (unat (snd t)) = pg_tde_execute_freeze_tuple (tuple_of q (unat (snd t))) (fst t)" if "t \<in> set ss" for t
    using ih st(4) [of "unat (snd t)"] Cons.prems(1) nin [OF that] that by (auto simp: step_on_def n)
  have 3: "tuple_of (fold do_step ss (do_step s q)) j = tuple_of q j" if "normal pg j" "j \<notin> (\<lambda>s. unat (snd s)) ` set (s # ss)" for j
    using ih st(4) [of j] that by (auto simp: n)
  have 4: "fold do_step ss (do_step s q) ! k = q ! k"
    if "k < 8192" "\<forall>t\<in>set (s # ss). k < item_at pg (unat (snd t)) + 4 \<or> item_at pg (unat (snd t)) + 22 \<le> k" for k
    using ih st(5) [of k] that at by auto
  show ?case
    using 1 2 3 4 by simp
qed simp
lemma tuples_fit_page:
  assumes "page_wf pg" "lps_ok pg" "\<forall>frz\<in>set ts. normal pg (unat (frz_offset frz))" "distinct (map frz_offset ts)"
  shows "length ts \<le> 291"
proof -
  have "distinct (map (unat \<circ> frz_offset) ts)"
    using assms(4) by (auto simp: distinct_map inj_on_def word_unat_eq_iff [symmetric])
  then have "length ts = card (set (map (unat \<circ> frz_offset) ts))"
    using distinct_card by fastforce
  also have "\<dots> \<le> card ((\<lambda>q. offsetindex q + 1) ` set (live_items pg))"
  proof (rule card_mono)
    show "set (map (unat \<circ> frz_offset) ts) \<subseteq> (\<lambda>q. offsetindex q + 1) ` set (live_items pg)"
    proof
      fix i assume "i \<in> set (map (unat \<circ> frz_offset) ts)"
      then have "normal pg i"
        using assms(3) by auto
      then show "i \<in> (\<lambda>q. offsetindex q + 1) ` set (live_items pg)"
        by (rule normal_item [OF assms(1,2)]) auto
    qed
  qed simp
  also have "\<dots> \<le> length (live_items pg)"
    using card_image_le [of "set (live_items pg)"] card_length [of "live_items pg"] by (meson finite_set le_trans)
  also have "\<dots> \<le> 291"
    using assms(1) by (simp add: page_wf_def)
  finally show ?thesis .
qed

lemma check_plans_ok:
  assumes "page_wf pg" "lps_ok pg" "\<forall>frz\<in>set ts. normal pg (unat (frz_offset frz)) \<and> freeze_checks env (tuple_of pg (unat (frz_offset frz))) frz = Inr ()"
  shows "check_plans env pg ts = Inr ()"
  using assms(3)
proof (induction ts)
  case (Cons frz ts)
  have n: "normal pg (unat (frz_offset frz))"
    using Cons.prems by simp
  have "24 + 4 * unat (frz_offset frz) \<le> unat (pd_lower pg)" "frz_offset frz \<noteq> 0"
    using in_page_room [OF page_wf_lower [OF assms(1)]] n by (auto simp: normal_def in_page_def)
  then have "item_header pg (frz_offset frz) = Inr (item_at pg (unat (frz_offset frz)), tuple_of pg (unat (frz_offset frz)))"
    using normal_bounds [OF assms(1,2) n] page_wf_length [OF assms(1)]
    by (simp add: item_header_def tuple_of_def PageGetItem_def item_at_def Let_def)
  with Cons show ?case
    by simp
qed simp

text \<open>The outcome of a call for plans of distinct tuples of the page whose checks pass.\<close>

definition freeze_list_ok :: "xact_env \<Rightarrow> page \<Rightarrow> HeapTupleFreeze list \<Rightarrow> bool" where
  "freeze_list_ok env pg ts \<longleftrightarrow>
     distinct (map frz_offset ts) \<and>
     (\<forall>frz\<in>set ts. normal pg (unat (frz_offset frz)) \<and> freeze_checks env (tuple_of pg (unat (frz_offset frz))) frz = Inr ())"

lemma execute_prepared_result:
  assumes "page_wf (fw_page w)" "lps_ok (fw_page w)" "freeze_list_ok env (fw_page w) ts"
  shows "pg_tde_freeze_execute_prepared env rel horizon ts w =
    (Inr (), log_freeze rel horizon ts (w\<lparr>fw_page := fold do_step (map tuple_step ts) (fw_page w), fw_dirty := True\<rparr>))"
proof -
  have n: "\<forall>frz\<in>set ts. normal (fw_page w) (unat (frz_offset frz))"
    using assms(3) by (simp add: freeze_list_ok_def)
  have "check_plans env (fw_page w) ts = Inr ()"
    using assms(3) by (intro check_plans_ok [OF assms(1,2)]) (simp add: freeze_list_ok_def)
  moreover have "freeze_items ts (fw_page w) = Inr (fold do_step (map tuple_step ts) (fw_page w))"
    by (rule freeze_items_steps [OF assms(1,2) n]) (simp add: same_lps_def)
  moreover have "length ts \<le> 291"
    using assms(3) by (intro tuples_fit_page [OF assms(1,2) n]) (simp add: freeze_list_ok_def)
  ultimately show ?thesis
    by (simp add: pg_tde_freeze_execute_prepared_def)
qed

lemma execute_tuple_step: "pg_tde_execute_freeze_tuple t (fst (tuple_step frz)) = pg_tde_execute_freeze_tuple t frz"
  by (simp add: pg_tde_execute_freeze_tuple_def Let_def tuple_step_def redo_frz_def pg_tde_log_freeze_new_plan_def)

lemma snd_tuple_step [simp]: "snd (tuple_step frz) = frz_offset frz"
  by (simp add: tuple_step_def)

text \<open>The page, up to its LSN.\<close>

lemma frozen_page:
  assumes "page_wf pg" "lps_ok pg" "distinct (map frz_offset ts)" "\<forall>frz\<in>set ts. normal pg (unat (frz_offset frz))" "same_lps pg q"
  defines "q' \<equiv> fold do_step (map tuple_step ts) q"
  shows "same_lps pg q'"
    "frz \<in> set ts \<Longrightarrow> tuple_of q' (unat (frz_offset frz)) = pg_tde_execute_freeze_tuple (tuple_of q (unat (frz_offset frz))) frz"
    "normal pg j \<Longrightarrow> j \<notin> unat ` frz_offset ` set ts \<Longrightarrow> tuple_of q' j = tuple_of q j"
    "k < 8192 \<Longrightarrow> \<forall>frz\<in>set ts. k < item_at pg (unat (frz_offset frz)) + 4 \<or> item_at pg (unat (frz_offset frz)) + 22 \<le> k \<Longrightarrow> q' ! k = q ! k"
proof -
  have on: "\<forall>s\<in>set (map tuple_step ts). step_on pg s" and d: "distinct (map snd (map tuple_step ts))"
    using assms(3,4) by (simp_all add: step_on_def comp_def)
  note res = do_steps_result [OF assms(1,2) on d assms(5), folded q'_def]
  show "same_lps pg q'"
    unfolding q'_def by (rule fold_do_step_same [OF assms(1,2) on assms(5)])
  show "tuple_of q' (unat (frz_offset frz)) = pg_tde_execute_freeze_tuple (tuple_of q (unat (frz_offset frz))) frz" if "frz \<in> set ts"
    using conjunct1 [OF res] that by (simp add: execute_tuple_step)
  show "tuple_of q' j = tuple_of q j" if "normal pg j" "j \<notin> unat ` frz_offset ` set ts"
    using conjunct1 [OF conjunct2 [OF res]] that by (simp add: image_image)
  show "k < 8192 \<Longrightarrow> \<forall>frz\<in>set ts. k < item_at pg (unat (frz_offset frz)) + 4 \<or> item_at pg (unat (frz_offset frz)) + 22 \<le> k \<Longrightarrow> q' ! k = q ! k"
    using conjunct2 [OF conjunct2 [OF res]] by simp
qed
lemma PageSetLSN_keeps:
  assumes "page_wf pg" "lps_ok pg"
  shows "same_items pg (PageSetLSN lsn pg)" "8 \<le> k \<Longrightarrow> k < 8192 \<Longrightarrow> PageSetLSN lsn pg ! k = pg ! k"
proof -
  show "same_items pg (PageSetLSN lsn pg)"
    using only_header_items(1) [OF only_header_prune(2) assms] page_wf_length [OF assms(1)] by simp
  show "8 \<le> k \<Longrightarrow> k < 8192 \<Longrightarrow> PageSetLSN lsn pg ! k = pg ! k"
    using page_wf_length [OF assms(1)] by (simp add: PageSetLSN_def nth_write_at)
qed

lemma log_freeze_page:
  "fw_page (log_freeze rel horizon ts w) = fw_page w \<or> (\<exists>lsn. fw_page (log_freeze rel horizon ts w) = PageSetLSN lsn (fw_page w))"
  by (auto simp: log_freeze_def Let_def split: prod.split)

text \<open>
  (C14) Freezing a page changes only transaction fields: for plans of distinct tuples of a page
  in order whose checks pass, the call succeeds, each of these tuples gets the header that its
  plan says, every other tuple keeps its header, and no byte outside the transaction fields of
  the frozen tuples and the page's LSN changes. So the data, which is encrypted for its place,
  needs no new encryption.
\<close>

theorem freeze_changes_headers_only:
  assumes "page_wf (fw_page w)" "lps_ok (fw_page w)" "freeze_list_ok env (fw_page w) tuples"
  shows "\<exists>w'. pg_tde_freeze_execute_prepared env rel horizon tuples w = (Inr (), w') \<and>
    (\<forall>frz\<in>set tuples. tuple_of (fw_page w') (unat (frz_offset frz)) = pg_tde_execute_freeze_tuple (tuple_of (fw_page w) (unat (frz_offset frz))) frz) \<and>
    (\<forall>j. normal (fw_page w) j \<and> j \<notin> unat ` frz_offset ` set tuples \<longrightarrow> tuple_of (fw_page w') j = tuple_of (fw_page w) j) \<and>
    (\<forall>k. 8 \<le> k \<and> k < 8192 \<and> (\<forall>frz\<in>set tuples. k < item_at (fw_page w) (unat (frz_offset frz)) + 4 \<or> item_at (fw_page w) (unat (frz_offset frz)) + 22 \<le> k)
       \<longrightarrow> fw_page w' ! k = fw_page w ! k)"
proof -
  let ?pg = "fw_page w"
  define q where "q = fold do_step (map tuple_step tuples) ?pg"
  define w' where "w' = log_freeze rel horizon tuples (w\<lparr>fw_page := q, fw_dirty := True\<rparr>)"
  have d: "distinct (map frz_offset tuples)" "\<forall>frz\<in>set tuples. normal ?pg (unat (frz_offset frz))" "same_lps ?pg ?pg"
    using assms(3) by (simp_all add: freeze_list_ok_def same_lps_def)
  note f = frozen_page [OF assms(1,2) d, folded q_def]
  note it = same_lps_items [OF f(1) page_wf_lower [OF assms(1)]]
  have q: "page_wf q" "lps_ok q" "normal q = normal ?pg"
    using it(2,4,5) assms(1,2) by simp_all
  have r: "pg_tde_freeze_execute_prepared env rel horizon tuples w = (Inr (), w')"
    unfolding w'_def q_def by (rule execute_prepared_result [OF assms])
  have keeps: "same_items q (fw_page w')" "8 \<le> k \<Longrightarrow> k < 8192 \<Longrightarrow> fw_page w' ! k = q ! k" for k
    using log_freeze_page [of rel horizon tuples "w\<lparr>fw_page := q, fw_dirty := True\<rparr>"] PageSetLSN_keeps [OF q(1,2)]
    unfolding w'_def by (auto simp: same_items_def)
  have t: "tuple_of (fw_page w') j = tuple_of q j" if "normal ?pg j" for j
    using keeps(1) that q(3) by (simp add: same_items_def)
  show ?thesis
    using r t f(2-4) d(2) keeps(2) by (intro exI [of _ w'] conjI) auto
qed

text \<open>
  (C15) Replaying the record of a freezing repeats it: on the same page it leaves the same bytes,
  and on a copy without some of the hint bits every frozen tuple gets the same header and the
  others keep theirs. The record holds each distinct plan once, so it has at most as many plans
  as tuples, and the order of the tuples, which the call sorts, does not matter.
\<close>

theorem redo_freeze_repeats:
  assumes "page_wf (fw_page w)" "lps_ok (fw_page w)" "freeze_list_ok env (fw_page w) tuples" "NeedsWAL rel"
    and "hinted q (fw_page w)" "page_wf q"
  shows "\<exists>w' xlrec q'. pg_tde_freeze_execute_prepared env rel horizon tuples w = (Inr (), w') \<and>
    fw_wal w' = fw_wal w @ [xlrec] \<and> length (xf_plans xlrec) \<le> length tuples \<and>
    pg_tde_xlog_freeze_page xlrec (FreezeXLogInsert rel (fw_wal w')) True q = Inr q' \<and>
    (q = fw_page w \<longrightarrow> q' = fw_page w') \<and>
    (\<forall>j. normal (fw_page w) j \<longrightarrow>
       (if j \<in> unat ` frz_offset ` set tuples then tuple_of q' j = tuple_of (fw_page w') j else tuple_of q' j = tuple_of q j))"
proof -
  let ?pg = "fw_page w"
  obtain plans offsets where lp: "pg_tde_log_freeze_plan tuples = (plans, offsets)"
    by fastforce
  have d: "distinct (map frz_offset tuples)" "\<forall>frz\<in>set tuples. normal ?pg (unat (frz_offset frz))" "same_lps ?pg ?pg"
    using assms(3) by (simp_all add: freeze_list_ok_def same_lps_def)
  have len: "length tuples \<le> 291"
    by (rule tuples_fit_page [OF assms(1,2) d(2,1)])
  note ps = log_freeze_plan_steps [OF lp len]
  have n: "unat (of_nat (length plans) :: uint16) = length plans"
    using ps(3) len by (intro unat_of_nat_lt) simp
  have lq: "24 \<le> unat (pd_lower q)"
    by (rule page_wf_lower [OF assms(6)])
  have hq: "same_lps q ?pg"
    using assms(5) by (simp add: hinted_def)
  have sq: "same_lps ?pg q"
    using hq same_lps_fields(1) [OF hq lq] by (simp add: same_lps_def)
  have lq_ok: "lps_ok q"
    using same_lps_items(4) [OF sq page_wf_lower [OF assms(1)] assms(2)] .
  have nq: "normal q = normal ?pg"
    using same_lps_items(2) [OF sq page_wf_lower [OF assms(1)]] .
  have on: "\<forall>s\<in>set (map tuple_step (qsort tuples)). step_on ?pg s"
    using d(2) by (simp add: step_on_def qsort_def)
  define lsn where "lsn = FreezeXLogInsert rel (fw_wal w @ [\<lparr>xf_snapshotConflictHorizon = horizon, xf_nplans = of_nat (length plans),
      xf_isCatalogRel = AccessibleInLogicalDecoding rel, xf_plans = plans, xf_offsets = offsets\<rparr>])"
  define xlrec where "xlrec = \<lparr>xf_snapshotConflictHorizon = horizon, xf_nplans = of_nat (length plans),
      xf_isCatalogRel = AccessibleInLogicalDecoding rel, xf_plans = plans, xf_offsets = offsets\<rparr>"
  let ?w = "w\<lparr>fw_page := PageSetLSN lsn (fold do_step (map tuple_step tuples) ?pg), fw_dirty := True, fw_wal := fw_wal w @ [xlrec]\<rparr>"
  have r: "pg_tde_freeze_execute_prepared env rel horizon tuples w = (Inr (), ?w)"
    using execute_prepared_result [OF assms(1-3), of rel horizon] assms(4) lp by (simp add: log_freeze_def xlrec_def lsn_def Let_def)
  have perm: "mset (map tuple_step (qsort tuples)) = mset (map tuple_step tuples)"
    by (simp add: qsort_def)
  have "fold do_step (map tuple_step (qsort tuples)) q = fold do_step (map tuple_step tuples) q"
    using d(1,2) nq by (intro do_steps_permuted [OF assms(6) lq_ok _ _ perm]) (auto simp: step_on_def qsort_def comp_def distinct_map inj_on_def)
  moreover have "redo_plans plans offsets q = Inr (fold do_step (map tuple_step (qsort tuples)) q)"
    using redo_plans_steps [OF assms(1,2) _ sq] on ps(1,2) by simp
  ultimately have redo: "pg_tde_xlog_freeze_page xlrec lsn True q = Inr (PageSetLSN lsn (fold do_step (map tuple_step tuples) q))"
    by (simp add: pg_tde_xlog_freeze_page_def xlrec_def n)
  note f = frozen_page [OF assms(1,2) d] and g = frozen_page [OF assms(1,2) d(1,2) sq]
  note fi = same_lps_items [OF f(1) page_wf_lower [OF assms(1)]] and gi = same_lps_items [OF g(1) page_wf_lower [OF assms(1)]]
  have lsn_t: "tuple_of (PageSetLSN lsn p) j = tuple_of p j" if "page_wf p" "lps_ok p" "normal p j" for p j
    using PageSetLSN_keeps(1) [OF that(1,2)] that(3) by (simp add: same_items_def)
  have same: "pg_tde_execute_freeze_tuple (tuple_of q j) frz = pg_tde_execute_freeze_tuple (tuple_of ?pg j) frz" if "normal ?pg j" for j frz
  proof -
    have h: "hint_step (tuple_of q j) (tuple_of ?pg j)"
      using assms(5) that nq by (simp add: hinted_def)
    have "t_field3 (tuple_of ?pg j) = t_field3 (tuple_of q j)"
      using h same_but_hintsD(3) by (auto simp: hint_step_def)
    with hint_step_keeps(1,3) [OF h] show ?thesis
      by (simp add: pg_tde_execute_freeze_tuple_def Let_def)
  qed
  have tup: "if j \<in> unat ` frz_offset ` set tuples
      then tuple_of (PageSetLSN lsn (fold do_step (map tuple_step tuples) q)) j = tuple_of (PageSetLSN lsn (fold do_step (map tuple_step tuples) ?pg)) j
      else tuple_of (PageSetLSN lsn (fold do_step (map tuple_step tuples) q)) j = tuple_of q j" if "normal ?pg j" for j
    using that lsn_t fi(2,4,5) gi(2,4,5) assms(1,2) f(2) g(2,3) same by auto
  have l: "FreezeXLogInsert rel (fw_wal ?w) = lsn" "length (xf_plans xlrec) \<le> length tuples"
    using ps(3) by (simp_all add: lsn_def xlrec_def)
  show ?thesis
  proof (intro exI conjI)
    show "pg_tde_freeze_execute_prepared env rel horizon tuples w = (Inr (), ?w)"
      by (rule r)
    show "pg_tde_xlog_freeze_page xlrec (FreezeXLogInsert rel (fw_wal ?w)) True q = Inr (PageSetLSN lsn (fold do_step (map tuple_step tuples) q))"
      unfolding l(1) by (rule redo)
    show "\<forall>j. normal ?pg j \<longrightarrow> (if j \<in> unat ` frz_offset ` set tuples
        then tuple_of (PageSetLSN lsn (fold do_step (map tuple_step tuples) q)) j = tuple_of (fw_page ?w) j
        else tuple_of (PageSetLSN lsn (fold do_step (map tuple_step tuples) q)) j = tuple_of q j)"
      using tup by simp
  qed (use l(2) in simp_all)
qed
section \<open>A page to freeze\<close>

definition demo_page_plan :: HeapTupleFreeze where
  "demo_page_plan = \<lparr>frz_xmax = 0, frz_infomask2 = 0, frz_infomask = 0x0B00, frzflags = 0, checkflags = 0, frz_offset = 0\<rparr>"

definition demo_page_plans :: "HeapTupleFreeze list" where
  "demo_page_plans = [demo_page_plan\<lparr>frz_offset := 3\<rparr>, demo_page_plan\<lparr>frz_offset := 2\<rparr>]"

definition demo_freeze_rel :: freeze_rel where
  "demo_freeze_rel = \<lparr>NeedsWAL = True, AccessibleInLogicalDecoding = False, FreezeXLogInsert = (\<lambda>wal. 0x0000000100000010)\<rparr>"

definition demo_freeze_world :: freeze_world where
  "demo_freeze_world = \<lparr>fw_page = demo_prune_page, fw_dirty = False, fw_wal = []\<rparr>"

lemma demo_freeze_world_ok:
  "page_wf (fw_page demo_freeze_world)" "lps_ok (fw_page demo_freeze_world)"
  "freeze_list_ok demo_xact (fw_page demo_freeze_world) demo_page_plans"
proof -
  show "page_wf (fw_page demo_freeze_world)" "lps_ok (fw_page demo_freeze_world)"
    using demo_prune_ok by (simp_all add: demo_freeze_world_def prune_page_ok_def)
  have "normal demo_prune_page 2" "normal demo_prune_page 3"
    by (simp_all add: demo_prune_normal)
  then show "freeze_list_ok demo_xact (fw_page demo_freeze_world) demo_page_plans"
    by (simp add: freeze_list_ok_def demo_page_plans_def demo_page_plan_def demo_freeze_world_def freeze_checks_def)
qed

theorem freeze_changes_headers_only_witness:
  "\<exists>w'. pg_tde_freeze_execute_prepared demo_xact demo_freeze_rel 10 demo_page_plans demo_freeze_world = (Inr (), w') \<and>
     t_infomask (tuple_of (fw_page w') 2) = 0x0B00 \<and> fw_page w' ! 8170 = demo_prune_page ! 8170"
proof -
  have i: "item_at demo_prune_page 2 = 8144" "item_at demo_prune_page 3 = 8112"
    by (simp_all add: item_at_def demo_prune_page demo_items)
  obtain w' where w: "pg_tde_freeze_execute_prepared demo_xact demo_freeze_rel 10 demo_page_plans demo_freeze_world = (Inr (), w')"
    "\<forall>frz\<in>set demo_page_plans. tuple_of (fw_page w') (unat (frz_offset frz)) =
       pg_tde_execute_freeze_tuple (tuple_of (fw_page demo_freeze_world) (unat (frz_offset frz))) frz"
    "\<forall>k. 8 \<le> k \<and> k < 8192 \<and> (\<forall>frz\<in>set demo_page_plans. k < item_at (fw_page demo_freeze_world) (unat (frz_offset frz)) + 4 \<or>
         item_at (fw_page demo_freeze_world) (unat (frz_offset frz)) + 22 \<le> k)
       \<longrightarrow> fw_page w' ! k = fw_page demo_freeze_world ! k"
    using freeze_changes_headers_only [OF demo_freeze_world_ok, of demo_freeze_rel 10] by blast
  have "t_infomask (tuple_of (fw_page w') 2) = 0x0B00"
    using w(2) by (simp add: demo_page_plans_def demo_page_plan_def pg_tde_execute_freeze_tuple_def)
  moreover have "fw_page w' ! 8170 = demo_prune_page ! 8170"
    using spec [OF w(3), of 8170] i by (simp add: demo_page_plans_def demo_page_plan_def demo_freeze_world_def)
  ultimately show ?thesis
    using w(1) by blast
qed

theorem redo_freeze_repeats_witness:
  "\<exists>w' xlrec. pg_tde_freeze_execute_prepared demo_xact demo_freeze_rel 10 demo_page_plans demo_freeze_world = (Inr (), w') \<and>
     fw_wal w' = [xlrec] \<and> pg_tde_xlog_freeze_page xlrec 0x0000000100000010 True demo_prune_page = Inr (fw_page w')"
proof -
  have p: "fw_page demo_freeze_world = demo_prune_page" "fw_wal demo_freeze_world = []" "NeedsWAL demo_freeze_rel"
    by (simp_all add: demo_freeze_world_def demo_freeze_rel_def)
  have h: "hinted demo_prune_page (fw_page demo_freeze_world)" "page_wf demo_prune_page"
    using demo_freeze_world_ok(1) by (simp_all add: p)
  obtain w' xlrec q' where
    "pg_tde_freeze_execute_prepared demo_xact demo_freeze_rel 10 demo_page_plans demo_freeze_world = (Inr (), w')"
    "fw_wal w' = fw_wal demo_freeze_world @ [xlrec]"
    "pg_tde_xlog_freeze_page xlrec (FreezeXLogInsert demo_freeze_rel (fw_wal w')) True demo_prune_page = Inr q'"
    "demo_prune_page = fw_page demo_freeze_world \<longrightarrow> q' = fw_page w'"
    using redo_freeze_repeats [OF demo_freeze_world_ok p(3) h, of 10] by blast
  then show ?thesis
    by (intro exI [of _ w'] exI [of _ xlrec]) (simp add: p demo_freeze_rel_def)
qed

end
