(* ===== verification/Spec2Isabelle.thy ===== *)
theory Spec2Isabelle
  imports TupleStore TdeDdl VisibilityMap TupleLock Repair RootTuples FreezePage
begin

text \<open>
  A model of pg_tde, the PostgreSQL extension that encrypts the tables of an access method of
  its own, and theorems about it. Line and function names refer to the repository.

  The program. A master key lives in a keyring (\<^verbatim>\<open>src/keyring\<close>): a cache in shared memory
  behind which a file or a Vault server keeps the keys. Each table has an internal key, drawn
  when the table is created and kept, encrypted under the master key, in a file
  \<^verbatim>\<open><relfilenode>.tde\<close> beside the table (\<^verbatim>\<open>src/access/pg_tde_tdemap.c\<close>); the file follows
  the transaction that creates or drops the table (\<^verbatim>\<open>src/transam/pg_tde_xact_handler.c\<close>,
  \<^verbatim>\<open>src/access/pg_tde_ddl.c\<close>). The data part of a tuple is XORed with a keystream, the AES
  encryption of the number of each 16-byte block of the table's file
  (\<^verbatim>\<open>src/encryption\<close>). Above this lies a copy of PostgreSQL's heap access method
  (\<^verbatim>\<open>src/access/pg_tdeam*.c\<close>).

  The theories.
  \<^item> \<open>TdePrelude\<close>: machine types, errors as values, state passing, byte buffers, lists, words.
  \<^item> \<open>EncAes\<close>: the AES layer; a batch of counter blocks, its bounds and its result.
  \<^item> \<open>TdeTypes\<close>, \<open>EncTuple\<close>: key data, the encryption of a range of a file, of a tuple, and
    its move; the locale \<open>position_cipher\<close> is what its callers rely on.
  \<^item> \<open>KeyringConfig\<close>, \<open>Keyring\<close>: configuration, cache, providers, versions; the locale
    \<open>key_store\<close> is the contract of the cache. Two writes of the code run past an array
    (\<open>strcpy_overflow\<close>, \<open>cache_overflow\<close>); the properties say when, and what holds otherwise. A data
    file that was cut short is read over the start of the cache (\<open>read_over\<close>).
  \<^item> \<open>XactHandler\<close>: file deletions at the end of a transaction, and nested transactions as
    their specification.
  \<^item> \<open>TdeMap\<close>: the key fork, its layout, WAL and the backend's key cache.
  \<^item> \<open>TupleStore\<close>: adding a tuple to a page and reading it into a slot.
  \<^item> \<open>TdeDdl\<close>: creation, move and drop of tables, start-up of the module.
  \<^item> \<open>VisibilityMap\<close>: the map of two bits per heap block, its growth, count and truncation; the
    locale \<open>two_bit_map\<close> is what the heap code relies on.
  \<^item> \<open>HeapHeader\<close>: the transaction part of a tuple header, its information bits, multixacts, and
    the environment of transactions around a tuple.
  \<^item> \<open>Visibility\<close>: the visibility checks and their specification without hint bits.
  \<^item> \<open>TupleLock\<close>: the new xmax of a locked or updated tuple, conflicts, and lock bits in WAL.
  \<^item> \<open>PageLayout\<close>: the fields of a heap page's header and of its line pointers, on the bytes.
  \<^item> \<open>Compact\<close>, \<open>Repair\<close>: the defragmentation of a page with its re-encryption, and what it keeps
    and breaks of the page. \<open>page_wf\<close> is the state a heap page is in between operations.
  \<^item> \<open>PruneChain\<close>, \<open>PrunePlan\<close>: which tuples \<^verbatim>\<open>pg_tde_page_prune\<close> removes: the visibility of each, the
    walk along the update chains, the lists of line pointers to change; and what the lists
    contain, over the links of the page (\<open>chain_link\<close>, \<open>doomed\<close>) instead of the walk.
  \<^item> \<open>Prune\<close>, \<open>PrunePage\<close>: carrying the lists out, the WAL record and its replay
    (\<^verbatim>\<open>pg_tde_xlog_prune\<close>), and what each step keeps of the page. \<open>prune_page_ok\<close> is the state of a
    page that can be pruned.
  \<^item> \<open>PruneSafety\<close>: the properties of one whole call. The tuples of the page have one length there and,
    where their contents matter, a header of 24 bytes, since for others the defragmentation is wrong
    (theory \<open>Repair\<close>, there also \<open>longer_item_overwrites\<close>). The redo routine is modelled although the
    extension does not register it.
  \<^item> \<open>RootTuples\<close>: opportunistic pruning and \<^verbatim>\<open>pg_tde_get_root_tuples\<close>, the roots of a page's chains.
  \<^item> \<open>Freeze\<close>: what a vacuum does to the ids of one tuple: \<^verbatim>\<open>FreezeMultiXactId\<close>, the plan for a tuple,
    carrying it out, and whether a tuple must be frozen. \<open>freeze_ops_ok\<close>, \<open>cutoffs_ok\<close> and \<open>cmds_ok\<close> state
    what the server promises about new multixacts, the cutoffs and command ids.
  \<^item> \<open>FreezePage\<close>: freezing the tuples of a page, the record with each distinct plan once, and its
    replay (\<^verbatim>\<open>pg_tde_xlog_freeze_page\<close>).
  This theory composes them: a table that is created and inserted into, and that is read after the
  restart of the server.

  How it is modelled. Each C function has a definition of its name. A function that may raise an
  error has the result type \<open>pgerror + 'a\<close>; \<open>Ereport\<close> is an \<^verbatim>\<open>ereport\<close> or \<^verbatim>\<open>elog\<close> of level
  ERROR or above, and \<open>Undefined\<close> stands for what C leaves undefined (an access outside an
  array, signed overflow, a failed assertion), so that a result \<open>Inr\<close> says it does not happen; where
  the code goes on after such a write, the state shows what the model can show of it.
  Global variables and shared memory are records that are passed along; an error keeps the
  changes made before it. Machine integers are words, loops are recursive functions with a
  termination proof, so no fuel is used; only the walks that links in a circle make endless
  (\<open>root_walk\<close>) are partial functions, with proofs of when they return. OpenSSL, curl, json-c, the file system and PostgreSQL's
  own routines are parameters; what the proofs use of them is stated as a hypothesis
  (\<open>evp_ecb_contract\<close>, \<open>evp_cbc_contract\<close>, \<open>item_added\<close>), and each such theorem has an instance
  on concrete functions, named with the suffix \<open>_witness\<close>.

  The visibility and lock routines are those of a build without assertions; in the visibility
  map a failed assertion is \<open>Undefined\<close>. What the server knows of transactions, multixacts and
  snapshots is a parameter (\<open>xact_env\<close>, \<open>Snapshot\<close>) with the hypotheses \<open>xact_ok\<close>, \<open>multi_ok\<close>,
  \<open>multi_ops_ok\<close>, \<open>snapshot_ok\<close> and \<open>horizon_ok\<close>; \<open>tuple_ok\<close> says that the hint bits of a tuple are
  right and that it was not moved by a VACUUM FULL of a server before 9.0.

  Not modelled. Concurrency: the keyring has no locks and backends are not interleaved; buffer
  locks and waits are left out. The scan, modification, vacuum, rewrite and TOAST
  code of the access method is a copy of PostgreSQL's in which the calls of the encryption are
  the addition; of it the parts named above are modelled. Log messages below ERROR, memory
  contexts and the stand-alone test programs are left out.
\<close>

section \<open>Create, insert, restart, read\<close>

text \<open>A server started anew on the files and the keyring of \<open>t\<close>: no backend state is left.\<close>

definition restarted :: "('c, 'w) tde_state \<Rightarrow> 'w keyring_state \<Rightarrow> ('c, 'w) tde_state" where
  "restarted t k =
     \<lparr>pendingDeletes = [], xs_nestLevel = 1, xs_files = xs_files t, td_keyring = k,
      tde_rel_keys_map = [], td_heap = [], td_wal = td_wal t\<rparr>"

text \<open>
  (C1) The life of an encrypted table: a table is created, a tuple is inserted, the transaction
  commits and the server is restarted with the keys that were in its keyring
  (\<open>stored_keys_survive_restart\<close> gives this for the file provider). The insertion encrypts with the
  key drawn at the creation, which the backend has in memory; the key file holds that key encrypted
  under a master key of the keyring; and a backend of the new server, which has to find the key in
  that file, decrypts the page that was written before the restart to the bytes inserted.
\<close>

theorem encrypted_table_survives_restart:
  assumes "tde_ready env E D" "crypto_ready (te_crypto env) Eb ready" "keyring_wf (td_keyring s)" "length bs = 16"
    and "rd_relkind rel = RELKIND_RELATION" "pg_tde_get_key_file_path env loc = Some f" "xs_files s f = None"
    and "pendingDeletes s = []" "xs_nestLevel s = 1" "open_rdonly env f" "FileRead env f 304 = 304"
    and "pg_tdeam_relation_set_new_filelocator env xid multi (Some bs) mrnd rel loc RELPERSISTENCE_PERMANENT s = (Inr res, t)"
    and "keyring_wf k" "keyring_view k = keyring_view (td_keyring t)"
    and "add pg item n offnum flags = (off, pg1)" "item_added pg1 item n" "item_wf item n"
  shows "\<exists>pg2 t2 u2 mk. PGTdePageAddItemExtended env add loc bn item n offnum flags (t, pg) = (Inr off, (t2, pg2)) \<and>
     take (n - t_hoff item) (drop (unat (pd_upper pg1) + t_hoff item) pg2) =
       ctr_xor (keystream (te_crypto env) (Eb bs)) (unat (offset_in_file bn (ucast (pd_upper pg1)))) (take (n - t_hoff item) (drop (t_hoff item) item)) \<and>
     keyring_view (td_keyring t) (ki_name mk) = Some (ki_data mk) \<and>
     xs_files (pg_tde_xact_callback unlink_ok XACT_EVENT_COMMIT t2) f =
       Some (header_bytes (ki_name mk) @ key_bytes env (sealed_key E mk (fresh_key bs))) \<and>
     PGTdeExecStoreBufferHeapTuple env (rd_relkind rel) loc bn (tuple_at pg2 (pd_upper pg1) n)
        (restarted (pg_tde_xact_callback unlink_ok XACT_EVENT_COMMIT t2) k) = (Inr (of_nat n, take n item), u2)"
proof -
  let ?s = "s\<lparr>td_wal := td_wal s @ [(0, locator_bytes loc @ key_bytes env (fresh_key bs))]\<rparr>"
  let ?k = "fresh_key bs :: 'a InternalKey" and ?p = "length (td_heap s)"
  have "has_key_fork rel" using assms(5) by (simp add: has_key_fork_def)
  then have "pg_tde_create_key_fork env (Some bs) mrnd loc s = (Inr (), t)"
    using assms(12) by (auto simp: pg_tdeam_relation_set_new_filelocator_def bindC_def returnC_def split: sum.splits prod.splits)
  then have w: "pg_tde_write_key_fork env mrnd loc ?k ?s = (Inr (), t)"
    using create_steps by blast
  have kk: "length (key ?k) = 16" "ctx ?k = None" using assms(4) by (simp_all add: fresh_key_def)
  have r: "keyringProvider (te_cfg env) = PROVIDER_FILE" "length (name_stem (te_cfg env) MasterKeyName) \<le> 245"
    "cbc_ready (te_crypto env) E D" "keyring_wf (td_keyring ?s)"
    using assms(1,3) by (simp_all add: tde_ready_def)
  obtain mk f' v where m: "pg_tde_get_key_file_path env loc = Some f'"
      "keyring_view (td_keyring t) (ki_name mk) = Some (ki_data mk)" "ki_name mk = version_name (te_cfg env) MasterKeyName v"
    and t: "t = ?s\<lparr>td_keyring := td_keyring t,
      xs_files := (xs_files ?s)(f' \<mapsto> header_bytes (ki_name mk) @ key_bytes env (sealed_key E mk ?k) @
        drop 304 (case xs_files ?s f' of None \<Rightarrow> [] | Some old \<Rightarrow> old)),
      pendingDeletes := \<lparr>pd_path = f', pd_atCommit = False, pd_nestLevel = xs_nestLevel ?s\<rparr> # pendingDeletes ?s,
      td_heap := td_heap ?s @ [single_key (ki_name mk) ?k],
      tde_rel_keys_map := [(relNumber loc, length (td_heap ?s))]\<rparr>"
    by (rule write_key_fork_success [OF r(4,1,2,3) kk w])
  have ff: "f' = f" using m(1) assms(6) by simp
  have st: "pendingDeletes t = [\<lparr>pd_path = f, pd_atCommit = False, pd_nestLevel = 1\<rparr>]" "xs_nestLevel t = 1"
    "xs_files t f = Some (header_bytes (ki_name mk) @ key_bytes env (sealed_key E mk ?k))"
    "tde_rel_keys_map t = [(relNumber loc, ?p)]" "td_heap t = td_heap s @ [single_key (ki_name mk) ?k]"
    using arg_cong [OF t, of pendingDeletes] arg_cong [OF t, of xs_nestLevel] arg_cong [OF t, of xs_files]
      arg_cong [OF t, of tde_rel_keys_map] arg_cong [OF t, of td_heap] assms(7-9) ff
    by simp_all
  have here: "GetRelationKeys env loc t = (Inr ?p, t)" "?p < length (td_heap t)" "td_heap t ! ?p = single_key (ki_name mk) ?k"
    using st(4,5) by (simp_all add: GetRelationKeys_def)
  have ok: "session_ok (te_crypto env, Eb, ready, single_key (ki_name mk) ?k)"
    using assms(2) kk(2) by (simp add: single_key_def key0_def)
  define t2 where "t2 x = set_keys ?p x t" for x :: "'a RelKeysData"
  have same: "pendingDeletes (t2 x) = pendingDeletes t" "xs_nestLevel (t2 x) = xs_nestLevel t" "xs_files (t2 x) = xs_files t" for x
    by (simp_all add: t2_def set_keys_def)
  let ?u = "\<lambda>x. restarted (pg_tde_xact_callback unlink_ok XACT_EVENT_COMMIT (t2 x)) k"
  have disk: "xs_files (pg_tde_xact_callback unlink_ok XACT_EVENT_COMMIT (t2 x)) f =
      Some (header_bytes (ki_name mk) @ key_bytes env (sealed_key E mk ?k))" for x
    using st(1-3) same [of x] by (simp add: pg_tde_xact_callback_def xact_results)
  have img: "xs_files (?u x) f = Some (header_bytes (ki_name mk) @ key_bytes env (sealed_key E mk ?k))" for x
    by (simp add: restarted_def disk)
  have "\<exists>v. GetRelationKeys env loc (?u x) = (Inr 0, v) \<and> td_heap v = [single_key (ki_name mk) ?k]" for x
  proof -
    have "pg_tde_get_keys_from_fork env loc (?u x) =
        (Inr (length (td_heap (?u x))), (?u x)\<lparr>td_heap := td_heap (?u x) @ [single_key (ki_name mk) ?k]\<rparr>)"
    proof (rule get_keys_from_fork_result [OF r(3) kk assms(6,10,11) img])
      show "length (ki_name mk) < 256" "c_str (ki_name mk)"
        unfolding m(3) by (rule length_version_name, rule c_str_master_name [OF assms(1)])
    qed (use assms(13,14) m(2) in \<open>simp_all add: restarted_def\<close>)
    then show ?thesis
      by (simp add: GetRelationKeys_def bindC_def put_keys_into_map_def restarted_def)
  qed
  then obtain g where g: "\<And>x. GetRelationKeys env loc (?u x) = (Inr 0, g x)" "\<And>x. td_heap (g x) = [single_key (ki_name mk) ?k]"
    by metis
  have rk: "rd_relkind rel \<noteq> RELKIND_TOASTVALUE" using assms(5) by simp
  have ok1: "session_ok (te_crypto env, Eb, ready, td_heap t ! ?p)"
    unfolding here(3) by (rule ok)
  have ok2: "session_ok (te_crypto env, Eb, ready, td_heap (g x) ! 0)" for x
    unfolding g(2) using ok by simp
  have same_key: "key (key0 (td_heap (g x) ! 0)) = key (key0 (td_heap t ! ?p))" for x
    unfolding g(2) here(3) by simp
  have stream: "session_stream (te_crypto env, Eb, ready, td_heap t ! ?p) = keystream (te_crypto env) (Eb bs)"
    unfolding here(3) using assms(4) by (simp add: single_key_def key0_def fresh_key_def)
  note sound = inserted_tuple_sound [where add = add and pg = pg and item = item and n = n and offnum = offnum and flags = flags, OF here(1,2) ok1 assms(15-17)]
  from sound [where bn = bn, OF g(1) [of undefined] ok2 [of undefined] same_key [of undefined] rk] obtain x pg2 where
    ins: "PGTdePageAddItemExtended env add loc bn item n offnum flags (t, pg) = (Inr off, (t2 x, pg2))"
    unfolding t2_def by blast
  from sound [where bn = bn, OF g(1) [of x] ok2 [of x] same_key [of x] rk] ins obtain u2 where
    pg2: "pg2 = take (unat (pd_upper pg1) + t_hoff item) pg1 @
       ctr_xor (keystream (te_crypto env) (Eb bs)) (unat (offset_in_file bn (ucast (pd_upper pg1))))
         (take (n - t_hoff item) (drop (t_hoff item) item)) @ drop (unat (pd_upper pg1) + n) pg1"
    and read: "PGTdeExecStoreBufferHeapTuple env (rd_relkind rel) loc bn (tuple_at pg2 (pd_upper pg1) n) (?u x) = (Inr (of_nat n, take n item), u2)"
    unfolding stream by (auto simp del: session_stream.simps)
  have "t_hoff item \<le> n" "n \<le> length item" "length pg1 = 8192" "unat (pd_upper pg1) + n \<le> 8192"
    using assms(16,17) by (simp_all add: item_added_def item_wf_def)
  then have "take (n - t_hoff item) (drop (unat (pd_upper pg1) + t_hoff item) pg2) =
       ctr_xor (keystream (te_crypto env) (Eb bs)) (unat (offset_in_file bn (ucast (pd_upper pg1)))) (take (n - t_hoff item) (drop (t_hoff item) item))"
    by (simp add: pg2 min_absorb2)
  with ins m(2) disk [of x] read show ?thesis
    by blast
qed

theorem encrypted_table_survives_restart_witness:
  "\<exists>res t pg2 t2 u2 pg1.
     pg_tdeam_relation_set_new_filelocator demo_tde_env 3 1 (Some (replicate 16 7)) (Some (replicate 16 3)) demo_rel demo_loc
        RELPERSISTENCE_PERMANENT demo_tde_state = (Inr res, t) \<and>
     PGTdePageAddItemExtended demo_tde_env demo_add demo_loc 7 demo_item 27 0 0 (t, demo_page) = (Inr 1, (t2, pg2)) \<and>
     PGTdeExecStoreBufferHeapTuple demo_tde_env (rd_relkind demo_rel) demo_loc 7 (tuple_at pg2 (pd_upper pg1) 27)
        (restarted (pg_tde_xact_callback (\<lambda>_. True) XACT_EVENT_COMMIT t2) (td_keyring t)) = (Inr (of_nat 27, take 27 demo_item), u2)"
proof -
  obtain t where t: "pg_tde_create_key_fork demo_tde_env (Some (replicate 16 7)) (Some (replicate 16 3)) demo_loc demo_tde_state = (Inr (), t)"
    by (rule demo_create)
  then obtain res where res: "pg_tdeam_relation_set_new_filelocator demo_tde_env 3 1 (Some (replicate 16 7)) (Some (replicate 16 3)) demo_rel demo_loc
        RELPERSISTENCE_PERMANENT demo_tde_state = (Inr res, t)"
    by (simp add: pg_tdeam_relation_set_new_filelocator_def bindC_def returnC_def has_key_fork_def demo_rel_def)
  let ?s = "demo_tde_state\<lparr>td_wal := td_wal demo_tde_state @ [(0, locator_bytes demo_loc @ key_bytes demo_tde_env (fresh_key (replicate 16 7)))]\<rparr>"
  have w: "pg_tde_write_key_fork demo_tde_env (Some (replicate 16 3)) demo_loc (fresh_key (replicate 16 7)) ?s = (Inr (), t)"
    using create_steps [OF t refl] by simp
  have wft: "keyring_wf (td_keyring t)"
  proof (rule write_key_fork_success [OF _ _ _ _ _ _ w])
    show "cbc_ready (te_crypto demo_tde_env) demo_E demo_E" "keyringProvider (te_cfg demo_tde_env) = PROVIDER_FILE"
      "length (name_stem (te_cfg demo_tde_env) MasterKeyName) \<le> 245"
      using demo_tde_ready by (simp_all add: tde_ready_def)
  qed (simp_all add: fresh_key_def demo_tde_state_def)
  define pg1 where "pg1 = snd (demo_add demo_page demo_item 27 0 0)"
  have a: "demo_add demo_page demo_item 27 0 0 = (1, pg1)" "item_added pg1 demo_item 27"
    using demo_add_item [OF demo_item_wf, of demo_page 0 0]
    by (simp_all add: pg1_def demo_page_def prod_eq_iff)
  have c: "crypto_ready (te_crypto demo_tde_env) demo_E demo_ready"
    using demo_crypto_ready by (simp add: demo_tde_env_def)
  have d: "keyring_wf (td_keyring demo_tde_state)" "length (replicate 16 (7 :: byte)) = 16"
    "rd_relkind demo_rel = RELKIND_RELATION" "xs_files demo_tde_state demo_path = None"
    "pendingDeletes demo_tde_state = []" "xs_nestLevel demo_tde_state = 1" "open_rdonly demo_tde_env demo_path"
    "FileRead demo_tde_env demo_path 304 = 304"
    by (simp_all add: demo_tde_state_def demo_rel_def demo_tde_env_def)
  from encrypted_table_survives_restart [OF demo_tde_ready c d(1-3) demo_path d(4-8) res wft refl, of demo_add demo_page demo_item 27 0 0 1 pg1 7 "\<lambda>_. True"]
    a demo_item_wf res
  show ?thesis by blast
qed

end
